(* ===== verification/TE_Prelude.thy ===== *)
theory TE_Prelude
  imports Main "HOL-Library.Word"
begin

unbundle bit_operations_syntax

text \<open>
  Shared vocabulary of the development: the machine integer types of the Windows headers, the
  NTSTATUS values that the modelled code returns, byte memory with little-endian 64-bit cells,
  and the word and list lemmas that several components use. The collection
  \<^theory_text>\<open>unat_simps\<close> turns machine arithmetic into arithmetic on natural numbers.
\<close>

section \<open>Machine integers\<close>

type_synonym u8 = "8 word"
type_synonym u16 = "16 word"
type_synonym u32 = "32 word"
type_synonym u64 = "64 word"

text \<open>
  The results of the modelled routines, named as in the NTSTATUS headers. \<open>STATUS_SYSTEM_ERROR\<close>
  stands for every other failure that a routine of the system reports.
\<close>

datatype ntstatus =
    STATUS_SUCCESS
  | STATUS_INTEGER_OVERFLOW
  | STATUS_REVISION_MISMATCH
  | STATUS_INVALID_MESSAGE
  | STATUS_INVALID_PARAMETER
  | STATUS_INVALID_PARAMETER_2
  | STATUS_INVALID_PARAMETER_3
  | STATUS_INSUFFICIENT_RESOURCES
  | STATUS_ALREADY_COMMITTED
  | STATUS_NOT_FOUND
  | STATUS_BUFFER_TOO_SMALL
  | STATUS_INFO_LENGTH_MISMATCH
  | STATUS_INVALID_INFO_CLASS
  | STATUS_CONTEXT_MISMATCH
  | STATUS_HEAP_CORRUPTION
  | STATUS_SI_DYNDATA_INVALID_LENGTH
  | STATUS_SI_DYNDATA_VERSION_MISMATCH
  | STATUS_SI_DYNDATA_UNSUPPORTED_KERNEL
  | STATUS_ACCESS_DENIED
  | STATUS_INVALID_CID
  | STATUS_INVALID_LEVEL
  | STATUS_MESSAGE_NOT_FOUND
  | STATUS_NOINTERFACE
  | STATUS_PRIVILEGE_NOT_HELD
  | STATUS_TOO_LATE
  | STATUS_UNSUCCESSFUL
  | STATUS_TIMEOUT
  | STATUS_QUOTA_EXCEEDED
  | STATUS_INVALID_STATE_TRANSITION
  | STATUS_NO_TOKEN
  | STATUS_SYSTEM_ERROR u32

abbreviation NT_SUCCESS :: "ntstatus \<Rightarrow> bool" where
  "NT_SUCCESS st \<equiv> st = STATUS_SUCCESS"

named_theorems unat_simps \<open>machine arithmetic as arithmetic on nat\<close>

lemma unat_lt_u8 [simp]: "unat (w :: u8) < 256"
  using unsigned_less [of w] by simp

lemma unat_lt_u16 [simp]: "unat (w :: u16) < 65536"
  using unsigned_less [of w] by simp

lemma unat_lt_u32 [simp]: "unat (w :: u32) < 4294967296"
  using unsigned_less [of w] by simp

lemma unat_lt_u64 [simp]: "unat (w :: u64) < 18446744073709551616"
  using unsigned_less [of w] by simp

lemma unat_u16_u32 [simp, unat_simps]: "unat (ucast (w :: u16) :: u32) = unat w"
  by (simp add: unsigned_ucast_eq take_bit_nat_eq_self unsigned_less [THEN order_less_le_trans])

lemma unat_u32_u64 [simp, unat_simps]: "unat (ucast (w :: u32) :: u64) = unat w"
  by (simp add: unsigned_ucast_eq take_bit_nat_eq_self unsigned_less [THEN order_less_le_trans])

lemma unat_u64_u32 [unat_simps]: "unat (ucast (w :: u64) :: u32) = unat w mod 4294967296"
  by (simp add: unsigned_ucast_eq take_bit_eq_mod)

lemma unat_u32_u16 [unat_simps]: "unat (ucast (w :: u32) :: u16) = unat w mod 65536"
  by (simp add: unsigned_ucast_eq take_bit_eq_mod)

lemmas [unat_simps] = word_le_nat_alt word_less_nat_alt

lemma word_eq_unat: "(a :: 'a::len word) = b \<longleftrightarrow> unat a = unat b"
  by (simp add: word_unat_eq_iff)

lemma unat_add_fits [unat_simps]:
  "unat a + unat b < 2 ^ LENGTH('a) \<Longrightarrow> unat (a + b) = unat a + unat (b :: 'a::len word)"
  by (simp add: unat_add_lem)

lemma count_suc: "unat (c :: u32) < 4294967295 \<Longrightarrow> unat (c + 1) = unat c + 1"
  by (subst unat_add_fits) simp_all

lemma suc_below: "unat (a :: u32) < unat (b :: u32) \<Longrightarrow> unat (a + 1) = Suc (unat a)"
proof -
  assume "unat a < unat b"
  then have "unat a < 4294967295" using unat_lt_u32 [of b] by linarith
  then show ?thesis by (simp add: count_suc)
qed

lemma unat_of_nat_u32 [simp]: "n < 4294967296 \<Longrightarrow> unat (of_nat n :: u32) = n"
  by (simp add: unsigned_of_nat take_bit_nat_eq_self)

lemma unat_of_nat_u64 [simp]: "n < 18446744073709551616 \<Longrightarrow> unat (of_nat n :: u64) = n"
  by (simp add: unsigned_of_nat take_bit_nat_eq_self)

lemma unat_mult_fits:
  "unat a * unat b < 2 ^ LENGTH('a) \<Longrightarrow> unat (a * b) = unat a * unat (b :: 'a::len word)"
  by (simp add: unat_mult_lem)

lemma unat_mult_u32_u64:
  "unat (ucast (a :: u32) * ucast (b :: u32) :: u64) = unat a * unat b"
proof -
  have "unat a * unat b \<le> 4294967295 * 4294967295"
    using unat_lt_u32 [of a] unat_lt_u32 [of b] by (intro mult_le_mono) linarith+
  then show ?thesis by (subst unat_mult_fits) simp_all
qed

lemma add_no_wrap_iff: "(a :: 'a::len word) \<le> a + b \<longleftrightarrow> unat a + unat b < 2 ^ LENGTH('a)"
  by (metis no_olen_add_nat)

text \<open>Rounding down and up to a multiple of a power of two with a mask.\<close>

lemma align_down: "(x :: 'a::len word) AND NOT (mask n) = x div 2 ^ n * 2 ^ n"
  by (simp flip: drop_bit_eq_div push_bit_eq_mult) (rule bit_eqI, auto simp: bit_simps dest: bit_imp_le_length)

lemma round_up_bounds:
  fixes n k :: nat
  assumes "0 < k"
  shows "n \<le> (n + (k - 1)) div k * k" and "(n + (k - 1)) div k * k < n + k"
proof -
  have "(n + (k - 1)) div k * k + (n + (k - 1)) mod k = n + (k - 1)" by (rule div_mult_mod_eq)
  moreover have "(n + (k - 1)) mod k < k" using assms by simp
  ultimately show "n \<le> (n + (k - 1)) div k * k" "(n + (k - 1)) div k * k < n + k"
    using assms by linarith+
qed

lemma unat_align_up:
  assumes "unat (x :: 'a::len word) + (2 ^ n - 1) < 2 ^ LENGTH('a)" "n < LENGTH('a)"
  shows "unat ((x + mask n) AND NOT (mask n)) = (unat x + (2 ^ n - 1)) div 2 ^ n * 2 ^ n"
proof -
  have p: "unat (2 ^ n :: 'a word) = 2 ^ n"
    using assms(2) unsigned_push_bit_eq [of n "1 :: 'a word", where 'a = nat]
    by (simp add: push_bit_eq_mult take_bit_nat_eq_self)
  have m: "unat (mask n :: 'a word) = 2 ^ n - 1"
    using assms(2) by (simp add: mask_eq_exp_minus_1 unat_minus_one p)
  have s: "unat (x + mask n) = unat x + (2 ^ n - 1)" using assms(1) by (subst unat_add_fits) (simp_all add: m)
  have d: "unat ((x + mask n) div 2 ^ n) = (unat x + (2 ^ n - 1)) div 2 ^ n"
    by (simp add: unat_div_distrib s p)
  have "(unat x + (2 ^ n - 1)) div 2 ^ n * 2 ^ n < 2 ^ LENGTH('a)"
    using assms(1) div_times_less_eq_dividend by (rule le_less_trans [rotated])
  then have "unat ((x + mask n) div 2 ^ n * 2 ^ n) = (unat x + (2 ^ n - 1)) div 2 ^ n * 2 ^ n"
    by (subst unat_mult_fits) (simp_all only: d p)
  then show ?thesis by (simp only: align_down)
qed

section \<open>Byte memory\<close>

text \<open>
  A buffer is a map from byte offsets to bytes. \<open>rd_bytes\<close> and \<open>wr_bytes\<close> are
  RtlCopyMemory out of and into it; \<open>rd64\<close> and \<open>wr64\<close> read and write an ULONG64 in
  the little-endian order of the machine.
\<close>

type_synonym mem = "nat \<Rightarrow> u8"

definition rd_bytes :: "mem \<Rightarrow> nat \<Rightarrow> nat \<Rightarrow> u8 list" where
  "rd_bytes m a n = map m [a ..< a + n]"

definition wr_bytes :: "mem \<Rightarrow> nat \<Rightarrow> u8 list \<Rightarrow> mem" where
  "wr_bytes m a bs = (\<lambda>i. if a \<le> i \<and> i < a + length bs then bs ! (i - a) else m i)"

fun le_bytes :: "nat \<Rightarrow> nat \<Rightarrow> u8 list" where
  "le_bytes 0 n = []"
| "le_bytes (Suc k) n = word_of_nat n # le_bytes k (n div 256)"

fun le_val :: "u8 list \<Rightarrow> nat" where
  "le_val [] = 0"
| "le_val (b # bs) = unat b + 256 * le_val bs"

definition rd16 :: "mem \<Rightarrow> nat \<Rightarrow> u16" where
  "rd16 m a = word_of_nat (le_val (rd_bytes m a 2))"

definition rd32 :: "mem \<Rightarrow> nat \<Rightarrow> u32" where
  "rd32 m a = word_of_nat (le_val (rd_bytes m a 4))"

definition rd64 :: "mem \<Rightarrow> nat \<Rightarrow> u64" where
  "rd64 m a = word_of_nat (le_val (rd_bytes m a 8))"

definition wr64 :: "mem \<Rightarrow> nat \<Rightarrow> u64 \<Rightarrow> mem" where
  "wr64 m a v = wr_bytes m a (le_bytes 8 (unat v))"

lemma length_le_bytes [simp]: "length (le_bytes k n) = k"
  by (induction k arbitrary: n) simp_all

lemma le_val_le_bytes: "le_val (le_bytes k n) = n mod 256 ^ k"
proof (induction k arbitrary: n)
  case (Suc k)
  have "unat (word_of_nat n :: u8) = n mod 256"
    by (simp add: unsigned_of_nat take_bit_eq_mod)
  then show ?case by (simp add: Suc.IH mod_mult2_eq)
qed simp

lemma length_rd_bytes [simp]: "length (rd_bytes m a n) = n"
  by (simp add: rd_bytes_def)

lemma rd_wr_bytes_same [simp]: "length bs = n \<Longrightarrow> rd_bytes (wr_bytes m a bs) a n = bs"
  by (rule nth_equalityI) (auto simp: rd_bytes_def wr_bytes_def)

lemma rd_bytes_cong:
  "(\<And>i. a \<le> i \<Longrightarrow> i < a + n \<Longrightarrow> m i = m' i) \<Longrightarrow> rd_bytes m a n = rd_bytes m' a n"
  by (simp add: rd_bytes_def)

lemma rd_wr_bytes_other:
  "a + n \<le> b \<or> b + length bs \<le> a \<Longrightarrow> rd_bytes (wr_bytes m b bs) a n = rd_bytes m a n"
  by (rule rd_bytes_cong) (auto simp: wr_bytes_def)

lemma rd_wr64_same [simp]: "rd64 (wr64 m a v) a = v"
  by (simp add: rd64_def wr64_def le_val_le_bytes)

lemma rd16_cong: "(\<And>i. a \<le> i \<Longrightarrow> i < a + 2 \<Longrightarrow> m i = m' i) \<Longrightarrow> rd16 m a = rd16 m' a"
  by (simp add: rd16_def cong: rd_bytes_cong)

lemma rd32_cong: "(\<And>i. a \<le> i \<Longrightarrow> i < a + 4 \<Longrightarrow> m i = m' i) \<Longrightarrow> rd32 m a = rd32 m' a"
  by (simp add: rd32_def cong: rd_bytes_cong)

lemma rd64_cong: "(\<And>i. a \<le> i \<Longrightarrow> i < a + 8 \<Longrightarrow> m i = m' i) \<Longrightarrow> rd64 m a = rd64 m' a"
  by (simp add: rd64_def cong: rd_bytes_cong)

lemma wr64_other: "i < a \<or> a + 8 \<le> i \<Longrightarrow> wr64 m a v i = m i"
  by (auto simp: wr64_def wr_bytes_def)

lemma wr_bytes_other: "i < a \<or> a + length bs \<le> i \<Longrightarrow> wr_bytes m a bs i = m i"
  by (auto simp: wr_bytes_def)

lemma rd_wr64_other: "a + 8 \<le> b \<or> b + 8 \<le> a \<Longrightarrow> rd64 (wr64 m b v) a = rd64 m a"
  by (rule rd64_cong) (auto simp: wr64_other)

lemma rd_bytes_wr64_other: "a + n \<le> b \<or> b + 8 \<le> a \<Longrightarrow> rd_bytes (wr64 m b v) a n = rd_bytes m a n"
  by (rule rd_bytes_cong) (auto simp: wr64_other)

lemma rd64_wr_bytes_other:
  "a + 8 \<le> b \<or> b + length bs \<le> a \<Longrightarrow> rd64 (wr_bytes m b bs) a = rd64 m a"
  by (rule rd64_cong) (auto simp: wr_bytes_other)

section \<open>Association lists\<close>

lemma map_of_snoc: "k \<notin> fst ` set xs \<Longrightarrow> map_of (xs @ [(k, v)]) = (map_of xs)(k \<mapsto> v)"
  by (induction xs) (auto simp: fun_upd_twist)

section \<open>Runs of an operation\<close>

text \<open>An operation on a state applied to a list of arguments in turn, with the results.\<close>

fun run_ops :: "('t \<Rightarrow> 's \<Rightarrow> 's \<times> 'r) \<Rightarrow> 's \<Rightarrow> 't list \<Rightarrow> 's \<times> 'r list" where
  "run_ops opr s [] = (s, [])"
| "run_ops opr s (t # ts) =
     (let (s', r) = opr t s; (s'', rs) = run_ops opr s' ts in (s'', r # rs))"

lemma run_ops_snoc:
  "run_ops opr s (ts @ [t]) =
     (let (s', rs) = run_ops opr s ts; (s'', r) = opr t s' in (s'', rs @ [r]))"
  by (induction ts arbitrary: s) (auto simp: Let_def split: prod.splits)

lemma run_ops_invariant:
  assumes "\<And>s t s' r. I s \<Longrightarrow> opr t s = (s', r) \<Longrightarrow> I s'"
  shows "I s \<Longrightarrow> run_ops opr s ts = (s', rs) \<Longrightarrow> I s'"
proof (induction ts arbitrary: s rs)
  case (Cons t ts)
  then show ?case by (auto simp: Let_def split: prod.splits dest: assms)
qed simp

text \<open>
  The contract of an object that spends from an account: an operation that answers True costs
  \<open>cost\<close>, the level of the account may rise only by what was earned meanwhile, and the earnings
  never fall. A run then spends no more than the level at its start and its earnings.
\<close>

locale accounted =
  fixes opr :: "'t \<Rightarrow> 's \<Rightarrow> 's \<times> bool"
    and inv :: "'s \<Rightarrow> bool"
    and adm :: "'t \<Rightarrow> bool"
    and level :: "'s \<Rightarrow> nat"
    and earned :: "'s \<Rightarrow> nat"
    and cost :: nat
  assumes inv_opr: "inv s \<Longrightarrow> adm t \<Longrightarrow> opr t s = (s', a) \<Longrightarrow> inv s'"
    and earned_mono: "inv s \<Longrightarrow> adm t \<Longrightarrow> opr t s = (s', a) \<Longrightarrow> earned s \<le> earned s'"
    and pays: "inv s \<Longrightarrow> adm t \<Longrightarrow> opr t s = (s', a) \<Longrightarrow>
      level s' + cost * of_bool a + earned s \<le> level s + earned s'"
begin

lemma run_pays:
  assumes "inv s" and "\<And>t. t \<in> set ts \<Longrightarrow> adm t" and "run_ops opr s ts = (s', as)"
  shows "inv s' \<and> earned s \<le> earned s' \<and>
         level s' + cost * count_list as True + earned s \<le> level s + earned s'"
  using assms
proof (induction ts arbitrary: s as)
  case (Cons t ts)
  obtain s1 a where one: "opr t s = (s1, a)" by fastforce
  obtain as1 where rest: "run_ops opr s1 ts = (s', as1)" and as: "as = a # as1"
    using Cons.prems(3) one by (auto simp: Let_def split: prod.splits)
  have adm: "adm t" using Cons.prems(2) by simp
  note IH = Cons.IH [OF inv_opr [OF Cons.prems(1) adm one] _ rest]
  show ?case
    using IH Cons.prems(2) earned_mono [OF Cons.prems(1) adm one] pays [OF Cons.prems(1) adm one]
    by (cases a) (auto simp: as)
qed simp

end

end
