(* ===== verification/RateLimit.thy ===== *)
theory RateLimit
  imports TE_Prelude "HOL-Library.Signed_Division"
begin

text \<open>
  The token bucket of the kernel driver, ProcessHacker/KSystemInformer/ratelmt.c: its state, the
  initialiser, one attempt of the compare-and-swap loop, the routine run without interference,
  and the same routine as steps of any number of threads that race for the bucket.
\<close>

section \<open>State\<close>

record KPH_RATE_LIMIT_POLICY =
  TokensPerPeriod :: u32
  PeriodInSeconds :: u32
  MaxBucketSize :: u32

record KPH_RATE_BUCKET =
  CurrentTokens :: u32
  LastRefillTime :: u32

record KPH_RATE_LIMIT =
  Bucket :: KPH_RATE_BUCKET
  Policy :: KPH_RATE_LIMIT_POLICY
  Allowed :: u64
  Dropped :: u64
  CasMiss :: u64

text \<open>The union member Quad: the two fields as one 64-bit value, CurrentTokens first.\<close>

definition Quad :: "KPH_RATE_BUCKET \<Rightarrow> u64" where
  "Quad b = word_cat (LastRefillTime b) (CurrentTokens b)"

definition KPH_RATE_LIMIT_SEC_MULT :: int where
  "KPH_RATE_LIMIT_SEC_MULT = 100"

definition KPH_RATE_LIMIT_TIME_UNIT :: int where
  "KPH_RATE_LIMIT_TIME_UNIT = 10000000 sdiv KPH_RATE_LIMIT_SEC_MULT"

definition KPH_RATE_LIMIT_ROLL_CHECK :: int where
  "KPH_RATE_LIMIT_ROLL_CHECK = 86400 * KPH_RATE_LIMIT_SEC_MULT"

text \<open>The conversion \<open>(ULONG)(TimeStamp->QuadPart / KPH_RATE_LIMIT_TIME_UNIT)\<close>.\<close>

definition ticks_of :: "u64 \<Rightarrow> u32" where
  "ticks_of QuadPart = word_of_int (sint QuadPart sdiv KPH_RATE_LIMIT_TIME_UNIT)"

definition KphInitializeRateLimit :: "KPH_RATE_LIMIT_POLICY \<Rightarrow> u64 \<Rightarrow> KPH_RATE_LIMIT" where
  "KphInitializeRateLimit policy timeStamp =
     \<lparr> Bucket = \<lparr> CurrentTokens = MaxBucketSize policy, LastRefillTime = ticks_of timeStamp \<rparr>,
       Policy = policy, Allowed = 0, Dropped = 0, CasMiss = 0 \<rparr>"

section \<open>One attempt of the loop\<close>

definition is_unlimited :: "KPH_RATE_LIMIT_POLICY \<Rightarrow> bool" where
  "is_unlimited p \<longleftrightarrow> TokensPerPeriod p = 0xFFFFFFFF \<or> MaxBucketSize p = 0xFFFFFFFF"

definition is_deny_all :: "KPH_RATE_LIMIT_POLICY \<Rightarrow> bool" where
  "is_deny_all p \<longleftrightarrow> TokensPerPeriod p = 0 \<or> PeriodInSeconds p = 0 \<or> MaxBucketSize p = 0"

definition tokens_to_add :: "KPH_RATE_LIMIT_POLICY \<Rightarrow> u32 \<Rightarrow> u64" where
  "tokens_to_add p elapsedTime =
     (ucast elapsedTime * ucast (TokensPerPeriod p)) div
     (ucast (PeriodInSeconds p) * word_of_int KPH_RATE_LIMIT_SEC_MULT)"

definition refill :: "KPH_RATE_LIMIT_POLICY \<Rightarrow> u32 \<Rightarrow> KPH_RATE_BUCKET \<Rightarrow> KPH_RATE_BUCKET" where
  "refill p currentTime b =
     (if LastRefillTime b > currentTime then
        (if LastRefillTime b - currentTime > word_of_int KPH_RATE_LIMIT_ROLL_CHECK
         then b\<lparr> CurrentTokens := MaxBucketSize p, LastRefillTime := currentTime \<rparr>
         else b)
      else
        let tokensToAdd = tokens_to_add p (currentTime - LastRefillTime b) in
        if tokensToAdd = 0 then b
        else b\<lparr> CurrentTokens :=
                 (if tokensToAdd \<ge> ucast (MaxBucketSize p) \<or>
                     tokensToAdd > ucast (MaxBucketSize p - CurrentTokens b)
                  then MaxBucketSize p
                  else CurrentTokens b + ucast tokensToAdd),
               LastRefillTime := currentTime \<rparr>)"

definition consume :: "KPH_RATE_BUCKET \<Rightarrow> KPH_RATE_BUCKET \<times> bool" where
  "consume b =
     (if CurrentTokens b > 0 then (b\<lparr> CurrentTokens := CurrentTokens b - 1 \<rparr>, True) else (b, False))"

definition attempt ::
  "KPH_RATE_LIMIT_POLICY \<Rightarrow> u32 \<Rightarrow> KPH_RATE_BUCKET \<Rightarrow> KPH_RATE_BUCKET \<times> bool" where
  "attempt p currentTime oldBucket = consume (refill p currentTime oldBucket)"

text \<open>The routine of one thread alone: its first exchange succeeds.\<close>

definition KphRateLimitConsumeToken :: "KPH_RATE_LIMIT \<Rightarrow> u64 \<Rightarrow> KPH_RATE_LIMIT \<times> bool" where
  "KphRateLimitConsumeToken r timeStamp =
     (if is_unlimited (Policy r) then (r\<lparr> Allowed := Allowed r + 1 \<rparr>, True)
      else if is_deny_all (Policy r) then (r\<lparr> Dropped := Dropped r + 1 \<rparr>, False)
      else
        let (newBucket, allowed) = attempt (Policy r) (ticks_of timeStamp) (Bucket r) in
        if allowed
        then (r\<lparr> Bucket := newBucket, Allowed := Allowed r + 1 \<rparr>, True)
        else (r\<lparr> Bucket := newBucket, Dropped := Dropped r + 1 \<rparr>, False))"

section \<open>The routine under interference\<close>

text \<open>
  Any number of threads run the routine on one rate limit. A thread is idle, or holds the time it
  converted and the bucket it read and is about to exchange, or has missed (the exchange returned
  another bucket, which becomes its new \<open>oldBucket\<close>) and is about to count the miss, or has
  succeeded and is about to count the outcome. Every interlocked operation is one step. \<open>hist\<close>
  records the successful exchanges in their order: the time and the outcome.
\<close>

datatype rl_pc =
    RL_Idle
  | RL_Exchange u32 KPH_RATE_BUCKET
  | RL_Missed u32 KPH_RATE_BUCKET
  | RL_Count bool

record rl_sys =
  shared :: KPH_RATE_LIMIT
  pcs :: "nat \<Rightarrow> rl_pc"
  hist :: "(u32 \<times> bool) list"

definition rl_init :: "KPH_RATE_LIMIT \<Rightarrow> rl_sys" where
  "rl_init r = \<lparr> shared = r, pcs = (\<lambda>_. RL_Idle), hist = [] \<rparr>"

inductive rl_step :: "rl_sys \<Rightarrow> rl_sys \<Rightarrow> bool" where
  unlimited:
    "pcs s i = RL_Idle \<Longrightarrow> is_unlimited (Policy (shared s)) \<Longrightarrow>
     rl_step s (s\<lparr> shared := (shared s)\<lparr> Allowed := Allowed (shared s) + 1 \<rparr> \<rparr>)"
| deny_all:
    "pcs s i = RL_Idle \<Longrightarrow> \<not> is_unlimited (Policy (shared s)) \<Longrightarrow>
     is_deny_all (Policy (shared s)) \<Longrightarrow>
     rl_step s (s\<lparr> shared := (shared s)\<lparr> Dropped := Dropped (shared s) + 1 \<rparr> \<rparr>)"
| read:
    "pcs s i = RL_Idle \<Longrightarrow> \<not> is_unlimited (Policy (shared s)) \<Longrightarrow>
     \<not> is_deny_all (Policy (shared s)) \<Longrightarrow>
     rl_step s (s\<lparr> pcs := (pcs s)(i := RL_Exchange (ticks_of timeStamp) (Bucket (shared s))) \<rparr>)"
| exchange:
    "pcs s i = RL_Exchange now oldBucket \<Longrightarrow> Quad (Bucket (shared s)) = Quad oldBucket \<Longrightarrow>
     attempt (Policy (shared s)) now oldBucket = (newBucket, allowed) \<Longrightarrow>
     rl_step s (s\<lparr> shared := (shared s)\<lparr> Bucket := newBucket \<rparr>,
                   pcs := (pcs s)(i := RL_Count allowed), hist := hist s @ [(now, allowed)] \<rparr>)"
| miss:
    "pcs s i = RL_Exchange now oldBucket \<Longrightarrow> Quad (Bucket (shared s)) \<noteq> Quad oldBucket \<Longrightarrow>
     rl_step s (s\<lparr> pcs := (pcs s)(i := RL_Missed now (Bucket (shared s))) \<rparr>)"
| count_miss:
    "pcs s i = RL_Missed now observed \<Longrightarrow>
     rl_step s (s\<lparr> shared := (shared s)\<lparr> CasMiss := CasMiss (shared s) + 1 \<rparr>,
                   pcs := (pcs s)(i := RL_Exchange now observed) \<rparr>)"
| count_allowed:
    "pcs s i = RL_Count True \<Longrightarrow>
     rl_step s (s\<lparr> shared := (shared s)\<lparr> Allowed := Allowed (shared s) + 1 \<rparr>,
                   pcs := (pcs s)(i := RL_Idle) \<rparr>)"
| count_dropped:
    "pcs s i = RL_Count False \<Longrightarrow>
     rl_step s (s\<lparr> shared := (shared s)\<lparr> Dropped := Dropped (shared s) + 1 \<rparr>,
                   pcs := (pcs s)(i := RL_Idle) \<rparr>)"

inductive rl_reach :: "KPH_RATE_LIMIT \<Rightarrow> rl_sys \<Rightarrow> bool" for r where
  start: "rl_reach r (rl_init r)"
| step: "rl_reach r s \<Longrightarrow> rl_step s t \<Longrightarrow> rl_reach r t"

text \<open>The sequential reading of a history: the bucket after it and the outcomes on the way.\<close>

abbreviation replay :: "KPH_RATE_LIMIT_POLICY \<Rightarrow> KPH_RATE_BUCKET \<Rightarrow> u32 list \<Rightarrow> KPH_RATE_BUCKET \<times> bool list"
where
  "replay p \<equiv> run_ops (attempt p)"

section \<open>Lemmas\<close>

lemma Quad_inject [simp]: "Quad a = Quad b \<longleftrightarrow> a = b"
proof
  assume "Quad a = Quad b"
  then have "word_split (Quad a) = (word_split (Quad b) :: u32 \<times> u32)" by simp
  then show "a = b"
    by (simp add: Quad_def word_split_cat_alt [OF refl] word_size)
qed simp

lemma unat_tokens_to_add:
  "unat (tokens_to_add p e) =
     unat e * unat (TokensPerPeriod p) div (unat (PeriodInSeconds p) * 100)"
proof -
  have "unat (ucast (PeriodInSeconds p) * word_of_int KPH_RATE_LIMIT_SEC_MULT :: u64) =
        unat (PeriodInSeconds p) * 100"
    using unat_lt_u32 [of "PeriodInSeconds p"]
    by (subst unat_mult_fits) (simp_all add: KPH_RATE_LIMIT_SEC_MULT_def del: unat_lt_u32)
  then show ?thesis
    by (simp add: tokens_to_add_def unat_div_distrib unat_mult_u32_u64)
qed

definition bucket_ok :: "KPH_RATE_LIMIT_POLICY \<Rightarrow> KPH_RATE_BUCKET \<Rightarrow> bool" where
  "bucket_ok p b \<longleftrightarrow> CurrentTokens b \<le> MaxBucketSize p"

lemma refill_rollback:
  "currentTime < LastRefillTime b \<Longrightarrow>
   unat (LastRefillTime b) - unat currentTime \<le> 8640000 \<Longrightarrow> refill p currentTime b = b"
  by (simp add: refill_def KPH_RATE_LIMIT_ROLL_CHECK_def KPH_RATE_LIMIT_SEC_MULT_def
      word_less_nat_alt unat_sub_if')

text \<open>A refill at a time that is not in the past: the tokens of the elapsed time, capped.\<close>

lemma refill_forward:
  assumes le: "LastRefillTime b \<le> now" and ok: "bucket_ok p b"
    and add: "n = (unat now - unat (LastRefillTime b)) * unat (TokensPerPeriod p)
                   div (unat (PeriodInSeconds p) * 100)"
  shows "unat (CurrentTokens (refill p now b)) = min (unat (MaxBucketSize p)) (unat (CurrentTokens b) + n)"
    and "LastRefillTime (refill p now b) = (if n = 0 then LastRefillTime b else now)"
proof -
  let ?t = "tokens_to_add p (now - LastRefillTime b)"
  have t: "unat ?t = n" using le by (simp add: unat_tokens_to_add add unat_sub)
  have z: "?t = 0 \<longleftrightarrow> n = 0" using t by (metis unat_0 unat_eq_zero)
  have c: "unat (CurrentTokens b) \<le> unat (MaxBucketSize p)"
    using ok by (simp add: bucket_ok_def word_le_nat_alt)
  show "LastRefillTime (refill p now b) = (if n = 0 then LastRefillTime b else now)"
    using le z by (simp add: refill_def Let_def not_less [symmetric])
  show "unat (CurrentTokens (refill p now b)) = min (unat (MaxBucketSize p)) (unat (CurrentTokens b) + n)"
  proof (cases "n < unat (MaxBucketSize p) \<and> n \<le> unat (MaxBucketSize p) - unat (CurrentTokens b)")
    case True
    then have "unat (CurrentTokens b) + n < 4294967296"
      using c unat_lt_u32 [of "MaxBucketSize p"] by linarith
    then have "unat (CurrentTokens b + ucast ?t) = unat (CurrentTokens b) + n"
      by (subst unat_add_fits) (simp_all add: unat_u64_u32 t)
    with True c le z t show ?thesis
      by (auto simp: refill_def Let_def word_le_nat_alt word_less_nat_alt unat_sub_if')
  next
    case False
    with c le z t show ?thesis
      by (auto simp: refill_def Let_def word_le_nat_alt word_less_nat_alt unat_sub_if')
  qed
qed

lemma bucket_ok_refill: "bucket_ok p b \<Longrightarrow> bucket_ok p (refill p now b)"
proof (cases "LastRefillTime b \<le> now")
  case True
  assume "bucket_ok p b"
  then show ?thesis
    using refill_forward(1) [OF True _ refl, of p] by (simp add: bucket_ok_def word_le_nat_alt)
next
  case False
  assume "bucket_ok p b"
  with False show ?thesis by (simp add: refill_def bucket_ok_def not_le)
qed

lemma consume_simps:
  "consume b = (b', True) \<Longrightarrow> unat (CurrentTokens b) = Suc (unat (CurrentTokens b'))"
  "consume b = (b', False) \<Longrightarrow> b' = b \<and> CurrentTokens b = 0"
  "consume b = (b', a) \<Longrightarrow> LastRefillTime b' = LastRefillTime b"
  by (auto simp: consume_def word_gt_0 unat_minus_one split: if_splits)
     (metis Suc_pred unat_gt_0)

lemma bucket_ok_consume: "bucket_ok p b \<Longrightarrow> consume b = (b', a) \<Longrightarrow> bucket_ok p b'"
  by (cases a) (use consume_simps [of b b'] in \<open>auto simp: bucket_ok_def word_le_nat_alt\<close>)

lemma bucket_ok_attempt: "bucket_ok p b \<Longrightarrow> attempt p now b = (b', a) \<Longrightarrow> bucket_ok p b'"
  unfolding attempt_def by (blast intro: bucket_ok_refill bucket_ok_consume)

subsection \<open>Histories\<close>

lemma bucket_ok_replay: "bucket_ok p b \<Longrightarrow> replay p b ts = (b', as) \<Longrightarrow> bucket_ok p b'"
  by (rule run_ops_invariant [where I = "bucket_ok p"]) (auto intro: bucket_ok_attempt)

text \<open>
  The potential of the token bucket: a unit is the hundredth of a second times the period, and an
  attempt gives away no more than the bucket held and the elapsed time earned.
\<close>

abbreviation unit_of :: "KPH_RATE_LIMIT_POLICY \<Rightarrow> nat" where
  "unit_of p \<equiv> unat (PeriodInSeconds p) * 100"

lemma refill_potential:
  assumes ok: "bucket_ok p b" and last: "unat (LastRefillTime b) \<le> T"
    and t: "unat t \<le> T" "T - unat t \<le> 8640000"
  defines "b' \<equiv> refill p t b"
  shows "LastRefillTime b \<le> LastRefillTime b' \<and> unat (LastRefillTime b') \<le> T \<and>
         unit_of p * unat (CurrentTokens b') \<le> unit_of p * unat (CurrentTokens b) +
           unat (TokensPerPeriod p) * (unat (LastRefillTime b') - unat (LastRefillTime b))"
proof (cases "LastRefillTime b \<le> t")
  case False
  then have "refill p t b = b"
    using last t by (intro refill_rollback) (auto simp: word_less_nat_alt word_le_nat_alt)
  then show ?thesis using last by (simp add: b'_def)
next
  case True
  let ?d = "unat t - unat (LastRefillTime b)"
  define n where "n = ?d * unat (TokensPerPeriod p) div unit_of p"
  note fwd = refill_forward [OF True ok n_def, folded b'_def]
  have "unit_of p * n \<le> unat (TokensPerPeriod p) * ?d"
    by (metis n_def mult.commute times_div_less_eq_dividend)
  moreover have "unit_of p * unat (CurrentTokens b') \<le> unit_of p * (unat (CurrentTokens b) + n)"
    by (rule mult_le_mono2) (simp add: fwd)
  ultimately show ?thesis
    using fwd True t last
    by (cases "n = 0") (auto simp: distrib_left word_le_nat_alt simp del: mult.assoc
        intro: order_trans add_left_mono)
qed

lemma attempt_potential:
  assumes ok: "bucket_ok p b" and last: "unat (LastRefillTime b) \<le> T"
    and t: "unat t \<le> T" "T - unat t \<le> 8640000" and att: "attempt p t b = (b', a)"
  shows "LastRefillTime b \<le> LastRefillTime b' \<and> unat (LastRefillTime b') \<le> T \<and>
         unit_of p * (unat (CurrentTokens b') + of_bool a) \<le> unit_of p * unat (CurrentTokens b) +
           unat (TokensPerPeriod p) * (unat (LastRefillTime b') - unat (LastRefillTime b))"
proof -
  have c: "consume (refill p t b) = (b', a)" using att by (simp add: attempt_def)
  have "LastRefillTime b' = LastRefillTime (refill p t b)"
    using consume_simps(3) [OF c] .
  moreover have "unat (CurrentTokens b') + of_bool a = unat (CurrentTokens (refill p t b))"
    using consume_simps(1,2) [of "refill p t b" b'] c by (cases a) auto
  ultimately show ?thesis using refill_potential [OF ok last t] by simp
qed

interpretation bucket: accounted "attempt p"
    "\<lambda>b. bucket_ok p b \<and> unat (LastRefillTime b) \<le> T"
    "\<lambda>t. unat t \<le> T \<and> T - unat t \<le> 8640000"
    "\<lambda>b. unit_of p * unat (CurrentTokens b)"
    "\<lambda>b. unat (TokensPerPeriod p) * unat (LastRefillTime b)"
    "unit_of p" for p T
proof (unfold_locales, goal_cases)
  case (1 s t s' a)
  then show ?case using attempt_potential [of p s T t s' a] bucket_ok_attempt by blast
next
  case (2 s t s' a)
  then show ?case using attempt_potential [of p s T t s' a] by (simp add: word_le_nat_alt)
next
  case (3 s t s' a)
  then have "LastRefillTime s \<le> LastRefillTime s'" and
    "unit_of p * (unat (CurrentTokens s') + of_bool a) \<le> unit_of p * unat (CurrentTokens s) +
       unat (TokensPerPeriod p) * (unat (LastRefillTime s') - unat (LastRefillTime s))"
    using attempt_potential [of p s T t s' a] by blast+
  moreover from this(1) have
    "unat (TokensPerPeriod p) * unat (LastRefillTime s) \<le> unat (TokensPerPeriod p) * unat (LastRefillTime s')"
    by (intro mult_le_mono2) (simp add: word_le_nat_alt)
  ultimately show ?case
    by (simp only: distrib_left diff_mult_distrib2)
qed

section \<open>The shared bucket\<close>

text \<open>What holds whenever no thread is between two interlocked operations, and in between.\<close>

definition pending :: "rl_sys \<Rightarrow> bool \<Rightarrow> nat set" where
  "pending s a = {i. pcs s i = RL_Count a}"

definition rl_inv :: "KPH_RATE_LIMIT \<Rightarrow> rl_sys \<Rightarrow> bool" where
  "rl_inv r s \<longleftrightarrow>
     Policy (shared s) = Policy r \<and>
     replay (Policy r) (Bucket r) (map fst (hist s)) = (Bucket (shared s), map snd (hist s)) \<and>
     finite {i. pcs s i \<noteq> RL_Idle} \<and>
     (\<not> is_unlimited (Policy r) \<longrightarrow>
        Allowed (shared s) + of_nat (card (pending s True)) =
        Allowed r + of_nat (count_list (map snd (hist s)) True)) \<and>
     (\<not> is_deny_all (Policy r) \<longrightarrow>
        Dropped (shared s) + of_nat (card (pending s False)) =
        Dropped r + of_nat (count_list (map snd (hist s)) False))"

lemma finite_busy_upd: "finite {j. f j \<noteq> RL_Idle} \<Longrightarrow> finite {j. (f(i := c)) j \<noteq> RL_Idle}"
  by (rule finite_subset [of _ "insert i {j. f j \<noteq> RL_Idle}"]) auto

lemma finite_pending: "finite {i. pcs s i \<noteq> RL_Idle} \<Longrightarrow> finite (pending s a)"
  by (rule finite_subset [of _ "{i. pcs s i \<noteq> RL_Idle}"]) (auto simp: pending_def)

lemma pending_enter:
  "pcs s i \<noteq> RL_Count a \<Longrightarrow> finite (pending s a) \<Longrightarrow>
   card {j. ((pcs s)(i := RL_Count a)) j = RL_Count a} = Suc (card (pending s a))"
proof -
  assume "pcs s i \<noteq> RL_Count a" "finite (pending s a)"
  moreover have "{j. ((pcs s)(i := RL_Count a)) j = RL_Count a} = insert i (pending s a)"
    by (auto simp: pending_def)
  ultimately show ?thesis by (simp add: pending_def)
qed

lemma pending_leave:
  "pcs s i = RL_Count a \<Longrightarrow> finite (pending s a) \<Longrightarrow> c \<noteq> RL_Count a \<Longrightarrow>
   Suc (card {j. ((pcs s)(i := c)) j = RL_Count a}) = card (pending s a)"
proof -
  assume "pcs s i = RL_Count a" "finite (pending s a)" "c \<noteq> RL_Count a"
  moreover from this have "{j. ((pcs s)(i := c)) j = RL_Count a} = pending s a - {i}"
    by (auto simp: pending_def)
  moreover have "i \<in> pending s a" using \<open>pcs s i = RL_Count a\<close> by (simp add: pending_def)
  ultimately show ?thesis using card_Suc_Diff1 [of "pending s a" i] by (simp only:)
qed

lemma pending_keep:
  "pcs s i \<noteq> RL_Count a \<Longrightarrow> c \<noteq> RL_Count a \<Longrightarrow>
   {j. ((pcs s)(i := c)) j = RL_Count a} = pending s a"
  by (auto simp: pending_def)

lemma rl_inv_init: "rl_inv r (rl_init r)"
  by (simp add: rl_inv_def rl_init_def pending_def)

lemma rl_inv_step: "rl_step s t \<Longrightarrow> rl_inv r s \<Longrightarrow> rl_inv r t"
proof (induction rule: rl_step.induct)
  case (exchange s i now oldBucket newBucket allowed)
  then have fin: "finite (pending s allowed)" by (simp add: rl_inv_def finite_pending)
  have other: "{j. ((pcs s)(i := RL_Count allowed)) j = RL_Count (\<not> allowed)} = pending s (\<not> allowed)"
    using exchange.hyps by (intro pending_keep) auto
  note enter = pending_enter [of s i allowed, OF _ fin]
  show ?case
    using exchange enter other
    by (cases allowed)
       (auto simp: rl_inv_def pending_def run_ops_snoc finite_busy_upd Let_def algebra_simps
         simp del: fun_upd_apply)
next
  case (count_allowed s i)
  then have fin: "finite (pending s True)" by (simp add: rl_inv_def finite_pending)
  have other: "{j. ((pcs s)(i := RL_Idle)) j = RL_Count False} = pending s False"
    using count_allowed.hyps by (intro pending_keep) auto
  have leave: "card (pending s True) = Suc (card {j. ((pcs s)(i := RL_Idle)) j = RL_Count True})"
    using pending_leave [OF count_allowed.hyps fin, of RL_Idle] by simp
  show ?case
    using count_allowed.prems other leave
    by (auto simp: rl_inv_def pending_def finite_busy_upd algebra_simps simp del: fun_upd_apply)
next
  case (count_dropped s i)
  then have fin: "finite (pending s False)" by (simp add: rl_inv_def finite_pending)
  have other: "{j. ((pcs s)(i := RL_Idle)) j = RL_Count True} = pending s True"
    using count_dropped.hyps by (intro pending_keep) auto
  have leave: "card (pending s False) = Suc (card {j. ((pcs s)(i := RL_Idle)) j = RL_Count False})"
    using pending_leave [OF count_dropped.hyps fin, of RL_Idle] by simp
  show ?case
    using count_dropped.prems other leave
    by (auto simp: rl_inv_def pending_def finite_busy_upd algebra_simps simp del: fun_upd_apply)
next
  case (read s i timeStamp)
  then show ?case
    using pending_keep [of s i] by (auto simp: rl_inv_def pending_def finite_busy_upd simp del: fun_upd_apply)
next
  case (miss s i now oldBucket)
  then show ?case
    using pending_keep [of s i] by (auto simp: rl_inv_def pending_def finite_busy_upd simp del: fun_upd_apply)
next
  case (count_miss s i now observed)
  then show ?case
    using pending_keep [of s i] by (auto simp: rl_inv_def pending_def finite_busy_upd simp del: fun_upd_apply)
qed (auto simp: rl_inv_def pending_def)

lemma rl_reach_inv: "rl_reach r s \<Longrightarrow> rl_inv r s"
  by (induction rule: rl_reach.induct) (auto intro: rl_inv_init rl_inv_step)

text \<open>A thread that runs the routine with no other thread moving takes the sequential result.\<close>

lemma run_alone:
  assumes reach: "rl_reach r s" and idle: "pcs s i = RL_Idle"
  shows "\<exists>t. rl_reach r t \<and> pcs t = pcs s \<and>
     shared t = fst (KphRateLimitConsumeToken (shared s) timeStamp) \<and>
     hist t = hist s @ (if is_unlimited (Policy (shared s)) \<or> is_deny_all (Policy (shared s)) then []
       else [(ticks_of timeStamp, snd (KphRateLimitConsumeToken (shared s) timeStamp))])"
proof (cases "is_unlimited (Policy (shared s)) \<or> is_deny_all (Policy (shared s))")
  case True
  then show ?thesis
    using rl_reach.step [OF reach rl_step.unlimited [OF idle]]
      rl_reach.step [OF reach rl_step.deny_all [OF idle]]
    by (cases "is_unlimited (Policy (shared s))") (force simp: KphRateLimitConsumeToken_def)+
next
  case False
  let ?now = "ticks_of timeStamp"
  obtain newBucket a where att: "attempt (Policy (shared s)) ?now (Bucket (shared s)) = (newBucket, a)"
    by fastforce
  define s1 where "s1 = s\<lparr> pcs := (pcs s)(i := RL_Exchange ?now (Bucket (shared s))) \<rparr>"
  define s2 where "s2 = s1\<lparr> shared := (shared s1)\<lparr> Bucket := newBucket \<rparr>,
    pcs := (pcs s1)(i := RL_Count a), hist := hist s1 @ [(?now, a)] \<rparr>"
  have 1: "rl_reach r s1"
    unfolding s1_def using False by (intro rl_reach.step [OF reach] rl_step.read idle) auto
  have 2: "rl_reach r s2"
    unfolding s2_def by (rule rl_reach.step [OF 1], rule rl_step.exchange [where oldBucket = "Bucket (shared s)"]) (simp_all add: s1_def att)
  have pc: "pcs s2 i = RL_Count a" by (simp add: s2_def)
  have ret: "(pcs s2)(i := RL_Idle) = pcs s" using idle by (auto simp: s2_def s1_def)
  show ?thesis
  proof (cases a)
    case True
    show ?thesis
      using rl_reach.step [OF 2 rl_step.count_allowed [of s2 i]] pc ret True False att
      by (intro exI [of _ "s2\<lparr> shared := (shared s2)\<lparr> Allowed := Allowed (shared s2) + 1 \<rparr>,
            pcs := (pcs s2)(i := RL_Idle) \<rparr>"])
         (auto simp: KphRateLimitConsumeToken_def s2_def s1_def)
  next
    case a: False
    show ?thesis
      using rl_reach.step [OF 2 rl_step.count_dropped [of s2 i]] pc ret a False att
      by (intro exI [of _ "s2\<lparr> shared := (shared s2)\<lparr> Dropped := Dropped (shared s2) + 1 \<rparr>,
            pcs := (pcs s2)(i := RL_Idle) \<rparr>"])
         (auto simp: KphRateLimitConsumeToken_def s2_def s1_def)
  qed
qed

text \<open>A policy for the witnesses: ten tokens a second, a burst of two.\<close>

definition policy_10_per_second :: KPH_RATE_LIMIT_POLICY where
  "policy_10_per_second = \<lparr> TokensPerPeriod = 10, PeriodInSeconds = 1, MaxBucketSize = 2 \<rparr>"

lemmas policy_10_simps =
  policy_10_per_second_def KphInitializeRateLimit_def KphRateLimitConsumeToken_def is_unlimited_def
  is_deny_all_def ticks_of_def attempt_def refill_def consume_def tokens_to_add_def bucket_ok_def
  KPH_RATE_LIMIT_TIME_UNIT_def KPH_RATE_LIMIT_SEC_MULT_def KPH_RATE_LIMIT_ROLL_CHECK_def

section \<open>Properties\<close>

text \<open>
  C14: in every state that any number of racing threads can reach, the shared bucket and the outcome
  of every successful exchange are those of a sequential run of the attempts in the order of the
  exchanges; and once no thread is between its exchange and its count, the counters Allowed and
  Dropped have grown by exactly the numbers of allowed and refused attempts.
\<close>

theorem rate_limit_linearizable:
  assumes "rl_reach r s" and "\<not> is_unlimited (Policy r)" and "\<not> is_deny_all (Policy r)"
  shows "replay (Policy r) (Bucket r) (map fst (hist s)) = (Bucket (shared s), map snd (hist s)) \<and>
    ((\<forall>i b. pcs s i \<noteq> RL_Count b) \<longrightarrow>
       Allowed (shared s) = Allowed r + of_nat (count_list (map snd (hist s)) True) \<and>
       Dropped (shared s) = Dropped r + of_nat (count_list (map snd (hist s)) False))"
  using rl_reach_inv [OF assms(1)] assms(2,3) by (auto simp: rl_inv_def pending_def)

theorem rate_limit_linearizable_witness:
  "\<exists>s :: rl_sys. hist s = [(0, True)] \<and>
     Allowed (shared s) = Allowed (KphInitializeRateLimit policy_10_per_second 0) + 1"
proof -
  let ?r = "KphInitializeRateLimit policy_10_per_second 0"
  obtain s where s: "rl_reach ?r s" "hist s = [(0, True)]" "pcs s = (\<lambda>_. RL_Idle)"
    using run_alone [OF rl_reach.start [of ?r], of 0 0] by (auto simp: rl_init_def policy_10_simps)
  have "Allowed (shared s) = Allowed ?r + of_nat (count_list (map snd (hist s)) True)"
    using rate_limit_linearizable [OF s(1)] s(3) by (simp add: policy_10_simps)
  with s(2) show ?thesis by (auto intro!: exI [of _ s])
qed

text \<open>
  C19: no burst exceeds the policy. Over any sequence of attempts whose times lie in a window that
  ends at \<open>T\<close> and is no longer than the roll-over check (a day), the number of allowed attempts is
  at most the tokens at the start and the tokens the period earned until \<open>T\<close>, in any order of the
  times.
\<close>

theorem rate_limit_bound:
  assumes "bucket_ok p b" and "PeriodInSeconds p \<noteq> 0" and "unat (LastRefillTime b) \<le> T"
    and "\<And>t. t \<in> set ts \<Longrightarrow> unat t \<le> T \<and> T - unat t \<le> 8640000"
    and "replay p b ts = (b', as)"
  shows "count_list as True \<le> unat (CurrentTokens b) +
           unat (TokensPerPeriod p) * (T - unat (LastRefillTime b)) div (unat (PeriodInSeconds p) * 100)"
proof -
  have run: "unat (LastRefillTime b') \<le> T"
    "unit_of p * unat (CurrentTokens b') + unit_of p * count_list as True +
       unat (TokensPerPeriod p) * unat (LastRefillTime b)
     \<le> unit_of p * unat (CurrentTokens b) + unat (TokensPerPeriod p) * unat (LastRefillTime b')"
    using bucket.run_pays [of p b T ts b' as] assms by auto
  have "unat (TokensPerPeriod p) * unat (LastRefillTime b') \<le> unat (TokensPerPeriod p) * T"
    using run(1) by (rule mult_le_mono2)
  then have "unit_of p * count_list as True \<le> unit_of p * unat (CurrentTokens b) +
      unat (TokensPerPeriod p) * (T - unat (LastRefillTime b))"
    using run(2) by (simp only: diff_mult_distrib2)
  moreover have pos: "0 < unit_of p" using assms(2) by (simp add: unat_gt_0)
  ultimately have "count_list as True \<le> (unit_of p * unat (CurrentTokens b) +
      unat (TokensPerPeriod p) * (T - unat (LastRefillTime b))) div unit_of p"
    by (simp only: less_eq_div_iff_mult_less_eq mult.commute)
  also have "\<dots> = unat (CurrentTokens b) +
      unat (TokensPerPeriod p) * (T - unat (LastRefillTime b)) div unit_of p"
    using pos by (subst div_mult_self4) simp_all
  finally show ?thesis .
qed

theorem rate_limit_bound_witness:
  "count_list (snd (replay policy_10_per_second \<lparr> CurrentTokens = 2, LastRefillTime = 0 \<rparr> [5, 0, 20, 20])) True
     \<le> 2 + 10 * (20 - 0) div (1 * 100)"
proof -
  let ?b = "\<lparr> CurrentTokens = 2, LastRefillTime = 0 \<rparr> :: KPH_RATE_BUCKET"
  obtain b' as where r: "replay policy_10_per_second ?b [5, 0, 20, 20] = (b', as)" by fastforce
  have "bucket_ok policy_10_per_second ?b" and "PeriodInSeconds policy_10_per_second \<noteq> 0"
    by (simp_all add: policy_10_simps)
  note rate_limit_bound [OF this _ _ r, of 20]
  then show ?thesis by (simp add: r) (simp add: policy_10_simps)
qed

text \<open>
  After the initialiser the bucket never holds more tokens than the policy's burst, whatever the
  interleaving and whatever the times are.
\<close>

theorem rate_limit_never_over_burst:
  assumes "rl_reach (KphInitializeRateLimit p timeStamp) s"
  shows "CurrentTokens (Bucket (shared s)) \<le> MaxBucketSize p"
proof -
  let ?r = "KphInitializeRateLimit p timeStamp"
  have "replay p (Bucket ?r) (map fst (hist s)) = (Bucket (shared s), map snd (hist s))"
    using rl_reach_inv [OF assms] by (simp add: rl_inv_def KphInitializeRateLimit_def)
  moreover have "bucket_ok p (Bucket ?r)" by (simp add: bucket_ok_def KphInitializeRateLimit_def)
  ultimately show ?thesis using bucket_ok_replay by (simp add: bucket_ok_def)
qed

theorem rate_limit_never_over_burst_witness:
  "\<exists>s :: rl_sys. hist s = [(0, True)] \<and> CurrentTokens (Bucket (shared s)) \<le> 2"
proof -
  let ?r = "KphInitializeRateLimit policy_10_per_second 0"
  obtain s where s: "rl_reach ?r s" "hist s = [(0, True)]"
    using run_alone [OF rl_reach.start [of ?r], of 0 0] by (auto simp: rl_init_def policy_10_simps)
  with rate_limit_never_over_burst [OF s(1)] show ?thesis
    by (auto intro!: exI [of _ s] simp: policy_10_per_second_def)
qed

end
