(* ===== verification/SafeInt.thy ===== *)
theory SafeInt
  imports TE_Prelude
begin

text \<open>
  The overflow-checked arithmetic of ProcessHacker/phnt/include/ntintsafe.h that the driver library
  uses. A routine returns the status and the value it stores in the result, which on failure is
  the type's error value (all bits set).
\<close>

definition RtlUShortAdd :: "u16 \<Rightarrow> u16 \<Rightarrow> ntstatus \<times> u16" where
  "RtlUShortAdd augend addend =
     (if augend + addend \<ge> augend then (STATUS_SUCCESS, augend + addend)
      else (STATUS_INTEGER_OVERFLOW, 0xFFFF))"

definition RtlULongAdd :: "u32 \<Rightarrow> u32 \<Rightarrow> ntstatus \<times> u32" where
  "RtlULongAdd augend addend =
     (if augend + addend \<ge> augend then (STATUS_SUCCESS, augend + addend)
      else (STATUS_INTEGER_OVERFLOW, 0xFFFFFFFF))"

definition RtlUShortSub :: "u16 \<Rightarrow> u16 \<Rightarrow> ntstatus \<times> u16" where
  "RtlUShortSub minuend subtrahend =
     (if minuend \<ge> subtrahend then (STATUS_SUCCESS, minuend - subtrahend)
      else (STATUS_INTEGER_OVERFLOW, 0xFFFF))"

definition RtlULongSub :: "u32 \<Rightarrow> u32 \<Rightarrow> ntstatus \<times> u32" where
  "RtlULongSub minuend subtrahend =
     (if minuend \<ge> subtrahend then (STATUS_SUCCESS, minuend - subtrahend)
      else (STATUS_INTEGER_OVERFLOW, 0xFFFFFFFF))"

definition RtlULongToUShort :: "u32 \<Rightarrow> ntstatus \<times> u16" where
  "RtlULongToUShort operand =
     (if operand \<le> 0xFFFF then (STATUS_SUCCESS, ucast operand)
      else (STATUS_INTEGER_OVERFLOW, 0xFFFF))"

definition RtlULongLongToULong :: "u64 \<Rightarrow> ntstatus \<times> u32" where
  "RtlULongLongToULong operand =
     (if operand \<le> 0xFFFFFFFF then (STATUS_SUCCESS, ucast operand)
      else (STATUS_INTEGER_OVERFLOW, 0xFFFFFFFF))"

definition RtlUShortMult :: "u16 \<Rightarrow> u16 \<Rightarrow> ntstatus \<times> u16" where
  "RtlUShortMult multiplicand multiplier = RtlULongToUShort (ucast multiplicand * ucast multiplier)"

definition RtlULongMult :: "u32 \<Rightarrow> u32 \<Rightarrow> ntstatus \<times> u32" where
  "RtlULongMult multiplicand multiplier = RtlULongLongToULong (ucast multiplicand * ucast multiplier)"

text \<open>
  The contract that callers rely on: a routine succeeds exactly when the mathematical result fits
  the type, and then stores it.
\<close>

locale checked_op =
  fixes opr :: "'a::len word \<Rightarrow> 'a word \<Rightarrow> ntstatus \<times> 'a word"
    and exact :: "nat \<Rightarrow> nat \<Rightarrow> nat option"
  assumes succeeds_iff: "fst (opr a b) = STATUS_SUCCESS \<longleftrightarrow>
      (\<exists>n. exact (unat a) (unat b) = Some n \<and> n < 2 ^ LENGTH('a))"
    and exact_result: "fst (opr a b) = STATUS_SUCCESS \<Longrightarrow>
      exact (unat a) (unat b) = Some (unat (snd (opr a b)))"
begin

lemma success_value: "opr a b = (STATUS_SUCCESS, c) \<Longrightarrow> exact (unat a) (unat b) = Some (unat c)"
  using exact_result [of a b] by simp

lemma fits_succeeds:
  "exact (unat a) (unat b) = Some n \<Longrightarrow> n < 2 ^ LENGTH('a) \<Longrightarrow>
   \<exists>c. opr a b = (STATUS_SUCCESS, c) \<and> unat c = n"
  using succeeds_iff [of a b] exact_result [of a b] by (cases "opr a b") auto

end

lemma unat_mult_u16_u32:
  "unat (ucast (a :: u16) * ucast (b :: u16) :: u32) = unat a * unat b"
proof -
  have "unat a * unat b \<le> 65535 * 65535"
    using unat_lt_u16 [of a] unat_lt_u16 [of b] by (intro mult_le_mono) linarith+
  then show ?thesis by (subst unat_mult_fits) simp_all
qed

interpretation ushort_add: checked_op RtlUShortAdd "\<lambda>a b. Some (a + b)"
  by unfold_locales (simp_all add: RtlUShortAdd_def add_no_wrap_iff unat_add_fits split: if_splits)

interpretation ulong_add: checked_op RtlULongAdd "\<lambda>a b. Some (a + b)"
  by unfold_locales (simp_all add: RtlULongAdd_def add_no_wrap_iff unat_add_fits split: if_splits)

interpretation ushort_sub: checked_op RtlUShortSub "\<lambda>a b. if b \<le> a then Some (a - b) else None"
  by unfold_locales
    (auto simp: RtlUShortSub_def word_le_nat_alt unat_sub_if' less_imp_diff_less split: if_splits)

interpretation ulong_sub: checked_op RtlULongSub "\<lambda>a b. if b \<le> a then Some (a - b) else None"
  by unfold_locales
    (auto simp: RtlULongSub_def word_le_nat_alt unat_sub_if' less_imp_diff_less split: if_splits)

interpretation ushort_mult: checked_op RtlUShortMult "\<lambda>a b. Some (a * b)"
  by unfold_locales
    (auto simp: RtlUShortMult_def RtlULongToUShort_def word_le_nat_alt unat_mult_u16_u32
      unat_u32_u16 split: if_splits)

interpretation ulong_mult: checked_op RtlULongMult "\<lambda>a b. Some (a * b)"
  by unfold_locales
    (auto simp: RtlULongMult_def RtlULongLongToULong_def word_le_nat_alt unat_mult_u32_u64
      unat_u64_u32 split: if_splits)

end
