(* ===== verification/DynData.thy ===== *)
theory DynData
  imports SafeInt
begin

text \<open>
  The look-up in the dynamic data configuration that the kernel driver is given by user mode,
  ProcessHacker/kphlib/kphdyndata.c. The configuration is a block of \<open>Length\<close> bytes of which
  nothing is trusted; structures are packed (pshpack1), so the header, up to and including Count,
  has 547 bytes and an entry has 16. Pointers into the block are offsets.
\<close>

section \<open>Layout\<close>

definition KPH_DYN_CONFIGURATION_VERSION :: u32 where
  "KPH_DYN_CONFIGURATION_VERSION = 16"

definition KPH_DYN_SESSION_TOKEN_PUBLIC_KEY_LENGTH :: nat where
  "KPH_DYN_SESSION_TOKEN_PUBLIC_KEY_LENGTH = 539"

record KPH_DYN_DATA =
  Class :: u16
  Machine :: u16
  TimeDateStamp :: u32
  SizeOfImage :: u32
  Offset :: u32

text \<open>Offsets of the members of KPH_DYN_CONFIG; RTL_SIZEOF_THROUGH_FIELD(.., Count) is \<open>off_Data\<close>.\<close>

definition off_Count :: nat where
  "off_Count = 4 + KPH_DYN_SESSION_TOKEN_PUBLIC_KEY_LENGTH"

definition off_Data :: nat where
  "off_Data = off_Count + 4"

definition sizeof_KPH_DYN_DATA :: nat where
  "sizeof_KPH_DYN_DATA = 16"

definition cfg_Version :: "mem \<Rightarrow> u32" where
  "cfg_Version cfg = rd32 cfg 0"

definition cfg_Count :: "mem \<Rightarrow> u32" where
  "cfg_Count cfg = rd32 cfg off_Count"

text \<open>\<open>&Config->Data[i]\<close>, and the structure found there.\<close>

definition addr_Data :: "nat \<Rightarrow> nat" where
  "addr_Data i = off_Data + sizeof_KPH_DYN_DATA * i"

definition cfg_Data :: "mem \<Rightarrow> nat \<Rightarrow> KPH_DYN_DATA" where
  "cfg_Data cfg i = (let a = addr_Data i in
     \<lparr> Class = rd16 cfg a, Machine = rd16 cfg (a + 2), TimeDateStamp = rd32 cfg (a + 4),
       SizeOfImage = rd32 cfg (a + 8), Offset = rd32 cfg (a + 12) \<rparr>)"

section \<open>The look-up\<close>

text \<open>What the caller asks for: the four keys, and which of the two results it wants.\<close>

record dyn_request =
  reqClass :: u16
  reqMachine :: u16
  reqTimeDateStamp :: u32
  reqSizeOfImage :: u32
  wantData :: bool
  reqFieldsLength :: u32
  wantFields :: bool

definition matches :: "dyn_request \<Rightarrow> KPH_DYN_DATA \<Rightarrow> bool" where
  "matches rq data \<longleftrightarrow>
     \<not> (Class data \<noteq> reqClass rq \<or> Machine data \<noteq> reqMachine rq \<or>
        TimeDateStamp data \<noteq> reqTimeDateStamp rq \<or> SizeOfImage data \<noteq> reqSizeOfImage rq)"

text \<open>The status, and the offsets stored in Data and Fields (None is NULL).\<close>

type_synonym dyn_result = "ntstatus \<times> nat option \<times> nat option"

definition dyn_found :: "mem \<Rightarrow> u32 \<Rightarrow> dyn_request \<Rightarrow> nat \<Rightarrow> dyn_result" where
  "dyn_found cfg remaining rq i =
     (let data = cfg_Data cfg i;
          dataOut = (if wantData rq then Some (addr_Data i) else None) in
      if wantFields rq then
        (let (status, endOff) = RtlULongAdd (Offset data) (reqFieldsLength rq) in
         if \<not> NT_SUCCESS status \<or> endOff > remaining
         then (STATUS_SI_DYNDATA_INVALID_LENGTH, None, None)
         else (STATUS_SUCCESS, dataOut, Some (addr_Data (unat (cfg_Count cfg)) + unat (Offset data))))
      else (STATUS_SUCCESS, dataOut, None))"

fun dyn_scan :: "mem \<Rightarrow> u32 \<Rightarrow> dyn_request \<Rightarrow> nat list \<Rightarrow> dyn_result" where
  "dyn_scan cfg remaining rq [] = (STATUS_SI_DYNDATA_UNSUPPORTED_KERNEL, None, None)"
| "dyn_scan cfg remaining rq (i # is) =
     (if \<not> matches rq (cfg_Data cfg i) then dyn_scan cfg remaining rq is
      else dyn_found cfg remaining rq i)"

definition KphDynDataLookup :: "mem \<Rightarrow> u32 \<Rightarrow> dyn_request \<Rightarrow> dyn_result" where
  "KphDynDataLookup cfg Length rq =
     (let (status, length1) = RtlULongSub Length (of_nat off_Data) in
      if \<not> NT_SUCCESS status then (STATUS_SI_DYNDATA_INVALID_LENGTH, None, None)
      else if cfg_Version cfg \<noteq> KPH_DYN_CONFIGURATION_VERSION
      then (STATUS_SI_DYNDATA_VERSION_MISMATCH, None, None)
      else
        let (status, dataLength) = RtlULongMult (of_nat sizeof_KPH_DYN_DATA) (cfg_Count cfg) in
        if \<not> NT_SUCCESS status then (STATUS_SI_DYNDATA_INVALID_LENGTH, None, None)
        else
          let (status, length2) = RtlULongSub length1 dataLength in
          if \<not> NT_SUCCESS status then (STATUS_SI_DYNDATA_INVALID_LENGTH, None, None)
          else dyn_scan cfg length2 rq [0 ..< unat (cfg_Count cfg)])"

section \<open>Lemmas\<close>

lemmas dyn_layout_defs =
  off_Data_def off_Count_def KPH_DYN_SESSION_TOKEN_PUBLIC_KEY_LENGTH_def sizeof_KPH_DYN_DATA_def
  addr_Data_def

text \<open>The tests before the scan: either the look-up fails, or the entries lie in the block.\<close>

lemma KphDynDataLookup_cases:
  "KphDynDataLookup cfg Length rq =
     (if unat Length < off_Data then (STATUS_SI_DYNDATA_INVALID_LENGTH, None, None)
      else if cfg_Version cfg \<noteq> KPH_DYN_CONFIGURATION_VERSION
      then (STATUS_SI_DYNDATA_VERSION_MISMATCH, None, None)
      else if unat Length < addr_Data (unat (cfg_Count cfg))
      then (STATUS_SI_DYNDATA_INVALID_LENGTH, None, None)
      else dyn_scan cfg (of_nat (unat Length - addr_Data (unat (cfg_Count cfg)))) rq
             [0 ..< unat (cfg_Count cfg)])"
proof (cases "unat Length < off_Data")
  case True
  then have "fst (RtlULongSub Length (of_nat off_Data)) \<noteq> STATUS_SUCCESS"
    by (simp add: ulong_sub.succeeds_iff dyn_layout_defs)
  then show ?thesis using True by (auto simp: KphDynDataLookup_def Let_def split: prod.splits)
next
  case False
  let ?n = "unat (cfg_Count cfg)"
  obtain l1 where s1: "RtlULongSub Length (of_nat off_Data) = (STATUS_SUCCESS, l1)"
    and l1: "unat l1 = unat Length - off_Data"
    using False ulong_sub.fits_succeeds [where a = Length and b = "of_nat off_Data" and n = "unat Length - off_Data"]
    by (auto simp: dyn_layout_defs less_imp_diff_less)
  have mult: "unat c = 16 * ?n"
    if "RtlULongMult (of_nat sizeof_KPH_DYN_DATA) (cfg_Count cfg) = (STATUS_SUCCESS, c)" for c
    using ulong_mult.success_value [OF that] by (simp add: dyn_layout_defs)
  show ?thesis
  proof (cases "unat Length < addr_Data ?n")
    case True
    have "fst (RtlULongSub l1 c) \<noteq> STATUS_SUCCESS" if "unat c = 16 * ?n" for c
      using True False that by (auto simp: ulong_sub.succeeds_iff dyn_layout_defs l1)
    then show ?thesis
      using True False s1 mult by (fastforce simp: KphDynDataLookup_def Let_def split: prod.splits)
  next
    case inb: False
    have small: "16 * ?n < 4294967296"
      using inb unat_lt_u32 [of Length] by (simp add: dyn_layout_defs del: unat_lt_u32)
    obtain c where s2: "RtlULongMult (of_nat sizeof_KPH_DYN_DATA) (cfg_Count cfg) = (STATUS_SUCCESS, c)"
      using small ulong_mult.fits_succeeds [where a = "of_nat sizeof_KPH_DYN_DATA" and b = "cfg_Count cfg"]
      by (auto simp: dyn_layout_defs)
    have le: "16 * ?n \<le> unat Length - off_Data" and
      diff: "unat Length - off_Data - 16 * ?n = unat Length - addr_Data ?n"
      using inb by (auto simp: dyn_layout_defs)
    obtain l2 where s3: "RtlULongSub l1 c = (STATUS_SUCCESS, l2)"
      and l2: "unat l2 = unat Length - addr_Data ?n"
      using inb False mult [OF s2] ulong_sub.fits_succeeds [where a = l1 and b = c and n = "unat Length - addr_Data ?n"]
      by (auto simp: l1 le diff less_imp_diff_less simp del: diff_diff_left)
    have "l2 = of_nat (unat Length - addr_Data ?n)" by (simp flip: l2)
    then show ?thesis using False inb s1 s2 s3 by (simp add: KphDynDataLookup_def Let_def)
  qed
qed

lemma dyn_scan_find:
  "dyn_scan cfg rem rq is =
     (case find (\<lambda>i. matches rq (cfg_Data cfg i)) is of
        None \<Rightarrow> (STATUS_SI_DYNDATA_UNSUPPORTED_KERNEL, None, None)
      | Some i \<Rightarrow> dyn_found cfg rem rq i)"
  by (induction "is") simp_all

lemma dyn_found_success:
  "dyn_found cfg (of_nat n) rq i = (STATUS_SUCCESS, d, f) \<Longrightarrow> n < 4294967296 \<Longrightarrow>
   d = (if wantData rq then Some (addr_Data i) else None) \<and>
   f = (if wantFields rq then Some (addr_Data (unat (cfg_Count cfg)) + unat (Offset (cfg_Data cfg i))) else None) \<and>
   (wantFields rq \<longrightarrow> unat (Offset (cfg_Data cfg i)) + unat (reqFieldsLength rq) \<le> n)"
  by (cases "RtlULongAdd (Offset (cfg_Data cfg i)) (reqFieldsLength rq)")
     (auto simp: dyn_found_def Let_def word_less_nat_alt unsigned_of_nat take_bit_nat_eq_self
      dest: ulong_add.success_value split: if_splits)

lemma dyn_found_failure:
  "dyn_found cfg rem rq i = (st, d, f) \<Longrightarrow> st \<noteq> STATUS_SUCCESS \<Longrightarrow> d = None \<and> f = None"
  by (auto simp: dyn_found_def Let_def split: if_splits prod.splits)

lemma find_upt_Some:
  "find P [0 ..< n] = Some i \<Longrightarrow> i < n \<and> P i \<and> (\<forall>j < i. \<not> P j)"
  by (auto simp: find_Some_iff)

lemma addr_Data_mono: "i < n \<Longrightarrow> addr_Data i + sizeof_KPH_DYN_DATA \<le> addr_Data n"
  by (simp add: dyn_layout_defs)

lemma cfg_Data_cong:
  "(\<And>j. addr_Data i \<le> j \<Longrightarrow> j < addr_Data i + sizeof_KPH_DYN_DATA \<Longrightarrow> cfg j = cfg' j) \<Longrightarrow>
   cfg_Data cfg i = cfg_Data cfg' i"
proof -
  assume eq: "\<And>j. addr_Data i \<le> j \<Longrightarrow> j < addr_Data i + sizeof_KPH_DYN_DATA \<Longrightarrow> cfg j = cfg' j"
  have r16: "rd16 cfg (addr_Data i + k) = rd16 cfg' (addr_Data i + k)" if "k \<le> 14" for k
    by (intro rd16_cong eq) (use that in \<open>auto simp: sizeof_KPH_DYN_DATA_def\<close>)
  have r32: "rd32 cfg (addr_Data i + k) = rd32 cfg' (addr_Data i + k)" if "k \<le> 12" for k
    by (intro rd32_cong eq) (use that in \<open>auto simp: sizeof_KPH_DYN_DATA_def\<close>)
  show ?thesis
    using r16 [of 0] r16 [of 2] r32 [of 4] r32 [of 8] r32 [of 12] by (simp add: cfg_Data_def Let_def)
qed

section \<open>Properties\<close>

text \<open>
  C29: a successful look-up returns the first entry with the four requested keys, the entry lies
  inside the block, and so does the whole of the requested field structure: its start is behind the
  entries, its end, \<open>FieldsLength\<close> bytes on, is not beyond \<open>Length\<close>. A failed look-up returns no
  pointer.
\<close>

theorem dyn_lookup_in_bounds:
  assumes "KphDynDataLookup cfg Length rq = (status, d, f)"
  shows "if status = STATUS_SUCCESS then
      \<exists>i < unat (cfg_Count cfg).
        matches rq (cfg_Data cfg i) \<and> (\<forall>j < i. \<not> matches rq (cfg_Data cfg j)) \<and>
        addr_Data i + sizeof_KPH_DYN_DATA \<le> unat Length \<and>
        d = (if wantData rq then Some (addr_Data i) else None) \<and>
        (if wantFields rq
         then \<exists>a. f = Some a \<and> a = addr_Data (unat (cfg_Count cfg)) + unat (Offset (cfg_Data cfg i)) \<and>
                  a + unat (reqFieldsLength rq) \<le> unat Length
         else f = None)
    else d = None \<and> f = None"
proof (cases "off_Data \<le> unat Length \<and> cfg_Version cfg = KPH_DYN_CONFIGURATION_VERSION \<and>
              addr_Data (unat (cfg_Count cfg)) \<le> unat Length")
  case False
  then show ?thesis
    using assms by (auto simp: KphDynDataLookup_cases split: if_splits)
next
  case True
  let ?n = "unat (cfg_Count cfg)"
  let ?rem = "unat Length - addr_Data ?n"
  have scan: "dyn_scan cfg (of_nat ?rem) rq [0 ..< ?n] = (status, d, f)"
    using assms True by (simp add: KphDynDataLookup_cases)
  show ?thesis
  proof (cases "find (\<lambda>i. matches rq (cfg_Data cfg i)) [0 ..< ?n]")
    case None
    then show ?thesis using scan by (auto simp: dyn_scan_find)
  next
    case (Some i)
    then have found: "dyn_found cfg (of_nat ?rem) rq i = (status, d, f)"
      using scan by (simp add: dyn_scan_find)
    have i: "i < ?n" "matches rq (cfg_Data cfg i)" "\<forall>j < i. \<not> matches rq (cfg_Data cfg j)"
      using find_upt_Some [OF Some] by auto
    have small: "?rem < 4294967296" using unat_lt_u32 [of Length] by linarith
    show ?thesis
    proof (cases "status = STATUS_SUCCESS")
      case True
      then show ?thesis
        using dyn_found_success [OF found [unfolded True] small] i addr_Data_mono [OF i(1)]
          \<open>off_Data \<le> unat Length \<and> _\<close>
        by (auto intro!: exI [of _ i])
    next
      case False
      then show ?thesis using dyn_found_failure [OF found] by simp
    qed
  qed
qed

text \<open>
  The look-up never reads outside the block: its result is the same for any two memories that
  agree on the \<open>Length\<close> bytes of the configuration, whatever these hold.
\<close>

theorem dyn_lookup_reads_in_bounds:
  assumes eq: "\<And>i. i < unat Length \<Longrightarrow> cfg i = cfg' i"
  shows "KphDynDataLookup cfg Length rq = KphDynDataLookup cfg' Length rq"
proof (cases "off_Data \<le> unat Length")
  case False
  then show ?thesis by (simp add: KphDynDataLookup_cases)
next
  case True
  have v: "cfg_Version cfg = cfg_Version cfg'" and n: "cfg_Count cfg = cfg_Count cfg'"
    unfolding cfg_Version_def cfg_Count_def
    using True by (auto intro!: rd32_cong eq simp: dyn_layout_defs)
  have d: "cfg_Data cfg i = cfg_Data cfg' i"
    if "addr_Data (unat (cfg_Count cfg')) \<le> unat Length" "i < unat (cfg_Count cfg')" for i
    using that addr_Data_mono [OF that(2)] by (intro cfg_Data_cong eq) simp
  have f: "dyn_found cfg rem rq i = dyn_found cfg' rem rq i"
    if "addr_Data (unat (cfg_Count cfg')) \<le> unat Length" "i < unat (cfg_Count cfg')" for rem i
    unfolding dyn_found_def n d [OF that] by (rule refl)
  have scan: "dyn_scan cfg rem rq is = dyn_scan cfg' rem rq is"
    if "addr_Data (unat (cfg_Count cfg')) \<le> unat Length"
      "\<And>i. i \<in> set is \<Longrightarrow> i < unat (cfg_Count cfg')" for rem "is"
    using that by (induction "is") (simp_all add: d f)
  show ?thesis by (auto simp: KphDynDataLookup_cases v n intro!: scan)
qed

text \<open>A configuration with one entry for the witnesses.\<close>

definition dyn_example :: mem where
  "dyn_example = (\<lambda>i. if i = 0 then 16 else if i = 543 then 1 else if i = 547 then 2 else
                        if i = 549 then 100 else 0)"

definition dyn_example_request :: dyn_request where
  "dyn_example_request = \<lparr> reqClass = 2, reqMachine = 100, reqTimeDateStamp = 0, reqSizeOfImage = 0,
     wantData = True, reqFieldsLength = 10, wantFields = True \<rparr>"

lemma dyn_example_found:
  "KphDynDataLookup dyn_example 573 dyn_example_request = (STATUS_SUCCESS, Some 547, Some 563)"
  by (simp add: KphDynDataLookup_cases dyn_layout_defs cfg_Version_def cfg_Count_def rd32_def rd16_def
      rd_bytes_def dyn_example_def dyn_example_request_def KPH_DYN_CONFIGURATION_VERSION_def upt_rec
      matches_def cfg_Data_def dyn_found_def RtlULongAdd_def Let_def)

theorem dyn_lookup_in_bounds_witness:
  "\<exists>i < unat (cfg_Count dyn_example). addr_Data i + sizeof_KPH_DYN_DATA \<le> 573 \<and> Some 547 = Some (addr_Data i)"
  using dyn_lookup_in_bounds [OF dyn_example_found] by (auto simp: dyn_example_request_def)

theorem dyn_lookup_reads_in_bounds_witness:
  "KphDynDataLookup dyn_example 573 dyn_example_request =
   KphDynDataLookup (dyn_example(573 := 255)) 573 dyn_example_request"
  by (rule dyn_lookup_reads_in_bounds) simp

end
