(* ===== verification/KphMessage.thy ===== *)
theory KphMessage
  imports SafeInt
begin

text \<open>
  The messages between the driver and its clients: ProcessHacker/kphlib/kphmsg.c (initialisation
  and validation) and ProcessHacker/kphlib/kphmsgdyn.c (the dynamic part, a table of at most eight
  typed fields over a buffer that grows behind the fixed part). The layout is that of the 64-bit
  build, fixed by the C_ASSERTs of kphmsg.h.
\<close>

section \<open>The message\<close>

text \<open>Enumerations are 32-bit signed integers; they are kept as \<open>int\<close>.\<close>

record KPH_MESSAGE_DYNAMIC_TABLE_ENTRY =
  FieldId :: int
  TypeId :: int
  Offset :: u16
  Length :: u16

text \<open>
  \<open>Bytes\<close> are the bytes of the message by their offset from its start. The header and the table,
  which lie below KPH_MESSAGE_MIN_SIZE, are kept as fields; the dynamic routines address only bytes
  from there on.
\<close>

record KPH_MESSAGE =
  Version :: u16
  Size :: u16
  MessageId :: int
  TimeStamp :: u64
  Count :: u8
  Entries :: "KPH_MESSAGE_DYNAMIC_TABLE_ENTRY list"
  Bytes :: mem

definition KPH_MESSAGE_VERSION :: u16 where "KPH_MESSAGE_VERSION = 8"
definition KPH_MESSAGE_MIN_SIZE :: u16 where "KPH_MESSAGE_MIN_SIZE = 460"
definition sizeof_KPH_MESSAGE :: u16 where "sizeof_KPH_MESSAGE = 0x4000"
definition DYN_ENTRIES :: nat where "DYN_ENTRIES = 8"

definition InvalidKphMsg :: int where "InvalidKphMsg = 0"
definition MaxKphMsgClientAllowed :: int where "MaxKphMsgClientAllowed = 0x40000000"
definition KPH_INFORMER_COUNT :: int where "KPH_INFORMER_COUNT = 155"
definition MaxKphMsg :: int where
  "MaxKphMsg = KPH_INFORMER_COUNT + (MaxKphMsgClientAllowed + 1)"
definition KphMsgUnhandled :: int where "KphMsgUnhandled = -1"

definition InvalidKphMsgField :: int where "InvalidKphMsgField = 0"
definition MaxKphMsgField :: int where "MaxKphMsgField = 22"
definition InvalidKphMsgType :: int where "InvalidKphMsgType = 0"
definition KphMsgTypeUnicodeString :: int where "KphMsgTypeUnicodeString = 1"
definition KphMsgTypeAnsiString :: int where "KphMsgTypeAnsiString = 2"
definition KphMsgTypeStackTrace :: int where "KphMsgTypeStackTrace = 3"
definition KphMsgTypeSizedBuffer :: int where "KphMsgTypeSizedBuffer = 4"
definition MaxKphMsgType :: int where "MaxKphMsgType = 5"

lemmas kph_msg_constants =
  KPH_MESSAGE_VERSION_def KPH_MESSAGE_MIN_SIZE_def sizeof_KPH_MESSAGE_def DYN_ENTRIES_def
  InvalidKphMsg_def MaxKphMsgClientAllowed_def KPH_INFORMER_COUNT_def MaxKphMsg_def
  KphMsgUnhandled_def InvalidKphMsgField_def MaxKphMsgField_def InvalidKphMsgType_def
  KphMsgTypeUnicodeString_def KphMsgTypeAnsiString_def KphMsgTypeStackTrace_def
  KphMsgTypeSizedBuffer_def MaxKphMsgType_def

text \<open>A zeroed table entry.\<close>

definition zero_entry :: KPH_MESSAGE_DYNAMIC_TABLE_ENTRY where
  "zero_entry = \<lparr> FieldId = 0, TypeId = 0, Offset = 0, Length = 0 \<rparr>"

text \<open>
  KphMsgInit zeroes the fixed part, leaves the buffer behind it as it is, and asks the system for
  the time, which is the argument \<open>systemTime\<close>.
\<close>

definition KphMsgInit :: "KPH_MESSAGE \<Rightarrow> int \<Rightarrow> u64 \<Rightarrow> KPH_MESSAGE" where
  "KphMsgInit message messageId systemTime =
     message\<lparr> Version := KPH_MESSAGE_VERSION, Size := KPH_MESSAGE_MIN_SIZE, MessageId := messageId,
              TimeStamp := systemTime, Count := 0, Entries := replicate DYN_ENTRIES zero_entry,
              Bytes := (\<lambda>i. if i < unat KPH_MESSAGE_MIN_SIZE then 0 else Bytes message i) \<rparr>"

definition KphMsgValidate :: "KPH_MESSAGE \<Rightarrow> ntstatus" where
  "KphMsgValidate message =
     (if Version message \<noteq> KPH_MESSAGE_VERSION then STATUS_REVISION_MISMATCH
      else if Size message < KPH_MESSAGE_MIN_SIZE \<or> Size message > sizeof_KPH_MESSAGE
      then STATUS_INVALID_MESSAGE
      else if Count message > of_nat DYN_ENTRIES then STATUS_INVALID_MESSAGE
      else if MessageId message \<noteq> KphMsgUnhandled \<and>
              (MessageId message \<le> InvalidKphMsg \<or> MessageId message \<ge> MaxKphMsg)
      then STATUS_INVALID_MESSAGE
      else STATUS_SUCCESS)"

section \<open>The dynamic table\<close>

text \<open>A pointer into the table is the index of the entry. Callers have validated Count.\<close>

fun find_entry_from :: "KPH_MESSAGE_DYNAMIC_TABLE_ENTRY list \<Rightarrow> nat \<Rightarrow> int \<Rightarrow> nat option" where
  "find_entry_from [] i fieldId = None"
| "find_entry_from (e # es) i fieldId =
     (if FieldId e = fieldId then Some i else find_entry_from es (Suc i) fieldId)"

definition KphpMsgDynFindEntry :: "KPH_MESSAGE \<Rightarrow> int \<Rightarrow> nat option" where
  "KphpMsgDynFindEntry message fieldId =
     find_entry_from (take (unat (Count message)) (Entries message)) 0 fieldId"

definition KphpMsgDynClaimEntry ::
  "KPH_MESSAGE \<Rightarrow> int \<Rightarrow> int \<Rightarrow> u16 \<Rightarrow> (ntstatus \<times> nat option) \<times> KPH_MESSAGE" where
  "KphpMsgDynClaimEntry message fieldId typeId len =
     (if fieldId \<le> InvalidKphMsgField \<or> fieldId \<ge> MaxKphMsgField
      then ((STATUS_INVALID_PARAMETER_2, None), message)
      else if typeId \<le> InvalidKphMsgType \<or> typeId \<ge> MaxKphMsgType
      then ((STATUS_INVALID_PARAMETER_3, None), message)
      else
        let status = KphMsgValidate message in
        if \<not> NT_SUCCESS status then ((status, None), message)
        else if Count message \<ge> of_nat DYN_ENTRIES
        then ((STATUS_INSUFFICIENT_RESOURCES, None), message)
        else if KphpMsgDynFindEntry message fieldId \<noteq> None
        then ((STATUS_ALREADY_COMMITTED, None), message)
        else
          let (status, offset) = RtlUShortAdd (Size message) len in
          if \<not> NT_SUCCESS status then ((status, None), message)
          else if offset > sizeof_KPH_MESSAGE then ((STATUS_INSUFFICIENT_RESOURCES, None), message)
          else
            let claimed = unat (Count message) in
            ((STATUS_SUCCESS, Some claimed),
             message\<lparr> Count := Count message + 1,
                      Entries := (Entries message)[claimed :=
                        \<lparr> FieldId = fieldId, TypeId = typeId, Offset = Size message, Length = len \<rparr>],
                      Size := Size message + len \<rparr>))"

definition KphpMsgDynLookupEntry :: "KPH_MESSAGE \<Rightarrow> int \<Rightarrow> int \<Rightarrow> ntstatus \<times> nat option" where
  "KphpMsgDynLookupEntry message fieldId typeId =
     (let status = KphMsgValidate message in
      if \<not> NT_SUCCESS status then (status, None)
      else case KphpMsgDynFindEntry message fieldId of
        None \<Rightarrow> (STATUS_NOT_FOUND, None)
      | Some i \<Rightarrow>
          let entry = Entries message ! i in
          if TypeId entry \<noteq> typeId then (STATUS_CONTEXT_MISMATCH, None)
          else
            let (status, endOffset) = RtlUShortAdd (Offset entry) (Length entry) in
            if \<not> NT_SUCCESS status \<or> Offset entry < KPH_MESSAGE_MIN_SIZE \<or> endOffset > Size message
            then (STATUS_HEAP_CORRUPTION, None)
            else (STATUS_SUCCESS, Some i))"

definition KphMsgDynClear :: "KPH_MESSAGE \<Rightarrow> KPH_MESSAGE" where
  "KphMsgDynClear message =
     message\<lparr> Size := KPH_MESSAGE_MIN_SIZE, Count := 0,
              Entries := replicate DYN_ENTRIES zero_entry \<rparr>"

text \<open>
  KphMsgDynClearLast does not validate the message; with a Count beyond the table it would access
  memory outside the table, which is None here.
\<close>

definition KphMsgDynClearLast :: "KPH_MESSAGE \<Rightarrow> KPH_MESSAGE option" where
  "KphMsgDynClearLast message =
     (if Count message > 0 then
        let count = Count message - 1 in
        if unat count < length (Entries message) then
          Some (message\<lparr> Count := count,
                         Size := Size message - Length (Entries message ! unat count),
                         Entries := (Entries message)[unat count := zero_entry] \<rparr>)
        else None
      else Some message)"

definition KphMsgDynRemaining :: "KPH_MESSAGE \<Rightarrow> u16" where
  "KphMsgDynRemaining message =
     (let (status, remaining) = RtlUShortSub sizeof_KPH_MESSAGE (Size message) in
      if \<not> NT_SUCCESS status then 0 else remaining)"

section \<open>Typed fields\<close>

text \<open>
  The routines that add a field copy \<open>Length\<close> bytes from a buffer of the caller, which holds at
  least that many. The routines that get a field store a length and a pointer into the message
  (an offset; None is NULL).
\<close>

record counted_string =
  StrLength :: u16
  StrMaximumLength :: u16
  StrBuffer :: "u8 list"

record string_ref =
  RefLength :: u16
  RefMaximumLength :: u16
  RefBuffer :: "nat option"

definition copy_to :: "KPH_MESSAGE \<Rightarrow> nat \<Rightarrow> u16 \<Rightarrow> u8 list \<Rightarrow> KPH_MESSAGE" where
  "copy_to message entry len buffer =
     message\<lparr> Bytes := wr_bytes (Bytes message) (unat (Offset (Entries message ! entry)))
                                 (take (unat len) buffer) \<rparr>"

definition KphMsgDynAddUnicodeString ::
  "KPH_MESSAGE \<Rightarrow> int \<Rightarrow> counted_string \<Rightarrow> ntstatus \<times> KPH_MESSAGE" where
  "KphMsgDynAddUnicodeString message fieldId string =
     (case KphpMsgDynClaimEntry message fieldId KphMsgTypeUnicodeString (StrLength string) of
        ((STATUS_SUCCESS, Some entry), message') \<Rightarrow>
          (STATUS_SUCCESS, copy_to message' entry (StrLength string) (StrBuffer string))
      | ((status, _), message') \<Rightarrow> (status, message'))"

definition KphMsgDynGetUnicodeString :: "KPH_MESSAGE \<Rightarrow> int \<Rightarrow> ntstatus \<times> string_ref" where
  "KphMsgDynGetUnicodeString message fieldId =
     (case KphpMsgDynLookupEntry message fieldId KphMsgTypeUnicodeString of
        (STATUS_SUCCESS, Some i) \<Rightarrow>
          (let entry = Entries message ! i in
           (STATUS_SUCCESS, \<lparr> RefLength = Length entry, RefMaximumLength = Length entry,
                              RefBuffer = Some (unat (Offset entry)) \<rparr>))
      | (status, _) \<Rightarrow> (status, \<lparr> RefLength = 0, RefMaximumLength = 0, RefBuffer = None \<rparr>))"

definition KphMsgDynAddAnsiString ::
  "KPH_MESSAGE \<Rightarrow> int \<Rightarrow> counted_string \<Rightarrow> ntstatus \<times> KPH_MESSAGE" where
  "KphMsgDynAddAnsiString message fieldId string =
     (case KphpMsgDynClaimEntry message fieldId KphMsgTypeAnsiString (StrLength string) of
        ((STATUS_SUCCESS, Some entry), message') \<Rightarrow>
          (STATUS_SUCCESS, copy_to message' entry (StrLength string) (StrBuffer string))
      | ((status, _), message') \<Rightarrow> (status, message'))"

definition KphMsgDynGetAnsiString :: "KPH_MESSAGE \<Rightarrow> int \<Rightarrow> ntstatus \<times> string_ref" where
  "KphMsgDynGetAnsiString message fieldId =
     (case KphpMsgDynLookupEntry message fieldId KphMsgTypeAnsiString of
        (STATUS_SUCCESS, Some i) \<Rightarrow>
          (let entry = Entries message ! i in
           (STATUS_SUCCESS, \<lparr> RefLength = Length entry, RefMaximumLength = Length entry,
                              RefBuffer = Some (unat (Offset entry)) \<rparr>))
      | (status, _) \<Rightarrow> (status, \<lparr> RefLength = 0, RefMaximumLength = 0, RefBuffer = None \<rparr>))"

text \<open>A stack trace: the number of frames and the frames, pointers of eight bytes.\<close>

record stack_trace =
  TraceCount :: u16
  TraceFrames :: "u64 list"

definition frame_bytes :: "u64 list \<Rightarrow> u8 list" where
  "frame_bytes frames = concat (map (\<lambda>f. le_bytes 8 (unat f)) frames)"

definition KphMsgDynAddStackTrace ::
  "KPH_MESSAGE \<Rightarrow> int \<Rightarrow> stack_trace \<Rightarrow> ntstatus \<times> KPH_MESSAGE" where
  "KphMsgDynAddStackTrace message fieldId stackTrace =
     (let (status, len) = RtlUShortMult (TraceCount stackTrace) 8 in
      if \<not> NT_SUCCESS status then (status, message)
      else case KphpMsgDynClaimEntry message fieldId KphMsgTypeStackTrace len of
        ((STATUS_SUCCESS, Some entry), message') \<Rightarrow>
          (STATUS_SUCCESS, copy_to message' entry len (frame_bytes (TraceFrames stackTrace)))
      | ((status, _), message') \<Rightarrow> (status, message'))"

definition KphMsgDynGetStackTrace :: "KPH_MESSAGE \<Rightarrow> int \<Rightarrow> ntstatus \<times> u16 \<times> nat option" where
  "KphMsgDynGetStackTrace message fieldId =
     (case KphpMsgDynLookupEntry message fieldId KphMsgTypeStackTrace of
        (STATUS_SUCCESS, Some i) \<Rightarrow>
          (let entry = Entries message ! i in
           (STATUS_SUCCESS, Length entry div 8, Some (unat (Offset entry))))
      | (status, _) \<Rightarrow> (status, 0, None))"

record sized_buffer =
  BufSize :: u16
  BufBuffer :: "u8 list"

definition KphMsgDynAddSizedBuffer ::
  "KPH_MESSAGE \<Rightarrow> int \<Rightarrow> sized_buffer \<Rightarrow> ntstatus \<times> KPH_MESSAGE" where
  "KphMsgDynAddSizedBuffer message fieldId sizedBuffer =
     (case KphpMsgDynClaimEntry message fieldId KphMsgTypeSizedBuffer (BufSize sizedBuffer) of
        ((STATUS_SUCCESS, Some entry), message') \<Rightarrow>
          (STATUS_SUCCESS, copy_to message' entry (BufSize sizedBuffer) (BufBuffer sizedBuffer))
      | ((status, _), message') \<Rightarrow> (status, message'))"

definition KphMsgDynGetSizedBuffer :: "KPH_MESSAGE \<Rightarrow> int \<Rightarrow> ntstatus \<times> u16 \<times> nat option" where
  "KphMsgDynGetSizedBuffer message fieldId =
     (case KphpMsgDynLookupEntry message fieldId KphMsgTypeSizedBuffer of
        (STATUS_SUCCESS, Some i) \<Rightarrow>
          (let entry = Entries message ! i in
           (STATUS_SUCCESS, Length entry, Some (unat (Offset entry))))
      | (status, _) \<Rightarrow> (status, 0, None))"

section \<open>The abstract view\<close>

text \<open>
  What a well-formed message holds: a map from field identifiers to a type and the bytes. It is
  well-formed when the table lists pairwise different fields whose regions follow each other without
  gaps from KPH_MESSAGE_MIN_SIZE up to Size, the stack traces are whole frames, and the rest of the
  table is zero.
\<close>

definition used :: "KPH_MESSAGE \<Rightarrow> KPH_MESSAGE_DYNAMIC_TABLE_ENTRY list" where
  "used m = take (unat (Count m)) (Entries m)"

fun contiguous :: "nat \<Rightarrow> KPH_MESSAGE_DYNAMIC_TABLE_ENTRY list \<Rightarrow> nat \<Rightarrow> bool" where
  "contiguous a [] b \<longleftrightarrow> a = b"
| "contiguous a (e # es) b \<longleftrightarrow> unat (Offset e) = a \<and> contiguous (a + unat (Length e)) es b"

definition msg_ok :: "KPH_MESSAGE \<Rightarrow> bool" where
  "msg_ok m \<longleftrightarrow>
     KphMsgValidate m = STATUS_SUCCESS \<and> length (Entries m) = DYN_ENTRIES \<and>
     distinct (map FieldId (used m)) \<and>
     contiguous (unat KPH_MESSAGE_MIN_SIZE) (used m) (unat (Size m)) \<and>
     (\<forall>e \<in> set (used m). TypeId e = KphMsgTypeStackTrace \<longrightarrow> 8 dvd unat (Length e)) \<and>
     drop (unat (Count m)) (Entries m) = replicate (DYN_ENTRIES - unat (Count m)) zero_entry"

definition payload :: "KPH_MESSAGE \<Rightarrow> KPH_MESSAGE_DYNAMIC_TABLE_ENTRY \<Rightarrow> u8 list" where
  "payload m e = rd_bytes (Bytes m) (unat (Offset e)) (unat (Length e))"

definition view :: "KPH_MESSAGE \<Rightarrow> int \<rightharpoonup> int \<times> u8 list" where
  "view m = map_of (map (\<lambda>e. (FieldId e, (TypeId e, payload m e))) (used m))"

subsection \<open>Lemmas on the table\<close>

lemma contiguous_append:
  "contiguous a (es @ fs) c \<longleftrightarrow> (\<exists>b. contiguous a es b \<and> contiguous b fs c)"
  by (induction es arbitrary: a) auto

lemma contiguous_le: "contiguous a es b \<Longrightarrow> a \<le> b"
  by (induction es arbitrary: a) (simp, force)

lemma contiguous_member:
  "contiguous a es b \<Longrightarrow> e \<in> set es \<Longrightarrow> a \<le> unat (Offset e) \<and> unat (Offset e) + unat (Length e) \<le> b"
proof (induction es arbitrary: a)
  case (Cons x es)
  then show ?case using contiguous_le [of "a + unat (Length x)" es b] by fastforce
qed simp

lemma find_entry_from_Some:
  "find_entry_from es k f = Some i \<Longrightarrow>
   k \<le> i \<and> i < k + length es \<and> FieldId (es ! (i - k)) = f"
proof (induction es arbitrary: k)
  case (Cons e es)
  then show ?case by (fastforce simp: nth_Cons' split: if_splits)
qed simp

lemma find_entry_from_None: "find_entry_from es k f = None \<longleftrightarrow> f \<notin> FieldId ` set es"
  by (induction es arbitrary: k) auto

lemma find_entry_used:
  "KphpMsgDynFindEntry m f = None \<longleftrightarrow> f \<notin> FieldId ` set (used m)"
  "KphpMsgDynFindEntry m f = Some i \<Longrightarrow>
     i < unat (Count m) \<and> i < length (Entries m) \<and> FieldId (Entries m ! i) = f"
  using find_entry_from_Some [of "used m" 0 f i]
  by (auto simp: KphpMsgDynFindEntry_def find_entry_from_None used_def)

lemma validate_success:
  "KphMsgValidate m = STATUS_SUCCESS \<longleftrightarrow>
     Version m = KPH_MESSAGE_VERSION \<and> 460 \<le> unat (Size m) \<and> unat (Size m) \<le> 16384 \<and>
     unat (Count m) \<le> 8 \<and>
     (MessageId m = KphMsgUnhandled \<or> InvalidKphMsg < MessageId m \<and> MessageId m < MaxKphMsg)"
  by (auto simp: KphMsgValidate_def word_le_nat_alt word_less_nat_alt kph_msg_constants)

lemma view_None: "view m f = None \<longleftrightarrow> KphpMsgDynFindEntry m f = None"
  by (force simp: view_def map_of_eq_None_iff find_entry_used)

lemma view_Some:
  assumes ok: "msg_ok m" and i: "KphpMsgDynFindEntry m f = Some i"
  shows "view m f = Some (TypeId (Entries m ! i), payload m (Entries m ! i))"
proof -
  have "Entries m ! i \<in> set (used m)" "FieldId (Entries m ! i) = f"
    using find_entry_used(2) [OF i] by (auto simp: used_def in_set_conv_nth)
  moreover have "distinct (map fst (map (\<lambda>e. (FieldId e, (TypeId e, payload m e))) (used m)))"
    using ok by (simp add: msg_ok_def comp_def)
  ultimately show ?thesis unfolding view_def by (intro map_of_is_SomeI) force+
qed

text \<open>The region of every listed field lies between the fixed part and Size.\<close>

lemma used_region:
  "msg_ok m \<Longrightarrow> e \<in> set (used m) \<Longrightarrow>
   460 \<le> unat (Offset e) \<and> unat (Offset e) + unat (Length e) \<le> unat (Size m)"
  unfolding msg_ok_def using contiguous_member [of 460 "used m" "unat (Size m)" e]
  by (simp add: kph_msg_constants)

lemma lookup_ok:
  assumes ok: "msg_ok m"
  shows "KphpMsgDynLookupEntry m f t =
    (case KphpMsgDynFindEntry m f of
       None \<Rightarrow> (STATUS_NOT_FOUND, None)
     | Some i \<Rightarrow> if TypeId (Entries m ! i) = t then (STATUS_SUCCESS, Some i)
                 else (STATUS_CONTEXT_MISMATCH, None))"
proof (cases "KphpMsgDynFindEntry m f")
  case None
  then show ?thesis using ok by (simp add: KphpMsgDynLookupEntry_def msg_ok_def)
next
  case (Some i)
  let ?e = "Entries m ! i"
  have "?e \<in> set (used m)" using find_entry_used(2) [OF Some] by (auto simp: used_def in_set_conv_nth)
  then have reg: "460 \<le> unat (Offset ?e)" "unat (Offset ?e) + unat (Length ?e) \<le> unat (Size m)"
    using used_region [OF ok] by auto
  then have "unat (Offset ?e) + unat (Length ?e) < 65536" using unat_lt_u16 [of "Size m"] by linarith
  then obtain c where "RtlUShortAdd (Offset ?e) (Length ?e) = (STATUS_SUCCESS, c)"
    and "unat c = unat (Offset ?e) + unat (Length ?e)"
    using ushort_add.fits_succeeds [where a = "Offset ?e" and b = "Length ?e"] by auto
  then show ?thesis
    using ok Some reg
    by (auto simp: KphpMsgDynLookupEntry_def msg_ok_def Let_def word_le_nat_alt word_less_nat_alt
        kph_msg_constants)
qed

subsection \<open>Claiming an entry\<close>

definition valid_field :: "int \<Rightarrow> bool" where
  "valid_field f \<longleftrightarrow> InvalidKphMsgField < f \<and> f < MaxKphMsgField"

definition valid_type :: "int \<Rightarrow> bool" where
  "valid_type t \<longleftrightarrow> InvalidKphMsgType < t \<and> t < MaxKphMsgType"

definition claimed :: "KPH_MESSAGE \<Rightarrow> int \<Rightarrow> int \<Rightarrow> u16 \<Rightarrow> KPH_MESSAGE" where
  "claimed m f t len =
     m\<lparr> Count := Count m + 1,
        Entries := (Entries m)[unat (Count m) :=
          \<lparr> FieldId = f, TypeId = t, Offset = Size m, Length = len \<rparr>],
        Size := Size m + len \<rparr>"

lemma unat_remaining: "msg_ok m \<Longrightarrow> unat (KphMsgDynRemaining m) = 16384 - unat (Size m)"
  by (auto simp: msg_ok_def validate_success KphMsgDynRemaining_def RtlUShortSub_def Let_def
      word_le_nat_alt unat_sub_if' kph_msg_constants)

lemma claim_cases:
  assumes ok: "msg_ok m"
  shows "KphpMsgDynClaimEntry m f t len =
    (if \<not> valid_field f then ((STATUS_INVALID_PARAMETER_2, None), m)
     else if \<not> valid_type t then ((STATUS_INVALID_PARAMETER_3, None), m)
     else if unat (Count m) = DYN_ENTRIES then ((STATUS_INSUFFICIENT_RESOURCES, None), m)
     else if KphpMsgDynFindEntry m f \<noteq> None then ((STATUS_ALREADY_COMMITTED, None), m)
     else if 65536 \<le> unat (Size m) + unat len then ((STATUS_INTEGER_OVERFLOW, None), m)
     else if unat (KphMsgDynRemaining m) < unat len then ((STATUS_INSUFFICIENT_RESOURCES, None), m)
     else ((STATUS_SUCCESS, Some (unat (Count m))), claimed m f t len))"
proof -
  have v: "KphMsgValidate m = STATUS_SUCCESS" "unat (Count m) \<le> 8" "unat (Size m) \<le> 16384"
    using ok by (auto simp: msg_ok_def validate_success)
  show ?thesis
  proof (cases "unat (Size m) + unat len < 65536")
    case True
    then have "RtlUShortAdd (Size m) len = (STATUS_SUCCESS, Size m + len)"
      "unat (Size m + len) = unat (Size m) + unat len"
      by (simp_all add: RtlUShortAdd_def add_no_wrap_iff unat_add_fits)
    then show ?thesis
      using v True
      by (auto simp: KphpMsgDynClaimEntry_def claimed_def valid_field_def valid_type_def Let_def
          unat_remaining [OF ok] word_le_nat_alt word_less_nat_alt kph_msg_constants)
  next
    case False
    then have "RtlUShortAdd (Size m) len = (STATUS_INTEGER_OVERFLOW, 0xFFFF)"
      by (simp add: RtlUShortAdd_def add_no_wrap_iff)
    then show ?thesis
      using v False
      by (auto simp: KphpMsgDynClaimEntry_def valid_field_def valid_type_def Let_def
          unat_remaining [OF ok] word_le_nat_alt word_less_nat_alt kph_msg_constants)
  qed
qed

lemma claim_success_iff:
  assumes "msg_ok m"
  shows "fst (fst (KphpMsgDynClaimEntry m f t len)) = STATUS_SUCCESS \<longleftrightarrow>
     valid_field f \<and> valid_type t \<and> unat (Count m) < DYN_ENTRIES \<and> view m f = None \<and>
     unat len \<le> unat (KphMsgDynRemaining m)"
proof -
  have "unat (Count m) \<le> DYN_ENTRIES" "unat (Size m) \<le> 16384"
    using assms by (auto simp: msg_ok_def validate_success kph_msg_constants)
  then show ?thesis
    using unat_remaining [OF assms] by (auto simp: claim_cases [OF assms] view_None)
qed

text \<open>A claimed entry whose bytes are copied extends the view and keeps the message well-formed.\<close>

lemma claim_copy:
  assumes ok: "msg_ok m" and claim: "KphpMsgDynClaimEntry m f t len = ((STATUS_SUCCESS, Some i), m1)"
    and buf: "unat len \<le> length buf" and frames: "t = KphMsgTypeStackTrace \<Longrightarrow> 8 dvd unat len"
  defines "m' \<equiv> copy_to m1 i len buf"
  shows "msg_ok m' \<and> view m f = None \<and> view m' = (view m)(f \<mapsto> (t, take (unat len) buf))"
proof -
  let ?c = "unat (Count m)" and ?e = "\<lparr> FieldId = f, TypeId = t, Offset = Size m, Length = len \<rparr>"
  have c: "?c < 8" "valid_field f" "view m f = None" "unat len \<le> 16384 - unat (Size m)"
    using claim_success_iff [OF ok, of f t len] claim unat_remaining [OF ok]
    by (auto simp: kph_msg_constants)
  have i: "i = ?c" and m1: "m1 = claimed m f t len"
    using claim by (auto simp: claim_cases [OF ok] split: if_splits)
  have wf: "unat (Size m) \<le> 16384" "length (Entries m) = 8"
    using ok by (auto simp: msg_ok_def validate_success kph_msg_constants)
  have cnt: "unat (Count m + 1) = Suc ?c"
    using c(1) by (subst unat_add_fits) auto
  have sz: "unat (Size m + len) = unat (Size m) + unat len"
    using c(4) wf by (subst unat_add_fits) auto
  have used': "used m' = used m @ [?e]"
    using c(1) wf by (simp add: m'_def m1 i copy_to_def claimed_def used_def cnt take_Suc_conv_app_nth
        take_update_cancel)
  have bytes: "Bytes m' = wr_bytes (Bytes m) (unat (Size m)) (take (unat len) buf)"
    using c(1) wf by (simp add: m'_def m1 i copy_to_def claimed_def)
  have old: "payload m' e = payload m e" if "e \<in> set (used m)" for e
    using used_region [OF ok that] by (simp add: payload_def bytes rd_wr_bytes_other)
  have new: "payload m' ?e = take (unat len) buf"
    using buf by (simp add: payload_def bytes)
  have fresh: "f \<notin> FieldId ` set (used m)"
    using c(3) by (simp add: view_None find_entry_used)
  have "msg_ok m'"
    using ok c wf fresh frames
    by (simp add: msg_ok_def used' contiguous_append validate_success)
       (auto simp: m'_def m1 i copy_to_def claimed_def cnt sz kph_msg_constants
         drop_update_cancel Cons_nth_drop_Suc [symmetric] Suc_diff_Suc [symmetric])
  moreover have "view m' = (view m)(f \<mapsto> (t, take (unat len) buf))"
  proof -
    have "map (\<lambda>e. (FieldId e, TypeId e, payload m' e)) (used m') =
          map (\<lambda>e. (FieldId e, TypeId e, payload m e)) (used m) @ [(f, t, take (unat len) buf)]"
      using old new by (simp add: used')
    moreover have "f \<notin> fst ` set (map (\<lambda>e. (FieldId e, TypeId e, payload m e)) (used m))"
      using fresh by force
    ultimately show ?thesis by (simp only: view_def map_of_snoc not_False_eq_True)
  qed
  ultimately show ?thesis using c(3) by blast
qed

section \<open>The interface of a typed field\<close>

text \<open>
  A pair of routines that add and get a field of one type. \<open>given\<close> is the bytes that a value
  hands over, None when it does not hold as many as it announces; \<open>region\<close> is what a result
  points to, an offset and a number of bytes.
\<close>

locale typed_field =
  fixes add :: "KPH_MESSAGE \<Rightarrow> int \<Rightarrow> 'v \<Rightarrow> ntstatus \<times> KPH_MESSAGE"
    and get :: "KPH_MESSAGE \<Rightarrow> int \<Rightarrow> ntstatus \<times> 'r"
    and tag :: int
    and given :: "'v \<Rightarrow> u8 list option"
    and region :: "'r \<Rightarrow> (nat \<times> nat) option"
  assumes add_success: "msg_ok m \<Longrightarrow> given v = Some bs \<Longrightarrow> add m f v = (STATUS_SUCCESS, m') \<Longrightarrow>
      msg_ok m' \<and> view m f = None \<and> view m' = (view m)(f \<mapsto> (tag, bs))"
    and add_success_iff: "msg_ok m \<Longrightarrow> given v = Some bs \<Longrightarrow>
      fst (add m f v) = STATUS_SUCCESS \<longleftrightarrow>
        valid_field f \<and> unat (Count m) < DYN_ENTRIES \<and> view m f = None \<and>
        length bs \<le> unat (KphMsgDynRemaining m)"
    and add_failure: "add m f v = (st, m') \<Longrightarrow> st \<noteq> STATUS_SUCCESS \<Longrightarrow> m' = m"
    and get_spec: "msg_ok m \<Longrightarrow> get m f = (st, r) \<Longrightarrow>
      (case view m f of
         None \<Rightarrow> st = STATUS_NOT_FOUND \<and> region r = None
       | Some (t, bs) \<Rightarrow>
           if t = tag
           then st = STATUS_SUCCESS \<and>
             (\<exists>a. region r = Some (a, length bs) \<and> rd_bytes (Bytes m) a (length bs) = bs)
           else st = STATUS_CONTEXT_MISMATCH \<and> region r = None)"
begin

lemma get_after_add:
  assumes "msg_ok m" and "given v = Some bs" and "add m f v = (STATUS_SUCCESS, m')"
  obtains r a where "get m' f = (STATUS_SUCCESS, r)" and "region r = Some (a, length bs)"
    and "rd_bytes (Bytes m') a (length bs) = bs"
proof -
  obtain st r where g: "get m' f = (st, r)" by fastforce
  have "msg_ok m'" "view m' f = Some (tag, bs)" using add_success [OF assms] by auto
  then show ?thesis using get_spec [OF _ g] that g by auto
qed

lemma other_after_add:
  "msg_ok m \<Longrightarrow> given v = Some bs \<Longrightarrow> add m f v = (STATUS_SUCCESS, m') \<Longrightarrow> g \<noteq> f \<Longrightarrow> view m' g = view m g"
  using add_success [of m v bs f m'] by simp

lemma accepts_exactly:
  assumes "msg_ok m" and "given v = Some bs"
  shows "if valid_field f \<and> unat (Count m) < DYN_ENTRIES \<and> view m f = None \<and>
           length bs \<le> unat (KphMsgDynRemaining m)
         then \<exists>m'. add m f v = (STATUS_SUCCESS, m') \<and> msg_ok m' \<and> view m' = (view m)(f \<mapsto> (tag, bs))
         else \<exists>st. st \<noteq> STATUS_SUCCESS \<and> add m f v = (st, m)"
proof (cases "add m f v")
  case (Pair st m')
  then show ?thesis
    using add_success_iff [OF assms, of f] add_success [OF assms, of f m'] add_failure [of m f v st m']
    by (cases "st = STATUS_SUCCESS") auto
qed

end

text \<open>The four pairs of routines.\<close>

definition given_string :: "counted_string \<Rightarrow> u8 list option" where
  "given_string v = (if unat (StrLength v) \<le> length (StrBuffer v)
                     then Some (take (unat (StrLength v)) (StrBuffer v)) else None)"

definition region_string :: "string_ref \<Rightarrow> (nat \<times> nat) option" where
  "region_string r = map_option (\<lambda>a. (a, unat (RefLength r))) (RefBuffer r)"

definition given_trace :: "stack_trace \<Rightarrow> u8 list option" where
  "given_trace v = (if unat (TraceCount v) = length (TraceFrames v) \<and> unat (TraceCount v) * 8 < 65536
                    then Some (frame_bytes (TraceFrames v)) else None)"

definition region_trace :: "u16 \<times> nat option \<Rightarrow> (nat \<times> nat) option" where
  "region_trace r = map_option (\<lambda>a. (a, 8 * unat (fst r))) (snd r)"

definition given_sized :: "sized_buffer \<Rightarrow> u8 list option" where
  "given_sized v = (if unat (BufSize v) \<le> length (BufBuffer v)
                    then Some (take (unat (BufSize v)) (BufBuffer v)) else None)"

definition region_sized :: "u16 \<times> nat option \<Rightarrow> (nat \<times> nat) option" where
  "region_sized r = map_option (\<lambda>a. (a, unat (fst r))) (snd r)"

lemmas typed_field_defs =
  KphMsgDynAddUnicodeString_def KphMsgDynGetUnicodeString_def given_string_def region_string_def
  KphMsgDynAddAnsiString_def KphMsgDynGetAnsiString_def
  KphMsgDynAddStackTrace_def KphMsgDynGetStackTrace_def given_trace_def region_trace_def
  KphMsgDynAddSizedBuffer_def KphMsgDynGetSizedBuffer_def given_sized_def region_sized_def

lemma length_frame_bytes [simp]: "length (frame_bytes fs) = 8 * length fs"
  by (induction fs) (simp_all add: frame_bytes_def)

lemma claim_failure:
  "KphpMsgDynClaimEntry m f t len = ((st, i), m') \<Longrightarrow> st \<noteq> STATUS_SUCCESS \<Longrightarrow> m' = m"
  by (auto simp: KphpMsgDynClaimEntry_def Let_def split: if_splits prod.splits)

lemma claim_entry:
  "KphpMsgDynClaimEntry m f t len = ((STATUS_SUCCESS, i), m') \<Longrightarrow> i = Some (unat (Count m))"
  by (auto simp: KphpMsgDynClaimEntry_def Let_def split: if_splits prod.splits)

text \<open>What a get routine sees of a well-formed message.\<close>

lemma lookup_view:
  assumes ok: "msg_ok m"
  shows "case view m f of
      None \<Rightarrow> KphpMsgDynLookupEntry m f t = (STATUS_NOT_FOUND, None)
    | Some (t', bs) \<Rightarrow>
        if t' = t
        then \<exists>i. KphpMsgDynLookupEntry m f t = (STATUS_SUCCESS, Some i) \<and>
               unat (Length (Entries m ! i)) = length bs \<and>
               rd_bytes (Bytes m) (unat (Offset (Entries m ! i))) (length bs) = bs \<and>
               (t = KphMsgTypeStackTrace \<longrightarrow> 8 dvd length bs)
        else KphpMsgDynLookupEntry m f t = (STATUS_CONTEXT_MISMATCH, None)"
proof (cases "KphpMsgDynFindEntry m f")
  case None
  then show ?thesis using view_None [of m f] by (simp add: lookup_ok [OF ok])
next
  case (Some i)
  have "Entries m ! i \<in> set (used m)"
    using find_entry_used(2) [OF Some] by (auto simp: used_def in_set_conv_nth)
  then have "TypeId (Entries m ! i) = KphMsgTypeStackTrace \<longrightarrow> 8 dvd unat (Length (Entries m ! i))"
    using ok by (simp add: msg_ok_def)
  then show ?thesis
    using view_Some [OF ok Some] Some by (auto simp: lookup_ok [OF ok] payload_def)
qed

text \<open>
  The shape the four add routines share: claim, then copy. What it does on a well-formed message is
  proved once.
\<close>

definition claim_then_copy ::
  "KPH_MESSAGE \<Rightarrow> int \<Rightarrow> int \<Rightarrow> u16 \<Rightarrow> u8 list \<Rightarrow> ntstatus \<times> KPH_MESSAGE" where
  "claim_then_copy m f t len buf =
     (case KphpMsgDynClaimEntry m f t len of
        ((STATUS_SUCCESS, Some i), m1) \<Rightarrow> (STATUS_SUCCESS, copy_to m1 i len buf)
      | ((status, _), m1) \<Rightarrow> (status, m1))"

lemma claim_then_copy_fst:
  "fst (claim_then_copy m f t len buf) = fst (fst (KphpMsgDynClaimEntry m f t len))"
  by (cases "KphpMsgDynClaimEntry m f t len")
     (auto simp: claim_then_copy_def dest: claim_entry split: ntstatus.splits option.splits)

lemma claim_then_copy_success:
  assumes "msg_ok m" and "unat len \<le> length buf" and "t = KphMsgTypeStackTrace \<Longrightarrow> 8 dvd unat len"
    and add: "claim_then_copy m f t len buf = (STATUS_SUCCESS, m')"
  shows "msg_ok m' \<and> view m f = None \<and> view m' = (view m)(f \<mapsto> (t, take (unat len) buf))"
proof -
  have "fst (fst (KphpMsgDynClaimEntry m f t len)) = STATUS_SUCCESS"
    using claim_then_copy_fst [of m f t len buf] add by simp
  then obtain i m1 where c: "KphpMsgDynClaimEntry m f t len = ((STATUS_SUCCESS, Some i), m1)"
    by (metis claim_entry prod.collapse)
  then have "m' = copy_to m1 i len buf" using add by (simp add: claim_then_copy_def)
  then show ?thesis using claim_copy [OF assms(1) c assms(2)] assms(3) by simp
qed

lemma claim_then_copy_failure:
  "claim_then_copy m f t len buf = (st, m') \<Longrightarrow> st \<noteq> STATUS_SUCCESS \<Longrightarrow> m' = m"
  by (cases "KphpMsgDynClaimEntry m f t len")
     (auto simp: claim_then_copy_def dest: claim_failure claim_entry
       split: ntstatus.splits option.splits)

lemma claim_then_copy_iff:
  assumes "msg_ok m" and "valid_type t" and "n = unat len"
  shows "fst (claim_then_copy m f t len buf) = STATUS_SUCCESS \<longleftrightarrow>
     valid_field f \<and> unat (Count m) < DYN_ENTRIES \<and> view m f = None \<and> n \<le> unat (KphMsgDynRemaining m)"
  using claim_success_iff [OF assms(1), of f t len] assms(2,3) by (auto simp: claim_then_copy_fst)

lemma add_unicode_eq: "KphMsgDynAddUnicodeString m f v =
    claim_then_copy m f KphMsgTypeUnicodeString (StrLength v) (StrBuffer v)"
  by (simp add: KphMsgDynAddUnicodeString_def claim_then_copy_def)

lemma add_ansi_eq: "KphMsgDynAddAnsiString m f v =
    claim_then_copy m f KphMsgTypeAnsiString (StrLength v) (StrBuffer v)"
  by (simp add: KphMsgDynAddAnsiString_def claim_then_copy_def)

lemma add_sized_eq: "KphMsgDynAddSizedBuffer m f v =
    claim_then_copy m f KphMsgTypeSizedBuffer (BufSize v) (BufBuffer v)"
  by (simp add: KphMsgDynAddSizedBuffer_def claim_then_copy_def)

lemma add_trace_eq:
  assumes "given_trace v = Some bs"
  obtains len where "unat len = length bs" and "bs = frame_bytes (TraceFrames v)"
    and "KphMsgDynAddStackTrace m f v = claim_then_copy m f KphMsgTypeStackTrace len bs"
proof -
  have v: "unat (TraceCount v) = length (TraceFrames v)" "unat (TraceCount v) * 8 < 65536"
    "bs = frame_bytes (TraceFrames v)"
    using assms by (auto simp: given_trace_def split: if_splits)
  then obtain len where "RtlUShortMult (TraceCount v) 8 = (STATUS_SUCCESS, len)"
    and "unat len = unat (TraceCount v) * 8"
    using ushort_mult.fits_succeeds [where a = "TraceCount v" and b = 8] by auto
  then show ?thesis
    using v that [of len] by (simp add: KphMsgDynAddStackTrace_def claim_then_copy_def)
qed

lemma valid_types:
  "valid_type KphMsgTypeUnicodeString" "valid_type KphMsgTypeAnsiString"
  "valid_type KphMsgTypeStackTrace" "valid_type KphMsgTypeSizedBuffer"
  "KphMsgTypeUnicodeString \<noteq> KphMsgTypeStackTrace" "KphMsgTypeAnsiString \<noteq> KphMsgTypeStackTrace"
  "KphMsgTypeSizedBuffer \<noteq> KphMsgTypeStackTrace"
  by (simp_all add: valid_type_def kph_msg_constants)

interpretation unicode: typed_field KphMsgDynAddUnicodeString KphMsgDynGetUnicodeString
    KphMsgTypeUnicodeString given_string region_string
proof (unfold_locales, goal_cases)
  case (1 m v bs f m')
  then show ?case
    using claim_then_copy_success [of m "StrLength v" "StrBuffer v" KphMsgTypeUnicodeString f m'] valid_types
    by (auto simp: add_unicode_eq given_string_def split: if_splits)
next
  case (2 m v bs f)
  then show ?case
    using claim_then_copy_iff [of m KphMsgTypeUnicodeString "length bs" "StrLength v"] valid_types
    by (auto simp: add_unicode_eq given_string_def split: if_splits)
next
  case (3 m f v st m')
  then show ?case by (auto simp: add_unicode_eq dest: claim_then_copy_failure)
next
  case (4 m f st r)
  then show ?case
    using lookup_view [of m f KphMsgTypeUnicodeString]
    by (auto simp: KphMsgDynGetUnicodeString_def region_string_def Let_def
        split: option.splits if_splits)
qed

interpretation ansi: typed_field KphMsgDynAddAnsiString KphMsgDynGetAnsiString
    KphMsgTypeAnsiString given_string region_string
proof (unfold_locales, goal_cases)
  case (1 m v bs f m')
  then show ?case
    using claim_then_copy_success [of m "StrLength v" "StrBuffer v" KphMsgTypeAnsiString f m'] valid_types
    by (auto simp: add_ansi_eq given_string_def split: if_splits)
next
  case (2 m v bs f)
  then show ?case
    using claim_then_copy_iff [of m KphMsgTypeAnsiString "length bs" "StrLength v"] valid_types
    by (auto simp: add_ansi_eq given_string_def split: if_splits)
next
  case (3 m f v st m')
  then show ?case by (auto simp: add_ansi_eq dest: claim_then_copy_failure)
next
  case (4 m f st r)
  then show ?case
    using lookup_view [of m f KphMsgTypeAnsiString]
    by (auto simp: KphMsgDynGetAnsiString_def region_string_def Let_def
        split: option.splits if_splits)
qed

interpretation sized: typed_field KphMsgDynAddSizedBuffer KphMsgDynGetSizedBuffer
    KphMsgTypeSizedBuffer given_sized region_sized
proof (unfold_locales, goal_cases)
  case (1 m v bs f m')
  then show ?case
    using claim_then_copy_success [of m "BufSize v" "BufBuffer v" KphMsgTypeSizedBuffer f m'] valid_types
    by (auto simp: add_sized_eq given_sized_def split: if_splits)
next
  case (2 m v bs f)
  then show ?case
    using claim_then_copy_iff [of m KphMsgTypeSizedBuffer "length bs" "BufSize v"] valid_types
    by (auto simp: add_sized_eq given_sized_def split: if_splits)
next
  case (3 m f v st m')
  then show ?case by (auto simp: add_sized_eq dest: claim_then_copy_failure)
next
  case (4 m f st r)
  then show ?case
    using lookup_view [of m f KphMsgTypeSizedBuffer]
    by (auto simp: KphMsgDynGetSizedBuffer_def region_sized_def Let_def
        split: option.splits if_splits)
qed

interpretation trace: typed_field KphMsgDynAddStackTrace KphMsgDynGetStackTrace
    KphMsgTypeStackTrace given_trace region_trace
proof (unfold_locales, goal_cases)
  case (1 m v bs f m')
  from 1(2) obtain len where "unat len = length bs" "bs = frame_bytes (TraceFrames v)"
    "KphMsgDynAddStackTrace m f v = claim_then_copy m f KphMsgTypeStackTrace len bs"
    by (rule add_trace_eq)
  then show ?case using 1 claim_then_copy_success [of m len bs KphMsgTypeStackTrace f m'] by simp
next
  case (2 m v bs f)
  from 2(2) obtain len where "unat len = length bs" "bs = frame_bytes (TraceFrames v)"
    "KphMsgDynAddStackTrace m f v = claim_then_copy m f KphMsgTypeStackTrace len bs"
    by (rule add_trace_eq)
  then show ?case
    using 2 claim_then_copy_iff [of m KphMsgTypeStackTrace "length bs" len] valid_types by simp
next
  case (3 m f v st m')
  then show ?case
    by (auto simp: KphMsgDynAddStackTrace_def claim_then_copy_def [symmetric] Let_def
        dest: claim_then_copy_failure split: if_splits prod.splits)
next
  case (4 m f st r)
  have "unat (l div 8 :: u16) = unat l div 8" for l by (simp add: unat_div_distrib)
  with 4 show ?case
    using lookup_view [of m f KphMsgTypeStackTrace]
    by (auto simp: KphMsgDynGetStackTrace_def region_trace_def Let_def
        split: option.splits if_splits)
qed

section \<open>Properties\<close>

lemma rd_bytes_split: "rd_bytes m a (x + y) = rd_bytes m a x @ rd_bytes m (a + x) y"
  using upt_add_eq_append [of a "a + x" y] by (simp add: rd_bytes_def add.assoc)

lemma frame_bytes_read:
  "rd_bytes m a (8 * length fs) = frame_bytes fs \<Longrightarrow> i < length fs \<Longrightarrow> rd64 m (a + 8 * i) = fs ! i"
proof (induction fs arbitrary: a i)
  case (Cons f fs)
  have "rd_bytes m a 8 @ rd_bytes m (a + 8) (8 * length fs) = le_bytes 8 (unat f) @ frame_bytes fs"
    using Cons.prems(1) rd_bytes_split [of m a 8 "8 * length fs"] by (simp add: frame_bytes_def)
  then have "rd_bytes m a 8 = le_bytes 8 (unat f)" and
    "rd_bytes m (a + 8) (8 * length fs) = frame_bytes fs"
    by (simp_all add: append_eq_append_conv)
  then show ?case
    using Cons.IH [of "a + 8" "i - 1"] Cons.prems(2)
    by (cases i) (simp_all add: rd64_def le_val_le_bytes add.assoc)
qed simp

lemma lookup_in_message:
  assumes "KphpMsgDynLookupEntry m f t = (STATUS_SUCCESS, Some i)"
  shows "i < unat (Count m) \<and> i < length (Entries m) \<and>
    FieldId (Entries m ! i) = f \<and> TypeId (Entries m ! i) = t \<and>
    460 \<le> unat (Offset (Entries m ! i)) \<and>
    unat (Offset (Entries m ! i)) + unat (Length (Entries m ! i)) \<le> unat (Size m) \<and>
    unat (Size m) \<le> 16384"
proof -
  let ?e = "Entries m ! i"
  have v: "KphMsgValidate m = STATUS_SUCCESS" and find: "KphpMsgDynFindEntry m f = Some i"
    and t: "TypeId ?e = t" and off: "460 \<le> unat (Offset ?e)"
    using assms by (auto simp: KphpMsgDynLookupEntry_def Let_def word_less_nat_alt kph_msg_constants
        split: if_splits option.splits prod.splits)
  obtain c where "RtlUShortAdd (Offset ?e) (Length ?e) = (STATUS_SUCCESS, c)" and "c \<le> Size m"
    using assms find by (auto simp: KphpMsgDynLookupEntry_def Let_def split: if_splits prod.splits)
  then have "unat (Offset ?e) + unat (Length ?e) \<le> unat (Size m)"
    using ushort_add.success_value [of "Offset ?e" "Length ?e" c] by (simp add: word_le_nat_alt)
  with v find t off show ?thesis
    using find_entry_used(2) [OF find] by (simp add: validate_success)
qed

text \<open>Data for the witnesses: a message just initialised and a string of two UTF-16 units.\<close>

definition msg_example :: KPH_MESSAGE where
  "msg_example = KphMsgInit \<lparr> Version = 0, Size = 0, MessageId = 0, TimeStamp = 0, Count = 0,
     Entries = [], Bytes = (\<lambda>_. 0) \<rparr> 0x40000001 7"

definition string_example :: counted_string where
  "string_example = \<lparr> StrLength = 4, StrMaximumLength = 4, StrBuffer = [104, 0, 105, 0] \<rparr>"

definition trace_example :: stack_trace where
  "trace_example = \<lparr> TraceCount = 2, TraceFrames = [0x7FF612345678, 5] \<rparr>"

lemma msg_ok_example: "msg_ok msg_example" "view msg_example f = None"
  "unat (Count msg_example) = 0" "unat (KphMsgDynRemaining msg_example) = 15924"
proof -
  show "msg_ok msg_example"
    by (simp add: msg_ok_def msg_example_def KphMsgInit_def validate_success used_def kph_msg_constants)
  then show "unat (KphMsgDynRemaining msg_example) = 15924"
    by (simp add: unat_remaining msg_example_def KphMsgInit_def kph_msg_constants)
qed (simp_all add: msg_example_def KphMsgInit_def view_def used_def)

lemma string_example_added:
  obtains m' where "KphMsgDynAddUnicodeString msg_example 1 string_example = (STATUS_SUCCESS, m')"
  using unicode.accepts_exactly [of msg_example string_example "[104, 0, 105, 0]" 1] msg_ok_example
  by (auto simp: given_string_def string_example_def valid_field_def kph_msg_constants)

lemma trace_example_added:
  obtains m' where "KphMsgDynAddStackTrace msg_example 5 trace_example = (STATUS_SUCCESS, m')"
  using trace.accepts_exactly [of msg_example trace_example "frame_bytes (TraceFrames trace_example)" 5]
    msg_ok_example
  by (auto simp: given_trace_def trace_example_def valid_field_def kph_msg_constants)

text \<open>
  C28: a Unicode string that was added is got back: the get routine returns its length and a pointer
  to a copy of exactly its bytes; the message stays well-formed, the field was free before, and
  every other field keeps its type and bytes.
\<close>

theorem msg_unicode_roundtrip:
  assumes "msg_ok m" and "unat (StrLength s) \<le> length (StrBuffer s)"
    and "KphMsgDynAddUnicodeString m f s = (STATUS_SUCCESS, m')"
  shows "msg_ok m' \<and> view m f = None \<and> (\<forall>g. g \<noteq> f \<longrightarrow> view m' g = view m g) \<and>
    (\<exists>r a. KphMsgDynGetUnicodeString m' f = (STATUS_SUCCESS, r) \<and>
       RefLength r = StrLength s \<and> RefBuffer r = Some a \<and>
       rd_bytes (Bytes m') a (unat (StrLength s)) = take (unat (StrLength s)) (StrBuffer s))"
proof -
  let ?bs = "take (unat (StrLength s)) (StrBuffer s)"
  have given: "given_string s = Some ?bs" using assms(2) by (simp add: given_string_def)
  obtain r a where "KphMsgDynGetUnicodeString m' f = (STATUS_SUCCESS, r)"
    "region_string r = Some (a, length ?bs)" "rd_bytes (Bytes m') a (length ?bs) = ?bs"
    using unicode.get_after_add [OF assms(1) given assms(3)] .
  then show ?thesis
    using unicode.add_success [OF assms(1) given assms(3)] assms(2)
    by (auto simp: region_string_def word_eq_unat)
qed

theorem msg_unicode_roundtrip_witness:
  "\<exists>m' r a. KphMsgDynAddUnicodeString msg_example 1 string_example = (STATUS_SUCCESS, m') \<and>
     KphMsgDynGetUnicodeString m' 1 = (STATUS_SUCCESS, r) \<and> RefBuffer r = Some a \<and>
     rd_bytes (Bytes m') a 4 = [104, 0, 105, 0]"
proof -
  obtain m' where add: "KphMsgDynAddUnicodeString msg_example 1 string_example = (STATUS_SUCCESS, m')"
    by (rule string_example_added)
  show ?thesis
    using msg_unicode_roundtrip [OF msg_ok_example(1) _ add] add by (auto simp: string_example_def)
qed

text \<open>
  A stack trace that was added is got back frame by frame: the count is the number of frames and
  the pointer leads to the frames in their order.
\<close>

theorem msg_stack_trace_roundtrip:
  assumes "msg_ok m" and "unat (TraceCount v) = length (TraceFrames v)"
    and "KphMsgDynAddStackTrace m f v = (STATUS_SUCCESS, m')"
  shows "\<exists>a. KphMsgDynGetStackTrace m' f = (STATUS_SUCCESS, TraceCount v, Some a) \<and>
    (\<forall>i < length (TraceFrames v). rd64 (Bytes m') (a + 8 * i) = TraceFrames v ! i)"
proof -
  let ?bs = "frame_bytes (TraceFrames v)"
  have "fst (RtlUShortMult (TraceCount v) 8) = STATUS_SUCCESS"
    using assms(3) by (auto simp: KphMsgDynAddStackTrace_def Let_def split: if_splits prod.splits)
  then have small: "unat (TraceCount v) * 8 < 65536"
    using ushort_mult.succeeds_iff [where a = "TraceCount v" and b = 8] by simp
  then have given: "given_trace v = Some ?bs" using assms(2) by (simp add: given_trace_def)
  obtain r a where r: "KphMsgDynGetStackTrace m' f = (STATUS_SUCCESS, r)"
    "region_trace r = Some (a, length ?bs)" "rd_bytes (Bytes m') a (length ?bs) = ?bs"
    using trace.get_after_add [OF assms(1) given assms(3)] .
  then have "r = (TraceCount v, Some a)"
    using assms(2) by (cases r) (auto simp: region_trace_def word_eq_unat)
  then show ?thesis
    using r(1) frame_bytes_read [of "Bytes m'" a "TraceFrames v"] r(3) by auto
qed

theorem msg_stack_trace_roundtrip_witness:
  "\<exists>m' a. KphMsgDynAddStackTrace msg_example 5 trace_example = (STATUS_SUCCESS, m') \<and>
     KphMsgDynGetStackTrace m' 5 = (STATUS_SUCCESS, 2, Some a) \<and> rd64 (Bytes m') (a + 8) = 5"
proof -
  obtain m' where add: "KphMsgDynAddStackTrace msg_example 5 trace_example = (STATUS_SUCCESS, m')"
    by (rule trace_example_added)
  have "unat (TraceCount trace_example) = length (TraceFrames trace_example)"
    by (simp add: trace_example_def)
  note msg_stack_trace_roundtrip [OF msg_ok_example(1) this add]
  then show ?thesis using add by (force simp: trace_example_def)
qed

text \<open>
  C39: the add routine accepts a buffer exactly when the field identifier is in range, the table has a
  free entry, the field is not there yet and the bytes fit into what KphMsgDynRemaining reports; then
  the message gains that field and nothing else. Otherwise it reports an error and leaves the message
  as it was.
\<close>

theorem msg_add_accepts_exactly:
  assumes "msg_ok m" and "unat (BufSize v) \<le> length (BufBuffer v)"
  shows "if valid_field f \<and> unat (Count m) < DYN_ENTRIES \<and> view m f = None \<and>
           BufSize v \<le> KphMsgDynRemaining m
         then \<exists>m'. KphMsgDynAddSizedBuffer m f v = (STATUS_SUCCESS, m') \<and> msg_ok m' \<and>
           view m' = (view m)(f \<mapsto> (KphMsgTypeSizedBuffer, take (unat (BufSize v)) (BufBuffer v)))
         else \<exists>st. st \<noteq> STATUS_SUCCESS \<and> KphMsgDynAddSizedBuffer m f v = (st, m)"
proof -
  have "given_sized v = Some (take (unat (BufSize v)) (BufBuffer v))"
    using assms(2) by (simp add: given_sized_def)
  from sized.accepts_exactly [OF assms(1) this, of f] show ?thesis
    using assms(2) by (simp add: word_le_nat_alt)
qed

theorem msg_add_accepts_exactly_witness:
  "\<exists>m'. KphMsgDynAddSizedBuffer msg_example 7 \<lparr> BufSize = 3, BufBuffer = [1, 2, 3] \<rparr> = (STATUS_SUCCESS, m') \<and>
     view m' 7 = Some (KphMsgTypeSizedBuffer, [1, 2, 3])"
proof -
  have "unat (BufSize \<lparr> BufSize = 3, BufBuffer = [1, 2, 3] \<rparr>) \<le> length (BufBuffer \<lparr> BufSize = 3, BufBuffer = [1, 2, 3] \<rparr>)"
    by simp
  from msg_add_accepts_exactly [OF msg_ok_example(1) this, of 7] show ?thesis
    using msg_ok_example by (auto simp: valid_field_def word_le_nat_alt kph_msg_constants)
qed

text \<open>Undoing an addition.\<close>

lemma clear_last_claimed:
  assumes ok: "msg_ok m" and claim: "KphpMsgDynClaimEntry m f t len = ((STATUS_SUCCESS, Some i), m1)"
  shows "KphMsgDynClearLast (copy_to m1 i len buf) = Some (m\<lparr> Bytes := Bytes (copy_to m1 i len buf) \<rparr>)"
proof -
  let ?c = "unat (Count m)"
  have c: "?c < 8" "unat len \<le> 16384 - unat (Size m)"
    using claim_success_iff [OF ok, of f t len] claim unat_remaining [OF ok]
    by (auto simp: kph_msg_constants)
  have m1: "i = ?c" "m1 = claimed m f t len"
    using claim by (auto simp: claim_cases [OF ok] split: if_splits)
  have wf: "length (Entries m) = 8" "drop ?c (Entries m) = replicate (8 - ?c) zero_entry"
    using ok by (auto simp: msg_ok_def kph_msg_constants)
  have cnt: "unat (Count m + 1) = Suc ?c" using c(1) by (subst unat_add_fits) auto
  then have pos: "0 < Count m + 1" by (metis unat_gt_0 word_gt_0 zero_less_Suc)
  have "Entries m ! ?c = drop ?c (Entries m) ! 0" using wf(1) c(1) by simp
  also have "\<dots> = zero_entry" by (subst wf(2)) (use c(1) in simp)
  finally have "(Entries m)[?c := zero_entry] = Entries m" by (metis list_update_id)
  then show ?thesis
    using c(1) wf(1) pos by (simp add: KphMsgDynClearLast_def copy_to_def claimed_def m1 Let_def)
qed

lemma msg_ok_bytes [simp]: "msg_ok (m\<lparr> Bytes := b \<rparr>) = msg_ok m"
proof -
  have "KphMsgValidate (m\<lparr> Bytes := b \<rparr>) = KphMsgValidate m"
    by (cases m) (simp add: KphMsgValidate_def cong: if_cong)
  then show ?thesis by (simp add: msg_ok_def used_def)
qed

lemma view_bytes_cong:
  "msg_ok m \<Longrightarrow> (\<And>a. 460 \<le> a \<Longrightarrow> a < unat (Size m) \<Longrightarrow> b a = Bytes m a) \<Longrightarrow>
   view (m\<lparr> Bytes := b \<rparr>) = view m"
proof -
  assume ok: "msg_ok m" and eq: "\<And>a. 460 \<le> a \<Longrightarrow> a < unat (Size m) \<Longrightarrow> b a = Bytes m a"
  have "payload (m\<lparr> Bytes := b \<rparr>) e = payload m e" if "e \<in> set (used m)" for e
    unfolding payload_def using used_region [OF ok that] by (auto intro!: rd_bytes_cong eq)
  then show ?thesis by (simp add: view_def used_def cong: map_cong)
qed

text \<open>
  Clearing the last entry undoes an addition: the size, the count and the table are those before
  it, every byte of the earlier fields is unchanged, and the message holds the same fields.
\<close>

theorem msg_clear_last_undoes_add:
  assumes ok: "msg_ok m" and len: "unat (StrLength s) \<le> length (StrBuffer s)"
    and add: "KphMsgDynAddAnsiString m f s = (STATUS_SUCCESS, m')"
  shows "\<exists>m''. KphMsgDynClearLast m' = Some m'' \<and> m'' = m\<lparr> Bytes := Bytes m'' \<rparr> \<and>
    msg_ok m'' \<and> view m'' = view m"
proof -
  have eq: "claim_then_copy m f KphMsgTypeAnsiString (StrLength s) (StrBuffer s) = (STATUS_SUCCESS, m')"
    using add by (simp add: add_ansi_eq)
  have "fst (fst (KphpMsgDynClaimEntry m f KphMsgTypeAnsiString (StrLength s))) = STATUS_SUCCESS"
    using claim_then_copy_fst [of m f KphMsgTypeAnsiString "StrLength s" "StrBuffer s"] eq by simp
  then obtain i m1 where c:
    "KphpMsgDynClaimEntry m f KphMsgTypeAnsiString (StrLength s) = ((STATUS_SUCCESS, Some i), m1)"
    by (metis claim_entry prod.collapse)
  then have m': "m' = copy_to m1 i (StrLength s) (StrBuffer s)"
    using eq by (simp add: claim_then_copy_def)
  have i: "i = unat (Count m)" "m1 = claimed m f KphMsgTypeAnsiString (StrLength s)"
    using c by (auto simp: claim_cases [OF ok] split: if_splits)
  have idx: "unat (Count m) < length (Entries m)"
    using claim_success_iff [OF ok, of f KphMsgTypeAnsiString "StrLength s"] c ok
    by (auto simp: msg_ok_def kph_msg_constants)
  have bytes: "Bytes m' = wr_bytes (Bytes m) (unat (Size m)) (take (unat (StrLength s)) (StrBuffer s))"
    using idx by (simp add: m' i copy_to_def claimed_def)
  have "view (m\<lparr> Bytes := Bytes m' \<rparr>) = view m"
    by (rule view_bytes_cong [OF ok]) (simp add: bytes wr_bytes_other)
  moreover have "msg_ok (m\<lparr> Bytes := Bytes m' \<rparr>)"
    using ok by simp
  ultimately show ?thesis
    using clear_last_claimed [OF ok c, of "StrBuffer s"] by (auto simp: m')
qed

theorem msg_clear_last_undoes_add_witness:
  "\<exists>m' m''. KphMsgDynAddAnsiString msg_example 1 string_example = (STATUS_SUCCESS, m') \<and>
     KphMsgDynClearLast m' = Some m'' \<and> view m'' = view msg_example"
proof -
  obtain m' where add: "KphMsgDynAddAnsiString msg_example 1 string_example = (STATUS_SUCCESS, m')"
    using ansi.accepts_exactly [of msg_example string_example "[104, 0, 105, 0]" 1] msg_ok_example
    by (auto simp: given_string_def string_example_def valid_field_def kph_msg_constants)
  have "unat (StrLength string_example) \<le> length (StrBuffer string_example)"
    by (simp add: string_example_def)
  from msg_clear_last_undoes_add [OF msg_ok_example(1) this add] add show ?thesis by blast
qed

text \<open>What a get routine may answer: a region inside the message, or a failure and no region.\<close>

definition points_into :: "KPH_MESSAGE \<Rightarrow> ntstatus \<Rightarrow> (nat \<times> nat) option \<Rightarrow> bool" where
  "points_into m st r =
     (case r of None \<Rightarrow> st \<noteq> STATUS_SUCCESS
      | Some (a, n) \<Rightarrow> st = STATUS_SUCCESS \<and> 460 \<le> a \<and> a + n \<le> unat (Size m) \<and> unat (Size m) \<le> 16384)"

lemma lookup_cases:
  obtains (found) i where "KphpMsgDynLookupEntry m f t = (STATUS_SUCCESS, Some i)"
    and "460 \<le> unat (Offset (Entries m ! i))"
    and "unat (Offset (Entries m ! i)) + unat (Length (Entries m ! i)) \<le> unat (Size m)"
    and "unat (Size m) \<le> 16384"
  | (failed) st x where "st \<noteq> STATUS_SUCCESS" and "KphpMsgDynLookupEntry m f t = (st, x)"
proof (cases "fst (KphpMsgDynLookupEntry m f t) = STATUS_SUCCESS")
  case True
  then obtain i where "KphpMsgDynLookupEntry m f t = (STATUS_SUCCESS, Some i)"
    by (auto simp: KphpMsgDynLookupEntry_def Let_def split: if_splits option.splits prod.splits)
  with found lookup_in_message [OF this] show ?thesis by blast
next
  case False
  with failed show ?thesis by (metis prod.collapse)
qed

lemma frames_whole: "8 * unat (l div 8 :: u16) \<le> unat l"
  by (simp add: unat_div_distrib)

lemma get_string_points_into:
  "points_into m (fst (KphMsgDynGetUnicodeString m f)) (region_string (snd (KphMsgDynGetUnicodeString m f)))"
  "points_into m (fst (KphMsgDynGetAnsiString m f)) (region_string (snd (KphMsgDynGetAnsiString m f)))"
proof -
  show "points_into m (fst (KphMsgDynGetUnicodeString m f)) (region_string (snd (KphMsgDynGetUnicodeString m f)))"
  proof (cases rule: lookup_cases [of m f KphMsgTypeUnicodeString])
    case (failed st x)
    then show ?thesis by (cases st) (simp_all add: typed_field_defs points_into_def Let_def)
  qed (simp add: typed_field_defs points_into_def Let_def)
  show "points_into m (fst (KphMsgDynGetAnsiString m f)) (region_string (snd (KphMsgDynGetAnsiString m f)))"
  proof (cases rule: lookup_cases [of m f KphMsgTypeAnsiString])
    case (failed st x)
    then show ?thesis by (cases st) (simp_all add: typed_field_defs points_into_def Let_def)
  qed (simp add: typed_field_defs points_into_def Let_def)
qed

lemma get_buffer_points_into:
  "points_into m (fst (KphMsgDynGetStackTrace m f)) (region_trace (snd (KphMsgDynGetStackTrace m f)))"
  "points_into m (fst (KphMsgDynGetSizedBuffer m f)) (region_sized (snd (KphMsgDynGetSizedBuffer m f)))"
proof -
  show "points_into m (fst (KphMsgDynGetStackTrace m f)) (region_trace (snd (KphMsgDynGetStackTrace m f)))"
  proof (cases rule: lookup_cases [of m f KphMsgTypeStackTrace])
    case (found i)
    then show ?thesis
      using frames_whole [of "Length (Entries m ! i)"] by (simp add: typed_field_defs points_into_def Let_def)
  next
    case (failed st x)
    then show ?thesis by (cases st) (simp_all add: typed_field_defs points_into_def Let_def)
  qed
  show "points_into m (fst (KphMsgDynGetSizedBuffer m f)) (region_sized (snd (KphMsgDynGetSizedBuffer m f)))"
  proof (cases rule: lookup_cases [of m f KphMsgTypeSizedBuffer])
    case (failed st x)
    then show ?thesis by (cases st) (simp_all add: typed_field_defs points_into_def Let_def)
  qed (simp add: typed_field_defs points_into_def Let_def)
qed

text \<open>
  C15: a client can trust what it gets from any message, well-formed or forged: whatever the header,
  the table and the bytes hold, a get routine that succeeds points to bytes between the fixed part
  and Size, which are inside the message, and one that fails points nowhere.
\<close>

theorem msg_get_in_bounds:
  "points_into m (fst (KphMsgDynGetUnicodeString m f)) (region_string (snd (KphMsgDynGetUnicodeString m f))) \<and>
   points_into m (fst (KphMsgDynGetAnsiString m f)) (region_string (snd (KphMsgDynGetAnsiString m f))) \<and>
   points_into m (fst (KphMsgDynGetStackTrace m f)) (region_trace (snd (KphMsgDynGetStackTrace m f))) \<and>
   points_into m (fst (KphMsgDynGetSizedBuffer m f)) (region_sized (snd (KphMsgDynGetSizedBuffer m f)))"
  by (intro conjI get_string_points_into get_buffer_points_into)

end
