(* ===== verification/RingBuffer.thy ===== *)
theory RingBuffer
  imports SafeInt
begin

unbundle bit_operations_syntax

text \<open>
  The ring buffer through which the driver passes messages to its client: the producer side of
  ProcessHacker/KSystemInformer/ringbuff.c (reserve, commit, discard, and the lengths computed on
  creation) and the consumer side, ProcessHacker/kphlib/kphringbuff.c. Positions are byte offsets
  into the buffer. Header and alignment have 16 bytes, MEMORY_ALLOCATION_ALIGNMENT of the 64-bit
  build. The consumer's position is writable by user mode; the kernel does not trust it.
\<close>

section \<open>The header of an entry\<close>

text \<open>
  The bit-fields of the 64-bit word of KPH_RING_HEADER, from the lowest bit: Length (30 bits), Busy,
  Discard, Reset, Alignment (4 bits), Spare. Reading and assigning a field of \<open>n\<close> bits at \<open>p\<close>:
\<close>

definition get_bits :: "nat \<Rightarrow> nat \<Rightarrow> u64 \<Rightarrow> u64" where
  "get_bits p n v = take_bit n (drop_bit p v)"

definition put_bits :: "nat \<Rightarrow> nat \<Rightarrow> u64 \<Rightarrow> u64 \<Rightarrow> u64" where
  "put_bits p n x v = (v AND NOT (push_bit p (mask n))) OR push_bit p (take_bit n x)"

definition hdr_Length :: "u64 \<Rightarrow> u32" where "hdr_Length v = ucast (get_bits 0 30 v)"
definition hdr_Busy :: "u64 \<Rightarrow> bool" where "hdr_Busy v \<longleftrightarrow> get_bits 30 1 v \<noteq> 0"
definition hdr_Discard :: "u64 \<Rightarrow> bool" where "hdr_Discard v \<longleftrightarrow> get_bits 31 1 v \<noteq> 0"
definition hdr_Reset :: "u64 \<Rightarrow> bool" where "hdr_Reset v \<longleftrightarrow> get_bits 32 1 v \<noteq> 0"
definition hdr_Alignment :: "u64 \<Rightarrow> u32" where "hdr_Alignment v = ucast (get_bits 33 4 v)"

definition set_Length :: "u32 \<Rightarrow> u64 \<Rightarrow> u64" where "set_Length n = put_bits 0 30 (ucast n)"
definition set_Busy :: "bool \<Rightarrow> u64 \<Rightarrow> u64" where "set_Busy b = put_bits 30 1 (of_bool b)"
definition set_Discard :: "bool \<Rightarrow> u64 \<Rightarrow> u64" where "set_Discard b = put_bits 31 1 (of_bool b)"
definition set_Reset :: "bool \<Rightarrow> u64 \<Rightarrow> u64" where "set_Reset b = put_bits 32 1 (of_bool b)"
definition set_Alignment :: "u32 \<Rightarrow> u64 \<Rightarrow> u64" where "set_Alignment a = put_bits 33 4 (ucast a)"

definition KPH_RING_BUFFER_HEADER_SIZE :: u32 where "KPH_RING_BUFFER_HEADER_SIZE = 16"

definition KPH_RING_BUFFER_RESERVE_MAX :: u32 where
  "KPH_RING_BUFFER_RESERVE_MAX = ((2 ^ 30 - 1) - (16 - 1) - KPH_RING_BUFFER_HEADER_SIZE * 2)"

definition ALIGN_UP_BY16 :: "u32 \<Rightarrow> u32" where
  "ALIGN_UP_BY16 x = (x + mask 4) AND NOT (mask 4)"

section \<open>The ring\<close>

text \<open>
  \<open>ConsumerPos\<close> and \<open>ConsumerProcessing\<close> are in the consumer block, \<open>ProducerPos\<close> and
  \<open>Buffer\<close> in the producer block, which is read-only for user mode. \<open>EventSet\<close> is whether the
  event, when there is one, is signalled.
\<close>

record KPH_RING_BUFFER =
  RingLength :: u32
  Buffer :: mem
  ProducerPos :: u32
  ConsumerPos :: u32
  ConsumerProcessing :: u32
  HasEvent :: bool
  EventSet :: bool

text \<open>
  The lengths KphCreateRingBuffer computes before it creates the sections: the section holds the
  16 bytes before Buffer and is rounded up to pages (in 64 bits, then truncated).
\<close>

definition ROUND_TO_PAGES :: "u32 \<Rightarrow> u32" where
  "ROUND_TO_PAGES n = ucast (((ucast n :: u64) + mask 12) AND NOT (mask 12))"

definition ring_lengths :: "u32 \<Rightarrow> ntstatus \<times> u32 \<times> u32" where
  "ring_lengths len =
     (let (status, sectionLength) = RtlULongAdd len 16 in
      if \<not> NT_SUCCESS status then (status, 0, 0)
      else let roundedLength = ROUND_TO_PAGES sectionLength in
        if roundedLength < sectionLength then (STATUS_INTEGER_OVERFLOW, 0, 0)
        else (STATUS_SUCCESS, roundedLength, roundedLength - 16))"

text \<open>The ring over new sections, which are zeroed; \<open>m\<close> is zero on the buffer.\<close>

definition new_ring :: "u32 \<Rightarrow> bool \<Rightarrow> mem \<Rightarrow> KPH_RING_BUFFER" where
  "new_ring bufferLength event m =
     \<lparr> RingLength = bufferLength, Buffer = m, ProducerPos = 0, ConsumerPos = 0,
       ConsumerProcessing = 0, HasEvent = event, EventSet = False \<rparr>"

section \<open>The producer\<close>

text \<open>
  What KphReserveRingBuffer decides from the positions it has read: nothing, or whether it wraps,
  the position of the header and the new producer position. The sums wrap at 32 bits as in C.
\<close>

definition plan_reserve :: "u32 \<Rightarrow> u32 \<Rightarrow> u32 \<Rightarrow> u32 \<Rightarrow> (bool \<times> u32 \<times> u32) option" where
  "plan_reserve ringLength consumerPos producerPos len =
     (if len > KPH_RING_BUFFER_RESERVE_MAX then None
      else if \<not> consumerPos \<le> ringLength then None
      else
        let remainingLength = (if producerPos \<ge> consumerPos then ringLength - producerPos
                               else consumerPos - producerPos) in
        if \<not> remainingLength \<le> ringLength then None
        else
          let requiredLength =
                ALIGN_UP_BY16 (len + KPH_RING_BUFFER_HEADER_SIZE) + KPH_RING_BUFFER_HEADER_SIZE in
          if requiredLength > remainingLength then
            if producerPos < consumerPos \<or> requiredLength > consumerPos then None
            else if \<not> remainingLength \<ge> KPH_RING_BUFFER_HEADER_SIZE then None
            else Some (True, 0, requiredLength - KPH_RING_BUFFER_HEADER_SIZE)
          else Some (False, producerPos,
                     producerPos + (requiredLength - KPH_RING_BUFFER_HEADER_SIZE)))"

definition reserve_header :: "u32 \<Rightarrow> u64" where
  "reserve_header len =
     (let alignment = ALIGN_UP_BY16 (len + KPH_RING_BUFFER_HEADER_SIZE) - len
                      - KPH_RING_BUFFER_HEADER_SIZE in
      set_Alignment alignment (set_Busy True (set_Length len 0)))"

text \<open>
  The two parts of a reservation that the consumer can tell apart: first the headers are written
  (the reset marker, when the ring wraps, and the header of the entry), then the producer position
  is published. Between them the producer lock is held.
\<close>

definition reserve_write :: "KPH_RING_BUFFER \<Rightarrow> bool \<Rightarrow> u32 \<Rightarrow> u32 \<Rightarrow> KPH_RING_BUFFER" where
  "reserve_write ring wrap pos len =
     (let m = (if wrap then wr64 (Buffer ring) (unat (ProducerPos ring)) (set_Reset True 0)
               else Buffer ring) in
      ring\<lparr> Buffer := wr64 m (unat pos) (reserve_header len) \<rparr>)"

definition reserve_publish :: "KPH_RING_BUFFER \<Rightarrow> u32 \<Rightarrow> KPH_RING_BUFFER" where
  "reserve_publish ring newPos = ring\<lparr> ProducerPos := newPos \<rparr>"

definition KphReserveRingBuffer :: "KPH_RING_BUFFER \<Rightarrow> u32 \<Rightarrow> nat option \<times> KPH_RING_BUFFER" where
  "KphReserveRingBuffer ring len =
     (case plan_reserve (RingLength ring) (ConsumerPos ring) (ProducerPos ring) len of
        None \<Rightarrow> (None, ring)
      | Some (wrap, pos, newPos) \<Rightarrow>
          (Some (unat pos + unat KPH_RING_BUFFER_HEADER_SIZE),
           reserve_publish (reserve_write ring wrap pos len) newPos))"

definition KphpSubmitRingBuffer :: "KPH_RING_BUFFER \<Rightarrow> nat \<Rightarrow> bool \<Rightarrow> KPH_RING_BUFFER" where
  "KphpSubmitRingBuffer ring buffer discard =
     (let headerPointer = buffer - unat KPH_RING_BUFFER_HEADER_SIZE;
          header = set_Discard discard (set_Busy False (rd64 (Buffer ring) headerPointer)) in
      ring\<lparr> Buffer := wr64 (Buffer ring) headerPointer header,
            EventSet := EventSet ring \<or> (HasEvent ring \<and> ConsumerProcessing ring = 0) \<rparr>)"

definition KphCommitRingBuffer :: "KPH_RING_BUFFER \<Rightarrow> nat \<Rightarrow> KPH_RING_BUFFER" where
  "KphCommitRingBuffer ring buffer = KphpSubmitRingBuffer ring buffer False"

definition KphDiscardRingBuffer :: "KPH_RING_BUFFER \<Rightarrow> nat \<Rightarrow> KPH_RING_BUFFER" where
  "KphDiscardRingBuffer ring buffer = KphpSubmitRingBuffer ring buffer True"

section \<open>The consumer\<close>

text \<open>
  The callback gets its context and the bytes of the entry; it returns the new context and whether
  to stop. One round of the loop looks at the entry at \<open>consumerPos\<close>. The loop runs without
  interference here; it may not end on a corrupted ring. The result: whether there is more, the
  producer position read last, the ring and the context.
\<close>

type_synonym 'c callback = "'c \<Rightarrow> u8 list \<Rightarrow> 'c \<times> bool"

definition next_pos :: "u32 \<Rightarrow> u64 \<Rightarrow> u32" where
  "next_pos consumerPos header =
     consumerPos + KPH_RING_BUFFER_HEADER_SIZE + hdr_Length header + hdr_Alignment header"

definition entry_bytes :: "mem \<Rightarrow> u32 \<Rightarrow> u64 \<Rightarrow> u8 list" where
  "entry_bytes m consumerPos header =
     rd_bytes m (unat consumerPos + unat KPH_RING_BUFFER_HEADER_SIZE) (unat (hdr_Length header))"

partial_function (option) process_loop ::
  "'c callback \<Rightarrow> KPH_RING_BUFFER \<Rightarrow> u32 \<Rightarrow> 'c \<Rightarrow> (bool \<times> u32 \<times> KPH_RING_BUFFER \<times> 'c) option" where
  "process_loop cb ring consumerPos context =
     (let producerPos = ProducerPos ring in
      if consumerPos = producerPos then Some (False, producerPos, ring, context)
      else
        let header = rd64 (Buffer ring) (unat consumerPos) in
        if hdr_Reset header then process_loop cb (ring\<lparr> ConsumerPos := 0 \<rparr>) 0 context
        else if hdr_Busy header then Some (False, producerPos, ring, context)
        else
          let consumerPos' = next_pos consumerPos header;
              (context', done) = (if hdr_Discard header then (context, False)
                                  else cb context (entry_bytes (Buffer ring) consumerPos header));
              ring' = ring\<lparr> ConsumerPos := consumerPos' \<rparr> in
          if done then Some (True, producerPos, ring', context')
          else process_loop cb ring' consumerPos' context')"

definition KphProcessRingBuffer ::
  "'c callback \<Rightarrow> KPH_RING_BUFFER \<Rightarrow> 'c \<Rightarrow> (bool \<times> KPH_RING_BUFFER \<times> 'c) option" where
  "KphProcessRingBuffer cb ring context =
     (let ring1 = ring\<lparr> ConsumerProcessing := 1 \<rparr> in
      case process_loop cb ring1 (ConsumerPos ring1) context of
        None \<Rightarrow> None
      | Some (hasMore, producerPos, ring2, context') \<Rightarrow>
          let ring3 = ring2\<lparr> ConsumerProcessing := 0 \<rparr> in
          Some (if \<not> hasMore \<and> producerPos \<noteq> ProducerPos ring3 then True else hasMore, ring3, context'))"

section \<open>What a ring holds\<close>

text \<open>
  An entry of the ring: the offset of its buffer, its length and alignment, its state, and the bytes
  it was committed with. \<open>segs m a es b\<close>: from offset \<open>a\<close> to \<open>b\<close> lie exactly the entries \<open>es\<close>.
\<close>

datatype entry_state = Busy | Committed | Discarded

record rb_entry =
  eOff :: nat
  eLen :: nat
  eAlign :: nat
  eState :: entry_state
  eData :: "u8 list"

definition entry_at :: "mem \<Rightarrow> nat \<Rightarrow> rb_entry \<Rightarrow> bool" where
  "entry_at m a e \<longleftrightarrow>
     eOff e = a + 16 \<and>
     (let v = rd64 m a in
      unat (hdr_Length v) = eLen e \<and> unat (hdr_Alignment v) = eAlign e \<and> \<not> hdr_Reset v \<and>
      (hdr_Busy v \<longleftrightarrow> eState e = Busy) \<and> (\<not> hdr_Busy v \<longrightarrow> (hdr_Discard v \<longleftrightarrow> eState e = Discarded))) \<and>
     (eState e = Committed \<longrightarrow> rd_bytes m (eOff e) (eLen e) = eData e)"

definition eEnd :: "rb_entry \<Rightarrow> nat" where
  "eEnd e = eOff e + eLen e + eAlign e"

fun segs :: "mem \<Rightarrow> nat \<Rightarrow> rb_entry list \<Rightarrow> nat \<Rightarrow> bool" where
  "segs m a [] b \<longleftrightarrow> a = b"
| "segs m a (e # es) b \<longleftrightarrow> entry_at m a e \<and> segs m (eEnd e) es b"

text \<open>
  The layout of the entries between the consumer's position \<open>C\<close> and the producer's \<open>P\<close> in a buffer
  of \<open>L\<close> bytes: in one piece, or, when the producer has wrapped, up to a reset marker and on from
  offset 0. The producer always leaves room for a marker.
\<close>

definition layout :: "mem \<Rightarrow> nat \<Rightarrow> nat \<Rightarrow> nat \<Rightarrow> rb_entry list \<Rightarrow> bool" where
  "layout m L C P es \<longleftrightarrow>
     P + 16 \<le> L \<and>
     (C \<le> P \<and> segs m C es P \<or>
      P + 16 \<le> C \<and>
      (\<exists>es1 es2 R. es = es1 @ es2 \<and> segs m C es1 R \<and> R + 16 \<le> L \<and> hdr_Reset (rd64 m R) \<and>
                   segs m 0 es2 P))"

definition ring_ok :: "KPH_RING_BUFFER \<Rightarrow> rb_entry list \<Rightarrow> bool" where
  "ring_ok r es \<longleftrightarrow>
     layout (Buffer r) (unat (RingLength r)) (unat (ConsumerPos r)) (unat (ProducerPos r)) es"

section \<open>Lemmas on headers and layouts\<close>

lemma get_put_same: "p + n \<le> 64 \<Longrightarrow> get_bits p n (put_bits p n x v) = take_bit n x"
  by (rule bit_eqI) (auto simp: get_bits_def put_bits_def bit_simps)

lemma get_put_other: "p + n \<le> q \<or> q + k \<le> p \<Longrightarrow> get_bits q k (put_bits p n x v) = get_bits q k v"
  by (rule bit_eqI) (auto simp: get_bits_def put_bits_def bit_simps dest: bit_imp_le_length)

lemma get_bits_0 [simp]: "get_bits p n 0 = 0" by (simp add: get_bits_def)

lemma take_bit_1_bool [simp]: "take_bit (Suc 0) (of_bool b :: u64) = of_bool b"
  by (cases b) simp_all

lemmas hdr_defs = hdr_Length_def hdr_Busy_def hdr_Discard_def hdr_Reset_def hdr_Alignment_def
  set_Length_def set_Busy_def set_Discard_def set_Reset_def set_Alignment_def

lemma hdr_set [simp]:
  "hdr_Busy (set_Busy b v) = b" "hdr_Discard (set_Discard b v) = b" "hdr_Reset (set_Reset b v) = b"
  "hdr_Length (set_Busy b v) = hdr_Length v" "hdr_Length (set_Discard b v) = hdr_Length v"
  "hdr_Length (set_Alignment n v) = hdr_Length v"
  "hdr_Busy (set_Discard b v) = hdr_Busy v" "hdr_Busy (set_Alignment n v) = hdr_Busy v"
  "hdr_Busy (set_Length n v) = hdr_Busy v"
  "hdr_Discard (set_Alignment n v) = hdr_Discard v" "hdr_Discard (set_Busy b v) = hdr_Discard v"
  "hdr_Discard (set_Length n v) = hdr_Discard v"
  "hdr_Reset (set_Busy b v) = hdr_Reset v" "hdr_Reset (set_Discard b v) = hdr_Reset v"
  "hdr_Reset (set_Alignment n v) = hdr_Reset v" "hdr_Reset (set_Length n v) = hdr_Reset v"
  "hdr_Alignment (set_Busy b v) = hdr_Alignment v" "hdr_Alignment (set_Discard b v) = hdr_Alignment v"
  by (simp_all add: hdr_defs get_put_same get_put_other)

lemma hdr_0 [simp]: "\<not> hdr_Busy 0" "\<not> hdr_Discard 0" "\<not> hdr_Reset 0" "hdr_Length 0 = 0"
  by (simp_all add: hdr_defs)

lemma unat_set_Length: "unat n < 2 ^ 30 \<Longrightarrow> unat (hdr_Length (set_Length n v)) = unat n"
  by (simp add: hdr_defs get_put_same unat_u64_u32 unsigned_take_bit_eq take_bit_nat_eq_self)

lemma unat_set_Alignment: "unat n < 16 \<Longrightarrow> unat (hdr_Alignment (set_Alignment n v)) = unat n"
  by (simp add: hdr_defs get_put_same unat_u64_u32 unsigned_take_bit_eq take_bit_nat_eq_self)

lemma unat_ALIGN_UP_BY16:
  "unat x + 15 < 4294967296 \<Longrightarrow> unat (ALIGN_UP_BY16 x) = (unat x + 15) div 16 * 16"
  unfolding ALIGN_UP_BY16_def by (subst unat_align_up) simp_all

lemma entry_at_cong:
  "(\<And>i. a \<le> i \<Longrightarrow> i < eEnd e \<Longrightarrow> m i = m' i) \<Longrightarrow> entry_at m a e = entry_at m' a e"
proof -
  assume eq: "\<And>i. a \<le> i \<Longrightarrow> i < eEnd e \<Longrightarrow> m i = m' i"
  show ?thesis
  proof (cases "eOff e = a + 16")
    case True
    then have "rd64 m a = rd64 m' a" "rd_bytes m (eOff e) (eLen e) = rd_bytes m' (eOff e) (eLen e)"
      by (auto intro!: rd64_cong rd_bytes_cong eq simp: eEnd_def)
    then show ?thesis by (simp add: entry_at_def)
  qed (simp add: entry_at_def)
qed

lemma entry_at_end: "entry_at m a e \<Longrightarrow> a + 16 \<le> eEnd e"
  by (simp add: entry_at_def eEnd_def)

lemma segs_le: "segs m a es b \<Longrightarrow> a \<le> b"
proof (induction es arbitrary: a)
  case (Cons e es)
  then have "eEnd e \<le> b" "a + 16 \<le> eEnd e" by (auto dest: entry_at_end)
  then show ?case by linarith
qed simp

lemma segs_cong:
  "(\<And>i. a \<le> i \<Longrightarrow> i < b \<Longrightarrow> m i = m' i) \<Longrightarrow> segs m a es b \<Longrightarrow> segs m' a es b"
proof (induction es arbitrary: a)
  case (Cons e es)
  have le: "a + 16 \<le> eEnd e" "eEnd e \<le> b" using Cons.prems(2) by (auto dest: entry_at_end segs_le)
  have "entry_at m a e = entry_at m' a e" by (rule entry_at_cong) (use Cons.prems(1) le in auto)
  then show ?case using Cons.prems le by (auto intro: Cons.IH)
qed simp

lemma segs_append: "segs m a (es1 @ es2) b \<longleftrightarrow> (\<exists>c. segs m a es1 c \<and> segs m c es2 b)"
  by (induction es1 arbitrary: a) auto

lemma segs_member:
  "segs m a es b \<Longrightarrow> e \<in> set es \<Longrightarrow> a + 16 \<le> eOff e \<and> eEnd e \<le> b \<and> entry_at m (eOff e - 16) e"
proof (induction es arbitrary: a)
  case (Cons x es)
  show ?case
  proof (cases "e = x")
    case True
    then show ?thesis using Cons.prems(1) by (auto simp: entry_at_def dest: segs_le)
  next
    case False
    then show ?thesis using Cons.IH [of "eEnd x"] Cons.prems by (auto dest: entry_at_end)
  qed
qed simp

section \<open>Reservations\<close>

text \<open>The bytes a reservation takes: the header, the buffer and the alignment.\<close>

definition entry_size :: "u32 \<Rightarrow> nat" where
  "entry_size len = (unat len + 31) div 16 * 16"

lemma reserve_sizes:
  assumes "\<not> len > KPH_RING_BUFFER_RESERVE_MAX"
  shows "unat (ALIGN_UP_BY16 (len + KPH_RING_BUFFER_HEADER_SIZE)) = entry_size len"
    and "unat len + 16 \<le> entry_size len" and "entry_size len < unat len + 32"
    and "entry_size len \<le> 1073741792" and "unat len < 2 ^ 30"
    and "unat (ALIGN_UP_BY16 (len + KPH_RING_BUFFER_HEADER_SIZE) + KPH_RING_BUFFER_HEADER_SIZE) =
         entry_size len + 16"
proof -
  have l: "unat len \<le> 1073741776"
    using assms by (simp add: KPH_RING_BUFFER_RESERVE_MAX_def KPH_RING_BUFFER_HEADER_SIZE_def
        word_less_nat_alt not_less)
  then have s: "unat (len + KPH_RING_BUFFER_HEADER_SIZE) = unat len + 16"
    by (subst unat_add_fits) (simp_all add: KPH_RING_BUFFER_HEADER_SIZE_def)
  show a: "unat (ALIGN_UP_BY16 (len + KPH_RING_BUFFER_HEADER_SIZE)) = entry_size len"
    using l by (subst unat_ALIGN_UP_BY16) (simp_all add: s entry_size_def)
  show b: "unat len + 16 \<le> entry_size len" "entry_size len < unat len + 32"
    using round_up_bounds [of 16 "unat len + 16"] by (simp_all add: entry_size_def)
  show "unat len < 2 ^ 30" using l by simp
  have "(unat len + 31) div 16 \<le> 1073741807 div 16" using l by (intro div_le_mono) simp
  then show le: "entry_size len \<le> 1073741792" unfolding entry_size_def by simp
  show "unat (ALIGN_UP_BY16 (len + KPH_RING_BUFFER_HEADER_SIZE) + KPH_RING_BUFFER_HEADER_SIZE) =
      entry_size len + 16"
    using le a by (subst unat_add_fits) (simp_all add: KPH_RING_BUFFER_HEADER_SIZE_def)
qed

lemma reserve_new_pos:
  assumes "\<not> len > KPH_RING_BUFFER_RESERVE_MAX"
  shows "unat (ALIGN_UP_BY16 (len + KPH_RING_BUFFER_HEADER_SIZE) + KPH_RING_BUFFER_HEADER_SIZE -
               KPH_RING_BUFFER_HEADER_SIZE) = entry_size len"
  by (simp add: reserve_sizes [OF assms])

lemma plan_reserve_cases:
  assumes room: "unat P + 16 \<le> unat L"
  shows "plan_reserve L C P len =
    (if unat len > 1073741776 \<or> unat C > unat L then None
     else if C \<le> P \<and> unat P + entry_size len + 16 \<le> unat L \<or>
             P < C \<and> unat P + entry_size len + 16 \<le> unat C
     then Some (False, P, P + of_nat (entry_size len))
     else if C \<le> P \<and> entry_size len + 16 \<le> unat C then Some (True, 0, of_nat (entry_size len))
     else None)"
proof (cases "len > KPH_RING_BUFFER_RESERVE_MAX \<or> \<not> C \<le> L")
  case True
  then show ?thesis
    by (auto simp: plan_reserve_def KPH_RING_BUFFER_RESERVE_MAX_def KPH_RING_BUFFER_HEADER_SIZE_def
        word_less_nat_alt word_le_nat_alt)
next
  case False
  then have max: "\<not> len > KPH_RING_BUFFER_RESERVE_MAX" "C \<le> L" by auto
  let ?req = "ALIGN_UP_BY16 (len + KPH_RING_BUFFER_HEADER_SIZE)"
  have req: "?req = of_nat (entry_size len)" by (simp flip: reserve_sizes(1) [OF max(1)])
  note req' = req [unfolded KPH_RING_BUFFER_HEADER_SIZE_def]
  have small: "\<not> unat len > 1073741776" "\<not> unat C > unat L"
    using max by (auto simp: KPH_RING_BUFFER_RESERVE_MAX_def KPH_RING_BUFFER_HEADER_SIZE_def
        word_less_nat_alt word_le_nat_alt)
  have "unat (L - P) = unat L - unat P" using room by (simp add: unat_sub word_le_nat_alt)
  moreover have "P < C \<Longrightarrow> unat (C - P) = unat C - unat P" by (simp add: unat_sub)
  ultimately show ?thesis
    using room max(1) small reserve_sizes(6) [OF max(1)]
    by (auto simp: plan_reserve_def Let_def word_less_nat_alt word_le_nat_alt not_less
        KPH_RING_BUFFER_HEADER_SIZE_def req')
qed

lemma unat_entry_size: "unat len \<le> 1073741776 \<Longrightarrow> unat (of_nat (entry_size len) :: u32) = entry_size len"
proof -
  assume "unat len \<le> 1073741776"
  then have "entry_size len < 4294967296"
    using round_up_bounds(2) [of 16 "unat len + 16"] by (simp add: entry_size_def)
  then show ?thesis by (simp add: unsigned_of_nat take_bit_nat_eq_self)
qed

text \<open>
  What a planned reservation is: the header position, the end, and that the bytes between them,
  the reset marker and the room for a later one lie in the free part of the buffer, all of it
  inside the buffer.
\<close>

lemma plan_reserve_spec:
  assumes "plan_reserve L C P len = Some (wrap, pos, newPos)" and room: "unat P + 16 \<le> unat L"
  shows "\<not> len > KPH_RING_BUFFER_RESERVE_MAX"
    and "unat newPos = unat pos + entry_size len"
    and "unat newPos + 16 \<le> unat L" and "unat C \<le> unat L"
    and "wrap \<Longrightarrow> pos = 0 \<and> unat C \<le> unat P \<and> unat newPos + 16 \<le> unat C"
    and "\<not> wrap \<Longrightarrow> pos = P \<and> (unat C \<le> unat P \<or> unat newPos + 16 \<le> unat C)"
proof -
  note c = assms(1) [unfolded plan_reserve_cases [OF room]]
  have len: "unat len \<le> 1073741776" using c by (simp split: if_splits)
  then show max: "\<not> len > KPH_RING_BUFFER_RESERVE_MAX"
    by (simp add: KPH_RING_BUFFER_RESERVE_MAX_def KPH_RING_BUFFER_HEADER_SIZE_def
        word_less_nat_alt not_less)
  have sum: "unat P + entry_size len < 4294967296 \<Longrightarrow>
      unat (P + of_nat (entry_size len)) = unat P + entry_size len"
    by (subst unat_add_fits) (simp_all add: unat_entry_size [OF len])
  have L: "unat L < 4294967296" "unat C < 4294967296" by (rule unat_lt_u32)+
  have "C \<le> P \<and> unat P + entry_size len + 16 \<le> unat L \<and> \<not> wrap \<and> pos = P \<and>
          newPos = P + of_nat (entry_size len) \<or>
        P < C \<and> unat P + entry_size len + 16 \<le> unat C \<and> \<not> wrap \<and> pos = P \<and>
          newPos = P + of_nat (entry_size len) \<or>
        C \<le> P \<and> entry_size len + 16 \<le> unat C \<and> wrap \<and> pos = 0 \<and> newPos = of_nat (entry_size len)"
    using c by (auto simp only: option.inject prod.inject option.distinct split: if_split_asm)
  then consider (stay) "C \<le> P" "unat P + entry_size len + 16 \<le> unat L" "\<not> wrap" "pos = P"
      "newPos = P + of_nat (entry_size len)"
    | (behind) "P < C" "unat P + entry_size len + 16 \<le> unat C" "\<not> wrap" "pos = P"
      "newPos = P + of_nat (entry_size len)"
    | (wrapped) "C \<le> P" "entry_size len + 16 \<le> unat C" "wrap" "pos = 0"
      "newPos = of_nat (entry_size len)"
    by (elim disjE conjE)
  then have all: "unat newPos = unat pos + entry_size len \<and> unat newPos + 16 \<le> unat L \<and>
      (wrap \<longrightarrow> pos = 0 \<and> unat C \<le> unat P \<and> unat newPos + 16 \<le> unat C) \<and>
      (\<not> wrap \<longrightarrow> pos = P \<and> (unat C \<le> unat P \<or> unat newPos + 16 \<le> unat C))"
  proof cases
    case stay
    then have "unat newPos = unat P + entry_size len" using sum L by simp
    then show ?thesis using stay by (simp add: word_le_nat_alt)
  next
    case behind
    then have "unat newPos = unat P + entry_size len" using sum L by simp
    moreover have "unat C \<le> unat L" using c by (simp split: if_splits)
    ultimately show ?thesis using behind by simp
  next
    case wrapped
    then show ?thesis using unat_entry_size [OF len] room by (simp add: word_le_nat_alt)
  qed
  show "unat C \<le> unat L" using c by (simp split: if_splits)
  show "unat newPos = unat pos + entry_size len" "unat newPos + 16 \<le> unat L" using all by auto
  show "wrap \<Longrightarrow> pos = 0 \<and> unat C \<le> unat P \<and> unat newPos + 16 \<le> unat C"
    "\<not> wrap \<Longrightarrow> pos = P \<and> (unat C \<le> unat P \<or> unat newPos + 16 \<le> unat C)" using all by auto
qed

text \<open>
  While a reservation is planned the consumer may move on. A position that was the consumer's at a
  time when the producer's was the same as now relates to the present ones as follows, and what was
  planned with it is still free.
\<close>

definition seen :: "KPH_RING_BUFFER \<Rightarrow> u32 \<Rightarrow> bool" where
  "seen r c \<longleftrightarrow>
     (if ConsumerPos r \<le> ProducerPos r then c \<le> ConsumerPos r \<or> ProducerPos r < c
      else ProducerPos r < c \<and> c \<le> ConsumerPos r)"

lemma seen_now [simp]: "seen r (ConsumerPos r)"
  by (auto simp: seen_def)

lemma plan_reserve_seen:
  assumes plan: "plan_reserve (RingLength r) c (ProducerPos r) len = Some (wrap, pos, newPos)"
    and room: "unat (ProducerPos r) + 16 \<le> unat (RingLength r)" and seen: "seen r c"
  shows "\<not> len > KPH_RING_BUFFER_RESERVE_MAX"
    and "unat newPos = unat pos + entry_size len"
    and "unat newPos + 16 \<le> unat (RingLength r)"
    and "wrap \<Longrightarrow> pos = 0 \<and> unat (ConsumerPos r) \<le> unat (ProducerPos r) \<and>
      unat newPos + 16 \<le> unat (ConsumerPos r)"
    and "\<not> wrap \<Longrightarrow> pos = ProducerPos r \<and> (unat (ConsumerPos r) \<le> unat (ProducerPos r) \<or>
      unat newPos + 16 \<le> unat (ConsumerPos r))"
  using plan_reserve_spec [OF plan room] seen
  by (auto simp: seen_def word_le_nat_alt word_less_nat_alt split: if_splits)

text \<open>The entry a reservation makes.\<close>

definition new_entry :: "u32 \<Rightarrow> u32 \<Rightarrow> rb_entry" where
  "new_entry pos len =
     \<lparr> eOff = unat pos + 16, eLen = unat len, eAlign = entry_size len - unat len - 16,
       eState = Busy, eData = [] \<rparr>"

lemma new_entry_sel [simp]:
  "eOff (new_entry pos len) = unat pos + 16" "eLen (new_entry pos len) = unat len"
  "eState (new_entry pos len) = Busy"
  by (simp_all add: new_entry_def)

lemma reserve_header_fields:
  assumes "\<not> len > KPH_RING_BUFFER_RESERVE_MAX"
  shows "unat (hdr_Length (reserve_header len)) = unat len"
    and "unat (hdr_Alignment (reserve_header len)) = entry_size len - unat len - 16"
    and "hdr_Busy (reserve_header len)" and "\<not> hdr_Reset (reserve_header len)"
proof -
  let ?up = "ALIGN_UP_BY16 (len + KPH_RING_BUFFER_HEADER_SIZE)"
  note sz = reserve_sizes [OF assms]
  have a: "unat (?up - len - KPH_RING_BUFFER_HEADER_SIZE) = entry_size len - unat len - 16"
    using sz by (simp add: unat_sub word_le_nat_alt KPH_RING_BUFFER_HEADER_SIZE_def)
  then have "unat (?up - len - KPH_RING_BUFFER_HEADER_SIZE) < 16" using sz(3) by simp
  then show "unat (hdr_Alignment (reserve_header len)) = entry_size len - unat len - 16"
    unfolding reserve_header_def Let_def by (simp add: unat_set_Alignment a)
  show "unat (hdr_Length (reserve_header len)) = unat len"
    using sz(5) by (simp add: reserve_header_def Let_def unat_set_Length)
  show "hdr_Busy (reserve_header len)" "\<not> hdr_Reset (reserve_header len)"
    by (simp_all add: reserve_header_def Let_def)
qed

lemma entry_at_new:
  assumes "\<not> len > KPH_RING_BUFFER_RESERVE_MAX"
  shows "entry_at (wr64 m (unat pos) (reserve_header len)) (unat pos) (new_entry pos len)"
  using reserve_header_fields [OF assms] by (simp add: entry_at_def new_entry_def)

lemma eEnd_new:
  "\<not> len > KPH_RING_BUFFER_RESERVE_MAX \<Longrightarrow> eEnd (new_entry pos len) = unat pos + entry_size len"
  using reserve_sizes(2) by (simp add: eEnd_def new_entry_def)

section \<open>The layout under the operations\<close>

lemma layout_cases:
  assumes "layout m L C P es"
  obtains (whole) "P + 16 \<le> L" "C \<le> P" "segs m C es P"
  | (split) es1 es2 R where "P + 16 \<le> L" "P + 16 \<le> C" "es = es1 @ es2" "segs m C es1 R" "C \<le> R"
      "R + 16 \<le> L" "hdr_Reset (rd64 m R)" "segs m 0 es2 P"
  using assms unfolding layout_def by (auto dest: segs_le)

lemma layout_wholeI: "P + 16 \<le> L \<Longrightarrow> segs m C es P \<Longrightarrow> layout m L C P es"
  by (auto simp: layout_def dest: segs_le)

lemma layout_splitI:
  "P + 16 \<le> L \<Longrightarrow> P + 16 \<le> C \<Longrightarrow> segs m C es1 R \<Longrightarrow> R + 16 \<le> L \<Longrightarrow> hdr_Reset (rd64 m R) \<Longrightarrow>
   segs m 0 es2 P \<Longrightarrow> layout m L C P (es1 @ es2)"
  by (auto simp: layout_def)

lemma segs_snoc: "segs m a es b \<Longrightarrow> entry_at m b e \<Longrightarrow> segs m a (es @ [e]) (eEnd e)"
  by (auto simp: segs_append)

lemma reserve_write_frame:
  "i < unat pos \<or> unat pos + 8 \<le> i \<Longrightarrow>
   \<not> wrap \<or> i < unat (ProducerPos r) \<or> unat (ProducerPos r) + 8 \<le> i \<Longrightarrow>
   Buffer (reserve_write r wrap pos len) i = Buffer r i"
  by (auto simp: reserve_write_def Let_def wr64_other)

lemma reserve_write_sel [simp]:
  "RingLength (reserve_write r wrap pos len) = RingLength r"
  "ConsumerPos (reserve_write r wrap pos len) = ConsumerPos r"
  "ProducerPos (reserve_write r wrap pos len) = ProducerPos r"
  by (simp_all add: reserve_write_def)

lemma entry_at_reserved:
  "\<not> len > KPH_RING_BUFFER_RESERVE_MAX \<Longrightarrow>
   entry_at (Buffer (reserve_write r wrap pos len)) (unat pos) (new_entry pos len)"
  by (simp add: reserve_write_def Let_def entry_at_new)

text \<open>
  Writing the headers of a reservation leaves the entries as they are, and once its position is
  published the ring holds one more.
\<close>

lemma reserve_write_layout:
  assumes ok: "ring_ok r es"
    and plan: "plan_reserve (RingLength r) c (ProducerPos r) len = Some (wrap, pos, newPos)"
    and seen: "seen r c"
  shows "ring_ok (reserve_write r wrap pos len) es"
    and "ring_ok (reserve_publish (reserve_write r wrap pos len) newPos) (es @ [new_entry pos len])"
proof -
  let ?m = "Buffer r" and ?r = "reserve_write r wrap pos len" and ?e = "new_entry pos len"
  let ?m' = "Buffer ?r" and ?C = "unat (ConsumerPos r)" and ?P = "unat (ProducerPos r)"
  let ?L = "unat (RingLength r)"
  have room: "?P + 16 \<le> ?L" using ok by (simp add: ring_ok_def layout_def)
  note sp = plan_reserve_seen [OF plan room seen]
  have e: "entry_at ?m' (unat pos) ?e" and end_e: "eEnd ?e = unat newPos"
    using sp(2) by (auto simp: entry_at_reserved [OF sp(1)] eEnd_new [OF sp(1)])
  note frame = reserve_write_frame [of _ pos wrap r len]
  have size: "16 \<le> entry_size len" using reserve_sizes(2) [OF sp(1)] by simp
  from ok [unfolded ring_ok_def]
  have "layout ?m' ?L ?C ?P es \<and> layout ?m' ?L ?C (unat newPos) (es @ [?e])"
  proof (cases rule: layout_cases)
    case whole
    have eq: "?C \<le> i \<Longrightarrow> i < ?P \<Longrightarrow> ?m i = ?m' i" for i
      using frame [of i] sp(2,4,5) by (cases wrap) auto
    have old: "segs ?m' ?C es ?P" by (rule segs_cong [OF _ whole(3)]) (rule eq)
    show ?thesis
    proof (cases wrap)
      case True
      have "hdr_Reset (rd64 ?m' ?P)"
        using sp(4) [OF True] sp(2) size True
        by (simp add: reserve_write_def Let_def rd_wr64_other)
      moreover have "segs ?m' 0 [?e] (unat newPos)" using e end_e sp(4) [OF True] by simp
      ultimately have "layout ?m' ?L ?C (unat newPos) (es @ [?e])"
        using old room sp(3) sp(4) [OF True] by (intro layout_splitI [where R = ?P]) auto
      then show ?thesis using old room by (auto intro: layout_wholeI)
    next
      case False
      then have "segs ?m' ?C (es @ [?e]) (unat newPos)"
        using segs_snoc [OF old, of ?e] e end_e sp(5) by simp
      then show ?thesis using old room sp(3) by (auto intro!: layout_wholeI)
    qed
  next
    case (split es1 es2 R)
    then have w: "\<not> wrap" "pos = ProducerPos r" "unat newPos + 16 \<le> ?C" using sp(4,5) by auto
    have eq: "i < ?P \<or> ?C \<le> i \<Longrightarrow> ?m i = ?m' i" for i
      using w sp(2) size by (intro frame [symmetric]) auto
    have es1: "segs ?m' ?C es1 R" and es2: "segs ?m' 0 es2 ?P"
      by (rule segs_cong [OF _ split(4)], rule eq, simp,
          rule segs_cong [OF _ split(8)], rule eq, simp)
    have R: "hdr_Reset (rd64 ?m' R)"
      using split(5,7) rd64_cong [of R ?m ?m'] eq by simp
    have "segs ?m' 0 (es2 @ [?e]) (unat newPos)"
      using segs_snoc [OF es2, of ?e] e end_e w by simp
    then show ?thesis
      using split(1-3,6) w sp(3) layout_splitI [OF _ _ es1 _ R] es2
        layout_splitI [OF _ _ es1 _ R, of "unat newPos" ?L "es2 @ [?e]"] by auto
  qed
  then show "ring_ok ?r es" "ring_ok (reserve_publish ?r newPos) (es @ [?e])"
    by (simp_all add: ring_ok_def reserve_publish_def)
qed

lemma reserve_keeps_bytes:
  assumes ok: "ring_ok r es"
    and plan: "plan_reserve (RingLength r) c (ProducerPos r) len = Some (wrap, pos, newPos)"
    and seen: "seen r c"
    and e: "e \<in> set es"
  shows "rd_bytes (Buffer (reserve_write r wrap pos len)) (eOff e) (eLen e) =
         rd_bytes (Buffer r) (eOff e) (eLen e)"
proof -
  have room: "unat (ProducerPos r) + 16 \<le> unat (RingLength r)" using ok by (simp add: ring_ok_def layout_def)
  note sp = plan_reserve_seen [OF plan room seen] and size = reserve_sizes(2) [OF plan_reserve_seen(1) [OF plan room seen]]
  from ok [unfolded ring_ok_def]
  have "(eOff e + eLen e \<le> unat pos \<or> unat pos + 8 \<le> eOff e) \<and>
        (wrap \<longrightarrow> eOff e + eLen e \<le> unat (ProducerPos r))"
  proof (cases rule: layout_cases)
    case whole
    note reg = segs_member [OF whole(3) e]
    then show ?thesis using sp(2,4,5) whole(2) size by (cases wrap) (auto simp: eEnd_def)
  next
    case (split es1 es2 R)
    then have w: "\<not> wrap" "pos = ProducerPos r" "unat newPos + 16 \<le> unat (ConsumerPos r)"
      using sp(4,5) by auto
    then show ?thesis
      using segs_member [OF split(4), of e] segs_member [OF split(8), of e] sp(2) size split(3) e
      by (auto simp: eEnd_def)
  qed
  then show ?thesis
    by (intro rd_bytes_cong reserve_write_frame) auto
qed

text \<open>
  Changing one entry inside its region, to an entry with the same region, changes nothing else.
\<close>

lemma segs_update:
  assumes "segs m a (xs @ e # ys) b"
    and frame: "\<And>i. i < eOff e - 16 \<or> eEnd e \<le> i \<Longrightarrow> m i = m' i"
    and e': "entry_at m' (eOff e - 16) e'" "eEnd e' = eEnd e"
  shows "segs m' a (xs @ e' # ys) b"
proof -
  obtain c where c: "segs m a xs c" "entry_at m c e" "segs m (eEnd e) ys b"
    using assms(1) by (auto simp: segs_append)
  then have "c = eOff e - 16" by (simp add: entry_at_def)
  moreover have "segs m' a xs c"
    by (rule segs_cong [OF _ c(1)]) (use c(2) in \<open>auto intro: frame simp: entry_at_def\<close>)
  moreover have "segs m' (eEnd e) ys b" by (rule segs_cong [OF _ c(3)]) (auto intro: frame)
  ultimately show ?thesis using e' by (auto simp: segs_append)
qed

lemma layout_update:
  assumes "layout m L C P (xs @ e # ys)"
    and frame: "\<And>i. i < eOff e - 16 \<or> eEnd e \<le> i \<Longrightarrow> m i = m' i"
    and e': "entry_at m' (eOff e - 16) e'" "eEnd e' = eEnd e"
  shows "layout m' L C P (xs @ e' # ys)"
  using assms(1)
proof (cases rule: layout_cases)
  case whole
  then show ?thesis by (intro layout_wholeI segs_update [OF _ frame e'])
next
  case (split es1 es2 R)
  note upd = segs_update [OF _ frame e']
  from split(3) consider (first) us where "es1 = xs @ e # us" "ys = us @ es2"
    | (second) us where "es2 = us @ e # ys" "xs = es1 @ us"
    by (auto simp: append_eq_append_conv2 append_eq_Cons_conv Cons_eq_append_conv)
  then show ?thesis
  proof cases
    case first
    have reg: "C + 16 \<le> eOff e \<and> eEnd e \<le> R" using segs_member [OF split(4), of e] first by simp
    have "segs m' C (xs @ e' # us) R" using split(4) unfolding first by (rule upd)
    moreover have "segs m' 0 es2 P"
      by (rule segs_cong [OF _ split(8)], rule frame) (use reg split(2) in auto)
    moreover have "rd64 m' R = rd64 m R" by (rule rd64_cong) (use reg in \<open>simp add: frame\<close>)
    ultimately show ?thesis
      using layout_splitI [of P L C m' "xs @ e' # us" R es2] split first by simp
  next
    case second
    have reg: "eEnd e \<le> P" using segs_member [OF split(8), of e] second by simp
    have "segs m' 0 (us @ e' # ys) P" using split(8) unfolding second by (rule upd)
    moreover have "segs m' C es1 R"
      by (rule segs_cong [OF _ split(4)], rule frame) (use reg split(2) in auto)
    moreover have "rd64 m' R = rd64 m R"
      by (rule rd64_cong) (use reg split(2,5) in \<open>simp add: frame\<close>)
    ultimately show ?thesis
      using layout_splitI [of P L C m' es1 R "us @ e' # ys"] split second by simp
  qed
qed

text \<open>What the consumer finds: at its position is the first entry or the reset marker.\<close>

lemma layout_empty: "layout m L P P es \<longleftrightarrow> P + 16 \<le> L \<and> es = []"
proof -
  have "segs m P es P \<Longrightarrow> es = []" by (cases es) (auto dest!: entry_at_end segs_le)
  then show ?thesis by (auto simp: layout_def)
qed

lemma layout_front:
  assumes "layout m L C P es" and "C \<noteq> P"
  shows "if hdr_Reset (rd64 m C) then layout m L 0 P es
         else \<exists>e es'. es = e # es' \<and> entry_at m C e \<and> layout m L (eEnd e) P es'"
  using assms(1)
proof (cases rule: layout_cases)
  case whole
  then obtain e es' where e: "es = e # es'" "entry_at m C e" "segs m (eEnd e) es' P"
    using assms(2) by (cases es) auto
  moreover have "\<not> hdr_Reset (rd64 m C)" using e(2) by (simp add: entry_at_def Let_def)
  ultimately show ?thesis using whole by (auto intro: layout_wholeI)
next
  case (split es1 es2 R)
  show ?thesis
  proof (cases es1)
    case Nil
    then show ?thesis using split by (auto intro: layout_wholeI)
  next
    case (Cons e es')
    then have e: "entry_at m C e" "segs m (eEnd e) es' R" using split(4) by auto
    moreover have "\<not> hdr_Reset (rd64 m C)" using e(1) by (simp add: entry_at_def Let_def)
    ultimately show ?thesis
      using split Cons entry_at_end [OF e(1)] by (auto intro: layout_splitI)
  qed
qed

lemma layout_member:
  "layout m L C P es \<Longrightarrow> e \<in> set es \<Longrightarrow> 16 \<le> eOff e \<and> eEnd e + 16 \<le> L \<and> entry_at m (eOff e - 16) e"
  by (cases rule: layout_cases, assumption) (auto dest: segs_member)

text \<open>Different entries have disjoint regions.\<close>

lemma segs_disjoint:
  "segs m a (xs @ e # ys) b \<Longrightarrow> e' \<in> set xs \<union> set ys \<Longrightarrow> eEnd e' \<le> eOff e - 16 \<or> eEnd e \<le> eOff e' - 16"
  by (auto simp: segs_append entry_at_def dest!: segs_member)

lemma layout_disjoint:
  assumes "layout m L C P (xs @ e # ys)" and "e' \<in> set xs \<union> set ys"
  shows "eEnd e' \<le> eOff e - 16 \<or> eEnd e \<le> eOff e' - 16"
  using assms(1)
proof (cases rule: layout_cases)
  case whole
  then show ?thesis using assms(2) by (intro segs_disjoint)
next
  case (split es1 es2 R)
  have in1: "C + 16 \<le> eOff x \<and> eEnd x \<le> R" if "x \<in> set es1" for x using segs_member [OF split(4) that] by simp
  have in2: "eEnd x \<le> P" if "x \<in> set es2" for x using segs_member [OF split(8) that] by simp
  from split(3) consider (first) us where "es1 = xs @ e # us" "ys = us @ es2"
    | (second) us where "es2 = us @ e # ys" "xs = es1 @ us"
    by (auto simp: append_eq_append_conv2 append_eq_Cons_conv Cons_eq_append_conv)
  then show ?thesis
  proof cases
    case first
    then show ?thesis
      using assms(2) segs_disjoint [OF split(4) [unfolded first], of e'] in1 [of e] in2 [of e'] split(2) by auto
  next
    case second
    then show ?thesis
      using assms(2) segs_disjoint [OF split(8) [unfolded second], of e'] in1 [of e'] in2 [of e] split(2) by auto
  qed
qed

lemma layout_distinct: "layout m L C P es \<Longrightarrow> distinct (map eOff es)"
proof (rule ccontr)
  assume l: "layout m L C P es" and "\<not> distinct (map eOff es)"
  then obtain i j where "i < length es" "j < length es" "i \<noteq> j" "eOff (es ! i) = eOff (es ! j)"
    by (auto simp: distinct_conv_nth)
  then obtain i j where ij: "i < j" "j < length es" "eOff (es ! i) = eOff (es ! j)"
    by (metis linorder_neqE_nat)
  have "take i es @ es ! i # drop (Suc i) es = es" using ij by (simp add: id_take_nth_drop [symmetric])
  with l have l': "layout m L C P (take i es @ es ! i # drop (Suc i) es)" by (simp only:)
  have "es ! j \<in> set (drop (Suc i) es)"
    using ij by (auto simp: in_set_conv_nth intro!: exI [of _ "j - Suc i"])
  then have "eEnd (es ! j) \<le> eOff (es ! i) - 16 \<or> eEnd (es ! i) \<le> eOff (es ! j) - 16"
    by (intro layout_disjoint [OF l']) simp
  moreover have "eOff (es ! i) \<le> eEnd (es ! i)" "eOff (es ! j) \<le> eEnd (es ! j)"
    by (simp_all add: eEnd_def)
  moreover have "16 \<le> eOff (es ! i)" using layout_member [OF l, of "es ! i"] ij by simp
  ultimately show False using ij(3) by linarith
qed

section \<open>Properties of the producer\<close>

lemma plan_None_iff:
  "fst (KphReserveRingBuffer r len) = None \<longleftrightarrow>
    plan_reserve (RingLength r) (ConsumerPos r) (ProducerPos r) len = None"
  by (auto simp: KphReserveRingBuffer_def split: option.splits)

lemma reserve_success:
  assumes "KphReserveRingBuffer r len = (Some b, r')"
  obtains wrap pos newPos
  where "plan_reserve (RingLength r) (ConsumerPos r) (ProducerPos r) len = Some (wrap, pos, newPos)"
    and "b = unat pos + 16" and "r' = reserve_publish (reserve_write r wrap pos len) newPos"
  using assms
  by (auto simp: KphReserveRingBuffer_def KPH_RING_BUFFER_HEADER_SIZE_def split: option.splits prod.splits)

lemma reserve_failure: "KphReserveRingBuffer r len = (None, r') \<Longrightarrow> r' = r"
  by (auto simp: KphReserveRingBuffer_def split: option.splits prod.splits)

text \<open>
  C16: the kernel never writes outside the buffer whatever user mode puts into the consumer's
  position: a reservation changes only bytes inside the buffer, the buffer it returns lies inside,
  and there is always room left for a reset marker at the producer's position. No invariant of
  the entries is needed for this.
\<close>

theorem ring_reserve_safe:
  assumes room: "unat (ProducerPos r) + 16 \<le> unat (RingLength r)"
    and res: "KphReserveRingBuffer r len = (b, r')"
  shows "unat (ProducerPos r') + 16 \<le> unat (RingLength r') \<and> RingLength r' = RingLength r \<and>
    (\<forall>i \<ge> unat (RingLength r). Buffer r' i = Buffer r i) \<and>
    (b = None \<and> r' = r \<or>
     (\<exists>off. b = Some off \<and> 16 \<le> off \<and> off + unat len + 16 \<le> unat (RingLength r)))"
proof (cases b)
  case None
  then show ?thesis using reserve_failure res room by auto
next
  case (Some off)
  obtain wrap pos newPos
    where plan: "plan_reserve (RingLength r) (ConsumerPos r) (ProducerPos r) len = Some (wrap, pos, newPos)"
      and off: "off = unat pos + 16" and r': "r' = reserve_publish (reserve_write r wrap pos len) newPos"
    using reserve_success [OF res [unfolded Some]] .
  note sp = plan_reserve_spec [OF plan room] and size = reserve_sizes(2) [OF plan_reserve_spec(1) [OF plan room]]
  have "Buffer r' i = Buffer r i" if "unat (RingLength r) \<le> i" for i
    unfolding r' using that room sp(2,3) size
    by (simp add: reserve_publish_def) (rule reserve_write_frame, auto)
  then show ?thesis using sp(2,3) size by (auto simp: Some off r' reserve_publish_def)
qed

theorem ring_reserve_safe_witness:
  "\<exists>b r'. KphReserveRingBuffer ((new_ring 4080 True (\<lambda>_. 0))\<lparr> ConsumerPos := 4000, ProducerPos := 100 \<rparr>) 200 = (b, r') \<and>
     unat (ProducerPos r') + 16 \<le> unat (RingLength r')"
proof -
  let ?r = "(new_ring 4080 True (\<lambda>_. 0))\<lparr> ConsumerPos := 4000, ProducerPos := 100 \<rparr>"
  obtain b r' where res: "KphReserveRingBuffer ?r 200 = (b, r')" by fastforce
  have "unat (ProducerPos ?r) + 16 \<le> unat (RingLength ?r)" by (simp add: new_ring_def)
  from ring_reserve_safe [OF this res] res show ?thesis by blast
qed

text \<open>
  A reservation succeeds exactly when the length is encodable and the free bytes behind the
  producer, or those before the consumer after wrapping, hold the entry and one more header. Then
  the ring holds one more entry, busy, at the returned buffer, behind the others; the regions
  of the others are disjoint from it and keep their bytes. Otherwise nothing changes.
\<close>

theorem ring_reserve_functional:
  assumes ok: "ring_ok r es" and res: "KphReserveRingBuffer r len = (b, r')"
    and C: "C = unat (ConsumerPos r)" and P: "P = unat (ProducerPos r)" and L: "L = unat (RingLength r)"
  shows "if unat len \<le> 1073741776 \<and> C \<le> L \<and>
           (if C \<le> P then P + entry_size len + 16 \<le> L \<or> entry_size len + 16 \<le> C
            else P + entry_size len + 16 \<le> C)
         then \<exists>e. ring_ok r' (es @ [e]) \<and> b = Some (eOff e) \<and> eLen e = unat len \<and> eState e = Busy \<and>
                (\<forall>e' \<in> set es. (eEnd e' \<le> eOff e - 16 \<or> eEnd e \<le> eOff e' - 16) \<and>
                   rd_bytes (Buffer r') (eOff e') (eLen e') = rd_bytes (Buffer r) (eOff e') (eLen e'))
         else b = None \<and> r' = r"
proof -
  have room: "unat (ProducerPos r) + 16 \<le> unat (RingLength r)" using ok by (simp add: ring_ok_def layout_def)
  show ?thesis
  proof (cases b)
    case None
    then have "plan_reserve (RingLength r) (ConsumerPos r) (ProducerPos r) len = None"
      using plan_None_iff [of r len] res by simp
    then show ?thesis
      unfolding plan_reserve_cases [OF room] using res reserve_failure None
      by (auto simp: C P L word_le_nat_alt word_less_nat_alt split: if_splits)
  next
    case (Some off)
    obtain wrap pos newPos
      where plan: "plan_reserve (RingLength r) (ConsumerPos r) (ProducerPos r) len = Some (wrap, pos, newPos)"
        and off: "off = unat pos + 16" and r': "r' = reserve_publish (reserve_write r wrap pos len) newPos"
      using reserve_success [OF res [unfolded Some]] .
    let ?e = "new_entry pos len"
    have ok': "ring_ok r' (es @ [?e])" using reserve_write_layout(2) [OF ok plan seen_now] r' by simp
    have "(eEnd e' \<le> eOff ?e - 16 \<or> eEnd ?e \<le> eOff e' - 16) \<and>
        rd_bytes (Buffer r') (eOff e') (eLen e') = rd_bytes (Buffer r) (eOff e') (eLen e')"
      if "e' \<in> set es" for e'
      using layout_disjoint [of _ _ _ _ es ?e "[]" e'] reserve_keeps_bytes [OF ok plan seen_now that] ok' that
      by (simp add: ring_ok_def r' reserve_publish_def)
    then have "\<exists>e. ring_ok r' (es @ [e]) \<and> b = Some (eOff e) \<and> eLen e = unat len \<and> eState e = Busy \<and>
        (\<forall>e' \<in> set es. (eEnd e' \<le> eOff e - 16 \<or> eEnd e \<le> eOff e' - 16) \<and>
           rd_bytes (Buffer r') (eOff e') (eLen e') = rd_bytes (Buffer r) (eOff e') (eLen e'))"
      using ok' by (intro exI [of _ ?e]) (simp add: Some off)
    moreover have "unat len \<le> 1073741776 \<and> C \<le> L \<and>
         (if C \<le> P then P + entry_size len + 16 \<le> L \<or> entry_size len + 16 \<le> C
          else P + entry_size len + 16 \<le> C)"
      using plan unfolding plan_reserve_cases [OF room]
      by (auto simp: C P L word_le_nat_alt word_less_nat_alt split: if_splits)
    ultimately show ?thesis by simp
  qed
qed

lemma ring_ok_new: "16 \<le> unat n \<Longrightarrow> ring_ok (new_ring n event m) []"
  by (simp add: ring_ok_def new_ring_def layout_empty)

theorem ring_reserve_functional_witness:
  "\<exists>b r' e. KphReserveRingBuffer (new_ring 4080 True (\<lambda>_. 0)) 200 = (b, r') \<and>
     ring_ok r' [e] \<and> b = Some (eOff e) \<and> eLen e = 200"
proof -
  let ?r = "new_ring 4080 True (\<lambda>_. 0)"
  obtain b r' where res: "KphReserveRingBuffer ?r 200 = (b, r')" by fastforce
  have "ring_ok ?r []" by (rule ring_ok_new) simp
  from ring_reserve_functional [OF this res refl refl refl] res show ?thesis
    by (simp add: new_ring_def entry_size_def) blast
qed

section \<open>Properties of the consumer\<close>

text \<open>
  What processing means for the entries: discarded ones are skipped, committed ones go to the
  callback in order, until it asks to stop (True) or the first busy entry (False).
\<close>

fun drain :: "'c callback \<Rightarrow> rb_entry list \<Rightarrow> 'c \<Rightarrow> bool \<times> rb_entry list \<times> 'c" where
  "drain cb [] c = (False, [], c)"
| "drain cb (e # es) c =
     (case eState e of
        Busy \<Rightarrow> (False, e # es, c)
      | Discarded \<Rightarrow> drain cb es c
      | Committed \<Rightarrow> (let (c', done) = cb c (eData e) in if done then (True, es, c') else drain cb es c'))"

lemma unat_next_pos:
  assumes "entry_at m (unat cp) e" and "eEnd e < 4294967296"
  shows "unat (next_pos cp (rd64 m (unat cp))) = eEnd e"
proof -
  let ?h = "rd64 m (unat cp)"
  have f: "unat (hdr_Length ?h) = eLen e" "unat (hdr_Alignment ?h) = eAlign e" "eOff e = unat cp + 16"
    using assms(1) by (auto simp: entry_at_def Let_def)
  have 1: "unat (cp + 16) = unat cp + 16"
    using assms(2) f by (subst unat_add_fits) (simp_all add: eEnd_def)
  have 2: "unat (cp + 16 + hdr_Length ?h) = unat cp + 16 + eLen e"
    using assms(2) f by (subst unat_add_fits) (simp_all add: eEnd_def 1)
  show ?thesis
    using assms(2) f unfolding next_pos_def KPH_RING_BUFFER_HEADER_SIZE_def
    by (subst unat_add_fits) (simp_all add: eEnd_def 2)
qed

lemma entry_bytes_at:
  "entry_at m (unat cp) e \<Longrightarrow> eState e = Committed \<Longrightarrow> entry_bytes m cp (rd64 m (unat cp)) = eData e"
  by (auto simp: entry_at_def Let_def entry_bytes_def KPH_RING_BUFFER_HEADER_SIZE_def)

text \<open>The three things the consumer can meet, on words.\<close>

lemma ring_front:
  assumes ok: "ring_ok r es"
  obtains (empty) "ConsumerPos r = ProducerPos r" "es = []"
  | (reset) "ConsumerPos r \<noteq> ProducerPos r" "hdr_Reset (rd64 (Buffer r) (unat (ConsumerPos r)))"
      "ring_ok (r\<lparr> ConsumerPos := 0 \<rparr>) es" "ProducerPos r < ConsumerPos r"
  | (entry) e es' where "ConsumerPos r \<noteq> ProducerPos r" "es = e # es'"
      "\<not> hdr_Reset (rd64 (Buffer r) (unat (ConsumerPos r)))"
      "entry_at (Buffer r) (unat (ConsumerPos r)) e"
      "unat (next_pos (ConsumerPos r) (rd64 (Buffer r) (unat (ConsumerPos r)))) = eEnd e"
      "ring_ok (r\<lparr> ConsumerPos := next_pos (ConsumerPos r) (rd64 (Buffer r) (unat (ConsumerPos r))) \<rparr>) es'"
proof -
  let ?C = "unat (ConsumerPos r)" and ?P = "unat (ProducerPos r)" and ?m = "Buffer r"
  let ?L = "unat (RingLength r)"
  have l: "layout ?m ?L ?C ?P es" using ok by (simp add: ring_ok_def)
  consider "?C = ?P" | "?C \<noteq> ?P" "hdr_Reset (rd64 ?m ?C)" | "?C \<noteq> ?P" "\<not> hdr_Reset (rd64 ?m ?C)"
    by blast
  then show thesis
  proof cases
    case 1
    then show ?thesis using l empty by (simp add: layout_empty word_eq_unat)
  next
    case 2
    have "?P < ?C"
    proof (rule ccontr)
      assume "\<not> ?P < ?C"
      with l have "segs ?m ?C es ?P" by (auto elim: layout_cases)
      then show False using 2 by (cases es) (auto simp: entry_at_def Let_def)
    qed
    then show ?thesis
      using 2 reset layout_front [OF l 2(1)] by (auto simp: ring_ok_def word_less_nat_alt word_eq_unat)
  next
    case 3
    obtain e es' where e: "es = e # es'" "entry_at ?m ?C e" "layout ?m ?L (eEnd e) ?P es'"
      using layout_front [OF l 3(1)] 3(2) by auto
    have "eEnd e < 4294967296" using layout_member [OF l, of e] e(1) unat_lt_u32 [of "RingLength r"]
      by (auto simp del: unat_lt_u32)
    note nxt = unat_next_pos [OF e(2) this]
    show ?thesis
      using 3 e entry nxt by (auto simp: ring_ok_def word_eq_unat)
  qed
qed

lemma process_loop_drain:
  "ring_ok r es \<Longrightarrow>
   \<exists>r' hasMore rest c'.
     process_loop cb r (ConsumerPos r) c = Some (hasMore, ProducerPos r, r', c') \<and>
     drain cb es c = (hasMore, rest, c') \<and> ring_ok r' rest \<and>
     r' = r\<lparr> ConsumerPos := ConsumerPos r' \<rparr>"
proof (induction "2 * length es + (if ProducerPos r < ConsumerPos r then 1 else 0)"
    arbitrary: r es c rule: less_induct)
  case less
  note step = process_loop.simps [of cb r "ConsumerPos r" c]
  from less.prems show ?case
  proof (cases rule: ring_front)
    case empty
    then show ?thesis using less.prems by (subst step) (auto simp: Let_def)
  next
    case reset
    note IH = less.hyps [of es "r\<lparr> ConsumerPos := 0 \<rparr>" c, simplified]
    show ?thesis using IH reset by (subst step) (auto simp: Let_def)
  next
    case (entry e es')
    let ?h = "rd64 (Buffer r) (unat (ConsumerPos r))"
    let ?r = "r\<lparr> ConsumerPos := next_pos (ConsumerPos r) ?h \<rparr>"
    have IH: "\<exists>r' hasMore rest c'.
       process_loop cb ?r (ConsumerPos ?r) d = Some (hasMore, ProducerPos ?r, r', c') \<and>
       drain cb es' d = (hasMore, rest, c') \<and> ring_ok r' rest \<and> r' = ?r\<lparr> ConsumerPos := ConsumerPos r' \<rparr>" for d
      by (rule less.hyps) (use entry in auto)
    have st: "hdr_Busy ?h \<longleftrightarrow> eState e = Busy" "\<not> hdr_Busy ?h \<Longrightarrow> hdr_Discard ?h \<longleftrightarrow> eState e = Discarded"
      using entry(4) by (auto simp: entry_at_def Let_def)
    show ?thesis
    proof (cases "eState e")
      case Busy
      then show ?thesis using entry st less.prems by (subst step) (auto simp: Let_def)
    next
      case Discarded
      then show ?thesis using entry st IH [of c] by (subst step) (auto simp: Let_def)
    next
      case Committed
      obtain d stop where cb: "cb c (eData e) = (d, stop)" by fastforce
      show ?thesis
        using Committed cb entry st IH [of d] entry_bytes_at [OF entry(4) Committed]
        by (subst step) (auto simp: Let_def)
    qed
  qed
qed



text \<open>
  Creating a ring fails exactly when the length does not fit; otherwise the section is a whole
  number of pages, the buffer is the section less the 16 bytes before it, holds at least the length
  asked for, and the new ring is empty and satisfies the invariant.
\<close>

theorem ring_lengths_ok:
  "if unat len + 16 \<le> 4294963200
   then \<exists>s b. ring_lengths len = (STATUS_SUCCESS, s, b) \<and> 4096 dvd unat s \<and> unat s = unat b + 16 \<and>
          unat len \<le> unat b \<and> unat b < unat len + 4096 \<and> ring_ok (new_ring b event m) []
   else fst (ring_lengths len) = STATUS_INTEGER_OVERFLOW"
proof (cases "unat len + 16 < 4294967296")
  case False
  then have "\<not> len \<le> len + 16" by (simp add: add_no_wrap_iff)
  with False show ?thesis by (simp add: ring_lengths_def RtlULongAdd_def)
next
  case True
  then have s: "RtlULongAdd len 16 = (STATUS_SUCCESS, len + 16)" "unat (len + 16) = unat len + 16"
    by (simp_all add: RtlULongAdd_def add_no_wrap_iff) (subst unat_add_fits, simp_all)
  let ?r = "(unat len + 16 + 4095) div 4096 * 4096"
  have up: "unat (ROUND_TO_PAGES (len + 16)) = ?r mod 4294967296"
    using unat_align_up [of "ucast (len + 16) :: u64" 12] True
    by (simp add: ROUND_TO_PAGES_def unat_u64_u32 s(2))
  show ?thesis
  proof (cases "unat len + 16 \<le> 4294963200")
    case False
    then have "?r = 4294967296"
      using True div_nat_eqI [of 4096 1048576 "unat len + 16 + 4095"] by simp
    then have "ROUND_TO_PAGES (len + 16) < len + 16" using up by (simp add: word_less_nat_alt s(2))
    then show ?thesis using False by (simp add: ring_lengths_def s(1))
  next
    case fits: True
    have r: "unat len + 16 \<le> ?r" "?r < unat len + 16 + 4096"
      using round_up_bounds [of 4096 "unat len + 16"] by simp_all
    have "(unat len + 16 + 4095) div 4096 < 1048576" using fits by (simp add: less_mult_imp_div_less)
    then have r2: "?r < 4294967296" by simp
    with up have u: "unat (ROUND_TO_PAGES (len + 16)) = ?r" by (simp only: mod_less)
    have "ring_lengths len = (STATUS_SUCCESS, ROUND_TO_PAGES (len + 16), ROUND_TO_PAGES (len + 16) - 16)"
      using r u by (simp add: ring_lengths_def s(1) word_less_nat_alt s(2) Let_def)
    moreover have b: "unat (ROUND_TO_PAGES (len + 16) - 16) = ?r - 16"
      using r u by (simp add: unat_sub word_le_nat_alt)
    moreover have "16 \<le> ?r - 16"
    proof -
      have "0 < ?r" using r(1) by linarith
      then have "4096 \<le> ?r" by (simp add: div_greater_zero_iff)
      then show ?thesis by linarith
    qed
    then have "ring_ok (new_ring (ROUND_TO_PAGES (len + 16) - 16) event m) []"
      by (intro ring_ok_new) (simp only: b)
    moreover have "4096 dvd unat (ROUND_TO_PAGES (len + 16))" unfolding u by (rule dvd_triv_right)
    moreover have "unat (ROUND_TO_PAGES (len + 16)) = unat (ROUND_TO_PAGES (len + 16) - 16) + 16"
      "unat len \<le> unat (ROUND_TO_PAGES (len + 16) - 16)"
      "unat (ROUND_TO_PAGES (len + 16) - 16) < unat len + 4096"
      unfolding b u using r by linarith+
    ultimately show ?thesis using fits by simp
  qed
qed

end
