(* ===== verification/RingProtocol.thy ===== *)
theory RingProtocol
  imports RingBuffer
begin

text \<open>
  The ring buffer under concurrency: any number of producer threads of the driver, which reserve
  under the producer lock and write and submit without it, and one consumer thread that runs
  KphProcessRingBuffer over and over. The accesses to the shared positions and headers are steps in the
  order of the code, and the steps of different threads interleave freely. Two rules join accesses of
  one producer into a step: \<open>header\<close> writes the reset marker, if there is one, and the header of the new
  entry, which the consumer does not look at before the position is published; and \<open>submit\<close> reads and
  writes the header, reads Processing and signals the event.
\<close>

section \<open>States and steps\<close>

text \<open>
  The producer lock: free, held by a thread that has read the consumer's position, or by one that
  has written the headers for an entry at \<open>pos\<close> and is about to publish the new position.
\<close>

datatype lock_pc = LFree | LRead u32 | LWritten u32 u32 u32

text \<open>
  The consumer: outside the routine, with its last answer; at the top of the loop with its local
  position; with the producer position it read; about to reset; with the header of a finished
  entry; past the callback with the next position and the answer of the callback; about to clear
  Processing; and about to read the producer's position once more.
\<close>

datatype cons_pc =
    CIdle bool
  | CLoop u32
  | CLook u32 u32
  | CReset
  | CHave u32 u32 u64
  | CPass u32 u32 bool
  | CExit bool u32
  | CLast bool u32

text \<open>
  \<open>Owned\<close> are the buffers, with their lengths, that reserve has returned and that have not been
  submitted. Three components record the history: all reservations in their order, with what became
  of them, how many of them the consumer has passed, and the bytes the callback has been given.
\<close>

record rb_sys =
  Ring :: KPH_RING_BUFFER
  Lock :: lock_pc
  Owned :: "(nat \<times> nat) set"
  Consumer :: cons_pc
  Reserved :: "rb_entry list"
  Passed :: nat
  Out :: "u8 list list"

definition live :: "rb_sys \<Rightarrow> rb_entry list" where
  "live s = drop (Passed s) (Reserved s)"

text \<open>The history of an entry when its buffer is submitted.\<close>

definition mark :: "mem \<Rightarrow> nat \<Rightarrow> bool \<Rightarrow> rb_entry \<Rightarrow> rb_entry" where
  "mark m b discard e =
     (if eOff e = b
      then e\<lparr> eState := (if discard then Discarded else Committed), eData := rd_bytes m b (eLen e) \<rparr>
      else e)"

definition rb_init :: "u32 \<Rightarrow> bool \<Rightarrow> mem \<Rightarrow> rb_sys" where
  "rb_init n event m =
     \<lparr> Ring = new_ring n event m, Lock = LFree, Owned = {}, Consumer = CIdle False, Reserved = [],
       Passed = 0, Out = [] \<rparr>"

inductive rb_step :: "rb_sys \<Rightarrow> rb_sys \<Rightarrow> bool" where
  lock: "Lock s = LFree \<Longrightarrow> rb_step s (s\<lparr> Lock := LRead (ConsumerPos (Ring s)) \<rparr>)"
| fail: "Lock s = LRead c \<Longrightarrow>
    plan_reserve (RingLength (Ring s)) c (ProducerPos (Ring s)) len = None \<Longrightarrow>
    rb_step s (s\<lparr> Lock := LFree \<rparr>)"
| header: "Lock s = LRead c \<Longrightarrow>
    plan_reserve (RingLength (Ring s)) c (ProducerPos (Ring s)) len = Some (wrap, pos, newPos) \<Longrightarrow>
    rb_step s (s\<lparr> Ring := reserve_write (Ring s) wrap pos len, Lock := LWritten pos len newPos \<rparr>)"
| publish: "Lock s = LWritten pos len newPos \<Longrightarrow>
    rb_step s (s\<lparr> Ring := reserve_publish (Ring s) newPos, Lock := LFree,
                  Owned := insert (unat pos + 16, unat len) (Owned s),
                  Reserved := Reserved s @ [new_entry pos len] \<rparr>)"
| fill: "(b, n) \<in> Owned s \<Longrightarrow> a + length bs \<le> n \<Longrightarrow>
    rb_step s (s\<lparr> Ring := (Ring s)\<lparr> Buffer := wr_bytes (Buffer (Ring s)) (b + a) bs \<rparr> \<rparr>)"
| submit: "(b, n) \<in> Owned s \<Longrightarrow>
    rb_step s (s\<lparr> Ring := KphpSubmitRingBuffer (Ring s) b discard, Owned := Owned s - {(b, n)},
                  Reserved := take (Passed s) (Reserved s) @
                              map (mark (Buffer (Ring s)) b discard) (live s) \<rparr>)"
| start: "Consumer s = CIdle answer \<Longrightarrow>
    rb_step s (s\<lparr> Ring := (Ring s)\<lparr> ConsumerProcessing := 1 \<rparr>, Consumer := CLoop (ConsumerPos (Ring s)) \<rparr>)"
| empty: "Consumer s = CLoop c \<Longrightarrow> c = ProducerPos (Ring s) \<Longrightarrow>
    rb_step s (s\<lparr> Consumer := CExit False (ProducerPos (Ring s)) \<rparr>)"
| more: "Consumer s = CLoop c \<Longrightarrow> c \<noteq> ProducerPos (Ring s) \<Longrightarrow>
    rb_step s (s\<lparr> Consumer := CLook c (ProducerPos (Ring s)) \<rparr>)"
| wrapped: "Consumer s = CLook c p \<Longrightarrow> hdr_Reset (rd64 (Buffer (Ring s)) (unat c)) \<Longrightarrow>
    rb_step s (s\<lparr> Consumer := CReset \<rparr>)"
| busy: "Consumer s = CLook c p \<Longrightarrow> h = rd64 (Buffer (Ring s)) (unat c) \<Longrightarrow> \<not> hdr_Reset h \<Longrightarrow>
    hdr_Busy h \<Longrightarrow> rb_step s (s\<lparr> Consumer := CExit False p \<rparr>)"
| found: "Consumer s = CLook c p \<Longrightarrow> h = rd64 (Buffer (Ring s)) (unat c) \<Longrightarrow> \<not> hdr_Reset h \<Longrightarrow>
    \<not> hdr_Busy h \<Longrightarrow> rb_step s (s\<lparr> Consumer := CHave c p h \<rparr>)"
| reset: "Consumer s = CReset \<Longrightarrow>
    rb_step s (s\<lparr> Ring := (Ring s)\<lparr> ConsumerPos := 0 \<rparr>, Consumer := CLoop 0 \<rparr>)"
| skip: "Consumer s = CHave c p h \<Longrightarrow> hdr_Discard h \<Longrightarrow>
    rb_step s (s\<lparr> Consumer := CPass (next_pos c h) p False \<rparr>)"
| deliver: "Consumer s = CHave c p h \<Longrightarrow> \<not> hdr_Discard h \<Longrightarrow>
    rb_step s (s\<lparr> Consumer := CPass (next_pos c h) p done,
                  Out := Out s @ [entry_bytes (Buffer (Ring s)) c h] \<rparr>)"
| pass: "Consumer s = CPass c p done \<Longrightarrow>
    rb_step s (s\<lparr> Ring := (Ring s)\<lparr> ConsumerPos := c \<rparr>, Passed := Suc (Passed s),
                  Consumer := (if done then CExit True p else CLoop c) \<rparr>)"
| idle: "Consumer s = CExit hasMore p \<Longrightarrow>
    rb_step s (s\<lparr> Ring := (Ring s)\<lparr> ConsumerProcessing := 0 \<rparr>, Consumer := CLast hasMore p \<rparr>)"
| return: "Consumer s = CLast hasMore p \<Longrightarrow>
    rb_step s (s\<lparr> Consumer := CIdle (if \<not> hasMore \<and> p \<noteq> ProducerPos (Ring s) then True else hasMore) \<rparr>)"

text \<open>The states reachable on a new ring; the length is one that a created ring can have.\<close>

inductive rb_reach :: "rb_sys \<Rightarrow> bool" where
  init: "16 \<le> unat n \<Longrightarrow> rb_reach (rb_init n event m)"
| step: "rb_reach s \<Longrightarrow> rb_step s s' \<Longrightarrow> rb_reach s'"

section \<open>The invariant\<close>

text \<open>What the consumer knows about the first entry when it has its header.\<close>

definition knows :: "u64 \<Rightarrow> rb_entry \<Rightarrow> bool" where
  "knows h e \<longleftrightarrow> eState e \<noteq> Busy \<and> (hdr_Discard h \<longleftrightarrow> eState e = Discarded) \<and>
     unat (hdr_Length h) = eLen e \<and> unat (hdr_Alignment h) = eAlign e"

definition lock_ok :: "rb_sys \<Rightarrow> bool" where
  "lock_ok s =
     (case Lock s of
        LFree \<Rightarrow> True
      | LRead c \<Rightarrow> seen (Ring s) c
      | LWritten pos len newPos \<Rightarrow>
          ring_ok (reserve_publish (Ring s) newPos) (live s @ [new_entry pos len]))"

definition cons_ok :: "rb_sys \<Rightarrow> bool" where
  "cons_ok s =
     (let C = ConsumerPos (Ring s); P = ProducerPos (Ring s); h = rd64 (Buffer (Ring s)) (unat C) in
      case Consumer s of
        CLoop c \<Rightarrow> c = C
      | CLook c p \<Rightarrow> c = C \<and> C \<noteq> P
      | CReset \<Rightarrow> C \<noteq> P \<and> hdr_Reset h
      | CHave c p g \<Rightarrow> c = C \<and> (\<exists>e es. live s = e # es \<and> eOff e = unat C + 16 \<and> knows g e)
      | CPass c p done \<Rightarrow>
          (\<exists>e es. live s = e # es \<and> eOff e = unat C + 16 \<and> eState e \<noteq> Busy \<and> unat c = eEnd e)
      | _ \<Rightarrow> True)"

definition passing :: "rb_sys \<Rightarrow> nat" where
  "passing s = (case Consumer s of CPass _ _ _ \<Rightarrow> Suc (Passed s) | _ \<Rightarrow> Passed s)"

definition committed :: "rb_entry list \<Rightarrow> u8 list list" where
  "committed es = map eData (filter (\<lambda>e. eState e = Committed) es)"

definition rb_inv :: "rb_sys \<Rightarrow> bool" where
  "rb_inv s \<longleftrightarrow>
     ring_ok (Ring s) (live s) \<and> lock_ok s \<and> cons_ok s \<and>
     Owned s = {(eOff e, eLen e) | e. e \<in> set (live s) \<and> eState e = Busy} \<and>
     Passed s \<le> length (Reserved s) \<and> Out s = committed (take (passing s) (Reserved s)) \<and>
     (\<forall>e \<in> set (take (passing s) (Reserved s)). eState e \<noteq> Busy)"

section \<open>The ring under each step\<close>

lemma ring_ok_nonempty: "ring_ok r (es @ [e]) \<Longrightarrow> ConsumerPos r \<noteq> ProducerPos r"
  by (auto simp: ring_ok_def layout_empty)

lemma ring_ok_upd [simp]:
  "ring_ok (r\<lparr> ConsumerProcessing := x \<rparr>) es = ring_ok r es"
  by (simp add: ring_ok_def)

lemma ring_ok_update:
  assumes ok: "ring_ok r (xs @ e # ys)"
    and frame: "\<And>i. i < eOff e - 16 \<or> eEnd e \<le> i \<Longrightarrow> m i = Buffer r i"
    and e': "entry_at m (eOff e - 16) e'" "eEnd e' = eEnd e"
  shows "ring_ok (r\<lparr> Buffer := m \<rparr>) (xs @ e' # ys)"
  using layout_update [OF ok [unfolded ring_ok_def] _ e'] frame by (simp add: ring_ok_def)

lemma entry_region: "ring_ok r es \<Longrightarrow> e \<in> set es \<Longrightarrow> 16 \<le> eOff e \<and> entry_at (Buffer r) (eOff e - 16) e"
  by (auto simp: ring_ok_def dest: layout_member)

lemma ring_ok_fill:
  assumes ok: "ring_ok r es" and e: "e \<in> set es" "eState e = Busy" and fits: "a + length bs \<le> eLen e"
  shows "ring_ok (r\<lparr> Buffer := wr_bytes (Buffer r) (eOff e + a) bs \<rparr>) es"
proof -
  let ?m = "wr_bytes (Buffer r) (eOff e + a) bs"
  from e(1) obtain xs ys where es: "es = xs @ e # ys" by (auto simp: in_set_conv_decomp)
  note reg = entry_region [OF ok e(1)]
  have "rd64 ?m (eOff e - 16) = rd64 (Buffer r) (eOff e - 16)"
    using reg by (intro rd64_wr_bytes_other) auto
  then have "entry_at ?m (eOff e - 16) e" using reg e(2) by (simp add: entry_at_def)
  moreover have "?m i = Buffer r i" if "i < eOff e - 16 \<or> eEnd e \<le> i" for i
    using that fits reg by (intro wr_bytes_other) (auto simp: eEnd_def)
  ultimately show ?thesis using ring_ok_update [OF ok [unfolded es]] es by blast
qed

lemma mark_sel [simp]:
  "eOff (mark m b d e) = eOff e" "eLen (mark m b d e) = eLen e" "eEnd (mark m b d e) = eEnd e"
  by (simp_all add: mark_def eEnd_def)

lemma mark_other: "eOff e \<noteq> b \<Longrightarrow> mark m b d e = e"
  by (simp add: mark_def)

lemma map_mark_other: "b \<notin> eOff ` set xs \<Longrightarrow> map (mark m b d) xs = xs"
  by (rule map_idI) (auto simp: mark_def)

lemma mark_unique:
  "distinct (map eOff (xs @ e # ys)) \<Longrightarrow>
   map (mark m (eOff e) d) (xs @ e # ys) = xs @ mark m (eOff e) d e # ys"
  by (simp add: map_mark_other)

lemma ring_ok_submit:
  assumes ok: "ring_ok r es" and e: "e \<in> set es" "eState e = Busy"
  shows "ring_ok (KphpSubmitRingBuffer r (eOff e) d) (map (mark (Buffer r) (eOff e) d) es)"
proof -
  let ?a = "eOff e - 16" and ?v = "set_Discard d (set_Busy False (rd64 (Buffer r) (eOff e - 16)))"
  let ?m = "wr64 (Buffer r) ?a ?v" and ?e = "mark (Buffer r) (eOff e) d e"
  from e(1) obtain xs ys where es: "es = xs @ e # ys" by (auto simp: in_set_conv_decomp)
  note reg = entry_region [OF ok e(1)]
  have "rd_bytes ?m (eOff e) (eLen e) = rd_bytes (Buffer r) (eOff e) (eLen e)"
    using reg by (intro rd_bytes_wr64_other) auto
  then have "entry_at ?m ?a ?e" using reg by (simp add: entry_at_def mark_def Let_def)
  moreover have "?m i = Buffer r i" if "i < ?a \<or> eEnd e \<le> i" for i
    using that reg by (intro wr64_other) (auto simp: eEnd_def)
  ultimately have "ring_ok (r\<lparr> Buffer := ?m \<rparr>) (xs @ ?e # ys)"
    using ring_ok_update [OF ok [unfolded es], of ?m ?e] by simp
  moreover have "map (mark (Buffer r) (eOff e) d) es = xs @ ?e # ys"
    using layout_distinct ok unfolding es ring_ok_def by (intro mark_unique) blast
  ultimately show ?thesis
    by (simp add: KphpSubmitRingBuffer_def KPH_RING_BUFFER_HEADER_SIZE_def ring_ok_def Let_def)
qed

lemma ring_reset:
  assumes "ring_ok r es" "ConsumerPos r \<noteq> ProducerPos r"
    "hdr_Reset (rd64 (Buffer r) (unat (ConsumerPos r)))"
  shows "ring_ok (r\<lparr> ConsumerPos := 0 \<rparr>) es"
    and "unat (ProducerPos r) + 16 \<le> unat (ConsumerPos r)"
    and "e \<in> set es \<Longrightarrow> eEnd e \<le> unat (ProducerPos r)"
proof -
  have ne: "unat (ConsumerPos r) \<noteq> unat (ProducerPos r)" using assms(2) by (simp add: word_eq_unat)
  from layout_front [OF assms(1) [unfolded ring_ok_def] ne] assms(3)
  have l: "layout (Buffer r) (unat (RingLength r)) 0 (unat (ProducerPos r)) es" by simp
  then show "ring_ok (r\<lparr> ConsumerPos := 0 \<rparr>) es" by (simp add: ring_ok_def)
  from l have "segs (Buffer r) 0 es (unat (ProducerPos r))" by (auto elim: layout_cases)
  then show "e \<in> set es \<Longrightarrow> eEnd e \<le> unat (ProducerPos r)" using segs_member by blast
  from assms(1) have "layout (Buffer r) (unat (RingLength r)) (unat (ConsumerPos r)) (unat (ProducerPos r)) es"
    by (simp add: ring_ok_def)
  then show "unat (ProducerPos r) + 16 \<le> unat (ConsumerPos r)"
  proof (cases rule: layout_cases)
    case whole
    then show ?thesis using ne assms(3) by (cases es) (auto simp: entry_at_def Let_def)
  qed simp
qed

lemma ring_ok_pop:
  assumes ok: "ring_ok r (e # es)" and off: "eOff e = unat (ConsumerPos r) + 16" and c: "unat c = eEnd e"
  shows "ring_ok (r\<lparr> ConsumerPos := c \<rparr>) es"
    and "\<not> hdr_Reset (rd64 (Buffer r) (unat (ConsumerPos r)))"
    and "entry_at (Buffer r) (unat (ConsumerPos r)) e"
proof -
  have ne: "ConsumerPos r \<noteq> ProducerPos r" using ok by (auto simp: ring_ok_def layout_empty)
  then have ne': "unat (ConsumerPos r) \<noteq> unat (ProducerPos r)" by (simp add: word_eq_unat)
  show nr: "\<not> hdr_Reset (rd64 (Buffer r) (unat (ConsumerPos r)))"
  proof
    assume "hdr_Reset (rd64 (Buffer r) (unat (ConsumerPos r)))"
    note rs = ring_reset [OF ok ne this]
    have "eEnd e \<le> unat (ProducerPos r)" by (rule rs(3)) simp
    then show False using rs(2) off by (simp add: eEnd_def)
  qed
  show "ring_ok (r\<lparr> ConsumerPos := c \<rparr>) es" "entry_at (Buffer r) (unat (ConsumerPos r)) e"
    using layout_front [OF ok [unfolded ring_ok_def] ne'] nr c by (auto simp: ring_ok_def)
qed

lemma seen_pop:
  assumes ok: "ring_ok r (e # es)" and off: "eOff e = unat (ConsumerPos r) + 16" and c: "unat c = eEnd e"
    and seen: "seen r c0"
  shows "seen (r\<lparr> ConsumerPos := c \<rparr>) c0"
proof -
  have le: "unat (ConsumerPos r) \<le> unat c" using off c by (simp add: eEnd_def)
  have "unat (ConsumerPos r) \<le> unat (ProducerPos r) \<Longrightarrow> unat c \<le> unat (ProducerPos r)"
    using ok [unfolded ring_ok_def] c by (auto elim!: layout_cases dest: segs_le)
  then show ?thesis using seen le
    by (auto simp: seen_def word_le_nat_alt word_less_nat_alt split: if_split_asm)
qed

lemma seen_reset:
  "unat (ProducerPos r) + 16 \<le> unat (ConsumerPos r) \<Longrightarrow> seen r c \<Longrightarrow> seen (r\<lparr> ConsumerPos := 0 \<rparr>) c"
  by (auto simp: seen_def word_le_nat_alt word_less_nat_alt split: if_split_asm)

section \<open>Every step keeps the invariant\<close>

lemma cons_ok_frame:
  assumes "cons_ok s" and "Consumer s' = Consumer s" and "ConsumerPos (Ring s') = ConsumerPos (Ring s)"
    and "ConsumerPos (Ring s) \<noteq> ProducerPos (Ring s) \<Longrightarrow> ConsumerPos (Ring s') \<noteq> ProducerPos (Ring s')"
    and "Consumer s = CReset \<Longrightarrow> rd64 (Buffer (Ring s')) (unat (ConsumerPos (Ring s))) =
                             rd64 (Buffer (Ring s)) (unat (ConsumerPos (Ring s)))"
    and "\<And>e es. live s = e # es \<Longrightarrow> eState e \<noteq> Busy \<Longrightarrow> \<exists>es'. live s' = e # es'"
  shows "cons_ok s'"
proof (cases "Consumer s")
  case (CHave c p h)
  then obtain e es where e: "live s = e # es" "eOff e = unat c + 16" "knows h e" "c = ConsumerPos (Ring s)"
    using assms(1) by (auto simp: cons_ok_def Let_def)
  then obtain es' where "live s' = e # es'" using assms(6) by (auto simp: knows_def)
  then show ?thesis using e CHave assms(2,3) by (simp add: cons_ok_def Let_def)
next
  case (CPass c p d)
  then obtain e es where e: "live s = e # es" "eOff e = unat (ConsumerPos (Ring s)) + 16"
      "eState e \<noteq> Busy" "unat c = eEnd e"
    using assms(1) by (auto simp: cons_ok_def Let_def)
  then obtain es' where "live s' = e # es'" using assms(6) by blast
  then show ?thesis using e CPass assms(2,3) by (simp add: cons_ok_def Let_def)
qed (use assms in \<open>simp_all add: cons_ok_def Let_def\<close>)

text \<open>Producer steps that only change the buffer.\<close>

lemma inv_buffer:
  assumes inv: "rb_inv s" and s': "s' = s\<lparr> Ring := r', Lock := l \<rparr>"
    and pos: "ConsumerPos r' = ConsumerPos (Ring s)" "ProducerPos r' = ProducerPos (Ring s)"
    and ok: "ring_ok r' (live s)" and lock: "lock_ok s'"
    and marker: "Consumer s = CReset \<Longrightarrow> rd64 (Buffer r') (unat (ConsumerPos (Ring s))) =
                             rd64 (Buffer (Ring s)) (unat (ConsumerPos (Ring s)))"
  shows "rb_inv s'"
proof -
  have l: "live s' = live s" "passing s' = passing s" by (simp_all add: s' live_def passing_def split: cons_pc.split)
  have "cons_ok s'"
    by (rule cons_ok_frame [of s]) (use inv pos marker l in \<open>auto simp: s' rb_inv_def\<close>)
  then show ?thesis using inv ok lock l by (simp add: rb_inv_def s')
qed

lemma reset_state:
  assumes "rb_inv s" and "Consumer s = CReset"
  shows "ConsumerPos (Ring s) \<noteq> ProducerPos (Ring s)"
    and "hdr_Reset (rd64 (Buffer (Ring s)) (unat (ConsumerPos (Ring s))))"
    and "ring_ok (Ring s) (live s)"
  using assms by (auto simp: rb_inv_def cons_ok_def Let_def)

lemma marker_frame:
  assumes inv: "rb_inv s" and c: "Consumer s = CReset" and e: "e \<in> set (live s)"
    and frame: "\<And>i. i < eOff e - 16 \<or> eEnd e \<le> i \<Longrightarrow> m i = Buffer (Ring s) i"
  shows "rd64 m (unat (ConsumerPos (Ring s))) = rd64 (Buffer (Ring s)) (unat (ConsumerPos (Ring s)))"
proof -
  note rs = ring_reset [OF reset_state(3,1,2) [OF inv c]]
  show ?thesis using rs(2) rs(3) [OF e] by (intro rd64_cong frame) simp
qed

lemma inv_header:
  assumes inv: "rb_inv s" and lock: "Lock s = LRead c"
    and plan: "plan_reserve (RingLength (Ring s)) c (ProducerPos (Ring s)) len = Some (wrap, pos, newPos)"
  shows "rb_inv (s\<lparr> Ring := reserve_write (Ring s) wrap pos len, Lock := LWritten pos len newPos \<rparr>)"
proof (rule inv_buffer [OF inv refl])
  have ok: "ring_ok (Ring s) (live s)" and seen: "seen (Ring s) c"
    using inv lock by (auto simp: rb_inv_def lock_ok_def)
  have room: "unat (ProducerPos (Ring s)) + 16 \<le> unat (RingLength (Ring s))"
    using ok by (simp add: ring_ok_def layout_def)
  note sp = plan_reserve_seen [OF plan room seen]
  note size = reserve_sizes(2) [OF sp(1)]
  show "ring_ok (reserve_write (Ring s) wrap pos len) (live s)"
    and "lock_ok (s\<lparr> Ring := reserve_write (Ring s) wrap pos len, Lock := LWritten pos len newPos \<rparr>)"
    using reserve_write_layout [OF ok plan seen] by (simp_all add: lock_ok_def live_def)
  show "rd64 (Buffer (reserve_write (Ring s) wrap pos len)) (unat (ConsumerPos (Ring s))) =
        rd64 (Buffer (Ring s)) (unat (ConsumerPos (Ring s)))" if "Consumer s = CReset"
  proof (rule rd64_cong)
    fix i assume i: "unat (ConsumerPos (Ring s)) \<le> i"
    note rs = ring_reset(2) [OF reset_state(3,1,2) [OF inv that]]
    show "Buffer (reserve_write (Ring s) wrap pos len) i = Buffer (Ring s) i"
      by (rule reserve_write_frame) (use i rs sp(2,4,5) size in \<open>cases wrap; auto\<close>)+
  qed
qed simp_all

lemma drop_Cons_less: "drop n xs = y # ys \<Longrightarrow> n < length xs"
  by (cases "n < length xs") auto

lemma passing_le: "rb_inv s \<Longrightarrow> passing s \<le> length (Reserved s)"
  by (auto simp: rb_inv_def passing_def cons_ok_def live_def Let_def dest: drop_Cons_less
      split: cons_pc.splits)

lemma inv_publish:
  assumes inv: "rb_inv s" and lock: "Lock s = LWritten pos len newPos"
  shows "rb_inv (s\<lparr> Ring := reserve_publish (Ring s) newPos, Lock := LFree,
                    Owned := insert (unat pos + 16, unat len) (Owned s),
                    Reserved := Reserved s @ [new_entry pos len] \<rparr>)" (is "rb_inv ?s")
proof -
  have ok: "ring_ok (reserve_publish (Ring s) newPos) (live s @ [new_entry pos len])"
    using inv lock by (simp add: rb_inv_def lock_ok_def)
  have live: "live ?s = live s @ [new_entry pos len]" and pass: "passing ?s = passing s"
    using inv by (simp_all add: live_def rb_inv_def passing_def split: cons_pc.split)
  have "cons_ok ?s"
    by (rule cons_ok_frame [of s])
       (use inv ring_ok_nonempty [OF ok] live in \<open>auto simp: rb_inv_def reserve_publish_def\<close>)
  moreover have "Owned ?s = {(eOff e, eLen e) | e. e \<in> set (live ?s) \<and> eState e = Busy}"
  proof -
    have "Owned s = {(eOff e, eLen e) | e. e \<in> set (live s) \<and> eState e = Busy}"
      using inv by (simp add: rb_inv_def)
    then show ?thesis unfolding live by (auto intro: exI [of _ "new_entry pos len"])
  qed
  ultimately show ?thesis
    using inv ok live pass passing_le [OF inv]
    by (simp add: rb_inv_def lock_ok_def)
qed

lemma owned_entry:
  assumes "rb_inv s" and "(b, n) \<in> Owned s"
  obtains e where "e \<in> set (live s)" "eState e = Busy" "eOff e = b" "eLen e = n"
  using assms by (auto simp: rb_inv_def)

lemma inv_fill:
  assumes inv: "rb_inv s" and own: "(b, n) \<in> Owned s" and fits: "a + length bs \<le> n"
  shows "rb_inv (s\<lparr> Ring := (Ring s)\<lparr> Buffer := wr_bytes (Buffer (Ring s)) (b + a) bs \<rparr> \<rparr>)"
proof -
  let ?r = "(Ring s)\<lparr> Buffer := wr_bytes (Buffer (Ring s)) (b + a) bs \<rparr>"
  obtain e where e: "e \<in> set (live s)" "eState e = Busy" "eOff e = b" "eLen e = n"
    using owned_entry [OF inv own] .
  have f: "a + length bs \<le> eLen e" using fits e by simp
  have ok: "ring_ok (Ring s) (live s)" using inv by (simp add: rb_inv_def)
  have frame: "wr_bytes (Buffer (Ring s)) (b + a) bs i = Buffer (Ring s) i"
    if "i < eOff e - 16 \<or> eEnd e \<le> i" for i
    using that f e(3) by (intro wr_bytes_other) (auto simp: eEnd_def)
  have "rb_inv (s\<lparr> Ring := ?r, Lock := Lock s \<rparr>)"
  proof (rule inv_buffer [OF inv refl])
    show "ring_ok ?r (live s)" using ring_ok_fill [OF ok e(1,2) f] by (simp add: e(3))
    show "lock_ok (s\<lparr> Ring := ?r, Lock := Lock s \<rparr>)"
    proof (cases "Lock s")
      case (LWritten pos len np)
      then have "ring_ok (reserve_publish (Ring s) np) (live s @ [new_entry pos len])"
        using inv by (simp add: rb_inv_def lock_ok_def)
      from ring_ok_fill [OF this _ e(2) f] e show ?thesis
        by (simp add: LWritten lock_ok_def live_def reserve_publish_def ring_ok_def)
    qed (use inv in \<open>auto simp: rb_inv_def lock_ok_def seen_def\<close>)
    show "rd64 (Buffer ?r) (unat (ConsumerPos (Ring s))) =
          rd64 (Buffer (Ring s)) (unat (ConsumerPos (Ring s)))" if "Consumer s = CReset"
      using marker_frame [OF inv that e(1) frame] by simp
  qed simp_all
  then show ?thesis by simp
qed

lemma map_front:
  "es = e # es' \<Longrightarrow> eState e \<noteq> Busy \<Longrightarrow> (\<And>x. x \<in> set es \<Longrightarrow> eOff x = b \<Longrightarrow> eState x = Busy) \<Longrightarrow>
   \<exists>es''. map (mark m b d) es = e # es''"
  by (cases "eOff e = b") (auto simp: mark_other)

lemma submit_sel [simp]:
  "ConsumerPos (KphpSubmitRingBuffer r b d) = ConsumerPos r"
  "ProducerPos (KphpSubmitRingBuffer r b d) = ProducerPos r"
  "RingLength (KphpSubmitRingBuffer r b d) = RingLength r"
  by (simp_all add: KphpSubmitRingBuffer_def Let_def)

lemma submit_publish:
  "KphpSubmitRingBuffer (reserve_publish r np) b d = reserve_publish (KphpSubmitRingBuffer r b d) np"
  by (simp add: KphpSubmitRingBuffer_def reserve_publish_def Let_def)

lemma inv_submit:
  assumes inv: "rb_inv s" and own: "(b, n) \<in> Owned s"
  shows "rb_inv (s\<lparr> Ring := KphpSubmitRingBuffer (Ring s) b d, Owned := Owned s - {(b, n)},
                    Reserved := take (Passed s) (Reserved s) @
                                map (mark (Buffer (Ring s)) b d) (live s) \<rparr>)" (is "rb_inv ?s")
proof -
  let ?mk = "mark (Buffer (Ring s)) b d"
  obtain e where e: "e \<in> set (live s)" "eState e = Busy" "eOff e = b" "eLen e = n"
    using owned_entry [OF inv own] .
  have ok: "ring_ok (Ring s) (live s)" and le: "Passed s \<le> length (Reserved s)"
    using inv by (auto simp: rb_inv_def)
  have unique: "x = e" if "x \<in> set (live s)" "eOff x = b" for x
    using layout_distinct [OF ok [unfolded ring_ok_def]] that e by (auto simp: distinct_map inj_on_def)
  have live: "live ?s = map ?mk (live s)" using le by (simp add: live_def)
  have ok': "ring_ok (KphpSubmitRingBuffer (Ring s) b d) (map ?mk (live s))"
    using ring_ok_submit [OF ok e(1,2)] by (simp add: e(3))
  have frame: "Buffer (KphpSubmitRingBuffer (Ring s) b d) i = Buffer (Ring s) i"
    if "i < eOff e - 16 \<or> eEnd e \<le> i" for i
    using that entry_region [OF ok e(1)]
    by (auto simp: KphpSubmitRingBuffer_def KPH_RING_BUFFER_HEADER_SIZE_def Let_def e(3) eEnd_def intro!: wr64_other)
  have cons: "cons_ok ?s"
  proof (rule cons_ok_frame [of s])
    show "cons_ok s" using inv by (simp add: rb_inv_def)
    show "\<exists>es'. live ?s = x # es'" if "live s = x # xs" "eState x \<noteq> Busy" for x xs
      using map_front [OF that] unique e(2) live by metis
    show "rd64 (Buffer (Ring ?s)) (unat (ConsumerPos (Ring s))) =
          rd64 (Buffer (Ring s)) (unat (ConsumerPos (Ring s)))" if "Consumer s = CReset"
      using marker_frame [OF inv that e(1) frame] by simp
  qed simp_all
  have lock: "lock_ok ?s"
  proof (cases "Lock s")
    case (LWritten pos len np)
    then have ok1: "ring_ok (reserve_publish (Ring s) np) (live s @ [new_entry pos len])"
      using inv by (simp add: rb_inv_def lock_ok_def)
    then have "distinct (map eOff (live s @ [new_entry pos len]))"
      unfolding ring_ok_def by (rule layout_distinct)
    then have "unat pos + 16 \<noteq> b" using e by auto
    then have "?mk (new_entry pos len) = new_entry pos len" by (simp add: mark_other)
    moreover have "Buffer (reserve_publish (Ring s) np) = Buffer (Ring s)"
      by (simp add: reserve_publish_def)
    ultimately show ?thesis
      using ring_ok_submit [OF ok1 _ e(2), of d] e live
      by (simp add: LWritten lock_ok_def submit_publish)
  qed (use inv in \<open>auto simp: rb_inv_def lock_ok_def seen_def\<close>)
  have pre: "take (passing ?s) (Reserved ?s) = take (passing s) (Reserved s)"
  proof (cases "passing s = Passed s")
    case True
    then have "passing ?s = Passed s" by (simp add: passing_def split: cons_pc.splits)
    then show ?thesis using True le by simp
  next
    case False
    then obtain c p dn where c: "Consumer s = CPass c p dn" by (auto simp: passing_def split: cons_pc.splits)
    then obtain x xs where x: "live s = x # xs" "eState x \<noteq> Busy"
      using inv by (auto simp: rb_inv_def cons_ok_def Let_def)
    have "eOff x \<noteq> b" using x unique [of x] e(2) by auto
    then have "?mk x = x" by (rule mark_other)
    then show ?thesis
      using x c le take_add [of "Passed s" 1 "Reserved s"] by (simp add: passing_def live_def)
  qed
  have busy: "x \<in> set (map ?mk (live s)) \<and> eState x = Busy \<longleftrightarrow>
      x \<in> set (live s) \<and> eState x = Busy \<and> eOff x \<noteq> b" for x
    using mark_other [of x b] by (force simp: mark_def image_iff split: if_split_asm)
  have len_b: "eLen x = n" if "x \<in> set (live s)" "eOff x = b" for x using unique [OF that] e(4) by simp
  have "Owned s = {(eOff x, eLen x) | x. x \<in> set (live s) \<and> eState x = Busy}"
    using inv by (simp add: rb_inv_def)
  then have own': "Owned ?s = {(eOff x, eLen x) | x. x \<in> set (live ?s) \<and> eState x = Busy}"
    unfolding live busy using len_b by auto
  show ?thesis
    using inv ok' lock cons own' pre live le by (simp add: rb_inv_def live_def)
qed

text \<open>Consumer steps that change neither the ring's content nor the history.\<close>

lemma inv_local:
  assumes inv: "rb_inv s" and s': "s' = s\<lparr> Ring := (Ring s)\<lparr> ConsumerProcessing := x \<rparr>, Consumer := c \<rparr>"
    and cons: "cons_ok s'" and pc: "\<And>c p d. Consumer s \<noteq> CPass c p d" "\<And>c' p d. c \<noteq> CPass c' p d"
  shows "rb_inv s'"
proof -
  have "passing s' = passing s"
    using pc by (auto simp: passing_def s' split: cons_pc.splits)
  moreover have "lock_ok s'"
    by (cases "Lock s")
       (use inv in \<open>auto simp: rb_inv_def lock_ok_def s' live_def reserve_publish_def seen_def ring_ok_def\<close>)
  ultimately show ?thesis using inv cons by (simp add: rb_inv_def s' live_def)
qed

lemma inv_pc:
  assumes "rb_inv s" and "cons_ok (s\<lparr> Consumer := c \<rparr>)"
    and "\<And>c p d. Consumer s \<noteq> CPass c p d" "\<And>c' p d. c \<noteq> CPass c' p d"
  shows "rb_inv (s\<lparr> Consumer := c \<rparr>)"
  by (rule inv_local [OF assms(1), where x = "ConsumerProcessing (Ring s)" and c = c]) (use assms in simp_all)

lemma inv_found:
  assumes inv: "rb_inv s" and c: "Consumer s = CLook c p"
    and h: "h = rd64 (Buffer (Ring s)) (unat c)" "\<not> hdr_Reset h" "\<not> hdr_Busy h"
  shows "cons_ok (s\<lparr> Consumer := CHave c p h \<rparr>)"
proof -
  have at: "c = ConsumerPos (Ring s)" "ConsumerPos (Ring s) \<noteq> ProducerPos (Ring s)"
    and ok: "ring_ok (Ring s) (live s)"
    using inv c by (auto simp: rb_inv_def cons_ok_def Let_def)
  from ok obtain e es where e: "live s = e # es" "entry_at (Buffer (Ring s)) (unat c) e"
    using at h by (cases rule: ring_front) auto
  then show ?thesis
    using at h by (auto simp: cons_ok_def Let_def knows_def entry_at_def live_def)
qed

lemma have_entry:
  assumes inv: "rb_inv s" and c: "Consumer s = CHave c p h"
  obtains e es where "live s = e # es" "c = ConsumerPos (Ring s)" "eOff e = unat c + 16" "knows h e"
    "entry_at (Buffer (Ring s)) (unat c) e" "unat (next_pos c h) = eEnd e"
proof -
  obtain e es where e: "live s = e # es" "c = ConsumerPos (Ring s)" "eOff e = unat c + 16" "knows h e"
    using inv c by (auto simp: rb_inv_def cons_ok_def Let_def)
  have ok: "ring_ok (Ring s) (e # es)" using inv e by (simp add: rb_inv_def)
  then have "eEnd e + 16 \<le> unat (RingLength (Ring s))"
    unfolding ring_ok_def by (auto dest: layout_member)
  then have small: "eEnd e < 4294967296" using unat_lt_u32 [of "RingLength (Ring s)"] by linarith
  have end_e: "unat (of_nat (eEnd e) :: u32) = eEnd e"
    using small by (simp add: unsigned_of_nat take_bit_nat_eq_self)
  have at: "entry_at (Buffer (Ring s)) (unat c) e"
    using ring_ok_pop(3) [OF ok _ end_e] e by simp
  have "hdr_Length h = hdr_Length (rd64 (Buffer (Ring s)) (unat c))"
    "hdr_Alignment h = hdr_Alignment (rd64 (Buffer (Ring s)) (unat c))"
    using at e(4) by (simp_all add: knows_def entry_at_def Let_def word_eq_unat)
  then have "next_pos c h = next_pos c (rd64 (Buffer (Ring s)) (unat c))" by (simp add: next_pos_def)
  then have "unat (next_pos c h) = eEnd e" using unat_next_pos [OF at small] by simp
  then show ?thesis using that e at by blast
qed

lemma committed_append [simp]: "committed (xs @ ys) = committed xs @ committed ys"
  by (simp add: committed_def)

lemma inv_callback:
  assumes inv: "rb_inv s" and c: "Consumer s = CHave c p h"
    and out: "out = (if hdr_Discard h then Out s else Out s @ [entry_bytes (Buffer (Ring s)) c h])"
  shows "rb_inv (s\<lparr> Consumer := CPass (next_pos c h) p d, Out := out \<rparr>)" (is "rb_inv ?s")
proof -
  obtain e es where e: "live s = e # es" "c = ConsumerPos (Ring s)" "eOff e = unat c + 16" "knows h e"
    "entry_at (Buffer (Ring s)) (unat c) e" "unat (next_pos c h) = eEnd e"
    using have_entry [OF inv c] .
  have len: "Passed s < length (Reserved s)" and res: "Reserved s ! Passed s = e"
    using e(1) drop_Cons_less [of "Passed s" "Reserved s"] Cons_nth_drop_Suc [of "Passed s" "Reserved s"]
    by (auto simp: live_def)
  have tk: "take (passing ?s) (Reserved ?s) = take (passing s) (Reserved s) @ [e]"
    using len res by (simp add: passing_def c take_Suc_conv_app_nth)
  have "cons_ok ?s" using e by (simp add: cons_ok_def Let_def live_def knows_def)
  moreover have "out = committed (take (passing s) (Reserved s) @ [e])"
  proof -
    have "entry_bytes (Buffer (Ring s)) c h = eData e" if "\<not> hdr_Discard h"
      using e(3,4,5) that
      by (cases "eState e") (simp_all add: entry_bytes_def knows_def entry_at_def KPH_RING_BUFFER_HEADER_SIZE_def)
    then show ?thesis
      using inv e(4) by (cases "eState e") (simp_all add: out rb_inv_def committed_def knows_def)
  qed
  moreover have "lock_ok ?s" "live ?s = live s"
    using inv by (simp_all add: rb_inv_def lock_ok_def live_def split: lock_pc.splits)
  ultimately show ?thesis
    using inv e(4) tk by (simp add: rb_inv_def knows_def) 
qed

lemma inv_pass:
  assumes inv: "rb_inv s" and c: "Consumer s = CPass c p d"
  shows "rb_inv (s\<lparr> Ring := (Ring s)\<lparr> ConsumerPos := c \<rparr>, Passed := Suc (Passed s),
                    Consumer := (if d then CExit True p else CLoop c) \<rparr>)" (is "rb_inv ?s")
proof -
  obtain e es where e: "live s = e # es" "eOff e = unat (ConsumerPos (Ring s)) + 16" "unat c = eEnd e"
    "eState e \<noteq> Busy" using inv c by (auto simp: rb_inv_def cons_ok_def Let_def)
  have ok: "ring_ok (Ring s) (e # es)" using inv e by (simp add: rb_inv_def)
  have live: "live ?s = es" using e(1) by (simp add: live_def drop_Suc) (metis drop_tl list.sel(3))
  have "lock_ok ?s"
  proof (cases "Lock s")
    case (LRead c0)
    then show ?thesis using inv seen_pop [OF ok e(2,3), of c0] by (simp add: rb_inv_def lock_ok_def)
  next
    case (LWritten pos len np)
    then have "ring_ok (reserve_publish (Ring s) np) (e # (es @ [new_entry pos len]))"
      using inv e(1) by (simp add: rb_inv_def lock_ok_def)
    from ring_ok_pop(1) [OF this _ e(3)] e(2) live show ?thesis
      by (simp add: LWritten lock_ok_def reserve_publish_def ring_ok_def)
  qed (simp add: lock_ok_def)
  moreover have "passing ?s = passing s" by (simp add: passing_def c)
  moreover have "cons_ok ?s" by (simp add: cons_ok_def Let_def)
  ultimately show ?thesis
    using inv ring_ok_pop(1) [OF ok e(2,3)] live e(1,4) drop_Cons_less [of "Passed s" "Reserved s"]
    by (auto simp: rb_inv_def live_def [of s])
qed

lemma inv_reset:
  assumes inv: "rb_inv s" and c: "Consumer s = CReset"
  shows "rb_inv (s\<lparr> Ring := (Ring s)\<lparr> ConsumerPos := 0 \<rparr>, Consumer := CLoop 0 \<rparr>)" (is "rb_inv ?s")
proof -
  note st = reset_state [OF inv c]
  note rs = ring_reset [OF st(3,1,2)]
  have "lock_ok ?s"
  proof (cases "Lock s")
    case (LRead c0)
    then show ?thesis using inv seen_reset [OF rs(2)] by (simp add: rb_inv_def lock_ok_def)
  next
    case (LWritten pos len np)
    then have ok: "ring_ok (reserve_publish (Ring s) np) (live s @ [new_entry pos len])"
      using inv by (simp add: rb_inv_def lock_ok_def)
    from ring_reset(1) [OF ok ring_ok_nonempty [OF ok]] st(2) show ?thesis
      by (simp add: LWritten lock_ok_def reserve_publish_def ring_ok_def live_def)
  qed (simp add: lock_ok_def)
  moreover have "cons_ok ?s" "live ?s = live s" "passing ?s = passing s"
    by (simp_all add: cons_ok_def live_def passing_def c)
  ultimately show ?thesis using inv rs(1) by (simp add: rb_inv_def)
qed

lemma inv_lock:
  assumes inv: "rb_inv s" and l: "l = LFree \<or> l = LRead (ConsumerPos (Ring s))"
  shows "rb_inv (s\<lparr> Lock := l \<rparr>)"
proof -
  have "live (s\<lparr> Lock := l \<rparr>) = live s" "passing (s\<lparr> Lock := l \<rparr>) = passing s"
    by (simp_all add: live_def passing_def split: cons_pc.split)
  moreover have "cons_ok (s\<lparr> Lock := l \<rparr>)"
    by (rule cons_ok_frame [of s]) (use inv calculation in \<open>auto simp: rb_inv_def\<close>)
  ultimately show ?thesis using inv l by (auto simp: rb_inv_def lock_ok_def)
qed

lemma inv_step: "rb_step s s' \<Longrightarrow> rb_inv s \<Longrightarrow> rb_inv s'"
proof (induction rule: rb_step.induct)
  case (start s answer)
  then show ?case by (intro inv_local [OF _ refl]) (auto simp: cons_ok_def Let_def)
next
  case (empty s c)
  then show ?case
    by (intro inv_pc) (auto simp: cons_ok_def Let_def)
next
  case (more s c)
  then show ?case
    by (intro inv_pc) (auto simp: cons_ok_def Let_def rb_inv_def)
next
  case (wrapped s c p)
  then show ?case
    by (intro inv_pc) (auto simp: cons_ok_def Let_def rb_inv_def)
next
  case (busy s c p h)
  then show ?case
    by (intro inv_pc) (auto simp: cons_ok_def Let_def)
next
  case (found s c p h)
  show ?case
    by (rule inv_pc)
       (use found inv_found [of s c p h] in auto)
next
  case (skip s c p h)
  then show ?case using inv_callback [of s c p h "Out s" False] by simp
next
  case (deliver s c p h d)
  then show ?case
    using inv_callback [of s c p h "Out s @ [entry_bytes (Buffer (Ring s)) c h]" d] by simp
next
  case (idle s hasMore p)
  then show ?case by (intro inv_local [OF _ refl]) (auto simp: cons_ok_def Let_def)
next
  case (return s hasMore p)
  then show ?case
    by (intro inv_pc) (auto simp: cons_ok_def Let_def)
qed (blast intro: inv_lock inv_header inv_publish inv_fill inv_submit inv_reset inv_pass)+

lemma rb_inv_init: "16 \<le> unat n \<Longrightarrow> rb_inv (rb_init n event m)"
  by (simp add: rb_inv_def rb_init_def live_def lock_ok_def cons_ok_def passing_def committed_def
      ring_ok_new Let_def)

lemma rb_reach_inv: "rb_reach s \<Longrightarrow> rb_inv s"
  by (induction rule: rb_reach.induct) (auto intro: rb_inv_init inv_step)

section \<open>Properties\<close>

text \<open>
  C4: the ring is a queue. In every reachable state, under every interleaving of producers and
  consumer, the callback has been given exactly the committed entries among the first \<open>k\<close>
  reservations, in the order of the reservations, with the bytes they were committed with; none of
  those is still busy. Nothing is lost, duplicated, reordered or torn.
\<close>

theorem ring_fifo:
  assumes "rb_reach s"
  shows "\<exists>k \<le> length (Reserved s). Out s = committed (take k (Reserved s)) \<and>
    (\<forall>e \<in> set (take k (Reserved s)). eState e \<noteq> Busy)"
  using rb_reach_inv [OF assms] passing_le [OF rb_reach_inv [OF assms]] by (auto simp: rb_inv_def)

text \<open>
  C23: buffers are handed out exclusively: in every reachable state the buffers that producers own
  lie inside the ring and are pairwise disjoint, and disjoint from every entry the consumer has yet
  to pass that is not busy; so no write of an owner can touch another's bytes or committed ones.
\<close>

theorem ring_ownership_exclusive:
  assumes "rb_reach s" and own: "(b, n) \<in> Owned s"
  shows "16 \<le> b \<and> b + n + 16 \<le> unat (RingLength (Ring s)) \<and>
    (\<forall>(b', n') \<in> Owned s. b' = b \<and> n' = n \<or> b' + n' + 16 \<le> b \<or> b + n + 16 \<le> b') \<and>
    (\<forall>e \<in> set (live s). eState e \<noteq> Busy \<longrightarrow> eOff e + eLen e + 16 \<le> b \<or> b + n + 16 \<le> eOff e)"
proof -
  have inv: "rb_inv s" by (rule rb_reach_inv) fact
  obtain e where e: "e \<in> set (live s)" "eState e = Busy" "eOff e = b" "eLen e = n"
    using owned_entry [OF inv own] .
  then obtain xs ys where es: "live s = xs @ e # ys" by (auto simp: in_set_conv_decomp)
  have ok: "ring_ok (Ring s) (live s)" using inv by (simp add: rb_inv_def)
  have apart: "x = e \<or> eOff x + eLen x + 16 \<le> b \<or> b + n + 16 \<le> eOff x" if "x \<in> set (live s)" for x
  proof (cases "x = e")
    case False
    then have "x \<in> set xs \<union> set ys" using that es by auto
    with ok have "eEnd x \<le> eOff e - 16 \<or> eEnd e \<le> eOff x - 16"
      unfolding es ring_ok_def by (rule layout_disjoint)
    then show ?thesis
      using entry_region [OF ok that] entry_region [OF ok e(1)] e(3,4) by (auto simp: eEnd_def)
  qed simp
  have "16 \<le> eOff e \<and> eEnd e + 16 \<le> unat (RingLength (Ring s))"
    using layout_member [OF ok [unfolded ring_ok_def] e(1)] by simp
  then have "16 \<le> b \<and> b + n + 16 \<le> unat (RingLength (Ring s))" using e by (simp add: eEnd_def)
  moreover have "b' = b \<and> n' = n \<or> b' + n' + 16 \<le> b \<or> b + n + 16 \<le> b'" if o': "(b', n') \<in> Owned s" for b' n'
  proof -
    obtain x where "x \<in> set (live s)" "eState x = Busy" "eOff x = b'" "eLen x = n'"
      using owned_entry [OF inv o'] .
    then show ?thesis using apart [of x] e by auto
  qed
  moreover have "\<forall>x \<in> set (live s). eState x \<noteq> Busy \<longrightarrow> eOff x + eLen x + 16 \<le> b \<or> b + n + 16 \<le> eOff x"
    using apart e(2) by auto
  ultimately show ?thesis by blast
qed

text \<open>
  A run of one producer and the consumer: the buffer is reserved, the consumer looks at it while it
  is busy, it is committed, and the consumer leaves the routine.
\<close>

definition run_ring :: "KPH_RING_BUFFER" where
  "run_ring = new_ring 4080 True (\<lambda>_. 0)"

definition run_written :: "KPH_RING_BUFFER" where
  "run_written = reserve_write run_ring False 0 3"

definition run_published :: "KPH_RING_BUFFER" where
  "run_published = reserve_publish run_written 32"

lemma run_plan:
  "plan_reserve (RingLength run_ring) (ConsumerPos run_ring) (ProducerPos run_ring) 3 = Some (False, 0, 32)"
proof -
  have "unat (ProducerPos run_ring) + 16 \<le> unat (RingLength run_ring)" by (simp add: run_ring_def new_ring_def)
  from plan_reserve_cases [OF this] show ?thesis by (simp add: run_ring_def new_ring_def entry_size_def)
qed

lemma run_fields [simp]:
  "ConsumerPos run_published = 0" "ProducerPos run_published = 32" "ConsumerProcessing run_published = 0"
  "HasEvent run_published" "\<not> EventSet run_published"
  by (simp_all add: run_published_def run_written_def reserve_publish_def reserve_write_def run_ring_def
      new_ring_def Let_def)

lemma run_header:
  "hdr_Busy (rd64 (Buffer run_published) 0)" "\<not> hdr_Reset (rd64 (Buffer run_published) 0)"
proof -
  have "\<not> (3 :: u32) > KPH_RING_BUFFER_RESERVE_MAX"
    by (simp add: KPH_RING_BUFFER_RESERVE_MAX_def KPH_RING_BUFFER_HEADER_SIZE_def)
  from reserve_header_fields(3,4) [OF this]
  show "hdr_Busy (rd64 (Buffer run_published) 0)" "\<not> hdr_Reset (rd64 (Buffer run_published) 0)"
    by (simp_all add: run_published_def reserve_publish_def run_written_def reserve_write_def Let_def)
qed

definition run_state ::
  "KPH_RING_BUFFER \<Rightarrow> lock_pc \<Rightarrow> (nat \<times> nat) set \<Rightarrow> cons_pc \<Rightarrow> rb_entry list \<Rightarrow> rb_sys" where
  "run_state r l own c es =
     \<lparr> Ring = r, Lock = l, Owned = own, Consumer = c, Reserved = es, Passed = 0, Out = [] \<rparr>"

lemma reach_step: "rb_reach s \<Longrightarrow> rb_step s t \<Longrightarrow> t = s' \<Longrightarrow> rb_reach s'"
  by (blast intro: rb_reach.step)

lemma run_reserve: "rb_reach (run_state run_published LFree {(16, 3)} (CIdle False) [new_entry 0 3])"
proof -
  have "rb_reach (run_state run_ring LFree {} (CIdle False) [])"
    using rb_reach.init [of 4080 True "\<lambda>_. 0"] by (simp add: rb_init_def run_state_def run_ring_def)
  then have "rb_reach (run_state run_ring (LRead 0) {} (CIdle False) [])"
    by (rule reach_step [OF _ rb_step.lock]) (simp_all add: run_state_def run_ring_def new_ring_def)
  then have "rb_reach (run_state run_written (LWritten 0 3 32) {} (CIdle False) [])"
    by (rule reach_step [OF _ rb_step.header [where c = 0 and wrap = False and len = 3 and pos = 0 and newPos = 32]])
       (use run_plan in \<open>simp_all add: run_state_def run_written_def\<close>,
        simp add: run_ring_def new_ring_def)
  then show ?thesis
    by (rule reach_step [OF _ rb_step.publish [where pos = 0 and len = 3 and newPos = 32]])
       (simp_all add: run_state_def run_published_def)
qed

theorem ring_fifo_witness:
  "rb_reach (run_state run_published LFree {(16, 3)} (CIdle False) [new_entry 0 3]) \<and>
   (\<exists>k \<le> 1. ([] :: u8 list list) = committed (take k [new_entry 0 3]))"
  using ring_fifo [OF run_reserve] run_reserve by (auto simp: run_state_def)

theorem ring_ownership_exclusive_witness:
  "rb_reach (run_state run_published LFree {(16, 3)} (CIdle False) [new_entry 0 3]) \<and>
   16 + 3 + 16 \<le> unat (RingLength run_published)"
  using ring_ownership_exclusive [OF run_reserve, of 16 3] run_reserve by (simp add: run_state_def)

text \<open>
  C26: a wake-up can be lost. The routine clears Processing after it has seen the busy header, and
  afterwards compares only the producer's position. When the entry is committed in between, the
  commit does not signal the event, as Processing is still set, and the position has not moved: the
  routine answers False with a committed entry at its front, no event signalled and no thread left
  to signal it.
\<close>

theorem ring_lost_wakeup:
  "\<exists>s e es. rb_reach s \<and> Consumer s = CIdle False \<and> live s = e # es \<and> eState e = Committed \<and>
     HasEvent (Ring s) \<and> \<not> EventSet (Ring s) \<and> Lock s = LFree \<and> Owned s = {}"
proof -
  let ?r = "run_published\<lparr> ConsumerProcessing := 1 \<rparr>" and ?e = "new_entry 0 3"
  let ?s = "KphpSubmitRingBuffer ?r 16 False" and ?e' = "mark (Buffer ?r) 16 False ?e"
  have "rb_reach (run_state ?r LFree {(16, 3)} (CLoop 0) [?e])"
    by (rule reach_step [OF run_reserve rb_step.start [where answer = False]]) (simp_all add: run_state_def)
  then have "rb_reach (run_state ?r LFree {(16, 3)} (CLook 0 32) [?e])"
    by (rule reach_step [OF _ rb_step.more [where c = 0]]) (simp_all add: run_state_def)
  then have "rb_reach (run_state ?r LFree {(16, 3)} (CExit False 32) [?e])"
    by (rule reach_step [OF _ rb_step.busy [where c = 0 and p = 32]]) (use run_header in \<open>simp_all add: run_state_def\<close>)
  then have "rb_reach (run_state ?s LFree {} (CExit False 32) [?e'])"
    by (rule reach_step [OF _ rb_step.submit [where b = 16 and n = 3 and discard = False]])
       (simp_all add: run_state_def live_def)
  then have "rb_reach (run_state (?s\<lparr> ConsumerProcessing := 0 \<rparr>) LFree {} (CLast False 32) [?e'])"
    by (rule reach_step [OF _ rb_step.idle [where hasMore = False and p = 32]]) (simp_all add: run_state_def)
  then have "rb_reach (run_state (?s\<lparr> ConsumerProcessing := 0 \<rparr>) LFree {} (CIdle False) [?e'])"
    by (rule reach_step [OF _ rb_step.return [where hasMore = False and p = 32]]) (simp_all add: run_state_def)
  moreover have "eState ?e' = Committed" by (simp add: mark_def)
  moreover have "HasEvent ?s" "\<not> EventSet ?s" by (simp_all add: KphpSubmitRingBuffer_def Let_def)
  ultimately show ?thesis by (auto simp: run_state_def live_def intro!: exI)
qed

end
