(* ===== verification/Sequences.thy ===== *)
theory Sequences
  imports TE_Prelude
begin

text \<open>
  The growing arrays of ProcessHacker/phlib/basesup.c: PH_ARRAY (items of a run-time size, kept as
  bytes) and PH_LIST (pointers). Storage is a list of slots, None for memory that is allocated but
  was never written. An access outside the allocation is a fault of the model; a raised status is
  another. PhAllocate and PhReAllocate never return NULL (the heap raises instead), so allocation
  failures are not part of the model.
\<close>

section \<open>Storage\<close>

datatype fault = OutOfBounds | Raised ntstatus

type_synonym 'a slots = "'a option list"

definition PhAllocate :: "nat \<Rightarrow> 'a slots" where
  "PhAllocate n = replicate n None"

definition PhReAllocate :: "'a slots \<Rightarrow> nat \<Rightarrow> 'a slots" where
  "PhReAllocate xs n = take n xs @ replicate (n - length xs) None"

text \<open>memcpy from a buffer of the caller, and memmove inside the storage.\<close>

definition memcpy :: "'a slots \<Rightarrow> nat \<Rightarrow> 'a list \<Rightarrow> fault + 'a slots" where
  "memcpy xs i ys =
     (if i + length ys \<le> length xs then Inr (take i xs @ map Some ys @ drop (i + length ys) xs)
      else Inl OutOfBounds)"

definition memmove :: "'a slots \<Rightarrow> nat \<Rightarrow> nat \<Rightarrow> nat \<Rightarrow> fault + 'a slots" where
  "memmove xs dst src n =
     (if src + n \<le> length xs \<and> dst + n \<le> length xs
      then Inr (take dst xs @ take n (drop src xs) @ drop (dst + n) xs)
      else Inl OutOfBounds)"

lemma PhReAllocate_prefix:
  "length xs \<le> n \<Longrightarrow> PhReAllocate (map Some xs @ junk) n =
     map Some xs @ PhReAllocate junk (n - length xs)"
  by (simp add: PhReAllocate_def)

lemma length_PhReAllocate [simp]: "length (PhReAllocate xs n) = n"
  by (simp add: PhReAllocate_def)

lemma memcpy_append:
  "length ys \<le> length junk \<Longrightarrow>
   memcpy (map Some xs @ junk) (length xs) ys = Inr (map Some (xs @ ys) @ drop (length ys) junk)"
  by (simp add: memcpy_def)

section \<open>PH_LIST\<close>

record PH_LIST =
  Count :: u32
  AllocatedCount :: u32
  Items :: "u64 slots"

definition PhCreateList :: "u32 \<Rightarrow> PH_LIST" where
  "PhCreateList InitialCapacity =
     (let cap = (if InitialCapacity = 0 then 1 else InitialCapacity) in
      \<lparr> Count = 0, AllocatedCount = cap, Items = PhAllocate (unat cap) \<rparr>)"

definition PhResizeList :: "PH_LIST \<Rightarrow> u32 \<Rightarrow> fault + PH_LIST" where
  "PhResizeList l NewCapacity =
     (if Count l > NewCapacity then Inl (Raised STATUS_INVALID_PARAMETER_2)
      else Inr (l\<lparr> AllocatedCount := NewCapacity, Items := PhReAllocate (Items l) (unat NewCapacity) \<rparr>))"

definition PhAddItemList :: "PH_LIST \<Rightarrow> u64 \<Rightarrow> fault + PH_LIST" where
  "PhAddItemList l item =
     (let l1 = (if Count l = AllocatedCount l
                then l\<lparr> AllocatedCount := AllocatedCount l * 2,
                        Items := PhReAllocate (Items l) (unat (AllocatedCount l * 2)) \<rparr>
                else l) in
      case memcpy (Items l1) (unat (Count l1)) [item] of
        Inl f \<Rightarrow> Inl f
      | Inr items \<Rightarrow> Inr (l1\<lparr> Items := items, Count := Count l1 + 1 \<rparr>))"

text \<open>The growth that PhAddItemsList and PhInsertItemsList share.\<close>

definition grow_list :: "PH_LIST \<Rightarrow> u32 \<Rightarrow> PH_LIST" where
  "grow_list l n =
     (if AllocatedCount l < Count l + n
      then let cap = (if AllocatedCount l * 2 < Count l + n then Count l + n else AllocatedCount l * 2) in
           l\<lparr> AllocatedCount := cap, Items := PhReAllocate (Items l) (unat cap) \<rparr>
      else l)"

text \<open>The argument Count is the number of items given.\<close>

definition PhAddItemsList :: "PH_LIST \<Rightarrow> u64 list \<Rightarrow> fault + PH_LIST" where
  "PhAddItemsList l items =
     (let n = of_nat (length items); l1 = grow_list l n in
      case memcpy (Items l1) (unat (Count l1)) items of
        Inl f \<Rightarrow> Inl f
      | Inr slots \<Rightarrow> Inr (l1\<lparr> Items := slots, Count := Count l1 + n \<rparr>))"

definition PhClearList :: "PH_LIST \<Rightarrow> PH_LIST" where
  "PhClearList l = l\<lparr> Count := 0 \<rparr>"

text \<open>A comparison with a slot that was never written has no defined answer; it is a fault.\<close>

fun find_item :: "u64 slots \<Rightarrow> u32 \<Rightarrow> u64 \<Rightarrow> nat \<Rightarrow> fault + u32" where
  "find_item xs i item 0 = Inr (- 1)"
| "find_item xs i item (Suc n) =
     (if unat i < length xs \<and> xs ! unat i \<noteq> None
      then if xs ! unat i = Some item then Inr i else find_item xs (i + 1) item n
      else Inl OutOfBounds)"

definition PhFindItemList :: "PH_LIST \<Rightarrow> u64 \<Rightarrow> fault + u32" where
  "PhFindItemList l item = find_item (Items l) 0 item (unat (Count l))"

definition PhInsertItemsList :: "PH_LIST \<Rightarrow> u32 \<Rightarrow> u64 list \<Rightarrow> fault + PH_LIST" where
  "PhInsertItemsList l index items =
     (let n = of_nat (length items); l1 = grow_list l n in
      case (if index < Count l1
            then memmove (Items l1) (unat (index + n)) (unat index) (unat (Count l1 - index))
            else Inr (Items l1)) of
        Inl f \<Rightarrow> Inl f
      | Inr slots \<Rightarrow>
          (case memcpy slots (unat index) items of
             Inl f \<Rightarrow> Inl f
           | Inr slots' \<Rightarrow> Inr (l1\<lparr> Items := slots', Count := Count l1 + n \<rparr>)))"

definition PhInsertItemList :: "PH_LIST \<Rightarrow> u32 \<Rightarrow> u64 \<Rightarrow> fault + PH_LIST" where
  "PhInsertItemList l index item = PhInsertItemsList l index [item]"

definition PhRemoveItemsList :: "PH_LIST \<Rightarrow> u32 \<Rightarrow> u32 \<Rightarrow> fault + PH_LIST" where
  "PhRemoveItemsList l startIndex n =
     (case memmove (Items l) (unat startIndex) (unat (startIndex + n))
             (unat (Count l - startIndex - n)) of
        Inl f \<Rightarrow> Inl f
      | Inr slots \<Rightarrow> Inr (l\<lparr> Items := slots, Count := Count l - n \<rparr>))"

definition PhRemoveItemList :: "PH_LIST \<Rightarrow> u32 \<Rightarrow> fault + PH_LIST" where
  "PhRemoveItemList l index = PhRemoveItemsList l index 1"

section \<open>PH_ARRAY\<close>

text \<open>Sizes are SIZE_T, and sizes in bytes are products that wrap at 64 bits.\<close>

record PH_ARRAY =
  aCount :: u64
  aAllocatedCount :: u64
  aItemSize :: u64
  aItems :: "u8 slots"

definition PhInitializeArray :: "u64 \<Rightarrow> u64 \<Rightarrow> PH_ARRAY" where
  "PhInitializeArray ItemSize InitialCapacity =
     (let cap = (if InitialCapacity = 0 then 1 else InitialCapacity) in
      \<lparr> aCount = 0, aAllocatedCount = cap, aItemSize = ItemSize,
        aItems = PhAllocate (unat (cap * ItemSize)) \<rparr>)"

text \<open>\<open>PhItemArray\<close>: the offset of an item.\<close>

definition PhItemArray :: "PH_ARRAY \<Rightarrow> u64 \<Rightarrow> nat" where
  "PhItemArray a index = unat (index * aItemSize a)"

definition PhResizeArray :: "PH_ARRAY \<Rightarrow> u64 \<Rightarrow> fault + PH_ARRAY" where
  "PhResizeArray a NewCapacity =
     (if aCount a > NewCapacity then Inl (Raised STATUS_INVALID_PARAMETER_2)
      else Inr (a\<lparr> aAllocatedCount := NewCapacity,
                   aItems := PhReAllocate (aItems a) (unat (NewCapacity * aItemSize a)) \<rparr>))"

text \<open>The caller's buffer holds at least ItemSize bytes.\<close>

definition PhAddItemArray :: "PH_ARRAY \<Rightarrow> u8 list \<Rightarrow> fault + PH_ARRAY" where
  "PhAddItemArray a item =
     (let a1 = (if aCount a = aAllocatedCount a
                then let cap = aAllocatedCount a * 2 in
                     a\<lparr> aAllocatedCount := cap,
                        aItems := PhReAllocate (aItems a) (unat (cap * aItemSize a)) \<rparr>
                else a) in
      case memcpy (aItems a1) (PhItemArray a1 (aCount a1)) (take (unat (aItemSize a1)) item) of
        Inl f \<Rightarrow> Inl f
      | Inr bytes \<Rightarrow> Inr (a1\<lparr> aItems := bytes, aCount := aCount a1 + 1 \<rparr>))"

definition PhAddItemsArray :: "PH_ARRAY \<Rightarrow> u8 list \<Rightarrow> u64 \<Rightarrow> fault + PH_ARRAY" where
  "PhAddItemsArray a items n =
     (let a1 = (if aAllocatedCount a < aCount a + n
                then let cap = (if aAllocatedCount a * 2 < aCount a + n then aCount a + n
                                else aAllocatedCount a * 2) in
                     a\<lparr> aAllocatedCount := cap,
                        aItems := PhReAllocate (aItems a) (unat (cap * aItemSize a)) \<rparr>
                else a) in
      case memcpy (aItems a1) (PhItemArray a1 (aCount a1)) (take (unat (n * aItemSize a1)) items) of
        Inl f \<Rightarrow> Inl f
      | Inr bytes \<Rightarrow> Inr (a1\<lparr> aItems := bytes, aCount := aCount a1 + n \<rparr>))"

definition PhClearArray :: "PH_ARRAY \<Rightarrow> PH_ARRAY" where
  "PhClearArray a = a\<lparr> aCount := 0 \<rparr>"

definition PhRemoveItemsArray :: "PH_ARRAY \<Rightarrow> u64 \<Rightarrow> u64 \<Rightarrow> fault + PH_ARRAY" where
  "PhRemoveItemsArray a startIndex n =
     (case memmove (aItems a) (PhItemArray a startIndex) (PhItemArray a (startIndex + n))
             (unat ((aCount a - startIndex - n) * aItemSize a)) of
        Inl f \<Rightarrow> Inl f
      | Inr bytes \<Rightarrow> Inr (a\<lparr> aItems := bytes, aCount := aCount a - n \<rparr>))"

definition PhRemoveItemArray :: "PH_ARRAY \<Rightarrow> u64 \<Rightarrow> fault + PH_ARRAY" where
  "PhRemoveItemArray a index = PhRemoveItemsArray a index 1"

section \<open>The contract of a sequence\<close>

text \<open>
  What clients rely on: a container represents a list of items, appending and removing a range do so
  on the list, as long as it stays within a limit. \<open>item\<close> tells which items fit the container.
\<close>

locale sequence =
  fixes rep :: "'s \<Rightarrow> 'a list \<Rightarrow> bool"
    and item :: "'a \<Rightarrow> bool"
    and limit :: nat
    and add :: "'s \<Rightarrow> 'a list \<Rightarrow> fault + 's"
    and remove :: "'s \<Rightarrow> nat \<Rightarrow> nat \<Rightarrow> fault + 's"
    and clear :: "'s \<Rightarrow> 's"
  assumes add_ok: "rep s xs \<Longrightarrow> list_all item ys \<Longrightarrow> length xs + length ys \<le> limit \<Longrightarrow>
      \<exists>s'. add s ys = Inr s' \<and> rep s' (xs @ ys)"
    and remove_ok: "rep s xs \<Longrightarrow> i + n \<le> length xs \<Longrightarrow>
      \<exists>s'. remove s i n = Inr s' \<and> rep s' (take i xs @ drop (i + n) xs)"
    and clear_ok: "rep s xs \<Longrightarrow> rep (clear s) []"

datatype 'a edit = Append "'a list" | Delete nat nat | Clear

text \<open>A script of edits on a list; None when an edit is out of range or does not fit.\<close>

fun edit_list :: "('a \<Rightarrow> bool) \<Rightarrow> nat \<Rightarrow> 'a list \<Rightarrow> 'a edit list \<Rightarrow> 'a list option" where
  "edit_list item limit xs [] = Some xs"
| "edit_list item limit xs (Append ys # es) =
     (if list_all item ys \<and> length xs + length ys \<le> limit then edit_list item limit (xs @ ys) es else None)"
| "edit_list item limit xs (Delete i n # es) =
     (if i + n \<le> length xs then edit_list item limit (take i xs @ drop (i + n) xs) es else None)"
| "edit_list item limit xs (Clear # es) = edit_list item limit [] es"

text \<open>The same script on a container.\<close>

fun edit_with ::
  "('s \<Rightarrow> 'a list \<Rightarrow> fault + 's) \<Rightarrow> ('s \<Rightarrow> nat \<Rightarrow> nat \<Rightarrow> fault + 's) \<Rightarrow> ('s \<Rightarrow> 's) \<Rightarrow> 's \<Rightarrow> 'a edit list \<Rightarrow>
   fault + 's" where
  "edit_with add remove clear s [] = Inr s"
| "edit_with add remove clear s (Append ys # es) =
     (case add s ys of Inl f \<Rightarrow> Inl f | Inr s' \<Rightarrow> edit_with add remove clear s' es)"
| "edit_with add remove clear s (Delete i n # es) =
     (case remove s i n of Inl f \<Rightarrow> Inl f | Inr s' \<Rightarrow> edit_with add remove clear s' es)"
| "edit_with add remove clear s (Clear # es) = edit_with add remove clear (clear s) es"

context sequence
begin

lemma script_refines:
  "rep s xs \<Longrightarrow> edit_list item limit xs es = Some ys \<Longrightarrow>
   \<exists>s'. edit_with add remove clear s es = Inr s' \<and> rep s' ys"
proof (induction es arbitrary: s xs)
  case (Cons e es)
  show ?case
  proof (cases e)
    case (Append zs)
    then show ?thesis using Cons add_ok [of s xs zs] by (fastforce split: if_splits)
  next
    case (Delete i n)
    then show ?thesis using Cons remove_ok [of s xs i n] by (fastforce split: if_splits)
  next
    case Clear
    then show ?thesis using Cons clear_ok [of s xs] by simp
  qed
qed simp

lemma delete_undoes_append:
  assumes "rep s xs" and "list_all item ys" and "length xs + length ys \<le> limit"
  shows "\<exists>s'. edit_with add remove clear s [Append ys, Delete (length xs) (length ys)] = Inr s' \<and> rep s' xs"
  using script_refines [OF assms(1), of "[Append ys, Delete (length xs) (length ys)]" xs] assms(2,3) by simp

end

text \<open>A sequence that also inserts in the middle.\<close>

locale insertable = sequence +
  fixes insert :: "'s \<Rightarrow> nat \<Rightarrow> 'a list \<Rightarrow> fault + 's"
  assumes insert_ok: "rep s xs \<Longrightarrow> list_all item ys \<Longrightarrow> length xs + length ys \<le> limit \<Longrightarrow> i \<le> length xs \<Longrightarrow>
      \<exists>s'. insert s i ys = Inr s' \<and> rep s' (take i xs @ ys @ drop i xs)"
begin

lemma delete_undoes_insert:
  assumes "rep s xs" and "list_all item ys" and "length xs + length ys \<le> limit" and "i \<le> length xs"
  shows "\<exists>s1 s2. insert s i ys = Inr s1 \<and> remove s1 i (length ys) = Inr s2 \<and> rep s2 xs"
proof -
  obtain s1 where s1: "insert s i ys = Inr s1" "rep s1 (take i xs @ ys @ drop i xs)"
    using insert_ok [OF assms] by blast
  obtain s2 where "remove s1 i (length ys) = Inr s2"
    "rep s2 (take i (take i xs @ ys @ drop i xs) @ drop (i + length ys) (take i xs @ ys @ drop i xs))"
    using remove_ok [OF s1(2), of i "length ys"] assms(4) by auto
  then show ?thesis using s1(1) assms(4) by auto
qed

end

section \<open>PH_LIST is a sequence\<close>

definition LIST_MAX :: nat where "LIST_MAX = 2 ^ 31 - 1"

definition list_rep :: "PH_LIST \<Rightarrow> u64 list \<Rightarrow> bool" where
  "list_rep l xs \<longleftrightarrow>
     0 < unat (AllocatedCount l) \<and> unat (AllocatedCount l) \<le> 2 * LIST_MAX \<and>
     length (Items l) = unat (AllocatedCount l) \<and> unat (Count l) = length xs \<and>
     (\<exists>junk. Items l = map Some xs @ junk)"

lemma list_repD:
  assumes "list_rep l xs"
  obtains junk where "Items l = map Some xs @ junk" "length xs + length junk = unat (AllocatedCount l)"
    "unat (Count l) = length xs" "0 < unat (AllocatedCount l)" "unat (AllocatedCount l) \<le> 2 * LIST_MAX"
  using assms by (auto simp: list_rep_def)

lemma unat_double_u32: "unat (a :: u32) < 2147483648 \<Longrightarrow> unat (a * 2) = 2 * unat a"
  by (subst unat_mult_fits) simp_all

lemma grow_list_rep:
  assumes rep: "list_rep l xs" and len: "length xs + n \<le> LIST_MAX"
  shows "list_rep (grow_list l (of_nat n)) xs"
    and "length xs + n \<le> unat (AllocatedCount (grow_list l (of_nat n)))"
    and "Count (grow_list l (of_nat n)) = Count l"
proof -
  obtain junk where j: "Items l = map Some xs @ junk" "length xs + length junk = unat (AllocatedCount l)"
    "unat (Count l) = length xs" "0 < unat (AllocatedCount l)" "unat (AllocatedCount l) \<le> 2 * LIST_MAX"
    using list_repD [OF rep] .
  have sum: "unat (Count l + of_nat n) = length xs + n"
    using len j(3) by (subst unat_add_fits) (simp_all add: LIST_MAX_def)
  have small: "unat (AllocatedCount l) < 2147483648" if "AllocatedCount l < Count l + of_nat n"
    using that len by (simp add: word_less_nat_alt sum LIST_MAX_def)
  note dbl = unat_double_u32 [OF small]
  show "Count (grow_list l (of_nat n)) = Count l" by (simp add: grow_list_def Let_def)
  show "list_rep (grow_list l (of_nat n)) xs"
    using j len dbl
    by (auto simp: grow_list_def Let_def list_rep_def word_less_nat_alt sum PhReAllocate_prefix LIST_MAX_def)
  show "length xs + n \<le> unat (AllocatedCount (grow_list l (of_nat n)))"
    using dbl by (auto simp: grow_list_def Let_def word_less_nat_alt sum)
qed

lemma add_items_ok:
  assumes rep: "list_rep l xs" and len: "length xs + length ys \<le> LIST_MAX"
  shows "\<exists>l'. PhAddItemsList l ys = Inr l' \<and> list_rep l' (xs @ ys)"
proof -
  let ?n = "of_nat (length ys) :: u32"
  note g = grow_list_rep [OF rep len]
  obtain junk where j: "Items (grow_list l ?n) = map Some xs @ junk"
    "length xs + length junk = unat (AllocatedCount (grow_list l ?n))"
    "unat (Count (grow_list l ?n)) = length xs" "0 < unat (AllocatedCount (grow_list l ?n))"
    "unat (AllocatedCount (grow_list l ?n)) \<le> 2 * LIST_MAX" using list_repD [OF g(1)] .
  have fits: "length ys \<le> length junk" using g(2) j(2) by simp
  have cnt: "unat (Count (grow_list l ?n) + ?n) = length xs + length ys"
    using len j(3) by (subst unat_add_fits) (simp_all add: LIST_MAX_def)
  show ?thesis
    using j cnt fits by (auto simp: PhAddItemsList_def Let_def memcpy_append list_rep_def)
qed

lemma add_item_ok:
  assumes rep: "list_rep l xs" and len: "length xs < LIST_MAX"
  shows "\<exists>l'. PhAddItemList l x = Inr l' \<and> list_rep l' (xs @ [x])"
proof -
  obtain junk where j: "Items l = map Some xs @ junk" "length xs + length junk = unat (AllocatedCount l)"
    "unat (Count l) = length xs" "0 < unat (AllocatedCount l)" "unat (AllocatedCount l) \<le> 2 * LIST_MAX"
    using list_repD [OF rep] .
  have cnt: "unat (Count l + 1) = length xs + 1"
    using len j(3) by (subst unat_add_fits) (simp_all add: LIST_MAX_def)
  show ?thesis
  proof (cases "Count l = AllocatedCount l")
    case True
    have dbl: "unat (AllocatedCount l * 2) = 2 * length xs"
      using len True j(3) by (subst unat_double_u32) (simp_all add: LIST_MAX_def)
    have none: "junk = []" and len': "length xs = unat (AllocatedCount l)" using True j by simp_all
    then have "memcpy (PhReAllocate (map Some xs) (2 * unat (AllocatedCount l))) (unat (AllocatedCount l)) [x]
        = Inr (map Some (xs @ [x]) @ replicate (unat (AllocatedCount l) - 1) None)"
      using j(4) by (simp add: memcpy_def PhReAllocate_def)
    then show ?thesis
      using j(1,4) True dbl cnt len none len'
      by (auto simp: PhAddItemList_def Let_def list_rep_def LIST_MAX_def)
  next
    case False
    then have "1 \<le> length junk" using j by (cases junk) (auto simp: word_eq_unat)
    then show ?thesis
      using j False cnt by (auto simp: PhAddItemList_def Let_def memcpy_append list_rep_def)
  qed
qed

lemma memmove_down:
  "i + n \<le> length xs \<Longrightarrow>
   memmove (map Some xs @ junk) i (i + n) (length xs - i - n) =
     Inr (map Some (take i xs @ drop (i + n) xs) @ drop (length xs - n) (map Some xs @ junk))"
  by (auto simp: memmove_def take_map drop_map)

lemma memmove_up:
  "i \<le> length xs \<Longrightarrow> n \<le> length junk \<Longrightarrow>
   memmove (map Some xs @ junk) (i + n) i (length xs - i) =
     Inr (take (i + n) (map Some xs @ junk) @ map Some (drop i xs) @ drop n junk)"
  by (auto simp: memmove_def take_map drop_map)

lemma unat_sub2_u32:
  "unat (i :: u32) + unat n \<le> unat c \<Longrightarrow> unat (c - i - n) = unat c - unat i - unat n"
  by (simp add: unat_sub word_le_nat_alt)

lemma remove_items_ok:
  assumes rep: "list_rep l xs" and i: "i + n \<le> length xs"
  shows "\<exists>l'. PhRemoveItemsList l (of_nat i) (of_nat n) = Inr l' \<and> list_rep l' (take i xs @ drop (i + n) xs)"
proof -
  obtain junk where j: "Items l = map Some xs @ junk" "length xs + length junk = unat (AllocatedCount l)"
    "unat (Count l) = length xs" "0 < unat (AllocatedCount l)" "unat (AllocatedCount l) \<le> 2 * LIST_MAX"
    using list_repD [OF rep] .
  have small: "length xs < 4294967296" using j(2,5) by (simp add: LIST_MAX_def)
  have u: "unat (of_nat i :: u32) = i" "unat (of_nat n :: u32) = n" using i small by simp_all
  have s: "unat (of_nat i + of_nat n :: u32) = i + n"
    using i small u by (subst unat_add_fits) simp_all
  have c: "unat (Count l - of_nat i - of_nat n) = length xs - i - n"
    using i j(3) u by (subst unat_sub2_u32) simp_all
  have c': "unat (Count l - of_nat n) = length xs - n"
    using i j(3) u by (subst unat_sub) (simp_all add: word_le_nat_alt)
  have "\<exists>l'. PhRemoveItemsList l (of_nat i) (of_nat n) = Inr l' \<and>
      l' = l\<lparr> Items := map Some (take i xs @ drop (i + n) xs) @ drop (length xs - n) (map Some xs @ junk),
             Count := Count l - of_nat n \<rparr>"
    using memmove_down [OF i, of junk] by (simp add: PhRemoveItemsList_def j(1) u s c)
  then show ?thesis
    using j i by (auto simp: list_rep_def c')
qed

lemma insert_items_ok:
  assumes rep: "list_rep l xs" and len: "length xs + length ys \<le> LIST_MAX" and i: "i \<le> length xs"
  shows "\<exists>l'. PhInsertItemsList l (of_nat i) ys = Inr l' \<and> list_rep l' (take i xs @ ys @ drop i xs)"
proof -
  let ?n = "of_nat (length ys) :: u32"
  note g = grow_list_rep [OF rep len]
  obtain junk where j: "Items (grow_list l ?n) = map Some xs @ junk"
    "length xs + length junk = unat (AllocatedCount (grow_list l ?n))"
    "unat (Count (grow_list l ?n)) = length xs" "0 < unat (AllocatedCount (grow_list l ?n))"
    "unat (AllocatedCount (grow_list l ?n)) \<le> 2 * LIST_MAX" using list_repD [OF g(1)] .
  have fits: "length ys \<le> length junk" using g(2) j(2) by simp
  have u: "unat (of_nat i :: u32) = i" using i len by (simp add: LIST_MAX_def)
  have s: "unat (of_nat i + ?n) = i + length ys"
    using i len u by (subst unat_add_fits) (simp_all add: LIST_MAX_def)
  have cnt: "unat (Count (grow_list l ?n) + ?n) = length xs + length ys"
    using len j(3) by (subst unat_add_fits) (simp_all add: LIST_MAX_def)
  have c: "unat (Count (grow_list l ?n) - of_nat i) = length xs - i"
    using i j(3) u by (subst unat_sub) (simp_all add: word_le_nat_alt)
  let ?moved = "take (i + length ys) (map Some xs @ junk) @ map Some (drop i xs) @ drop (length ys) junk"
  have move: "(if of_nat i < Count (grow_list l ?n)
        then memmove (map Some xs @ junk) (unat (of_nat i + ?n)) i
               (unat (Count (grow_list l ?n) - of_nat i))
        else Inr (map Some xs @ junk)) = Inr ?moved"
  proof (cases "i < length xs")
    case True
    then show ?thesis
      using memmove_up [OF i fits] by (simp add: word_less_nat_alt u s c j(3))
  next
    case False
    then have "\<not> of_nat i < Count (grow_list l ?n)" by (simp add: word_less_nat_alt u j(3))
    then show ?thesis using False i fits by simp
  qed
  have "memcpy ?moved i ys = Inr (map Some (take i xs @ ys @ drop i xs) @ drop (length ys) junk)"
    using i fits by (simp add: memcpy_def take_map)
  then have "PhInsertItemsList l (of_nat i) ys =
      Inr ((grow_list l ?n)\<lparr> Items := map Some (take i xs @ ys @ drop i xs) @ drop (length ys) junk,
                            Count := Count (grow_list l ?n) + ?n \<rparr>)"
    by (simp only: PhInsertItemsList_def Let_def j(1) move sum.case u)
  then show ?thesis using j fits i cnt by (auto simp: list_rep_def)
qed

lemma clear_list_ok: "list_rep l xs \<Longrightarrow> list_rep (PhClearList l) []"
  by (auto simp: list_rep_def PhClearList_def)

interpretation ph_list: insertable list_rep "\<lambda>_. True" LIST_MAX PhAddItemsList
  "\<lambda>l i n. PhRemoveItemsList l (of_nat i) (of_nat n)" PhClearList "\<lambda>l i. PhInsertItemsList l (of_nat i)"
  by unfold_locales (simp_all add: add_items_ok remove_items_ok insert_items_ok clear_list_ok)

lemma find_item_index:
  "k + n = length xs \<Longrightarrow> length xs < 4294967296 \<Longrightarrow>
   find_item (map Some xs @ junk) (of_nat k) x n =
     Inr (if x \<in> set (drop k xs) then of_nat (k + length (takeWhile (\<lambda>y. y \<noteq> x) (drop k xs))) else - 1)"
proof (induction n arbitrary: k)
  case (Suc n)
  then have k: "unat (of_nat k :: u32) = k" "k < length xs" by simp_all
  have d: "drop k xs = xs ! k # drop (Suc k) xs" using k(2) by (simp add: Cons_nth_drop_Suc)
  show ?case
    using Suc.IH [of "Suc k"] Suc.prems k
    by (auto simp: d nth_append add.commute [of "of_nat k :: u32" 1])
qed simp

section \<open>PH_ARRAY is a sequence\<close>

text \<open>The number of items up to which the size in bytes, doubled, fits 64 bits.\<close>

definition ARRAY_MAX :: "nat \<Rightarrow> nat" where "ARRAY_MAX sz = (2 ^ 63 - 1) div sz"

definition array_rep :: "nat \<Rightarrow> PH_ARRAY \<Rightarrow> u8 list list \<Rightarrow> bool" where
  "array_rep sz a xs \<longleftrightarrow>
     unat (aItemSize a) = sz \<and> (\<forall>x \<in> set xs. length x = sz) \<and>
     0 < unat (aAllocatedCount a) \<and> unat (aAllocatedCount a) \<le> 2 * ARRAY_MAX sz \<and>
     length (aItems a) = unat (aAllocatedCount a) * sz \<and>
     unat (aCount a) = length xs \<and> length xs \<le> unat (aAllocatedCount a) \<and>
     (\<exists>junk. aItems a = map Some (concat xs) @ junk)"

lemma length_concat_same: "\<forall>x \<in> set xs. length x = n \<Longrightarrow> length (concat xs) = length xs * n"
  by (induction xs) simp_all

lemma concat_take: "\<forall>x \<in> set xs. length x = n \<Longrightarrow> concat (take k xs) = take (k * n) (concat xs)"
proof (induction xs arbitrary: k)
  case (Cons x xs)
  then show ?case by (cases k) auto
qed simp

lemma concat_drop: "\<forall>x \<in> set xs. length x = n \<Longrightarrow> concat (drop k xs) = drop (k * n) (concat xs)"
proof (induction xs arbitrary: k)
  case (Cons x xs)
  then show ?case by (cases k) auto
qed simp

lemma array_bytes:
  assumes "k \<le> 2 * ARRAY_MAX (unat sz)"
  shows "k * unat sz < 18446744073709551616"
proof -
  have "ARRAY_MAX (unat sz) * unat sz \<le> 2 ^ 63 - 1" by (simp only: ARRAY_MAX_def div_times_less_eq_dividend)
  then have "2 * ARRAY_MAX (unat sz) * unat sz \<le> 2 * (2 ^ 63 - 1)" by (simp only: mult.assoc mult_le_mono2)
  moreover have "k * unat sz \<le> 2 * ARRAY_MAX (unat sz) * unat sz" using assms by (rule mult_le_mono1)
  moreover have "2 * (2 ^ 63 - 1) < (18446744073709551616 :: nat)" by simp
  ultimately show ?thesis by linarith
qed

lemma unat_bytes: "unat k \<le> 2 * ARRAY_MAX (unat sz) \<Longrightarrow> unat (k * sz :: u64) = unat k * unat sz"
  using array_bytes [of "unat k" sz] by (subst unat_mult_fits) simp_all

lemma ARRAY_MAX_small: "ARRAY_MAX sz < 9223372036854775808"
proof -
  have "ARRAY_MAX sz \<le> 2 ^ 63 - 1" by (simp only: ARRAY_MAX_def div_le_dividend)
  then show ?thesis by simp
qed

lemma add_array_ok:
  assumes rep: "array_rep sz a xs" and ys: "list_all (\<lambda>y. length y = sz) ys"
    and len: "length xs + length ys \<le> ARRAY_MAX sz"
  shows "\<exists>a'. PhAddItemsArray a (concat ys) (of_nat (length ys)) = Inr a' \<and> array_rep sz a' (xs @ ys)"
proof -
  let ?n = "of_nat (length ys) :: u64"
  obtain junk where j: "aItems a = map Some (concat xs) @ junk" using rep by (auto simp: array_rep_def)
  have r: "unat (aItemSize a) = sz" "0 < unat (aAllocatedCount a)" "unat (aAllocatedCount a) \<le> 2 * ARRAY_MAX sz"
    "length (aItems a) = unat (aAllocatedCount a) * sz" "unat (aCount a) = length xs"
    "length xs \<le> unat (aAllocatedCount a)" and xs: "\<forall>x \<in> set xs. length x = sz"
    using rep by (auto simp: array_rep_def)
  note M = ARRAY_MAX_small [of sz]
  have n: "unat ?n = length ys" using len M by simp
  have sum: "unat (aCount a + ?n) = length xs + length ys"
    using len M r(5) n by (subst unat_add_fits) simp_all
  define cap where "cap = (if aAllocatedCount a < aCount a + ?n
      then if aAllocatedCount a * 2 < aCount a + ?n then aCount a + ?n else aAllocatedCount a * 2
      else aAllocatedCount a)"
  have dbl: "unat (aAllocatedCount a * 2) = 2 * unat (aAllocatedCount a)" if "aAllocatedCount a < aCount a + ?n"
    using that len M by (subst unat_mult_fits) (simp_all add: word_less_nat_alt sum)
  have cap: "length xs + length ys \<le> unat cap" "unat cap \<le> 2 * ARRAY_MAX sz" "0 < unat cap"
    "unat (aAllocatedCount a) \<le> unat cap"
    using dbl r len by (auto simp: cap_def word_less_nat_alt sum)
  define items where "items = (if aAllocatedCount a < aCount a + ?n
      then PhReAllocate (aItems a) (unat (cap * aItemSize a)) else aItems a)"
  have bytes: "unat (cap * aItemSize a) = unat cap * sz" using unat_bytes [of cap "aItemSize a"] cap r by simp
  have "unat (aAllocatedCount a) * sz \<le> unat cap * sz" using cap(4) by (rule mult_le_mono1)
  moreover have "length (concat xs) \<le> length (aItems a)" using j by simp
  ultimately have le: "length (concat xs) \<le> unat cap * sz" using r(4) by linarith
  have "\<exists>junk'. items = map Some (concat xs) @ junk' \<and> length items = unat cap * sz"
  proof (cases "aAllocatedCount a < aCount a + ?n")
    case True
    then have "items = PhReAllocate (map Some (concat xs) @ junk) (unat cap * sz)"
      by (simp add: items_def bytes j)
    then show ?thesis using le by (simp add: PhReAllocate_prefix)
  next
    case False
    then show ?thesis using r(4) j by (simp add: items_def cap_def)
  qed
  then obtain junk' where items: "items = map Some (concat xs) @ junk'" "length items = unat cap * sz" by blast
  have ly: "length (concat ys) = length ys * sz" and lx: "length (concat xs) = length xs * sz"
    using ys xs by (auto simp: list_all_iff length_concat_same)
  have room: "length (concat ys) \<le> length junk'"
  proof -
    have "(length xs + length ys) * sz \<le> unat cap * sz" using cap(1) by (rule mult_le_mono1)
    then show ?thesis using items by (simp add: ly lx add_mult_distrib)
  qed
  have off: "unat (aCount a * aItemSize a) = length (concat xs)"
    using unat_bytes [of "aCount a" "aItemSize a"] r len by (simp add: lx)
  have amount: "unat (?n * aItemSize a) = length (concat ys)"
    using unat_bytes [of ?n "aItemSize a"] r len n by (simp add: ly)
  have "PhAddItemsArray a (concat ys) ?n =
      Inr (a\<lparr> aAllocatedCount := cap, aItems := map Some (concat (xs @ ys)) @ drop (length (concat ys)) junk',
              aCount := aCount a + ?n \<rparr>)"
  proof -
    have "memcpy items (unat (aCount a * aItemSize a)) (take (unat (?n * aItemSize a)) (concat ys)) =
        Inr (map Some (concat (xs @ ys)) @ drop (length (concat ys)) junk')"
      using memcpy_append [OF room, of "concat xs"] by (simp add: items off amount)
    then show ?thesis
      by (simp add: PhAddItemsArray_def Let_def PhItemArray_def items_def cap_def split: if_splits)
  qed
  moreover have "length (map Some (concat (xs @ ys)) @ drop (length (concat ys)) junk') = unat cap * sz"
    using items room by simp
  ultimately show ?thesis
    using r(1) xs ys cap sum by (auto simp: array_rep_def list_all_iff)
qed

lemma remove_array_ok:
  assumes rep: "array_rep sz a xs" and i: "i + n \<le> length xs"
  shows "\<exists>a'. PhRemoveItemsArray a (of_nat i) (of_nat n) = Inr a' \<and> array_rep sz a' (take i xs @ drop (i + n) xs)"
proof -
  obtain junk where j: "aItems a = map Some (concat xs) @ junk" using rep by (auto simp: array_rep_def)
  have r: "unat (aItemSize a) = sz" "unat (aAllocatedCount a) \<le> 2 * ARRAY_MAX sz" "unat (aCount a) = length xs"
    "length xs \<le> unat (aAllocatedCount a)" and xs: "\<forall>x \<in> set xs. length x = sz"
    using rep by (auto simp: array_rep_def)
  note M = ARRAY_MAX_small [of sz]
  have u: "unat (of_nat i :: u64) = i" "unat (of_nat n :: u64) = n" using i r M by simp_all
  have s: "unat (of_nat i + of_nat n :: u64) = i + n"
    using i r M u by (subst unat_add_fits) simp_all
  have c: "unat (aCount a - of_nat i - of_nat n) = length xs - i - n"
    using i r(3) u by (simp add: unat_sub word_le_nat_alt)
  have c': "unat (aCount a - of_nat n) = length xs - n"
    using i r(3) u by (simp add: unat_sub word_le_nat_alt)
  have b: "unat (of_nat i * aItemSize a) = i * sz" "unat ((of_nat i + of_nat n) * aItemSize a) = (i + n) * sz"
    "unat ((aCount a - of_nat i - of_nat n) * aItemSize a) = (length xs - i - n) * sz"
    using unat_bytes [of "of_nat i" "aItemSize a"] unat_bytes [of "of_nat i + of_nat n" "aItemSize a"]
      unat_bytes [of "aCount a - of_nat i - of_nat n" "aItemSize a"] i r u s c by simp_all
  have l: "length (concat xs) = length xs * sz" using xs by (rule length_concat_same)
  have le: "i * sz + n * sz \<le> length (concat xs)"
    using mult_le_mono1 [OF i, of sz] by (simp add: l add_mult_distrib)
  have amount: "(length xs - (i + n)) * sz = length (concat xs) - (i * sz + n * sz)"
    by (simp add: l diff_mult_distrib add_mult_distrib)
  have new: "concat (take i xs @ drop (i + n) xs) = take (i * sz) (concat xs) @ drop (i * sz + n * sz) (concat xs)"
    using concat_take [OF xs, of i] concat_drop [OF xs, of "i + n"] by (simp add: add_mult_distrib)
  have "PhRemoveItemsArray a (of_nat i) (of_nat n) =
      Inr (a\<lparr> aItems := map Some (concat (take i xs @ drop (i + n) xs)) @
                         drop (length (concat xs) - n * sz) (map Some (concat xs) @ junk),
              aCount := aCount a - of_nat n \<rparr>)"
    using memmove_down [OF le, of junk] unfolding new
    by (simp add: PhRemoveItemsArray_def PhItemArray_def j b add_mult_distrib amount)
  moreover have "\<forall>x \<in> set (take i xs @ drop (i + n) xs). length x = sz"
    using xs by (auto dest: in_set_takeD in_set_dropD)
  moreover have "length (map Some (concat (take i xs @ drop (i + n) xs)) @
      drop (length (concat xs) - n * sz) (map Some (concat xs) @ junk)) = length (aItems a)"
    unfolding new using le by (simp add: j)
  ultimately show ?thesis using rep i c' by (auto simp: array_rep_def)
qed

lemma clear_array_ok: "array_rep sz a xs \<Longrightarrow> array_rep sz (PhClearArray a) []"
  by (auto simp: array_rep_def PhClearArray_def)

interpretation ph_array: sequence "array_rep sz" "\<lambda>y. length y = sz" "ARRAY_MAX sz"
  "\<lambda>a ys. PhAddItemsArray a (concat ys) (of_nat (length ys))"
  "\<lambda>a i n. PhRemoveItemsArray a (of_nat i) (of_nat n)" PhClearArray for sz
  by unfold_locales (simp_all add: add_array_ok remove_array_ok clear_array_ok)

section \<open>Properties\<close>

text \<open>
  C37: a PH_LIST is a list. From a list that represents \<open>xs\<close>: adding an item appends it, growing
  the storage when it is full; inserting items at an index at most the count puts them there, and
  removing them again restores the list; a search returns the index of the first occurrence, or the
  largest ULONG when there is none. No access leaves the storage and none reads a slot that was
  never written.
\<close>

theorem phlist_operations:
  assumes "list_rep l xs"
  shows "(length xs < LIST_MAX \<longrightarrow> (\<exists>l'. PhAddItemList l x = Inr l' \<and> list_rep l' (xs @ [x]))) \<and>
    (length xs + length ys \<le> LIST_MAX \<and> i \<le> length xs \<longrightarrow>
       (\<exists>l1 l2. PhInsertItemsList l (of_nat i) ys = Inr l1 \<and> list_rep l1 (take i xs @ ys @ drop i xs) \<and>
          PhRemoveItemsList l1 (of_nat i) (of_nat (length ys)) = Inr l2 \<and> list_rep l2 xs)) \<and>
    PhFindItemList l x = Inr (if x \<in> set xs then of_nat (length (takeWhile (\<lambda>y. y \<noteq> x) xs)) else - 1)"
proof (intro conjI impI)
  show "\<exists>l'. PhAddItemList l x = Inr l' \<and> list_rep l' (xs @ [x])" if "length xs < LIST_MAX"
    by (rule add_item_ok [OF assms that])
  show "\<exists>l1 l2. PhInsertItemsList l (of_nat i) ys = Inr l1 \<and> list_rep l1 (take i xs @ ys @ drop i xs) \<and>
      PhRemoveItemsList l1 (of_nat i) (of_nat (length ys)) = Inr l2 \<and> list_rep l2 xs"
    if "length xs + length ys \<le> LIST_MAX \<and> i \<le> length xs"
    using ph_list.delete_undoes_insert [OF assms, of ys i] ph_list.insert_ok [OF assms, of ys i] that
    by (auto simp: list.pred_True)
  obtain junk where j: "Items l = map Some xs @ junk" "length xs + length junk = unat (AllocatedCount l)"
    "unat (Count l) = length xs" "0 < unat (AllocatedCount l)" "unat (AllocatedCount l) \<le> 2 * LIST_MAX"
    using list_repD [OF assms] .
  have "length xs < 4294967296" using j(2,5) by (simp add: LIST_MAX_def)
  from find_item_index [OF _ this, of 0 "length xs" junk x]
  show "PhFindItemList l x = Inr (if x \<in> set xs then of_nat (length (takeWhile (\<lambda>y. y \<noteq> x) xs)) else - 1)"
    by (simp add: PhFindItemList_def j(1,3))
qed

lemma create_list_rep: "unat n \<le> 2 * LIST_MAX \<Longrightarrow> list_rep (PhCreateList n) []"
  by (auto simp: list_rep_def PhCreateList_def PhAllocate_def LIST_MAX_def Let_def unat_gt_0)

theorem phlist_operations_witness:
  "\<exists>l. PhAddItemList (PhCreateList 0) 8 = Inr l \<and> list_rep l [8] \<and> PhFindItemList l 8 = Inr 0"
proof -
  have new: "list_rep (PhCreateList 0) []" by (rule create_list_rep) simp
  obtain l where l: "PhAddItemList (PhCreateList 0) 8 = Inr l" "list_rep l [8]"
    using phlist_operations [OF new, of 8 "[]" 0] by (auto simp: LIST_MAX_def)
  then show ?thesis using phlist_operations [OF l(2), of 8 "[]" 0] by auto
qed

text \<open>
  C36: a PH_ARRAY runs every script of appends, deletions of ranges and clears as the list of its
  items does, item size and contents arbitrary: whenever the script is in range on the list and stays
  below the limit at which byte sizes could wrap, the array reaches a state that represents the
  resulting list, with every byte of every item in place.
\<close>

theorem pharray_script:
  assumes "array_rep sz a xs" and "edit_list (\<lambda>y. length y = sz) (ARRAY_MAX sz) xs es = Some ys"
  shows "\<exists>a'. edit_with (\<lambda>a ys. PhAddItemsArray a (concat ys) (of_nat (length ys)))
      (\<lambda>a i n. PhRemoveItemsArray a (of_nat i) (of_nat n)) PhClearArray a es = Inr a' \<and> array_rep sz a' ys"
  by (rule ph_array.script_refines) fact+

lemma initialize_array_rep:
  assumes "0 < ARRAY_MAX (unat sz)" and "unat n \<le> ARRAY_MAX (unat sz)"
  shows "array_rep (unat sz) (PhInitializeArray sz n) []"
proof -
  let ?cap = "if n = 0 then 1 else n :: u64"
  have "unat ?cap \<le> 2 * ARRAY_MAX (unat sz)" "0 < unat ?cap" using assms by (auto simp: unat_gt_0)
  then show ?thesis
    using unat_bytes [of ?cap sz]
    by (auto simp: array_rep_def PhInitializeArray_def PhAllocate_def Let_def)
qed

theorem pharray_script_witness:
  "\<exists>a. edit_with (\<lambda>a ys. PhAddItemsArray a (concat ys) (of_nat (length ys)))
      (\<lambda>a i n. PhRemoveItemsArray a (of_nat i) (of_nat n)) PhClearArray (PhInitializeArray 2 0)
      [Append [[1, 2], [3, 4], [5, 6]], Delete 0 2] = Inr a \<and> array_rep 2 a [[5, 6]]"
proof -
  have "0 < ARRAY_MAX (unat (2 :: u64))" by (simp add: ARRAY_MAX_def)
  from initialize_array_rep [OF this, of 0] have new: "array_rep 2 (PhInitializeArray 2 0) []" by simp
  show ?thesis
    using pharray_script [OF new, of "[Append [[1, 2], [3, 4], [5, 6]], Delete 0 2]" "[[5, 6]]"]
    by (simp add: ARRAY_MAX_def)
qed

text \<open>
  Resizing an empty list to capacity 0, which PhResizeList does not refuse, leaves a list whose
  capacity doubles to 0 for ever: the next PhAddItemList writes outside the storage.
\<close>

lemma resize_to_zero_overflows:
  "\<exists>l. PhResizeList (PhCreateList 4) 0 = Inr l \<and> PhAddItemList l 8 = Inl OutOfBounds"
  by (simp add: PhResizeList_def PhCreateList_def PhAddItemList_def PhReAllocate_def memcpy_def)

end
