(* ===== verification/PointerList.thy ===== *)
theory PointerList
  imports Sequences
begin

unbundle bit_operations_syntax

text \<open>
  PH_POINTER_LIST of ProcessHacker/phlib/basesup.c: an unordered table of pointers with handles,
  constant-time insertion and removal. A pointer is at least 2-byte aligned, so an odd value marks a
  free entry; it holds the index of the next free one. Handles are indexes plus one.
\<close>

section \<open>The code\<close>

record PH_POINTER_LIST =
  pCount :: u32
  pAllocatedCount :: u32
  pFreeEntry :: u32
  pNextEntry :: u32
  pItems :: "u64 slots"

definition PH_IS_LIST_POINTER_VALID :: "u64 \<Rightarrow> bool" where
  "PH_IS_LIST_POINTER_VALID p \<longleftrightarrow> \<not> (p AND 1 \<noteq> 0)"

definition PhCreatePointerList :: "u32 \<Rightarrow> PH_POINTER_LIST" where
  "PhCreatePointerList InitialCapacity =
     (let cap = (if InitialCapacity = 0 then 1 else InitialCapacity) in
      \<lparr> pCount = 0, pAllocatedCount = cap, pFreeEntry = - 1, pNextEntry = 0,
        pItems = PhAllocate (unat cap) \<rparr>)"

definition PhpDecodePointerListIndex :: "u64 \<Rightarrow> u32" where
  "PhpDecodePointerListIndex index = ucast (signed_drop_bit 1 index)"

definition PhpEncodePointerListIndex :: "u32 \<Rightarrow> u64" where
  "PhpEncodePointerListIndex index = push_bit 1 (ucast index) OR 1"

definition PhpPointerListIndexToHandle :: "u32 \<Rightarrow> u64" where
  "PhpPointerListIndexToHandle index = ucast (index + 1)"

definition PhpPointerListHandleToIndex :: "u64 \<Rightarrow> u32" where
  "PhpPointerListHandleToIndex handle = ucast handle - 1"

text \<open>Reading and writing one entry of the storage.\<close>

definition rd_slot :: "'a slots \<Rightarrow> u32 \<Rightarrow> fault + 'a" where
  "rd_slot xs i = (if unat i < length xs then case xs ! unat i of None \<Rightarrow> Inl OutOfBounds | Some x \<Rightarrow> Inr x
                   else Inl OutOfBounds)"

definition wr_slot :: "'a slots \<Rightarrow> u32 \<Rightarrow> 'a \<Rightarrow> fault + 'a slots" where
  "wr_slot xs i x = (if unat i < length xs then Inr (xs[unat i := Some x]) else Inl OutOfBounds)"

definition PhAddItemPointerList :: "PH_POINTER_LIST \<Rightarrow> u64 \<Rightarrow> fault + (u64 \<times> PH_POINTER_LIST)" where
  "PhAddItemPointerList pl pointer =
     (if pFreeEntry pl \<noteq> - 1 then
        let index = pFreeEntry pl in
        case rd_slot (pItems pl) index of
          Inl f \<Rightarrow> Inl f
        | Inr oldPointer \<Rightarrow>
            (case wr_slot (pItems pl) index pointer of
               Inl f \<Rightarrow> Inl f
             | Inr items \<Rightarrow>
                 Inr (PhpPointerListIndexToHandle index,
                      pl\<lparr> pItems := items, pFreeEntry := PhpDecodePointerListIndex oldPointer,
                          pCount := pCount pl + 1 \<rparr>))
      else
        let pl1 = (if pNextEntry pl = pAllocatedCount pl
                   then pl\<lparr> pAllocatedCount := pAllocatedCount pl * 2,
                            pItems := PhReAllocate (pItems pl) (unat (pAllocatedCount pl * 2)) \<rparr>
                   else pl);
            index = pNextEntry pl1 in
        case wr_slot (pItems pl1) index pointer of
          Inl f \<Rightarrow> Inl f
        | Inr items \<Rightarrow>
            Inr (PhpPointerListIndexToHandle index,
                 pl1\<lparr> pItems := items, pNextEntry := pNextEntry pl1 + 1, pCount := pCount pl1 + 1 \<rparr>))"

text \<open>
  The enumeration: the loop from a key, with the number of remaining entries as its measure. The
  result is the new key, and the pointer and handle when there was one.
\<close>

fun enum_from :: "u64 slots \<Rightarrow> u32 \<Rightarrow> nat \<Rightarrow> fault + (u32 \<times> (u64 \<times> u64) option)" where
  "enum_from items key 0 = Inr (key, None)"
| "enum_from items key (Suc n) =
     (case rd_slot items key of
        Inl f \<Rightarrow> Inl f
      | Inr pointer \<Rightarrow>
          if PH_IS_LIST_POINTER_VALID pointer
          then Inr (key + 1, Some (pointer, PhpPointerListIndexToHandle key))
          else enum_from items (key + 1) n)"

definition PhEnumPointerListEx :: "PH_POINTER_LIST \<Rightarrow> u32 \<Rightarrow> fault + (u32 \<times> (u64 \<times> u64) option)" where
  "PhEnumPointerListEx pl key = enum_from (pItems pl) key (unat (pNextEntry pl) - unat key)"

fun find_pointer :: "u64 slots \<Rightarrow> u64 \<Rightarrow> u32 \<Rightarrow> nat \<Rightarrow> fault + u64" where
  "find_pointer items pointer i 0 = Inr 0"
| "find_pointer items pointer i (Suc n) =
     (case rd_slot items i of
        Inl f \<Rightarrow> Inl f
      | Inr p \<Rightarrow> if p = pointer then Inr (PhpPointerListIndexToHandle i)
                 else find_pointer items pointer (i + 1) n)"

definition PhFindItemPointerList :: "PH_POINTER_LIST \<Rightarrow> u64 \<Rightarrow> fault + u64" where
  "PhFindItemPointerList pl pointer = find_pointer (pItems pl) pointer 0 (unat (pNextEntry pl))"

definition PhGetItemPointerList :: "PH_POINTER_LIST \<Rightarrow> u64 \<Rightarrow> fault + u64" where
  "PhGetItemPointerList pl handle =
     (if handle = 0 then Inr 0
      else
        let index = PhpPointerListHandleToIndex handle in
        if index \<ge> pNextEntry pl then Inr 0
        else case rd_slot (pItems pl) index of
          Inl f \<Rightarrow> Inl f
        | Inr pointer \<Rightarrow> Inr (if PH_IS_LIST_POINTER_VALID pointer then pointer else 0))"

definition PhRemoveItemPointerList :: "PH_POINTER_LIST \<Rightarrow> u64 \<Rightarrow> fault + PH_POINTER_LIST" where
  "PhRemoveItemPointerList pl handle =
     (let index = PhpPointerListHandleToIndex handle in
      case wr_slot (pItems pl) index (PhpEncodePointerListIndex (pFreeEntry pl)) of
        Inl f \<Rightarrow> Inl f
      | Inr items \<Rightarrow> Inr (pl\<lparr> pItems := items, pFreeEntry := index, pCount := pCount pl - 1 \<rparr>))"

section \<open>The contract of a handle table\<close>

locale handle_table =
  fixes rep :: "'s \<Rightarrow> ('h \<Rightarrow> 'v option) \<Rightarrow> bool"
    and valid :: "'v \<Rightarrow> bool"
    and room :: "'s \<Rightarrow> bool"
    and insert :: "'s \<Rightarrow> 'v \<Rightarrow> fault + ('h \<times> 's)"
    and lookup :: "'s \<Rightarrow> 'h \<Rightarrow> fault + 'v option"
    and delete :: "'s \<Rightarrow> 'h \<Rightarrow> fault + 's"
  assumes insert_ok: "rep s f \<Longrightarrow> valid v \<Longrightarrow> room s \<Longrightarrow>
      \<exists>h s'. insert s v = Inr (h, s') \<and> f h = None \<and> rep s' (f(h \<mapsto> v))"
    and lookup_ok: "rep s f \<Longrightarrow> lookup s h = Inr (f h)"
    and delete_ok: "rep s f \<Longrightarrow> f h \<noteq> None \<Longrightarrow> \<exists>s'. delete s h = Inr s' \<and> rep s' (f(h := None))"
begin

text \<open>A new handle leads to what was inserted, the others to what they led to.\<close>

lemma lookup_after_insert:
  assumes "rep s f" "valid v" "room s"
  shows "\<exists>h s'. insert s v = Inr (h, s') \<and> lookup s h = Inr None \<and> lookup s' h = Inr (Some v) \<and>
    (\<forall>g. g \<noteq> h \<longrightarrow> lookup s' g = lookup s g)"
proof -
  obtain h s' where s': "insert s v = Inr (h, s')" "f h = None" "rep s' (f(h \<mapsto> v))"
    using insert_ok [OF assms] by blast
  then show ?thesis using lookup_ok [OF assms(1)] lookup_ok [OF s'(3)] by auto
qed

text \<open>A deleted handle leads nowhere, the others to what they led to.\<close>

lemma lookup_after_delete:
  assumes "rep s f" "lookup s h = Inr (Some v)"
  shows "\<exists>s'. delete s h = Inr s' \<and> lookup s' h = Inr None \<and> (\<forall>g. g \<noteq> h \<longrightarrow> lookup s' g = lookup s g)"
proof -
  have "f h \<noteq> None" using assms lookup_ok by simp
  then obtain s' where s': "delete s h = Inr s'" "rep s' (f(h := None))"
    using delete_ok [OF assms(1)] by blast
  then show ?thesis using lookup_ok [OF assms(1)] lookup_ok [OF s'(2)] by auto
qed

end

section \<open>The pointer list is a handle table\<close>

lemma decode_encode [simp]: "PhpDecodePointerListIndex (PhpEncodePointerListIndex i) = i"
  by (rule bit_eqI)
    (auto simp: PhpDecodePointerListIndex_def PhpEncodePointerListIndex_def bit_simps
      simp del: push_bit_Suc One_nat_def dest: bit_imp_le_length)

lemma encode_invalid [simp]: "\<not> PH_IS_LIST_POINTER_VALID (PhpEncodePointerListIndex i)"
proof -
  have "bit (PhpEncodePointerListIndex i AND 1) 0"
    by (simp add: PhpEncodePointerListIndex_def bit_simps)
  then show ?thesis by (auto simp: PH_IS_LIST_POINTER_VALID_def)
qed

lemma ucast_u32_u64_u32 [simp]: "(ucast (ucast (x :: u32) :: u64) :: u32) = x"
  by (simp add: word_eq_unat unat_u64_u32)

lemma handle_index [simp]:
  "PhpPointerListHandleToIndex (ucast (h :: u32)) = h - 1"
  "(ucast (PhpPointerListIndexToHandle i) :: u32) = i + 1"
  by (simp_all add: PhpPointerListHandleToIndex_def PhpPointerListIndexToHandle_def)

text \<open>The chain of free entries that starts at \<open>free\<close>.\<close>

fun chain :: "u64 slots \<Rightarrow> u32 \<Rightarrow> nat list \<Rightarrow> bool" where
  "chain items free [] \<longleftrightarrow> free = - 1"
| "chain items free (i # is) \<longleftrightarrow>
     unat free = i \<and> i < length items \<and>
     (\<exists>w. items ! i = Some (PhpEncodePointerListIndex w) \<and> chain items w is)"

definition list_pointer :: "u64 \<Rightarrow> bool" where
  "list_pointer p \<longleftrightarrow> PH_IS_LIST_POINTER_VALID p \<and> p \<noteq> 0"

text \<open>
  The pointer list holds the map \<open>g\<close> from handles: \<open>fs\<close> are the free entries below NextEntry; every
  other entry below it is the pointer of its handle, and there are no more handles.
\<close>

definition pl_inv :: "PH_POINTER_LIST \<Rightarrow> (u32 \<Rightarrow> u64 option) \<Rightarrow> nat list \<Rightarrow> bool" where
  "pl_inv pl g fs \<longleftrightarrow>
     length (pItems pl) = unat (pAllocatedCount pl) \<and> 0 < unat (pAllocatedCount pl) \<and>
     unat (pAllocatedCount pl) \<le> 2 ^ 31 \<and> unat (pNextEntry pl) \<le> unat (pAllocatedCount pl) \<and>
     chain (pItems pl) (pFreeEntry pl) fs \<and> distinct fs \<and> set fs \<subseteq> {..< unat (pNextEntry pl)} \<and>
     (\<forall>i < unat (pNextEntry pl). i \<notin> set fs \<longrightarrow>
        (\<exists>p. pItems pl ! i = Some p \<and> list_pointer p \<and> g (of_nat i + 1) = Some p)) \<and>
     (\<forall>h. g h \<noteq> None \<longrightarrow> h \<noteq> 0 \<and> unat (h - 1) < unat (pNextEntry pl) \<and> unat (h - 1) \<notin> set fs) \<and>
     unat (pCount pl) + length fs = unat (pNextEntry pl)"

definition pl_rep :: "PH_POINTER_LIST \<Rightarrow> (u32 \<Rightarrow> u64 option) \<Rightarrow> bool" where
  "pl_rep pl g \<longleftrightarrow> (\<exists>fs. pl_inv pl g fs)"

definition pl_room :: "PH_POINTER_LIST \<Rightarrow> bool" where
  "pl_room pl \<longleftrightarrow> pFreeEntry pl \<noteq> - 1 \<or> unat (pNextEntry pl) < 2 ^ 30"

lemma chain_update: "i \<notin> set is \<Longrightarrow> chain (items[i := x]) w is = chain items w is"
  by (induction "is" arbitrary: w) auto

lemma chain_append: "chain items w is \<Longrightarrow> chain (items @ extra) w is"
  by (induction "is" arbitrary: w) (auto simp: nth_append)

lemma unat_index: "i < 4294967295 \<Longrightarrow> unat (of_nat i + 1 :: u32) = i + 1"
  by (subst unat_add_fits) simp_all

lemma index_inj: "(h :: u32) \<noteq> of_nat i + 1 \<Longrightarrow> i < 4294967296 \<Longrightarrow> unat (h - 1) \<noteq> i"
  by (metis diff_add_cancel unat_of_nat_u32 word_eq_unat)

lemma of_nat_neq: "i \<noteq> unat (w :: u32) \<Longrightarrow> i < 4294967296 \<Longrightarrow> of_nat i \<noteq> w"
  by (metis unat_of_nat_u32)

lemma insert_reuse:
  assumes inv: "pl_inv pl g fs" and p: "list_pointer p" and free: "pFreeEntry pl \<noteq> - 1"
  shows "\<exists>pl'. PhAddItemPointerList pl p = Inr (PhpPointerListIndexToHandle (pFreeEntry pl), pl') \<and>
    g (pFreeEntry pl + 1) = None \<and> pl_inv pl' (g(pFreeEntry pl + 1 \<mapsto> p)) (tl fs)"
proof -
  let ?f = "pFreeEntry pl" and ?items = "pItems pl"
  obtain "is" where fs: "fs = unat ?f # is" using inv free by (cases fs) (auto simp: pl_inv_def)
  then obtain w where w: "unat ?f < length ?items" "?items ! unat ?f = Some (PhpEncodePointerListIndex w)"
    "chain ?items w is" using inv by (auto simp: pl_inv_def)
  have f: "unat ?f \<notin> set is" "unat ?f < unat (pNextEntry pl)" using inv fs by (auto simp: pl_inv_def)
  let ?pl = "pl\<lparr> pItems := ?items[unat ?f := Some p], pFreeEntry := w, pCount := pCount pl + 1 \<rparr>"
  have add: "PhAddItemPointerList pl p = Inr (PhpPointerListIndexToHandle ?f, ?pl)"
    using free w by (simp add: PhAddItemPointerList_def rd_slot_def wr_slot_def Let_def)
  have none: "g (?f + 1) = None"
  proof (rule ccontr)
    assume "g (?f + 1) \<noteq> None"
    then have "unat (?f + 1 - 1) \<notin> set fs" using inv unfolding pl_inv_def by blast
    then show False using fs by simp
  qed
  have bound: "unat (pNextEntry pl) \<le> 2147483648" using inv by (simp add: pl_inv_def)
  have "unat (pCount pl) < unat (pNextEntry pl)" using inv fs by (simp add: pl_inv_def)
  then have cnt: "unat (pCount pl + 1) = unat (pCount pl) + 1"
    using bound by (intro count_suc) linarith
  have live: "\<exists>q. (?items[unat ?f := Some p]) ! i = Some q \<and> list_pointer q \<and>
      (g(?f + 1 \<mapsto> p)) (of_nat i + 1) = Some q" if i: "i < unat (pNextEntry pl)" "i \<notin> set is" for i
  proof (cases "i = unat ?f")
    case True
    then show ?thesis using p w(1) by simp
  next
    case False
    then obtain q where "?items ! i = Some q" "list_pointer q" "g (of_nat i + 1) = Some q"
      using inv i fs by (auto simp: pl_inv_def)
    moreover have "(of_nat i :: u32) \<noteq> ?f" using False i bound by (intro of_nat_neq) simp_all
    ultimately show ?thesis using False by simp
  qed
  have dom: "h \<noteq> 0 \<and> unat (h - 1) < unat (pNextEntry pl) \<and> unat (h - 1) \<notin> set is"
    if "(g(?f + 1 \<mapsto> p)) h \<noteq> None" for h
  proof (cases "h = ?f + 1")
    case True
    have "?f + 1 \<noteq> 0" using free by (metis add_eq_0_iff2 add.commute)
    then show ?thesis using True f by simp
  next
    case False
    then have "g h \<noteq> None" using that by simp
    then have "h \<noteq> 0 \<and> unat (h - 1) < unat (pNextEntry pl) \<and> unat (h - 1) \<notin> set fs"
      using inv unfolding pl_inv_def by blast
    then show ?thesis using fs by simp
  qed
  have "pl_inv ?pl (g(?f + 1 \<mapsto> p)) is"
    using inv fs w f cnt live dom by (simp add: pl_inv_def chain_update)
  then show ?thesis using add none fs by simp
qed

lemma insert_next:
  assumes inv: "pl_inv pl g fs" and p: "list_pointer p" and free: "pFreeEntry pl = - 1"
    and room: "unat (pNextEntry pl) < 2 ^ 30"
  shows "\<exists>pl'. PhAddItemPointerList pl p = Inr (PhpPointerListIndexToHandle (pNextEntry pl), pl') \<and>
    g (pNextEntry pl + 1) = None \<and> pl_inv pl' (g(pNextEntry pl + 1 \<mapsto> p)) fs"
proof -
  let ?n = "pNextEntry pl"
  have fs: "fs = []"
  proof (cases fs)
    case (Cons i "is")
    then have "unat (- 1 :: u32) = i" "i < unat ?n" using inv free by (auto simp: pl_inv_def)
    then show ?thesis using room by (simp add: unsigned_minus_1_eq_mask mask_eq_exp_minus_1)
  qed simp
  define grow where "grow \<longleftrightarrow> ?n = pAllocatedCount pl"
  define cap where "cap = (if grow then pAllocatedCount pl * 2 else pAllocatedCount pl)"
  define items where "items = (if grow then PhReAllocate (pItems pl) (unat cap) else pItems pl)"
  have len: "length (pItems pl) = unat (pAllocatedCount pl)" "unat ?n \<le> unat (pAllocatedCount pl)"
    "0 < unat (pAllocatedCount pl)" "unat (pAllocatedCount pl) \<le> 2 ^ 31"
    using inv by (auto simp: pl_inv_def)
  have cap: "unat cap \<le> 2 ^ 31" "unat ?n < unat cap" "unat (pAllocatedCount pl) \<le> unat cap"
  proof -
    have "unat (pAllocatedCount pl * 2) = 2 * unat (pAllocatedCount pl)" if grow
      using that room by (intro unat_double_u32) (simp add: grow_def)
    then show "unat cap \<le> 2 ^ 31" "unat ?n < unat cap" "unat (pAllocatedCount pl) \<le> unat cap"
      using len room by (auto simp: cap_def grow_def word_eq_unat)
  qed
  have items: "length items = unat cap" "\<And>i. i < unat ?n \<Longrightarrow> items ! i = pItems pl ! i"
    using len cap by (auto simp: items_def cap_def PhReAllocate_def nth_append)
  let ?pl = "pl\<lparr> pAllocatedCount := cap, pItems := items[unat ?n := Some p], pNextEntry := ?n + 1,
                 pCount := pCount pl + 1 \<rparr>"
  have add: "PhAddItemPointerList pl p = Inr (PhpPointerListIndexToHandle ?n, ?pl)"
  proof -
    have "unat ?n < length items" using items cap by simp
    then show ?thesis
      using free
      by (cases grow) (simp_all add: PhAddItemPointerList_def wr_slot_def Let_def grow_def items_def cap_def)
  qed
  have next1: "unat (?n + 1) = unat ?n + 1" using room by (intro count_suc) simp
  have cnt: "unat (pCount pl + 1) = unat (pCount pl) + 1"
    using inv fs room by (intro count_suc) (simp add: pl_inv_def)
  have none: "g (?n + 1) = None"
  proof (rule ccontr)
    assume "g (?n + 1) \<noteq> None"
    then have "unat (?n + 1 - 1) < unat ?n" using inv unfolding pl_inv_def by blast
    then show False by simp
  qed
  have live: "\<exists>q. (items[unat ?n := Some p]) ! i = Some q \<and> list_pointer q \<and>
      (g(?n + 1 \<mapsto> p)) (of_nat i + 1) = Some q" if i: "i < unat ?n + 1" for i
  proof (cases "i = unat ?n")
    case True
    then show ?thesis using p items cap by simp
  next
    case False
    then have "i < unat ?n" using i by simp
    then obtain q where "pItems pl ! i = Some q" "list_pointer q" "g (of_nat i + 1) = Some q"
      using inv fs by (auto simp: pl_inv_def)
    moreover have "(of_nat i :: u32) \<noteq> ?n" using False i room by (intro of_nat_neq) simp_all
    ultimately show ?thesis using False i items(2) [of i] by simp
  qed
  have dom: "h \<noteq> 0 \<and> unat (h - 1) < unat ?n + 1" if "(g(?n + 1 \<mapsto> p)) h \<noteq> None" for h
  proof (cases "h = ?n + 1")
    case True
    then show ?thesis using next1 by auto
  next
    case False
    then have "g h \<noteq> None" using that by simp
    then have "h \<noteq> 0 \<and> unat (h - 1) < unat (pNextEntry pl)"
      using inv unfolding pl_inv_def by blast
    then show ?thesis by simp
  qed
  have "pl_inv ?pl (g(?n + 1 \<mapsto> p)) fs"
    using inv fs items cap cnt next1 live dom by (simp add: pl_inv_def)
  then show ?thesis using add none by simp
qed

lemma remove_handle:
  assumes inv: "pl_inv pl g fs" and h: "g h \<noteq> None"
  shows "\<exists>pl'. PhRemoveItemPointerList pl (ucast h) = Inr pl' \<and> pl_inv pl' (g(h := None)) (unat (h - 1) # fs)"
proof -
  let ?i = "h - 1" and ?items = "pItems pl"
  have i: "h \<noteq> 0" "unat ?i < unat (pNextEntry pl)" "unat ?i \<notin> set fs"
    using inv h unfolding pl_inv_def by blast+
  have len: "length ?items = unat (pAllocatedCount pl)" "unat (pNextEntry pl) \<le> unat (pAllocatedCount pl)"
    "unat (pAllocatedCount pl) \<le> 2 ^ 31" using inv by (auto simp: pl_inv_def)
  let ?x = "PhpEncodePointerListIndex (pFreeEntry pl)"
  let ?pl = "pl\<lparr> pItems := ?items[unat ?i := Some ?x], pFreeEntry := ?i, pCount := pCount pl - 1 \<rparr>"
  have rm: "PhRemoveItemPointerList pl (ucast h) = Inr ?pl"
    using i len by (simp add: PhRemoveItemPointerList_def wr_slot_def Let_def)
  have used: "set fs \<subseteq> {..< unat (pNextEntry pl)} - {unat ?i}" "distinct fs"
    using inv i by (auto simp: pl_inv_def)
  then have "length fs \<le> card ({..< unat (pNextEntry pl)} - {unat ?i})"
    by (metis card_mono distinct_card finite_Diff finite_lessThan)
  then have "length fs < unat (pNextEntry pl)" using i by simp
  then have "0 < unat (pCount pl)" using inv by (simp add: pl_inv_def)
  then have cnt: "unat (pCount pl - 1) + 1 = unat (pCount pl)"
    by (subst unat_minus_one) auto
  have live: "\<exists>q. (?items[unat ?i := Some ?x]) ! k = Some q \<and> list_pointer q \<and>
      (g(h := None)) (of_nat k + 1) = Some q"
    if k: "k < unat (pNextEntry pl)" "k \<noteq> unat ?i" "k \<notin> set fs" for k
  proof -
    obtain q where q: "?items ! k = Some q" "list_pointer q" "g (of_nat k + 1) = Some q"
      using inv k by (auto simp: pl_inv_def)
    have "of_nat k + 1 \<noteq> h"
    proof
      assume "of_nat k + 1 = h"
      then have "?i = of_nat k" by (metis add_diff_cancel_right')
      then show False using k len unat_of_nat_u32 [of k] by simp
    qed
    then show ?thesis using q k by simp
  qed
  have dom: "h' \<noteq> 0 \<and> unat (h' - 1) < unat (pNextEntry pl) \<and> unat (h' - 1) \<noteq> unat ?i \<and> unat (h' - 1) \<notin> set fs"
    if "(g(h := None)) h' \<noteq> None" for h'
  proof -
    have "g h' \<noteq> None" "h' \<noteq> h" using that by (auto split: if_splits)
    then have "h' \<noteq> 0 \<and> unat (h' - 1) < unat (pNextEntry pl) \<and> unat (h' - 1) \<notin> set fs"
      using inv unfolding pl_inv_def by blast
    moreover have "unat (h' - 1) \<noteq> unat ?i" using \<open>h' \<noteq> h\<close> by (simp flip: word_eq_unat)
    ultimately show ?thesis by blast
  qed
  have "pl_inv ?pl (g(h := None)) (unat ?i # fs)"
    using inv i len cnt used live dom
    by (simp add: pl_inv_def chain_update) blast
  then show ?thesis using rm by blast
qed

lemma chain_slot: "chain items w is \<Longrightarrow> i \<in> set is \<Longrightarrow> \<exists>v. items ! i = Some (PhpEncodePointerListIndex v)"
  by (induction "is" arbitrary: w) auto

text \<open>What an entry below NextEntry holds.\<close>

lemma slot_below_next:
  assumes inv: "pl_inv pl g fs" and i: "unat i < unat (pNextEntry pl)"
  shows "\<exists>p. rd_slot (pItems pl) i = Inr p \<and>
    (case g (i + 1) of None \<Rightarrow> \<not> PH_IS_LIST_POINTER_VALID p | Some q \<Rightarrow> p = q \<and> list_pointer q)"
proof (cases "unat i \<in> set fs")
  case True
  then obtain w where "pItems pl ! unat i = Some (PhpEncodePointerListIndex w)"
    using inv chain_slot unfolding pl_inv_def by blast
  moreover have "g (i + 1) = None"
  proof (rule ccontr)
    assume "g (i + 1) \<noteq> None"
    then have "unat (i + 1 - 1) \<notin> set fs" using inv unfolding pl_inv_def by blast
    then show False using True by simp
  qed
  ultimately show ?thesis using inv i by (simp add: rd_slot_def pl_inv_def)
next
  case False
  then obtain p where "pItems pl ! unat i = Some p" "list_pointer p" "g (of_nat (unat i) + 1) = Some p"
    using inv i unfolding pl_inv_def by blast
  then show ?thesis using inv i by (simp add: rd_slot_def pl_inv_def)
qed

lemma get_ok:
  assumes inv: "pl_inv pl g fs"
  shows "PhGetItemPointerList pl handle = Inr (case g (ucast handle) of None \<Rightarrow> 0 | Some p \<Rightarrow> p)"
proof -
  let ?h = "ucast handle :: u32"
  have none: "g ?h = None" if "?h = 0 \<or> \<not> unat (?h - 1) < unat (pNextEntry pl)"
    using inv that unfolding pl_inv_def by blast
  show ?thesis
  proof (cases "handle = 0 \<or> \<not> unat (?h - 1) < unat (pNextEntry pl)")
    case True
    then have "?h = 0 \<or> \<not> unat (?h - 1) < unat (pNextEntry pl)" by auto
    then show ?thesis
      using True none
      by (auto simp: PhGetItemPointerList_def Let_def PhpPointerListHandleToIndex_def word_le_nat_alt)
  next
    case False
    then obtain p where "rd_slot (pItems pl) (?h - 1) = Inr p"
      "case g ?h of None \<Rightarrow> \<not> PH_IS_LIST_POINTER_VALID p | Some q \<Rightarrow> p = q \<and> list_pointer q"
      using slot_below_next [OF inv, of "?h - 1"] by auto
    then show ?thesis
      using False
      by (auto simp: PhGetItemPointerList_def Let_def PhpPointerListHandleToIndex_def word_le_nat_alt
          list_pointer_def split: option.splits)
  qed
qed

definition pl_insert :: "PH_POINTER_LIST \<Rightarrow> u64 \<Rightarrow> fault + (u32 \<times> PH_POINTER_LIST)" where
  "pl_insert pl p =
     (case PhAddItemPointerList pl p of Inl f \<Rightarrow> Inl f | Inr (h, pl') \<Rightarrow> Inr (ucast h, pl'))"

definition pl_lookup :: "PH_POINTER_LIST \<Rightarrow> u32 \<Rightarrow> fault + u64 option" where
  "pl_lookup pl h =
     (case PhGetItemPointerList pl (ucast h) of
        Inl f \<Rightarrow> Inl f | Inr p \<Rightarrow> Inr (if p = 0 then None else Some p))"

lemma pl_insert_ok:
  assumes "pl_rep pl g" and "list_pointer p" and "pl_room pl"
  shows "\<exists>h pl'. pl_insert pl p = Inr (h, pl') \<and> g h = None \<and> pl_rep pl' (g(h \<mapsto> p))"
proof -
  obtain fs where inv: "pl_inv pl g fs" using assms(1) by (auto simp: pl_rep_def)
  show ?thesis
  proof (cases "pFreeEntry pl = - 1")
    case True
    then have "unat (pNextEntry pl) < 2 ^ 30" using assms(3) by (simp add: pl_room_def)
    from insert_next [OF inv assms(2) True this] show ?thesis
      by (auto simp: pl_insert_def pl_rep_def)
  next
    case False
    from insert_reuse [OF inv assms(2) False] show ?thesis by (auto simp: pl_insert_def pl_rep_def)
  qed
qed

lemma pl_lookup_ok: "pl_rep pl g \<Longrightarrow> pl_lookup pl h = Inr (g h)"
proof -
  assume "pl_rep pl g"
  then obtain fs where inv: "pl_inv pl g fs" by (auto simp: pl_rep_def)
  have "list_pointer p" if "g h = Some p" for p
  proof -
    have "unat (h - 1) < unat (pNextEntry pl)" using inv that unfolding pl_inv_def by blast
    from slot_below_next [OF inv this] that show ?thesis by auto
  qed
  then show ?thesis
    by (auto simp: pl_lookup_def get_ok [OF inv] list_pointer_def split: option.splits)
qed

interpretation pointer_list: handle_table pl_rep list_pointer pl_room pl_insert pl_lookup
  "\<lambda>pl h. PhRemoveItemPointerList pl (ucast h)"
proof unfold_locales
  show "\<exists>pl'. PhRemoveItemPointerList pl (ucast h) = Inr pl' \<and> pl_rep pl' (g(h := None))"
    if "pl_rep pl g" "g h \<noteq> None" for pl g and h :: u32
    using that remove_handle unfolding pl_rep_def by blast
qed (rule pl_insert_ok pl_lookup_ok; assumption)+

lemma pl_rep_create:
  assumes "unat n \<le> 2 ^ 31" shows "pl_rep (PhCreatePointerList n) (\<lambda>_. None)"
  unfolding pl_rep_def
  by (rule exI [of _ "[]"])
     (use assms in \<open>auto simp: pl_inv_def PhCreatePointerList_def PhAllocate_def Let_def unat_gt_0\<close>)

lemma get_rep: "pl_rep pl g \<Longrightarrow> PhGetItemPointerList pl k = Inr (case g (ucast k) of None \<Rightarrow> 0 | Some p \<Rightarrow> p)"
  using get_ok by (auto simp: pl_rep_def)

lemma add_handle:
  assumes "PhAddItemPointerList pl p = Inr (k, pl')"
  shows "k = ucast (ucast k :: u32)"
proof -
  have "k = PhpPointerListIndexToHandle (pFreeEntry pl) \<or> k = PhpPointerListIndexToHandle (pNextEntry pl)"
    using assms
    by (auto simp: PhAddItemPointerList_def Let_def split: if_splits sum.splits)
  then show ?thesis by (auto simp: PhpPointerListIndexToHandle_def)
qed

section \<open>Properties\<close>

text \<open>
  C27: Handles are stable. In a list with room, where a free entry is left or fewer than 2^30 entries
  were ever used, adding a pointer, one that is not NULL and has its lowest bit clear, returns a 32-bit
  handle that led nowhere before and leads to the pointer now. Every 64-bit value with other low 32
  bits, whether a valid, a stale or a forged handle, keeps leading where it led; one with the same low
  32 bits is the same handle, for the code looks at these only. Removing the handle again restores what
  every value leads to, and the handle leads nowhere.
\<close>

theorem pointer_list_handles:
  assumes rep: "pl_rep pl g" and p: "list_pointer p" and room: "pl_room pl"
  shows "\<exists>h pl' pl''. PhAddItemPointerList pl p = Inr (ucast (h :: u32), pl') \<and>
    PhGetItemPointerList pl (ucast h) = Inr 0 \<and> PhGetItemPointerList pl' (ucast h) = Inr p \<and>
    (\<forall>k. (ucast k :: u32) \<noteq> h \<longrightarrow> PhGetItemPointerList pl' k = PhGetItemPointerList pl k) \<and>
    PhRemoveItemPointerList pl' (ucast h) = Inr pl'' \<and>
    (\<forall>k. PhGetItemPointerList pl'' k = PhGetItemPointerList pl k) \<and> pl_rep pl'' g"
proof -
  obtain h pl' where ins: "pl_insert pl p = Inr (h, pl')" "g h = None" "pl_rep pl' (g(h \<mapsto> p))"
    using pointer_list.insert_ok [OF assms] by blast
  obtain pl'' where del: "PhRemoveItemPointerList pl' (ucast h) = Inr pl''" "pl_rep pl'' ((g(h \<mapsto> p))(h := None))"
    using pointer_list.delete_ok [OF ins(3), of h] by auto
  moreover have g: "(g(h \<mapsto> p))(h := None) = g" using ins(2) by auto
  moreover obtain k where "PhAddItemPointerList pl p = Inr (k, pl')" "h = ucast k"
    using ins(1) by (auto simp: pl_insert_def split: sum.splits)
  then have "PhAddItemPointerList pl p = Inr (ucast h, pl')" using add_handle by metis
  ultimately show ?thesis
    using get_rep [OF rep] get_rep [OF ins(3)] get_rep [OF del(2)] ins(2) by (auto simp: g)
qed

theorem pointer_list_handles_witness:
  "\<exists>h pl'. PhAddItemPointerList (PhCreatePointerList 1) 16 = Inr (ucast (h :: u32), pl') \<and>
     PhGetItemPointerList pl' (ucast h) = Inr 16"
proof -
  have new: "pl_rep (PhCreatePointerList 1) (\<lambda>_. None)" by (rule pl_rep_create) simp
  have "list_pointer 16" by (simp add: list_pointer_def PH_IS_LIST_POINTER_VALID_def)
  moreover have "pl_room (PhCreatePointerList 1)" by (simp add: pl_room_def PhCreatePointerList_def)
  ultimately show ?thesis using pointer_list_handles [OF new] by blast
qed

lemma enum_from_ok:
  assumes inv: "pl_inv pl g fs"
  shows "unat key + n = unat (pNextEntry pl) \<Longrightarrow>
    \<exists>key' r. enum_from (pItems pl) key n = Inr (key', r) \<and>
      (case r of
         None \<Rightarrow> \<forall>i. key \<le> i \<longrightarrow> g (i + 1) = None
       | Some (p, h) \<Rightarrow> key < key' \<and> h = ucast key' \<and> g key' = Some p \<and>
           (\<forall>i. key \<le> i \<and> i < key' - 1 \<longrightarrow> g (i + 1) = None))"
proof (induction n arbitrary: key)
  case 0
  have "g (i + 1) = None" if "key \<le> i" for i
  proof (rule ccontr)
    assume "g (i + 1) \<noteq> None"
    then have "unat (i + 1 - 1) < unat (pNextEntry pl)" using inv unfolding pl_inv_def by blast
    then show False using that 0 by (simp add: word_le_nat_alt)
  qed
  then show ?case by simp
next
  case (Suc n)
  have lt: "unat key < unat (pNextEntry pl)" using Suc.prems by simp
  have bound: "unat (pNextEntry pl) \<le> 2147483648" using inv by (simp add: pl_inv_def)
  have next1: "unat (key + 1) = unat key + 1" using lt bound by (intro count_suc) linarith
  obtain p where p: "rd_slot (pItems pl) key = Inr p"
    "case g (key + 1) of None \<Rightarrow> \<not> PH_IS_LIST_POINTER_VALID p | Some q \<Rightarrow> p = q \<and> list_pointer q"
    using slot_below_next [OF inv lt] by blast
  show ?case
  proof (cases "g (key + 1)")
    case (Some q)
    then show ?thesis
      using p next1
      by (auto simp: list_pointer_def PhpPointerListIndexToHandle_def word_less_nat_alt word_le_nat_alt)
  next
    case None
    obtain key' r where e: "enum_from (pItems pl) (key + 1) n = Inr (key', r)"
      "case r of None \<Rightarrow> \<forall>i. key + 1 \<le> i \<longrightarrow> g (i + 1) = None
       | Some (p, h) \<Rightarrow> key + 1 < key' \<and> h = ucast key' \<and> g key' = Some p \<and>
           (\<forall>i. key + 1 \<le> i \<and> i < key' - 1 \<longrightarrow> g (i + 1) = None)"
      using Suc.IH [of "key + 1"] Suc.prems next1 by auto
    have "key \<le> i \<Longrightarrow> i = key \<or> key + 1 \<le> i" for i
      using next1 by (auto simp: word_le_nat_alt word_eq_unat)
    then have "case r of None \<Rightarrow> \<forall>i. key \<le> i \<longrightarrow> g (i + 1) = None
       | Some (p, h) \<Rightarrow> key < key' \<and> h = ucast key' \<and> g key' = Some p \<and>
           (\<forall>i. key \<le> i \<and> i < key' - 1 \<longrightarrow> g (i + 1) = None)"
      using e(2) None next1 by (auto simp: word_less_nat_alt split: option.splits)
    then show ?thesis using e(1) p None by auto
  qed
qed

text \<open>
  Enumeration is complete. From any key at most NextEntry a call returns the first pointer at or
  behind the key together with its handle and a greater key, or reports the end, and then no handle at or
  behind the key leads anywhere. So calls that start from key 0 yield every pointer exactly once.
\<close>

theorem pointer_list_enumeration:
  assumes rep: "pl_rep pl g" and key: "key \<le> pNextEntry pl"
  shows "\<exists>key' r. PhEnumPointerListEx pl key = Inr (key', r) \<and>
    (case r of
       None \<Rightarrow> \<forall>i. key \<le> i \<longrightarrow> g (i + 1) = None
     | Some (p, h) \<Rightarrow> key < key' \<and> h = ucast key' \<and> g key' = Some p \<and>
         (\<forall>i. key \<le> i \<and> i < key' - 1 \<longrightarrow> g (i + 1) = None))"
proof -
  obtain fs where inv: "pl_inv pl g fs" using rep by (auto simp: pl_rep_def)
  have "unat key + (unat (pNextEntry pl) - unat key) = unat (pNextEntry pl)"
    using key by (simp add: word_le_nat_alt)
  from enum_from_ok [OF inv this] show ?thesis by (simp add: PhEnumPointerListEx_def)
qed

theorem pointer_list_enumeration_witness:
  "\<exists>key'. PhEnumPointerListEx (PhCreatePointerList 1) 0 = Inr (key', None)"
proof -
  have new: "pl_rep (PhCreatePointerList 1) (\<lambda>_. None)" by (rule pl_rep_create) simp
  have "0 \<le> pNextEntry (PhCreatePointerList 1)" by simp
  from pointer_list_enumeration [OF new this] obtain key' r
    where e: "PhEnumPointerListEx (PhCreatePointerList 1) 0 = Inr (key', r)"
      and "case r of None \<Rightarrow> True | Some (p :: u64, h :: u64) \<Rightarrow> False"
    by (auto split: option.splits)
  then have "r = None" by (cases r) auto
  with e show ?thesis by blast
qed

end
