(* ===== verification/Hashtable.thy ===== *)
theory Hashtable
  imports Sequences
begin

unbundle bit_operations_syntax

text \<open>
  PH_HASHTABLE and the simple hashtable of ProcessHacker/phlib/basesup.c: an array of entries that
  are linked by index, per bucket and in a list of free entries. The user data of an entry is a value
  of the type \<open>'e\<close>; comparison and hash function are those given on creation. A result None means
  that a step would access storage outside its bounds or uninitialised, or that a chain never ends.
\<close>

section \<open>The code\<close>

definition PhRoundUpToPowerOfTwo :: "u32 \<Rightarrow> u32" where
  "PhRoundUpToPowerOfTwo Number =
     (let n = Number - 1; n = n OR drop_bit 1 n; n = n OR drop_bit 2 n; n = n OR drop_bit 4 n;
          n = n OR drop_bit 8 n; n = n OR drop_bit 16 n in n + 1)"

record 'e PH_HASHTABLE_ENTRY =
  HashCode :: u32
  NextIndex :: u32
  Body :: 'e

record 'e PH_HASHTABLE =
  EqualFunction :: "'e \<Rightarrow> 'e \<Rightarrow> bool"
  HashFunction :: "'e \<Rightarrow> u32"
  AllocatedBuckets :: u32
  Buckets :: "u32 list"
  AllocatedEntries :: u32
  Entries :: "'e PH_HASHTABLE_ENTRY slots"
  hCount :: u32
  FreeEntry :: u32
  NextEntry :: u32

definition PhpValidateHash :: "u32 \<Rightarrow> u32" where
  "PhpValidateHash h = h AND 0x7FFFFFFF"

definition PhpIndexFromHash :: "'e PH_HASHTABLE \<Rightarrow> u32 \<Rightarrow> u32" where
  "PhpIndexFromHash h hash = hash AND (AllocatedBuckets h - 1)"

definition PhpGetNumberOfBuckets :: "u32 \<Rightarrow> u32" where
  "PhpGetNumberOfBuckets Capacity = PhRoundUpToPowerOfTwo Capacity"

definition PhCreateHashtable :: "('e \<Rightarrow> 'e \<Rightarrow> bool) \<Rightarrow> ('e \<Rightarrow> u32) \<Rightarrow> u32 \<Rightarrow> 'e PH_HASHTABLE" where
  "PhCreateHashtable eq hash InitialCapacity =
     (let cap = (if InitialCapacity = 0 then 1 else InitialCapacity); n = PhpGetNumberOfBuckets cap in
      \<lparr> EqualFunction = eq, HashFunction = hash, AllocatedBuckets = n, Buckets = replicate (unat n) (- 1),
        AllocatedEntries = n, Entries = PhAllocate (unat n), hCount = 0, FreeEntry = - 1, NextEntry = 0 \<rparr>)"

definition get_entry :: "'e PH_HASHTABLE \<Rightarrow> u32 \<Rightarrow> 'e PH_HASHTABLE_ENTRY option" where
  "get_entry h i = (if unat i < length (Entries h) then Entries h ! unat i else None)"

definition put_entry :: "'e PH_HASHTABLE \<Rightarrow> u32 \<Rightarrow> 'e PH_HASHTABLE_ENTRY \<Rightarrow> 'e PH_HASHTABLE option" where
  "put_entry h i e = (if unat i < length (Entries h)
                      then Some (h\<lparr> Entries := (Entries h)[unat i := Some e] \<rparr>) else None)"

definition get_bucket :: "'e PH_HASHTABLE \<Rightarrow> u32 \<Rightarrow> u32 option" where
  "get_bucket h i = (if unat i < length (Buckets h) then Some (Buckets h ! unat i) else None)"

definition put_bucket :: "'e PH_HASHTABLE \<Rightarrow> u32 \<Rightarrow> u32 \<Rightarrow> 'e PH_HASHTABLE option" where
  "put_bucket h i v = (if unat i < length (Buckets h)
                       then Some (h\<lparr> Buckets := (Buckets h)[unat i := v] \<rparr>) else None)"

text \<open>The loop that links the entries below NextEntry into new buckets; \<open>n\<close> of them are left.\<close>

fun redistribute :: "'e PH_HASHTABLE \<Rightarrow> u32 \<Rightarrow> nat \<Rightarrow> 'e PH_HASHTABLE option" where
  "redistribute h i 0 = Some h"
| "redistribute h i (Suc n) =
     Option.bind (get_entry h i) (\<lambda>e.
       if HashCode e \<noteq> - 1 then
         let index = PhpIndexFromHash h (HashCode e) in
         Option.bind (get_bucket h index) (\<lambda>b.
         Option.bind (put_entry h i (e\<lparr> NextIndex := b \<rparr>)) (\<lambda>h1.
         Option.bind (put_bucket h1 index i) (\<lambda>h2. redistribute h2 (i + 1) n)))
       else redistribute h (i + 1) n)"

definition PhpResizeHashtable :: "'e PH_HASHTABLE \<Rightarrow> u32 \<Rightarrow> 'e PH_HASHTABLE option" where
  "PhpResizeHashtable h NewCapacity =
     (let n = PhpGetNumberOfBuckets NewCapacity in
      redistribute
        (h\<lparr> AllocatedBuckets := n, Buckets := replicate (unat n) (- 1), AllocatedEntries := n,
            Entries := PhReAllocate (Entries h) (unat n) \<rparr>) 0 (unat (NextEntry h)))"

text \<open>The loop along a bucket for an entry: the index found (None inside), or no result.\<close>

partial_function (option) find_loop :: "'e PH_HASHTABLE \<Rightarrow> u32 \<Rightarrow> 'e \<Rightarrow> u32 \<Rightarrow> u32 option option" where
  "find_loop h hashCode entry i =
     (if i = - 1 then Some None
      else Option.bind (get_entry h i) (\<lambda>e.
        if HashCode e = hashCode \<and> EqualFunction h (Body e) entry then Some (Some i)
        else find_loop h hashCode entry (NextIndex e)))"

definition PhFindEntryHashtable :: "'e PH_HASHTABLE \<Rightarrow> 'e \<Rightarrow> u32 option option" where
  "PhFindEntryHashtable h entry =
     (let hashCode = PhpValidateHash (HashFunction h entry) in
      Option.bind (get_bucket h (PhpIndexFromHash h hashCode)) (find_loop h hashCode entry))"

text \<open>A free entry for a new one: the hashtable, the entry's index and the bucket's index.\<close>

definition take_entry :: "'e PH_HASHTABLE \<Rightarrow> u32 \<Rightarrow> ('e PH_HASHTABLE \<times> u32) option" where
  "take_entry h hashCode =
     (if FreeEntry h \<noteq> - 1 then
        Option.bind (get_entry h (FreeEntry h)) (\<lambda>e. Some (h\<lparr> FreeEntry := NextIndex e \<rparr>, FreeEntry h))
      else
        Option.bind (if NextEntry h = AllocatedEntries h
                     then PhpResizeHashtable h (AllocatedBuckets h * 2) else Some h) (\<lambda>h1.
          Some (h1\<lparr> NextEntry := NextEntry h1 + 1 \<rparr>, NextEntry h1)))"

text \<open>The result: the index of the entry, whether it was added, and the hashtable.\<close>

definition PhpAddEntryHashtable :: "'e PH_HASHTABLE \<Rightarrow> 'e \<Rightarrow> bool \<Rightarrow> (u32 \<times> bool \<times> 'e PH_HASHTABLE) option" where
  "PhpAddEntryHashtable h entry CheckForDuplicate =
     (let hashCode = PhpValidateHash (HashFunction h entry) in
      Option.bind (get_bucket h (PhpIndexFromHash h hashCode)) (\<lambda>b.
      Option.bind (if CheckForDuplicate then find_loop h hashCode entry b else Some None) (\<lambda>dup.
      case dup of
        Some i \<Rightarrow> Some (i, False, h)
      | None \<Rightarrow>
          Option.bind (take_entry h hashCode) (\<lambda>(h1, freeEntry).
          Option.bind (get_bucket h1 (PhpIndexFromHash h1 hashCode)) (\<lambda>b1.
          Option.bind (put_entry h1 freeEntry \<lparr> HashCode = hashCode, NextIndex = b1, Body = entry \<rparr>) (\<lambda>h2.
          Option.bind (put_bucket h2 (PhpIndexFromHash h1 hashCode) freeEntry) (\<lambda>h3.
          Some (freeEntry, True, h3\<lparr> hCount := hCount h3 + 1 \<rparr>))))))))"

text \<open>None inside is the NULL of a duplicate.\<close>

definition PhAddEntryHashtable :: "'e PH_HASHTABLE \<Rightarrow> 'e \<Rightarrow> (u32 option \<times> 'e PH_HASHTABLE) option" where
  "PhAddEntryHashtable h entry =
     map_option (\<lambda>(i, added, h'). (if added then Some i else None, h')) (PhpAddEntryHashtable h entry True)"

definition PhAddEntryHashtableEx :: "'e PH_HASHTABLE \<Rightarrow> 'e \<Rightarrow> (u32 \<times> bool \<times> 'e PH_HASHTABLE) option" where
  "PhAddEntryHashtableEx h entry = PhpAddEntryHashtable h entry True"

definition PhClearHashtable :: "'e PH_HASHTABLE \<Rightarrow> 'e PH_HASHTABLE" where
  "PhClearHashtable h =
     (if hCount h > 0
      then h\<lparr> Buckets := replicate (unat (AllocatedBuckets h)) (- 1), hCount := 0, FreeEntry := - 1,
              NextEntry := 0 \<rparr>
      else h)"

fun enum_loop :: "'e PH_HASHTABLE \<Rightarrow> u32 \<Rightarrow> nat \<Rightarrow> (u32 \<times> 'e option) option" where
  "enum_loop h key 0 = Some (key, None)"
| "enum_loop h key (Suc n) =
     Option.bind (get_entry h key) (\<lambda>e.
       if HashCode e \<noteq> - 1 then Some (key + 1, Some (Body e)) else enum_loop h (key + 1) n)"

definition PhEnumHashtable :: "'e PH_HASHTABLE \<Rightarrow> u32 \<Rightarrow> (u32 \<times> 'e option) option" where
  "PhEnumHashtable h key = enum_loop h key (unat (NextEntry h) - unat key)"

partial_function (option) remove_loop ::
  "'e PH_HASHTABLE \<Rightarrow> u32 \<Rightarrow> 'e \<Rightarrow> u32 \<Rightarrow> u32 \<Rightarrow> (u32 \<times> u32 \<times> 'e PH_HASHTABLE_ENTRY) option option" where
  "remove_loop h hashCode entry i previousIndex =
     (if i = - 1 then Some None
      else Option.bind (get_entry h i) (\<lambda>e.
        if HashCode e = hashCode \<and> EqualFunction h (Body e) entry then Some (Some (i, previousIndex, e))
        else remove_loop h hashCode entry (NextIndex e) i))"

definition PhRemoveEntryHashtable :: "'e PH_HASHTABLE \<Rightarrow> 'e \<Rightarrow> (bool \<times> 'e PH_HASHTABLE) option" where
  "PhRemoveEntryHashtable h entry =
     (let hashCode = PhpValidateHash (HashFunction h entry); index = PhpIndexFromHash h hashCode in
      Option.bind (get_bucket h index) (\<lambda>b.
      Option.bind (remove_loop h hashCode entry b (- 1)) (\<lambda>found.
      case found of
        None \<Rightarrow> Some (False, h)
      | Some (i, previousIndex, e) \<Rightarrow>
          Option.bind
            (if previousIndex = - 1 then put_bucket h index (NextIndex e)
             else Option.bind (get_entry h previousIndex) (\<lambda>p.
                    put_entry h previousIndex (p\<lparr> NextIndex := NextIndex e \<rparr>))) (\<lambda>h1.
          Option.bind (put_entry h1 i (e\<lparr> HashCode := - 1, NextIndex := FreeEntry h1 \<rparr>)) (\<lambda>h2.
          Some (True, h2\<lparr> FreeEntry := i, hCount := hCount h2 - 1 \<rparr>))))))"

section \<open>The simple hashtable\<close>

record PH_KEY_VALUE_PAIR =
  Key :: u64
  Value :: u64

definition PhHashInt64 :: "u64 \<Rightarrow> u32" where
  "PhHashInt64 v =
     (let v = NOT v + push_bit 18 v; v = v XOR drop_bit 31 v; v = v * 21; v = v XOR drop_bit 11 v;
          v = v + push_bit 6 v; v = v XOR drop_bit 22 v in ucast v)"

definition PhHashIntPtr :: "u64 \<Rightarrow> u32" where
  "PhHashIntPtr v = PhHashInt64 v"

definition PhpSimpleHashtableEqualFunction :: "PH_KEY_VALUE_PAIR \<Rightarrow> PH_KEY_VALUE_PAIR \<Rightarrow> bool" where
  "PhpSimpleHashtableEqualFunction e1 e2 \<longleftrightarrow> Key e1 = Key e2"

definition PhpSimpleHashtableHashFunction :: "PH_KEY_VALUE_PAIR \<Rightarrow> u32" where
  "PhpSimpleHashtableHashFunction e = PhHashIntPtr (Key e)"

definition PhCreateSimpleHashtable :: "u32 \<Rightarrow> PH_KEY_VALUE_PAIR PH_HASHTABLE" where
  "PhCreateSimpleHashtable InitialCapacity =
     PhCreateHashtable PhpSimpleHashtableEqualFunction PhpSimpleHashtableHashFunction InitialCapacity"

definition PhAddItemSimpleHashtable ::
  "PH_KEY_VALUE_PAIR PH_HASHTABLE \<Rightarrow> u64 \<Rightarrow> u64 \<Rightarrow> (u64 \<times> PH_KEY_VALUE_PAIR PH_HASHTABLE) option" where
  "PhAddItemSimpleHashtable h k v =
     map_option (\<lambda>(r, h'). (if r \<noteq> None then v else 0, h')) (PhAddEntryHashtable h \<lparr> Key = k, Value = v \<rparr>)"

text \<open>
  The look-up entry has no value; the functions read only its key, and 0 stands for the
  uninitialised member. The result is the index of the entry whose Value is pointed to.
\<close>

definition PhFindItemSimpleHashtable ::
  "PH_KEY_VALUE_PAIR PH_HASHTABLE \<Rightarrow> u64 \<Rightarrow> u32 option option" where
  "PhFindItemSimpleHashtable h k = PhFindEntryHashtable h \<lparr> Key = k, Value = 0 \<rparr>"

definition PhRemoveItemSimpleHashtable ::
  "PH_KEY_VALUE_PAIR PH_HASHTABLE \<Rightarrow> u64 \<Rightarrow> (bool \<times> PH_KEY_VALUE_PAIR PH_HASHTABLE) option" where
  "PhRemoveItemSimpleHashtable h k = PhRemoveEntryHashtable h \<lparr> Key = k, Value = 0 \<rparr>"

section \<open>Powers of two\<close>

lemma smear_step:
  assumes "\<And>i. bit n i \<longleftrightarrow> (\<exists>d < m. bit (x :: u32) (i + d))"
  shows "bit (n OR drop_bit m n) i \<longleftrightarrow> (\<exists>d < m + m. bit x (i + d))"
proof -
  have "bit (n OR drop_bit m n) i \<longleftrightarrow> (\<exists>d < m. bit x (i + d)) \<or> (\<exists>d < m. bit x (m + i + d))"
    using assms by (simp add: bit_simps)
  also have "\<dots> \<longleftrightarrow> (\<exists>d < m + m. bit x (i + d))"
  proof safe
    fix d assume "d < m" "bit x (m + i + d)"
    then show "\<exists>d < m + m. bit x (i + d)" by (intro exI [of _ "m + d"]) (simp add: ac_simps)
  next
    fix d assume d: "d < m + m" "bit x (i + d)" and no: "\<nexists>d. d < m \<and> bit x (m + i + d)"
    show "\<exists>d < m. bit x (i + d)"
    proof (cases "d < m")
      case False
      then have "m + i + (d - m) = i + d" "d - m < m" using d by auto
      then show ?thesis using no d by metis
    qed (use d in blast)
  next
    fix d assume "d < m" "bit x (i + d)"
    then show "\<exists>d < m + m. bit x (i + d)" by (intro exI [of _ d]) simp
  qed
  finally show ?thesis .
qed

lemma round_up_bits:
  obtains y where "PhRoundUpToPowerOfTwo n = y + 1" "\<And>i. bit y i \<longleftrightarrow> (\<exists>d < 32. bit (n - 1) (i + d))"
proof -
  define x where "x = n - 1"
  define y1 where "y1 = x OR drop_bit 1 x"
  define y2 where "y2 = y1 OR drop_bit 2 y1"
  define y3 where "y3 = y2 OR drop_bit 4 y2"
  define y4 where "y4 = y3 OR drop_bit 8 y3"
  define y where "y = y4 OR drop_bit 16 y4"
  have b1: "bit y1 i \<longleftrightarrow> (\<exists>d < 2. bit x (i + d))" for i
    using smear_step [of x 1 x i] by (simp add: y1_def numeral_2_eq_2)
  have b2: "bit y2 i \<longleftrightarrow> (\<exists>d < 4. bit x (i + d))" for i
    using smear_step [of y1 2 x i, OF b1] by (simp add: y2_def)
  have b3: "bit y3 i \<longleftrightarrow> (\<exists>d < 8. bit x (i + d))" for i
    using smear_step [of y2 4 x i, OF b2] by (simp add: y3_def)
  have b4: "bit y4 i \<longleftrightarrow> (\<exists>d < 16. bit x (i + d))" for i
    using smear_step [of y3 8 x i, OF b3] by (simp add: y4_def)
  have "bit y i \<longleftrightarrow> (\<exists>d < 32. bit x (i + d))" for i
    using smear_step [of y4 16 x i, OF b4] by (simp add: y_def)
  moreover have "PhRoundUpToPowerOfTwo n = y + 1"
    by (simp only: PhRoundUpToPowerOfTwo_def Let_def x_def y_def y4_def y3_def y2_def y1_def)
  ultimately show ?thesis using that by (simp add: x_def)
qed

lemma round_up_power:
  assumes "0 < unat n" "unat n \<le> 2 ^ 31"
  obtains k where "k \<le> 31" "PhRoundUpToPowerOfTwo n = 2 ^ k" "unat n \<le> 2 ^ k" "2 ^ k < 2 * unat n"
proof -
  define x where "x = n - 1"
  have ux: "unat x = unat n - 1" using assms(1) by (simp add: x_def unat_minus_one unat_gt_0)
  obtain y where r: "PhRoundUpToPowerOfTwo n = y + 1" and y: "\<And>i. bit y i \<longleftrightarrow> (\<exists>d < 32. bit x (i + d))"
    using round_up_bits [of n] by (auto simp: x_def)
  show thesis
  proof (cases "unat x = 0")
    case True
    then have "x = 0" by (simp add: unat_eq_zero)
    then have "y = 0" using y by (intro bit_eqI) simp
    then show ?thesis using that [of 0] r ux True assms by simp
  next
    case False
    then obtain k where k: "2 ^ k \<le> unat x" "unat x < 2 ^ (k + 1)"
      using ex_power_ivl1 [of 2 "unat x"] by auto
    have "(2 :: nat) ^ k < 2 ^ 31" using k(1) ux assms by linarith
    then have "k < 31" by (rule power_less_imp_less_exp [rotated]) simp
    have bits: "bit x j \<longleftrightarrow> odd (unat x div 2 ^ j)" for j
      using bit_unsigned_iff [of x j, where 'a = nat] bit_iff_odd [of "unat x" j] by simp
    have "bit y i \<longleftrightarrow> i < k + 1" for i
    proof
      assume "bit y i"
      then obtain d where "odd (unat x div 2 ^ (i + d))" using y bits by auto
      then have "unat x div 2 ^ (i + d) \<noteq> 0" by (metis even_zero)
      then have "2 ^ (i + d) \<le> unat x" by (simp add: div_eq_0_iff)
      then have "(2 :: nat) ^ (i + d) < 2 ^ (k + 1)" using k(2) by linarith
      then have "i + d < k + 1" by (rule power_less_imp_less_exp [rotated]) simp
      then show "i < k + 1" by simp
    next
      assume "i < k + 1"
      have "unat x div 2 ^ k = 1" using k by (intro div_nat_eqI) auto
      then have "bit x (i + (k - i))" using bits \<open>i < k + 1\<close> by simp
      moreover have "k - i < 32" using \<open>k < 31\<close> by simp
      ultimately show "bit y i" using y by blast
    qed
    then have "y = mask (k + 1)" using \<open>k < 31\<close> by (intro bit_eqI) (auto simp: bit_mask_iff)
    then have "PhRoundUpToPowerOfTwo n = 2 ^ (k + 1)" using r by (simp add: mask_eq_exp_minus_1)
    then show ?thesis
      using that [of "k + 1"] k ux \<open>k < 31\<close> assms by simp
  qed
qed

section \<open>Chains\<close>

fun hchain :: "'e PH_HASHTABLE_ENTRY slots \<Rightarrow> u32 \<Rightarrow> nat list \<Rightarrow> bool" where
  "hchain es i [] \<longleftrightarrow> i = - 1"
| "hchain es i (k # ks) \<longleftrightarrow>
     unat i = k \<and> k < length es \<and> (\<exists>e. es ! k = Some e \<and> hchain es (NextIndex e) ks)"

definition ent :: "'e PH_HASHTABLE \<Rightarrow> nat \<Rightarrow> 'e PH_HASHTABLE_ENTRY" where
  "ent h i = the (Entries h ! i)"

definition bucket_of :: "'e PH_HASHTABLE \<Rightarrow> u32 \<Rightarrow> nat" where
  "bucket_of h hash = unat (PhpIndexFromHash h hash)"

text \<open>
  The entries with the indexes \<open>U\<close> are linked into the buckets: \<open>ch b\<close> is the chain of the bucket
  \<open>b\<close>, and holds exactly those of \<open>U\<close> whose hash code belongs there.
\<close>

definition linked :: "'e PH_HASHTABLE \<Rightarrow> nat set \<Rightarrow> (nat \<Rightarrow> nat list) \<Rightarrow> bool" where
  "linked h U ch \<longleftrightarrow>
     (\<exists>k \<le> 31. AllocatedBuckets h = 2 ^ k) \<and> length (Buckets h) = unat (AllocatedBuckets h) \<and>
     length (Entries h) = unat (AllocatedBuckets h) \<and>
     (\<forall>j \<in> U. j < length (Entries h) \<and> Entries h ! j \<noteq> None) \<and>
     (\<forall>b < unat (AllocatedBuckets h).
        hchain (Entries h) (Buckets h ! b) (ch b) \<and> distinct (ch b) \<and>
        set (ch b) = {j \<in> U. bucket_of h (HashCode (ent h j)) = b})"

lemma hchain_cong:
  "hchain es i ks \<Longrightarrow> (\<And>k. k \<in> set ks \<Longrightarrow> k < length es' \<and> es' ! k = es ! k) \<Longrightarrow> hchain es' i ks"
  by (induction ks arbitrary: i) auto

lemma hchain_member: "hchain es i ks \<Longrightarrow> k \<in> set ks \<Longrightarrow> k < length es \<and> es ! k \<noteq> None"
  by (induction ks arbitrary: i) auto

lemma hchain_update:
  assumes "k \<notin> set ks" and "hchain es i ks" shows "hchain (es[k := x]) i ks"
proof (rule hchain_cong [OF assms(2)])
  fix j assume j: "j \<in> set ks"
  then have "j \<noteq> k" using assms(1) by auto
  then show "j < length (es[k := x]) \<and> es[k := x] ! j = es ! j" using hchain_member [OF assms(2) j] by simp
qed

lemma unat_power: "k < LENGTH('a) \<Longrightarrow> unat (2 ^ k :: 'a::len word) = 2 ^ k"
  using unsigned_push_bit_eq [of k "1 :: 'a word", where 'a = nat]
  by (simp add: push_bit_eq_mult take_bit_nat_eq_self)

lemma bucket_of_less:
  assumes "AllocatedBuckets h = 2 ^ k" and "k \<le> 31"
  shows "bucket_of h hash < unat (AllocatedBuckets h)"
proof -
  have "hash AND (AllocatedBuckets h - 1) = take_bit k hash"
    by (simp add: assms(1) take_bit_eq_mask mask_eq_exp_minus_1)
  then have "bucket_of h hash = take_bit k (unat hash)"
    by (simp add: bucket_of_def PhpIndexFromHash_def unsigned_take_bit_eq)
  then show ?thesis using assms by (simp add: unat_power)
qed

lemma linked_bucket_less: "linked h U ch \<Longrightarrow> bucket_of h hash < unat (AllocatedBuckets h)"
  using bucket_of_less by (auto simp: linked_def)

lemma linked_fields [simp]:
  "linked (h\<lparr> hCount := c \<rparr>) = linked h" "linked (h\<lparr> FreeEntry := i \<rparr>) = linked h"
  "linked (h\<lparr> NextEntry := i \<rparr>) = linked h"
  by (intro ext, simp add: linked_def bucket_of_def PhpIndexFromHash_def ent_def)+

lemma linked_size: "linked h U ch \<Longrightarrow> unat (AllocatedBuckets h) \<le> 2 ^ 31"
proof -
  assume "linked h U ch"
  then obtain k where k: "k \<le> 31" "AllocatedBuckets h = 2 ^ k" by (auto simp: linked_def)
  then have "unat (AllocatedBuckets h) = 2 ^ k" by (simp add: unat_power)
  also have "\<dots> \<le> 2 ^ 31" using k(1) by (rule power_increasing) simp
  finally show ?thesis .
qed

text \<open>Linking one more entry at the head of its bucket.\<close>

definition link :: "'e PH_HASHTABLE \<Rightarrow> nat \<Rightarrow> 'e PH_HASHTABLE_ENTRY \<Rightarrow> 'e PH_HASHTABLE" where
  "link h f e =
     (let b = bucket_of h (HashCode e) in
      h\<lparr> Entries := (Entries h)[f := Some (e\<lparr> NextIndex := Buckets h ! b \<rparr>)],
         Buckets := (Buckets h)[b := of_nat f] \<rparr>)"

lemma ent_link: "f < length (Entries h) \<Longrightarrow>
  ent (link h f e) j = (if j = f then e\<lparr> NextIndex := Buckets h ! bucket_of h (HashCode e) \<rparr> else ent h j)"
  by (simp add: ent_def link_def Let_def)

lemma bucket_of_cong: "AllocatedBuckets h' = AllocatedBuckets h \<Longrightarrow> bucket_of h' = bucket_of h"
  by (rule ext) (simp add: bucket_of_def PhpIndexFromHash_def)

lemma linked_link:
  assumes l: "linked h U ch" and f: "f \<notin> U" "f < length (Entries h)"
  shows "linked (link h f e) (insert f U)
    (ch(bucket_of h (HashCode e) := f # ch (bucket_of h (HashCode e))))"
proof -
  let ?b = "bucket_of h (HashCode e)" and ?h = "link h f e"
  have size: "length (Buckets h) = unat (AllocatedBuckets h)" "length (Entries h) = unat (AllocatedBuckets h)"
    using l by (auto simp: linked_def)
  have b: "?b < length (Buckets h)" using linked_bucket_less [OF l] size by simp
  have sel: "AllocatedBuckets ?h = AllocatedBuckets h"
    "Entries ?h = (Entries h)[f := Some (e\<lparr> NextIndex := Buckets h ! ?b \<rparr>)]"
    "Buckets ?h = (Buckets h)[?b := of_nat f]"
    by (simp_all add: link_def Let_def)
  have bu: "bucket_of ?h = bucket_of h" by (rule bucket_of_cong) (rule sel)
  have fu: "unat (of_nat f :: u32) = f"
    using f(2) size linked_size [OF l] by (intro unat_of_nat_u32) simp
  have chain: "hchain (Entries ?h) (Buckets ?h ! c) ((ch(?b := f # ch ?b)) c) \<and>
      distinct ((ch(?b := f # ch ?b)) c) \<and>
      set ((ch(?b := f # ch ?b)) c) = {j \<in> insert f U. bucket_of ?h (HashCode (ent ?h j)) = c}"
    if c: "c < unat (AllocatedBuckets h)" for c
  proof -
    have old: "hchain (Entries h) (Buckets h ! c) (ch c)" "distinct (ch c)"
      "set (ch c) = {j \<in> U. bucket_of h (HashCode (ent h j)) = c}"
      using l c by (auto simp: linked_def)
    have nf: "f \<notin> set (ch c)" using old(3) f(1) by simp
    have set': "{j \<in> U. bucket_of ?h (HashCode (ent ?h j)) = c} = set (ch c)"
      using old(3) f by (auto simp: bu ent_link)
    note up = hchain_update [OF nf old(1), of "Some (e\<lparr> NextIndex := Buckets h ! ?b \<rparr>)"]
    have new: "bucket_of ?h (HashCode (ent ?h f)) = ?b" using f(2) by (simp add: bu ent_link)
    show ?thesis
    proof (cases "c = ?b")
      case True
      then have "hchain (Entries ?h) (Buckets ?h ! c) (f # ch c)"
        using up b f(2) by (simp add: sel fu)
      moreover have "set (f # ch c) = {j \<in> insert f U. bucket_of ?h (HashCode (ent ?h j)) = c}"
        using set' new True by auto
      ultimately show ?thesis using True old(2) nf by simp
    next
      case False
      then have "hchain (Entries ?h) (Buckets ?h ! c) (ch c)" using up by (simp add: sel)
      moreover have "set (ch c) = {j \<in> insert f U. bucket_of ?h (HashCode (ent ?h j)) = c}"
        using set' new False by auto
      ultimately show ?thesis using False old(2) by simp
    qed
  qed
  then show ?thesis
    using l f(2) by (auto simp: linked_def sel nth_list_update)
qed

text \<open>The entries in use, and what a table with buckets and free entries has to satisfy.\<close>

definition in_use :: "'e PH_HASHTABLE \<Rightarrow> nat set" where
  "in_use h = {i. i < unat (NextEntry h) \<and> HashCode (ent h i) \<noteq> - 1}"

definition ht_inv ::
  "('e \<Rightarrow> 'e \<Rightarrow> bool) \<Rightarrow> ('e \<Rightarrow> u32) \<Rightarrow> nat set \<Rightarrow> nat set \<Rightarrow> 'e PH_HASHTABLE \<Rightarrow> bool" where
  "ht_inv eq hash U F h \<longleftrightarrow>
     EqualFunction h = eq \<and> HashFunction h = hash \<and> AllocatedEntries h = AllocatedBuckets h \<and>
     unat (NextEntry h) \<le> unat (AllocatedBuckets h) \<and>
     (\<exists>ch. linked h U ch) \<and>
     (\<exists>fs. hchain (Entries h) (FreeEntry h) fs \<and> distinct fs \<and> set fs = F) \<and> U \<inter> F = {} \<and>
     (\<forall>i \<in> U. HashCode (ent h i) = PhpValidateHash (hash (Body (ent h i)))) \<and>
     (\<forall>i \<in> U. \<forall>j \<in> U. eq (Body (ent h i)) (Body (ent h j)) \<longrightarrow> i = j) \<and>
     unat (hCount h) = card U"

definition ht_ok :: "('e \<Rightarrow> 'e \<Rightarrow> bool) \<Rightarrow> ('e \<Rightarrow> u32) \<Rightarrow> 'e PH_HASHTABLE \<Rightarrow> bool" where
  "ht_ok eq hash h \<longleftrightarrow> ht_inv eq hash (in_use h) ({..< unat (NextEntry h)} - in_use h) h"

lemma validate_neq [simp]: "PhpValidateHash x \<noteq> - 1"
proof
  assume "PhpValidateHash x = - 1"
  then have "bit (PhpValidateHash x) 31" by (simp add: bit_simps)
  then have "bit (0x7FFFFFFF :: u32) 31" by (simp add: PhpValidateHash_def bit_and_iff)
  then show False by simp
qed

lemma finite_in_use [simp]: "finite (in_use h)"
  by (simp add: in_use_def)

lemma get_entry_ent: "i < length (Entries h) \<Longrightarrow> Entries h ! i \<noteq> None \<Longrightarrow> unat w = i \<Longrightarrow> get_entry h w = Some (ent h i)"
  by (auto simp: get_entry_def ent_def)

text \<open>The loops along a chain.\<close>

definition hit :: "'e PH_HASHTABLE \<Rightarrow> u32 \<Rightarrow> 'e \<Rightarrow> nat \<Rightarrow> bool" where
  "hit h hashCode entry k \<longleftrightarrow> HashCode (ent h k) = hashCode \<and> EqualFunction h (Body (ent h k)) entry"

lemma minus_one_not_index: "unat (w :: u32) < 4294967295 \<Longrightarrow> w \<noteq> - 1"
  by (auto simp: unsigned_minus_1_eq_mask mask_eq_exp_minus_1)

lemma find_loop_chain:
  "hchain (Entries h) i ks \<Longrightarrow> length (Entries h) \<le> 2 ^ 31 \<Longrightarrow>
   find_loop h hashCode entry i = Some (map_option of_nat (List.find (hit h hashCode entry) ks))"
proof (induction ks arbitrary: i)
  case Nil
  then show ?case by (simp add: find_loop.simps)
next
  case (Cons k ks)
  then obtain e where e: "unat i = k" "k < length (Entries h)" "Entries h ! k = Some e"
    "hchain (Entries h) (NextIndex e) ks" by auto
  have "i \<noteq> - 1" using e(1,2) Cons.prems(2) by (intro minus_one_not_index) simp
  moreover have "of_nat k = i" using e(1) by auto
  moreover have "hit h hashCode entry k \<longleftrightarrow> HashCode e = hashCode \<and> EqualFunction h (Body e) entry"
    using e(3) by (simp add: hit_def ent_def)
  ultimately show ?case
    using e Cons.IH [OF e(4) Cons.prems(2)]
    by (subst find_loop.simps) (auto simp: get_entry_def)
qed

lemma remove_loop_chain:
  "hchain (Entries h) i ks \<Longrightarrow> length (Entries h) \<le> 2 ^ 31 \<Longrightarrow>
   (case List.find (hit h hashCode entry) ks of
      None \<Rightarrow> remove_loop h hashCode entry i p = Some None
    | Some k \<Rightarrow> \<exists>xs ys. ks = xs @ k # ys \<and>
        remove_loop h hashCode entry i p =
          Some (Some (of_nat k, (if xs = [] then p else of_nat (last xs)), ent h k)))"
proof (induction ks arbitrary: i p)
  case Nil
  then show ?case by (simp add: remove_loop.simps)
next
  case (Cons k ks)
  then obtain e where e: "unat i = k" "k < length (Entries h)" "Entries h ! k = Some e"
    "hchain (Entries h) (NextIndex e) ks" by auto
  have i: "i \<noteq> - 1" using e(1,2) Cons.prems(2) by (intro minus_one_not_index) simp
  have k: "of_nat k = i" using e(1) by auto
  show ?case
  proof (cases "hit h hashCode entry k")
    case True
    then have "remove_loop h hashCode entry i p = Some (Some (i, p, e))"
      using i e by (subst remove_loop.simps) (simp add: get_entry_def hit_def ent_def)
    then show ?thesis using True k e by (auto simp: ent_def intro!: exI [of _ "[]"])
  next
    case False
    then have r: "remove_loop h hashCode entry i p = remove_loop h hashCode entry (NextIndex e) i"
      using i e by (subst remove_loop.simps) (auto simp: get_entry_def hit_def ent_def)
    note IH = Cons.IH [OF e(4) Cons.prems(2), of i]
    show ?thesis
    proof (cases "List.find (hit h hashCode entry) ks")
      case None
      then show ?thesis using IH False r by simp
    next
      case (Some j)
      then obtain xs ys where x: "ks = xs @ j # ys" "remove_loop h hashCode entry (NextIndex e) i =
          Some (Some (of_nat j, (if xs = [] then i else of_nat (last xs)), ent h j))"
        using IH by auto
      then have "k # ks = (k # xs) @ j # ys \<and> remove_loop h hashCode entry i p =
          Some (Some (of_nat j, (if k # xs = [] then p else of_nat (last (k # xs))), ent h j))"
        using r k by (cases xs) auto
      moreover have "List.find (hit h hashCode entry) (k # ks) = Some j" using Some False by simp
      ultimately show ?thesis by (simp only: option.case) blast
    qed
  qed
qed

section \<open>Growing\<close>

text \<open>The tables agree up to the links.\<close>

definition same_data :: "'e PH_HASHTABLE \<Rightarrow> 'e PH_HASHTABLE \<Rightarrow> bool" where
  "same_data h h' \<longleftrightarrow>
     EqualFunction h' = EqualFunction h \<and> HashFunction h' = HashFunction h \<and>
     AllocatedBuckets h' = AllocatedBuckets h \<and> AllocatedEntries h' = AllocatedEntries h \<and>
     hCount h' = hCount h \<and> FreeEntry h' = FreeEntry h \<and> NextEntry h' = NextEntry h \<and>
     length (Entries h') = length (Entries h) \<and>
     (\<forall>j < length (Entries h). (Entries h' ! j = None \<longleftrightarrow> Entries h ! j = None) \<and>
        HashCode (ent h' j) = HashCode (ent h j) \<and> Body (ent h' j) = Body (ent h j))"

lemma same_data_refl [simp]: "same_data h h"
  by (simp add: same_data_def)

lemma same_data_trans: "same_data h1 h2 \<Longrightarrow> same_data h2 h3 \<Longrightarrow> same_data h1 h3"
  by (simp add: same_data_def)

lemma same_data_link:
  assumes "f < length (Entries h)" and "Entries h ! f \<noteq> None"
  shows "same_data h (link h f (ent h f))"
  using assms by (auto simp: same_data_def ent_link) (auto simp: link_def Let_def nth_list_update split: if_split_asm)

lemma redistribute_step:
  assumes l: "linked h U ch" and f: "f < length (Entries h)" "Entries h ! f \<noteq> None"
  shows "redistribute h (of_nat f) (Suc n) =
    redistribute (if HashCode (ent h f) \<noteq> - 1 then link h f (ent h f) else h) (of_nat (Suc f)) n"
proof -
  have size: "length (Buckets h) = unat (AllocatedBuckets h)" "length (Entries h) = unat (AllocatedBuckets h)"
    using l by (auto simp: linked_def)
  have fu: "unat (of_nat f :: u32) = f"
    using f(1) size linked_size [OF l] by (intro unat_of_nat_u32) simp
  obtain e where e: "Entries h ! f = Some e" using f(2) by auto
  have b: "unat (PhpIndexFromHash h (HashCode e)) < unat (AllocatedBuckets h)"
    using linked_bucket_less [OF l, of "HashCode e"] by (simp add: bucket_of_def)
  show ?thesis
    using f b e by (auto simp: Let_def get_entry_def get_bucket_def put_entry_def put_bucket_def fu size
        ent_def link_def bucket_of_def add.commute)
qed

lemma redistribute_links:
  "linked h {j. j < i \<and> HashCode (ent h j) \<noteq> - 1} ch \<Longrightarrow> i + n \<le> length (Entries h) \<Longrightarrow>
   (\<forall>j < i + n. Entries h ! j \<noteq> None) \<Longrightarrow>
   \<exists>h' ch'. redistribute h (of_nat i) n = Some h' \<and> same_data h h' \<and>
     linked h' {j. j < i + n \<and> HashCode (ent h' j) \<noteq> - 1} ch'"
proof (induction n arbitrary: h i ch)
  case (Suc n)
  let ?U = "{j. j < i \<and> HashCode (ent h j) \<noteq> - 1}"
  let ?h = "if HashCode (ent h i) \<noteq> - 1 then link h i (ent h i) else h"
  have i: "i < length (Entries h)" "Entries h ! i \<noteq> None" using Suc.prems(2,3) by auto
  have d: "same_data h ?h" using same_data_link [OF i] by simp
  then have len: "length (Entries ?h) = length (Entries h)" unfolding same_data_def by blast
  have code: "HashCode (ent ?h j) = HashCode (ent h j)" "Entries ?h ! j = None \<longleftrightarrow> Entries h ! j = None"
    if "j < length (Entries h)" for j
    using d that unfolding same_data_def by blast+
  have "\<exists>ch1. linked ?h {j. j < Suc i \<and> HashCode (ent ?h j) \<noteq> - 1} ch1"
  proof (cases "HashCode (ent h i) \<noteq> - 1")
    case True
    have "insert i ?U = {j. j < Suc i \<and> HashCode (ent ?h j) \<noteq> - 1}"
      using True i(1) code by (auto simp: less_Suc_eq)
    then show ?thesis using linked_link [OF Suc.prems(1) _ i(1), of "ent h i"] True by auto
  next
    case False
    then have "{j. j < Suc i \<and> HashCode (ent ?h j) \<noteq> - 1} = ?U" by (auto simp: less_Suc_eq)
    then show ?thesis using Suc.prems(1) False by auto
  qed
  then obtain ch1 where "linked ?h {j. j < Suc i \<and> HashCode (ent ?h j) \<noteq> - 1} ch1" by blast
  moreover have "Suc i + n \<le> length (Entries ?h)" using Suc.prems(2) len by simp
  moreover have "\<forall>j < Suc i + n. Entries ?h ! j \<noteq> None" using Suc.prems(2,3) code by simp
  ultimately obtain h' ch' where "redistribute ?h (of_nat (Suc i)) n = Some h'" "same_data ?h h'"
      "linked h' {j. j < Suc i + n \<and> HashCode (ent h' j) \<noteq> - 1} ch'"
    using Suc.IH by blast
  then show ?case
    using redistribute_step [OF Suc.prems(1) i, of n] same_data_trans [OF d] by auto
qed auto

lemma round_up_double:
  assumes "k \<le> 30" shows "PhRoundUpToPowerOfTwo (2 ^ k * 2) = 2 ^ Suc k"
proof -
  have u: "unat (2 ^ k * 2 :: u32) = 2 ^ Suc k"
    using unat_power [of "Suc k", where 'a = 32] assms by (simp add: mult.commute)
  have "(2 :: nat) ^ Suc k \<le> 2 ^ 31" using assms by (intro power_increasing) simp_all
  then obtain j where j: "PhRoundUpToPowerOfTwo (2 ^ k * 2) = 2 ^ j" "(2 :: nat) ^ Suc k \<le> 2 ^ j"
      "(2 :: nat) ^ j < 2 * 2 ^ Suc k"
    using round_up_power [of "2 ^ k * 2"] unfolding u by (metis zero_less_power zero_less_numeral)
  have "(2 :: nat) ^ j < 2 ^ Suc (Suc k)" using j(3) by simp
  then have "j < Suc (Suc k)" by (rule power_less_imp_less_exp [rotated]) simp
  moreover have "Suc k \<le> j" using j(2) by (rule power_le_imp_le_exp [rotated]) simp
  ultimately have "j = Suc k" by simp
  then show ?thesis using j(1) by simp
qed

lemma resize_links:
  assumes inv: "ht_inv eq hash {..< N} {} h" and N: "N = unat (NextEntry h)"
    and full: "NextEntry h = AllocatedEntries h" and room: "unat (AllocatedBuckets h) \<le> 2 ^ 30"
  shows "\<exists>h'. PhpResizeHashtable h (AllocatedBuckets h * 2) = Some h' \<and> ht_inv eq hash {..< N} {} h' \<and>
    NextEntry h' = NextEntry h \<and> FreeEntry h' = FreeEntry h \<and>
    unat (AllocatedBuckets h') = 2 * unat (AllocatedBuckets h) \<and>
    (\<forall>j < N. HashCode (ent h' j) = HashCode (ent h j) \<and> Body (ent h' j) = Body (ent h j))"
proof -
  obtain ch where l: "linked h {..< N} ch" using inv by (auto simp: ht_inv_def)
  then obtain k where k: "k \<le> 31" "AllocatedBuckets h = 2 ^ k" by (auto simp: linked_def)
  have uk: "unat (AllocatedBuckets h) = 2 ^ k" using k by (simp add: unat_power)
  have "k \<le> 30"
  proof (rule power_le_imp_le_exp [of "2 :: nat"])
    show "(2 :: nat) ^ k \<le> 2 ^ 30" using room by (simp only: uk)
  qed simp
  then have n: "PhpGetNumberOfBuckets (AllocatedBuckets h * 2) = 2 ^ Suc k"
    and un: "unat (2 ^ Suc k :: u32) = 2 * 2 ^ k"
    using unat_power [of "Suc k", where 'a = 32] by (simp_all only: PhpGetNumberOfBuckets_def k(2) round_up_double) simp
  define h0 where "h0 = h\<lparr> AllocatedBuckets := 2 ^ Suc k, Buckets := replicate (unat (2 ^ Suc k :: u32)) (- 1),
    AllocatedEntries := 2 ^ Suc k, Entries := PhReAllocate (Entries h) (unat (2 ^ Suc k :: u32)) \<rparr>"
  have size: "length (Entries h) = N" using l uk N full inv by (auto simp: linked_def ht_inv_def)
  have Nk: "N = 2 ^ k" using N full inv uk by (simp add: ht_inv_def)
  have here: "Entries h0 ! j = Entries h ! j" "Entries h ! j \<noteq> None" if "j < N" for j
    using that l Nk by (auto simp: h0_def PhReAllocate_def un nth_append size linked_def simp del: power_Suc)
  have "\<exists>k' \<le> 31. (2 :: u32) ^ Suc k = 2 ^ k'" using \<open>k \<le> 30\<close> by (intro exI [of _ "Suc k"]) simp
  then have "linked h0 {j. j < 0 \<and> HashCode (ent h0 j) \<noteq> - 1} (\<lambda>_. [])"
    by (auto simp: linked_def h0_def PhReAllocate_def un simp del: power_Suc)
  moreover have len0: "length (Entries h0) = 2 * 2 ^ k"
    using Nk size by (simp add: h0_def PhReAllocate_def un del: power_Suc)
  ultimately obtain h' ch' where r: "redistribute h0 (of_nat 0) N = Some h'" "same_data h0 h'"
      "linked h' {j. j < 0 + N \<and> HashCode (ent h' j) \<noteq> - 1} ch'"
    using redistribute_links [of h0 0 "\<lambda>_. []" N] here Nk by auto
  have same: "HashCode (ent h' j) = HashCode (ent h j) \<and> Body (ent h' j) = Body (ent h j)" if "j < N" for j
    using r(2) that here(1) [OF that] Nk by (simp add: same_data_def len0 ent_def)
  have code: "HashCode (ent h j) = PhpValidateHash (hash (Body (ent h j)))" if "j < N" for j
    using inv that by (simp add: ht_inv_def)
  have "{j. j < 0 + N \<and> HashCode (ent h' j) \<noteq> - 1} = {..< N}" using same code by auto
  then have "linked h' {..< N} ch'" using r(3) by simp
  moreover have "EqualFunction h' = EqualFunction h" "HashFunction h' = HashFunction h"
      "AllocatedBuckets h' = 2 ^ Suc k" "AllocatedEntries h' = 2 ^ Suc k" "hCount h' = hCount h"
      "FreeEntry h' = FreeEntry h" "NextEntry h' = NextEntry h"
    using r(2) by (simp_all add: same_data_def h0_def)
  moreover have "FreeEntry h = - 1" using inv by (auto simp: ht_inv_def)
  moreover have "PhpResizeHashtable h (AllocatedBuckets h * 2) = Some h'"
    using r(1) by (simp add: PhpResizeHashtable_def n h0_def N)
  ultimately show ?thesis
    using inv same Nk N by (auto simp: ht_inv_def un uk simp del: power_Suc)
qed

section \<open>Taking and releasing an entry\<close>

lemma ht_inv_size:
  assumes "ht_inv eq hash U F h"
  shows "length (Entries h) = unat (AllocatedBuckets h)" "length (Entries h) \<le> 2 ^ 31"
    "\<forall>j \<in> U \<union> F. j < length (Entries h) \<and> Entries h ! j \<noteq> None" "finite U" "finite F"
proof -
  obtain ch where l: "linked h U ch" using assms by (auto simp: ht_inv_def)
  then show s: "length (Entries h) = unat (AllocatedBuckets h)" by (simp add: linked_def)
  show "length (Entries h) \<le> 2 ^ 31" using linked_size [OF l] s by simp
  obtain fs where fs: "hchain (Entries h) (FreeEntry h) fs" "set fs = F" using assms by (auto simp: ht_inv_def)
  show a: "\<forall>j \<in> U \<union> F. j < length (Entries h) \<and> Entries h ! j \<noteq> None"
    using l hchain_member [OF fs(1)] fs(2) by (auto simp: linked_def)
  then have "U \<subseteq> {..< length (Entries h)}" by auto
  then show "finite U" by (rule finite_subset) simp
  show "finite F" using fs(2) by auto
qed

text \<open>The entry that is taken: it is not linked and not free any more, and nothing else changes.\<close>

lemma take_entry_ok:
  assumes inv: "ht_inv eq hash U F h" and all: "U \<union> F = {..< unat (NextEntry h)}"
    and room: "F \<noteq> {} \<or> unat (NextEntry h) < 2 ^ 31"
    and big: "unat (AllocatedBuckets h) \<le> 2 ^ 30 \<or> F \<noteq> {} \<or> unat (NextEntry h) < unat (AllocatedBuckets h)"
  shows "\<exists>h1 f F1. take_entry h hashCode = Some (h1, of_nat f) \<and> ht_inv eq hash U F1 h1 \<and>
    f < length (Entries h1) \<and> f \<notin> U \<and> f \<notin> F1 \<and> insert f (U \<union> F1) = {..< unat (NextEntry h1)} \<and>
    (\<forall>j \<in> U. HashCode (ent h1 j) = HashCode (ent h j) \<and> Body (ent h1 j) = Body (ent h j)) \<and>
    (\<forall>j \<in> F1. j \<in> F \<and> HashCode (ent h1 j) = HashCode (ent h j))"
proof (cases "F = {}")
  case False
  obtain fs where fs: "hchain (Entries h) (FreeEntry h) fs" "distinct fs" "set fs = F"
    using inv by (auto simp: ht_inv_def)
  then obtain f fs' where f: "fs = f # fs'" using False by (cases fs) auto
  then have e: "unat (FreeEntry h) = f" "f < length (Entries h)" "Entries h ! f \<noteq> None"
      "hchain (Entries h) (NextIndex (ent h f)) fs'"
    using fs by (auto simp: ent_def)
  have "FreeEntry h \<noteq> - 1" using e(1,2) ht_inv_size(2) [OF inv] by (intro minus_one_not_index) simp
  then have "take_entry h hashCode = Some (h\<lparr> FreeEntry := NextIndex (ent h f) \<rparr>, of_nat f)"
    using get_entry_ent [OF e(2,3,1)] e(1) by (auto simp: take_entry_def)
  moreover have "ht_inv eq hash U (F - {f}) (h\<lparr> FreeEntry := NextIndex (ent h f) \<rparr>)"
    using inv e(4) fs f
    by (auto simp: ht_inv_def ent_def linked_def bucket_of_def PhpIndexFromHash_def)
  moreover have "insert f (U \<union> (F - {f})) = {..< unat (NextEntry h)}" using all fs f by auto
  moreover have "f \<in> F" "f \<notin> U" using fs f inv by (auto simp: ht_inv_def)
  ultimately show ?thesis
    using e(2) False by (intro exI [of _ "h\<lparr> FreeEntry := NextIndex (ent h f) \<rparr>"] exI [of _ f] exI [of _ "F - {f}"])
      (simp add: ent_def)
next
  case True
  have free: "FreeEntry h = - 1"
  proof -
    obtain fs where "hchain (Entries h) (FreeEntry h) fs" "set fs = F" using inv by (auto simp: ht_inv_def)
    then show ?thesis using True by simp
  qed
  have U: "U = {..< unat (NextEntry h)}" using all True by simp
  obtain h1 where h1: "(if NextEntry h = AllocatedEntries h
        then PhpResizeHashtable h (AllocatedBuckets h * 2) else Some h) = Some h1"
      "ht_inv eq hash U {} h1" "NextEntry h1 = NextEntry h" "FreeEntry h1 = - 1"
      "unat (NextEntry h) < unat (AllocatedBuckets h1)"
      "\<forall>j \<in> U. HashCode (ent h1 j) = HashCode (ent h j) \<and> Body (ent h1 j) = Body (ent h j)"
  proof (cases "NextEntry h = AllocatedEntries h")
    case full: True
    then have small: "unat (AllocatedBuckets h) \<le> 2 ^ 30" using big True inv by (auto simp: ht_inv_def)
    have pos: "0 < unat (AllocatedBuckets h)"
      using inv by (auto simp: ht_inv_def linked_def unat_power)
    obtain h' where "PhpResizeHashtable h (AllocatedBuckets h * 2) = Some h'" "ht_inv eq hash U {} h'"
        "NextEntry h' = NextEntry h" "FreeEntry h' = FreeEntry h"
        "unat (AllocatedBuckets h') = 2 * unat (AllocatedBuckets h)"
        "\<forall>j \<in> U. HashCode (ent h' j) = HashCode (ent h j) \<and> Body (ent h' j) = Body (ent h j)"
      using resize_links [of eq hash "unat (NextEntry h)" h] inv True U full small by auto
    then show ?thesis using that [of h'] full free pos inv by (auto simp: ht_inv_def)
  next
    case False
    then have "unat (NextEntry h) \<noteq> unat (AllocatedEntries h)" by (simp add: word_eq_unat)
    then show ?thesis using that [of h] False inv True free by (auto simp: ht_inv_def)
  qed
  let ?n = "unat (NextEntry h)" and ?h = "h1\<lparr> NextEntry := NextEntry h1 + 1 \<rparr>"
  have suc: "unat (NextEntry h + 1) = Suc ?n"
    using room True count_suc [of "NextEntry h"] by simp
  have "take_entry h hashCode = Some (?h, of_nat ?n)"
    using free h1(1,3) by (simp add: take_entry_def)
  moreover have "ht_inv eq hash U {} ?h"
    using h1(2,3,5) suc by (auto simp: ht_inv_def ent_def linked_def bucket_of_def PhpIndexFromHash_def)
  moreover have "?n < length (Entries ?h)" using h1(5) ht_inv_size(1) [OF h1(2)] by simp
  moreover have "?n \<notin> U" "insert ?n (U \<union> {}) = {..< unat (NextEntry ?h)}" using U h1(3) suc by auto
  ultimately show ?thesis
    using h1(6) True by (intro exI [of _ ?h] exI [of _ ?n] exI [of _ "{}"]) (simp add: ent_def)
qed

text \<open>Taking an entry out of its bucket: the one before it is linked to the one after it.\<close>

lemma hchain_unlink:
  "hchain es i (xs @ k # ys) \<Longrightarrow> distinct (xs @ k # ys) \<Longrightarrow> xs \<noteq> [] \<Longrightarrow> es ! k = Some e \<Longrightarrow>
   es ! last xs = Some p \<Longrightarrow> hchain (es[last xs := Some (p\<lparr> NextIndex := NextIndex e \<rparr>), k := x]) i (xs @ ys)"
proof (induction xs arbitrary: i)
  case (Cons a xs)
  then obtain ea where ea: "unat i = a" "a < length es" "es ! a = Some ea"
    "hchain es (NextIndex ea) (xs @ k # ys)" by auto
  show ?case
  proof (cases "xs = []")
    case True
    have ys: "hchain es (NextIndex e) ys" using ea(4) Cons.prems(4) True by auto
    have "hchain (es[a := Some (p\<lparr> NextIndex := NextIndex e \<rparr>), k := x]) (NextIndex e) ys"
      using Cons.prems(2) True by (intro hchain_update ys) auto
    then show ?thesis using ea Cons.prems(2,5) True by auto
  next
    case False
    then have "last xs \<in> set xs" by simp
    then have "a \<noteq> last xs" "a \<noteq> k" using Cons.prems(2) by auto
    then show ?thesis using Cons.IH [OF ea(4)] Cons.prems False ea by auto
  qed
qed simp

lemma linked_unlink:
  assumes l: "linked h U ch" and ch: "ch b = xs @ k # ys" and b: "b < unat (AllocatedBuckets h)"
    and p: "xs \<noteq> [] \<Longrightarrow> p = ent h (last xs)"
    and h': "AllocatedBuckets h' = AllocatedBuckets h"
      "Buckets h' = (if xs = [] then (Buckets h)[b := NextIndex (ent h k)] else Buckets h)"
      "Entries h' = (if xs = [] then Entries h
         else (Entries h)[last xs := Some (p\<lparr> NextIndex := NextIndex (ent h k) \<rparr>)])[k := Some x]"
  shows "linked h' (U - {k}) (ch(b := xs @ ys))"
proof -
  have size: "length (Buckets h) = unat (AllocatedBuckets h)" using l by (simp add: linked_def)
  have chb: "hchain (Entries h) (Buckets h ! b) (xs @ k # ys)" "distinct (xs @ k # ys)"
  proof -
    have "hchain (Entries h) (Buckets h ! b) (ch b) \<and> distinct (ch b)" using l b unfolding linked_def by blast
    then show "hchain (Entries h) (Buckets h ! b) (xs @ k # ys)" "distinct (xs @ k # ys)"
      unfolding ch by blast+
  qed
  have member: "j < length (Entries h) \<and> Entries h ! j = Some (ent h j)" if "j \<in> set (xs @ k # ys)" for j
    using hchain_member [OF chb(1) that] by (auto simp: ent_def)
  have ent': "HashCode (ent h' j) = HashCode (ent h j)" if "j \<noteq> k" for j
  proof (cases "xs = []")
    case False
    then have "last xs < length (Entries h)" using member by simp
    then show ?thesis using False that p by (simp add: ent_def h'(3) nth_list_update)
  qed (use that in \<open>simp add: ent_def h'(3)\<close>)
  have bu: "bucket_of h' = bucket_of h" by (rule bucket_of_cong) (rule h'(1))
  have "hchain (Entries h') (Buckets h' ! c) ((ch(b := xs @ ys)) c) \<and> distinct ((ch(b := xs @ ys)) c) \<and>
      set ((ch(b := xs @ ys)) c) = {j \<in> U - {k}. bucket_of h' (HashCode (ent h' j)) = c}"
    if c: "c < unat (AllocatedBuckets h)" for c
  proof -
    have old: "hchain (Entries h) (Buckets h ! c) (ch c)" "distinct (ch c)"
      "set (ch c) = {j \<in> U. bucket_of h (HashCode (ent h j)) = c}"
      using l c by (auto simp: linked_def)
    have "{j \<in> U - {k}. bucket_of h' (HashCode (ent h' j)) = c} = {j \<in> U - {k}. bucket_of h (HashCode (ent h j)) = c}"
      using ent' by (auto simp: bu)
    then have set: "{j \<in> U - {k}. bucket_of h' (HashCode (ent h' j)) = c} = set (ch c) - {k}" using old(3) by auto
    show ?thesis
    proof (cases "c = b")
      case True
      have "hchain (Entries h') (Buckets h' ! b) (xs @ ys)"
      proof (cases "xs = []")
        case nil: True
        then have "hchain (Entries h) (NextIndex (ent h k)) ys" using chb(1) member by auto
        then show ?thesis using nil chb(2) b size by (simp add: h' hchain_update)
      next
        case False
        show ?thesis
          using hchain_unlink [OF chb(1,2) False, of "ent h k" "ent h (last xs)" "Some x"] member False p
          by (simp add: h')
      qed
      then show ?thesis using True set chb(2) by (auto simp: ch)
    next
      case False
      have "k \<notin> set (ch c)" "xs \<noteq> [] \<longrightarrow> last xs \<notin> set (ch c)"
      proof -
        have "set (ch b) = {j \<in> U. bucket_of h (HashCode (ent h j)) = b}" using l b unfolding linked_def by blast
        then have "set (ch c) \<inter> set (ch b) = {}" using old(3) False by auto
        then have "set (ch c) \<inter> set (xs @ k # ys) = {}" unfolding ch .
        then show "k \<notin> set (ch c)" "xs \<noteq> [] \<longrightarrow> last xs \<notin> set (ch c)" by auto
      qed
      then show ?thesis using False set old(1,2) by (simp add: h' hchain_update)
    qed
  qed
  moreover have "\<exists>k \<le> 31. AllocatedBuckets h' = 2 ^ k" using l h'(1) by (simp add: linked_def)
  moreover have "\<forall>j \<in> U - {k}. j < length (Entries h') \<and> Entries h' ! j \<noteq> None"
    using l member by (auto simp: linked_def h'(3) nth_list_update)
  ultimately show ?thesis using l by (simp add: linked_def h')
qed

section \<open>The contents\<close>

definition body_at :: "'e PH_HASHTABLE \<Rightarrow> nat \<Rightarrow> 'e option" where
  "body_at h i = (if i \<in> in_use h then Some (Body (ent h i)) else None)"

definition used_from :: "'e PH_HASHTABLE \<Rightarrow> nat \<Rightarrow> nat list" where
  "used_from h i = filter (\<lambda>i. HashCode (ent h i) \<noteq> - 1) [i ..< unat (NextEntry h)]"

definition bodies :: "'e PH_HASHTABLE \<Rightarrow> 'e list" where
  "bodies h = map (\<lambda>i. Body (ent h i)) (used_from h 0)"

lemma set_bodies: "b \<in> set (bodies h) \<longleftrightarrow> (\<exists>i. body_at h i = Some b)"
  by (auto simp: bodies_def used_from_def body_at_def in_use_def)

text \<open>The loop over PhEnumHashtable as its callers write it, with at most \<open>n\<close> calls.\<close>

fun enum_all :: "'e PH_HASHTABLE \<Rightarrow> u32 \<Rightarrow> nat \<Rightarrow> 'e list option" where
  "enum_all h key 0 = None"
| "enum_all h key (Suc n) =
     Option.bind (PhEnumHashtable h key) (\<lambda>(key', r).
       case r of None \<Rightarrow> Some [] | Some b \<Rightarrow> map_option (Cons b) (enum_all h key' n))"

lemma enum_loop_used:
  assumes "\<And>j. j < unat (NextEntry h) \<Longrightarrow> j < length (Entries h) \<and> Entries h ! j \<noteq> None"
    and "unat key + n = unat (NextEntry h)"
  shows "case used_from h (unat key) of
      [] \<Rightarrow> enum_loop h key n = Some (NextEntry h, None)
    | j # js \<Rightarrow> enum_loop h key n = Some (of_nat (Suc j), Some (Body (ent h j))) \<and>
        unat key \<le> j \<and> j < unat (NextEntry h) \<and> js = used_from h (Suc j)"
  using assms(2)
proof (induction n arbitrary: key)
  case 0
  then show ?case by (simp add: used_from_def word_eq_unat)
next
  case (Suc n)
  have k: "unat key < unat (NextEntry h)" using Suc.prems by simp
  have g: "get_entry h key = Some (ent h (unat key))" using assms(1) [OF k] by (intro get_entry_ent) auto
  have used: "used_from h (unat key) =
      (if HashCode (ent h (unat key)) \<noteq> - 1 then unat key # used_from h (Suc (unat key)) else used_from h (Suc (unat key)))"
    using k by (simp add: used_from_def upt_conv_Cons)
  have suc: "unat (key + 1) = Suc (unat key)"
    using suc_below [OF k] .
  show ?case
  proof (cases "HashCode (ent h (unat key)) \<noteq> - 1")
    case True
    have "of_nat (Suc (unat key)) = key + 1" by simp
    then show ?thesis using True g k by (simp add: used)
  next
    case False
    then show ?thesis using Suc.IH [of "key + 1"] Suc.prems g by (auto simp: used suc split: list.splits)
  qed
qed

lemma enum_all_bodies:
  assumes "\<And>j. j < unat (NextEntry h) \<Longrightarrow> j < length (Entries h) \<and> Entries h ! j \<noteq> None"
    and "unat key \<le> unat (NextEntry h)" and "length (used_from h (unat key)) < n"
  shows "enum_all h key n = Some (map (\<lambda>i. Body (ent h i)) (used_from h (unat key)))"
  using assms(2,3)
proof (induction n arbitrary: key)
  case (Suc n)
  note step = enum_loop_used [OF assms(1), of key "unat (NextEntry h) - unat key"]
  show ?case
  proof (cases "used_from h (unat key)")
    case Nil
    then show ?thesis using step Suc.prems by (simp add: PhEnumHashtable_def)
  next
    case (Cons j js)
    then have j: "enum_loop h key (unat (NextEntry h) - unat key) = Some (of_nat (Suc j), Some (Body (ent h j)))"
      "j < unat (NextEntry h)" "js = used_from h (Suc j)"
      using step Suc.prems by auto
    have u: "unat (of_nat (Suc j) :: u32) = Suc j"
      using j(2) unat_lt_u32 [of "NextEntry h"] by (intro unat_of_nat_u32) linarith
    have "enum_all h (of_nat (Suc j)) n = Some (map (\<lambda>i. Body (ent h i)) js)"
      using Suc.IH [of "of_nat (Suc j)"] j(2,3) Cons Suc.prems(2) by (simp only: u) simp
    then show ?thesis using j(1) Cons by (simp add: PhEnumHashtable_def)
  qed
qed simp

section \<open>The contract of the comparison and hash functions\<close>

text \<open>
  What phbasesup.h demands of the functions a hashtable is created with: the comparison is an
  equivalence, and equal entries have the same hash code.
\<close>

locale hash_functions =
  fixes eq :: "'e \<Rightarrow> 'e \<Rightarrow> bool"
    and hash :: "'e \<Rightarrow> u32"
  assumes eq_refl: "eq a a"
    and eq_sym: "eq a b \<Longrightarrow> eq b a"
    and eq_trans: "eq a b \<Longrightarrow> eq b c \<Longrightarrow> eq a c"
    and eq_hash: "eq a b \<Longrightarrow> hash a = hash b"
begin

abbreviation ok :: "'e PH_HASHTABLE \<Rightarrow> bool" where
  "ok \<equiv> ht_ok eq hash"

text \<open>The search in the chain of an entry's bucket finds an equal entry if there is one.\<close>

lemma search:
  assumes ok: "ok h" and l: "linked h (in_use h) ch" and hc: "hashCode = PhpValidateHash (hash e)"
  shows "case List.find (hit h hashCode e) (ch (bucket_of h hashCode)) of
      Some j \<Rightarrow> body_at h j = Some (Body (ent h j)) \<and> eq (Body (ent h j)) e
    | None \<Rightarrow> \<forall>i b. body_at h i = Some b \<longrightarrow> \<not> eq b e"
proof -
  let ?b = "bucket_of h hashCode"
  have set: "set (ch ?b) = {j \<in> in_use h. bucket_of h (HashCode (ent h j)) = ?b}"
    using l linked_bucket_less [OF l] by (auto simp: linked_def)
  have eqf: "EqualFunction h = eq" using ok by (simp add: ht_ok_def ht_inv_def)
  have code: "HashCode (ent h j) = PhpValidateHash (hash (Body (ent h j)))" if "j \<in> in_use h" for j
    using ok that by (simp add: ht_ok_def ht_inv_def)
  have hit: "hit h hashCode e j \<longleftrightarrow> eq (Body (ent h j)) e" if "j \<in> in_use h" for j
    using code [OF that] hc eq_hash by (auto simp: hit_def eqf)
  show ?thesis
  proof (cases "List.find (hit h hashCode e) (ch ?b)")
    case None
    have "\<not> eq (Body (ent h j)) e" if j: "j \<in> in_use h" for j
    proof
      assume e: "eq (Body (ent h j)) e"
      have "j \<in> set (ch ?b)" using set j code [OF j] hc eq_hash [OF e] by simp
      then show False using None hit [OF j] e by (auto simp: find_None_iff)
    qed
    then show ?thesis using None by (auto simp: body_at_def)
  next
    case (Some j)
    then have "j \<in> set (ch ?b)" "hit h hashCode e j" by (auto simp: find_Some_iff in_set_conv_nth)
    then show ?thesis using Some set hit by (auto simp: body_at_def)
  qed
qed

lemma bucket_head:
  assumes l: "linked h U ch"
  shows "get_bucket h (PhpIndexFromHash h c) = Some (Buckets h ! bucket_of h c)"
    and "hchain (Entries h) (Buckets h ! bucket_of h c) (ch (bucket_of h c))"
  using l linked_bucket_less [OF l] by (auto simp: get_bucket_def linked_def bucket_of_def)

lemma linked_length:
  assumes l: "linked h U ch" shows "length (Entries h) \<le> 2 ^ 31"
  using l linked_size [OF l] by (simp add: linked_def)

lemma inv_link:
  assumes inv: "ht_inv eq hash U F h" and f: "f \<notin> U" "f \<notin> F" "f < length (Entries h)"
    and new: "\<And>j. j \<in> U \<Longrightarrow> \<not> eq (Body (ent h j)) b" and room: "card U < 2 ^ 31"
    and e: "HashCode e = PhpValidateHash (hash b)" "Body e = b"
  shows "ht_inv eq hash (insert f U) F ((link h f e)\<lparr> hCount := hCount h + 1 \<rparr>)"
proof -
  let ?h = "(link h f e)\<lparr> hCount := hCount h + 1 \<rparr>"
  obtain ch where l: "linked h U ch" using inv by (auto simp: ht_inv_def)
  have ent: "ent ?h j = ent (link h f e) j" for j by (simp add: ent_def)
  have body: "Body (ent ?h j) = (if j = f then b else Body (ent h j))"
    and code: "HashCode (ent ?h j) = (if j = f then PhpValidateHash (hash b) else HashCode (ent h j))" for j
    using f(3) e by (simp_all add: ent ent_link)
  have "\<exists>ch'. linked ?h (insert f U) ch'"
    using linked_link [OF l f(1,3), of e] by auto
  moreover have "\<exists>fs. hchain (Entries ?h) (FreeEntry ?h) fs \<and> distinct fs \<and> set fs = F"
  proof -
    obtain fs where fs: "hchain (Entries h) (FreeEntry h) fs" "distinct fs" "set fs = F"
      using inv by (auto simp: ht_inv_def)
    then show ?thesis using f(2) by (intro exI [of _ fs]) (simp add: link_def Let_def hchain_update)
  qed
  moreover have "unat (hCount h) = card U" using inv by (simp add: ht_inv_def)
  then have "unat (hCount h + 1) = card (insert f U)"
    using room f(1) ht_inv_size(4) [OF inv] by (simp add: count_suc)
  moreover have "\<forall>i \<in> insert f U. \<forall>j \<in> insert f U. eq (Body (ent ?h i)) (Body (ent ?h j)) \<longrightarrow> i = j"
  proof -
    have "\<forall>i \<in> U. \<forall>j \<in> U. eq (Body (ent h i)) (Body (ent h j)) \<longrightarrow> i = j" using inv by (simp add: ht_inv_def)
    moreover have "\<not> eq b (Body (ent h j))" if "j \<in> U" for j using new [OF that] eq_sym by blast
    ultimately show ?thesis using new f(1) by (simp add: body)
  qed
  moreover have "\<forall>i \<in> insert f U. HashCode (ent ?h i) = PhpValidateHash (hash (Body (ent ?h i)))"
    using inv by (auto simp: ht_inv_def body code)
  moreover have "EqualFunction ?h = EqualFunction h" "HashFunction ?h = HashFunction h"
      "AllocatedEntries ?h = AllocatedEntries h" "AllocatedBuckets ?h = AllocatedBuckets h"
      "NextEntry ?h = NextEntry h" "hCount ?h = hCount h + 1"
    by (simp_all add: link_def Let_def)
  ultimately show ?thesis using inv f(1,2) unfolding ht_inv_def by simp
qed

lemma find_entry:
  assumes ok: "ok h"
  shows "(\<exists>i b. body_at h i = Some b \<and> eq b e \<and> PhFindEntryHashtable h e = Some (Some (of_nat i))) \<or>
    ((\<forall>i b. body_at h i = Some b \<longrightarrow> \<not> eq b e) \<and> PhFindEntryHashtable h e = Some None)"
proof -
  obtain ch where l: "linked h (in_use h) ch" using ok by (auto simp: ht_ok_def ht_inv_def)
  have hf: "HashFunction h = hash" using ok by (simp add: ht_ok_def ht_inv_def)
  let ?c = "PhpValidateHash (hash e)"
  have "PhFindEntryHashtable h e = Some (map_option of_nat (List.find (hit h ?c e) (ch (bucket_of h ?c))))"
    using bucket_head [OF l, of ?c] find_loop_chain [OF _ linked_length [OF l]] by (simp add: PhFindEntryHashtable_def Let_def hf)
  then show ?thesis using search [OF ok l refl, of e] by (auto split: option.splits)
qed

lemma add_entry:
  assumes ok: "ok h" and room: "unat (hCount h) < 2 ^ 31"
  shows "(\<exists>i b. body_at h i = Some b \<and> eq b e \<and> PhpAddEntryHashtable h e True = Some (of_nat i, False, h)) \<or>
    ((\<forall>i b. body_at h i = Some b \<longrightarrow> \<not> eq b e) \<and>
     (\<exists>f h'. PhpAddEntryHashtable h e True = Some (of_nat f, True, h') \<and> ok h' \<and> body_at h f = None \<and>
        body_at h' = (body_at h)(f \<mapsto> e) \<and> hCount h' = hCount h + 1))"
proof -
  have inv: "ht_inv eq hash (in_use h) ({..< unat (NextEntry h)} - in_use h) h" (is "ht_inv eq hash ?U ?F h")
    using ok by (simp add: ht_ok_def)
  obtain ch where l: "linked h ?U ch" using inv by (auto simp: ht_inv_def)
  have hf: "HashFunction h = hash" using inv by (simp add: ht_inv_def)
  let ?c = "PhpValidateHash (hash e)"
  let ?found = "List.find (hit h ?c e) (ch (bucket_of h ?c))"
  note head = bucket_head [OF l, of ?c]
  note loop = find_loop_chain [OF head(2) linked_length [OF l], of ?c e]
  show ?thesis
  proof (cases ?found)
    case (Some i)
    then have "PhpAddEntryHashtable h e True = Some (of_nat i, False, h)"
      using head(1) loop by (simp add: PhpAddEntryHashtable_def Let_def hf)
    then show ?thesis using search [OF ok l refl, of e] Some by auto
  next
    case None
    have new: "\<forall>i b. body_at h i = Some b \<longrightarrow> \<not> eq b e" using search [OF ok l refl, of e] None by simp
    have sub: "?U \<subseteq> {..< unat (NextEntry h)}" by (auto simp: in_use_def)
    have count: "unat (hCount h) = card ?U" using inv by (simp add: ht_inv_def)
    have full: "?F \<noteq> {} \<or> ?U = {..< unat (NextEntry h)}" using sub by auto
    then have "?F \<noteq> {} \<or> unat (NextEntry h) < 2 ^ 31" using count room by auto
    moreover have "unat (AllocatedBuckets h) \<le> 2 ^ 30 \<or> ?F \<noteq> {} \<or> unat (NextEntry h) < unat (AllocatedBuckets h)"
    proof (cases "unat (AllocatedBuckets h) \<le> 2 ^ 30")
      case False
      obtain k where k: "k \<le> 31" "AllocatedBuckets h = 2 ^ k" using l by (auto simp: linked_def)
      then have "unat (AllocatedBuckets h) = 2 ^ k" by (simp add: unat_power)
      then have "\<not> k \<le> 30" using False power_increasing [of k 30 "2 :: nat"] by auto
      then have "unat (AllocatedBuckets h) = 2 ^ 31" using k by (cases "k = 31") (auto simp: unat_power)
      then show ?thesis using full count room by auto
    qed simp
    moreover have "?U \<union> ?F = {..< unat (NextEntry h)}" using sub by auto
    ultimately obtain h1 f F1 where t: "take_entry h ?c = Some (h1, of_nat f)" "ht_inv eq hash ?U F1 h1"
        "f < length (Entries h1)" "f \<notin> ?U" "f \<notin> F1" "insert f (?U \<union> F1) = {..< unat (NextEntry h1)}"
        "\<forall>j \<in> ?U. HashCode (ent h1 j) = HashCode (ent h j) \<and> Body (ent h1 j) = Body (ent h j)"
        "\<forall>j \<in> F1. j \<in> ?F \<and> HashCode (ent h1 j) = HashCode (ent h j)"
      using take_entry_ok [OF inv, of ?c] by blast
    let ?e = "\<lparr> HashCode = ?c, NextIndex = Buckets h1 ! bucket_of h1 ?c, Body = e \<rparr>"
    let ?h = "(link h1 f ?e)\<lparr> hCount := hCount h1 + 1 \<rparr>"
    obtain ch1 where l1: "linked h1 ?U ch1" using t(2) by (auto simp: ht_inv_def)
    note head1 = bucket_head [OF l1, of ?c]
    have fu: "unat (of_nat f :: u32) = f" using t(3) linked_length [OF l1] by (intro unat_of_nat_u32) simp
    have "unat (PhpIndexFromHash h1 ?c) < length (Buckets h1)"
      using linked_bucket_less [OF l1, of ?c] l1 by (simp add: linked_def bucket_of_def)
    then have "PhpAddEntryHashtable h e True = Some (of_nat f, True, ?h)"
      using head(1) loop None t(1,3) head1(1)
      by (simp add: PhpAddEntryHashtable_def Let_def hf put_entry_def put_bucket_def fu link_def bucket_of_def)
    moreover have new1: "\<not> eq (Body (ent h1 j)) e" if "j \<in> ?U" for j
    proof -
      have "body_at h j = Some (Body (ent h j))" using that by (simp add: body_at_def)
      then show ?thesis using new t(7) that by simp
    qed
    have inv': "ht_inv eq hash (insert f ?U) F1 ?h"
      using count room new1 by (intro inv_link [OF t(2,4,5,3)]) auto
    have ent: "Body (ent ?h j) = (if j = f then e else Body (ent h1 j))"
      "HashCode (ent ?h j) = (if j = f then ?c else HashCode (ent h1 j))" for j
      using ent_link [OF t(3), of ?e j] by (simp_all add: ent_def)
    have unused: "HashCode (ent ?h j) = - 1" if "j \<in> F1" for j
      using t(5,8) that ent(2) by (auto simp: in_use_def)
    have cover: "{..< unat (NextEntry ?h)} = insert f ?U \<union> F1" using t(6) by (simp add: link_def Let_def)
    have "j \<in> insert f ?U \<longleftrightarrow> j < unat (NextEntry ?h) \<and> HashCode (ent ?h j) \<noteq> - 1" for j
    proof (cases "j \<in> F1")
      case True
      then show ?thesis using unused t(5,8) by auto
    next
      case False
      have "HashCode (ent ?h j) \<noteq> - 1" if j: "j \<in> insert f ?U"
      proof (cases "j = f")
        case False
        then have "j \<in> ?U" using j by blast
        then show ?thesis using t(7) False unfolding ent(2) by (simp add: in_use_def)
      qed (simp add: ent(2))
      moreover have "j < unat (NextEntry ?h) \<longleftrightarrow> j \<in> insert f ?U" using cover False by blast
      ultimately show ?thesis by blast
    qed
    then have use: "in_use ?h = insert f ?U" by (auto simp: in_use_def)
    have "{..< unat (NextEntry ?h)} - insert f ?U = F1" using cover t(5,8) by auto
    then have "ok ?h" using inv' by (simp only: ht_ok_def use)
    moreover have "body_at h f = None" using t(4) by (simp add: body_at_def)
    moreover have "body_at ?h = (body_at h)(f \<mapsto> e)"
      using t(4,7) by (auto simp: body_at_def use ent)
    moreover have "unat (hCount h1) = unat (hCount h)" using t(2) count by (simp add: ht_inv_def)
    then have "hCount ?h = hCount h + 1" by (simp only: word_unat_eq_iff [symmetric]) simp
    ultimately show ?thesis using new by blast
  qed
qed

lemma remove_entry:
  assumes ok: "ok h"
  shows "(\<exists>i b h'. body_at h i = Some b \<and> eq b e \<and> PhRemoveEntryHashtable h e = Some (True, h') \<and> ok h' \<and>
      body_at h' = (body_at h)(i := None) \<and> hCount h' = hCount h - 1) \<or>
    ((\<forall>i b. body_at h i = Some b \<longrightarrow> \<not> eq b e) \<and> PhRemoveEntryHashtable h e = Some (False, h))"
proof -
  have inv: "ht_inv eq hash (in_use h) ({..< unat (NextEntry h)} - in_use h) h" (is "ht_inv eq hash ?U ?F h")
    using ok by (simp add: ht_ok_def)
  obtain ch where l: "linked h ?U ch" using inv by (auto simp: ht_inv_def)
  have hf: "HashFunction h = hash" using inv by (simp add: ht_inv_def)
  let ?c = "PhpValidateHash (hash e)"
  let ?b = "bucket_of h ?c"
  let ?found = "List.find (hit h ?c e) (ch ?b)"
  note head = bucket_head [OF l, of ?c]
  note loop = remove_loop_chain [OF head(2) linked_length [OF l], of ?c e "- 1"]
  show ?thesis
  proof (cases ?found)
    case None
    then have "PhRemoveEntryHashtable h e = Some (False, h)"
      using head(1) loop by (simp add: PhRemoveEntryHashtable_def Let_def hf)
    then show ?thesis using search [OF ok l refl, of e] None by simp
  next
    case (Some k)
    then obtain xs ys where xs: "ch ?b = xs @ k # ys" "remove_loop h ?c e (Buckets h ! ?b) (- 1) =
        Some (Some (of_nat k, (if xs = [] then - 1 else of_nat (last xs)), ent h k))"
      using loop by auto
    have found: "body_at h k = Some (Body (ent h k))" "eq (Body (ent h k)) e"
      using search [OF ok l refl, of e] Some by auto
    have kU: "k \<in> ?U" using found(1) by (auto simp: body_at_def split: if_split_asm)
    have member: "j < length (Entries h) \<and> Entries h ! j = Some (ent h j) \<and> unat (of_nat j :: u32) = j"
      if "j \<in> set (ch ?b)" for j
      using hchain_member [OF head(2) that] linked_length [OF l] by (auto simp: ent_def)
    have k: "k < length (Entries h)" "unat (of_nat k :: u32) = k" using member xs(1) by auto
    have last: "last xs < length (Entries h)" "Entries h ! last xs = Some (ent h (last xs))"
      "unat (of_nat (last xs) :: u32) = last xs" "(of_nat (last xs) :: u32) \<noteq> - 1" if "xs \<noteq> []"
      using member [of "last xs"] xs(1) that linked_length [OF l] by (auto intro!: minus_one_not_index)
    have b: "?b < length (Buckets h)" using linked_bucket_less [OF l] l by (simp add: linked_def)
    define x where "x = (ent h k)\<lparr> HashCode := - 1, NextIndex := FreeEntry h \<rparr>"
    define h' where "h' = h\<lparr> Buckets := (if xs = [] then (Buckets h)[?b := NextIndex (ent h k)] else Buckets h),
      Entries := (if xs = [] then Entries h
         else (Entries h)[last xs := Some ((ent h (last xs))\<lparr> NextIndex := NextIndex (ent h k) \<rparr>)])[k := Some x],
      FreeEntry := of_nat k, hCount := hCount h - 1 \<rparr>"
    have result: "PhRemoveEntryHashtable h e = Some (True, h')"
      using head(1) xs(2) b k last
      by (cases "xs = []") (simp_all add: PhRemoveEntryHashtable_def Let_def hf h'_def x_def put_bucket_def
          put_entry_def get_entry_def bucket_of_def)
    have linked': "linked h' (?U - {k}) (ch(?b := xs @ ys))"
      by (rule linked_unlink [OF l xs(1) linked_bucket_less [OF l], where p = "ent h (last xs)" and x = x])
        (simp_all add: h'_def)
    have ent': "HashCode (ent h' j) = (if j = k then - 1 else HashCode (ent h j))"
      "Body (ent h' j) = Body (ent h j)" for j
      using k(1) last by (auto simp: ent_def h'_def x_def nth_list_update)
    have use: "in_use h' = ?U - {k}" by (auto simp: in_use_def ent'(1)) (auto simp: h'_def)
    have kN: "k < unat (NextEntry h)" using kU by (simp add: in_use_def)
    have free: "{..< unat (NextEntry h')} - in_use h' = insert k ?F" using kN by (auto simp: use) (auto simp: h'_def)
    obtain fs where fs: "hchain (Entries h) (FreeEntry h) fs" "distinct fs" "set fs = ?F"
      using inv by (auto simp: ht_inv_def)
    have "k \<notin> set fs" using fs(3) kU by simp
    moreover have "last xs \<notin> set fs" if "xs \<noteq> []"
    proof -
      have "last xs \<in> set (ch ?b)" using that xs(1) by simp
      then have "last xs \<in> ?U" using l linked_bucket_less [OF l, of ?c] unfolding linked_def by blast
      then show ?thesis using fs(3) by simp
    qed
    ultimately have "hchain (Entries h') (FreeEntry h') (k # fs)"
      using fs(1) k last by (simp add: h'_def x_def hchain_update)
    then have "\<exists>fs'. hchain (Entries h') (FreeEntry h') fs' \<and> distinct fs' \<and> set fs' = insert k ?F"
      using fs(2,3) \<open>k \<notin> set fs\<close> by (intro exI [of _ "k # fs"]) simp
    moreover have "unat (hCount h - 1) = card (?U - {k})"
    proof -
      have "unat (hCount h) = card ?U" using inv by (simp add: ht_inv_def)
      moreover have "card ?U \<noteq> 0" using kU by auto
      ultimately have "hCount h \<noteq> 0" "unat (hCount h) = card ?U" by auto
      then show ?thesis using kU by (simp add: unat_minus_one)
    qed
    ultimately have "ht_inv eq hash (in_use h') ({..< unat (NextEntry h')} - in_use h') h'"
      using inv linked' unfolding free by (auto simp: ht_inv_def use ent') (auto simp: h'_def)
    then have "ok h'" by (simp add: ht_ok_def)
    moreover have "body_at h' = (body_at h)(k := None)" by (auto simp: body_at_def use ent')
    moreover have "hCount h' = hCount h - 1" by (simp add: h'_def)
    ultimately show ?thesis using found result by blast
  qed
qed

lemma clear_ok:
  assumes ok: "ok h" shows "ok (PhClearHashtable h)" and "in_use (PhClearHashtable h) = {}"
proof -
  have inv: "ht_inv eq hash (in_use h) ({..< unat (NextEntry h)} - in_use h) h"
    using ok by (simp add: ht_ok_def)
  then obtain ch where l: "linked h (in_use h) ch" by (auto simp: ht_inv_def)
  show empty: "in_use (PhClearHashtable h) = {}"
  proof (cases "hCount h > 0")
    case False
    then have "hCount h = 0" by (simp add: word_gt_0)
    then have "card (in_use h) = 0" using inv by (simp add: ht_inv_def)
    then show ?thesis using False by (simp add: PhClearHashtable_def)
  qed (simp add: PhClearHashtable_def in_use_def)
  show "ok (PhClearHashtable h)"
  proof (cases "hCount h > 0")
    case True
    let ?h = "PhClearHashtable h"
    have sel: "AllocatedBuckets ?h = AllocatedBuckets h" "Entries ?h = Entries h" "NextEntry ?h = 0"
      "Buckets ?h = replicate (unat (AllocatedBuckets h)) (- 1)" "FreeEntry ?h = - 1" "hCount ?h = 0"
      "EqualFunction ?h = EqualFunction h" "HashFunction ?h = HashFunction h"
      "AllocatedEntries ?h = AllocatedEntries h"
      using True by (simp_all add: PhClearHashtable_def)
    have "linked ?h {} (\<lambda>_. [])" using l unfolding linked_def sel by simp
    moreover have "hchain (Entries ?h) (FreeEntry ?h) [] \<and> distinct ([] :: nat list) \<and> set [] = ({} :: nat set)"
      by (simp add: sel)
    ultimately have "ht_inv eq hash {} {} ?h"
      using inv unfolding ht_inv_def sel by (auto simp del: hchain.simps)
    then show ?thesis using empty by (simp add: ht_ok_def sel(3))
  qed (simp add: PhClearHashtable_def ok)
qed

lemma create_ok:
  assumes "unat cap \<le> 2 ^ 31" shows "ok (PhCreateHashtable eq hash cap)"
    and "in_use (PhCreateHashtable eq hash cap) = {}"
proof -
  let ?h = "PhCreateHashtable eq hash cap" and ?cap = "if cap = 0 then 1 else cap"
  have "0 < unat ?cap" "unat ?cap \<le> 2 ^ 31" using assms by (auto simp: unat_gt_0)
  then obtain k where k: "k \<le> 31" "PhRoundUpToPowerOfTwo ?cap = 2 ^ k" by (rule round_up_power)
  have sel: "AllocatedBuckets ?h = 2 ^ k" "Entries ?h = replicate (unat (2 ^ k :: u32)) None" "NextEntry ?h = 0"
    "Buckets ?h = replicate (unat (2 ^ k :: u32)) (- 1)" "FreeEntry ?h = - 1" "hCount ?h = 0"
    "EqualFunction ?h = eq" "HashFunction ?h = hash" "AllocatedEntries ?h = 2 ^ k"
    by (simp_all add: PhCreateHashtable_def PhpGetNumberOfBuckets_def PhAllocate_def k(2) [simplified] Let_def)
  show empty: "in_use ?h = {}" by (simp add: in_use_def sel(3))
  have "linked ?h {} (\<lambda>_. [])" using k(1) unfolding linked_def sel by auto
  moreover have "hchain (Entries ?h) (FreeEntry ?h) [] \<and> distinct ([] :: nat list) \<and> set [] = ({} :: nat set)"
    by (simp add: sel)
  ultimately have "ht_inv eq hash {} {} ?h"
    unfolding ht_inv_def sel by (auto simp del: hchain.simps)
  then show "ok ?h" using empty by (simp add: ht_ok_def sel(3))
qed

text \<open>Every entry below NextEntry can be read, so an enumeration passes over those not in use.\<close>

lemma ok_readable: "ok h \<Longrightarrow> i < unat (NextEntry h) \<Longrightarrow> i < length (Entries h) \<and> Entries h ! i \<noteq> None"
  using ht_inv_size(3) [of eq hash "in_use h" "{..< unat (NextEntry h)} - in_use h" h] by (auto simp: ht_ok_def)


end

section \<open>The simple hashtable as a map\<close>

interpretation simple: hash_functions PhpSimpleHashtableEqualFunction PhpSimpleHashtableHashFunction
  by unfold_locales (auto simp: PhpSimpleHashtableEqualFunction_def PhpSimpleHashtableHashFunction_def)

abbreviation simple_ok :: "PH_KEY_VALUE_PAIR PH_HASHTABLE \<Rightarrow> bool" where
  "simple_ok \<equiv> ht_ok PhpSimpleHashtableEqualFunction PhpSimpleHashtableHashFunction"

definition simple_map :: "PH_KEY_VALUE_PAIR PH_HASHTABLE \<Rightarrow> u64 \<Rightarrow> u64 option" where
  "simple_map h = map_of (map (\<lambda>b. (Key b, Value b)) (bodies h))"

lemma simple_eq: "PhpSimpleHashtableEqualFunction a b \<longleftrightarrow> Key a = Key b"
  by (simp add: PhpSimpleHashtableEqualFunction_def)

lemma simple_map_iff:
  assumes ok: "simple_ok h"
  shows "simple_map h k = Some v \<longleftrightarrow> (\<exists>i. body_at h i = Some \<lparr> Key = k, Value = v \<rparr>)"
proof -
  have inj: "i = j" if "i \<in> in_use h" "j \<in> in_use h" "Key (Body (ent h i)) = Key (Body (ent h j))" for i j
    using ok that by (auto simp: ht_ok_def ht_inv_def simple_eq)
  have "set (used_from h 0) = in_use h" by (auto simp: used_from_def in_use_def)
  then have "distinct (map Key (bodies h))"
    using inj by (auto simp: bodies_def distinct_map inj_on_def used_from_def)
  then have "simple_map h k = Some v \<longleftrightarrow> (k, v) \<in> set (map (\<lambda>b. (Key b, Value b)) (bodies h))"
    unfolding simple_map_def by (intro map_of_eq_Some_iff) (simp add: comp_def)
  also have "\<dots> \<longleftrightarrow> \<lparr> Key = k, Value = v \<rparr> \<in> set (bodies h)"
  proof
    assume "(k, v) \<in> set (map (\<lambda>b. (Key b, Value b)) (bodies h))"
    then obtain b where b: "b \<in> set (bodies h)" "Key b = k" "Value b = v" by auto
    then have "b = \<lparr> Key = k, Value = v \<rparr>" by simp
    then show "\<lparr> Key = k, Value = v \<rparr> \<in> set (bodies h)" using b(1) by simp
  qed force
  finally show ?thesis by (simp add: set_bodies)
qed

lemma simple_map_none:
  assumes ok: "simple_ok h"
  shows "simple_map h k = None \<longleftrightarrow> (\<forall>i b. body_at h i = Some b \<longrightarrow> Key b \<noteq> k)"
proof -
  have "simple_map h k = None \<longleftrightarrow> (\<forall>v. simple_map h k \<noteq> Some v)" by auto
  also have "\<dots> \<longleftrightarrow> (\<forall>v i. body_at h i \<noteq> Some \<lparr> Key = k, Value = v \<rparr>)" using simple_map_iff [OF ok] by simp
  also have "\<dots> \<longleftrightarrow> (\<forall>i b. body_at h i = Some b \<longrightarrow> Key b \<noteq> k)"
  proof (intro iffI allI impI notI)
    fix i b assume a: "\<forall>v i. body_at h i \<noteq> Some \<lparr> Key = k, Value = v \<rparr>" "body_at h i = Some b" "Key b = k"
    then have "b = \<lparr> Key = k, Value = Value b \<rparr>" by simp
    then show False using a by metis
  qed (metis PH_KEY_VALUE_PAIR.select_convs(1))
  finally show ?thesis .
qed

lemma simple_find:
  assumes ok: "simple_ok h"
  shows "\<exists>r. PhFindItemSimpleHashtable h k = Some r \<and>
    map_option (\<lambda>i. Value (Body (ent h (unat i)))) r = simple_map h k"
proof -
  let ?e = "\<lparr> Key = k, Value = 0 \<rparr>"
  have "r = None \<or> (\<exists>i. r = Some (of_nat i) \<and> i \<in> in_use h \<and> Key (Body (ent h i)) = k)"
    if "PhFindItemSimpleHashtable h k = Some r" for r
    using simple.find_entry [OF ok, of ?e] that
    by (auto simp: PhFindItemSimpleHashtable_def simple_eq body_at_def split: if_split_asm)
  show ?thesis
    using simple.find_entry [OF ok, of ?e]
  proof (elim disjE exE conjE)
    fix i b assume f: "body_at h i = Some b" "PhpSimpleHashtableEqualFunction b ?e"
      "PhFindEntryHashtable h ?e = Some (Some (of_nat i))"
    have i: "i < unat (NextEntry h)" "Body (ent h i) = b" using f(1) by (auto simp: body_at_def in_use_def split: if_split_asm)
    then have u: "unat (of_nat i :: u32) = i" using unat_lt_u32 [of "NextEntry h"] by (intro unat_of_nat_u32) linarith
    have "b = \<lparr> Key = k, Value = Value b \<rparr>" using f(2) by (simp add: simple_eq)
    then have "simple_map h k = Some (Value b)" using simple_map_iff [OF ok] f(1) by metis
    then show ?thesis using f(3) i u by (simp add: PhFindItemSimpleHashtable_def)
  next
    assume f: "\<forall>i b. body_at h i = Some b \<longrightarrow> \<not> PhpSimpleHashtableEqualFunction b ?e"
      "PhFindEntryHashtable h ?e = Some None"
    then show ?thesis using simple_map_none [OF ok, of k] by (simp add: PhFindItemSimpleHashtable_def simple_eq)
  qed
qed

lemma simple_add:
  assumes ok: "simple_ok h" and room: "unat (hCount h) < 2 ^ 31"
  shows "\<exists>h'. PhAddItemSimpleHashtable h k v = Some (if simple_map h k = None then v else 0, h') \<and>
    simple_ok h' \<and> simple_map h' = (if simple_map h k = None then (simple_map h)(k \<mapsto> v) else simple_map h) \<and>
    unat (hCount h') \<le> Suc (unat (hCount h))"
  using simple.add_entry [OF ok room, of "\<lparr> Key = k, Value = v \<rparr>"]
proof (elim disjE exE conjE)
  let ?e = "\<lparr> Key = k, Value = v \<rparr>"
  fix i b assume a: "body_at h i = Some b" "PhpSimpleHashtableEqualFunction b ?e"
    "PhpAddEntryHashtable h ?e True = Some (of_nat i, False, h)"
  then have "simple_map h k \<noteq> None" using simple_map_none [OF ok, of k] by (auto simp: simple_eq)
  then show ?thesis using a(3) ok by (auto simp: PhAddItemSimpleHashtable_def PhAddEntryHashtable_def)
next
  let ?e = "\<lparr> Key = k, Value = v \<rparr>"
  fix f h' assume a: "\<forall>i b. body_at h i = Some b \<longrightarrow> \<not> PhpSimpleHashtableEqualFunction b ?e"
    "PhpAddEntryHashtable h ?e True = Some (of_nat f, True, h')" "simple_ok h'" "body_at h f = None"
    "body_at h' = (body_at h)(f \<mapsto> ?e)" "hCount h' = hCount h + 1"
  have none: "simple_map h k = None" using a(1) simple_map_none [OF ok, of k] by (simp add: simple_eq)
  have "simple_map h' j = Some w \<longleftrightarrow> ((simple_map h)(k \<mapsto> v)) j = Some w" for j w
  proof (cases "j = k")
    case True
    have "body_at h' i = Some \<lparr> Key = j, Value = w \<rparr> \<longleftrightarrow> i = f \<and> w = v" for i
    proof -
      have "body_at h i \<noteq> Some \<lparr> Key = k, Value = w \<rparr>"
        using a(1) [rule_format, of i "\<lparr> Key = k, Value = w \<rparr>"] by (auto simp: simple_eq)
      then show ?thesis using True by (auto simp: a(5))
    qed
    then show ?thesis using True by (auto simp: simple_map_iff [OF a(3)])
  next
    case False
    have "body_at h' i = Some \<lparr> Key = j, Value = w \<rparr> \<longleftrightarrow> body_at h i = Some \<lparr> Key = j, Value = w \<rparr>" for i
      using False a(4) by (auto simp: a(5))
    then show ?thesis using False by (simp add: simple_map_iff [OF a(3)] simple_map_iff [OF ok])
  qed
  then have "simple_map h' = (simple_map h)(k \<mapsto> v)" by (intro ext) (metis not_Some_eq)
  moreover have "unat (hCount h') \<le> Suc (unat (hCount h))" using room by (simp add: a(6) count_suc)
  ultimately show ?thesis using a(2,3) none by (simp add: PhAddItemSimpleHashtable_def PhAddEntryHashtable_def)
qed

lemma simple_remove:
  assumes ok: "simple_ok h"
  shows "\<exists>h'. PhRemoveItemSimpleHashtable h k = Some (simple_map h k \<noteq> None, h') \<and> simple_ok h' \<and>
    simple_map h' = (simple_map h)(k := None) \<and> unat (hCount h') \<le> unat (hCount h)"
  using simple.remove_entry [OF ok, of "\<lparr> Key = k, Value = 0 \<rparr>"]
proof (elim disjE exE conjE)
  let ?e = "\<lparr> Key = k, Value = 0 \<rparr>"
  fix i b h' assume r: "body_at h i = Some b" "PhpSimpleHashtableEqualFunction b ?e"
    "PhRemoveEntryHashtable h ?e = Some (True, h')" "simple_ok h'" "body_at h' = (body_at h)(i := None)"
    "hCount h' = hCount h - 1"
  have k: "Key b = k" using r(2) by (simp add: simple_eq)
  have some: "simple_map h k \<noteq> None" using r(1) k simple_map_none [OF ok, of k] by auto
  have uniq: "j = i" if "body_at h j = Some c" "Key c = k" for j c
    using ok that r(1) k by (auto simp: body_at_def ht_ok_def ht_inv_def simple_eq split: if_split_asm)
  have "simple_map h' j = Some w \<longleftrightarrow> ((simple_map h)(k := None)) j = Some w" for j w
  proof (cases "j = k")
    case True
    have "body_at h' i \<noteq> Some \<lparr> Key = j, Value = w \<rparr>" for i
      using uniq [of _ "\<lparr> Key = j, Value = w \<rparr>"] True by (auto simp: r(5))
    then show ?thesis using True by (simp add: simple_map_iff [OF r(4)])
  next
    case False
    have "body_at h' n = Some \<lparr> Key = j, Value = w \<rparr> \<longleftrightarrow> body_at h n = Some \<lparr> Key = j, Value = w \<rparr>" for n
      using False r(1) k by (auto simp: r(5))
    then show ?thesis using False by (simp add: simple_map_iff [OF r(4)] simple_map_iff [OF ok])
  qed
  then have "simple_map h' = (simple_map h)(k := None)" by (intro ext) (metis not_Some_eq)
  moreover have "unat (hCount h') \<le> unat (hCount h)"
  proof (cases "hCount h = 0")
    case True
    then have "in_use h = {}" using ok by (simp add: ht_ok_def ht_inv_def)
    then show ?thesis using r(1) by (simp add: body_at_def)
  qed (simp add: r(6) unat_minus_one)
  ultimately show ?thesis using r(3,4) some by (simp add: PhRemoveItemSimpleHashtable_def)
next
  let ?e = "\<lparr> Key = k, Value = 0 \<rparr>"
  assume r: "\<forall>i b. body_at h i = Some b \<longrightarrow> \<not> PhpSimpleHashtableEqualFunction b ?e"
    "PhRemoveEntryHashtable h ?e = Some (False, h)"
  then have "simple_map h k = None" using simple_map_none [OF ok, of k] by (simp add: simple_eq)
  then show ?thesis using r(2) ok by (auto simp: PhRemoveItemSimpleHashtable_def fun_upd_idem)
qed

lemma simple_clear: "simple_ok h \<Longrightarrow> simple_ok (PhClearHashtable h) \<and> simple_map (PhClearHashtable h) = Map.empty \<and>
    unat (hCount (PhClearHashtable h)) \<le> unat (hCount h)"
  using simple.clear_ok [of h]
  by (auto simp: simple_map_def bodies_def used_from_def in_use_def PhClearHashtable_def filter_empty_conv)


section \<open>Scripts of operations\<close>

datatype table_op = AddItem u64 u64 | FindItem u64 | RemoveItem u64 | Clear

datatype table_result = Added u64 | Found "u64 option" | Removed bool | Cleared

fun table_step :: "table_op \<Rightarrow> PH_KEY_VALUE_PAIR PH_HASHTABLE \<Rightarrow>
    (table_result \<times> PH_KEY_VALUE_PAIR PH_HASHTABLE) option" where
  "table_step (AddItem k v) h = map_option (\<lambda>(r, h'). (Added r, h')) (PhAddItemSimpleHashtable h k v)"
| "table_step (FindItem k) h =
     map_option (\<lambda>r. (Found (map_option (\<lambda>i. Value (Body (ent h (unat i)))) r), h)) (PhFindItemSimpleHashtable h k)"
| "table_step (RemoveItem k) h = map_option (\<lambda>(r, h'). (Removed r, h')) (PhRemoveItemSimpleHashtable h k)"
| "table_step Clear h = Some (Cleared, PhClearHashtable h)"

fun map_step :: "table_op \<Rightarrow> (u64 \<Rightarrow> u64 option) \<Rightarrow> table_result \<times> (u64 \<Rightarrow> u64 option)" where
  "map_step (AddItem k v) m = (if m k = None then (Added v, m(k \<mapsto> v)) else (Added 0, m))"
| "map_step (FindItem k) m = (Found (m k), m)"
| "map_step (RemoveItem k) m = (Removed (m k \<noteq> None), m(k := None))"
| "map_step Clear m = (Cleared, Map.empty)"

fun run_table :: "table_op list \<Rightarrow> PH_KEY_VALUE_PAIR PH_HASHTABLE \<Rightarrow>
    (table_result list \<times> PH_KEY_VALUE_PAIR PH_HASHTABLE) option" where
  "run_table [] h = Some ([], h)"
| "run_table (t # ts) h =
     Option.bind (table_step t h) (\<lambda>(r, h1). map_option (\<lambda>(rs, h2). (r # rs, h2)) (run_table ts h1))"

fun run_map :: "table_op list \<Rightarrow> (u64 \<Rightarrow> u64 option) \<Rightarrow> table_result list \<times> (u64 \<Rightarrow> u64 option)" where
  "run_map [] m = ([], m)"
| "run_map (t # ts) m = (let (r, m1) = map_step t m; (rs, m2) = run_map ts m1 in (r # rs, m2))"

lemma table_step_refines:
  assumes ok: "simple_ok h" and room: "unat (hCount h) < 2 ^ 31"
  shows "\<exists>r h'. table_step t h = Some (r, h') \<and> simple_ok h' \<and> map_step t (simple_map h) = (r, simple_map h') \<and>
    unat (hCount h') \<le> Suc (unat (hCount h))"
proof (cases t)
  case (AddItem k v)
  then show ?thesis using simple_add [OF ok room, of k v] by auto
next
  case (FindItem k)
  then show ?thesis using simple_find [OF ok, of k] ok by auto
next
  case (RemoveItem k)
  then show ?thesis using simple_remove [OF ok, of k] by (auto intro: le_SucI)
next
  case Clear
  then show ?thesis using simple_clear [OF ok] by (auto intro: le_SucI)
qed

lemma run_table_refines:
  "simple_ok h \<Longrightarrow> unat (hCount h) + length ts \<le> 2 ^ 31 \<Longrightarrow>
   \<exists>rs h'. run_table ts h = Some (rs, h') \<and> simple_ok h' \<and> run_map ts (simple_map h) = (rs, simple_map h')"
proof (induction ts arbitrary: h)
  case (Cons t ts)
  obtain r h1 where 1: "table_step t h = Some (r, h1)" "simple_ok h1" "map_step t (simple_map h) = (r, simple_map h1)"
    "unat (hCount h1) \<le> Suc (unat (hCount h))"
    using table_step_refines [OF Cons.prems(1), of t] Cons.prems(2) by auto
  obtain rs h2 where "run_table ts h1 = Some (rs, h2)" "simple_ok h2" "run_map ts (simple_map h1) = (rs, simple_map h2)"
    using Cons.IH [OF 1(2)] 1(4) Cons.prems(2) by auto
  then show ?case using 1 by simp
qed simp

section \<open>Properties\<close>

text \<open>
  C9: a simple hashtable created with a capacity of at most 2^31 is a map from keys to values. Every
  script of at most 2^31 additions, look-ups, removals and clearings runs without a fault and without
  an endless chain, and gives the results it gives on a map: an addition answers the value if the key
  was absent and leaves the table alone otherwise, a look-up finds the value last added, a removal
  tells whether the key was present. Keys are all 64-bit values; 0, the NULL pointer, is a key like any
  other, and its removal removes it. This holds through the growing of the buckets, the reuse of
  removed entries and colliding hash codes.
\<close>

theorem simple_hashtable_script:
  assumes "unat cap \<le> 2 ^ 31" and "length ts \<le> 2 ^ 31"
  shows "\<exists>rs h. run_table ts (PhCreateSimpleHashtable cap) = Some (rs, h) \<and>
    run_map ts Map.empty = (rs, simple_map h)"
proof -
  note create = simple.create_ok [OF assms(1)]
  have "hCount (PhCreateSimpleHashtable cap) = 0"
    by (simp add: PhCreateSimpleHashtable_def PhCreateHashtable_def Let_def)
  moreover have "simple_map (PhCreateSimpleHashtable cap) = Map.empty"
    using create(2) by (simp add: simple_map_def bodies_def used_from_def in_use_def PhCreateSimpleHashtable_def
        filter_empty_conv)
  moreover have "simple_ok (PhCreateSimpleHashtable cap)" using create(1) by (simp add: PhCreateSimpleHashtable_def)
  ultimately show ?thesis using run_table_refines [of "PhCreateSimpleHashtable cap" ts] assms(2) by auto
qed

theorem simple_hashtable_script_witness:
  "\<exists>rs h. run_table [AddItem 5 7, AddItem 6 8, AddItem 5 9, RemoveItem 6, FindItem 5, FindItem 6]
      (PhCreateSimpleHashtable 1) = Some (rs, h) \<and>
    rs = [Added 7, Added 8, Added 0, Removed True, Found (Some 7), Found None]"
  using simple_hashtable_script
    [of 1 "[AddItem 5 7, AddItem 6 8, AddItem 5 9, RemoveItem 6, FindItem 5, FindItem 6]"]
  by auto

text \<open>
  A loop over PhEnumHashtable from key 0, as its callers write it, ends after one call more than
  there are entries and returns the entries of a well-formed table, each exactly once and no two of
  them equal under the comparison of the table.
\<close>

theorem enumeration_complete:
  assumes "ht_ok eq hash h"
  shows "enum_all h 0 (Suc (unat (hCount h))) = Some (bodies h) \<and>
    length (bodies h) = unat (hCount h) \<and> set (bodies h) = {b. \<exists>i. body_at h i = Some b} \<and>
    (\<forall>i < length (bodies h). \<forall>j < length (bodies h). eq (bodies h ! i) (bodies h ! j) \<longrightarrow> i = j)"
proof -
  have inv: "ht_inv eq hash (in_use h) ({..< unat (NextEntry h)} - in_use h) h"
    using assms by (simp add: ht_ok_def)
  have read: "j < length (Entries h) \<and> Entries h ! j \<noteq> None" if "j < unat (NextEntry h)" for j
    using ht_inv_size(3) [OF inv] that by auto
  have set: "set (used_from h 0) = in_use h" and dis: "distinct (used_from h 0)"
    by (auto simp: used_from_def in_use_def)
  then have len: "length (bodies h) = unat (hCount h)"
    using inv distinct_card [OF dis] by (simp add: bodies_def ht_inv_def)
  then have "enum_all h 0 (Suc (unat (hCount h))) = Some (bodies h)"
    using enum_all_bodies [OF read, of 0 "Suc (unat (hCount h))"] by (simp add: bodies_def)
  moreover have "i = j" if ij: "i < length (bodies h)" "j < length (bodies h)" "eq (bodies h ! i) (bodies h ! j)" for i j
  proof -
    have "used_from h 0 ! i \<in> in_use h" "used_from h 0 ! j \<in> in_use h"
      using ij set nth_mem by (auto simp: bodies_def)
    then have "used_from h 0 ! i = used_from h 0 ! j"
      using inv ij by (simp add: ht_inv_def bodies_def)
    then show ?thesis using dis ij by (simp add: bodies_def nth_eq_iff_index_eq)
  qed
  moreover have "set (bodies h) = {b. \<exists>i. body_at h i = Some b}" by (auto simp: set_bodies)
  ultimately show ?thesis using len by blast
qed

theorem enumeration_complete_witness:
  "\<exists>h. PhAddItemSimpleHashtable (PhCreateSimpleHashtable 4) 5 7 = Some (7, h) \<and>
     enum_all h 0 (Suc (unat (hCount h))) = Some (bodies h)"
proof -
  let ?h = "PhCreateSimpleHashtable 4"
  have ok: "simple_ok ?h"
    using simple.create_ok(1) [of 4] by (simp add: PhCreateSimpleHashtable_def)
  have count: "hCount ?h = 0" by (simp add: PhCreateSimpleHashtable_def PhCreateHashtable_def Let_def)
  have "in_use ?h = {}" using simple.create_ok(2) [of 4] by (simp add: PhCreateSimpleHashtable_def)
  then have "simple_map ?h 5 = None" using simple_map_none [OF ok, of 5] by (simp add: body_at_def)
  then obtain h where h: "PhAddItemSimpleHashtable ?h 5 7 = Some (7, h)" "simple_ok h"
    using simple_add [OF ok, of 5 7] by (auto simp: count)
  then show ?thesis using enumeration_complete [OF h(2)] by blast
qed

text \<open>
  PhRoundUpToPowerOfTwo gives the smallest power of two that is not below its argument, for
  arguments from 1 to 2^31; for 0 and above 2^31 the result is 0 (with which PhCreateHashtable would
  make a table without buckets).
\<close>

theorem round_up_to_power_of_two:
  "if 0 < unat n \<and> unat n \<le> 2 ^ 31
   then \<exists>k \<le> 31. PhRoundUpToPowerOfTwo n = 2 ^ k \<and> unat n \<le> 2 ^ k \<and> 2 ^ k < 2 * unat n
   else PhRoundUpToPowerOfTwo n = 0"
proof (cases "0 < unat n \<and> unat n \<le> 2 ^ 31")
  case True
  then show ?thesis using round_up_power [of n] by auto
next
  case False
  have high: "bit (n - 1) 31"
  proof (cases "n = 0")
    case True
    then show ?thesis by simp
  next
    case n: False
    then have "2 ^ 31 \<le> unat (n - 1)" using False by (simp add: unat_minus_one unat_gt_0)
    moreover have "unat (n - 1) < 2 ^ 32" by simp
    ultimately have "unat (n - 1) div 2 ^ 31 = 1" by (intro div_nat_eqI) auto
    then show ?thesis using bit_unsigned_iff [of "n - 1" 31, where 'a = nat] bit_iff_odd [of "unat (n - 1)" 31] by simp
  qed
  obtain y where y: "PhRoundUpToPowerOfTwo n = y + 1" "\<And>i. bit y i \<longleftrightarrow> (\<exists>d < 32. bit (n - 1) (i + d))"
    using round_up_bits [of n] by blast
  have "y = - 1"
  proof (rule bit_word_eqI)
    fix i assume "i < LENGTH(32)"
    then have "i < 32" by simp
    then have "bit (n - 1) (i + (31 - i))" "31 - i < 32" using high by simp_all
    then have "bit y i" unfolding y(2) by blast
    then show "bit y i \<longleftrightarrow> bit (- 1 :: u32) i" using \<open>i < 32\<close> by simp
  qed
  then show ?thesis unfolding if_not_P [OF False] using y(1) by simp
qed

end
