(* ===== verification/Unicode.thy ===== *)
theory Unicode
  imports TE_Prelude
begin

unbundle bit_operations_syntax

text \<open>
  The Unicode decoder and encoder of ProcessHacker/phlib/basestring.c and the conversions to and from
  ASCII. A result None means that the code raises a status (PhRaiseStatus). The conversions between
  UTF-8 and UTF-16 are left out: as the library is built they call the routines of ntdll, and their
  branches on the decoder and the encoder are not compiled.
\<close>

section \<open>The decoder\<close>

definition PH_UNICODE_UTF8 :: u8 where "PH_UNICODE_UTF8 = 0"
definition PH_UNICODE_UTF16 :: u8 where "PH_UNICODE_UTF16 = 1"
definition PH_UNICODE_UTF32 :: u8 where "PH_UNICODE_UTF32 = 2"
definition PH_UNICODE_MAX_CODE_POINT :: u32 where "PH_UNICODE_MAX_CODE_POINT = 0x10ffff"

lemmas unicode_constants [simp] = PH_UNICODE_UTF8_def PH_UNICODE_UTF16_def PH_UNICODE_UTF32_def
  PH_UNICODE_MAX_CODE_POINT_def

definition PH_UNICODE_UTF16_TO_HIGH_SURROGATE :: "u32 \<Rightarrow> u16" where
  "PH_UNICODE_UTF16_TO_HIGH_SURROGATE cp = ucast (drop_bit 10 cp) + 0xd7c0"

definition PH_UNICODE_UTF16_TO_LOW_SURROGATE :: "u32 \<Rightarrow> u16" where
  "PH_UNICODE_UTF16_TO_LOW_SURROGATE cp = ucast (cp AND 0x3ff) + 0xdc00"

definition PH_UNICODE_UTF16_IS_HIGH_SURROGATE :: "u32 \<Rightarrow> bool" where
  "PH_UNICODE_UTF16_IS_HIGH_SURROGATE c \<longleftrightarrow> 0xd800 \<le> c \<and> c \<le> 0xdbff"

definition PH_UNICODE_UTF16_IS_LOW_SURROGATE :: "u32 \<Rightarrow> bool" where
  "PH_UNICODE_UTF16_IS_LOW_SURROGATE c \<longleftrightarrow> 0xdc00 \<le> c \<and> c \<le> 0xdfff"

definition PH_UNICODE_UTF16_TO_CODE_POINT :: "u16 \<Rightarrow> u32 \<Rightarrow> u32" where
  "PH_UNICODE_UTF16_TO_CODE_POINT hi lo = push_bit 10 (ucast hi) + lo - 0x35fdc00"

text \<open>The members of the union are separate fields; a decoder uses those of its encoding only.\<close>

record PH_UNICODE_DECODER =
  Encoding :: u8
  State :: u8
  InputCount :: u8
  Input8 :: "u8 list"
  CodeUnit1 :: u8
  CodeUnit2 :: u8
  CodeUnit3 :: u8
  CodeUnit4 :: u8
  Input16 :: "u16 list"
  CodeUnit :: u16
  Input32 :: u32

definition PhInitializeUnicodeDecoder :: "u8 \<Rightarrow> PH_UNICODE_DECODER" where
  "PhInitializeUnicodeDecoder enc =
     \<lparr> Encoding = enc, State = 0, InputCount = 0, Input8 = [0, 0, 0, 0], CodeUnit1 = 0, CodeUnit2 = 0,
       CodeUnit3 = 0, CodeUnit4 = 0, Input16 = [0, 0], CodeUnit = 0, Input32 = 0 \<rparr>"

definition PhWriteUnicodeDecoder :: "PH_UNICODE_DECODER \<Rightarrow> u32 \<Rightarrow> (bool \<times> PH_UNICODE_DECODER) option" where
  "PhWriteUnicodeDecoder d codeUnit =
     (if Encoding d = PH_UNICODE_UTF8 then
        (if InputCount d \<ge> 4 then Some (False, d)
         else Some (True, d\<lparr> Input8 := (Input8 d)[unat (InputCount d) := ucast codeUnit],
                             InputCount := InputCount d + 1 \<rparr>))
      else if Encoding d = PH_UNICODE_UTF16 then
        (if InputCount d \<ge> 2 then Some (False, d)
         else Some (True, d\<lparr> Input16 := (Input16 d)[unat (InputCount d) := ucast codeUnit],
                             InputCount := InputCount d + 1 \<rparr>))
      else if Encoding d = PH_UNICODE_UTF32 then
        (if InputCount d \<ge> 1 then Some (False, d)
         else Some (True, d\<lparr> Input32 := codeUnit, InputCount := 1 \<rparr>))
      else None)"

text \<open>The result None inside is the return value FALSE.\<close>

definition PhpReadUnicodeDecoder :: "PH_UNICODE_DECODER \<Rightarrow> (u32 option \<times> PH_UNICODE_DECODER) option" where
  "PhpReadUnicodeDecoder d =
     (if Encoding d = PH_UNICODE_UTF8 then
        (if InputCount d = 0 then Some (None, d)
         else Some (Some (ucast (Input8 d ! 0)),
           d\<lparr> Input8 := [Input8 d ! 1, Input8 d ! 2, Input8 d ! 3, Input8 d ! 3],
              InputCount := InputCount d - 1 \<rparr>))
      else if Encoding d = PH_UNICODE_UTF16 then
        (if InputCount d = 0 then Some (None, d)
         else Some (Some (ucast (Input16 d ! 0)),
           d\<lparr> Input16 := [Input16 d ! 1, Input16 d ! 1], InputCount := InputCount d - 1 \<rparr>))
      else if Encoding d = PH_UNICODE_UTF32 then
        (if InputCount d = 0 then Some (None, d)
         else Some (Some (Input32 d), d\<lparr> InputCount := InputCount d - 1 \<rparr>))
      else None)"

definition PhpUnreadUnicodeDecoder :: "PH_UNICODE_DECODER \<Rightarrow> u32 \<Rightarrow> PH_UNICODE_DECODER option" where
  "PhpUnreadUnicodeDecoder d codeUnit =
     (if Encoding d = PH_UNICODE_UTF8 then
        (if InputCount d \<ge> 4 then None
         else Some (d\<lparr> Input8 := [ucast codeUnit, Input8 d ! 0, Input8 d ! 1, Input8 d ! 2],
                       InputCount := InputCount d + 1 \<rparr>))
      else if Encoding d = PH_UNICODE_UTF16 then
        (if InputCount d \<ge> 2 then None
         else Some (d\<lparr> Input16 := [ucast codeUnit, Input16 d ! 0], InputCount := InputCount d + 1 \<rparr>))
      else if Encoding d = PH_UNICODE_UTF32 then
        (if InputCount d \<ge> 1 then None else Some (d\<lparr> Input32 := codeUnit, InputCount := 1 \<rparr>))
      else None)"

text \<open>An iteration of the loop of PhDecodeUnicodeDecoder continues, or returns, or raises.\<close>

datatype iteration = Again PH_UNICODE_DECODER | Return "u32 option" PH_UNICODE_DECODER | Raise

definition PhpDecodeUtf8Error :: "PH_UNICODE_DECODER \<Rightarrow> nat \<Rightarrow> iteration" where
  "PhpDecodeUtf8Error d Which =
     (case Option.bind (if Which \<ge> 4 then PhpUnreadUnicodeDecoder d (ucast (CodeUnit4 d)) else Some d) (\<lambda>d.
           Option.bind (if Which \<ge> 3 then PhpUnreadUnicodeDecoder d (ucast (CodeUnit3 d)) else Some d) (\<lambda>d.
           if Which \<ge> 2 then PhpUnreadUnicodeDecoder d (ucast (CodeUnit2 d)) else Some d)) of
        None \<Rightarrow> Raise
      | Some d \<Rightarrow> Return (Some (ucast (CodeUnit1 d) + 0xdc00)) (d\<lparr> State := 0 \<rparr>))"

definition continuation :: "u32 \<Rightarrow> bool" where
  "continuation codeUnit \<longleftrightarrow> codeUnit AND 0xc0 = 0x80"

text \<open>The cases of the loop for UTF-8, by the state of the decoder.\<close>

definition utf8_iteration :: "PH_UNICODE_DECODER \<Rightarrow> iteration" where
  "utf8_iteration d =
     (case PhpReadUnicodeDecoder d of
        None \<Rightarrow> Raise
      | Some (None, d) \<Rightarrow> Return None d
      | Some (Some codeUnit, d) \<Rightarrow>
          if State d = 0 then
            (let d = d\<lparr> CodeUnit1 := ucast codeUnit \<rparr> in
             if codeUnit < 0x80 then Return (Some codeUnit) d
             else if codeUnit < 0xc2 then PhpDecodeUtf8Error d 1
             else if codeUnit < 0xe0 then Again (d\<lparr> State := 1 \<rparr>)
             else if codeUnit < 0xf0 then Again (d\<lparr> State := 2 \<rparr>)
             else if codeUnit < 0xf5 then Again (d\<lparr> State := 3 \<rparr>)
             else PhpDecodeUtf8Error d 1)
          else if State d = 1 then
            (let d = d\<lparr> CodeUnit2 := ucast codeUnit \<rparr> in
             if continuation codeUnit
             then Return (Some (push_bit 6 (ucast (CodeUnit1 d)) + codeUnit - 0x3080)) (d\<lparr> State := 0 \<rparr>)
             else PhpDecodeUtf8Error d 2)
          else if State d = 2 then
            (let d = d\<lparr> CodeUnit2 := ucast codeUnit \<rparr> in
             if continuation codeUnit \<and> (CodeUnit1 d \<noteq> 0xe0 \<or> codeUnit \<ge> 0xa0)
             then Again (d\<lparr> State := 4 \<rparr>) else PhpDecodeUtf8Error d 2)
          else if State d = 3 then
            (let d = d\<lparr> CodeUnit2 := ucast codeUnit \<rparr> in
             if continuation codeUnit \<and> (CodeUnit1 d \<noteq> 0xf0 \<or> codeUnit \<ge> 0x90) \<and>
                (CodeUnit1 d \<noteq> 0xf4 \<or> codeUnit < 0x90)
             then Again (d\<lparr> State := 5 \<rparr>) else PhpDecodeUtf8Error d 2)
          else if State d = 4 then
            (let d = d\<lparr> CodeUnit3 := ucast codeUnit \<rparr> in
             if continuation codeUnit
             then Return (Some (push_bit 12 (ucast (CodeUnit1 d)) + push_bit 6 (ucast (CodeUnit2 d)) +
                                codeUnit - 0xe2080)) (d\<lparr> State := 0 \<rparr>)
             else PhpDecodeUtf8Error d 3)
          else if State d = 5 then
            (let d = d\<lparr> CodeUnit3 := ucast codeUnit \<rparr> in
             if continuation codeUnit then Again (d\<lparr> State := 6 \<rparr>) else PhpDecodeUtf8Error d 3)
          else if State d = 6 then
            (let d = d\<lparr> CodeUnit4 := ucast codeUnit \<rparr> in
             if continuation codeUnit
             then Return (Some (push_bit 18 (ucast (CodeUnit1 d)) + push_bit 12 (ucast (CodeUnit2 d)) +
                                push_bit 6 (ucast (CodeUnit3 d)) + codeUnit - 0x3c82080)) (d\<lparr> State := 0 \<rparr>)
             else PhpDecodeUtf8Error d 4)
          else Return None d)"

definition utf16_iteration :: "PH_UNICODE_DECODER \<Rightarrow> iteration" where
  "utf16_iteration d =
     (case PhpReadUnicodeDecoder d of
        None \<Rightarrow> Raise
      | Some (None, d) \<Rightarrow> Return None d
      | Some (Some codeUnit, d) \<Rightarrow>
          if State d = 0 then
            (if PH_UNICODE_UTF16_IS_HIGH_SURROGATE codeUnit
             then Again (d\<lparr> CodeUnit := ucast codeUnit, State := 1 \<rparr>)
             else Return (Some codeUnit) d)
          else if State d = 1 then
            (if PH_UNICODE_UTF16_IS_LOW_SURROGATE codeUnit
             then Return (Some (PH_UNICODE_UTF16_TO_CODE_POINT (CodeUnit d) codeUnit)) (d\<lparr> State := 0 \<rparr>)
             else (case PhpUnreadUnicodeDecoder d codeUnit of
                     None \<Rightarrow> Raise
                   | Some d' \<Rightarrow> Return (Some (ucast (CodeUnit d))) (d'\<lparr> State := 0 \<rparr>)))
          else Return None d)"

definition utf32_iteration :: "PH_UNICODE_DECODER \<Rightarrow> iteration" where
  "utf32_iteration d =
     (case PhpReadUnicodeDecoder d of None \<Rightarrow> Raise | Some (r, d) \<Rightarrow> Return r d)"

definition decode_iteration :: "PH_UNICODE_DECODER \<Rightarrow> iteration" where
  "decode_iteration d =
     (if Encoding d = PH_UNICODE_UTF8 then utf8_iteration d
      else if Encoding d = PH_UNICODE_UTF16 then utf16_iteration d
      else if Encoding d = PH_UNICODE_UTF32 then utf32_iteration d
      else Return None d)"

text \<open>An iteration that continues has consumed one unit of the input.\<close>

lemma minus_one_less: "(x :: 'a::len word) \<noteq> 0 \<Longrightarrow> unat (x - 1) < unat x"
  by (simp add: unat_minus_one unat_gt_0)

lemma error_not_again [simp]: "PhpDecodeUtf8Error d n \<noteq> Again d'"
  by (simp add: PhpDecodeUtf8Error_def split: option.split)

lemma iteration_consumes:
  assumes "decode_iteration d = Again d'" shows "unat (InputCount d') < unat (InputCount d)"
proof -
  have "InputCount d \<noteq> 0 \<and> InputCount d' = InputCount d - 1"
    using assms
    by (auto simp: decode_iteration_def utf8_iteration_def utf16_iteration_def utf32_iteration_def
        PhpReadUnicodeDecoder_def Let_def split: if_split_asm option.split_asm)
  then show ?thesis using minus_one_less by auto
qed

function PhDecodeUnicodeDecoder :: "PH_UNICODE_DECODER \<Rightarrow> (u32 option \<times> PH_UNICODE_DECODER) option" where
  "PhDecodeUnicodeDecoder d =
     (case decode_iteration d of
        Again d' \<Rightarrow> PhDecodeUnicodeDecoder d'
      | Return r d' \<Rightarrow> Some (r, d')
      | Raise \<Rightarrow> None)"
  by auto
termination by (relation "measure (\<lambda>d. unat (InputCount d))") (auto dest: iteration_consumes)

declare PhDecodeUnicodeDecoder.simps [simp del]

section \<open>The encoder\<close>

text \<open>The units are given as ULONG, after the truncation to the width of the encoding.\<close>

definition PhEncodeUnicode :: "u8 \<Rightarrow> u32 \<Rightarrow> u32 list option" where
  "PhEncodeUnicode enc CodePoint =
     (if enc = PH_UNICODE_UTF8 then
        (if CodePoint < 0x80 then Some [ucast (ucast CodePoint :: u8)]
         else if CodePoint \<le> 0x7ff then
           Some [ucast (ucast (drop_bit 6 CodePoint) + 0xc0 :: u8), ucast (ucast (CodePoint AND 0x3f) + 0x80 :: u8)]
         else if CodePoint \<le> 0xffff then
           Some [ucast (ucast (drop_bit 12 CodePoint) + 0xe0 :: u8),
                 ucast (ucast (drop_bit 6 CodePoint AND 0x3f) + 0x80 :: u8),
                 ucast (ucast (CodePoint AND 0x3f) + 0x80 :: u8)]
         else if CodePoint \<le> PH_UNICODE_MAX_CODE_POINT then
           Some [ucast (ucast (drop_bit 18 CodePoint) + 0xf0 :: u8),
                 ucast (ucast (drop_bit 12 CodePoint AND 0x3f) + 0x80 :: u8),
                 ucast (ucast (drop_bit 6 CodePoint AND 0x3f) + 0x80 :: u8),
                 ucast (ucast (CodePoint AND 0x3f) + 0x80 :: u8)]
         else None)
      else if enc = PH_UNICODE_UTF16 then
        (if CodePoint < 0x10000 then Some [ucast (ucast CodePoint :: u16)]
         else if CodePoint \<le> PH_UNICODE_MAX_CODE_POINT then
           Some [ucast (PH_UNICODE_UTF16_TO_HIGH_SURROGATE CodePoint), ucast (PH_UNICODE_UTF16_TO_LOW_SURROGATE CodePoint)]
         else None)
      else if enc = PH_UNICODE_UTF32 then Some [CodePoint]
      else None)"

section \<open>What the decoder computes\<close>

text \<open>
  The first code point of a sequence of units and the units behind it, None if the sequence is a
  proper prefix of a longer one. An ill-formed UTF-8 sequence stands for its first byte plus 0xdc00,
  an unpaired surrogate for itself.
\<close>

abbreviation w8 :: "u8 \<Rightarrow> u32" where "w8 \<equiv> ucast"
abbreviation w16 :: "u16 \<Rightarrow> u32" where "w16 \<equiv> ucast"

definition bad_second :: "u8 \<Rightarrow> u8 \<Rightarrow> bool" where
  "bad_second c1 c2 \<longleftrightarrow> \<not> continuation (w8 c2) \<or> (c1 = 0xe0 \<and> w8 c2 < 0xa0) \<or> (c1 = 0xf0 \<and> w8 c2 < 0x90) \<or>
     (c1 = 0xf4 \<and> w8 c2 \<ge> 0x90)"

definition seq8 :: "u8 list \<Rightarrow> (u32 \<times> u8 list) option" where
  "seq8 us =
     (case us of [] \<Rightarrow> None | c1 # r1 \<Rightarrow>
        if w8 c1 < 0x80 then Some (w8 c1, r1)
        else if w8 c1 < 0xc2 \<or> \<not> w8 c1 < 0xf5 then Some (w8 c1 + 0xdc00, r1)
        else (case r1 of [] \<Rightarrow> None | c2 # r2 \<Rightarrow>
          if bad_second c1 c2
          then Some (w8 c1 + 0xdc00, r1)
          else if w8 c1 < 0xe0 then Some (push_bit 6 (w8 c1) + w8 c2 - 0x3080, r2)
          else (case r2 of [] \<Rightarrow> None | c3 # r3 \<Rightarrow>
            if \<not> continuation (w8 c3) then Some (w8 c1 + 0xdc00, r1)
            else if w8 c1 < 0xf0 then Some (push_bit 12 (w8 c1) + push_bit 6 (w8 c2) + w8 c3 - 0xe2080, r3)
            else (case r3 of [] \<Rightarrow> None | c4 # r4 \<Rightarrow>
              if \<not> continuation (w8 c4) then Some (w8 c1 + 0xdc00, r1)
              else Some (push_bit 18 (w8 c1) + push_bit 12 (w8 c2) + push_bit 6 (w8 c3) + w8 c4 - 0x3c82080, r4)))))"

definition seq16 :: "u16 list \<Rightarrow> (u32 \<times> u16 list) option" where
  "seq16 us =
     (case us of [] \<Rightarrow> None | c1 # r1 \<Rightarrow>
        if PH_UNICODE_UTF16_IS_HIGH_SURROGATE (w16 c1) then
          (case r1 of [] \<Rightarrow> None | c2 # r2 \<Rightarrow>
             if PH_UNICODE_UTF16_IS_LOW_SURROGATE (w16 c2)
             then Some (PH_UNICODE_UTF16_TO_CODE_POINT c1 (w16 c2), r2) else Some (w16 c1, r1))
        else Some (w16 c1, r1))"

text \<open>The units a decoder holds: those of the unfinished sequence and those not yet read.\<close>

definition pending8 :: "PH_UNICODE_DECODER \<Rightarrow> u8 list" where
  "pending8 d =
     (if State d = 0 then [] else if State d < 4 then [CodeUnit1 d]
      else if State d < 6 then [CodeUnit1 d, CodeUnit2 d] else [CodeUnit1 d, CodeUnit2 d, CodeUnit3 d])"

definition input8 :: "PH_UNICODE_DECODER \<Rightarrow> u8 list" where
  "input8 d = take (unat (InputCount d)) (Input8 d)"

definition held8 :: "PH_UNICODE_DECODER \<Rightarrow> u8 list" where
  "held8 d = pending8 d @ input8 d"

definition inv8 :: "PH_UNICODE_DECODER \<Rightarrow> bool" where
  "inv8 d \<longleftrightarrow> Encoding d = 0 \<and> length (Input8 d) = 4 \<and> length (held8 d) \<le> 4 \<and> unat (InputCount d) \<le> 4 \<and>
     State d \<le> 6 \<and> seq8 (pending8 d) = None \<and>
     (State d \<noteq> 0 \<longrightarrow> (State d = 1 \<longleftrightarrow> w8 (CodeUnit1 d) < 0xe0) \<and>
        (State d \<in> {2, 4} \<longleftrightarrow> 0xe0 \<le> w8 (CodeUnit1 d) \<and> w8 (CodeUnit1 d) < 0xf0))"

definition pending16 :: "PH_UNICODE_DECODER \<Rightarrow> u16 list" where
  "pending16 d = (if State d = 0 then [] else [CodeUnit d])"

definition input16 :: "PH_UNICODE_DECODER \<Rightarrow> u16 list" where
  "input16 d = take (unat (InputCount d)) (Input16 d)"

definition held16 :: "PH_UNICODE_DECODER \<Rightarrow> u16 list" where
  "held16 d = pending16 d @ input16 d"

definition inv16 :: "PH_UNICODE_DECODER \<Rightarrow> bool" where
  "inv16 d \<longleftrightarrow> Encoding d = 1 \<and> length (Input16 d) = 2 \<and> unat (InputCount d) \<le> 2 \<and>
     length (held16 d) \<le> 2 \<and> State d \<le> 1 \<and> seq16 (pending16 d) = None"

text \<open>Reading and unreading act on the list of the input.\<close>

lemma w8_w8 [simp]: "(ucast (w8 c) :: u8) = c"
  by (rule bit_word_eqI) (simp add: bit_simps)

lemma w16_w16 [simp]: "(ucast (w16 c) :: u16) = c"
  by (rule bit_word_eqI) (simp add: bit_simps)

lemma list4: "length xs = 4 \<Longrightarrow> \<exists>a b c d. xs = [a, b, c, d]"
  by (auto simp: numeral_eq_Suc length_Suc_conv)

lemma list2: "length xs = 2 \<Longrightarrow> \<exists>a b. xs = [a, b]"
  by (auto simp: numeral_eq_Suc length_Suc_conv)

lemma nat_le4: "(n :: nat) \<le> 4 \<longleftrightarrow> n = 0 \<or> n = 1 \<or> n = 2 \<or> n = 3 \<or> n = 4"
  by auto

lemma unat_u8_plus [simp]: "unat (w :: u8) \<le> 4 \<Longrightarrow> unat (w + 1) = Suc (unat w)"
  by (subst unat_add_fits) simp_all

lemma u8_le4: "(w :: u8) \<ge> 4 \<longleftrightarrow> unat w \<ge> 4" "(w :: u8) \<ge> 2 \<longleftrightarrow> unat w \<ge> 2"
  by (simp_all add: word_le_nat_alt)

lemma read8:
  assumes "Encoding d = 0" "length (Input8 d) = 4" "unat (InputCount d) \<le> 4"
  shows "case input8 d of
      [] \<Rightarrow> PhpReadUnicodeDecoder d = Some (None, d)
    | c # cs \<Rightarrow> \<exists>d'. PhpReadUnicodeDecoder d = Some (Some (w8 c), d') \<and> input8 d' = cs \<and>
        d' = d\<lparr> Input8 := Input8 d', InputCount := InputCount d' \<rparr> \<and> length (Input8 d') = 4 \<and>
        unat (InputCount d') = length cs"
proof -
  obtain a b c e where l: "Input8 d = [a, b, c, e]" using list4 [OF assms(2)] by blast
  have z: "InputCount d = 0 \<longleftrightarrow> unat (InputCount d) = 0" by (simp add: unat_eq_zero)
  have m: "InputCount d \<noteq> 0 \<Longrightarrow> unat (InputCount d - 1) = unat (InputCount d) - 1" by (simp add: unat_minus_one)
  show ?thesis
    using assms(3) z m unfolding nat_le4
    by (elim disjE) (simp_all add: PhpReadUnicodeDecoder_def input8_def l assms(1) numeral_eq_Suc)
qed

lemma unread8:
  assumes "Encoding d = 0" "length (Input8 d) = 4" "unat (InputCount d) < 4"
  shows "\<exists>d'. PhpUnreadUnicodeDecoder d (w8 c) = Some d' \<and> input8 d' = c # input8 d \<and>
    d' = d\<lparr> Input8 := Input8 d', InputCount := InputCount d' \<rparr> \<and> length (Input8 d') = 4 \<and>
    unat (InputCount d') = Suc (unat (InputCount d))"
proof -
  obtain a b e f where l: "Input8 d = [a, b, e, f]" using list4 [OF assms(2)] by blast
  have "unat (InputCount d) = 0 \<or> unat (InputCount d) = 1 \<or> unat (InputCount d) = 2 \<or> unat (InputCount d) = 3"
    using assms(3) by linarith
  then show ?thesis
    by (elim disjE) (simp_all add: PhpUnreadUnicodeDecoder_def input8_def l assms(1) u8_le4 numeral_eq_Suc)
qed


text \<open>The error exits put back the units behind the first.\<close>

definition fresh8 :: "PH_UNICODE_DECODER \<Rightarrow> u8 list \<Rightarrow> bool" where
  "fresh8 d r \<longleftrightarrow> Encoding d = 0 \<and> length (Input8 d) = 4 \<and> State d = 0 \<and> input8 d = r \<and>
     unat (InputCount d) = length r \<and> length r \<le> 4"

lemma fresh8_inv: "fresh8 d r \<Longrightarrow> inv8 d \<and> held8 d = r"
  by (auto simp: fresh8_def inv8_def held8_def pending8_def seq8_def)

lemma error8:
  assumes e: "Encoding d = 0" and l: "length (Input8 d) = 4" and n: "Suc m = n" "m \<le> 3"
    and room: "unat (InputCount d) + m \<le> 4"
  shows "\<exists>d'. PhpDecodeUtf8Error d n = Return (Some (w8 (CodeUnit1 d) + 0xdc00)) d' \<and>
    fresh8 d' (take m [CodeUnit2 d, CodeUnit3 d, CodeUnit4 d] @ input8 d)"
proof -
  have len: "length (input8 d) = unat (InputCount d)" using l room by (simp add: input8_def)
  define put where "put b c d = (if b then PhpUnreadUnicodeDecoder d (w8 c) else Some d)" for b c d
  have put: "\<exists>d'. put b c f = Some d' \<and> input8 d' = (if b then [c] else []) @ input8 f \<and>
      d' = f\<lparr> Input8 := Input8 d', InputCount := InputCount d' \<rparr> \<and> length (Input8 d') = 4 \<and>
      unat (InputCount d') = unat (InputCount f) + of_bool b"
    if "Encoding f = 0" "length (Input8 f) = 4" "unat (InputCount f) + of_bool b \<le> 4" for b c f
    using unread8 [of f c] that by (cases b) (auto simp: put_def)
  obtain d1 where 1: "put (4 \<le> n) (CodeUnit4 d) d = Some d1" "input8 d1 = (if 4 \<le> n then [CodeUnit4 d] else []) @ input8 d"
    "d1 = d\<lparr> Input8 := Input8 d1, InputCount := InputCount d1 \<rparr>" "length (Input8 d1) = 4"
    "unat (InputCount d1) = unat (InputCount d) + of_bool (4 \<le> n)"
    using put [OF e l, of "4 \<le> n" "CodeUnit4 d"] n room by (cases "4 \<le> n") auto
  have f1: "Encoding d1 = 0" "CodeUnit1 d1 = CodeUnit1 d" "CodeUnit2 d1 = CodeUnit2 d" "CodeUnit3 d1 = CodeUnit3 d"
    using e by (subst 1(3), simp)+
  obtain d2 where 2: "put (3 \<le> n) (CodeUnit3 d1) d1 = Some d2" "input8 d2 = (if 3 \<le> n then [CodeUnit3 d1] else []) @ input8 d1"
    "d2 = d1\<lparr> Input8 := Input8 d2, InputCount := InputCount d2 \<rparr>" "length (Input8 d2) = 4"
    "unat (InputCount d2) = unat (InputCount d1) + of_bool (3 \<le> n)"
    using put [OF f1(1) 1(4), of "3 \<le> n" "CodeUnit3 d1"] n room 1(5) by (cases "4 \<le> n"; cases "3 \<le> n") auto
  have f2: "Encoding d2 = 0" "CodeUnit1 d2 = CodeUnit1 d" "CodeUnit2 d2 = CodeUnit2 d"
    using f1 by (subst 2(3), simp)+
  obtain d3 where 3: "put (2 \<le> n) (CodeUnit2 d2) d2 = Some d3" "input8 d3 = (if 2 \<le> n then [CodeUnit2 d2] else []) @ input8 d2"
    "d3 = d2\<lparr> Input8 := Input8 d3, InputCount := InputCount d3 \<rparr>" "length (Input8 d3) = 4"
    "unat (InputCount d3) = unat (InputCount d2) + of_bool (2 \<le> n)"
    using put [OF f2(1) 2(4), of "2 \<le> n" "CodeUnit2 d2"] n room 1(5) 2(5) by (cases "4 \<le> n"; cases "3 \<le> n"; cases "2 \<le> n") auto
  have f3: "Encoding d3 = 0" "CodeUnit1 d3 = CodeUnit1 d" using f2 by (subst 3(3), simp)+
  have r: "PhpDecodeUtf8Error d n = Return (Some (w8 (CodeUnit1 d) + 0xdc00)) (d3\<lparr> State := 0 \<rparr>)"
    using 1(1) 2(1) 3(1) f3 by (simp add: PhpDecodeUtf8Error_def put_def)
  have "m = 0 \<or> m = 1 \<or> m = 2 \<or> m = 3" using n by linarith
  then have i: "input8 d3 = take m [CodeUnit2 d, CodeUnit3 d, CodeUnit4 d] @ input8 d"
    using n by (elim disjE) (simp_all add: 1(2) 2(2) 3(2) f1 f2)
  have "fresh8 (d3\<lparr> State := 0 \<rparr>) (take m [CodeUnit2 d, CodeUnit3 d, CodeUnit4 d] @ input8 d)"
    using i f3 3(4,5) 2(5) 1(5) n room len by (auto simp: fresh8_def input8_def)
  then show ?thesis using r by blast
qed

lemma state_cases: "(s :: u8) \<le> 6 \<Longrightarrow> s = 0 \<or> s = 1 \<or> s = 2 \<or> s = 3 \<or> s = 4 \<or> s = 5 \<or> s = 6"
proof -
  assume "s \<le> 6"
  then have "unat s \<le> 6" by (simp add: word_le_nat_alt)
  then have "unat s = 0 \<or> unat s = 1 \<or> unat s = 2 \<or> unat s = 3 \<or> unat s = 4 \<or> unat s = 5 \<or> unat s = 6" by linarith
  then show ?thesis by (simp add: word_eq_unat)
qed


text \<open>An iteration that finds a unit either goes on with it or returns the first code point held.\<close>

definition progress8 :: "PH_UNICODE_DECODER \<Rightarrow> iteration \<Rightarrow> bool" where
  "progress8 d it \<longleftrightarrow>
     (case it of
        Again d' \<Rightarrow> inv8 d' \<and> held8 d' = held8 d
      | Return (Some cp) d' \<Rightarrow> \<exists>r. fresh8 d' r \<and> seq8 (held8 d) = Some (cp, r)
      | _ \<Rightarrow> False)"

lemma progress8_error:
  assumes "Encoding f = 0" "length (Input8 f) = 4" "Suc m = n" "m \<le> 3" "unat (InputCount f) + m \<le> 4"
    and "seq8 (held8 d) = Some (w8 (CodeUnit1 f) + 0xdc00, take m [CodeUnit2 f, CodeUnit3 f, CodeUnit4 f] @ input8 f)"
  shows "progress8 d (PhpDecodeUtf8Error f n)"
  using error8 [OF assms(1-5)] assms(6) by (auto simp: progress8_def)

lemma progress8_return:
  "Encoding f = 0 \<Longrightarrow> length (Input8 f) = 4 \<Longrightarrow> State f = 0 \<Longrightarrow> unat (InputCount f) \<le> 4 \<Longrightarrow>
   seq8 (held8 d) = Some (cp, input8 f) \<Longrightarrow> progress8 d (Return (Some cp) f)"
  by (auto simp: progress8_def fresh8_def input8_def)

lemma progress8_again: "inv8 f \<Longrightarrow> held8 f = held8 d \<Longrightarrow> progress8 d (Again f)"
  by (simp add: progress8_def)

lemma progress8_if:
  "(b \<Longrightarrow> progress8 d x) \<Longrightarrow> (\<not> b \<Longrightarrow> progress8 d y) \<Longrightarrow> progress8 d (if b then x else y)"
  by simp

lemma input8_update [simp]:
  "input8 (d\<lparr> State := s \<rparr>) = input8 d" "input8 (d\<lparr> CodeUnit1 := c \<rparr>) = input8 d"
  "input8 (d\<lparr> CodeUnit2 := c \<rparr>) = input8 d" "input8 (d\<lparr> CodeUnit3 := c \<rparr>) = input8 d"
  "input8 (d\<lparr> CodeUnit4 := c \<rparr>) = input8 d"
  by (simp_all add: input8_def)

lemma iteration8:
  assumes inv: "inv8 d" and c: "input8 d = c # cs"
  shows "progress8 d (decode_iteration d)"
proof -
  have e: "Encoding d = 0" "length (Input8 d) = 4" "unat (InputCount d) \<le> 4" using inv by (auto simp: inv8_def)
  obtain f where r: "PhpReadUnicodeDecoder d = Some (Some (w8 c), f)" "input8 f = cs"
    "f = d\<lparr> Input8 := Input8 f, InputCount := InputCount f \<rparr>" "length (Input8 f) = 4"
    "unat (InputCount f) = length cs"
    using read8 [OF e] c by auto
  have sel: "Encoding f = 0" "State f = State d" "CodeUnit1 f = CodeUnit1 d" "CodeUnit2 f = CodeUnit2 d"
    "CodeUnit3 f = CodeUnit3 d"
    using e by (subst r(3), simp)+
  have held: "held8 d = pending8 d @ c # cs" by (simp add: held8_def c)
  then have len: "length (pending8 d) + length cs \<le> 3" using inv by (simp add: inv8_def)
  have lead: "w8 (CodeUnit1 d) < 0xe0 \<Longrightarrow> CodeUnit1 d \<noteq> 0xe0 \<and> CodeUnit1 d \<noteq> 0xf0 \<and> CodeUnit1 d \<noteq> 0xf4"
    "w8 (CodeUnit1 d) < 0xf0 \<Longrightarrow> CodeUnit1 d \<noteq> 0xf0 \<and> CodeUnit1 d \<noteq> 0xf4"
    "0xf0 \<le> w8 (CodeUnit1 d) \<Longrightarrow> CodeUnit1 d \<noteq> 0xe0"
    by auto
  have "State d \<le> 6" using inv by (simp add: inv8_def)
  then show ?thesis
  proof (elim state_cases [THEN disjE] disjE)
    assume s: "State d = 0"
    have "decode_iteration d =
        (let f1 = f\<lparr> CodeUnit1 := c \<rparr> in
         if w8 c < 0x80 then Return (Some (w8 c)) f1
         else if w8 c < 0xc2 then PhpDecodeUtf8Error f1 1
         else if w8 c < 0xe0 then Again (f1\<lparr> State := 1 \<rparr>)
         else if w8 c < 0xf0 then Again (f1\<lparr> State := 2 \<rparr>)
         else if w8 c < 0xf5 then Again (f1\<lparr> State := 3 \<rparr>)
         else PhpDecodeUtf8Error f1 1)"
      by (simp add: decode_iteration_def utf8_iteration_def e r(1) sel s)
    moreover have "w8 c < 0xe0 \<Longrightarrow> \<not> 0xf5 \<le> w8 c" "w8 c < 0xf0 \<Longrightarrow> \<not> 0xf5 \<le> w8 c"
        "w8 c < 0xe0 \<Longrightarrow> \<not> 0xf0 \<le> w8 c"
      by (simp_all add: word_less_nat_alt word_le_nat_alt)
    ultimately show ?thesis
      unfolding Let_def using len sel inv lead
      by (simp only:) (intro progress8_if progress8_error [where m = 0] progress8_return progress8_again,
        simp_all add: c held pending8_def s seq8_def bad_second_def inv8_def held8_def r(2,4,5) not_less split: if_split_asm, auto?)
  next
    assume s: "State d = 1"
    have "decode_iteration d =
        (let f1 = f\<lparr> CodeUnit2 := c \<rparr> in if continuation (w8 c)
         then Return (Some (push_bit 6 (w8 (CodeUnit1 d)) + w8 c - 0x3080)) (f1\<lparr> State := 0 \<rparr>)
         else PhpDecodeUtf8Error f1 2)"
      by (simp add: decode_iteration_def utf8_iteration_def e r(1) sel s Let_def)
    then show ?thesis
      unfolding Let_def using len sel inv lead
      by (simp only:) (intro progress8_if progress8_error [where m = 1] progress8_return progress8_again,
        simp_all add: c held pending8_def s seq8_def bad_second_def inv8_def held8_def r(2,4,5) not_less split: if_split_asm, auto?)
  next
    assume s: "State d = 2"
    have "decode_iteration d =
        (let f1 = f\<lparr> CodeUnit2 := c \<rparr> in if continuation (w8 c) \<and> (CodeUnit1 d \<noteq> 0xe0 \<or> w8 c \<ge> 0xa0)
         then Again (f1\<lparr> State := 4 \<rparr>) else PhpDecodeUtf8Error f1 2)"
      by (simp add: decode_iteration_def utf8_iteration_def e r(1) sel s Let_def)
    then show ?thesis
      unfolding Let_def using len sel inv lead
      by (simp only:) (intro progress8_if progress8_error [where m = 1] progress8_return progress8_again,
        simp_all add: c held pending8_def s seq8_def bad_second_def inv8_def held8_def r(2,4,5) not_less split: if_split_asm, auto?)
  next
    assume s: "State d = 3"
    have "decode_iteration d =
        (let f1 = f\<lparr> CodeUnit2 := c \<rparr> in if continuation (w8 c) \<and> (CodeUnit1 d \<noteq> 0xf0 \<or> w8 c \<ge> 0x90) \<and> (CodeUnit1 d \<noteq> 0xf4 \<or> w8 c < 0x90)
         then Again (f1\<lparr> State := 5 \<rparr>) else PhpDecodeUtf8Error f1 2)"
      by (simp add: decode_iteration_def utf8_iteration_def e r(1) sel s Let_def)
    then show ?thesis
      unfolding Let_def using len sel inv lead
      by (simp only:) (intro progress8_if progress8_error [where m = 1] progress8_return progress8_again,
        simp_all add: c held pending8_def s seq8_def bad_second_def inv8_def held8_def r(2,4,5) not_less split: if_split_asm, auto?)
  next
    assume s: "State d = 4"
    have "decode_iteration d =
        (let f1 = f\<lparr> CodeUnit3 := c \<rparr> in if continuation (w8 c)
         then Return (Some (push_bit 12 (w8 (CodeUnit1 d)) + push_bit 6 (w8 (CodeUnit2 d)) + w8 c - 0xe2080))
           (f1\<lparr> State := 0 \<rparr>)
         else PhpDecodeUtf8Error f1 3)"
      by (simp add: decode_iteration_def utf8_iteration_def e r(1) sel s Let_def)
    then show ?thesis
      unfolding Let_def using len sel inv lead
      by (simp only:) (intro progress8_if progress8_error [where m = 2] progress8_return progress8_again,
        simp_all add: c held pending8_def s seq8_def bad_second_def inv8_def held8_def r(2,4,5) not_less split: if_split_asm, auto?)
  next
    assume s: "State d = 5"
    have "decode_iteration d =
        (let f1 = f\<lparr> CodeUnit3 := c \<rparr> in if continuation (w8 c) then Again (f1\<lparr> State := 6 \<rparr>) else PhpDecodeUtf8Error f1 3)"
      by (simp add: decode_iteration_def utf8_iteration_def e r(1) sel s Let_def)
    then show ?thesis
      unfolding Let_def using len sel inv lead
      by (simp only:) (intro progress8_if progress8_error [where m = 2] progress8_return progress8_again,
        simp_all add: c held pending8_def s seq8_def bad_second_def inv8_def held8_def r(2,4,5) not_less split: if_split_asm, auto?)
  next
    assume s: "State d = 6"
    have "decode_iteration d =
        (let f1 = f\<lparr> CodeUnit4 := c \<rparr> in if continuation (w8 c)
         then Return (Some (push_bit 18 (w8 (CodeUnit1 d)) + push_bit 12 (w8 (CodeUnit2 d)) +
           push_bit 6 (w8 (CodeUnit3 d)) + w8 c - 0x3c82080)) (f1\<lparr> State := 0 \<rparr>)
         else PhpDecodeUtf8Error f1 4)"
      by (simp add: decode_iteration_def utf8_iteration_def e r(1) sel s Let_def)
    then show ?thesis
      unfolding Let_def using len sel inv lead
      by (simp only:) (intro progress8_if progress8_error [where m = 3] progress8_return progress8_again,
        simp_all add: c held pending8_def s seq8_def bad_second_def inv8_def held8_def r(2,4,5) not_less split: if_split_asm, auto?)
  qed
qed

lemma decode8:
  "inv8 d \<Longrightarrow>
   (case seq8 (held8 d) of
      Some (cp, r) \<Rightarrow> \<exists>d'. PhDecodeUnicodeDecoder d = Some (Some cp, d') \<and> inv8 d' \<and> held8 d' = r
    | None \<Rightarrow> \<exists>d'. PhDecodeUnicodeDecoder d = Some (None, d') \<and> inv8 d' \<and> input8 d' = [] \<and> held8 d' = held8 d)"
proof (induction d rule: PhDecodeUnicodeDecoder.induct)
  case (1 d)
  show ?case
  proof (cases "input8 d")
    case Nil
    have "PhpReadUnicodeDecoder d = Some (None, d)"
      using read8 [of d] 1(2) Nil by (simp add: inv8_def)
    then have "decode_iteration d = Return None d"
      using 1(2) by (simp add: decode_iteration_def utf8_iteration_def inv8_def)
    then have "PhDecodeUnicodeDecoder d = Some (None, d)" by (subst PhDecodeUnicodeDecoder.simps) simp
    moreover have "seq8 (held8 d) = None" using 1(2) Nil by (simp add: held8_def inv8_def)
    ultimately show ?thesis using 1(2) Nil by simp
  next
    case (Cons c cs)
    note p = iteration8 [OF 1(2) Cons]
    show ?thesis
    proof (cases "decode_iteration d")
      case (Again d')
      have "PhDecodeUnicodeDecoder d = PhDecodeUnicodeDecoder d'"
        using Again by (subst PhDecodeUnicodeDecoder.simps) simp
      then show ?thesis using p 1(1) [OF Again] Again by (simp only: progress8_def iteration.case)
    next
      case (Return r d')
      then have "PhDecodeUnicodeDecoder d = Some (r, d')" by (subst PhDecodeUnicodeDecoder.simps) simp
      then show ?thesis using p fresh8_inv [of d'] Return by (auto simp: progress8_def split: option.splits)
    qed (use p in \<open>simp add: progress8_def\<close>)
  qed
qed

lemma write8:
  assumes inv: "inv8 d" and e: "input8 d = []"
  shows "\<exists>d'. PhWriteUnicodeDecoder d (w8 u) = Some (True, d') \<and> inv8 d' \<and> held8 d' = held8 d @ [u]"
proof -
  have z: "InputCount d = 0" using inv e by (auto simp: input8_def inv8_def unat_eq_zero)
  obtain a b c f where l: "Input8 d = [a, b, c, f]" using list4 [of "Input8 d"] inv by (auto simp: inv8_def)
  have "length (pending8 d) \<le> 3" by (simp add: pending8_def)
  moreover have "pending8 (d\<lparr> Input8 := [u, b, c, f], InputCount := 1 \<rparr>) = pending8 d" by (simp add: pending8_def)
  ultimately show ?thesis using inv z l
    by (simp add: PhWriteUnicodeDecoder_def inv8_def held8_def input8_def)
qed

section \<open>UTF-16\<close>

lemma state_le1: "(s :: u8) \<le> 1 \<Longrightarrow> s = 0 \<or> s = 1"
proof -
  assume "s \<le> 1"
  then have "unat s = 0 \<or> unat s = 1" by (auto simp: word_le_nat_alt)
  then show ?thesis by (simp add: word_eq_unat)
qed

lemma nat_le2: "(n :: nat) \<le> 2 \<longleftrightarrow> n = 0 \<or> n = 1 \<or> n = 2"
  by auto

lemma read16:
  assumes "Encoding d = 1" "length (Input16 d) = 2" "unat (InputCount d) \<le> 2"
  shows "case input16 d of
      [] \<Rightarrow> PhpReadUnicodeDecoder d = Some (None, d)
    | c # cs \<Rightarrow> \<exists>d'. PhpReadUnicodeDecoder d = Some (Some (w16 c), d') \<and> input16 d' = cs \<and>
        d' = d\<lparr> Input16 := Input16 d', InputCount := InputCount d' \<rparr> \<and> length (Input16 d') = 2 \<and>
        unat (InputCount d') = length cs"
proof -
  obtain a b where l: "Input16 d = [a, b]" using list2 [OF assms(2)] by blast
  have z: "InputCount d = 0 \<longleftrightarrow> unat (InputCount d) = 0" by (simp add: unat_eq_zero)
  have m: "InputCount d \<noteq> 0 \<Longrightarrow> unat (InputCount d - 1) = unat (InputCount d) - 1" by (simp add: unat_minus_one)
  show ?thesis
    using assms(3) z m unfolding nat_le2
    by (elim disjE) (simp_all add: PhpReadUnicodeDecoder_def input16_def l assms(1) numeral_eq_Suc)
qed

lemma unread16:
  assumes "Encoding d = 1" "length (Input16 d) = 2" "unat (InputCount d) < 2"
  shows "\<exists>d'. PhpUnreadUnicodeDecoder d (w16 c) = Some d' \<and> input16 d' = c # input16 d \<and>
    d' = d\<lparr> Input16 := Input16 d', InputCount := InputCount d' \<rparr> \<and> length (Input16 d') = 2 \<and>
    unat (InputCount d') = Suc (unat (InputCount d))"
proof -
  obtain a b where l: "Input16 d = [a, b]" using list2 [OF assms(2)] by blast
  have "unat (InputCount d) = 0 \<or> unat (InputCount d) = 1" using assms(3) by linarith
  then show ?thesis
    by (elim disjE) (simp_all add: PhpUnreadUnicodeDecoder_def input16_def l assms(1) u8_le4 numeral_eq_Suc)
qed


lemma input16_update [simp]:
  "input16 (d\<lparr> State := s \<rparr>) = input16 d" "input16 (d\<lparr> CodeUnit := c \<rparr>) = input16 d"
  by (simp_all add: input16_def)

definition progress16 :: "PH_UNICODE_DECODER \<Rightarrow> iteration \<Rightarrow> bool" where
  "progress16 d it \<longleftrightarrow>
     (case it of
        Again d' \<Rightarrow> inv16 d' \<and> held16 d' = held16 d
      | Return (Some cp) d' \<Rightarrow> inv16 d' \<and> seq16 (held16 d) = Some (cp, held16 d')
      | _ \<Rightarrow> False)"

lemma iteration16:
  assumes inv: "inv16 d" and c: "input16 d = c # cs"
  shows "progress16 d (decode_iteration d)"
proof -
  have e: "Encoding d = 1" "length (Input16 d) = 2" "unat (InputCount d) \<le> 2" using inv by (auto simp: inv16_def)
  obtain f where r: "PhpReadUnicodeDecoder d = Some (Some (w16 c), f)" "input16 f = cs"
    "f = d\<lparr> Input16 := Input16 f, InputCount := InputCount f \<rparr>" "length (Input16 f) = 2"
    "unat (InputCount f) = length cs"
    using read16 [OF e] c by auto
  have sel: "Encoding f = 1" "State f = State d" "CodeUnit f = CodeUnit d"
    using e by (subst r(3), simp)+
  have held: "held16 d = pending16 d @ c # cs" by (simp add: held16_def c)
  then have len: "length (pending16 d) + length cs \<le> 1" using inv by (simp add: inv16_def)
  have "State d \<le> 1" using inv by (simp add: inv16_def)
  then consider "State d = 0" | "State d = 1" using state_le1 by blast
  then show ?thesis
  proof cases
    assume s: "State d = 0"
    show ?thesis
      using len
      by (simp add: progress16_def decode_iteration_def utf16_iteration_def e r(1,2,4,5) sel s held pending16_def
          inv16_def held16_def seq16_def c)
  next
    assume s: "State d = 1"
    then have cs: "cs = []" and hi: "PH_UNICODE_UTF16_IS_HIGH_SURROGATE (w16 (CodeUnit d))"
      using len inv by (auto simp: pending16_def inv16_def seq16_def split: if_split_asm)
    then have "unat (InputCount f) < 2" using r(5) by simp
    then obtain g where g: "PhpUnreadUnicodeDecoder f (w16 c) = Some g" "input16 g = c # input16 f"
      "g = f\<lparr> Input16 := Input16 g, InputCount := InputCount g \<rparr>" "length (Input16 g) = 2"
      "unat (InputCount g) = Suc (unat (InputCount f))"
      using unread16 [OF sel(1) r(4)] by blast
    have "Encoding g = 1" using sel by (subst g(3)) simp
    then show ?thesis
      using len g(1,2,4,5) cs hi
      by (simp add: progress16_def decode_iteration_def utf16_iteration_def e r(1,2,4,5) sel s held pending16_def
          inv16_def held16_def seq16_def c)
  qed
qed

lemma decode16:
  "inv16 d \<Longrightarrow>
   (case seq16 (held16 d) of
      Some (cp, r) \<Rightarrow> \<exists>d'. PhDecodeUnicodeDecoder d = Some (Some cp, d') \<and> inv16 d' \<and> held16 d' = r
    | None \<Rightarrow> \<exists>d'. PhDecodeUnicodeDecoder d = Some (None, d') \<and> inv16 d' \<and> input16 d' = [] \<and> held16 d' = held16 d)"
proof (induction d rule: PhDecodeUnicodeDecoder.induct)
  case (1 d)
  show ?case
  proof (cases "input16 d")
    case Nil
    have "PhpReadUnicodeDecoder d = Some (None, d)"
      using read16 [of d] 1(2) Nil by (simp add: inv16_def)
    then have "decode_iteration d = Return None d"
      using 1(2) by (simp add: decode_iteration_def utf16_iteration_def inv16_def)
    then have "PhDecodeUnicodeDecoder d = Some (None, d)" by (subst PhDecodeUnicodeDecoder.simps) simp
    moreover have "seq16 (held16 d) = None" using 1(2) Nil by (simp add: held16_def inv16_def)
    ultimately show ?thesis using 1(2) Nil by simp
  next
    case (Cons c cs)
    note p = iteration16 [OF 1(2) Cons]
    show ?thesis
    proof (cases "decode_iteration d")
      case (Again d')
      have "PhDecodeUnicodeDecoder d = PhDecodeUnicodeDecoder d'"
        using Again by (subst PhDecodeUnicodeDecoder.simps) simp
      then show ?thesis using p 1(1) [OF Again] Again by (simp only: progress16_def iteration.case)
    next
      case (Return r d')
      then have "PhDecodeUnicodeDecoder d = Some (r, d')" by (subst PhDecodeUnicodeDecoder.simps) simp
      then show ?thesis using p Return by (auto simp: progress16_def split: option.splits)
    qed (use p in \<open>simp add: progress16_def\<close>)
  qed
qed

lemma write16:
  assumes inv: "inv16 d" and e: "input16 d = []"
  shows "\<exists>d'. PhWriteUnicodeDecoder d (w16 u) = Some (True, d') \<and> inv16 d' \<and> held16 d' = held16 d @ [u]"
proof -
  have z: "InputCount d = 0" using inv e by (auto simp: input16_def inv16_def unat_eq_zero)
  obtain a b where l: "Input16 d = [a, b]" using list2 [of "Input16 d"] inv by (auto simp: inv16_def)
  have "length (pending16 d) \<le> 1" by (simp add: pending16_def)
  moreover have "pending16 (d\<lparr> Input16 := [u, b], InputCount := 1 \<rparr>) = pending16 d" by (simp add: pending16_def)
  ultimately show ?thesis using inv z l
    by (simp add: PhWriteUnicodeDecoder_def inv16_def held16_def input16_def)
qed

section \<open>Converting loops\<close>

text \<open>
  The loop that feeds the decoder, as PhConvertUtf16ToAsciiEx has it: a unit is written to it, and the
  code points that it then gives are handled by a body.
\<close>

partial_function (option) drain ::
  "(u32 \<Rightarrow> 's \<Rightarrow> 's) \<Rightarrow> PH_UNICODE_DECODER \<Rightarrow> 's \<Rightarrow> (PH_UNICODE_DECODER \<times> 's) option" where
  "drain body d s =
     Option.bind (PhDecodeUnicodeDecoder d) (\<lambda>(r, d').
       case r of None \<Rightarrow> Some (d', s) | Some codePoint \<Rightarrow> drain body d' (body codePoint s))"

fun convert :: "(u32 \<Rightarrow> 's \<Rightarrow> 's) \<Rightarrow> u32 list \<Rightarrow> PH_UNICODE_DECODER \<Rightarrow> 's \<Rightarrow> 's option" where
  "convert body [] d s = Some s"
| "convert body (u # us) d s =
     Option.bind (PhWriteUnicodeDecoder d u) (\<lambda>(_, d).
     Option.bind (drain body d s) (\<lambda>(d, s). convert body us d s))"

text \<open>The code points of a sequence of units, and the units of an unfinished sequence at its end.\<close>

fun code_points :: "('u list \<Rightarrow> (u32 \<times> 'u list) option) \<Rightarrow> nat \<Rightarrow> 'u list \<Rightarrow> u32 list \<times> 'u list" where
  "code_points seq 0 us = ([], us)"
| "code_points seq (Suc n) us =
     (case seq us of None \<Rightarrow> ([], us)
      | Some (cp, r) \<Rightarrow> (let (cps, p) = code_points seq n r in (cp # cps, p)))"

definition decode_all :: "('u list \<Rightarrow> (u32 \<times> 'u list) option) \<Rightarrow> 'u list \<Rightarrow> u32 list \<times> 'u list" where
  "decode_all seq us = code_points seq (length us) us"

text \<open>
  The contract of a decoder for an encoding: \<open>seq\<close> splits off the first code point, and decoding
  follows it on the units that the decoder holds.
\<close>

locale unicode_decoder =
  fixes seq :: "'u list \<Rightarrow> (u32 \<times> 'u list) option"
    and inv :: "PH_UNICODE_DECODER \<Rightarrow> bool"
    and held :: "PH_UNICODE_DECODER \<Rightarrow> 'u list"
    and drained :: "PH_UNICODE_DECODER \<Rightarrow> bool"
    and wide :: "'u \<Rightarrow> u32"
  assumes seq_less: "seq us = Some (cp, r) \<Longrightarrow> length r < length us"
    and seq_append: "seq us = Some (cp, r) \<Longrightarrow> seq (us @ vs) = Some (cp, r @ vs)"
    and decode_some: "inv d \<Longrightarrow> seq (held d) = Some (cp, r) \<Longrightarrow>
      \<exists>d'. PhDecodeUnicodeDecoder d = Some (Some cp, d') \<and> inv d' \<and> held d' = r"
    and decode_none: "inv d \<Longrightarrow> seq (held d) = None \<Longrightarrow>
      \<exists>d'. PhDecodeUnicodeDecoder d = Some (None, d') \<and> inv d' \<and> drained d' \<and> held d' = held d"
    and write_unit: "inv d \<Longrightarrow> drained d \<Longrightarrow>
      \<exists>d'. PhWriteUnicodeDecoder d (wide u) = Some (True, d') \<and> inv d' \<and> held d' = held d @ [u]"
begin

lemma fuel: "length us \<le> n \<Longrightarrow> code_points seq n us = decode_all seq us"
  unfolding decode_all_def
proof (induction us arbitrary: n rule: length_induct)
  case (1 us)
  show ?case
  proof (cases "seq us")
    case None
    then show ?thesis by (cases n; cases "length us") auto
  next
    case (Some x)
    obtain cp r where x: "x = (cp, r)" by fastforce
    have r: "length r < length us" using seq_less Some x by blast
    then obtain m where m: "length us = Suc m" by (cases "length us") auto
    then obtain k where k: "n = Suc k" using 1(2) by (cases n) auto
    have "code_points seq k r = code_points seq m r"
      using 1(1) r 1(2) m k by (metis Suc_le_mono less_Suc_eq_le order_trans)
    then show ?thesis using Some x m k by simp
  qed
qed

lemma decode_all_unfold:
  "decode_all seq us = (case seq us of None \<Rightarrow> ([], us)
     | Some (cp, r) \<Rightarrow> (let (cps, p) = decode_all seq r in (cp # cps, p)))"
proof -
  have "decode_all seq us = code_points seq (Suc (length us)) us" by (rule fuel [symmetric]) simp
  also have "\<dots> = (case seq us of None \<Rightarrow> ([], us)
     | Some (cp, r) \<Rightarrow> (let (cps, p) = decode_all seq r in (cp # cps, p)))"
    using fuel seq_less by (auto split: option.split simp: less_imp_le)
  finally show ?thesis .
qed

lemma decode_all_induct [case_names step]:
  assumes "\<And>us. (\<And>cp r. seq us = Some (cp, r) \<Longrightarrow> P r) \<Longrightarrow> P us" shows "P us"
proof (induction us rule: length_induct)
  case (1 us)
  then show ?case using assms seq_less by blast
qed

lemma decode_all_append:
  "decode_all seq (us @ vs) =
     (let (cps, p) = decode_all seq us; (cps', p') = decode_all seq (p @ vs) in (cps @ cps', p'))"
proof (induction us rule: decode_all_induct)
  case (step us)
  show ?case
  proof (cases "seq us")
    case None
    then show ?thesis by (simp add: decode_all_unfold [of us])
  next
    case (Some x)
    obtain cp r where x: "x = (cp, r)" by fastforce
    show ?thesis
      using step [OF Some [unfolded x]] seq_append [OF Some [unfolded x]] Some x
      by (simp add: decode_all_unfold [of us] decode_all_unfold [of "us @ vs"] Let_def split: prod.splits)
  qed
qed

lemma pending_none: "decode_all seq us = (cps, p) \<Longrightarrow> seq p = None"
proof (induction us arbitrary: cps rule: decode_all_induct)
  case (step us)
  then show ?case
    by (cases "seq us") (auto simp: decode_all_unfold [of us] Let_def split: prod.splits)
qed

lemma drain_all:
  "inv d \<Longrightarrow> decode_all seq (held d) = (cps, p) \<Longrightarrow>
   \<exists>d'. drain body d s = Some (d', fold body cps s) \<and> inv d' \<and> drained d' \<and> held d' = p"
proof (induction cps arbitrary: d s)
  case Nil
  then have "seq (held d) = None" "p = held d"
    by (auto simp: decode_all_unfold [of "held d"] Let_def split: option.splits prod.splits)
  then show ?case using decode_none [OF Nil(1)] by (subst drain.simps) auto
next
  case (Cons cp cps)
  then obtain r where r: "seq (held d) = Some (cp, r)" "decode_all seq r = (cps, p)"
    by (auto simp: decode_all_unfold [of "held d"] Let_def split: option.splits prod.splits)
  obtain d1 where d1: "PhDecodeUnicodeDecoder d = Some (Some cp, d1)" "inv d1" "held d1 = r"
    using decode_some [OF Cons.prems(1) r(1)] by blast
  show ?case
    using Cons.IH [OF d1(2), of "body cp s"] r(2) d1 by (subst drain.simps) simp
qed

lemma convert_all:
  "inv d \<Longrightarrow> drained d \<Longrightarrow> seq (held d) = None \<Longrightarrow>
   convert body (map wide us) d s = Some (fold body (fst (decode_all seq (held d @ us))) s)"
proof (induction us arbitrary: d s)
  case Nil
  then show ?case by (simp add: decode_all_unfold)
next
  case (Cons u us)
  obtain d1 where d1: "PhWriteUnicodeDecoder d (wide u) = Some (True, d1)" "inv d1" "held d1 = held d @ [u]"
    using write_unit [OF Cons.prems(1,2)] by blast
  obtain cps p where all: "decode_all seq (held d @ [u]) = (cps, p)" by fastforce
  obtain d2 where d2: "drain body d1 s = Some (d2, fold body cps s)" "inv d2" "drained d2" "held d2 = p"
    using drain_all [OF d1(2)] all d1(3) by metis
  have "fst (decode_all seq (held d @ u # us)) = cps @ fst (decode_all seq (p @ us))"
    using decode_all_append [of "held d @ [u]" us] all by (simp add: Let_def split: prod.splits)
  then show ?case
    using Cons.IH [OF d2(2,3)] d1(1) d2(1,4) pending_none [OF all] by simp
qed

end

lemma list_cases4 [case_names 0 1 2 3 4]:
  "(us = [] \<Longrightarrow> P) \<Longrightarrow> (\<And>a. us = [a] \<Longrightarrow> P) \<Longrightarrow> (\<And>a b. us = [a, b] \<Longrightarrow> P) \<Longrightarrow> (\<And>a b c. us = [a, b, c] \<Longrightarrow> P) \<Longrightarrow>
   (\<And>a b c d r. us = a # b # c # d # r \<Longrightarrow> P) \<Longrightarrow> P"
  by (metis list.exhaust)

interpretation utf8: unicode_decoder seq8 inv8 held8 "\<lambda>d. input8 d = []" w8
proof unfold_locales
  show "seq8 us = Some (cp, r) \<Longrightarrow> length r < length us" for us cp r
    by (cases us rule: list_cases4) (auto simp: seq8_def split: if_split_asm)
  show "seq8 us = Some (cp, r) \<Longrightarrow> seq8 (us @ vs) = Some (cp, r @ vs)" for us cp r vs
    by (cases us rule: list_cases4) (auto simp: seq8_def split: if_splits)
  show "\<exists>d'. PhDecodeUnicodeDecoder d = Some (Some cp, d') \<and> inv8 d' \<and> held8 d' = r"
    if "inv8 d" "seq8 (held8 d) = Some (cp, r)" for d cp r using decode8 [OF that(1)] that(2) by simp
  show "\<exists>d'. PhDecodeUnicodeDecoder d = Some (None, d') \<and> inv8 d' \<and> input8 d' = [] \<and> held8 d' = held8 d"
    if "inv8 d" "seq8 (held8 d) = None" for d using decode8 [OF that(1)] that(2) by simp
  show "\<exists>d'. PhWriteUnicodeDecoder d (w8 u) = Some (True, d') \<and> inv8 d' \<and> held8 d' = held8 d @ [u]"
    if "inv8 d" "input8 d = []" for d u by (rule write8 [OF that])
qed

interpretation utf16: unicode_decoder seq16 inv16 held16 "\<lambda>d. input16 d = []" w16
proof unfold_locales
  show "seq16 us = Some (cp, r) \<Longrightarrow> length r < length us" for us cp r
    by (auto simp: seq16_def split: list.splits if_split_asm)
  show "seq16 us = Some (cp, r) \<Longrightarrow> seq16 (us @ vs) = Some (cp, r @ vs)" for us cp r vs
    by (auto simp: seq16_def split: list.splits if_split_asm)
  show "\<exists>d'. PhDecodeUnicodeDecoder d = Some (Some cp, d') \<and> inv16 d' \<and> held16 d' = r"
    if "inv16 d" "seq16 (held16 d) = Some (cp, r)" for d cp r using decode16 [OF that(1)] that(2) by simp
  show "\<exists>d'. PhDecodeUnicodeDecoder d = Some (None, d') \<and> inv16 d' \<and> input16 d' = [] \<and> held16 d' = held16 d"
    if "inv16 d" "seq16 (held16 d) = None" for d using decode16 [OF that(1)] that(2) by simp
  show "\<exists>d'. PhWriteUnicodeDecoder d (w16 u) = Some (True, d') \<and> inv16 d' \<and> held16 d' = held16 d @ [u]"
    if "inv16 d" "input16 d = []" for d u by (rule write16 [OF that])
qed

section \<open>The conversions\<close>

text \<open>All the code points of a sequence of units, and all the units of a sequence of code points.\<close>

definition decode_units :: "u8 \<Rightarrow> u32 list \<Rightarrow> u32 list option" where
  "decode_units enc us = convert (\<lambda>codePoint out. out @ [codePoint]) us (PhInitializeUnicodeDecoder enc) []"

fun encode_units :: "u8 \<Rightarrow> u32 list \<Rightarrow> u32 list option" where
  "encode_units enc [] = Some []"
| "encode_units enc (cp # cps) =
     (case PhEncodeUnicode enc cp of
        None \<Rightarrow> None
      | Some us \<Rightarrow> map_option ((@) us) (encode_units enc cps))"

definition PhConvertUtf16ToAsciiEx :: "u16 list \<Rightarrow> u8 \<Rightarrow> u8 list option" where
  "PhConvertUtf16ToAsciiEx us Replacement =
     convert (\<lambda>codePoint out.
         if codePoint < 0x80 then out @ [ucast codePoint]
         else if Replacement \<noteq> 0 then out @ [Replacement] else out)
       (map ucast us) (PhInitializeUnicodeDecoder PH_UNICODE_UTF16) []"

definition C_1uTo2 :: "u8 \<Rightarrow> u16" where
  "C_1uTo2 c = ucast c"

text \<open>
  Four characters at a time, and the rest by its length modulo 4, where the cases fall through. To read
  behind the end of the input is None.
\<close>

fun zero_extend_blocks :: "nat \<Rightarrow> u8 list \<Rightarrow> (u16 list \<times> u8 list) option" where
  "zero_extend_blocks 0 Input = Some ([], Input)"
| "zero_extend_blocks (Suc n) (a # b # c # d # Input) =
     (case zero_extend_blocks n Input of
        None \<Rightarrow> None
      | Some (out, Input) \<Rightarrow> Some (C_1uTo2 a # C_1uTo2 b # C_1uTo2 c # C_1uTo2 d # out, Input))"
| "zero_extend_blocks (Suc n) Input = None"

fun zero_extend_rest :: "nat \<Rightarrow> u8 list \<Rightarrow> u16 list option" where
  "zero_extend_rest 0 Input = Some []"
| "zero_extend_rest (Suc n) (c # Input) = map_option ((#) (C_1uTo2 c)) (zero_extend_rest n Input)"
| "zero_extend_rest (Suc n) [] = None"

definition PhZeroExtendToUtf16Buffer :: "u8 list \<Rightarrow> u16 list option" where
  "PhZeroExtendToUtf16Buffer Input =
     Option.bind (zero_extend_blocks (length Input div 4) Input) (\<lambda>(out, left).
       map_option ((@) out) (zero_extend_rest (length Input mod 4) left))"

section \<open>Encoding and decoding are inverse\<close>

lemma w8_of_nat: "w8 c = of_nat (unat c)"
  by (simp add: word_eq_unat unsigned_ucast_eq take_bit_nat_eq_self unsigned_less [THEN order_less_le_trans])

lemma unat_w8 [simp]: "unat (w8 c) = unat c"
  by (simp add: unsigned_ucast_eq take_bit_nat_eq_self unsigned_less [THEN order_less_le_trans])

lemma continuation_iff: "continuation (w8 c) \<longleftrightarrow> unat c div 64 = 2"
proof -
  have "w8 c AND 0xc0 = push_bit 6 (drop_bit 6 (w8 c))"
  proof (rule bit_word_eqI)
    fix i assume "i < LENGTH(32)"
    have m: "push_bit 6 (mask 2) = (0xc0 :: u32)" by (simp add: mask_eq_exp_minus_1 push_bit_eq_mult)
    have "bit (push_bit 6 (mask 2) :: u32) i \<longleftrightarrow> 6 \<le> i \<and> i < 8"
      using \<open>i < LENGTH(32)\<close> by (auto simp: bit_push_bit_iff bit_mask_iff)
    then have "bit (0xc0 :: u32) i \<longleftrightarrow> 6 \<le> i \<and> i < 8" unfolding m .
    then show "bit (w8 c AND 0xc0) i \<longleftrightarrow> bit (push_bit 6 (drop_bit 6 (w8 c))) i"
      using bit_imp_le_length [of c i] by (auto simp: bit_simps)
  qed
  then have "continuation (w8 c) \<longleftrightarrow> unat (push_bit 6 (drop_bit 6 (w8 c))) = 128"
    unfolding continuation_def by (simp only: word_eq_unat) simp
  moreover have "unat (push_bit 6 (drop_bit 6 (w8 c))) = unat c div 64 * 64"
  proof -
    have "unat c div 64 * 64 \<le> unat c" by simp
    then have "unat c div 64 * 64 < 4294967296" using unat_lt_u8 [of c] by linarith
    then show ?thesis
      by (simp add: push_bit_eq_mult drop_bit_eq_div unat_word_ariths unat_div_distrib)
  qed
  ultimately show ?thesis by linarith
qed

text \<open>Bytes of an encoded code point as numbers.\<close>

lemma unat_byte: "k + unat (w :: u32) < 256 \<Longrightarrow> unat (ucast w + of_nat k :: u8) = unat w + k"
proof -
  assume a: "k + unat w < 256"
  then have "unat (ucast w :: u8) = unat w" "unat (of_nat k :: u8) = k"
    by (simp_all add: unsigned_ucast_eq take_bit_nat_eq_self unsigned_of_nat)
  then show ?thesis using a by (subst unat_add_fits) simp_all
qed

lemma unat_low6: "unat (w AND 0x3f :: u32) = unat w mod 64"
proof -
  have "w AND 0x3f = take_bit 6 w" by (simp add: take_bit_eq_mask mask_eq_exp_minus_1)
  then have "unat (w AND 0x3f) = unat (take_bit 6 w)" by (simp only:)
  also have "\<dots> = take_bit 6 (unat w)" by (rule unsigned_take_bit_eq)
  finally show ?thesis by (simp add: take_bit_eq_mod)
qed

lemma unat_drop: "unat (drop_bit k w :: u32) = unat w div 2 ^ k"
  by (simp only: unsigned_drop_bit_eq) (simp add: drop_bit_eq_div take_bit_nat_eq_self)

lemma encode8_shape:
  assumes "cp \<le> 0x10ffff"
  obtains
    (1) c1 where "unat cp < 128" "PhEncodeUnicode 0 cp = Some [w8 c1]" "unat c1 = unat cp"
  | (2) c1 c2 where "128 \<le> unat cp" "unat cp < 2048" "PhEncodeUnicode 0 cp = Some [w8 c1, w8 c2]"
      "unat c1 = unat cp div 64 + 192" "unat c2 = unat cp mod 64 + 128"
  | (3) c1 c2 c3 where "2048 \<le> unat cp" "unat cp < 65536" "PhEncodeUnicode 0 cp = Some [w8 c1, w8 c2, w8 c3]"
      "unat c1 = unat cp div 4096 + 224" "unat c2 = unat cp div 64 mod 64 + 128" "unat c3 = unat cp mod 64 + 128"
  | (4) c1 c2 c3 c4 where "65536 \<le> unat cp" "unat cp < 1114112"
      "PhEncodeUnicode 0 cp = Some [w8 c1, w8 c2, w8 c3, w8 c4]"
      "unat c1 = unat cp div 262144 + 240" "unat c2 = unat cp div 4096 mod 64 + 128"
      "unat c3 = unat cp div 64 mod 64 + 128" "unat c4 = unat cp mod 64 + 128"
proof -
  have le: "unat cp < 1114112" using assms by (simp add: word_le_nat_alt)
  have tail: "unat (ucast (w AND 0x3f) + 0x80 :: u8) = unat w mod 64 + 128" for w :: u32
    using unat_byte [of 128 "w AND 0x3f"] by (simp add: unat_low6)
  have head: "unat (ucast (drop_bit k cp) + of_nat b :: u8) = unat cp div 2 ^ k + b"
    if "unat cp div 2 ^ k + b < 256" for k b
    using unat_byte [of b "drop_bit k cp"] that by (simp add: unat_drop)
  note lt = word_less_nat_alt word_le_nat_alt
  consider (a) "unat cp < 128" | (b) "128 \<le> unat cp" "unat cp < 2048" | (c) "2048 \<le> unat cp" "unat cp < 65536"
    | (d) "65536 \<le> unat cp" by linarith
  then show thesis
  proof cases
    case a
    have "unat (ucast cp :: u8) = unat cp" using a unat_byte [of 0 cp] by simp
    then show ?thesis using that(1) a by (simp add: PhEncodeUnicode_def lt)
  next
    case b
    have "unat cp div 2 ^ 6 + 192 < 256" using b by simp
    note h = head [OF this]
    show ?thesis
      by (rule that(2) [OF b]) (use b h tail [of cp] in \<open>simp_all add: PhEncodeUnicode_def lt\<close>)
  next
    case c
    have "unat cp div 2 ^ 12 + 224 < 256" using c by simp
    note h = head [OF this]
    show ?thesis
      by (rule that(3) [OF c]) (use c h tail [of cp] tail [of "drop_bit 6 cp"] in \<open>simp_all add: PhEncodeUnicode_def lt unat_drop\<close>)
  next
    case d
    have "unat cp div 2 ^ 18 + 240 < 256" using le by simp
    note h = head [OF this]
    show ?thesis
      by (rule that(4) [OF d le])
        (use d le h tail [of cp] tail [of "drop_bit 6 cp"] tail [of "drop_bit 12 cp"]
          in \<open>simp_all add: PhEncodeUnicode_def lt unat_drop\<close>)
  qed
qed

lemma of_nat_back: "(of_nat a - of_nat b :: u32) = w" if "b \<le> a" "a - b = unat w" for w
  using of_nat_diff [OF that(1), where 'a = u32] that(2) by simp


lemmas unat_conds = word_less_nat_alt word_le_nat_alt word_eq_unat [where 'a = 8]

lemma push_w8: "push_bit k (w8 c) = of_nat (unat c * 2 ^ k)"
  by (simp only: push_bit_eq_mult w8_of_nat of_nat_mult of_nat_power of_nat_numeral)

lemma combine2: "push_bit 6 (w8 a) + w8 b - 0x3080 = (of_nat (unat a * 64 + unat b) - of_nat 12416 :: u32)"
  by (simp add: push_bit_eq_mult)

lemma combine3: "push_bit 12 (w8 a) + push_bit 6 (w8 b) + w8 c - 0xe2080 =
    (of_nat (unat a * 4096 + unat b * 64 + unat c) - of_nat 925824 :: u32)"
  by (simp add: push_bit_eq_mult)

lemma combine4: "push_bit 18 (w8 a) + push_bit 12 (w8 b) + push_bit 6 (w8 c) + w8 d - 0x3c82080 =
    (of_nat (unat a * 262144 + unat b * 4096 + unat c * 64 + unat d) - of_nat 63447168 :: u32)"
  by (simp add: push_bit_eq_mult)

lemma digits64:
  fixes n :: nat
  shows "n = 64 * (n div 64) + n mod 64" "n div 64 = 64 * (n div 4096) + n div 64 mod 64"
    "n div 4096 = 64 * (n div 262144) + n div 4096 mod 64"
  using mult_div_mod_eq [of 64 n] mult_div_mod_eq [of 64 "n div 64"] mult_div_mod_eq [of 64 "n div 4096"]
  by (simp_all flip: div_mult2_eq)

lemma seq8_encode:
  assumes "cp \<le> 0x10ffff"
  shows "\<exists>us. PhEncodeUnicode 0 cp = Some us \<and> seq8 (map ucast us @ rest) = Some (cp, rest)"
  using assms
proof (cases rule: encode8_shape)
  case (1 c1)
  have a: "seq8 (map ucast [w8 c1] @ rest) = Some (w8 c1, rest)" using 1 by (simp add: seq8_def unat_conds)
  have "w8 c1 = cp" using 1(3) by (simp only: word_eq_unat unat_w8)
  then show ?thesis using 1(2) a unfolding \<open>w8 c1 = cp\<close> by blast
next
  case (2 c1 c2)
  have "unat c1 \<noteq> 224" "unat c1 \<noteq> 240" "unat c1 \<noteq> 244" "194 \<le> unat c1" "unat c1 < 224" using 2 by linarith+
  moreover have "unat c2 div 64 = 2" using 2(5) by simp
  moreover have "push_bit 6 (w8 c1) + w8 c2 - 0x3080 = cp"
    unfolding combine2 using 2 by (intro of_nat_back) (simp_all only:, simp_all)
  ultimately show ?thesis using 2(3) by (simp add: seq8_def bad_second_def continuation_iff unat_conds)
next
  case (3 c1 c2 c3)
  have "unat c2 div 64 = 2" "unat c3 div 64 = 2" using 3(5,6) by simp_all
  moreover have "unat c1 \<noteq> 240" "unat c1 \<noteq> 244" "224 \<le> unat c1" "unat c1 < 240" using 3 by linarith+
  moreover have "unat c1 = 224 \<longrightarrow> 160 \<le> unat c2" using 3(1,4,5) by (auto simp: div_eq_0_iff)
  moreover have "push_bit 12 (w8 c1) + push_bit 6 (w8 c2) + w8 c3 - 0xe2080 = cp"
    unfolding combine3 using 3(4-6) digits64 [of "unat cp"] by (intro of_nat_back) linarith+
  ultimately show ?thesis using 3(3) by (auto simp: seq8_def bad_second_def continuation_iff unat_conds)
next
  case (4 c1 c2 c3 c4)
  have "unat c2 div 64 = 2" "unat c3 div 64 = 2" "unat c4 div 64 = 2" using 4(5-7) by simp_all
  moreover have "240 \<le> unat c1" "unat c1 < 245" using 4(1,2,4) by linarith+
  moreover have "unat c1 = 240 \<longrightarrow> 144 \<le> unat c2" using 4(1,4,5) by auto
  moreover have "unat c1 = 244 \<longrightarrow> \<not> 144 \<le> unat c2"
  proof -
    have "unat cp div 4096 < 272" using 4(2) by (intro less_mult_imp_div_less) simp
    then show ?thesis using 4(4,5) digits64(3) [of "unat cp"] by linarith
  qed
  moreover have "push_bit 18 (w8 c1) + push_bit 12 (w8 c2) + push_bit 6 (w8 c3) + w8 c4 - 0x3c82080 = cp"
    unfolding combine4 using 4(4-7) digits64 [of "unat cp"] by (intro of_nat_back) linarith+
  ultimately show ?thesis using 4(3) by (auto simp: seq8_def bad_second_def continuation_iff unat_conds)
qed


text \<open>The code points that a decoder gives fit the encoders, and UTF-16 can be put back together.\<close>

lemma sub_bound: "b \<le> a \<Longrightarrow> a - b \<le> 1114111 \<Longrightarrow> (of_nat a - of_nat b :: u32) \<le> 0x10ffff"
proof -
  assume a: "b \<le> a" "a - b \<le> 1114111"
  then have "a - b < 4294967296" by linarith
  then have "unat (of_nat (a - b) :: u32) = a - b" by (rule unat_of_nat_u32)
  then have "of_nat (a - b) \<le> (0x10ffff :: u32)" unfolding word_le_nat_alt using a(2) by simp
  then show ?thesis unfolding of_nat_diff [OF a(1)] .
qed

lemma div64: "n div 64 = 2 \<longleftrightarrow> 128 \<le> n \<and> n < (192 :: nat)"
  by (auto simp: div_nat_eqI)

lemma bound1: "w8 a \<le> 0x10ffff" "w8 a + 0xdc00 \<le> 0x10ffff"
  using unat_lt_u8 [of a] by (simp_all add: word_le_nat_alt unat_add_fits del: unat_lt_u8)

lemma bound2:
  assumes "w8 a < 0xe0" "\<not> w8 a < 0xc2" "\<not> bad_second a b"
  shows "push_bit 6 (w8 a) + w8 b - 0x3080 \<le> 0x10ffff"
proof -
  have "unat a < 224" "194 \<le> unat a" "unat b < 192" "128 \<le> unat b"
    using assms by (simp_all add: unat_conds bad_second_def continuation_iff div64)
  then show ?thesis unfolding combine2 by (intro sub_bound) linarith+
qed

lemma bound3:
  assumes "w8 a < 0xf0" "\<not> w8 a < 0xe0" "\<not> bad_second a b" "continuation (w8 c)"
  shows "push_bit 12 (w8 a) + push_bit 6 (w8 b) + w8 c - 0xe2080 \<le> 0x10ffff"
proof -
  have "unat a < 240" "224 \<le> unat a" "unat b < 192" "128 \<le> unat b" "unat c < 192" "128 \<le> unat c"
    using assms by (simp_all add: unat_conds bad_second_def continuation_iff div64)
  then show ?thesis unfolding combine3 by (intro sub_bound) linarith+
qed

lemma bound4:
  assumes "w8 a < 0xf5" "\<not> w8 a < 0xf0" "\<not> bad_second a b" "continuation (w8 c)" "continuation (w8 d)"
  shows "push_bit 18 (w8 a) + push_bit 12 (w8 b) + push_bit 6 (w8 c) + w8 d - 0x3c82080 \<le> 0x10ffff"
proof -
  have h: "unat a < 245" "240 \<le> unat a" "unat b < 192" "128 \<le> unat b" "unat c < 192" "128 \<le> unat c"
    "unat d < 192" "128 \<le> unat d" "unat a = 244 \<longrightarrow> unat b < 144"
    using assms by (auto simp: unat_conds bad_second_def continuation_iff div64)
  show ?thesis
  proof (cases "unat a = 244")
    case True
    then show ?thesis using h unfolding combine4 by (intro sub_bound) linarith+
  next
    case False
    then show ?thesis using h unfolding combine4 by (intro sub_bound) linarith+
  qed
qed

lemma seq8_bound:
  assumes "seq8 us = Some (cp, r)" shows "cp \<le> 0x10ffff"
  using assms
  by (cases us rule: list_cases4)
    (auto simp: seq8_def simp del: add_diff_eq intro: bound1 bound2 bound3 bound4 split: if_split_asm)

lemma surrogates:
  "PH_UNICODE_UTF16_IS_HIGH_SURROGATE c \<longleftrightarrow> 55296 \<le> unat c \<and> unat c \<le> 56319"
  "PH_UNICODE_UTF16_IS_LOW_SURROGATE c \<longleftrightarrow> 56320 \<le> unat c \<and> unat c \<le> 57343"
  by (simp_all add: PH_UNICODE_UTF16_IS_HIGH_SURROGATE_def PH_UNICODE_UTF16_IS_LOW_SURROGATE_def word_le_nat_alt)

lemma unat_w16 [simp]: "unat (w16 c) = unat c"
  by (simp add: unsigned_ucast_eq take_bit_nat_eq_self unsigned_less [THEN order_less_le_trans])

lemma combine16:
  "PH_UNICODE_UTF16_TO_CODE_POINT a (w16 b) = of_nat (unat a * 1024 + unat b) - of_nat 56613888"
  by (simp add: PH_UNICODE_UTF16_TO_CODE_POINT_def push_bit_eq_mult)

lemma unat_unit16: "k + unat (w :: u32) < 65536 \<Longrightarrow> unat (ucast w + of_nat k :: u16) = unat w + k"
proof -
  assume a: "k + unat w < 65536"
  then have "unat (ucast w :: u16) = unat w" "unat (of_nat k :: u16) = k"
    by (simp_all add: unsigned_ucast_eq take_bit_nat_eq_self unsigned_of_nat)
  then show ?thesis using a by (subst unat_add_fits) simp_all
qed

lemma unat_low10: "unat (w AND 0x3ff :: u32) = unat w mod 1024"
proof -
  have "w AND 0x3ff = take_bit 10 w" by (simp add: take_bit_eq_mask mask_eq_exp_minus_1)
  then have "unat (w AND 0x3ff) = unat (take_bit 10 w)" by (simp only:)
  also have "\<dots> = take_bit 10 (unat w)" by (rule unsigned_take_bit_eq)
  finally show ?thesis by (simp add: take_bit_eq_mod)
qed

lemma high_unit:
  assumes "65536 \<le> unat cp" "unat cp < 1114112"
  shows "unat (PH_UNICODE_UTF16_TO_HIGH_SURROGATE cp) = unat cp div 1024 + 55232"
  using unat_unit16 [of 55232 "drop_bit 10 cp"] assms
  by (simp add: PH_UNICODE_UTF16_TO_HIGH_SURROGATE_def unat_drop)

lemma low_unit: "unat (PH_UNICODE_UTF16_TO_LOW_SURROGATE cp) = unat cp mod 1024 + 56320"
  using unat_unit16 [of 56320 "cp AND 0x3ff"] by (simp add: PH_UNICODE_UTF16_TO_LOW_SURROGATE_def unat_low10)

lemma encode16_bmp:
  assumes "unat cp < 65536" obtains c where "PhEncodeUnicode 1 cp = Some [w16 c]" "w16 c = cp"
proof -
  have "w16 (ucast cp) = cp" using unat_unit16 [of 0 cp] assms by (simp add: word_eq_unat)
  then show ?thesis using that [of "ucast cp"] assms by (simp add: PhEncodeUnicode_def word_less_nat_alt)
qed

lemma encode16_high:
  assumes "65536 \<le> unat cp" "cp \<le> 0x10ffff"
  shows "PhEncodeUnicode 1 cp =
    Some [w16 (PH_UNICODE_UTF16_TO_HIGH_SURROGATE cp), w16 (PH_UNICODE_UTF16_TO_LOW_SURROGATE cp)]"
  using assms by (simp add: PhEncodeUnicode_def word_less_nat_alt)

lemma seq16_encode:
  assumes "cp \<le> 0x10ffff"
    and "\<not> PH_UNICODE_UTF16_IS_HIGH_SURROGATE cp"
  shows "\<exists>us. PhEncodeUnicode 1 cp = Some us \<and> seq16 (map ucast us @ rest) = Some (cp, rest)"
proof (cases "unat cp < 65536")
  case True
  then obtain c where c: "PhEncodeUnicode 1 cp = Some [w16 c]" "w16 c = cp" by (rule encode16_bmp)
  have "\<not> PH_UNICODE_UTF16_IS_HIGH_SURROGATE (w16 c)" using assms(2) by (simp only: c(2)) simp
  then have "seq16 (map ucast [w16 c] @ rest) = Some (w16 c, rest)" by (simp add: seq16_def)
  then show ?thesis using c by blast
next
  case False
  let ?h = "PH_UNICODE_UTF16_TO_HIGH_SURROGATE cp" and ?l = "PH_UNICODE_UTF16_TO_LOW_SURROGATE cp"
  have r: "65536 \<le> unat cp" "unat cp < 1114112" using False assms(1) by (simp_all add: word_le_nat_alt)
  have "PH_UNICODE_UTF16_TO_CODE_POINT ?h (w16 ?l) = cp"
  proof -
    have "(unat cp div 1024 + 55232) * 1024 + (unat cp mod 1024 + 56320) = unat cp + 56613888"
      using mult_div_mod_eq [of 1024 "unat cp"] by simp
    then show ?thesis unfolding combine16 high_unit [OF r] low_unit by (intro of_nat_back) simp_all
  qed
  moreover have "PH_UNICODE_UTF16_IS_HIGH_SURROGATE (w16 ?h)" "PH_UNICODE_UTF16_IS_LOW_SURROGATE (w16 ?l)"
  proof -
    have "unat cp div 1024 < 1088" using r by (intro less_mult_imp_div_less) simp
    moreover have "64 \<le> unat cp div 1024" using div_le_mono [OF r(1), of 1024] by simp
    ultimately show "PH_UNICODE_UTF16_IS_HIGH_SURROGATE (w16 ?h)" by (simp add: surrogates high_unit [OF r])
    have "unat cp mod 1024 < 1024" by simp
    then show "PH_UNICODE_UTF16_IS_LOW_SURROGATE (w16 ?l)" by (simp add: surrogates low_unit)
  qed
  ultimately have "seq16 (map ucast [w16 ?h, w16 ?l] @ rest) = Some (cp, rest)" by (simp add: seq16_def)
  then show ?thesis using encode16_high [OF r(1) assms(1)] by blast
qed

lemma seq16_split:
  assumes "seq16 us = Some (cp, r)"
  shows "cp \<le> 0x10ffff \<and> (\<exists>xs. PhEncodeUnicode 1 cp = Some xs \<and> us = map ucast xs @ r)"
proof -
  consider (one) c where "us = c # r" "cp = w16 c"
    | (two) a b where "us = a # b # r" "PH_UNICODE_UTF16_IS_HIGH_SURROGATE (w16 a)"
      "PH_UNICODE_UTF16_IS_LOW_SURROGATE (w16 b)" "cp = PH_UNICODE_UTF16_TO_CODE_POINT a (w16 b)"
    using assms by (auto simp: seq16_def split: list.splits if_split_asm)
  then show ?thesis
  proof cases
    case one
    have "unat cp < 65536" by (simp add: one)
    moreover have "PhEncodeUnicode 1 cp = Some [w16 c]"
      using \<open>unat cp < 65536\<close> by (simp add: PhEncodeUnicode_def one word_less_nat_alt)
    ultimately show ?thesis using unat_lt_u16 [of c] by (simp add: one word_le_nat_alt del: unat_lt_u16)
  next
    case two
    have r: "55296 \<le> unat a" "unat a \<le> 56319" "56320 \<le> unat b" "unat b \<le> 57343"
      using two(2,3) by (simp_all add: surrogates)
    define n where "n = unat a * 1024 + unat b - 56613888"
    have n: "n = 1024 * (unat a - 55232) + (unat b - 56320)" "65536 \<le> n" "n < 1114112"
      using r unfolding n_def by linarith+
    have "cp = of_nat n" unfolding two(4) combine16 n_def using r by (subst of_nat_diff) auto
    then have cp: "unat cp = n" using n(3) by (simp add: unsigned_of_nat take_bit_nat_eq_self)
    define x k where "x = unat a - 55232" and "k = unat b - 56320"
    have "k < 1024" "n = 1024 * x + k" using r n(1) by (auto simp: x_def k_def)
    then have "n div 1024 = x" "n mod 1024 = k" by simp_all
    then have d: "n div 1024 = unat a - 55232" "n mod 1024 = unat b - 56320" by (simp_all add: x_def k_def)
    have hi: "PH_UNICODE_UTF16_TO_HIGH_SURROGATE cp = a"
      using high_unit [of cp] n r d cp by (simp add: word_eq_unat)
    have lo: "PH_UNICODE_UTF16_TO_LOW_SURROGATE cp = b"
      using low_unit [of cp] r d cp by (simp add: word_eq_unat)
    have le: "cp \<le> 0x10ffff" using n(3) cp by (simp add: word_le_nat_alt)
    then show ?thesis using encode16_high [of cp] n(2) cp hi lo two(1) by simp
  qed
qed

section \<open>Whole strings\<close>

definition flat :: "u8 \<Rightarrow> u32 list \<Rightarrow> u32 list" where
  "flat enc cps = concat (map (\<lambda>cp. the (PhEncodeUnicode enc cp)) cps)"

definition encodable :: "u8 \<Rightarrow> u32 list \<Rightarrow> bool" where
  "encodable enc cps \<longleftrightarrow> (\<forall>cp \<in> set cps. \<exists>us. PhEncodeUnicode enc cp = Some us \<and> length us \<le> 4)"

lemma flat_simps [simp]:
  "flat enc [] = []" "flat enc (cp # cps) = the (PhEncodeUnicode enc cp) @ flat enc cps"
  by (simp_all add: flat_def)

lemma encodable_simps [simp]:
  "encodable enc []"
  "encodable enc (cp # cps) \<longleftrightarrow> (\<exists>us. PhEncodeUnicode enc cp = Some us \<and> length us \<le> 4) \<and> encodable enc cps"
  by (auto simp: encodable_def)

lemma encodable8: "cp \<le> 0x10ffff \<Longrightarrow> \<exists>us. PhEncodeUnicode 0 cp = Some us \<and> length us \<le> 4"
  by (simp add: PhEncodeUnicode_def)

lemma encodable16: "cp \<le> 0x10ffff \<Longrightarrow> \<exists>us. PhEncodeUnicode 1 cp = Some us \<and> length us \<le> 4"
  by (simp add: PhEncodeUnicode_def)

lemma encode_units_flat: "encodable enc cps \<Longrightarrow> encode_units enc cps = Some (flat enc cps)"
  by (induction cps) auto

text \<open>The units have the width of their encoding.\<close>

lemma flat_widths:
  "encodable 0 cps \<Longrightarrow> map w8 (map ucast (flat 0 cps)) = flat 0 cps"
  "encodable 1 cps \<Longrightarrow> map w16 (map ucast (flat 1 cps)) = flat 1 cps"
proof -
  have "map w8 (map ucast us) = us" if "PhEncodeUnicode 0 cp = Some us" for us cp
    using that by (auto simp: PhEncodeUnicode_def split: if_splits)
  then show "encodable 0 cps \<Longrightarrow> map w8 (map ucast (flat 0 cps)) = flat 0 cps"
    by (induction cps) auto
  have "map w16 (map ucast us) = us" if "PhEncodeUnicode 1 cp = Some us" for us cp
    using that by (auto simp: PhEncodeUnicode_def split: if_splits)
  then show "encodable 1 cps \<Longrightarrow> map w16 (map ucast (flat 1 cps)) = flat 1 cps"
    by (induction cps) auto
qed

lemma code_points_bound:
  assumes "\<And>us cp r. seq us = Some (cp, r) \<Longrightarrow> cp \<le> 0x10ffff \<and> length r < length us"
  shows "code_points seq n us = (cps, p) \<Longrightarrow> (\<forall>cp \<in> set cps. cp \<le> 0x10ffff) \<and> length cps \<le> length us"
proof (induction n arbitrary: us cps)
  case (Suc n)
  show ?case
  proof (cases "seq us")
    case None
    then show ?thesis using Suc.prems by simp
  next
    case (Some x)
    obtain cp r where x: "x = (cp, r)" by fastforce
    obtain cps' where c: "code_points seq n r = (cps', p)" "cps = cp # cps'"
      using Suc.prems Some x by (auto simp: Let_def split: prod.splits)
    then show ?thesis using Suc.IH [OF c(1)] assms Some x by fastforce
  qed
qed simp

lemma all8: "decode_all seq8 bs = (cps, p) \<Longrightarrow> (\<forall>cp \<in> set cps. cp \<le> 0x10ffff) \<and> length cps \<le> length bs"
  unfolding decode_all_def using code_points_bound [of seq8] seq8_bound utf8.seq_less by metis

lemma all16: "decode_all seq16 us = (cps, p) \<Longrightarrow> (\<forall>cp \<in> set cps. cp \<le> 0x10ffff) \<and> length cps \<le> length us"
  unfolding decode_all_def using code_points_bound [of seq16] seq16_split utf16.seq_less by metis

lemma init8: "inv8 (PhInitializeUnicodeDecoder 0)" "held8 (PhInitializeUnicodeDecoder 0) = []"
  "input8 (PhInitializeUnicodeDecoder 0) = []"
  by (simp_all add: PhInitializeUnicodeDecoder_def inv8_def held8_def input8_def pending8_def seq8_def)

lemma init16: "inv16 (PhInitializeUnicodeDecoder 1)" "held16 (PhInitializeUnicodeDecoder 1) = []"
  "input16 (PhInitializeUnicodeDecoder 1) = []"
  by (simp_all add: PhInitializeUnicodeDecoder_def inv16_def held16_def input16_def pending16_def seq16_def)

lemma fold_collect: "fold (\<lambda>cp out. out @ [cp]) cps out = out @ cps"
  by (induction cps arbitrary: out) auto

lemma decode_units8: "decode_units 0 (map w8 bs) = Some (fst (decode_all seq8 bs))"
  using utf8.convert_all [OF init8(1) init8(3), of "\<lambda>cp out. out @ [cp]" bs "[]"]
  by (simp add: decode_units_def init8(2) seq8_def fold_collect)

lemma convert16:
  "convert body (map w16 us) (PhInitializeUnicodeDecoder 1) s = Some (fold body (fst (decode_all seq16 us)) s)"
  using utf16.convert_all [OF init16(1) init16(3), of body us s] by (simp add: init16(2) seq16_def)

lemma decode_units16: "decode_units 1 (map w16 us) = Some (fst (decode_all seq16 us))"
  unfolding decode_units_def convert16 by (simp add: fold_collect)

lemma flat16_back: "decode_all seq16 us = (cps, p) \<Longrightarrow> us = map ucast (flat 1 cps) @ p"
proof (induction us arbitrary: cps rule: utf16.decode_all_induct)
  case (step us)
  show ?case
  proof (cases "seq16 us")
    case None
    then show ?thesis using step.prems by (simp add: utf16.decode_all_unfold [of us])
  next
    case (Some x)
    obtain cp r where x: "x = (cp, r)" by fastforce
    obtain cps' where c: "decode_all seq16 r = (cps', p)" "cps = cp # cps'"
      using step.prems Some x by (auto simp: utf16.decode_all_unfold [of us] Let_def split: prod.splits)
    obtain xs where xs: "PhEncodeUnicode 1 cp = Some xs" "us = map ucast xs @ r"
      using seq16_split Some x by blast
    have "r = map ucast (flat 1 cps') @ p" using step.IH [OF Some [unfolded x] c(1)] .
    then show ?thesis using xs c(2) by simp
  qed
qed

lemma flat8_decodes:
  "(\<forall>cp \<in> set cps. cp \<le> 0x10ffff) \<Longrightarrow> decode_all seq8 (map ucast (flat 0 cps)) = (cps, [])"
proof (induction cps)
  case (Cons cp cps)
  then obtain us where us: "PhEncodeUnicode 0 cp = Some us"
      "seq8 (map ucast us @ map ucast (flat 0 cps)) = Some (cp, map ucast (flat 0 cps))"
    using seq8_encode [of cp] by auto
  then show ?case using Cons by (simp add: utf8.decode_all_unfold [of "map ucast us @ map ucast (flat 0 cps)"])
qed (simp add: decode_all_def)

lemma pending16_last:
  "decode_all seq16 us = (cps, p) \<Longrightarrow>
   p = (if us \<noteq> [] \<and> PH_UNICODE_UTF16_IS_HIGH_SURROGATE (w16 (last us)) then [last us] else [])"
proof (induction us arbitrary: cps rule: utf16.decode_all_induct)
  case (step us)
  show ?case
  proof (cases "seq16 us")
    case None
    then have "us = [] \<or> (\<exists>c. us = [c] \<and> PH_UNICODE_UTF16_IS_HIGH_SURROGATE (w16 c))"
      by (auto simp: seq16_def split: list.splits if_split_asm)
    then show ?thesis using step.prems None by (auto simp: utf16.decode_all_unfold [of us])
  next
    case (Some x)
    obtain cp r where x: "x = (cp, r)" by fastforce
    obtain cps' where c: "decode_all seq16 r = (cps', p)"
      using step.prems Some x by (auto simp: utf16.decode_all_unfold [of us] Let_def split: prod.splits)
    have "us \<noteq> [] \<and> (if r = [] then \<not> PH_UNICODE_UTF16_IS_HIGH_SURROGATE (w16 (last us)) else last us = last r)"
      using Some x by (auto simp: seq16_def surrogates split: list.splits if_split_asm)
    then show ?thesis using step.IH [OF Some [unfolded x] c] by (auto split: if_split_asm)
  qed
qed

section \<open>Properties\<close>

text \<open>
  C17: The encoder and the decoder carry every UTF-16 string over to UTF-8 and back. The code points
  that the decoder gives for any sequence of 16-bit units, fed one by one, are encoded to UTF-8; the
  decoder gives the same code points for these bytes, and encoded to UTF-16 they are the string that
  one started with, unpaired surrogates inside it included, but for an unpaired high surrogate at its
  very end, for which the decoder still waits. No step raises a status or refuses a code point.
\<close>

theorem utf16_utf8_roundtrip:
  "\<exists>cps bs. decode_units PH_UNICODE_UTF16 (map w16 us) = Some cps \<and>
    encode_units PH_UNICODE_UTF8 cps = Some (map w8 bs) \<and>
    decode_units PH_UNICODE_UTF8 (map w8 bs) = Some cps \<and>
    encode_units PH_UNICODE_UTF16 cps = Some (map w16
      (if us \<noteq> [] \<and> PH_UNICODE_UTF16_IS_HIGH_SURROGATE (w16 (last us)) then butlast us else us))"
proof -
  obtain cps p where d: "decode_all seq16 us = (cps, p)" by fastforce
  let ?bs = "map ucast (flat 0 cps) :: u8 list"
  have e: "encodable 0 cps" "encodable 1 cps"
    using all16 [OF d] encodable8 encodable16 by (auto simp: encodable_def)
  have "decode_all seq8 ?bs = (cps, [])" using flat8_decodes all16 [OF d] by blast
  then have again: "decode_units 0 (map w8 ?bs) = Some cps" by (simp only: decode_units8 fst_conv)
  have "us = map ucast (flat 1 cps) @ p" by (rule flat16_back [OF d])
  then have "(if us \<noteq> [] \<and> PH_UNICODE_UTF16_IS_HIGH_SURROGATE (w16 (last us)) then butlast us else us) = map ucast (flat 1 cps)"
    using pending16_last [OF d] by (metis append_Nil2 butlast_snoc)
  then show ?thesis
    unfolding unicode_constants
    using again d encode_units_flat [OF e(1)] encode_units_flat [OF e(2)] flat_widths(1) [OF e(1)] flat_widths(2) [OF e(2)]
    by (intro exI [of _ cps] exI [of _ ?bs]) (simp only: decode_units16 fst_conv simp_thms)
qed

theorem utf16_utf8_roundtrip_witness:
  "\<exists>cps bs. decode_units 1 (map w16 [0x41, 0xd83d, 0xde00, 0xdc01, 0xd800]) = Some cps \<and>
     decode_units 0 (map w8 bs) = Some cps \<and> encode_units 1 cps = Some (map w16 [0x41, 0xd83d, 0xde00, 0xdc01])"
  using utf16_utf8_roundtrip [of "[0x41, 0xd83d, 0xde00, 0xdc01, 0xd800]"]
  by (auto simp: PH_UNICODE_UTF16_IS_HIGH_SURROGATE_def)

text \<open>The encoding of RFC 3629 by numbers.\<close>

definition utf8_reference :: "nat \<Rightarrow> u8 list" where
  "utf8_reference n =
     (if n < 128 then [of_nat n]
      else if n < 2048 then [of_nat (192 + n div 64), of_nat (128 + n mod 64)]
      else if n < 65536 then [of_nat (224 + n div 4096), of_nat (128 + n div 64 mod 64), of_nat (128 + n mod 64)]
      else [of_nat (240 + n div 262144), of_nat (128 + n div 4096 mod 64), of_nat (128 + n div 64 mod 64),
            of_nat (128 + n mod 64)])"

lemma reference_encode:
  assumes "n < 1114112"
  shows "PhEncodeUnicode 0 (of_nat n) = Some (map w8 (utf8_reference n))"
proof -
  have n: "unat (of_nat n :: u32) = n" using assms by (intro unat_of_nat_u32) simp
  have le: "(of_nat n :: u32) \<le> 0x10ffff" using assms by (simp add: word_le_nat_alt n del: of_nat_le_iff)
  have b: "c = of_nat k" if "unat c = k" for c :: u8 and k using that by auto
  show ?thesis
    using le
  proof (cases rule: encode8_shape)
    case (1 c1)
    then show ?thesis using b [OF 1(3)] unfolding n by (simp add: utf8_reference_def)
  next
    case (2 c1 c2)
    then show ?thesis using b [OF 2(4)] b [OF 2(5)] unfolding n by (simp add: utf8_reference_def add.commute)
  next
    case (3 c1 c2 c3)
    then show ?thesis using b [OF 3(4)] b [OF 3(5)] b [OF 3(6)] unfolding n by (simp add: utf8_reference_def add.commute)
  next
    case (4 c1 c2 c3 c4)
    then show ?thesis using b [OF 4(4)] b [OF 4(5)] b [OF 4(6)] b [OF 4(7)] unfolding n
      by (simp add: utf8_reference_def add.commute)
  qed
qed

text \<open>
  C21: The encoder produces and the decoder reads the UTF-8 of RFC 3629. For every sequence of code
  points up to 0x10ffff, PhEncodeUnicode gives the bytes of the definition by numbers, and feeding the
  decoder these bytes one by one gives the code points back, without a raised status. The surrogates
  0xd800 to 0xdfff, which RFC 3629 prohibits, are encoded and decoded by the same rule and not refused,
  so the code conforms to the RFC for the other code points only.
\<close>

theorem utf8_is_standard:
  assumes "\<forall>n \<in> set ns. n < 1114112"
  shows "map (\<lambda>n. PhEncodeUnicode PH_UNICODE_UTF8 (of_nat n)) ns = map (\<lambda>n. Some (map w8 (utf8_reference n))) ns \<and>
    decode_units PH_UNICODE_UTF8 (map w8 (concat (map utf8_reference ns))) = Some (map of_nat ns)"
proof
  show "map (\<lambda>n. PhEncodeUnicode PH_UNICODE_UTF8 (of_nat n)) ns = map (\<lambda>n. Some (map w8 (utf8_reference n))) ns"
    using assms reference_encode by simp
  have "concat (map utf8_reference ns) = map ucast (flat 0 (map of_nat ns))"
    using assms by (induction ns) (auto simp: reference_encode comp_def)
  moreover have "\<forall>cp \<in> set (map of_nat ns). (cp :: u32) \<le> 0x10ffff"
    using assms by (auto simp: word_le_nat_alt simp del: of_nat_le_iff)
  ultimately have "decode_all seq8 (concat (map utf8_reference ns)) = (map of_nat ns, [])"
    using flat8_decodes by simp
  then show "decode_units PH_UNICODE_UTF8 (map w8 (concat (map utf8_reference ns))) = Some (map of_nat ns)"
    by (simp only: unicode_constants decode_units8 fst_conv)
qed

theorem utf8_is_standard_witness:
  "decode_units PH_UNICODE_UTF8 (map w8 (concat (map utf8_reference [0x41, 0x20ac, 0x1f600]))) =
     Some [0x41, 0x20ac, 0x1f600]"
  using utf8_is_standard [of "[0x41, 0x20ac, 0x1f600]"] by simp

text \<open>The blocks of four are the list itself.\<close>

lemma zero_extend_blocks:
  "4 * n \<le> length cs \<Longrightarrow> zero_extend_blocks n cs = Some (map C_1uTo2 (take (4 * n) cs), drop (4 * n) cs)"
proof (induction n arbitrary: cs)
  case (Suc n)
  have "4 * Suc n = Suc (Suc (Suc (Suc (4 * n))))" by simp
  then show ?case using Suc by (cases cs rule: list_cases4) (simp_all del: mult_Suc_right)
qed simp

lemma zero_extend_rest: "zero_extend_rest (length cs) cs = Some (map C_1uTo2 cs)"
  by (induction cs) simp_all

lemma zero_extend_map: "PhZeroExtendToUtf16Buffer bs = Some (map C_1uTo2 bs)"
proof -
  have "length bs mod 4 = length (drop (4 * (length bs div 4)) bs)" by (simp add: minus_mult_div_eq_mod)
  then have "zero_extend_rest (length bs mod 4) (drop (4 * (length bs div 4)) bs) =
      Some (map C_1uTo2 (drop (4 * (length bs div 4)) bs))"
    by (simp only: zero_extend_rest)
  then show ?thesis
    by (simp add: PhZeroExtendToUtf16Buffer_def zero_extend_blocks flip: map_append)
qed

text \<open>The ASCII characters of a string: the replacement stands for the others, if there is one.\<close>

definition ascii_text :: "u8 \<Rightarrow> u32 list \<Rightarrow> u8 list" where
  "ascii_text r cps = concat (map (\<lambda>cp. if cp < 0x80 then [ucast cp] else if r \<noteq> 0 then [r] else []) cps)"

lemma fold_ascii:
  "fold (\<lambda>cp out. if cp < 0x80 then out @ [ucast cp] else if r \<noteq> 0 then out @ [r] else out) cps out =
   out @ ascii_text r cps"
  by (induction cps arbitrary: out) (auto simp: ascii_text_def)

lemma length_concat_le: "(\<And>x. length (f x) \<le> 1) \<Longrightarrow> length (concat (map f xs)) \<le> length xs"
proof (induction xs)
  case (Cons x xs)
  then show ?case using Cons.prems [of x] by fastforce
qed simp

lemma length_ascii: "length (ascii_text r cps) \<le> length cps"
  unfolding ascii_text_def by (rule length_concat_le) simp

lemma unat_C_1uTo2 [simp]: "unat (C_1uTo2 b) = unat b"
  by (simp add: C_1uTo2_def unsigned_ucast_eq take_bit_nat_eq_self unsigned_less [THEN order_less_le_trans])

lemma ascii_units:
  "\<forall>b \<in> set bs. b < 0x80 \<Longrightarrow> decode_all seq16 (map C_1uTo2 bs) = (map ucast bs, [])"
proof (induction bs)
  case (Cons b bs)
  have "unat b < 128" using Cons.prems by (simp add: word_less_nat_alt)
  then have "seq16 (C_1uTo2 b # map C_1uTo2 bs) = Some (w16 (C_1uTo2 b), map C_1uTo2 bs)"
    by (simp add: seq16_def surrogates)
  moreover have "w16 (C_1uTo2 b) = ucast b" by (rule bit_word_eqI) (auto simp: C_1uTo2_def bit_simps dest: bit_imp_le_length)
  ultimately show ?case using Cons by (simp add: utf16.decode_all_unfold [of "C_1uTo2 b # map C_1uTo2 bs"])
qed (simp add: decode_all_def)



text \<open>
  A decoder that accepts four units at once can run into PhRaiseStatus: after three bytes of an
  unfinished sequence, four more bytes are accepted, and the ill-formed one among them makes the
  decoder put back more than its input can hold.
\<close>

definition feed8 :: "u8 list \<Rightarrow> PH_UNICODE_DECODER \<Rightarrow> PH_UNICODE_DECODER option" where
  "feed8 us d = fold (\<lambda>u r. Option.bind r (\<lambda>d. map_option snd (PhWriteUnicodeDecoder d (w8 u)))) us (Some d)"

lemma decoder_raises:
  "Option.bind (feed8 [0xf0, 0x90, 0x80] (PhInitializeUnicodeDecoder PH_UNICODE_UTF8)) (\<lambda>d.
     Option.bind (PhDecodeUnicodeDecoder d) (\<lambda>(r, d).
     Option.bind (feed8 [0x41, 0x42, 0x43, 0x44] d) (\<lambda>d. Some (r, InputCount d, PhDecodeUnicodeDecoder d)))) =
   Some (None, 4, None)"
  by (simp add: feed8_def PhInitializeUnicodeDecoder_def PhWriteUnicodeDecoder_def PhDecodeUnicodeDecoder.simps
      decode_iteration_def utf8_iteration_def PhpReadUnicodeDecoder_def continuation_def PhpDecodeUtf8Error_def
      PhpUnreadUnicodeDecoder_def Let_def u8_le4)

end
