(* ===== verification/AvlLinks.thy ===== *)
theory AvlLinks
  imports TE_Prelude "HOL-Library.Monad_Syntax"
begin

text \<open>
  The code of the AVL trees, and the trees with balance factors that it is about.
  The AVL trees of ProcessHacker/phlib/avltree.c. The links of all elements live in a heap, a map
  from addresses to PH_AVL_LINKS; 0 is NULL, and a step that would dereference it has the result
  None. The sentinel Root of a tree is one of the addresses, its Right member holds the real root.
\<close>

section \<open>The code\<close>

record PH_AVL_LINKS =
  Parent :: u64
  Left :: u64
  Right :: u64
  Balance :: int

type_synonym heap = "u64 \<Rightarrow> PH_AVL_LINKS"

record PH_AVL_TREE =
  Root :: u64
  tCount :: u32
  CompareFunction :: "u64 \<Rightarrow> u64 \<Rightarrow> int"

definition rd :: "heap \<Rightarrow> u64 \<Rightarrow> PH_AVL_LINKS option" where
  "rd h p = (if p = 0 then None else Some (h p))"

definition wr :: "heap \<Rightarrow> u64 \<Rightarrow> (PH_AVL_LINKS \<Rightarrow> PH_AVL_LINKS) \<Rightarrow> heap option" where
  "wr h p f = (if p = 0 then None else Some (h(p := f (h p))))"

text \<open>A pointer to a pointer is the Left or the Right member of some links.\<close>

datatype side = LeftOf | RightOf

type_synonym link_ref = "u64 \<times> side"

definition get_ref :: "heap \<Rightarrow> link_ref \<Rightarrow> u64 option" where
  "get_ref h ref = map_option (case snd ref of LeftOf \<Rightarrow> Left | RightOf \<Rightarrow> Right) (rd h (fst ref))"

definition set_ref :: "heap \<Rightarrow> link_ref \<Rightarrow> u64 \<Rightarrow> heap option" where
  "set_ref h ref p =
     wr h (fst ref) (case snd ref of LeftOf \<Rightarrow> Left_update (\<lambda>_. p) | RightOf \<Rightarrow> Right_update (\<lambda>_. p))"

definition set_parent :: "heap \<Rightarrow> u64 \<Rightarrow> u64 \<Rightarrow> heap option" where
  "set_parent h p parent = wr h p (Parent_update (\<lambda>_. parent))"

definition adopt :: "heap \<Rightarrow> u64 \<Rightarrow> u64 \<Rightarrow> heap option" where
  "adopt h p parent = (if p \<noteq> 0 then set_parent h p parent else Some h)"

definition set_balance :: "heap \<Rightarrow> u64 \<Rightarrow> int \<Rightarrow> heap option" where
  "set_balance h p b = wr h p (Balance_update (\<lambda>_. b))"

definition PhInitializeAvlTree :: "heap \<Rightarrow> u64 \<Rightarrow> (u64 \<Rightarrow> u64 \<Rightarrow> int) \<Rightarrow> (heap \<times> PH_AVL_TREE) option" where
  "PhInitializeAvlTree h tree compare =
     map_option (\<lambda>h. (h, \<lparr> Root = tree, tCount = 0, CompareFunction = compare \<rparr>))
       (wr h tree (\<lambda>_. \<lparr> Parent = 0, Left = 0, Right = 0, Balance = 0 \<rparr>))"

definition PhRootElementAvlTree :: "heap \<Rightarrow> PH_AVL_TREE \<Rightarrow> u64 option" where
  "PhRootElementAvlTree h T = get_ref h (Root T, RightOf)"

partial_function (option) find_loop ::
  "heap \<Rightarrow> (u64 \<Rightarrow> u64 \<Rightarrow> int) \<Rightarrow> u64 \<Rightarrow> u64 \<Rightarrow> (u64 \<times> int) option" where
  "find_loop h compare Element links =
     (let result = compare Element links in
      if result = 0 then Some (links, 0)
      else if result < 0 then
        do { l \<leftarrow> rd h links;
             if Left l \<noteq> 0 then find_loop h compare Element (Left l) else Some (links, - 1) }
      else
        do { l \<leftarrow> rd h links;
             if Right l \<noteq> 0 then find_loop h compare Element (Right l) else Some (links, 1) })"

definition PhpFindElementAvlTree :: "heap \<Rightarrow> PH_AVL_TREE \<Rightarrow> u64 \<Rightarrow> (u64 \<times> int) option" where
  "PhpFindElementAvlTree h T Element =
     do { links \<leftarrow> PhRootElementAvlTree h T;
          if links = 0 then Some (Root T, 1) else find_loop h (CompareFunction T) Element links }"

definition PhpRotateLeftAvlLinks :: "heap \<Rightarrow> link_ref \<Rightarrow> heap option" where
  "PhpRotateLeftAvlLinks h root =
     do { P \<leftarrow> get_ref h root;
          Q \<leftarrow> get_ref h (P, RightOf);
          h \<leftarrow> set_ref h root Q;
          p \<leftarrow> rd h P;
          h \<leftarrow> set_parent h Q (Parent p);
          q \<leftarrow> rd h Q;
          h \<leftarrow> set_ref h (P, RightOf) (Left q);
          h \<leftarrow> adopt h (Left q) P;
          h \<leftarrow> set_ref h (Q, LeftOf) P;
          set_parent h P Q }"

definition PhpRotateLeftTwiceAvlLinks :: "heap \<Rightarrow> link_ref \<Rightarrow> heap option" where
  "PhpRotateLeftTwiceAvlLinks h root =
     do { P \<leftarrow> get_ref h root;
          Q \<leftarrow> get_ref h (P, RightOf);
          R \<leftarrow> get_ref h (Q, LeftOf);
          h \<leftarrow> set_ref h root R;
          p \<leftarrow> rd h P;
          h \<leftarrow> set_parent h R (Parent p);
          r \<leftarrow> rd h R;
          h \<leftarrow> set_ref h (Q, LeftOf) (Right r);
          h \<leftarrow> adopt h (Right r) Q;
          h \<leftarrow> set_ref h (R, RightOf) Q;
          h \<leftarrow> set_parent h Q R;
          r \<leftarrow> rd h R;
          h \<leftarrow> set_ref h (P, RightOf) (Left r);
          h \<leftarrow> adopt h (Left r) P;
          h \<leftarrow> set_ref h (R, LeftOf) P;
          set_parent h P R }"

definition PhpRotateRightAvlLinks :: "heap \<Rightarrow> link_ref \<Rightarrow> heap option" where
  "PhpRotateRightAvlLinks h root =
     do { Q \<leftarrow> get_ref h root;
          P \<leftarrow> get_ref h (Q, LeftOf);
          h \<leftarrow> set_ref h root P;
          q \<leftarrow> rd h Q;
          h \<leftarrow> set_parent h P (Parent q);
          p \<leftarrow> rd h P;
          h \<leftarrow> set_ref h (Q, LeftOf) (Right p);
          h \<leftarrow> adopt h (Right p) Q;
          h \<leftarrow> set_ref h (P, RightOf) Q;
          set_parent h Q P }"

definition PhpRotateRightTwiceAvlLinks :: "heap \<Rightarrow> link_ref \<Rightarrow> heap option" where
  "PhpRotateRightTwiceAvlLinks h root =
     do { P \<leftarrow> get_ref h root;
          Q \<leftarrow> get_ref h (P, LeftOf);
          R \<leftarrow> get_ref h (Q, RightOf);
          h \<leftarrow> set_ref h root R;
          p \<leftarrow> rd h P;
          h \<leftarrow> set_parent h R (Parent p);
          r \<leftarrow> rd h R;
          h \<leftarrow> set_ref h (Q, RightOf) (Left r);
          h \<leftarrow> adopt h (Left r) Q;
          h \<leftarrow> set_ref h (R, LeftOf) Q;
          h \<leftarrow> set_parent h Q R;
          r \<leftarrow> rd h R;
          h \<leftarrow> set_ref h (P, LeftOf) (Right r);
          h \<leftarrow> adopt h (Right r) P;
          h \<leftarrow> set_ref h (R, RightOf) P;
          set_parent h P R }"

text \<open>The result is the heap and the kind of rotation.\<close>

definition PhpRebalanceAvlLinks :: "heap \<Rightarrow> link_ref \<Rightarrow> (heap \<times> nat) option" where
  "PhpRebalanceAvlLinks h root =
     do { P \<leftarrow> get_ref h root;
          p \<leftarrow> rd h P;
          if Balance p = - 1 then
            do { let Q = Left p;
                 q \<leftarrow> rd h Q;
                 if Balance q = - 1 then
                   do { h \<leftarrow> PhpRotateRightAvlLinks h root;
                        h \<leftarrow> set_balance h P 0;
                        h \<leftarrow> set_balance h Q 0;
                        Some (h, 1) }
                 else if Balance q = 1 then
                   do { let R = Right q;
                        h \<leftarrow> PhpRotateRightTwiceAvlLinks h root;
                        r \<leftarrow> rd h R;
                        let (bp, bq) = (if Balance r = - 1 then (1, 0) else if Balance r = 1 then (0, - 1) else (0, 0));
                        h \<leftarrow> set_balance h P bp;
                        h \<leftarrow> set_balance h Q bq;
                        h \<leftarrow> set_balance h R 0;
                        Some (h, 2) }
                 else
                   do { h \<leftarrow> PhpRotateRightAvlLinks h root;
                        h \<leftarrow> set_balance h Q 1;
                        Some (h, 3) } }
          else
            do { let Q = Right p;
                 q \<leftarrow> rd h Q;
                 if Balance q = 1 then
                   do { h \<leftarrow> PhpRotateLeftAvlLinks h root;
                        h \<leftarrow> set_balance h P 0;
                        h \<leftarrow> set_balance h Q 0;
                        Some (h, 1) }
                 else if Balance q = - 1 then
                   do { let R = Left q;
                        h \<leftarrow> PhpRotateLeftTwiceAvlLinks h root;
                        r \<leftarrow> rd h R;
                        let (bp, bq) = (if Balance r = - 1 then (0, 1) else if Balance r = 1 then (- 1, 0) else (0, 0));
                        h \<leftarrow> set_balance h P bp;
                        h \<leftarrow> set_balance h Q bq;
                        h \<leftarrow> set_balance h R 0;
                        Some (h, 2) }
                 else
                   do { h \<leftarrow> PhpRotateLeftAvlLinks h root;
                        h \<leftarrow> set_balance h Q (- 1);
                        Some (h, 3) } } }"

text \<open>The member of its parent that points to some links.\<close>

definition parent_ref :: "heap \<Rightarrow> u64 \<Rightarrow> link_ref option" where
  "parent_ref h P =
     do { p \<leftarrow> rd h P;
          pp \<leftarrow> rd h (Parent p);
          Some (Parent p, if Left pp = P then LeftOf else RightOf) }"

definition side_balance :: "side \<Rightarrow> int" where
  "side_balance s = (case s of LeftOf \<Rightarrow> - 1 | RightOf \<Rightarrow> 1)"

partial_function (option) add_loop :: "heap \<Rightarrow> u64 \<Rightarrow> u64 \<Rightarrow> heap option" where
  "add_loop h root P =
     (if P = root then Some h
      else do {
        ref \<leftarrow> parent_ref h P;
        let balance = side_balance (snd ref);
        let P = fst ref;
        p \<leftarrow> rd h P;
        if Balance p = 0 then
          do { h \<leftarrow> set_balance h P balance; add_loop h root P }
        else if Balance p \<noteq> balance then set_balance h P 0
        else
          do { ref \<leftarrow> parent_ref h P;
               (h, _) \<leftarrow> PhpRebalanceAvlLinks h ref;
               Some h } })"

text \<open>The result is the existing element, or NULL if the element was added.\<close>

definition PhAddElementAvlTree ::
  "heap \<Rightarrow> PH_AVL_TREE \<Rightarrow> u64 \<Rightarrow> (heap \<times> PH_AVL_TREE \<times> u64) option" where
  "PhAddElementAvlTree h T Element =
     do { (P, result) \<leftarrow> PhpFindElementAvlTree h T Element;
          if result = 0 then Some (h, T, P)
          else do {
            h \<leftarrow> set_ref h (P, if result < 0 then LeftOf else RightOf) Element;
            h \<leftarrow> wr h Element (\<lambda>_. \<lparr> Parent = P, Left = 0, Right = 0, Balance = 0 \<rparr>);
            root \<leftarrow> PhRootElementAvlTree h T;
            h \<leftarrow> add_loop h root Element;
            Some (h, T\<lparr> tCount := tCount T + 1 \<rparr>, 0) } }"

text \<open>Down to the end along one side.\<close>

partial_function (option) descend :: "heap \<Rightarrow> side \<Rightarrow> u64 \<Rightarrow> u64 option" where
  "descend h s links =
     do { child \<leftarrow> get_ref h (links, s);
          if child \<noteq> 0 then descend h s child else Some links }"

partial_function (option) remove_loop :: "heap \<Rightarrow> u64 \<Rightarrow> u64 \<Rightarrow> int \<Rightarrow> heap option" where
  "remove_loop h root P balance =
     (if P = root then Some h
      else do {
        p \<leftarrow> rd h P;
        if Balance p = balance then
          do { h \<leftarrow> set_balance h P 0;
               ref \<leftarrow> parent_ref h P;
               remove_loop h root (fst ref) (side_balance (snd ref)) }
        else if Balance p = 0 then set_balance h P (- balance)
        else
          do { ref \<leftarrow> parent_ref h P;
               (h, kind) \<leftarrow> PhpRebalanceAvlLinks h ref;
               if kind = 3 then Some h
               else do {
                 p \<leftarrow> rd h P;
                 ref \<leftarrow> parent_ref h (Parent p);
                 remove_loop h root (fst ref) (side_balance (snd ref)) } } })"

text \<open>The element that is taken out of its place: the element itself, or its neighbour in order.\<close>

definition choose_removed :: "heap \<Rightarrow> u64 \<Rightarrow> u64 option" where
  "choose_removed h Element =
     do { e \<leftarrow> rd h Element;
          if Left e = 0 \<or> Right e = 0 then Some Element
          else if Balance e \<ge> 0 then descend h LeftOf (Right e)
          else descend h RightOf (Left e) }"

text \<open>Putting the neighbour in the place of the element.\<close>

definition replace_element :: "heap \<Rightarrow> u64 \<Rightarrow> u64 \<Rightarrow> heap option" where
  "replace_element h Element newElement =
     do { e \<leftarrow> rd h Element;
          h \<leftarrow> wr h newElement (\<lambda>_. e);
          e \<leftarrow> rd h Element;
          pe \<leftarrow> rd h (Parent e);
          n \<leftarrow> rd h newElement;
          h \<leftarrow> set_ref h (Parent n, if Left pe = Element then LeftOf else RightOf) newElement;
          n \<leftarrow> rd h newElement;
          h \<leftarrow> adopt h (Left n) newElement;
          n \<leftarrow> rd h newElement;
          adopt h (Right n) newElement }"

text \<open>Taking an element with at most one child out of the tree, with the rebalancing on the way up.\<close>

definition take_out :: "heap \<Rightarrow> u64 \<Rightarrow> u64 \<Rightarrow> heap option" where
  "take_out h root newElement =
     do { replace \<leftarrow> parent_ref h newElement;
          n \<leftarrow> rd h newElement;
          let child = (if Right n = 0 then Left n else Right n);
          h \<leftarrow> set_ref h replace child;
          h \<leftarrow> adopt h child (Parent n);
          n \<leftarrow> rd h newElement;
          remove_loop h root (Parent n) (side_balance (snd replace)) }"

definition PhRemoveElementAvlTree :: "heap \<Rightarrow> PH_AVL_TREE \<Rightarrow> u64 \<Rightarrow> (heap \<times> PH_AVL_TREE) option" where
  "PhRemoveElementAvlTree h T Element =
     do { newElement \<leftarrow> choose_removed h Element;
          h \<leftarrow> take_out h (Root T) newElement;
          h \<leftarrow> (if newElement \<noteq> Element then replace_element h Element newElement else Some h);
          Some (h, T\<lparr> tCount := tCount T - 1 \<rparr>) }"

definition PhFindElementAvlTree :: "heap \<Rightarrow> PH_AVL_TREE \<Rightarrow> u64 \<Rightarrow> u64 option" where
  "PhFindElementAvlTree h T Element =
     do { (links, result) \<leftarrow> PhpFindElementAvlTree h T Element;
          Some (if result = 0 then links else 0) }"

text \<open>
  The four bound functions descend alike: to the right if the test of the result of the comparison
  says so, and remember an element on the one or the other side.
\<close>

partial_function (option) bound_loop ::
  "heap \<Rightarrow> (u64 \<Rightarrow> u64 \<Rightarrow> int) \<Rightarrow> (int \<Rightarrow> bool) \<Rightarrow> side \<Rightarrow> u64 \<Rightarrow> u64 \<Rightarrow> u64 \<Rightarrow> u64 option" where
  "bound_loop h compare goes_right keep Element links closest =
     (if links = 0 then Some closest
      else do {
        l \<leftarrow> rd h links;
        if goes_right (compare Element links)
        then bound_loop h compare goes_right keep Element (Right l) (if keep = RightOf then links else closest)
        else bound_loop h compare goes_right keep Element (Left l) (if keep = LeftOf then links else closest) })"

definition bound_element ::
  "(int \<Rightarrow> bool) \<Rightarrow> side \<Rightarrow> heap \<Rightarrow> PH_AVL_TREE \<Rightarrow> u64 \<Rightarrow> u64 option" where
  "bound_element goes_right keep h T Element =
     do { links \<leftarrow> PhRootElementAvlTree h T;
          bound_loop h (CompareFunction T) goes_right keep Element links 0 }"

definition PhLowerBoundElementAvlTree :: "heap \<Rightarrow> PH_AVL_TREE \<Rightarrow> u64 \<Rightarrow> u64 option" where
  "PhLowerBoundElementAvlTree = bound_element (\<lambda>result. result > 0) LeftOf"

definition PhUpperBoundElementAvlTree :: "heap \<Rightarrow> PH_AVL_TREE \<Rightarrow> u64 \<Rightarrow> u64 option" where
  "PhUpperBoundElementAvlTree = bound_element (\<lambda>result. result \<ge> 0) LeftOf"

definition PhLowerDualBoundElementAvlTree :: "heap \<Rightarrow> PH_AVL_TREE \<Rightarrow> u64 \<Rightarrow> u64 option" where
  "PhLowerDualBoundElementAvlTree = bound_element (\<lambda>result. result > 0) RightOf"

definition PhUpperDualBoundElementAvlTree :: "heap \<Rightarrow> PH_AVL_TREE \<Rightarrow> u64 \<Rightarrow> u64 option" where
  "PhUpperDualBoundElementAvlTree = bound_element (\<lambda>result. result \<ge> 0) RightOf"

definition PhMinimumElementAvlTree :: "heap \<Rightarrow> PH_AVL_TREE \<Rightarrow> u64 option" where
  "PhMinimumElementAvlTree h T =
     do { links \<leftarrow> PhRootElementAvlTree h T; if links = 0 then Some 0 else descend h LeftOf links }"

definition PhMaximumElementAvlTree :: "heap \<Rightarrow> PH_AVL_TREE \<Rightarrow> u64 option" where
  "PhMaximumElementAvlTree h T =
     do { links \<leftarrow> PhRootElementAvlTree h T; if links = 0 then Some 0 else descend h RightOf links }"

text \<open>Up to the first links that were entered from the other side.\<close>

partial_function (option) climb :: "heap \<Rightarrow> side \<Rightarrow> u64 \<Rightarrow> u64 \<Rightarrow> u64 option" where
  "climb h s Element links =
     (if links = 0 then Some 0
      else do {
        child \<leftarrow> get_ref h (links, s);
        if child = Element then do { l \<leftarrow> rd h links; climb h s links (Parent l) } else Some links })"

definition PhSuccessorElementAvlTree :: "heap \<Rightarrow> u64 \<Rightarrow> u64 option" where
  "PhSuccessorElementAvlTree h Element =
     do { e \<leftarrow> rd h Element;
          if Right e \<noteq> 0 then descend h LeftOf (Right e) else climb h RightOf Element (Parent e) }"

definition PhPredecessorElementAvlTree :: "heap \<Rightarrow> u64 \<Rightarrow> u64 option" where
  "PhPredecessorElementAvlTree h Element =
     do { e \<leftarrow> rd h Element;
          if Left e \<noteq> 0 then descend h RightOf (Left e)
          else do {
            links \<leftarrow> climb h LeftOf Element (Parent e);
            if links \<noteq> 0 then do { l \<leftarrow> rd h links; Some (if Parent l = 0 then 0 else links) }
            else Some links } }"

text \<open>
  The enumeration keeps its own stack of 47 links; a push onto a full stack, which would write
  behind it, has the result None. The callback sees the element and threads its context.
\<close>

datatype PH_TREE_ENUMERATION_ORDER = TreeEnumerateInOrder | TreeEnumerateInReverseOrder

definition stackBase_size :: nat where
  "stackBase_size = 47"

partial_function (option) push_loop :: "heap \<Rightarrow> side \<Rightarrow> u64 list \<Rightarrow> u64 \<Rightarrow> u64 list option" where
  "push_loop h s stack links =
     (if links = 0 then Some stack
      else if length stack \<ge> stackBase_size then None
      else do { child \<leftarrow> get_ref h (links, s); push_loop h s (links # stack) child })"

definition other_side :: "side \<Rightarrow> side" where
  "other_side s = (case s of LeftOf \<Rightarrow> RightOf | RightOf \<Rightarrow> LeftOf)"

partial_function (option) enum_loop ::
  "heap \<Rightarrow> side \<Rightarrow> (u64 \<Rightarrow> 'c \<Rightarrow> bool \<times> 'c) \<Rightarrow> u64 list \<Rightarrow> 'c \<Rightarrow> 'c option" where
  "enum_loop h s Callback stack ctx =
     (case stack of
        [] \<Rightarrow> Some ctx
      | links # stack \<Rightarrow>
          (case Callback links ctx of (continue, ctx) \<Rightarrow>
             if \<not> continue then Some ctx
             else do {
               child \<leftarrow> get_ref h (links, other_side s);
               stack \<leftarrow> push_loop h s stack child;
               enum_loop h s Callback stack ctx }))"

definition PhEnumAvlTree ::
  "heap \<Rightarrow> PH_AVL_TREE \<Rightarrow> PH_TREE_ENUMERATION_ORDER \<Rightarrow> (u64 \<Rightarrow> 'c \<Rightarrow> bool \<times> 'c) \<Rightarrow> 'c \<Rightarrow> 'c option" where
  "PhEnumAvlTree h T Order Callback ctx =
     do { let s = (case Order of TreeEnumerateInOrder \<Rightarrow> LeftOf | TreeEnumerateInReverseOrder \<Rightarrow> RightOf);
          links \<leftarrow> PhRootElementAvlTree h T;
          stack \<leftarrow> push_loop h s [] links;
          enum_loop h s Callback stack ctx }"

section \<open>Trees with balance factors\<close>

datatype atree = Leaf | Node atree u64 int atree

primrec height :: "atree \<Rightarrow> nat" where
  "height Leaf = 0"
| "height (Node l a b r) = Suc (max (height l) (height r))"

primrec elems :: "atree \<Rightarrow> u64 list" where
  "elems Leaf = []"
| "elems (Node l a b r) = elems l @ a # elems r"

primrec avl :: "atree \<Rightarrow> bool" where
  "avl Leaf = True"
| "avl (Node l a b r) \<longleftrightarrow>
     avl l \<and> avl r \<and> b = int (height r) - int (height l) \<and> - 1 \<le> b \<and> b \<le> 1"

text \<open>A position in a tree: the way up to the root, with the parts to its sides.\<close>

datatype frame = OnLeft u64 int atree | OnRight atree u64 int

primrec plug :: "atree \<Rightarrow> frame \<Rightarrow> atree" where
  "plug t (OnLeft a b r) = Node t a b r"
| "plug t (OnRight l a b) = Node l a b t"

primrec rebuild :: "frame list \<Rightarrow> atree \<Rightarrow> atree" where
  "rebuild [] t = t"
| "rebuild (f # c) t = rebuild c (plug t f)"

primrec frame_before :: "frame \<Rightarrow> u64 list" where
  "frame_before (OnLeft a b r) = []" | "frame_before (OnRight l a b) = elems l @ [a]"

primrec frame_after :: "frame \<Rightarrow> u64 list" where
  "frame_after (OnLeft a b r) = a # elems r" | "frame_after (OnRight l a b) = []"

primrec before :: "frame list \<Rightarrow> u64 list" where
  "before [] = []" | "before (f # c) = before c @ frame_before f"

primrec after :: "frame list \<Rightarrow> u64 list" where
  "after [] = []" | "after (f # c) = frame_after f @ after c"

lemma elems_rebuild: "elems (rebuild c t) = before c @ elems t @ after c"
proof (induction c arbitrary: t)
  case (Cons f c)
  then show ?case by (cases f) simp_all
qed simp

lemma avl_plug: "avl (plug t f) \<Longrightarrow> avl t"
  by (cases f) auto

lemma avl_rebuild: "avl (rebuild c t) \<Longrightarrow> avl t"
  by (induction c arbitrary: t) (auto dest: avl_plug)

lemma avl_rebuild_cong:
  "avl (rebuild c t0) \<Longrightarrow> avl t \<Longrightarrow> height t = height t0 \<Longrightarrow> avl (rebuild c t)"
proof (induction c arbitrary: t0 t)
  case (Cons f c)
  have "avl (plug t0 f)" using Cons.prems(1) avl_rebuild by simp
  then have "avl (plug t f)" "height (plug t f) = height (plug t0 f)"
    using Cons.prems(2,3) by (cases f; simp)+
  then show ?case using Cons by simp
qed simp

text \<open>The rotations, by the case that PhpRebalanceAvlLinks selects.\<close>

fun rebalance :: "atree \<Rightarrow> atree \<times> nat" where
  "rebalance (Node l p bp r) =
     (if bp = - 1 then
        (case l of Leaf \<Rightarrow> (Node l p bp r, 0) | Node a q bq m \<Rightarrow>
           if bq = - 1 then (Node a q 0 (Node m p 0 r), 1)
           else if bq = 1 then
             (case m of Leaf \<Rightarrow> (Node l p bp r, 0) | Node x s bs y \<Rightarrow>
                (Node (Node a q (if bs = 1 then - 1 else 0) x) s 0 (Node y p (if bs = - 1 then 1 else 0) r), 2))
           else (Node a q 1 (Node m p (- 1) r), 3))
      else
        (case r of Leaf \<Rightarrow> (Node l p bp r, 0) | Node m q bq d \<Rightarrow>
           if bq = 1 then (Node (Node l p 0 m) q 0 d, 1)
           else if bq = - 1 then
             (case m of Leaf \<Rightarrow> (Node l p bp r, 0) | Node x s bs y \<Rightarrow>
                (Node (Node l p (if bs = 1 then - 1 else 0) x) s 0 (Node y q (if bs = - 1 then 1 else 0) d), 2))
           else (Node (Node l p bp m) q (- 1) d, 3)))"
| "rebalance Leaf = (Leaf, 0)"

primrec root_balance :: "atree \<Rightarrow> int" where
  "root_balance Leaf = 0" | "root_balance (Node l a b r) = b"

lemma rebalance_left:
  assumes "avl l" "avl r" "height l = height r + 2"
  shows "\<exists>t k. rebalance (Node l p (- 1) r) = (t, k) \<and> avl t \<and> elems t = elems l @ p # elems r \<and> t \<noteq> Leaf \<and>
    k \<noteq> 0 \<and> (k = 3 \<longleftrightarrow> root_balance l = 0) \<and> height t = (if k = 3 then height l + 1 else height l)"
proof (cases l)
  case (Node a q bq m)
  show ?thesis
  proof (cases m)
    case Leaf
    then show ?thesis using assms Node by (auto split: if_split_asm)
  next
    case (Node x s bs y)
    then show ?thesis using assms \<open>l = Node a q bq m\<close> by (auto simp: max_def split: if_split_asm)
  qed
qed (use assms in simp)

lemma rebalance_right:
  assumes "avl l" "avl r" "height r = height l + 2"
  shows "\<exists>t k. rebalance (Node l p 1 r) = (t, k) \<and> avl t \<and> elems t = elems l @ p # elems r \<and> t \<noteq> Leaf \<and>
    k \<noteq> 0 \<and> (k = 3 \<longleftrightarrow> root_balance r = 0) \<and> height t = (if k = 3 then height r + 1 else height r)"
proof (cases r)
  case (Node m q bq d)
  show ?thesis
  proof (cases m)
    case Leaf
    then show ?thesis using assms Node by (auto split: if_split_asm)
  next
    case (Node x s bs y)
    then show ?thesis using assms \<open>r = Node m q bq d\<close> by (auto simp: max_def split: if_split_asm)
  qed
qed (use assms in simp)

text \<open>The way up after an insertion and after a removal.\<close>

primrec frame_balance :: "frame \<Rightarrow> int" where
  "frame_balance (OnLeft a b r) = b" | "frame_balance (OnRight l a b) = b"

primrec frame_side :: "frame \<Rightarrow> side" where
  "frame_side (OnLeft a b r) = LeftOf" | "frame_side (OnRight l a b) = RightOf"

primrec with_balance :: "frame \<Rightarrow> int \<Rightarrow> frame" where
  "with_balance (OnLeft a b r) v = OnLeft a v r" | "with_balance (OnRight l a b) v = OnRight l a v"

primrec ins_up :: "frame list \<Rightarrow> atree \<Rightarrow> atree" where
  "ins_up [] t = t"
| "ins_up (f # c) t =
     (if frame_balance f = 0 then ins_up c (plug t (with_balance f (side_balance (frame_side f))))
      else if frame_balance f \<noteq> side_balance (frame_side f) then rebuild c (plug t (with_balance f 0))
      else rebuild c (fst (rebalance (plug t f))))"

primrec del_up :: "frame list \<Rightarrow> atree \<Rightarrow> atree" where
  "del_up [] t = t"
| "del_up (f # c) t =
     (if frame_balance f = side_balance (frame_side f) then del_up c (plug t (with_balance f 0))
      else if frame_balance f = 0 then rebuild c (plug t (with_balance f (- side_balance (frame_side f))))
      else let (t', k) = rebalance (plug t f) in if k = 3 then rebuild c t' else del_up c t')"

text \<open>The rebalancing on the way finds the children it needs.\<close>

primrec ins_safe :: "frame list \<Rightarrow> atree \<Rightarrow> bool" where
  "ins_safe [] t = True"
| "ins_safe (f # c) t =
     (if frame_balance f = 0 then ins_safe c (plug t (with_balance f (side_balance (frame_side f))))
      else frame_balance f \<noteq> side_balance (frame_side f) \<or> snd (rebalance (plug t f)) \<noteq> 0)"

primrec del_safe :: "frame list \<Rightarrow> atree \<Rightarrow> bool" where
  "del_safe [] t = True"
| "del_safe (f # c) t =
     (if frame_balance f = side_balance (frame_side f) then del_safe c (plug t (with_balance f 0))
      else frame_balance f = 0 \<or>
        (case rebalance (plug t f) of (t', k) \<Rightarrow> k \<noteq> 0 \<and> (k = 3 \<or> del_safe c t')))"

lemma ins_up_avl:
  "avl (rebuild c t0) \<Longrightarrow> avl t \<Longrightarrow> height t = Suc (height t0) \<Longrightarrow> height t0 = 0 \<or> root_balance t \<noteq> 0 \<Longrightarrow>
   avl (ins_up c t) \<and> elems (ins_up c t) = elems (rebuild c t) \<and> ins_safe c t"
proof (induction c arbitrary: t0 t)
  case (Cons f c)
  have f: "avl (plug t0 f)" using Cons.prems(1) avl_rebuild by simp
  note cong = avl_rebuild_cong [OF Cons.prems(1) [simplified]]
  show ?case
  proof (cases f)
    case (OnLeft a b r)
    then have b: "avl r" "b = int (height r) - int (height t0)" "- 1 \<le> b" "b \<le> 1" using f by auto
    consider "b = 0" | "b = 1" | "b = - 1" using b(3,4) by linarith
    then show ?thesis
    proof cases
      assume "b = 0"
      then show ?thesis using Cons.IH [of "plug t0 f" "Node t a (- 1) r"] Cons.prems OnLeft b
        by (simp add: side_balance_def elems_rebuild)
    next
      assume "b = 1"
      then show ?thesis using cong [of "Node t a 0 r"] Cons.prems OnLeft b
        by (simp add: side_balance_def elems_rebuild)
    next
      assume m: "b = - 1"
      obtain x k where "rebalance (Node t a (- 1) r) = (x, k)" "avl x" "elems x = elems t @ a # elems r"
          "k \<noteq> 0" "k = 3 \<longleftrightarrow> root_balance t = 0" "height x = (if k = 3 then height t + 1 else height t)"
        using rebalance_left [of t r a] Cons.prems(2,3) b m by auto
      moreover have "root_balance t \<noteq> 0" using Cons.prems(4) b m by auto
      moreover have "f = OnLeft a (- 1) r" using OnLeft m by simp
      moreover have "height t = height r + 2" using b m Cons.prems(3) by linarith
      ultimately show ?thesis using cong [of x] Cons.prems(1-3) by (simp add: side_balance_def elems_rebuild del: rebalance.simps)
    qed
  next
    case (OnRight l a b)
    then have b: "avl l" "b = int (height t0) - int (height l)" "- 1 \<le> b" "b \<le> 1" using f by auto
    consider "b = 0" | "b = - 1" | "b = 1" using b(3,4) by linarith
    then show ?thesis
    proof cases
      assume "b = 0"
      then show ?thesis using Cons.IH [of "plug t0 f" "Node l a 1 t"] Cons.prems OnRight b
        by (simp add: side_balance_def elems_rebuild)
    next
      assume "b = - 1"
      then show ?thesis using cong [of "Node l a 0 t"] Cons.prems OnRight b
        by (simp add: side_balance_def elems_rebuild)
    next
      assume m: "b = 1"
      obtain x k where "rebalance (Node l a 1 t) = (x, k)" "avl x" "elems x = elems l @ a # elems t"
          "k \<noteq> 0" "k = 3 \<longleftrightarrow> root_balance t = 0" "height x = (if k = 3 then height t + 1 else height t)"
        using rebalance_right [of l t a] Cons.prems(2,3) b m by auto
      moreover have "root_balance t \<noteq> 0" using Cons.prems(4) b m by auto
      moreover have "f = OnRight l a 1" using OnRight m by simp
      moreover have "height t = height l + 2" using b m Cons.prems(3) by linarith
      ultimately show ?thesis using cong [of x] Cons.prems(1-3) by (simp add: side_balance_def elems_rebuild del: rebalance.simps)
    qed
  qed
qed simp

lemma del_up_avl:
  "avl (rebuild c t0) \<Longrightarrow> avl t \<Longrightarrow> height t0 = Suc (height t) \<Longrightarrow>
   avl (del_up c t) \<and> elems (del_up c t) = elems (rebuild c t) \<and> del_safe c t"
proof (induction c arbitrary: t0 t)
  case (Cons f c)
  have f: "avl (plug t0 f)" using Cons.prems(1) avl_rebuild by simp
  note cong = avl_rebuild_cong [OF Cons.prems(1) [simplified]]
  show ?case
  proof (cases f)
    case (OnLeft a b r)
    then have b: "avl r" "b = int (height r) - int (height t0)" "- 1 \<le> b" "b \<le> 1" using f by auto
    consider "b = - 1" | "b = 0" | "b = 1" using b(3,4) by linarith
    then show ?thesis
    proof cases
      assume "b = - 1"
      then show ?thesis using Cons.IH [of "plug t0 f" "Node t a 0 r"] Cons.prems OnLeft b
        by (simp add: side_balance_def elems_rebuild)
    next
      assume "b = 0"
      then show ?thesis using cong [of "Node t a 1 r"] Cons.prems OnLeft b
        by (simp add: side_balance_def elems_rebuild)
    next
      assume m: "b = 1"
      obtain x k where x: "rebalance (Node t a 1 r) = (x, k)" "avl x" "elems x = elems t @ a # elems r" "k \<noteq> 0"
          "height x = (if k = 3 then height r + 1 else height r)"
        using rebalance_right [of t r a] Cons.prems(2,3) b m by auto
      have f1: "f = OnLeft a 1 r" using OnLeft m by simp
      have "height r = height t + 2" "height t0 = Suc (height t)" using b m Cons.prems(3) by linarith+
      then show ?thesis using cong [of x] Cons.IH [of "plug t0 f" x] Cons.prems(1,2) x f1
        by (cases "k = 3") (simp_all add: side_balance_def elems_rebuild del: rebalance.simps)
    qed
  next
    case (OnRight l a b)
    then have b: "avl l" "b = int (height t0) - int (height l)" "- 1 \<le> b" "b \<le> 1" using f by auto
    consider "b = 1" | "b = 0" | "b = - 1" using b(3,4) by linarith
    then show ?thesis
    proof cases
      assume "b = 1"
      then show ?thesis using Cons.IH [of "plug t0 f" "Node l a 0 t"] Cons.prems OnRight b
        by (simp add: side_balance_def elems_rebuild)
    next
      assume "b = 0"
      then show ?thesis using cong [of "Node l a (- 1) t"] Cons.prems OnRight b
        by (simp add: side_balance_def elems_rebuild)
    next
      assume m: "b = - 1"
      obtain x k where x: "rebalance (Node l a (- 1) t) = (x, k)" "avl x" "elems x = elems l @ a # elems t" "k \<noteq> 0"
          "height x = (if k = 3 then height l + 1 else height l)"
        using rebalance_left [of l t a] Cons.prems(2,3) b m by auto
      have f1: "f = OnRight l a (- 1)" using OnRight m by simp
      have "height l = height t + 2" "height t0 = Suc (height t)" using b m Cons.prems(3) by linarith+
      then show ?thesis using cong [of x] Cons.IH [of "plug t0 f" x] Cons.prems(1,2) x f1
        by (cases "k = 3") (simp_all add: side_balance_def elems_rebuild del: rebalance.simps)
    qed
  qed
qed simp

end
