(* ===== verification/AvlHeap.thy ===== *)
theory AvlHeap
  imports AvlLinks
begin

text \<open>
  Balanced trees in the heap: how the links of a tree and of the position of a subtree represent
  the inductive trees of AvlLinks, and the proof that the rotations, the rebalancing and the two
  ways up to the root of avltree.c do on the links what the functions on the trees say.
\<close>

section \<open>Trees in the heap\<close>

primrec rootp :: "atree \<Rightarrow> u64" where
  "rootp Leaf = 0" | "rootp (Node l a b r) = a"

text \<open>The links of a tree below a parent.\<close>

primrec tree_at :: "heap \<Rightarrow> u64 \<Rightarrow> atree \<Rightarrow> bool" where
  "tree_at h par Leaf = True"
| "tree_at h par (Node l a b r) \<longleftrightarrow>
     h a = \<lparr> Parent = par, Left = rootp l, Right = rootp r, Balance = b \<rparr> \<and> tree_at h a l \<and> tree_at h a r"

text \<open>The member that points to the tree in a position, and the links around the position.\<close>

fun hole :: "u64 \<Rightarrow> frame list \<Rightarrow> link_ref" where
  "hole root [] = (root, RightOf)"
| "hole root (OnLeft a b r # c) = (a, LeftOf)"
| "hole root (OnRight l a b # c) = (a, RightOf)"

fun ctx_at :: "heap \<Rightarrow> u64 \<Rightarrow> frame list \<Rightarrow> u64 \<Rightarrow> bool" where
  "ctx_at h root [] q \<longleftrightarrow> h root = \<lparr> Parent = 0, Left = 0, Right = q, Balance = 0 \<rparr>"
| "ctx_at h root (OnLeft a b r # c) q \<longleftrightarrow>
     h a = \<lparr> Parent = fst (hole root c), Left = q, Right = rootp r, Balance = b \<rparr> \<and>
     tree_at h a r \<and> ctx_at h root c a"
| "ctx_at h root (OnRight l a b # c) q \<longleftrightarrow>
     h a = \<lparr> Parent = fst (hole root c), Left = rootp l, Right = q, Balance = b \<rparr> \<and>
     tree_at h a l \<and> ctx_at h root c a"

definition ctx_elems :: "frame list \<Rightarrow> u64 set" where
  "ctx_elems c = set (before c) \<union> set (after c)"

text \<open>A tree in a position, in the tree with the sentinel \<open>root\<close>.\<close>

definition zip_at :: "heap \<Rightarrow> u64 \<Rightarrow> frame list \<Rightarrow> atree \<Rightarrow> bool" where
  "zip_at h root c t \<longleftrightarrow>
     ctx_at h root c (rootp t) \<and> tree_at h (fst (hole root c)) t \<and> distinct (elems (rebuild c t)) \<and>
     root \<notin> set (elems (rebuild c t)) \<and> 0 \<notin> set (elems (rebuild c t)) \<and> root \<noteq> 0"

lemma rootp_in: "rootp t = 0 \<or> rootp t \<in> set (elems t)"
  by (cases t) auto

lemma rootp_0 [simp]: "0 \<notin> set (elems t) \<Longrightarrow> rootp t = 0 \<longleftrightarrow> t = Leaf"
  by (cases t) auto

lemma tree_at_upd [simp]: "a \<notin> set (elems t) \<Longrightarrow> tree_at (h(a := x)) par t = tree_at h par t"
  by (induction t arbitrary: par) auto

lemma tree_at_cong: "(\<And>a. a \<in> set (elems t) \<Longrightarrow> h' a = h a) \<Longrightarrow> tree_at h' par t = tree_at h par t"
  by (induction t arbitrary: par) auto

lemma ctx_elems_simps [simp]:
  "ctx_elems [] = {}" "ctx_elems (OnLeft a b r # c) = insert a (set (elems r) \<union> ctx_elems c)"
  "ctx_elems (OnRight l a b # c) = insert a (set (elems l) \<union> ctx_elems c)"
  by (auto simp: ctx_elems_def)

lemma ctx_at_cong:
  "(\<And>a. a = root \<or> a \<in> ctx_elems c \<Longrightarrow> h' a = h a) \<Longrightarrow> ctx_at h' root c q = ctx_at h root c q"
proof (induction c arbitrary: q)
  case (Cons f c)
  have "ctx_at h' root c q' = ctx_at h root c q'" for q'
    by (rule Cons.IH) (use Cons.prems in \<open>cases f; auto\<close>)
  then show ?case using Cons.prems tree_at_cong [of _ h' h] by (cases f) simp_all
qed simp

lemma ctx_at_upd [simp]:
  "a \<noteq> root \<Longrightarrow> a \<notin> ctx_elems c \<Longrightarrow> ctx_at (h(a := x)) root c q = ctx_at h root c q"
  by (rule ctx_at_cong) auto

lemma hole_in: "fst (hole root c) = root \<or> fst (hole root c) \<in> ctx_elems c"
  by (cases c rule: list.exhaust; cases "hd c") auto

lemma distinct_rebuild:
  "distinct (elems (rebuild c t)) \<longleftrightarrow>
     distinct (elems t) \<and> set (elems t) \<inter> ctx_elems c = {} \<and> distinct (before c) \<and> distinct (after c) \<and>
     set (before c) \<inter> set (after c) = {}"
  by (auto simp: elems_rebuild ctx_elems_def)

lemma set_rebuild: "set (elems (rebuild c t)) = set (elems t) \<union> ctx_elems c"
  by (auto simp: elems_rebuild ctx_elems_def)

text \<open>The focus can be moved.\<close>

lemma zip_at_plug: "zip_at h root (f # c) t \<longleftrightarrow> zip_at h root c (plug t f)"
  by (cases f) (auto simp: zip_at_def)

lemma zip_at_rebuild: "zip_at h root c t \<longleftrightarrow> zip_at h root [] (rebuild c t)"
  by (induction c arbitrary: t) (simp_all add: zip_at_plug)

text \<open>Another tree with the same elements can be put into the position by writing the one member.\<close>

lemma get_hole: "zip_at h root c t \<Longrightarrow> get_ref h (hole root c) = Some (rootp t)"
proof (cases c)
  case (Cons f c')
  assume "zip_at h root c t"
  then show ?thesis using Cons by (cases f) (auto simp: zip_at_def get_ref_def rd_def set_rebuild)
qed (auto simp: zip_at_def get_ref_def rd_def)

definition hole_heap :: "heap \<Rightarrow> link_ref \<Rightarrow> u64 \<Rightarrow> heap" where
  "hole_heap h ref q = h(fst ref :=
     (case snd ref of LeftOf \<Rightarrow> Left_update (\<lambda>_. q) | RightOf \<Rightarrow> Right_update (\<lambda>_. q)) (h (fst ref)))"

lemma set_hole: "fst ref \<noteq> 0 \<Longrightarrow> set_ref h ref q = Some (hole_heap h ref q)"
  by (simp add: set_ref_def wr_def hole_heap_def)

lemma ctx_at_hole:
  assumes "ctx_at h root c p" "root \<notin> ctx_elems c" "distinct (before c)" "distinct (after c)"
    "set (before c) \<inter> set (after c) = {}"
  shows "ctx_at (hole_heap h (hole root c) q) root c q"
proof (cases c)
  case (Cons f c')
  then show ?thesis using assms by (cases f) (auto simp: hole_heap_def ctx_elems_def)
qed (use assms in \<open>simp add: hole_heap_def\<close>)

lemma zip_at_focus:
  assumes z: "zip_at h root c t"
  obtains h1 where "set_ref h (hole root c) q = Some h1" "ctx_at h1 root c q" "tree_at h1 (fst (hole root c)) t"
    "\<And>a. a \<in> set (elems t) \<Longrightarrow> h1 a = h a"
proof -
  let ?x = "fst (hole root c)" and ?h1 = "hole_heap h (hole root c) q"
  have x: "?x \<noteq> 0" "?x \<notin> set (elems t)"
    using z hole_in [of root c] by (auto simp: zip_at_def set_rebuild distinct_rebuild)
  have "ctx_at ?h1 root c q"
    using z by (intro ctx_at_hole) (auto simp: zip_at_def distinct_rebuild set_rebuild)
  moreover have "tree_at ?h1 ?x t" using z x(2) by (simp add: zip_at_def hole_heap_def)
  moreover have "?h1 a = h a" if "a \<in> set (elems t)" for a using that x(2) by (auto simp: hole_heap_def)
  ultimately show ?thesis using that set_hole [OF x(1)] by blast
qed

lemma zip_at_intro:
  assumes "zip_at h root c t" and "ctx_at h1 root c (rootp t')" and "elems t' = elems t"
    and "\<And>a. a \<notin> set (elems t) \<Longrightarrow> h' a = h1 a" and "tree_at h' (fst (hole root c)) t'"
  shows "zip_at h' root c t'"
proof -
  have "ctx_at h' root c (rootp t') = ctx_at h1 root c (rootp t')"
    by (rule ctx_at_cong) (use assms(1,4) in \<open>auto simp: zip_at_def set_rebuild distinct_rebuild\<close>)
  then show ?thesis using assms by (simp add: zip_at_def elems_rebuild)
qed

text \<open>Handing a subtree to another parent.\<close>

definition parented :: "heap \<Rightarrow> atree \<Rightarrow> u64 \<Rightarrow> heap" where
  "parented h t par = (case t of Leaf \<Rightarrow> h | Node l a b r \<Rightarrow> h(a := (h a)\<lparr> Parent := par \<rparr>))"

lemma adopt_tree: "0 \<notin> set (elems t) \<Longrightarrow> adopt h (rootp t) par = Some (parented h t par)"
  by (cases t) (auto simp: adopt_def set_parent_def wr_def parented_def)

lemma parented_other [simp]: "a \<notin> set (elems t) \<Longrightarrow> parented h t par a = h a"
  by (cases t) (auto simp: parented_def)

lemma tree_at_parented [simp]:
  "tree_at h p0 t \<Longrightarrow> distinct (elems t) \<Longrightarrow> tree_at (parented h t par) par t"
  by (cases t) (auto simp: parented_def)

lemma tree_at_parented_other [simp]:
  "set (elems s) \<inter> set (elems t) = {} \<Longrightarrow> tree_at (parented h t par) p s = tree_at h p s"
  by (cases t) (auto simp: parented_def)

lemma member_ops:
  "get_ref h (p, LeftOf) = (if p = 0 then None else Some (Left (h p)))"
  "get_ref h (p, RightOf) = (if p = 0 then None else Some (Right (h p)))"
  "set_ref h (p, LeftOf) q = (if p = 0 then None else Some (h(p := (h p)\<lparr> Left := q \<rparr>)))"
  "set_ref h (p, RightOf) q = (if p = 0 then None else Some (h(p := (h p)\<lparr> Right := q \<rparr>)))"
  by (simp_all add: get_ref_def set_ref_def rd_def wr_def)

lemmas heap_ops = rd_def wr_def set_parent_def set_balance_def member_ops

lemma rotate_left_at:
  assumes z: "zip_at h root c (Node A p bp (Node B q bq C))"
  shows "\<exists>h'. PhpRotateLeftAvlLinks h (hole root c) = Some h' \<and> zip_at h' root c (Node (Node A p bp B) q bq C)"
proof -
  let ?x = "fst (hole root c)" and ?es = "elems (Node A p bp (Node B q bq C))"
  obtain h1 where h1: "set_ref h (hole root c) q = Some h1" "ctx_at h1 root c q"
    "tree_at h1 ?x (Node A p bp (Node B q bq C))" "\<And>a. a \<in> set ?es \<Longrightarrow> h1 a = h a"
    using zip_at_focus [OF z] by blast
  have d: "distinct ?es" "0 \<notin> set ?es" using z by (auto simp: zip_at_def distinct_rebuild set_rebuild)
  have dj: "set (elems A) \<inter> set (elems B) = {}" "set (elems C) \<inter> set (elems B) = {}" using d by auto
  have hp: "h p = h1 p" "h q = h1 q" using h1(4) by simp_all
  note g = get_hole [OF z]
  define h2 where "h2 = parented (h1(q := \<lparr> Parent = ?x, Left = rootp B, Right = rootp C, Balance = bq \<rparr>,
    p := \<lparr> Parent = ?x, Left = rootp A, Right = rootp B, Balance = bp \<rparr>)) B p"
  have h2: "h2 p = \<lparr> Parent = ?x, Left = rootp A, Right = rootp B, Balance = bp \<rparr>"
    "h2 q = \<lparr> Parent = ?x, Left = rootp B, Right = rootp C, Balance = bq \<rparr>"
    "tree_at h2 p A" "tree_at h2 p B" "tree_at h2 q C" "\<And>a. a \<notin> set ?es \<Longrightarrow> h2 a = h1 a"
    using d dj h1(3) unfolding h2_def by auto
  define h3 where "h3 = h2(q := \<lparr> Parent = ?x, Left = p, Right = rootp C, Balance = bq \<rparr>,
    p := \<lparr> Parent = q, Left = rootp A, Right = rootp B, Balance = bp \<rparr>)"
  have "PhpRotateLeftAvlLinks h (hole root c) = Some h3"
    using d h1(3) h2(1,2) unfolding h3_def
    by (simp add: PhpRotateLeftAvlLinks_def g h1(1) hp heap_ops adopt_tree flip: h2_def)
  moreover have "zip_at h3 root c (Node (Node A p bp B) q bq C)"
    by (rule zip_at_intro [OF z, where ?h1.0 = h1]) (use d h1(2) h2 in \<open>auto simp: h3_def\<close>)
  ultimately show ?thesis by blast
qed

lemma rotate_right_at:
  assumes z: "zip_at h root c (Node (Node A p bp B) q bq C)"
  shows "\<exists>h'. PhpRotateRightAvlLinks h (hole root c) = Some h' \<and> zip_at h' root c (Node A p bp (Node B q bq C))"
proof -
  let ?x = "fst (hole root c)" and ?es = "elems (Node (Node A p bp B) q bq C)"
  obtain h1 where h1: "set_ref h (hole root c) p = Some h1" "ctx_at h1 root c p"
    "tree_at h1 ?x (Node (Node A p bp B) q bq C)" "\<And>a. a \<in> set ?es \<Longrightarrow> h1 a = h a"
    using zip_at_focus [OF z] by blast
  have d: "distinct ?es" "0 \<notin> set ?es" using z by (auto simp: zip_at_def distinct_rebuild set_rebuild)
  have dj: "set (elems A) \<inter> set (elems B) = {}" "set (elems C) \<inter> set (elems B) = {}" using d by auto
  have hp: "h p = h1 p" "h q = h1 q" using h1(4) by simp_all
  have ne: "p \<noteq> q" "q \<noteq> p" "p \<noteq> 0" "q \<noteq> 0" "0 \<notin> set (elems B)" using d by auto
  note g = get_hole [OF z]
  define h2 where "h2 = parented (h1(p := \<lparr> Parent = ?x, Left = rootp A, Right = rootp B, Balance = bp \<rparr>,
    q := \<lparr> Parent = ?x, Left = rootp B, Right = rootp C, Balance = bq \<rparr>)) B q"
  have h2: "h2 p = \<lparr> Parent = ?x, Left = rootp A, Right = rootp B, Balance = bp \<rparr>"
    "h2 q = \<lparr> Parent = ?x, Left = rootp B, Right = rootp C, Balance = bq \<rparr>"
    "tree_at h2 p A" "tree_at h2 q B" "tree_at h2 q C" "\<And>a. a \<notin> set ?es \<Longrightarrow> h2 a = h1 a"
    using d dj h1(3) unfolding h2_def by auto
  define h3 where "h3 = h2(p := \<lparr> Parent = ?x, Left = rootp A, Right = q, Balance = bp \<rparr>,
    q := \<lparr> Parent = p, Left = rootp B, Right = rootp C, Balance = bq \<rparr>)"
  have "PhpRotateRightAvlLinks h (hole root c) = Some h3"
    using ne h1(3) h2(1,2) unfolding h3_def
    by (simp add: PhpRotateRightAvlLinks_def g h1(1) hp heap_ops adopt_tree flip: h2_def)
  moreover have "zip_at h3 root c (Node A p bp (Node B q bq C))"
    by (rule zip_at_intro [OF z, where ?h1.0 = h1]) (use d h1(2) h2 in \<open>auto simp: h3_def\<close>)
  ultimately show ?thesis by blast
qed

lemma rotate_left_twice_at:
  assumes z: "zip_at h root c (Node A p bp (Node (Node B r br C) q bq D))"
  shows "\<exists>h'. PhpRotateLeftTwiceAvlLinks h (hole root c) = Some h' \<and>
    zip_at h' root c (Node (Node A p bp B) r br (Node C q bq D))"
proof -
  let ?x = "fst (hole root c)" and ?es = "elems (Node A p bp (Node (Node B r br C) q bq D))"
  obtain h1 where h1: "set_ref h (hole root c) r = Some h1" "ctx_at h1 root c r"
    "tree_at h1 ?x (Node A p bp (Node (Node B r br C) q bq D))" "\<And>a. a \<in> set ?es \<Longrightarrow> h1 a = h a"
    using zip_at_focus [OF z] by blast
  have d: "distinct ?es" "0 \<notin> set ?es" using z by (auto simp: zip_at_def distinct_rebuild set_rebuild)
  have dj: "set (elems A) \<inter> set (elems B) = {}" "set (elems A) \<inter> set (elems C) = {}"
    "set (elems B) \<inter> set (elems C) = {}" "set (elems D) \<inter> set (elems C) = {}"
    "set (elems C) \<inter> set (elems B) = {}" "set (elems D) \<inter> set (elems B) = {}" using d by auto
  have hp: "h p = h1 p" "h q = h1 q" "h r = h1 r" using h1(4) by simp_all
  have ne: "p \<noteq> q" "q \<noteq> p" "p \<noteq> r" "r \<noteq> p" "q \<noteq> r" "r \<noteq> q" "p \<noteq> 0" "q \<noteq> 0" "r \<noteq> 0"
    "0 \<notin> set (elems B)" "0 \<notin> set (elems C)" using d by auto
  note g = get_hole [OF z]
  define h2 where "h2 = parented (h1(r := \<lparr> Parent = ?x, Left = rootp B, Right = rootp C, Balance = br \<rparr>,
    q := \<lparr> Parent = p, Left = rootp C, Right = rootp D, Balance = bq \<rparr>)) C q"
  have h2: "h2 p = \<lparr> Parent = ?x, Left = rootp A, Right = q, Balance = bp \<rparr>"
    "h2 q = \<lparr> Parent = p, Left = rootp C, Right = rootp D, Balance = bq \<rparr>"
    "h2 r = \<lparr> Parent = ?x, Left = rootp B, Right = rootp C, Balance = br \<rparr>"
    "tree_at h2 p A" "tree_at h2 r B" "tree_at h2 q C" "tree_at h2 q D" "\<And>a. a \<notin> set ?es \<Longrightarrow> h2 a = h1 a"
    using d dj h1(3) unfolding h2_def by auto
  define h3 where "h3 = parented (h2(r := \<lparr> Parent = ?x, Left = rootp B, Right = q, Balance = br \<rparr>,
    q := \<lparr> Parent = r, Left = rootp C, Right = rootp D, Balance = bq \<rparr>,
    p := \<lparr> Parent = ?x, Left = rootp A, Right = rootp B, Balance = bp \<rparr>)) B p"
  have h3: "h3 p = \<lparr> Parent = ?x, Left = rootp A, Right = rootp B, Balance = bp \<rparr>"
    "h3 q = \<lparr> Parent = r, Left = rootp C, Right = rootp D, Balance = bq \<rparr>"
    "h3 r = \<lparr> Parent = ?x, Left = rootp B, Right = q, Balance = br \<rparr>"
    "tree_at h3 p A" "tree_at h3 p B" "tree_at h3 q C" "tree_at h3 q D" "\<And>a. a \<notin> set ?es \<Longrightarrow> h3 a = h1 a"
    using d dj h2 unfolding h3_def by auto
  define h4 where "h4 = h3(r := \<lparr> Parent = ?x, Left = p, Right = q, Balance = br \<rparr>,
    p := \<lparr> Parent = r, Left = rootp A, Right = rootp B, Balance = bp \<rparr>)"
  have "PhpRotateLeftTwiceAvlLinks h (hole root c) = Some h4"
    using ne h1(3) h2(1-3) h3(1-3) unfolding h4_def
    by (simp add: PhpRotateLeftTwiceAvlLinks_def g h1(1) hp heap_ops adopt_tree flip: h2_def h3_def)
  moreover have "zip_at h4 root c (Node (Node A p bp B) r br (Node C q bq D))"
    by (rule zip_at_intro [OF z, where ?h1.0 = h1]) (use d h1(2) h3 in \<open>auto simp: h4_def\<close>)
  ultimately show ?thesis by blast
qed

lemma rotate_right_twice_at:
  assumes z: "zip_at h root c (Node (Node A q bq (Node B r br C)) p bp D)"
  shows "\<exists>h'. PhpRotateRightTwiceAvlLinks h (hole root c) = Some h' \<and>
    zip_at h' root c (Node (Node A q bq B) r br (Node C p bp D))"
proof -
  let ?x = "fst (hole root c)" and ?es = "elems (Node (Node A q bq (Node B r br C)) p bp D)"
  obtain h1 where h1: "set_ref h (hole root c) r = Some h1" "ctx_at h1 root c r"
    "tree_at h1 ?x (Node (Node A q bq (Node B r br C)) p bp D)" "\<And>a. a \<in> set ?es \<Longrightarrow> h1 a = h a"
    using zip_at_focus [OF z] by blast
  have d: "distinct ?es" "0 \<notin> set ?es" using z by (auto simp: zip_at_def distinct_rebuild set_rebuild)
  have dj: "set (elems A) \<inter> set (elems B) = {}" "set (elems A) \<inter> set (elems C) = {}"
    "set (elems B) \<inter> set (elems C) = {}" "set (elems D) \<inter> set (elems C) = {}"
    "set (elems C) \<inter> set (elems B) = {}" "set (elems D) \<inter> set (elems B) = {}" using d by auto
  have hp: "h p = h1 p" "h q = h1 q" "h r = h1 r" using h1(4) by simp_all
  have ne: "p \<noteq> q" "q \<noteq> p" "p \<noteq> r" "r \<noteq> p" "q \<noteq> r" "r \<noteq> q" "p \<noteq> 0" "q \<noteq> 0" "r \<noteq> 0"
    "0 \<notin> set (elems B)" "0 \<notin> set (elems C)" using d by auto
  note g = get_hole [OF z]
  define h2 where "h2 = parented (h1(r := \<lparr> Parent = ?x, Left = rootp B, Right = rootp C, Balance = br \<rparr>,
    q := \<lparr> Parent = p, Left = rootp A, Right = rootp B, Balance = bq \<rparr>)) B q"
  have h2: "h2 p = \<lparr> Parent = ?x, Left = q, Right = rootp D, Balance = bp \<rparr>"
    "h2 q = \<lparr> Parent = p, Left = rootp A, Right = rootp B, Balance = bq \<rparr>"
    "h2 r = \<lparr> Parent = ?x, Left = rootp B, Right = rootp C, Balance = br \<rparr>"
    "tree_at h2 q A" "tree_at h2 q B" "tree_at h2 r C" "tree_at h2 p D" "\<And>a. a \<notin> set ?es \<Longrightarrow> h2 a = h1 a"
    using d dj h1(3) unfolding h2_def by auto
  define h3 where "h3 = parented (h2(r := \<lparr> Parent = ?x, Left = q, Right = rootp C, Balance = br \<rparr>,
    q := \<lparr> Parent = r, Left = rootp A, Right = rootp B, Balance = bq \<rparr>,
    p := \<lparr> Parent = ?x, Left = rootp C, Right = rootp D, Balance = bp \<rparr>)) C p"
  have h3: "h3 p = \<lparr> Parent = ?x, Left = rootp C, Right = rootp D, Balance = bp \<rparr>"
    "h3 q = \<lparr> Parent = r, Left = rootp A, Right = rootp B, Balance = bq \<rparr>"
    "h3 r = \<lparr> Parent = ?x, Left = q, Right = rootp C, Balance = br \<rparr>"
    "tree_at h3 q A" "tree_at h3 q B" "tree_at h3 p C" "tree_at h3 p D" "\<And>a. a \<notin> set ?es \<Longrightarrow> h3 a = h1 a"
    using d dj h2 unfolding h3_def by auto
  define h4 where "h4 = h3(r := \<lparr> Parent = ?x, Left = q, Right = p, Balance = br \<rparr>,
    p := \<lparr> Parent = r, Left = rootp C, Right = rootp D, Balance = bp \<rparr>)"
  have "PhpRotateRightTwiceAvlLinks h (hole root c) = Some h4"
    using ne h1(3) h2(1-3) h3(1-3) unfolding h4_def
    by (simp add: PhpRotateRightTwiceAvlLinks_def g h1(1) hp heap_ops adopt_tree flip: h2_def h3_def)
  moreover have "zip_at h4 root c (Node (Node A q bq B) r br (Node C p bp D))"
    by (rule zip_at_intro [OF z, where ?h1.0 = h1]) (use d h1(2) h3 in \<open>auto simp: h4_def\<close>)
  ultimately show ?thesis by blast
qed

text \<open>Writing the balance of an element in the position.\<close>

lemma set_balance_at:
  assumes "zip_at h root c (Node l a b r)"
  shows "\<exists>h'. set_balance h a v = Some h' \<and> zip_at h' root c (Node l a v r)"
proof -
  have "zip_at (h(a := (h a)\<lparr> Balance := v \<rparr>)) root c (Node l a v r)"
    by (rule zip_at_intro [OF assms, where ?h1.0 = h])
      (use assms in \<open>auto simp: zip_at_def distinct_rebuild set_rebuild\<close>)
  then show ?thesis using assms by (auto simp: set_balance_def wr_def zip_at_def set_rebuild)
qed

lemma set_balance_left:
  "zip_at h root c (Node (Node l a b m) p bp r) \<Longrightarrow>
   \<exists>h'. set_balance h a v = Some h' \<and> zip_at h' root c (Node (Node l a v m) p bp r)"
  using set_balance_at [of h root "OnLeft p bp r # c" l a b m v] by (simp add: zip_at_plug)

lemma set_balance_right:
  "zip_at h root c (Node l p bp (Node m a b r)) \<Longrightarrow>
   \<exists>h'. set_balance h a v = Some h' \<and> zip_at h' root c (Node l p bp (Node m a v r))"
  using set_balance_at [of h root "OnRight l p bp # c" m a b r v] by (simp add: zip_at_plug)

text \<open>The rebalancing of the links is the one of the tree.\<close>

lemma zip_at_member:
  "zip_at h root c (Node l p b r) \<Longrightarrow> p \<noteq> 0 \<and> h p = \<lparr> Parent = fst (hole root c), Left = rootp l, Right = rootp r, Balance = b \<rparr>"
  by (auto simp: zip_at_def set_rebuild)

lemma zip_at_left_member:
  "zip_at h root c (Node (Node a q bq m) p b r) \<Longrightarrow>
   q \<noteq> 0 \<and> h q = \<lparr> Parent = p, Left = rootp a, Right = rootp m, Balance = bq \<rparr>"
  by (auto simp: zip_at_def set_rebuild)

lemma zip_at_right_member:
  "zip_at h root c (Node l p b (Node m q bq a)) \<Longrightarrow>
   q \<noteq> 0 \<and> h q = \<lparr> Parent = p, Left = rootp m, Right = rootp a, Balance = bq \<rparr>"
  by (auto simp: zip_at_def set_rebuild)

lemma rebalance_left_at:
  assumes z: "zip_at h root c (Node (Node a q bq m) p (- 1) r)"
    and k: "snd (rebalance (Node (Node a q bq m) p (- 1) r)) \<noteq> 0"
  shows "\<exists>h' t k. PhpRebalanceAvlLinks h (hole root c) = Some (h', k) \<and>
    rebalance (Node (Node a q bq m) p (- 1) r) = (t, k) \<and> zip_at h' root c t"
proof -
  note rd = get_hole [OF z] zip_at_member [OF z] zip_at_left_member [OF z]
  consider "bq = - 1" | x s bs y where "bq = 1" "m = Node x s bs y" | "bq \<noteq> - 1" "bq \<noteq> 1"
    using k by (cases m) (auto split: if_split_asm)
  then show ?thesis
  proof cases
    case 1
    obtain h1 where 1: "PhpRotateRightAvlLinks h (hole root c) = Some h1"
      "zip_at h1 root c (Node a q bq (Node m p (- 1) r))" using rotate_right_at [OF z] by blast
    obtain h2 where 2: "set_balance h1 p 0 = Some h2" "zip_at h2 root c (Node a q bq (Node m p 0 r))"
      using set_balance_right [OF 1(2)] by blast
    obtain h3 where 3: "set_balance h2 q 0 = Some h3" "zip_at h3 root c (Node a q 0 (Node m p 0 r))"
      using set_balance_at [OF 2(2)] by blast
    show ?thesis using \<open>bq = - 1\<close> rd 1 2 3 by (simp add: PhpRebalanceAvlLinks_def rd_def)
  next
    case 2
    obtain h1 where 1: "PhpRotateRightTwiceAvlLinks h (hole root c) = Some h1"
      "zip_at h1 root c (Node (Node a q bq x) s bs (Node y p (- 1) r))"
      using rotate_right_twice_at z 2(2) by blast
    obtain h2 where h2: "set_balance h1 p (if bs = - 1 then 1 else 0) = Some h2"
      "zip_at h2 root c (Node (Node a q bq x) s bs (Node y p (if bs = - 1 then 1 else 0) r))"
      using set_balance_right [OF 1(2)] by blast
    obtain h3 where h3: "set_balance h2 q (if bs = 1 then - 1 else 0) = Some h3"
      "zip_at h3 root c (Node (Node a q (if bs = 1 then - 1 else 0) x) s bs (Node y p (if bs = - 1 then 1 else 0) r))"
      using set_balance_left [OF h2(2)] by blast
    obtain h4 where h4: "set_balance h3 s 0 = Some h4"
      "zip_at h4 root c (Node (Node a q (if bs = 1 then - 1 else 0) x) s 0 (Node y p (if bs = - 1 then 1 else 0) r))"
      using set_balance_at [OF h3(2)] by blast
    show ?thesis
      using 2 rd 1(1) zip_at_member [OF 1(2)] h2(1) h3(1) h4
      by (cases "bs = - 1"; cases "bs = 1") (simp_all add: PhpRebalanceAvlLinks_def rd_def)
  next
    case 3
    obtain h1 where 1: "PhpRotateRightAvlLinks h (hole root c) = Some h1"
      "zip_at h1 root c (Node a q bq (Node m p (- 1) r))" using rotate_right_at [OF z] by blast
    obtain h2 where 2: "set_balance h1 q 1 = Some h2" "zip_at h2 root c (Node a q 1 (Node m p (- 1) r))"
      using set_balance_at [OF 1(2)] by blast
    show ?thesis using 3 rd 1 2 by (simp add: PhpRebalanceAvlLinks_def rd_def)
  qed
qed

lemma rebalance_right_at:
  assumes z: "zip_at h root c (Node l p b (Node m q bq d))" and b: "b \<noteq> - 1"
    and k: "snd (rebalance (Node l p b (Node m q bq d))) \<noteq> 0"
  shows "\<exists>h' t k. PhpRebalanceAvlLinks h (hole root c) = Some (h', k) \<and>
    rebalance (Node l p b (Node m q bq d)) = (t, k) \<and> zip_at h' root c t"
proof -
  note rd = get_hole [OF z] zip_at_member [OF z] zip_at_right_member [OF z]
  consider "bq = 1" | x s bs y where "bq = - 1" "m = Node x s bs y" | "bq \<noteq> - 1" "bq \<noteq> 1"
    using k b by (cases m) (auto split: if_split_asm)
  then show ?thesis
  proof cases
    case 1
    obtain h1 where 1: "PhpRotateLeftAvlLinks h (hole root c) = Some h1"
      "zip_at h1 root c (Node (Node l p b m) q bq d)" using rotate_left_at [OF z] by blast
    obtain h2 where 2: "set_balance h1 p 0 = Some h2" "zip_at h2 root c (Node (Node l p 0 m) q bq d)"
      using set_balance_left [OF 1(2)] by blast
    obtain h3 where 3: "set_balance h2 q 0 = Some h3" "zip_at h3 root c (Node (Node l p 0 m) q 0 d)"
      using set_balance_at [OF 2(2)] by blast
    show ?thesis using \<open>bq = 1\<close> rd b 1 2 3 by (simp add: PhpRebalanceAvlLinks_def rd_def)
  next
    case 2
    obtain h1 where 1: "PhpRotateLeftTwiceAvlLinks h (hole root c) = Some h1"
      "zip_at h1 root c (Node (Node l p b x) s bs (Node y q bq d))"
      using rotate_left_twice_at z 2(2) by blast
    obtain h2 where h2: "set_balance h1 p (if bs = 1 then - 1 else 0) = Some h2"
      "zip_at h2 root c (Node (Node l p (if bs = 1 then - 1 else 0) x) s bs (Node y q bq d))"
      using set_balance_left [OF 1(2)] by blast
    obtain h3 where h3: "set_balance h2 q (if bs = - 1 then 1 else 0) = Some h3"
      "zip_at h3 root c (Node (Node l p (if bs = 1 then - 1 else 0) x) s bs (Node y q (if bs = - 1 then 1 else 0) d))"
      using set_balance_right [OF h2(2)] by blast
    obtain h4 where h4: "set_balance h3 s 0 = Some h4"
      "zip_at h4 root c (Node (Node l p (if bs = 1 then - 1 else 0) x) s 0 (Node y q (if bs = - 1 then 1 else 0) d))"
      using set_balance_at [OF h3(2)] by blast
    show ?thesis
      using 2 rd b 1(1) zip_at_member [OF 1(2)] h2(1) h3(1) h4
      by (cases "bs = - 1"; cases "bs = 1") (simp_all add: PhpRebalanceAvlLinks_def rd_def)
  next
    case 3
    obtain h1 where 1: "PhpRotateLeftAvlLinks h (hole root c) = Some h1"
      "zip_at h1 root c (Node (Node l p b m) q bq d)" using rotate_left_at [OF z] by blast
    obtain h2 where 2: "set_balance h1 q (- 1) = Some h2" "zip_at h2 root c (Node (Node l p b m) q (- 1) d)"
      using set_balance_at [OF 1(2)] by blast
    show ?thesis using 3 rd b 1 2 by (simp add: PhpRebalanceAvlLinks_def rd_def)
  qed
qed

lemma rebalance_at:
  assumes z: "zip_at h root c t" and k: "snd (rebalance t) \<noteq> 0"
  shows "\<exists>h' t' k. PhpRebalanceAvlLinks h (hole root c) = Some (h', k) \<and> rebalance t = (t', k) \<and> zip_at h' root c t'"
proof (cases t)
  case (Node l p b r)
  show ?thesis
  proof (cases "b = - 1")
    case True
    then obtain a q bq m where "l = Node a q bq m" using k Node by (cases l) auto
    then show ?thesis using rebalance_left_at z k Node True by blast
  next
    case False
    then obtain m q bq d where "r = Node m q bq d" using k Node by (cases r) auto
    then show ?thesis using rebalance_right_at z k Node False by blast
  qed
qed (use k in simp)

text \<open>The way up.\<close>

lemma hole_side: "snd (hole root (f # c)) = frame_side f"
  by (cases f) auto

lemma parent_ref_at:
  assumes z: "zip_at h root c t" and t: "t \<noteq> Leaf"
  shows "parent_ref h (rootp t) = Some (hole root c)"
proof (cases c)
  case (Cons f c')
  show ?thesis
  proof (cases f)
    case (OnLeft a b r)
    then show ?thesis using z t Cons by (cases t) (auto simp: parent_ref_def zip_at_def rd_def set_rebuild)
  next
    case (OnRight l a b)
    have "rootp l \<noteq> rootp t"
      using z t Cons OnRight rootp_in [of l] by (cases t) (auto simp: zip_at_def set_rebuild distinct_rebuild)
    then show ?thesis using z t Cons OnRight
      by (cases t) (auto simp: parent_ref_def zip_at_def rd_def set_rebuild)
  qed
qed (use z t in \<open>cases t; auto simp: parent_ref_def zip_at_def rd_def\<close>)

lemma zip_at_children:
  "zip_at h root c (Node l p b r) \<Longrightarrow>
   (case l of Leaf \<Rightarrow> True | Node _ q _ _ \<Rightarrow> q \<noteq> 0 \<and> Parent (h q) = p) \<and>
   (case r of Leaf \<Rightarrow> True | Node _ q _ _ \<Rightarrow> q \<noteq> 0 \<and> Parent (h q) = p)"
  by (auto simp: zip_at_def set_rebuild split: atree.split)

lemma rebalance_parent:
  assumes "zip_at h root c t" "rebalance (Node l p b r) = (t, k)" "k \<noteq> 0" "k \<noteq> 3"
  shows "t \<noteq> Leaf \<and> p \<noteq> 0 \<and> Parent (h p) = rootp t"
proof (cases t)
  case (Node l' s b' r')
  then have "(case l' of Leaf \<Rightarrow> False | Node _ q _ _ \<Rightarrow> q = p) \<or> (case r' of Leaf \<Rightarrow> False | Node _ q _ _ \<Rightarrow> q = p)"
    using assms(2-4) by (auto split: if_split_asm atree.splits)
  then show ?thesis using zip_at_children assms(1) Node by (fastforce split: atree.splits)
qed (use assms in \<open>auto split: if_split_asm atree.splits\<close>)

lemma rootp_rebuild_in: "c \<noteq> [] \<Longrightarrow> rootp (rebuild c t) \<in> ctx_elems c"
proof (induction c arbitrary: t)
  case (Cons f c)
  then show ?case by (cases "c = []"; cases f) (auto simp: ctx_elems_def)
qed simp

lemma rootp_rebuild: "rootp t = rootp t' \<Longrightarrow> rootp (rebuild c t) = rootp (rebuild c t')"
proof (induction c arbitrary: t t')
  case (Cons f c)
  have "rootp (plug t f) = rootp (plug t' f)" by (cases f) simp_all
  then show ?case by (simp add: Cons.IH [of "plug t f" "plug t' f"])
qed simp

lemma rootp_plug:
  "rootp (plug t f) = fst (hole root (f # c))" "rootp (plug t (with_balance f v)) = fst (hole root (f # c))"
  by (cases f; simp)+

lemma plug_node: "plug t f \<noteq> Leaf"
  by (cases f) simp_all

lemma frame_member:
  assumes "zip_at h root (f # c) t"
  shows "fst (hole root (f # c)) \<noteq> 0" "fst (hole root (f # c)) \<noteq> root"
    "Balance (h (fst (hole root (f # c)))) = frame_balance f"
  using assms by (cases f; auto simp: zip_at_def set_rebuild)+

lemma set_frame_balance:
  assumes "zip_at h root (f # c) t"
  obtains h' where "set_balance h (fst (hole root (f # c))) v = Some h'" "zip_at h' root c (plug t (with_balance f v))"
proof (cases f)
  case (OnLeft a b r)
  then show ?thesis using that set_balance_at [of h root c t a b r v] assms by (auto simp: zip_at_plug)
next
  case (OnRight l a b)
  then show ?thesis using that set_balance_at [of h root c l a b t v] assms by (auto simp: zip_at_plug)
qed

lemma zip_at_disjoint: "zip_at h root c t \<Longrightarrow> set (elems t) \<inter> ctx_elems c = {}"
  by (simp add: zip_at_def distinct_rebuild)

lemma add_loop_at:
  assumes "zip_at h root c t" "t \<noteq> Leaf" "ins_safe c t"
  shows "\<exists>h'. add_loop h (rootp (rebuild c t)) (rootp t) = Some h' \<and> zip_at h' root [] (ins_up c t)"
  using assms
proof (induction c arbitrary: h t)
  case Nil
  then show ?case by (simp add: add_loop.simps)
next
  case (Cons f c)
  let ?P = "fst (hole root (f # c))" and ?b = "side_balance (frame_side f)"
  note m = frame_member [OF Cons.prems(1)]
  note mset = set_frame_balance [OF Cons.prems(1)]
  note pr = rootp_plug [where root = root and f = f and c = c]
  have ne: "rootp t \<noteq> rootp (rebuild c (plug t f))"
    using rootp_rebuild_in [of "f # c" t] zip_at_disjoint [OF Cons.prems(1)] Cons.prems(2) by (cases t) (auto simp del: ctx_elems_simps)
  have z: "zip_at h root c (plug t f)" using Cons.prems(1) by (simp add: zip_at_plug)
  have ref: "parent_ref h (rootp t) = Some (hole root (f # c))" "parent_ref h ?P = Some (hole root c)"
    using parent_ref_at [OF Cons.prems(1,2)] parent_ref_at [OF z plug_node] pr(1) [of t] by simp_all
  have step: "add_loop h (rootp (rebuild c (plug t f))) (rootp t) =
    (if frame_balance f = 0 then
       do { h \<leftarrow> set_balance h ?P ?b; add_loop h (rootp (rebuild c (plug t f))) ?P }
     else if frame_balance f \<noteq> ?b then set_balance h ?P 0
     else do { (h, _) \<leftarrow> PhpRebalanceAvlLinks h (hole root c); Some h })"
    using ne m(1,3) ref by (subst add_loop.simps) (simp add: hole_side rd_def Let_def)
  show ?case
  proof (cases "frame_balance f = 0")
    case True
    let ?t = "plug t (with_balance f ?b)"
    obtain h1 where h1: "set_balance h ?P ?b = Some h1" "zip_at h1 root c ?t" by (rule mset)
    obtain h2 where "add_loop h1 (rootp (rebuild c ?t)) (rootp ?t) = Some h2" "zip_at h2 root [] (ins_up c ?t)"
      using Cons.IH [OF h1(2) plug_node] Cons.prems(3) True by auto
    moreover have "rootp (rebuild c ?t) = rootp (rebuild c (plug t f))" by (rule rootp_rebuild) (simp only: pr)
    ultimately show ?thesis using True step h1(1) pr(2) [of t] by simp
  next
    case False
    obtain h1 where "set_balance h ?P 0 = Some h1" "zip_at h1 root c (plug t (with_balance f 0))" by (rule mset)
    then show ?thesis
      using False step rebalance_at [OF z] Cons.prems(3)
      by (cases "frame_balance f = ?b") (auto simp flip: zip_at_rebuild)
  qed
qed

lemma remove_loop_at:
  assumes "zip_at h root c t" "del_safe c t"
  shows "\<exists>h'. remove_loop h root (fst (hole root c)) (side_balance (snd (hole root c))) = Some h' \<and>
    zip_at h' root [] (del_up c t)"
  using assms
proof (induction c arbitrary: h t)
  case Nil
  then show ?case by (simp add: remove_loop.simps)
next
  case (Cons f c)
  let ?P = "fst (hole root (f # c))" and ?b = "side_balance (frame_side f)"
  note m = frame_member [OF Cons.prems(1)]
  note mset = set_frame_balance [OF Cons.prems(1)]
  note pr = rootp_plug [where root = root and f = f and c = c]
  have z: "zip_at h root c (plug t f)" using Cons.prems(1) by (simp add: zip_at_plug)
  show ?case
  proof (cases "frame_balance f = ?b")
    case True
    let ?t = "plug t (with_balance f 0)"
    obtain h1 where h1: "set_balance h ?P 0 = Some h1" "zip_at h1 root c ?t" by (rule mset)
    have "parent_ref h1 ?P = Some (hole root c)" using parent_ref_at [OF h1(2) plug_node] pr(2) [of t] by simp
    then show ?thesis using True Cons.IH [OF h1(2)] Cons.prems(2) h1(1) m(1-3)
      by (subst remove_loop.simps) (simp add: hole_side rd_def)
  next
    case False
    note b = False
    show ?thesis
    proof (cases "frame_balance f = 0")
      case True
      obtain h1 where "set_balance h ?P (- ?b) = Some h1" "zip_at h1 root c (plug t (with_balance f (- ?b)))"
        by (rule mset)
      then show ?thesis using True m(1-3) b
        by (subst remove_loop.simps) (auto simp: hole_side rd_def simp flip: zip_at_rebuild)
    next
      case False
      obtain l p bp r where pl: "plug t f = Node l p bp r" using plug_node [of t f] by (cases "plug t f") auto
      have k: "snd (rebalance (plug t f)) \<noteq> 0" using Cons.prems(2) b False by (auto split: prod.splits)
      obtain h1 t1 k1 where r: "PhpRebalanceAvlLinks h (hole root c) = Some (h1, k1)" "rebalance (plug t f) = (t1, k1)"
        "zip_at h1 root c t1" using rebalance_at [OF z k] by blast
      have ref: "parent_ref h ?P = Some (hole root c)" using parent_ref_at [OF z plug_node] pr(1) [of t] by simp
      show ?thesis
      proof (cases "k1 = 3")
        case True
        then show ?thesis using r m(1-3) b False ref
          by (subst remove_loop.simps) (auto simp: hole_side rd_def simp flip: zip_at_rebuild)
      next
        case k3: False
        have p: "t1 \<noteq> Leaf \<and> ?P \<noteq> 0 \<and> Parent (h1 ?P) = rootp t1"
          using rebalance_parent [OF r(3), of l p bp r k1] r(2) k k3 pl pr(1) [of t] by auto
        have "parent_ref h1 (rootp t1) = Some (hole root c)" using parent_ref_at [OF r(3)] p by blast
        then show ?thesis using r m(1-3) b False ref k3 p Cons.IH [OF r(3)] Cons.prems(2)
          by (subst remove_loop.simps) (auto simp: hole_side rd_def)
      qed
    qed
  qed
qed

end
