(* ===== verification/AvlTree.thy ===== *)
theory AvlTree
  imports AvlHeap
begin

text \<open>
  The search trees: the elements in the order of the comparison function, the operations of
  avltree.c on them, and the properties of the component.
\<close>

section \<open>The order of the elements\<close>

definition sorted_by :: "(u64 \<Rightarrow> u64 \<Rightarrow> int) \<Rightarrow> u64 list \<Rightarrow> bool" where
  "sorted_by cmp xs \<longleftrightarrow> sorted_wrt (\<lambda>a b. cmp a b < 0) xs"

text \<open>The elements below, and above, an element.\<close>

definition below :: "(u64 \<Rightarrow> u64 \<Rightarrow> int) \<Rightarrow> u64 \<Rightarrow> u64 list \<Rightarrow> u64 list" where
  "below cmp e xs = filter (\<lambda>x. cmp e x > 0) xs"

definition above :: "(u64 \<Rightarrow> u64 \<Rightarrow> int) \<Rightarrow> u64 \<Rightarrow> u64 list \<Rightarrow> u64 list" where
  "above cmp e xs = filter (\<lambda>x. cmp e x < 0) xs"

text \<open>What a comparison function has to keep: its signs order the elements.\<close>

locale element_order =
  fixes cmp :: "u64 \<Rightarrow> u64 \<Rightarrow> int"
  assumes opposite: "cmp a b < 0 \<longleftrightarrow> cmp b a > 0"
    and transitive: "cmp a b \<le> 0 \<Longrightarrow> cmp b c \<le> 0 \<Longrightarrow> cmp a c \<le> 0"
begin

lemma same [simp]: "cmp a a = 0"
  using opposite [of a a] by linarith

lemma transitive_less: "cmp a b < 0 \<Longrightarrow> cmp b c \<le> 0 \<Longrightarrow> cmp a c < 0"
  using transitive [of b c a] opposite [of a b] opposite [of a c] by linarith

lemma transitive_less2: "cmp a b \<le> 0 \<Longrightarrow> cmp b c < 0 \<Longrightarrow> cmp a c < 0"
  using transitive [of c a b] opposite [of b c] opposite [of a c] by linarith

lemma transitive_eq: "cmp a b = 0 \<Longrightarrow> cmp b c = 0 \<Longrightarrow> cmp a c = 0"
  using transitive [of a b c] transitive [of c b a] opposite [of a b] opposite [of b c] opposite [of a c]
    opposite [of b a] opposite [of c b] by linarith

lemma sorted_distinct: "sorted_by cmp xs \<Longrightarrow> distinct xs"
  by (induction xs) (auto simp: sorted_by_def)

lemma sorted_above: "sorted_by cmp (a # xs) \<Longrightarrow> cmp e a \<le> 0 \<Longrightarrow> x \<in> set xs \<Longrightarrow> cmp e x < 0"
  using transitive_less2 by (auto simp: sorted_by_def)

lemma sorted_below: "sorted_by cmp (xs @ [a]) \<Longrightarrow> cmp e a \<ge> 0 \<Longrightarrow> x \<in> set xs \<Longrightarrow> cmp e x > 0"
proof -
  assume "sorted_by cmp (xs @ [a])" "cmp e a \<ge> 0" "x \<in> set xs"
  then have "cmp x a < 0" "cmp a e \<le> 0" using opposite [of e a] by (auto simp: sorted_by_def sorted_wrt_append)
  then have "cmp x e < 0" by (rule transitive_less)
  then show ?thesis using opposite by blast
qed

lemma split_place:
  assumes "sorted_by cmp (xs @ ys)" "\<forall>x\<in>set xs. cmp e x > 0" "\<forall>y\<in>set ys. cmp e y < 0"
  shows "below cmp e (xs @ ys) = xs" "above cmp e (xs @ ys) = ys" "sorted_by cmp (xs @ e # ys)"
proof -
  show "below cmp e (xs @ ys) = xs" "above cmp e (xs @ ys) = ys"
    using assms(2,3) by (auto simp: below_def above_def filter_empty_conv filter_id_conv)
  show "sorted_by cmp (xs @ e # ys)"
    using assms opposite by (auto simp: sorted_by_def sorted_wrt_append)
qed

end

lemma sorted_by_append:
  "sorted_by cmp (xs @ ys) \<longleftrightarrow> sorted_by cmp xs \<and> sorted_by cmp ys \<and> (\<forall>x\<in>set xs. \<forall>y\<in>set ys. cmp x y < 0)"
  by (auto simp: sorted_by_def sorted_wrt_append)

section \<open>Positions\<close>

fun locate :: "(u64 \<Rightarrow> u64 \<Rightarrow> int) \<Rightarrow> u64 \<Rightarrow> frame list \<Rightarrow> atree \<Rightarrow> frame list \<times> atree" where
  "locate cmp e c Leaf = (c, Leaf)"
| "locate cmp e c (Node l a b r) =
     (if cmp e a = 0 then (c, Node l a b r)
      else if cmp e a < 0 then locate cmp e (OnLeft a b r # c) l
      else locate cmp e (OnRight l a b # c) r)"

lemma locate_rebuild: "locate cmp e c t = (c', t') \<Longrightarrow> rebuild c' t' = rebuild c t"
  by (induction cmp e c t rule: locate.induct) (auto split: if_split_asm)

lemma locate_found: "locate cmp e c t = (c', t') \<Longrightarrow> (case t' of Leaf \<Rightarrow> True | Node l a b r \<Rightarrow> cmp e a = 0)"
  by (induction cmp e c t rule: locate.induct) (auto split: if_split_asm)

context element_order
begin

lemma locate_sides:
  assumes "locate cmp e c t = (c', t')" "sorted_by cmp (elems (rebuild c t))"
    "\<forall>x\<in>set (before c). cmp e x > 0" "\<forall>x\<in>set (after c). cmp e x < 0"
  shows "(\<forall>x\<in>set (before c'). cmp e x > 0) \<and> (\<forall>x\<in>set (after c'). cmp e x < 0)"
  using assms
proof (induction t arbitrary: c)
  case (Node l a b r)
  have s: "sorted_by cmp (elems l @ [a])" "sorted_by cmp (a # elems r)"
    using Node.prems(2) by (auto simp: elems_rebuild sorted_by_append sorted_by_def sorted_wrt_append)
  note up = sorted_above [OF s(2), of e] and lo = sorted_below [OF s(1), of e]
  consider "cmp e a = 0" | "cmp e a < 0" | "cmp e a > 0" by linarith
  then show ?case
  proof cases
    case 1
    then show ?thesis using Node.prems by simp
  next
    case 2
    then have "\<forall>x\<in>set (after (OnLeft a b r # c)). cmp e x < 0" using up Node.prems(4) by auto
    then show ?thesis using Node.IH(1) [of "OnLeft a b r # c"] Node.prems(1-3) 2 by simp
  next
    case 3
    then have "\<forall>x\<in>set (before (OnRight l a b # c)). cmp e x > 0" using lo Node.prems(3) by auto
    then show ?thesis using Node.IH(2) [of "OnRight l a b # c"] Node.prems(1,2,4) 3 by simp
  qed
qed simp

end

text \<open>An element of a tree has a position.\<close>

lemma split_tree: "a \<in> set (elems t) \<Longrightarrow> \<exists>c l b r. rebuild c0 t = rebuild (c @ c0) (Node l a b r)"
proof (induction t arbitrary: c0)
  case (Node l x b r)
  consider "a = x" | "a \<in> set (elems l)" | "a \<in> set (elems r)" using Node.prems by auto
  then show ?case
  proof cases
    case 1
    then show ?thesis by (metis append_Nil)
  next
    case 2
    then show ?thesis using Node.IH(1) [of "OnLeft x b r # c0"] by (metis append.assoc append_Cons append_Nil plug.simps(1) rebuild.simps(2))
  next
    case 3
    then show ?thesis using Node.IH(2) [of "OnRight l x b # c0"] by (metis append.assoc append_Cons append_Nil plug.simps(2) rebuild.simps(2))
  qed
qed simp

lemma position:
  assumes "a \<in> set (elems t)"
  obtains c l b r where "t = rebuild c (Node l a b r)"
  using split_tree [OF assms, of "[]"] by auto

text \<open>Down along one side.\<close>

fun down :: "side \<Rightarrow> frame list \<Rightarrow> atree \<Rightarrow> frame list \<times> atree" where
  "down s c Leaf = (c, Leaf)"
| "down LeftOf c (Node l a b r) = (if l = Leaf then (c, Node l a b r) else down LeftOf (OnLeft a b r # c) l)"
| "down RightOf c (Node l a b r) = (if r = Leaf then (c, Node l a b r) else down RightOf (OnRight l a b # c) r)"

lemma down_rebuild: "down s c t = (c', t') \<Longrightarrow> rebuild c' t' = rebuild c t"
  by (induction s c t rule: down.induct) (auto split: if_split_asm)

lemma down_left:
  "down LeftOf c t = (c', t') \<Longrightarrow> t \<noteq> Leaf \<Longrightarrow> \<exists>a b r. t' = Node Leaf a b r \<and> before c' = before c"
proof (induction LeftOf c t rule: down.induct)
  case (2 c l a b r)
  then show ?case by (cases "l = Leaf") auto
qed auto

lemma down_right:
  "down RightOf c t = (c', t') \<Longrightarrow> t \<noteq> Leaf \<Longrightarrow> \<exists>a b l. t' = Node l a b Leaf \<and> after c' = after c"
proof (induction RightOf c t rule: down.induct)
  case (3 c l a b r)
  then show ?case by (cases "r = Leaf") auto
qed auto

lemma down_node: "t \<noteq> Leaf \<Longrightarrow> down s c t = (c', t') \<Longrightarrow> t' \<noteq> Leaf"
  using down_left [of c t c' t'] down_right [of c t c' t'] by (cases s) auto

lemma descend_at:
  "zip_at h root c t \<Longrightarrow> t \<noteq> Leaf \<Longrightarrow> descend h s (rootp t) = Some (rootp (snd (down s c t)))"
proof (induction s c t rule: down.induct)
  case (2 c l a b r)
  have "zip_at h root (OnLeft a b r # c) l" using 2 by (simp add: zip_at_plug)
  then show ?case using 2 zip_at_member [OF "2.prems"(1)]
    by (subst descend.simps) (auto simp: member_ops zip_at_def set_rebuild)
next
  case (3 c l a b r)
  have "zip_at h root (OnRight l a b # c) r" using 3 by (simp add: zip_at_plug)
  then show ?case using 3 zip_at_member [OF "3.prems"(1)]
    by (subst descend.simps) (auto simp: member_ops zip_at_def set_rebuild)
qed auto

section \<open>The operations in the heap\<close>

lemma zip_at_node: "zip_at h root c t \<Longrightarrow> t \<noteq> Leaf \<Longrightarrow> rootp t \<noteq> 0"
  by (cases t) (auto simp: zip_at_def set_rebuild)

lemma find_loop_at:
  "zip_at h root c t \<Longrightarrow> t \<noteq> Leaf \<Longrightarrow>
   find_loop h cmp e (rootp t) =
     Some (case locate cmp e c t of (c', t') \<Rightarrow>
       if t' = Leaf then (fst (hole root c'), side_balance (snd (hole root c'))) else (rootp t', 0))"
proof (induction t arbitrary: c)
  case (Node l a b r)
  note m = zip_at_member [OF Node.prems(1)]
  have zl: "zip_at h root (OnLeft a b r # c) l" and zr: "zip_at h root (OnRight l a b # c) r"
    using Node.prems(1) by (simp_all add: zip_at_plug)
  have 0: "rootp l = 0 \<longleftrightarrow> l = Leaf" "rootp r = 0 \<longleftrightarrow> r = Leaf"
    using Node.prems(1) by (auto simp: zip_at_def set_rebuild)
  show ?case
    using m 0 Node.IH(1) [OF zl] Node.IH(2) [OF zr]
    by (cases "l = Leaf"; cases "r = Leaf"; subst find_loop.simps) (simp_all add: rd_def side_balance_def Let_def)
qed simp

lemma root_element_at: "zip_at h (Root T) [] t \<Longrightarrow> PhRootElementAvlTree h T = Some (rootp t)"
  using get_hole [of h "Root T" "[]" t] by (simp add: PhRootElementAvlTree_def)

lemma find_at:
  assumes "zip_at h (Root T) [] t" "locate (CompareFunction T) e [] t = (c', t')"
  shows "PhpFindElementAvlTree h T e =
    Some (if t' = Leaf then (fst (hole (Root T) c'), side_balance (snd (hole (Root T) c'))) else (rootp t', 0))"
proof (cases "t = Leaf")
  case True
  then show ?thesis using assms root_element_at [OF assms(1)]
    by (auto simp: PhpFindElementAvlTree_def side_balance_def)
next
  case False
  then show ?thesis using assms root_element_at [OF assms(1)] find_loop_at [OF assms(1) False] zip_at_node [OF assms(1)]
    by (simp add: PhpFindElementAvlTree_def)
qed

text \<open>Putting a new element into an empty position.\<close>

lemma insert_at:
  assumes z: "zip_at h root c Leaf" and e: "e \<noteq> 0" "e \<noteq> root" "e \<notin> ctx_elems c"
  shows "\<exists>h1. set_ref h (hole root c) e = Some h1 \<and>
    zip_at (h1(e := \<lparr> Parent = fst (hole root c), Left = 0, Right = 0, Balance = 0 \<rparr>)) root c (Node Leaf e 0 Leaf)"
proof -
  obtain h1 where "set_ref h (hole root c) e = Some h1" "ctx_at h1 root c e"
    using zip_at_focus [OF z, of e] by blast
  then show ?thesis using z e by (auto simp: zip_at_def distinct_rebuild set_rebuild)
qed

text \<open>The state of a tree: the links of a search tree that is balanced, and the counter.\<close>

definition avl_tree :: "heap \<Rightarrow> PH_AVL_TREE \<Rightarrow> atree \<Rightarrow> bool" where
  "avl_tree h T t \<longleftrightarrow>
     zip_at h (Root T) [] t \<and> avl t \<and> sorted_by (CompareFunction T) (elems t) \<and>
     tCount T = of_nat (length (elems t))"

lemma side_balance_neg: "(if side_balance s < 0 then LeftOf else RightOf) = s"
  by (cases s) (simp_all add: side_balance_def)

lemma side_balance_0 [simp]: "side_balance s \<noteq> 0"
  by (cases s) (simp_all add: side_balance_def)

context element_order
begin

lemma add_new:
  assumes t: "avl_tree h T t" and T: "CompareFunction T = cmp"
    and e: "e \<noteq> 0" "e \<noteq> Root T" and new: "\<forall>x\<in>set (elems t). cmp e x \<noteq> 0"
  shows "\<exists>h' t'. PhAddElementAvlTree h T e = Some (h', T\<lparr> tCount := tCount T + 1 \<rparr>, 0) \<and>
    avl_tree h' (T\<lparr> tCount := tCount T + 1 \<rparr>) t' \<and> elems t' = below cmp e (elems t) @ e # above cmp e (elems t)"
proof -
  have z: "zip_at h (Root T) [] t" and a: "avl t" and s: "sorted_by cmp (elems t)" using t T by (simp_all add: avl_tree_def)
  obtain c t' where loc: "locate cmp e [] t = (c, t')" by (cases "locate cmp e [] t")
  have rb: "rebuild c t' = t" using locate_rebuild [OF loc] by simp
  have leaf: "t' = Leaf"
    using locate_found [OF loc] new rb by (cases t') (auto simp: elems_rebuild)
  have el: "elems t = before c @ after c" using rb leaf elems_rebuild [of c Leaf] by simp
  have sides: "\<forall>x\<in>set (before c). cmp e x > 0" "\<forall>x\<in>set (after c). cmp e x < 0"
    using locate_sides [OF loc] s by simp_all
  note place = split_place [OF s [unfolded el] sides]
  have zc: "zip_at h (Root T) c Leaf" using z rb leaf by (simp add: zip_at_rebuild [of _ _ c])
  have "e \<notin> set (elems t)" using new by auto
  then have ec: "e \<notin> ctx_elems c" using el by (simp add: ctx_elems_def)
  let ?t = "Node Leaf e 0 Leaf" and ?links = "\<lparr> Parent = fst (hole (Root T) c), Left = 0, Right = 0, Balance = 0 \<rparr>"
  obtain h1 where h1: "set_ref h (hole (Root T) c) e = Some h1" "zip_at (h1(e := ?links)) (Root T) c ?t"
    using insert_at [OF zc e ec] by blast
  have up: "avl (ins_up c ?t) \<and> elems (ins_up c ?t) = elems (rebuild c ?t) \<and> ins_safe c ?t"
    by (rule ins_up_avl [of c Leaf]) (use a rb leaf in auto)
  obtain h2 where h2: "add_loop (h1(e := ?links)) (rootp (rebuild c ?t)) e = Some h2"
    "zip_at h2 (Root T) [] (ins_up c ?t)" using add_loop_at [OF h1(2)] up by auto
  have "PhRootElementAvlTree (h1(e := ?links)) T = Some (rootp (rebuild c ?t))"
    by (rule root_element_at) (use h1(2) in \<open>simp add: zip_at_rebuild [of _ _ c]\<close>)
  then have "PhAddElementAvlTree h T e = Some (h2, T\<lparr> tCount := tCount T + 1 \<rparr>, 0)"
    using find_at [OF z, of e c t'] loc leaf T e h1(1) h2(1)
    by (simp add: PhAddElementAvlTree_def side_balance_neg wr_def)
  moreover have "elems (ins_up c ?t) = below cmp e (elems t) @ e # above cmp e (elems t)"
    using up place el by (simp add: elems_rebuild)
  moreover have "avl_tree h2 (T\<lparr> tCount := tCount T + 1 \<rparr>) (ins_up c ?t)"
    using up h2(2) place(3) t T el by (simp add: avl_tree_def elems_rebuild)
  ultimately show ?thesis by blast
qed

lemma find_spec:
  assumes t: "avl_tree h T t" and T: "CompareFunction T = cmp"
  shows "if \<exists>x\<in>set (elems t). cmp e x = 0
    then \<exists>x\<in>set (elems t). cmp e x = 0 \<and> PhpFindElementAvlTree h T e = Some (x, 0)
    else \<exists>links result. result \<noteq> 0 \<and> PhpFindElementAvlTree h T e = Some (links, result)"
proof -
  have z: "zip_at h (Root T) [] t" and s: "sorted_by cmp (elems t)" using t T by (simp_all add: avl_tree_def)
  obtain c t' where loc: "locate cmp e [] t = (c, t')" by (cases "locate cmp e [] t")
  have rb: "rebuild c t' = t" using locate_rebuild [OF loc] by simp
  have el: "elems t = before c @ elems t' @ after c" using rb elems_rebuild [of c t'] by simp
  have sides: "\<forall>x\<in>set (before c). cmp e x > 0" "\<forall>x\<in>set (after c). cmp e x < 0"
    using locate_sides [OF loc] s by simp_all
  note f = find_at [OF z, of e c t'] loc T
  show ?thesis
  proof (cases t')
    case Leaf
    then show ?thesis using f el sides by auto
  next
    case (Node l a b r)
    then show ?thesis using f el locate_found [OF loc] by auto
  qed
qed

end

section \<open>Removal\<close>

text \<open>Taking an element with at most one child out of its position.\<close>

lemma unlink_at:
  assumes z: "zip_at h root c (Node l n b r)" and "l = Leaf \<or> r = Leaf"
  defines "child \<equiv> if r = Leaf then l else r"
  shows "\<exists>h1 h2. set_ref h (hole root c) (rootp child) = Some h1 \<and>
    adopt h1 (rootp child) (fst (hole root c)) = Some h2 \<and> zip_at h2 root c child \<and> h2 n = h n"
proof -
  let ?par = "fst (hole root c)"
  obtain h1 where h1: "set_ref h (hole root c) (rootp child) = Some h1" "ctx_at h1 root c (rootp child)"
    "tree_at h1 ?par (Node l n b r)" "\<And>a. a \<in> set (elems (Node l n b r)) \<Longrightarrow> h1 a = h a"
    using zip_at_focus [OF z, of "rootp child"] by blast
  have sub: "set (elems child) \<subseteq> set (elems (Node l n b r)) - {n}" "distinct (elems child)" "tree_at h1 n child"
    using z h1(3) by (auto simp: child_def zip_at_def distinct_rebuild)
  have dis: "set (elems (Node l n b r)) \<inter> ctx_elems c = {}" "root \<notin> set (elems (Node l n b r))"
    "0 \<notin> set (elems (Node l n b r))"
    using z by (auto simp: zip_at_def distinct_rebuild set_rebuild)
  have "adopt h1 (rootp child) ?par = Some (parented h1 child ?par)"
    by (rule adopt_tree) (use sub dis in blast)
  moreover have "ctx_at (parented h1 child ?par) root c (rootp child) = ctx_at h1 root c (rootp child)"
    by (rule ctx_at_cong) (use sub dis in \<open>auto intro!: parented_other\<close>)
  then have "zip_at (parented h1 child ?par) root c child"
    using z h1(2) sub dis by (auto simp: zip_at_def distinct_rebuild set_rebuild)
  moreover have "n \<notin> set (elems child)" using sub(1) by blast
  then have "parented h1 child ?par n = h n" using h1(4) [of n] by simp
  ultimately show ?thesis using h1(1) by blast
qed

text \<open>The removal of such an element, up to the rebalancing.\<close>

lemma remove_at:
  assumes z: "zip_at h root c (Node l n b r)" and lr: "l = Leaf \<or> r = Leaf" and a: "avl (rebuild c (Node l n b r))"
  shows "\<exists>h' t'. take_out h root n = Some h' \<and>
    zip_at h' root [] t' \<and> avl t' \<and> elems t' = before c @ elems l @ elems r @ after c"
proof -
  define child where "child = (if r = Leaf then l else r)"
  obtain h1 h2 where h: "set_ref h (hole root c) (rootp child) = Some h1"
    "adopt h1 (rootp child) (fst (hole root c)) = Some h2" "zip_at h2 root c child" "h2 n = h n"
    using unlink_at [OF z lr] unfolding child_def by blast
  have m: "n \<noteq> 0" "h n = \<lparr> Parent = fst (hole root c), Left = rootp l, Right = rootp r, Balance = b \<rparr>"
    using zip_at_member [OF z] by simp_all
  have 0: "rootp r = 0 \<longleftrightarrow> r = Leaf" using z by (auto simp: zip_at_def set_rebuild)
  have ref: "parent_ref h n = Some (hole root c)" using parent_ref_at [OF z] by simp
  have an: "avl (Node l n b r)" using a by (rule avl_rebuild)
  have "height (Node l n b r) = Suc (height child)" "avl child" using lr an by (auto simp: child_def)
  then have up: "avl (del_up c child) \<and> elems (del_up c child) = elems (rebuild c child) \<and> del_safe c child"
    using del_up_avl [OF a] by blast
  obtain h3 where "remove_loop h2 root (fst (hole root c)) (side_balance (snd (hole root c))) = Some h3"
    "zip_at h3 root [] (del_up c child)" using remove_loop_at [OF h(3)] up by blast
  moreover have "elems child = elems l @ elems r" using lr by (auto simp: child_def)
  ultimately show ?thesis using h m 0 ref up by (auto simp: take_out_def rd_def child_def elems_rebuild)
qed

text \<open>Another element in the place of one.\<close>

lemma replace_at:
  assumes z: "zip_at h root c (Node l e b r)" and n: "n \<noteq> 0" "n \<noteq> root" "n \<notin> set (elems (rebuild c (Node l e b r)))"
  shows "\<exists>h'. replace_element h e n = Some h' \<and> zip_at h' root c (Node l n b r)"
proof -
  let ?par = "fst (hole root c)"
  define h1 where "h1 = h(n := h e)"
  have d: "set (elems (Node l e b r)) \<inter> ctx_elems c = {}" "distinct (elems (Node l e b r))"
    "root \<notin> set (elems (rebuild c (Node l e b r)))" "0 \<notin> set (elems (rebuild c (Node l e b r)))"
    using z by (simp_all add: zip_at_def distinct_rebuild)
  have nd: "n \<notin> set (elems l)" "n \<noteq> e" "n \<notin> set (elems r)" "n \<notin> ctx_elems c" using n(3) by (simp_all add: set_rebuild)
  have "tree_at h1 ?par (Node l e b r)" "ctx_at h1 root c e"
    using z nd n(2) by (auto simp: h1_def zip_at_def)
  then have z1: "zip_at h1 root c (Node l e b r)" using z by (simp add: zip_at_def)
  obtain h2 where h2: "set_ref h1 (hole root c) n = Some h2" "ctx_at h2 root c n" "tree_at h2 ?par (Node l e b r)"
    using zip_at_focus [OF z1, of n] by blast
  have par: "n \<noteq> ?par" using hole_in [of root c] n(2) nd(4) by auto
  have h2n: "h2 n = h1 n" using h2(1) par by (cases "hole root c"; cases "snd (hole root c)") (auto simp: member_ops split: if_split_asm)
  have he: "h e = \<lparr> Parent = ?par, Left = rootp l, Right = rootp r, Balance = b \<rparr>" and e0: "e \<noteq> 0"
    using zip_at_member [OF z] by simp_all
  have ref: "parent_ref h1 e = Some (hole root c)" using parent_ref_at [OF z1] by simp
  define h4 where "h4 = parented (parented h2 l n) r n"
  have n2: "h2 n = \<lparr> Parent = ?par, Left = rootp l, Right = rootp r, Balance = b \<rparr>" using h2n he by (simp add: h1_def)
  then have n3: "parented h2 l n n = \<lparr> Parent = ?par, Left = rootp l, Right = rootp r, Balance = b \<rparr>" using nd by simp
  have ad: "adopt h2 (rootp l) n = Some (parented h2 l n)" "adopt (parented h2 l n) (rootp r) n = Some h4"
    unfolding h4_def by (intro adopt_tree; use d(4) in \<open>simp add: set_rebuild\<close>)+
  have par0: "?par \<noteq> 0" "(?par, if Left (h1 ?par) = e then LeftOf else RightOf) = hole root c"
    using ref e0 he nd(2) by (auto simp: parent_ref_def rd_def h1_def split: if_split_asm)
  have h1e: "h1 e = h e" "h1 n = h e" using nd(2) by (simp_all add: h1_def)
  have w: "wr h n (\<lambda>_. h e) = Some h1" using n(1) by (simp add: wr_def h1_def)
  have "replace_element h e n = Some h4"
    using n(1) e0 par0 he n2 n3 ad h2(1) h1e by (simp add: replace_element_def rd_def w [unfolded he])
  moreover have "zip_at h4 root c (Node l n b r)"
  proof -
    have "ctx_at h4 root c n = ctx_at h2 root c n"
      unfolding h4_def by (rule ctx_at_cong) (use d in \<open>auto simp: set_rebuild intro!: parented_other trans [OF parented_other]\<close>)
    moreover have "h4 n = h2 n" using nd by (simp add: h4_def)
    moreover have lr: "set (elems l) \<inter> set (elems r) = {}" "set (elems r) \<inter> set (elems l) = {}" "distinct (elems l)" "distinct (elems r)" using d(2) by auto
    have "tree_at h4 n l" "tree_at h4 n r"
      using h2(3) lr tree_at_parented [of h2 e l n] tree_at_parented [of "parented h2 l n" e r n] by (simp_all add: h4_def)
    moreover have "distinct (elems (rebuild c (Node l n b r)))" "root \<notin> set (elems (rebuild c (Node l n b r)))"
      "0 \<notin> set (elems (rebuild c (Node l n b r)))"
      using z n nd by (auto simp: zip_at_def distinct_rebuild set_rebuild)
    ultimately show ?thesis using h2(2) n2 z by (simp add: zip_at_def)
  qed
  ultimately show ?thesis by blast
qed

text \<open>Another element takes the place of one of the tree.\<close>

lemma replace_tree:
  assumes z: "zip_at h root [] t" and a: "avl t" and e: "e \<in> set (elems t)"
    and n: "n \<noteq> 0" "n \<noteq> root" "n \<notin> set (elems t)"
  shows "\<exists>h' t'. replace_element h e n = Some h' \<and> zip_at h' root [] t' \<and> avl t' \<and>
    elems t' = map (\<lambda>x. if x = e then n else x) (elems t)"
proof -
  obtain c l b r where t: "t = rebuild c (Node l e b r)" using position [OF e] by blast
  have zc: "zip_at h root c (Node l e b r)" using z by (simp add: t flip: zip_at_rebuild)
  obtain h' where h': "replace_element h e n = Some h'" "zip_at h' root c (Node l n b r)"
    using replace_at [OF zc n(1,2)] n(3) t by blast
  have "avl (rebuild c (Node l n b r))"
    by (rule avl_rebuild_cong [of c "Node l e b r"]) (use a avl_rebuild [of c "Node l e b r"] in \<open>simp_all add: t\<close>)
  moreover have "e \<notin> set (elems l)" "e \<notin> set (elems r)" "e \<notin> ctx_elems c"
    using zc by (auto simp: zip_at_def distinct_rebuild)
  then have "elems (rebuild c (Node l n b r)) = map (\<lambda>x. if x = e then n else x) (elems t)"
    by (auto simp: t elems_rebuild ctx_elems_def intro!: map_idI [symmetric])
  ultimately show ?thesis using h' zip_at_rebuild [of h' root c] by blast
qed

text \<open>The element taken out is the element itself or its neighbour.\<close>

lemma choose_removed_at:
  assumes z: "zip_at h root c (Node l e b r)"
  obtains c' l' n b' r' where "choose_removed h e = Some n" "rebuild c' (Node l' n b' r') = rebuild c (Node l e b r)"
    "l' = Leaf \<or> r' = Leaf"
    "n = e \<or> n \<noteq> e \<and> (l' = Leaf \<and> before c' = before c @ elems l @ [e] \<or> r' = Leaf \<and> after c' = e # elems r @ after c)"
proof -
  have m: "e \<noteq> 0" "h e = \<lparr> Parent = fst (hole root c), Left = rootp l, Right = rootp r, Balance = b \<rparr>"
    using zip_at_member [OF z] by simp_all
  have 0: "rootp l = 0 \<longleftrightarrow> l = Leaf" "rootp r = 0 \<longleftrightarrow> r = Leaf" using z by (auto simp: zip_at_def set_rebuild)
  have zl: "zip_at h root (OnLeft e b r # c) l" and zr: "zip_at h root (OnRight l e b # c) r"
    using z by (simp_all add: zip_at_plug)
  have ne: "e \<notin> set (elems l)" "e \<notin> set (elems r)" using z by (auto simp: zip_at_def distinct_rebuild)
  consider "l = Leaf \<or> r = Leaf" | "l \<noteq> Leaf" "r \<noteq> Leaf" "b \<ge> 0" | "l \<noteq> Leaf" "r \<noteq> Leaf" "b < 0" by linarith
  then show ?thesis
  proof cases
    case 1
    then show ?thesis using m 0 that [of e c l b r] by (auto simp: choose_removed_def rd_def)
  next
    case 2
    obtain c' t' where d: "down LeftOf (OnRight l e b # c) r = (c', t')" by (cases "down LeftOf (OnRight l e b # c) r")
    obtain n b' r' where t': "t' = Node Leaf n b' r'" "before c' = before (OnRight l e b # c)"
      using down_left [OF d 2(2)] by blast
    have rb: "rebuild c' t' = rebuild c (Node l e b r)" using down_rebuild [OF d] by simp
    have "choose_removed h e = Some n"
      using m 0 2 descend_at [OF zr 2(2), of LeftOf] d t'(1) by (simp add: choose_removed_def rd_def)
    moreover have "n \<noteq> e"
    proof -
      have "distinct (before c' @ elems t' @ after c')"
        using z rb by (simp add: zip_at_def flip: elems_rebuild)
      then show ?thesis using t' by auto
    qed
    ultimately show ?thesis using that [of n c' Leaf b' r'] rb t' by simp
  next
    case 3
    obtain c' t' where d: "down RightOf (OnLeft e b r # c) l = (c', t')" by (cases "down RightOf (OnLeft e b r # c) l")
    obtain n b' l' where t': "t' = Node l' n b' Leaf" "after c' = after (OnLeft e b r # c)"
      using down_right [OF d 3(1)] by blast
    have rb: "rebuild c' t' = rebuild c (Node l e b r)" using down_rebuild [OF d] by simp
    have "choose_removed h e = Some n"
      using m 0 3 descend_at [OF zl 3(1), of RightOf] d t'(1) by (simp add: choose_removed_def rd_def)
    moreover have "n \<noteq> e"
    proof -
      have "distinct (before c' @ elems t' @ after c')"
        using z rb by (simp add: zip_at_def flip: elems_rebuild)
      then show ?thesis using t' by auto
    qed
    ultimately show ?thesis using that [of n c' l' b' Leaf] rb t' 3 by simp
  qed
qed

lemma map_other: "e \<notin> set xs \<Longrightarrow> map (\<lambda>x. if x = e then n else x) xs = xs"
  by (auto intro!: map_idI)

lemma remove_spec:
  assumes z: "zip_at h root [] t" and a: "avl t" and e: "e \<in> set (elems t)" and T: "Root T = root"
  shows "\<exists>h' t'. PhRemoveElementAvlTree h T e = Some (h', T\<lparr> tCount := tCount T - 1 \<rparr>) \<and>
    zip_at h' root [] t' \<and> avl t' \<and> elems t' = remove1 e (elems t)"
proof -
  obtain c l b r where t: "t = rebuild c (Node l e b r)" using position [OF e] by blast
  have zc: "zip_at h root c (Node l e b r)" using z by (simp add: t flip: zip_at_rebuild)
  obtain c' l' n b' r' where ch: "choose_removed h e = Some n" "rebuild c' (Node l' n b' r') = t"
    "l' = Leaf \<or> r' = Leaf"
    "n = e \<or> n \<noteq> e \<and> (l' = Leaf \<and> before c' = before c @ elems l @ [e] \<or> r' = Leaf \<and> after c' = e # elems r @ after c)"
    using choose_removed_at [OF zc] t by metis
  have zn: "zip_at h root c' (Node l' n b' r')" using z by (simp flip: ch(2) zip_at_rebuild)
  have an: "avl (rebuild c' (Node l' n b' r'))" using a ch(2) by simp
  have dis: "distinct (elems t)" "root \<notin> set (elems t)" "0 \<notin> set (elems t)" using z by (simp_all add: zip_at_def)
  have el: "elems t = before c' @ (elems l' @ n # elems r') @ after c'" using elems_rebuild [of c' "Node l' n b' r'"] ch(2) by simp
  have elc: "elems t = (before c @ elems l) @ e # elems r @ after c" using elems_rebuild [of c "Node l e b r"] t by simp
  obtain h1 t1 where r: "take_out h root n = Some h1"
    "zip_at h1 root [] t1" "avl t1" "elems t1 = before c' @ elems l' @ elems r' @ after c'"
    using remove_at [OF zn ch(3) an] by blast
  show ?thesis
  proof (cases "n = e")
    case True
    have "elems t1 = remove1 e (elems t)"
      using dis(1) el r(4) True by (simp add: remove1_append)
    then show ?thesis using r ch(1) True T
      by (auto simp: PhRemoveElementAvlTree_def)
  next
    case False
    have n1: "n \<notin> set (elems t1)" "e \<in> set (elems t1)" "n \<noteq> 0" "n \<noteq> root"
      using dis el r(4) False e by auto
    obtain h2 t2 where r2: "replace_element h1 e n = Some h2" "zip_at h2 root [] t2" "avl t2"
      "elems t2 = map (\<lambda>x. if x = e then n else x) (elems t1)"
      using replace_tree [OF r(2,3) n1(2,3,4,1)] by blast
    have "elems t2 = remove1 e (elems t)"
      using ch(4) False dis(1) el r(4) r2(4) by (auto simp: map_other remove1_append)
    then show ?thesis using r ch(1) False T r2
      by (auto simp: PhRemoveElementAvlTree_def)
  qed
qed

section \<open>Going through a tree\<close>

lemma empty_tree_at: "zip_at h root c t \<Longrightarrow> rootp t = 0 \<longleftrightarrow> t = Leaf"
  by (auto simp: zip_at_def set_rebuild)

lemma minimum_at:
  assumes z: "zip_at h (Root T) [] t"
  shows "PhMinimumElementAvlTree h T = Some (case elems t of [] \<Rightarrow> 0 | x # xs \<Rightarrow> x)"
proof (cases "t = Leaf")
  case True
  then show ?thesis using root_element_at [OF z] by (simp add: PhMinimumElementAvlTree_def)
next
  case False
  obtain c t' where d: "down LeftOf [] t = (c, t')" by (cases "down LeftOf [] t")
  obtain a b r where t': "t' = Node Leaf a b r" "before c = []" using down_left [OF d False] by auto
  have "elems t = a # elems r @ after c" using down_rebuild [OF d] t' elems_rebuild [of c t'] by simp
  then show ?thesis using root_element_at [OF z] empty_tree_at [OF z] False descend_at [OF z False, of LeftOf] d t'
    by (simp add: PhMinimumElementAvlTree_def)
qed

lemma maximum_at:
  assumes z: "zip_at h (Root T) [] t"
  shows "PhMaximumElementAvlTree h T = Some (case rev (elems t) of [] \<Rightarrow> 0 | x # xs \<Rightarrow> x)"
proof (cases "t = Leaf")
  case True
  then show ?thesis using root_element_at [OF z] by (simp add: PhMaximumElementAvlTree_def)
next
  case False
  obtain c t' where d: "down RightOf [] t = (c, t')" by (cases "down RightOf [] t")
  obtain a b l where t': "t' = Node l a b Leaf" "after c = []" using down_right [OF d False] by auto
  have "elems t = before c @ elems l @ [a]" using down_rebuild [OF d] t' elems_rebuild [of c t'] by simp
  then show ?thesis using root_element_at [OF z] empty_tree_at [OF z] False descend_at [OF z False, of RightOf] d t'
    by (simp add: PhMaximumElementAvlTree_def)
qed

lemma element_parent:
  assumes "zip_at h root [] t" "a \<in> set (elems t)"
  shows "a \<noteq> 0 \<and> Parent (h a) \<noteq> 0"
proof -
  obtain c l b r where t: "t = rebuild c (Node l a b r)" using position [OF assms(2)] by blast
  have z: "zip_at h root c (Node l a b r)" using assms(1) by (simp add: t flip: zip_at_rebuild)
  have "fst (hole root c) \<noteq> 0" using z hole_in [of root c] by (auto simp: zip_at_def set_rebuild)
  then show ?thesis using zip_at_member [OF z] by simp
qed

lemma climb_right_at:
  "zip_at h root c t \<Longrightarrow> t \<noteq> Leaf \<Longrightarrow>
   climb h RightOf (rootp t) (fst (hole root c)) = Some (case after c of [] \<Rightarrow> 0 | x # xs \<Rightarrow> x)"
proof (induction c arbitrary: t)
  case Nil
  then show ?case
    by (subst climb.simps, subst climb.simps) (auto simp: zip_at_def member_ops rd_def)
next
  case (Cons f c)
  have z: "zip_at h root c (plug t f)" using Cons.prems(1) by (simp add: zip_at_plug)
  note IH = Cons.IH [OF z plug_node]
  show ?case
  proof (cases f)
    case (OnLeft a b r)
    have "rootp r \<noteq> rootp t"
      using z OnLeft Cons.prems(2) rootp_in [of r] by (cases t) (auto simp: zip_at_def set_rebuild distinct_rebuild)
    then show ?thesis using OnLeft zip_at_member [of h root c t a b r] z
      by (subst climb.simps) (simp add: member_ops)
  next
    case (OnRight l a b)
    then show ?thesis using zip_at_member [of h root c l a b t] z IH
      by (subst climb.simps) (simp add: member_ops rd_def)
  qed
qed

lemma climb_left_at:
  "zip_at h root c t \<Longrightarrow> t \<noteq> Leaf \<Longrightarrow>
   climb h LeftOf (rootp t) (fst (hole root c)) = Some (case rev (before c) of [] \<Rightarrow> root | x # xs \<Rightarrow> x)"
proof (induction c arbitrary: t)
  case Nil
  then show ?case by (subst climb.simps) (auto simp: zip_at_def member_ops rd_def)
next
  case (Cons f c)
  have z: "zip_at h root c (plug t f)" using Cons.prems(1) by (simp add: zip_at_plug)
  note IH = Cons.IH [OF z plug_node]
  show ?case
  proof (cases f)
    case (OnRight l a b)
    have "rootp l \<noteq> rootp t"
      using z OnRight Cons.prems(2) rootp_in [of l] by (cases t) (auto simp: zip_at_def set_rebuild distinct_rebuild)
    then show ?thesis using OnRight zip_at_member [of h root c l a b t] z
      by (subst climb.simps) (simp add: member_ops)
  next
    case (OnLeft a b r)
    then show ?thesis using zip_at_member [of h root c t a b r] z IH
      by (subst climb.simps) (simp add: member_ops rd_def)
  qed
qed

text \<open>The neighbours of an element.\<close>

lemma neighbours_at:
  assumes z: "zip_at h root [] t" and e: "elems t = xs @ e # ys"
  shows "PhSuccessorElementAvlTree h e = Some (case ys of [] \<Rightarrow> 0 | y # _ \<Rightarrow> y)"
    and "PhPredecessorElementAvlTree h e = Some (case rev xs of [] \<Rightarrow> 0 | x # _ \<Rightarrow> x)"
proof -
  have "e \<in> set (elems t)" using e by simp
  then obtain c l b r where t: "t = rebuild c (Node l e b r)" using position by blast
  have zc: "zip_at h root c (Node l e b r)" using z by (simp add: t flip: zip_at_rebuild)
  have d: "distinct (elems t)" "0 \<notin> set (elems t)" using z by (simp_all add: zip_at_def)
  have "elems t = (before c @ elems l) @ e # elems r @ after c" by (simp add: t elems_rebuild)
  moreover have de: "e \<notin> set xs" "e \<notin> set ys" using d(1) e by simp_all
  ultimately have xy: "xs = before c @ elems l" "ys = elems r @ after c"
    using append_Cons_eq_iff [of e xs ys "before c @ elems l" "elems r @ after c"] e de by simp_all
  have m: "e \<noteq> 0" "h e = \<lparr> Parent = fst (hole root c), Left = rootp l, Right = rootp r, Balance = b \<rparr>"
    using zip_at_member [OF zc] by simp_all
  have zl: "zip_at h root (OnLeft e b r # c) l" and zr: "zip_at h root (OnRight l e b # c) r"
    using zc by (simp_all add: zip_at_plug)
  note 0 = empty_tree_at [OF zl] empty_tree_at [OF zr]
  show "PhSuccessorElementAvlTree h e = Some (case ys of [] \<Rightarrow> 0 | y # _ \<Rightarrow> y)"
  proof (cases "r = Leaf")
    case True
    then show ?thesis using m 0 climb_right_at [OF zc] xy by (simp add: PhSuccessorElementAvlTree_def rd_def)
  next
    case False
    obtain c' t' where dn: "down LeftOf (OnRight l e b # c) r = (c', t')" by (cases "down LeftOf (OnRight l e b # c) r")
    obtain a b' r' where t': "t' = Node Leaf a b' r'" "before c' = before (OnRight l e b # c)"
      using down_left [OF dn False] by blast
    have "elems (rebuild c' t') = elems (rebuild (OnRight l e b # c) r)" using down_rebuild [OF dn] by simp
    then have "elems r @ after c = a # elems r' @ after c'" using t' by (simp add: elems_rebuild)
    then show ?thesis using m 0 False descend_at [OF zr False, of LeftOf] dn t' xy
      by (simp add: PhSuccessorElementAvlTree_def rd_def)
  qed
  show "PhPredecessorElementAvlTree h e = Some (case rev xs of [] \<Rightarrow> 0 | x # _ \<Rightarrow> x)"
  proof (cases "l = Leaf")
    case True
    have root: "root \<noteq> 0" "Parent (h root) = 0"
      using z by (simp_all add: zip_at_def)
    have "x \<noteq> 0 \<and> Parent (h x) \<noteq> 0" if "x \<in> set (before c)" for x
      using element_parent [OF z, of x] that by (simp add: t elems_rebuild)
    then show ?thesis using True m 0 climb_left_at [OF zc] xy root
      by (cases "before c" rule: rev_cases) (auto simp: PhPredecessorElementAvlTree_def rd_def)
  next
    case False
    obtain c' t' where dn: "down RightOf (OnLeft e b r # c) l = (c', t')" by (cases "down RightOf (OnLeft e b r # c) l")
    obtain a b' l' where t': "t' = Node l' a b' Leaf" "after c' = after (OnLeft e b r # c)"
      using down_right [OF dn False] by blast
    have "elems (rebuild c' t') = elems (rebuild (OnLeft e b r # c) l)" using down_rebuild [OF dn] by simp
    then have "before c @ elems l = before c' @ elems l' @ [a]" using t' by (simp add: elems_rebuild)
    then show ?thesis using m 0 False descend_at [OF zl False, of RightOf] dn t' xy
      by (simp add: PhPredecessorElementAvlTree_def rd_def)
  qed
qed

subsection \<open>The bound functions\<close>

lemma bound_loop_at:
  assumes "tree_at h par t" "0 \<notin> set (elems t)"
    and "\<And>xs x ys y. elems t = xs @ x # ys \<Longrightarrow> goes_right (cmp e x) \<Longrightarrow> y \<in> set xs \<Longrightarrow> goes_right (cmp e y)"
  shows "bound_loop h cmp goes_right keep e (rootp t) closest =
    Some (case keep of
        LeftOf \<Rightarrow> (case filter (\<lambda>x. \<not> goes_right (cmp e x)) (elems t) of [] \<Rightarrow> closest | x # _ \<Rightarrow> x)
      | RightOf \<Rightarrow> (case rev (filter (\<lambda>x. goes_right (cmp e x)) (elems t)) of [] \<Rightarrow> closest | x # _ \<Rightarrow> x))"
  using assms
proof (induction t arbitrary: par closest)
  case Leaf
  then show ?case by (cases keep) (simp_all add: bound_loop.simps)
next
  case (Node l a b r)
  have hl: "goes_right (cmp e y)"
    if "elems l = xs @ x # ys" "goes_right (cmp e x)" "y \<in> set xs" for xs x ys y
    using Node.prems(3) [of xs x "ys @ a # elems r" y] that by simp
  have hr: "goes_right (cmp e y)"
    if "elems r = xs @ x # ys" "goes_right (cmp e x)" "y \<in> set xs" for xs x ys y
    using Node.prems(3) [of "elems l @ a # xs" x ys y] that by simp
  have a: "\<forall>y\<in>set (elems l). goes_right (cmp e y)" if "goes_right (cmp e a)"
    using Node.prems(3) [of "elems l" a "elems r"] that by simp
  have na: "\<forall>y\<in>set (elems r). \<not> goes_right (cmp e y)" if "\<not> goes_right (cmp e a)"
  proof
    fix y assume "y \<in> set (elems r)"
    then obtain us vs where "elems r = us @ y # vs" by (meson split_list)
    then show "\<not> goes_right (cmp e y)" using Node.prems(3) [of "elems l @ a # us" y vs a] that by auto
  qed
  note IHl = Node.IH(1) [of a, OF _ _ hl] and IHr = Node.IH(2) [of a, OF _ _ hr]
  show ?case
  proof (cases "goes_right (cmp e a)")
    case True
    then show ?thesis using Node.prems(1,2) IHr a
      by (subst bound_loop.simps; cases keep) (auto simp: rd_def filter_empty_conv filter_id_conv split: list.splits)
  next
    case False
    then show ?thesis using Node.prems(1,2) IHl na
      by (subst bound_loop.simps; cases keep) (auto simp: rd_def filter_empty_conv split: list.splits)
  qed
qed

subsection \<open>The height of a balanced tree\<close>

fun fib :: "nat \<Rightarrow> nat" where
  "fib 0 = 0" | "fib (Suc 0) = 1" | "fib (Suc (Suc n)) = fib (Suc n) + fib n"

lemma fib_mono: "m \<le> n \<Longrightarrow> fib m \<le> fib n"
proof (induction n)
  case (Suc n)
  have "fib n \<le> fib (Suc n)" by (cases n) simp_all
  then show ?case using Suc by (cases "m = Suc n") auto
qed simp

lemma avl_size: "avl t \<Longrightarrow> fib (height t + 2) \<le> length (elems t) + 1"
proof (induction t)
  case (Node l a b r)
  let ?m = "max (height l) (height r)"
  have h: "height l \<le> Suc (height r)" "height r \<le> Suc (height l)" using Node.prems by auto
  have "fib (height (Node l a b r) + 2) = fib (?m + 2) + fib (?m + 1)" by simp
  also have "\<dots> \<le> fib (height l + 2) + fib (height r + 2)"
  proof (cases "height l \<le> height r")
    case True
    then have "fib (?m + 1) \<le> fib (height l + 2)" using h by (intro fib_mono) simp
    then show ?thesis using True by (simp add: max_def)
  next
    case False
    then have "fib (?m + 1) \<le> fib (height r + 2)" using h by (intro fib_mono) simp
    then show ?thesis using False by (simp add: max_def)
  qed
  also have "\<dots> \<le> length (elems (Node l a b r)) + 1" using Node by simp
  finally show ?case .
qed simp

lemma fib_8: "fib (n + 8) = 21 * fib (Suc n) + 13 * fib n" "fib (Suc (n + 8)) = 34 * fib (Suc n) + 21 * fib n"
  by (simp_all add: eval_nat_numeral)

lemma fib_48: "fib 48 = 4807526976"
proof -
  have f8: "fib 8 = 21" "fib 9 = 34" using fib_8 [of 0] by simp_all
  have f16: "fib 16 = 987" "fib 17 = 1597" using fib_8 [of 8] f8 by simp_all
  have f24: "fib 24 = 46368" "fib 25 = 75025" using fib_8 [of 16] f16 by simp_all
  have f32: "fib 32 = 2178309" "fib 33 = 3524578" using fib_8 [of 24] f24 by simp_all
  have f40: "fib 40 = 102334155" "fib 41 = 165580141" using fib_8 [of 32] f32 by simp_all
  show ?thesis using fib_8 [of 40] f40 by simp
qed

lemma height_bound: "avl t \<Longrightarrow> length (elems t) \<le> 4294967296 \<Longrightarrow> height t \<le> 45"
proof (rule ccontr)
  assume a: "avl t" "length (elems t) \<le> 4294967296" "\<not> height t \<le> 45"
  then have "fib 48 \<le> fib (height t + 2)" by (intro fib_mono) simp
  also have "\<dots> \<le> 4294967297" using avl_size [OF a(1)] a(2) by linarith
  finally show False by (simp add: fib_48)
qed

subsection \<open>The enumeration\<close>

text \<open>A callback is asked for each element in turn until it declines.\<close>

primrec visit :: "(u64 \<Rightarrow> 'c \<Rightarrow> bool \<times> 'c) \<Rightarrow> u64 list \<Rightarrow> 'c \<Rightarrow> 'c" where
  "visit cb [] ctx = ctx"
| "visit cb (x # xs) ctx = (case cb x ctx of (continue, ctx) \<Rightarrow> if continue then visit cb xs ctx else ctx)"

primrec kid :: "side \<Rightarrow> atree \<Rightarrow> atree" where
  "kid s Leaf = Leaf" | "kid s (Node l a b r) = (if s = LeftOf then l else r)"

definition in_order :: "side \<Rightarrow> atree \<Rightarrow> u64 list" where
  "in_order s t = (if s = LeftOf then elems t else rev (elems t))"

text \<open>The trees whose elements are on the stack, with what is still to be visited.\<close>

fun push_trees :: "side \<Rightarrow> atree \<Rightarrow> atree list \<Rightarrow> atree list" where
  "push_trees s Leaf ts = ts"
| "push_trees s (Node l a b r) ts = push_trees s (if s = LeftOf then l else r) (Node l a b r # ts)"

definition still :: "side \<Rightarrow> atree list \<Rightarrow> u64 list" where
  "still s ts = concat (map (\<lambda>t. rootp t # in_order s (kid (other_side s) t)) ts)"

primrec stack_fits :: "atree list \<Rightarrow> bool" where
  "stack_fits [] = True" | "stack_fits (t # ts) \<longleftrightarrow> length ts + height t \<le> 45 \<and> stack_fits ts"

definition in_heap :: "heap \<Rightarrow> atree \<Rightarrow> bool" where
  "in_heap h t \<longleftrightarrow> (\<exists>par. tree_at h par t) \<and> 0 \<notin> set (elems t)"

lemma in_heap_node:
  "in_heap h (Node l a b r) \<Longrightarrow>
   a \<noteq> 0 \<and> Left (h a) = rootp l \<and> Right (h a) = rootp r \<and> in_heap h l \<and> in_heap h r"
  by (auto simp: in_heap_def)

lemma still_push: "still s (push_trees s t ts) = in_order s t @ still s ts"
proof (induction t arbitrary: ts)
  case (Node l a b r)
  then show ?case by (cases s) (simp_all add: still_def in_order_def other_side_def)
qed (simp add: in_order_def)

lemma push_trees_fit:
  "stack_fits ts \<Longrightarrow> length ts + height t \<le> 45 \<Longrightarrow> stack_fits (push_trees s t ts)"
  by (induction s t ts rule: push_trees.induct) auto

lemma push_trees_in_heap:
  "in_heap h t \<Longrightarrow> (\<forall>u\<in>set ts. in_heap h u \<and> u \<noteq> Leaf) \<Longrightarrow> \<forall>u\<in>set (push_trees s t ts). in_heap h u \<and> u \<noteq> Leaf"
proof (induction s t ts rule: push_trees.induct)
  case (2 s l a b r ts)
  then show ?case using in_heap_node [OF "2.prems"(1)] by simp
qed simp

lemma push_loop_at:
  "in_heap h t \<Longrightarrow> length ts + height t \<le> 45 \<Longrightarrow>
   push_loop h s (map rootp ts) (rootp t) = Some (map rootp (push_trees s t ts))"
proof (induction s t ts rule: push_trees.induct)
  case (2 s l a b r ts)
  then show ?case using in_heap_node [OF "2.prems"(1)]
    by (cases s; subst push_loop.simps) (auto simp: member_ops stackBase_size_def)
qed (simp add: push_loop.simps)

lemma enum_loop_at:
  "\<forall>t\<in>set ts. in_heap h t \<and> t \<noteq> Leaf \<Longrightarrow> stack_fits ts \<Longrightarrow>
   enum_loop h s cb (map rootp ts) ctx = Some (visit cb (still s ts) ctx)"
proof (induction "length (still s ts)" arbitrary: ts ctx rule: less_induct)
  case less
  show ?case
  proof (cases ts)
    case Nil
    then show ?thesis by (subst enum_loop.simps) (simp add: still_def)
  next
    case (Cons t ts')
    let ?k = "kid (other_side s) t" and ?ts = "push_trees s (kid (other_side s) t) ts'"
    obtain l a b r where t: "t = Node l a b r" using less.prems(1) Cons by (cases t) auto
    have rt: "rootp t = a" by (simp add: t)
    have hp: "in_heap h t" using less.prems(1) Cons by simp
    then have k: "in_heap h ?k" "a \<noteq> 0" "get_ref h (a, other_side s) = Some (rootp ?k)" "height ?k < height t"
      using in_heap_node [OF hp [unfolded t]] unfolding t by (cases s; simp add: member_ops other_side_def)+
    have fits: "stack_fits ts'" "length ts' + height ?k \<le> 45" using less.prems(2) Cons k(4) by auto
    have st: "still s ts = a # in_order s ?k @ still s ts'" unfolding Cons by (simp add: still_def) (simp add: t)
    note st2 = still_push [of s ?k ts']
    have "enum_loop h s cb (map rootp ?ts) c = Some (visit cb (still s ?ts) c)" for c
    proof (rule less.hyps)
      show "length (still s ?ts) < length (still s ts)" by (simp add: st st2)
      show "\<forall>t\<in>set ?ts. in_heap h t \<and> t \<noteq> Leaf"
        by (rule push_trees_in_heap [OF k(1)]) (use less.prems(1) Cons in simp)
      show "stack_fits ?ts" using push_trees_fit [OF fits] .
    qed
    then show ?thesis
      using Cons rt k(2,3) push_loop_at [OF k(1) fits(2), of s] st st2
      by (subst enum_loop.simps) (simp split: prod.split)
  qed
qed

lemma enum_at:
  assumes z: "zip_at h (Root T) [] t" and a: "avl t" and n: "length (elems t) \<le> 4294967296"
  shows "PhEnumAvlTree h T Order cb ctx =
    Some (visit cb (case Order of TreeEnumerateInOrder \<Rightarrow> elems t | TreeEnumerateInReverseOrder \<Rightarrow> rev (elems t)) ctx)"
proof -
  have hp: "in_heap h t" using z by (auto simp: in_heap_def zip_at_def)
  have p: "push_loop h s [] (rootp t) = Some (map rootp (push_trees s t []))" for s
    using push_loop_at [OF hp, of "[]" s] height_bound [OF a n] by simp
  have e: "enum_loop h s cb (map rootp (push_trees s t [])) ctx = Some (visit cb (in_order s t) ctx)" for s
    using enum_loop_at [of "push_trees s t []" h s cb ctx] push_trees_in_heap [OF hp, of "[]" s]
      push_trees_fit [of "[]" t s] height_bound [OF a n] by (simp add: still_push) (simp add: still_def)
  show ?thesis using root_element_at [OF z]
    by (cases Order) (simp_all add: PhEnumAvlTree_def p e in_order_def)
qed

text \<open>The first element with a property, or NULL.\<close>

definition first_of :: "(u64 \<Rightarrow> bool) \<Rightarrow> u64 list \<Rightarrow> u64" where
  "first_of p xs = (case filter p xs of [] \<Rightarrow> 0 | x # _ \<Rightarrow> x)"

context element_order
begin

lemma unique: "sorted_by cmp xs \<Longrightarrow> x \<in> set xs \<Longrightarrow> y \<in> set xs \<Longrightarrow> cmp e x = 0 \<Longrightarrow> cmp e y = 0 \<Longrightarrow> x = y"
proof (rule ccontr)
  assume a: "sorted_by cmp xs" "x \<in> set xs" "y \<in> set xs" "cmp e x = 0" "cmp e y = 0" "x \<noteq> y"
  have "cmp x y < 0 \<or> cmp y x < 0"
    using a(1-3,6) by (induction xs) (auto simp: sorted_by_def)
  moreover have "cmp x e = 0" "cmp y e = 0" using a(4,5) opposite [of e x] opposite [of x e] opposite [of e y] opposite [of y e]
    by linarith+
  ultimately show False using transitive_eq [of x e y] transitive_eq [of y e x] a(4,5) by simp
qed

lemma find_element_at:
  assumes t: "avl_tree h T t" and T: "CompareFunction T = cmp"
  shows "PhFindElementAvlTree h T e = Some (first_of (\<lambda>x. cmp e x = 0) (elems t))"
proof (cases "\<exists>x\<in>set (elems t). cmp e x = 0")
  case True
  then obtain x where x: "x \<in> set (elems t)" "cmp e x = 0" "PhpFindElementAvlTree h T e = Some (x, 0)"
    using find_spec [OF t T, of e] by auto
  obtain y ys where y: "filter (\<lambda>x. cmp e x = 0) (elems t) = y # ys"
    using True by (cases "filter (\<lambda>x. cmp e x = 0) (elems t)") (auto simp: filter_empty_conv)
  then have "y \<in> set (filter (\<lambda>x. cmp e x = 0) (elems t))" by simp
  then have "y = x" using unique [of "elems t" y x e] x(1,2) t T by (simp add: avl_tree_def)
  then show ?thesis using x(3) y by (simp add: PhFindElementAvlTree_def first_of_def)
next
  case False
  then show ?thesis using find_spec [OF t T, of e]
    by (auto simp: PhFindElementAvlTree_def first_of_def filter_empty_conv split: list.split)
qed

lemma bounds_at:
  assumes t: "avl_tree h T t" and T: "CompareFunction T = cmp"
  shows "PhLowerBoundElementAvlTree h T e = Some (first_of (\<lambda>x. cmp e x \<le> 0) (elems t))"
    "PhUpperBoundElementAvlTree h T e = Some (first_of (\<lambda>x. cmp e x < 0) (elems t))"
    "PhLowerDualBoundElementAvlTree h T e = Some (first_of (\<lambda>x. cmp e x > 0) (rev (elems t)))"
    "PhUpperDualBoundElementAvlTree h T e = Some (first_of (\<lambda>x. cmp e x \<ge> 0) (rev (elems t)))"
proof -
  have z: "zip_at h (Root T) [] t" and s: "sorted_by cmp (elems t)" using t T by (simp_all add: avl_tree_def)
  have h: "tree_at h (Root T) t" "0 \<notin> set (elems t)" using z by (simp_all add: zip_at_def)
  have lo: "cmp e y > 0" if "elems t = xs @ x # ys" "cmp e x \<ge> 0" "y \<in> set xs" for xs x ys y
    by (rule sorted_below [of xs x e y]) (use s that in \<open>simp_all add: sorted_by_append [of cmp "xs @ [x]" ys, simplified]\<close>)
  have m: "cmp e y > 0" if "elems t = xs @ x # ys" "cmp e x > 0" "y \<in> set xs" for xs x ys y
    using lo [OF that(1) _ that(3)] that(2) by simp
  have m': "cmp e y \<ge> 0" if "elems t = xs @ x # ys" "cmp e x \<ge> 0" "y \<in> set xs" for xs x ys y
    using lo [OF that] by simp
  note b = bound_loop_at [OF h, where goes_right = "\<lambda>i. i > 0" and cmp = cmp and e = e, OF m]
    and b' = bound_loop_at [OF h, where goes_right = "\<lambda>i. i \<ge> 0" and cmp = cmp and e = e, OF m']
  note defs = bound_element_def root_element_at [OF z] T first_of_def rev_filter
  show "PhLowerBoundElementAvlTree h T e = Some (first_of (\<lambda>x. cmp e x \<le> 0) (elems t))"
    by (simp add: PhLowerBoundElementAvlTree_def defs b linorder_not_less)
  show "PhUpperBoundElementAvlTree h T e = Some (first_of (\<lambda>x. cmp e x < 0) (elems t))"
    by (simp add: PhUpperBoundElementAvlTree_def defs b' linorder_not_le)
  show "PhLowerDualBoundElementAvlTree h T e = Some (first_of (\<lambda>x. cmp e x > 0) (rev (elems t)))"
    by (simp add: PhLowerDualBoundElementAvlTree_def defs b)
  show "PhUpperDualBoundElementAvlTree h T e = Some (first_of (\<lambda>x. cmp e x \<ge> 0) (rev (elems t)))"
    by (simp add: PhUpperDualBoundElementAvlTree_def defs b')
qed

end

section \<open>Sequences of operations\<close>

text \<open>Sequences of operations, on the links and on the sorted list that they stand for.\<close>

datatype tree_op = Add u64 | Remove u64

primrec run_ops :: "heap \<Rightarrow> PH_AVL_TREE \<Rightarrow> tree_op list \<Rightarrow> (heap \<times> PH_AVL_TREE) option" where
  "run_ops h T [] = Some (h, T)"
| "run_ops h T (op # ops) =
     (case op of
        Add e \<Rightarrow> do { (h, T, _) \<leftarrow> PhAddElementAvlTree h T e; run_ops h T ops }
      | Remove e \<Rightarrow> do { (h, T) \<leftarrow> PhRemoveElementAvlTree h T e; run_ops h T ops })"

definition list_op :: "(u64 \<Rightarrow> u64 \<Rightarrow> int) \<Rightarrow> u64 list \<Rightarrow> tree_op \<Rightarrow> u64 list" where
  "list_op cmp xs op =
     (case op of
        Add e \<Rightarrow> if \<exists>x\<in>set xs. cmp e x = 0 then xs else below cmp e xs @ e # above cmp e xs
      | Remove e \<Rightarrow> remove1 e xs)"

text \<open>Elements are real links that are not the sentinel, and only members are removed.\<close>

primrec proper_ops :: "(u64 \<Rightarrow> u64 \<Rightarrow> int) \<Rightarrow> u64 \<Rightarrow> u64 list \<Rightarrow> tree_op list \<Rightarrow> bool" where
  "proper_ops cmp root xs [] = True"
| "proper_ops cmp root xs (op # ops) \<longleftrightarrow>
     (case op of Add e \<Rightarrow> e \<noteq> 0 \<and> e \<noteq> root | Remove e \<Rightarrow> e \<in> set xs) \<and>
     proper_ops cmp root (list_op cmp xs op) ops"

context element_order
begin

lemma add_refines:
  assumes t: "avl_tree h T t" and T: "CompareFunction T = cmp" and e: "e \<noteq> 0" "e \<noteq> Root T"
  shows "\<exists>h' T' x t'. PhAddElementAvlTree h T e = Some (h', T', x) \<and> avl_tree h' T' t' \<and> CompareFunction T' = cmp \<and>
    Root T' = Root T \<and> elems t' = list_op cmp (elems t) (Add e)"
proof (cases "\<exists>x\<in>set (elems t). cmp e x = 0")
  case True
  then obtain x where "PhpFindElementAvlTree h T e = Some (x, 0)" using find_spec [OF t T, of e] by auto
  then have "PhAddElementAvlTree h T e = Some (h, T, x)" by (simp add: PhAddElementAvlTree_def)
  then show ?thesis using t T True by (auto simp: list_op_def)
next
  case False
  then obtain h' t' where "PhAddElementAvlTree h T e = Some (h', T\<lparr> tCount := tCount T + 1 \<rparr>, 0)"
    "avl_tree h' (T\<lparr> tCount := tCount T + 1 \<rparr>) t'" "elems t' = below cmp e (elems t) @ e # above cmp e (elems t)"
    using add_new [OF t T e] by blast
  then show ?thesis using T False by (auto simp: list_op_def)
qed

end

lemma remove_refines:
  assumes "avl_tree h T t" and "e \<in> set (elems t)"
  shows "\<exists>h' t'. PhRemoveElementAvlTree h T e = Some (h', T\<lparr> tCount := tCount T - 1 \<rparr>) \<and>
    avl_tree h' (T\<lparr> tCount := tCount T - 1 \<rparr>) t' \<and> elems t' = remove1 e (elems t)"
proof -
  have t: "zip_at h (Root T) [] t" "avl t" "sorted_by (CompareFunction T) (elems t)" "tCount T = of_nat (length (elems t))"
    using assms(1) by (simp_all add: avl_tree_def)
  obtain h' t' where h': "PhRemoveElementAvlTree h T e = Some (h', T\<lparr> tCount := tCount T - 1 \<rparr>)"
    "zip_at h' (Root T) [] t'" "avl t'" "elems t' = remove1 e (elems t)"
    using remove_spec [OF t(1,2) assms(2) refl] by blast
  have "distinct (elems t)" using t(1) by (simp add: zip_at_def)
  then have "sorted_by (CompareFunction T) (elems t')"
    using t(3) h'(4) by (simp add: sorted_by_def distinct_remove1_removeAll removeAll_filter_not_eq sorted_wrt_filter)
  moreover have "length (elems t) = Suc (length (elems t'))"
    using h'(4) assms(2) by (simp add: length_remove1) (metis Suc_pred length_pos_if_in_set)
  ultimately show ?thesis using h' t(4) by (auto simp: avl_tree_def)
qed

context element_order
begin

lemma run_refines:
  "avl_tree h T t \<Longrightarrow> CompareFunction T = cmp \<Longrightarrow> proper_ops cmp (Root T) (elems t) ops \<Longrightarrow>
   \<exists>h' T' t'. run_ops h T ops = Some (h', T') \<and> avl_tree h' T' t' \<and> elems t' = foldl (list_op cmp) (elems t) ops"
proof (induction ops arbitrary: h T t)
  case (Cons op ops)
  show ?case
  proof (cases op)
    case (Add e)
    then obtain h1 T1 x t1 where "PhAddElementAvlTree h T e = Some (h1, T1, x)" "avl_tree h1 T1 t1"
      "CompareFunction T1 = cmp" "Root T1 = Root T" "elems t1 = list_op cmp (elems t) op"
      using add_refines [OF Cons.prems(1,2), of e] Cons.prems(3) by auto
    then show ?thesis using Cons.IH [of h1 T1 t1] Cons.prems(3) Add by auto
  next
    case (Remove e)
    then obtain h1 t1 where "PhRemoveElementAvlTree h T e = Some (h1, T\<lparr> tCount := tCount T - 1 \<rparr>)"
      "avl_tree h1 (T\<lparr> tCount := tCount T - 1 \<rparr>) t1" "elems t1 = list_op cmp (elems t) op"
      using remove_refines [OF Cons.prems(1), of e] Cons.prems(3) by (auto simp: list_op_def)
    then show ?thesis using Cons.IH [of h1 "T\<lparr> tCount := tCount T - 1 \<rparr>" t1] Cons.prems(2,3) Remove by auto
  qed
qed auto

end

lemma list_op_length: "length (list_op cmp xs op) \<le> Suc (length xs)"
proof -
  have "length (below cmp e xs) + length (above cmp e xs) \<le> length xs" for e
    by (induction xs) (auto simp: below_def above_def)
  then show ?thesis by (cases op) (auto simp: list_op_def length_remove1)
qed

lemma list_ops_length: "length (foldl (list_op cmp) xs ops) \<le> length xs + length ops"
proof (induction ops arbitrary: xs)
  case (Cons op ops)
  then show ?case using list_op_length [of cmp xs op] by (force intro: order_trans)
qed simp

lemma initial_tree:
  assumes "tree \<noteq> 0"
  obtains h' T where "PhInitializeAvlTree h tree cmp = Some (h', T)" "avl_tree h' T Leaf" "Root T = tree" "CompareFunction T = cmp"
proof (rule that)
  let ?h = "h(tree := \<lparr> Parent = 0, Left = 0, Right = 0, Balance = 0 \<rparr>)"
    and ?T = "\<lparr> Root = tree, tCount = 0, CompareFunction = cmp \<rparr>"
  show "PhInitializeAvlTree h tree cmp = Some (?h, ?T)" using assms by (simp add: PhInitializeAvlTree_def wr_def)
  show "avl_tree ?h ?T Leaf" using assms by (simp add: avl_tree_def zip_at_def sorted_by_def)
qed simp_all

section \<open>The comparison function of the file pools\<close>

definition uintptrcmp :: "u64 \<Rightarrow> u64 \<Rightarrow> int" where
  "uintptrcmp value1 value2 = (if value1 > value2 then 1 else if value1 < value2 then - 1 else 0)"

text \<open>The views are named by the addresses of their ByBaseLinks; \<open>Base\<close> reads the member of that name.\<close>

definition PhpFilePoolViewByBaseCompareFunction :: "(u64 \<Rightarrow> u64) \<Rightarrow> u64 \<Rightarrow> u64 \<Rightarrow> int" where
  "PhpFilePoolViewByBaseCompareFunction Base view1 view2 = uintptrcmp (Base view1) (Base view2)"

lemma uintptrcmp_sign: "uintptrcmp a b < 0 \<longleftrightarrow> a < b" "uintptrcmp a b > 0 \<longleftrightarrow> b < a" "uintptrcmp a b = 0 \<longleftrightarrow> a = b"
  "uintptrcmp a b \<le> 0 \<longleftrightarrow> a \<le> b" "uintptrcmp a b \<ge> 0 \<longleftrightarrow> b \<le> a"
  by (auto simp: uintptrcmp_def)

interpretation by_base: element_order "PhpFilePoolViewByBaseCompareFunction Base" for Base
  by unfold_locales (auto simp: PhpFilePoolViewByBaseCompareFunction_def uintptrcmp_sign)

section \<open>Properties\<close>

text \<open>A small tree: the sentinel at 1, and the views 2, 3 and 4 with ascending bases.\<close>

definition small_base :: "u64 \<Rightarrow> u64" where
  "small_base a = a * 65536"

definition by_address :: "u64 \<Rightarrow> u64 \<Rightarrow> int" where
  "by_address = PhpFilePoolViewByBaseCompareFunction small_base"

definition small_tree :: atree where
  "small_tree = Node (Node Leaf 2 0 Leaf) 3 0 (Node Leaf 4 0 Leaf)"

definition small_heap :: heap where
  "small_heap = (\<lambda>_. \<lparr> Parent = 0, Left = 0, Right = 0, Balance = 0 \<rparr>)
     (1 := \<lparr> Parent = 0, Left = 0, Right = 3, Balance = 0 \<rparr>, 3 := \<lparr> Parent = 1, Left = 2, Right = 4, Balance = 0 \<rparr>,
      2 := \<lparr> Parent = 3, Left = 0, Right = 0, Balance = 0 \<rparr>, 4 := \<lparr> Parent = 3, Left = 0, Right = 0, Balance = 0 \<rparr>)"

definition small_avl :: PH_AVL_TREE where
  "small_avl = \<lparr> Root = 1, tCount = 3, CompareFunction = by_address \<rparr>"

lemmas small_compare = by_address_def PhpFilePoolViewByBaseCompareFunction_def small_base_def uintptrcmp_def

lemma by_address_order: "element_order by_address"
  using by_base.element_order_axioms by (simp add: by_address_def)

lemma small_avl_tree: "avl_tree small_heap small_avl small_tree"
  by (simp add: avl_tree_def small_avl_def small_tree_def zip_at_def small_heap_def sorted_by_def small_compare)

text \<open>
  C25: PhAddElementAvlTree keeps a balanced search tree: it returns the equal element if there is
  one and changes nothing; otherwise the new element comes to its place in the order, the counter
  counts it, and the result is NULL.
\<close>

theorem add_element_spec:
  assumes "avl_tree h T t" and "element_order (CompareFunction T)" and "e \<noteq> 0" "e \<noteq> Root T"
  shows "(\<exists>x\<in>set (elems t). CompareFunction T e x = 0 \<and> PhAddElementAvlTree h T e = Some (h, T, x)) \<or>
    (\<forall>x\<in>set (elems t). CompareFunction T e x \<noteq> 0) \<and>
    (\<exists>h' t'. PhAddElementAvlTree h T e = Some (h', T\<lparr> tCount := tCount T + 1 \<rparr>, 0) \<and>
       avl_tree h' (T\<lparr> tCount := tCount T + 1 \<rparr>) t' \<and>
       elems t' = below (CompareFunction T) e (elems t) @ e # above (CompareFunction T) e (elems t))"
proof (cases "\<exists>x\<in>set (elems t). CompareFunction T e x = 0")
  case True
  then show ?thesis
    using element_order.find_spec [OF assms(2,1) refl, of e] by (auto simp: PhAddElementAvlTree_def)
next
  case False
  then show ?thesis using element_order.add_new [OF assms(2,1) refl assms(3,4)] by blast
qed

theorem add_element_spec_witness:
  "\<exists>h' t'. PhAddElementAvlTree small_heap small_avl 5 = Some (h', small_avl\<lparr> tCount := 4 \<rparr>, 0) \<and>
     avl_tree h' (small_avl\<lparr> tCount := 4 \<rparr>) t' \<and> elems t' = [2, 3, 4, 5]"
proof -
  have "element_order (CompareFunction small_avl)" "(5 :: u64) \<noteq> Root small_avl"
    by (simp_all add: small_avl_def by_address_order)
  then show ?thesis using add_element_spec [OF small_avl_tree, of 5]
    by (auto simp: small_tree_def small_avl_def small_compare below_def above_def split: if_split_asm)
qed

text \<open>
  C24: PhRemoveElementAvlTree takes exactly the element out of the tree, keeps the tree a balanced
  search tree and the order of the others, and counts one less.
\<close>

theorem remove_element_spec:
  assumes "avl_tree h T t" and "e \<in> set (elems t)"
  shows "\<exists>h' t'. PhRemoveElementAvlTree h T e = Some (h', T\<lparr> tCount := tCount T - 1 \<rparr>) \<and>
    avl_tree h' (T\<lparr> tCount := tCount T - 1 \<rparr>) t' \<and> elems t' = remove1 e (elems t)"
  using assms by (rule remove_refines)

theorem remove_element_spec_witness:
  "\<exists>h' t'. PhRemoveElementAvlTree small_heap small_avl 3 = Some (h', small_avl\<lparr> tCount := 2 \<rparr>) \<and>
     avl_tree h' (small_avl\<lparr> tCount := 2 \<rparr>) t' \<and> elems t' = [2, 4]"
  using remove_element_spec [OF small_avl_tree, of 3] by (simp add: small_tree_def small_avl_def)

text \<open>
  The searches of a tree. PhFindElementAvlTree finds the equal element; the bound functions find
  the first element that is not less, or greater, and the last one that is less, or not greater.
  The result is NULL if there is no such element.
\<close>

theorem search_functions_spec:
  assumes "avl_tree h T t" and "element_order (CompareFunction T)"
  shows "PhFindElementAvlTree h T e = Some (first_of (\<lambda>x. CompareFunction T e x = 0) (elems t)) \<and>
    PhLowerBoundElementAvlTree h T e = Some (first_of (\<lambda>x. CompareFunction T e x \<le> 0) (elems t)) \<and>
    PhUpperBoundElementAvlTree h T e = Some (first_of (\<lambda>x. CompareFunction T e x < 0) (elems t)) \<and>
    PhLowerDualBoundElementAvlTree h T e = Some (first_of (\<lambda>x. CompareFunction T e x > 0) (rev (elems t))) \<and>
    PhUpperDualBoundElementAvlTree h T e = Some (first_of (\<lambda>x. CompareFunction T e x \<ge> 0) (rev (elems t)))"
  using element_order.find_element_at [OF assms(2,1) refl, of e] element_order.bounds_at [OF assms(2,1) refl, of e]
  by simp

theorem search_functions_spec_witness:
  "PhFindElementAvlTree small_heap small_avl 3 = Some 3 \<and> PhUpperBoundElementAvlTree small_heap small_avl 3 = Some 4 \<and>
   PhLowerDualBoundElementAvlTree small_heap small_avl 3 = Some 2 \<and> PhUpperBoundElementAvlTree small_heap small_avl 7 = Some 0"
proof -
  have "element_order (CompareFunction small_avl)" by (simp add: small_avl_def by_address_order)
  note s = search_functions_spec [OF small_avl_tree this]
  show ?thesis using s [of 3] s [of 7] by (simp add: small_tree_def small_avl_def small_compare first_of_def)
qed

text \<open>
  The minimum and the maximum are the ends of the order, and the successor and the predecessor
  of an element its neighbours; NULL stands for none, also in the place of the sentinel.
\<close>

theorem neighbours_spec:
  assumes "avl_tree h T t"
  shows "PhMinimumElementAvlTree h T = Some (first_of (\<lambda>_. True) (elems t)) \<and>
    PhMaximumElementAvlTree h T = Some (first_of (\<lambda>_. True) (rev (elems t))) \<and>
    (\<forall>xs e ys. elems t = xs @ e # ys \<longrightarrow>
       PhSuccessorElementAvlTree h e = Some (first_of (\<lambda>_. True) ys) \<and>
       PhPredecessorElementAvlTree h e = Some (first_of (\<lambda>_. True) (rev xs)))"
proof -
  have z: "zip_at h (Root T) [] t" using assms by (simp add: avl_tree_def)
  show ?thesis
    using minimum_at [OF z] maximum_at [OF z] neighbours_at [OF z] by (auto simp: first_of_def)
qed

theorem neighbours_spec_witness:
  "PhMinimumElementAvlTree small_heap small_avl = Some 2 \<and> PhMaximumElementAvlTree small_heap small_avl = Some 4 \<and>
   PhSuccessorElementAvlTree small_heap 3 = Some 4 \<and> PhPredecessorElementAvlTree small_heap 2 = Some 0"
proof -
  have e: "elems small_tree = [2] @ 3 # [4]" "elems small_tree = [] @ 2 # [3, 4]" by (simp_all add: small_tree_def)
  note s = neighbours_spec [OF small_avl_tree]
  show ?thesis
    using s s [THEN conjunct2, THEN conjunct2, rule_format, OF e(1)] s [THEN conjunct2, THEN conjunct2, rule_format, OF e(2)]
    by (simp add: first_of_def small_tree_def)
qed

text \<open>
  C35: PhEnumAvlTree returns after it has shown every element in order, or in reverse order, to the
  callback until that declines. With at most 2^32 elements the stack of 47 links never overflows.
\<close>

theorem enumeration_spec:
  assumes "avl_tree h T t" and "length (elems t) \<le> 2 ^ 32"
  shows "PhEnumAvlTree h T Order cb ctx =
    Some (visit cb (case Order of TreeEnumerateInOrder \<Rightarrow> elems t | TreeEnumerateInReverseOrder \<Rightarrow> rev (elems t)) ctx)"
  by (rule enum_at) (use assms in \<open>simp_all add: avl_tree_def\<close>)

theorem enumeration_spec_witness:
  "PhEnumAvlTree small_heap small_avl TreeEnumerateInReverseOrder (\<lambda>x xs. (x \<noteq> 3, xs @ [x])) [] = Some [4, 3]"
  using enumeration_spec [OF small_avl_tree, of TreeEnumerateInReverseOrder "\<lambda>x xs. (x \<noteq> 3, xs @ [x])" "[]"]
  by (simp add: small_tree_def)

text \<open>
  C7: Every sequence of additions and removals, from an initialized tree, refines the same
  operations on a sorted list; none of them follows a NULL pointer, and after at most 2^32 of
  them the height is at most 45.
\<close>

theorem tree_script_spec:
  assumes "element_order cmp" and "tree \<noteq> 0" and "proper_ops cmp tree [] ops" and "length ops \<le> 2 ^ 32"
  shows "\<exists>h0 T0 h' T t. PhInitializeAvlTree h tree cmp = Some (h0, T0) \<and> run_ops h0 T0 ops = Some (h', T) \<and>
    avl_tree h' T t \<and> elems t = foldl (list_op cmp) [] ops \<and> height t \<le> 45"
proof -
  obtain h0 T0 where h0: "PhInitializeAvlTree h tree cmp = Some (h0, T0)" "avl_tree h0 T0 Leaf" "Root T0 = tree"
    "CompareFunction T0 = cmp" using initial_tree [OF assms(2)] by blast
  obtain h' T t where "run_ops h0 T0 ops = Some (h', T)" "avl_tree h' T t" "elems t = foldl (list_op cmp) [] ops"
    using element_order.run_refines [OF assms(1) h0(2,4), of ops] assms(3) h0(3) by auto
  moreover from this have "height t \<le> 45"
    using height_bound [of t] list_ops_length [of cmp "[]" ops] assms(4) by (simp add: avl_tree_def)
  ultimately show ?thesis using h0(1) by blast
qed

theorem tree_script_spec_witness:
  "\<exists>h0 T0 h' T t. PhInitializeAvlTree small_heap 1 by_address = Some (h0, T0) \<and>
     run_ops h0 T0 [Add 3, Add 5, Add 7, Add 3, Remove 5, Add 2] = Some (h', T) \<and>
     avl_tree h' T t \<and> elems t = [2, 3, 7] \<and> height t \<le> 45"
  using tree_script_spec [OF by_address_order, of 1 "[Add 3, Add 5, Add 7, Add 3, Remove 5, Add 2]" small_heap]
  by (simp add: list_op_def small_compare below_def above_def)

end
