(* ===== verification/FilePool.thy ===== *)
theory FilePool
  imports AvlTree
begin

text \<open>
  The views of a file pool by their base address (ProcessHacker/phlib/filepool.c): the AVL tree of
  the views, and the search for the view that contains an address. A view is named by the address
  of its ByBaseLinks. The comparison function reads the Base members of the views; the search
  compares with a view on the stack, so it works with the memory in which that view has the base.
\<close>

record PH_FILE_POOL =
  ByBaseSet :: PH_AVL_TREE
  SegmentSize :: u32

definition PhFppAddViewByBase :: "heap \<Rightarrow> PH_FILE_POOL \<Rightarrow> u64 \<Rightarrow> (heap \<times> PH_FILE_POOL) option" where
  "PhFppAddViewByBase h Pool View =
     map_option (\<lambda>(h, T, _). (h, Pool\<lparr> ByBaseSet := T \<rparr>)) (PhAddElementAvlTree h (ByBaseSet Pool) View)"

definition PhFppRemoveViewByBase :: "heap \<Rightarrow> PH_FILE_POOL \<Rightarrow> u64 \<Rightarrow> (heap \<times> PH_FILE_POOL) option" where
  "PhFppRemoveViewByBase h Pool View =
     map_option (\<lambda>(h, T). (h, Pool\<lparr> ByBaseSet := T \<rparr>)) (PhRemoveElementAvlTree h (ByBaseSet Pool) View)"

definition PhFppFindViewByBase ::
  "heap \<Rightarrow> (u64 \<Rightarrow> u64) \<Rightarrow> PH_FILE_POOL \<Rightarrow> u64 \<Rightarrow> u64 \<Rightarrow> u64 option" where
  "PhFppFindViewByBase h Base Pool lookupView address =
     (let Base = Base(lookupView := address);
          T = (ByBaseSet Pool)\<lparr> CompareFunction := PhpFilePoolViewByBaseCompareFunction Base \<rparr> in
      case PhUpperDualBoundElementAvlTree h T lookupView of
        None \<Rightarrow> None
      | Some links \<Rightarrow>
          Some (if links = 0 then 0
                else if address < Base links + ucast (SegmentSize Pool) then links else 0))"

text \<open>The views of a pool: the tree is ordered by their bases, and the mapped segments do not overlap.\<close>

definition pool_views :: "heap \<Rightarrow> (u64 \<Rightarrow> u64) \<Rightarrow> PH_FILE_POOL \<Rightarrow> u64 list \<Rightarrow> bool" where
  "pool_views h Base Pool views \<longleftrightarrow>
     CompareFunction (ByBaseSet Pool) = PhpFilePoolViewByBaseCompareFunction Base \<and>
     (\<exists>t. avl_tree h (ByBaseSet Pool) t \<and> elems t = views)"

definition disjoint_segments :: "(u64 \<Rightarrow> u64) \<Rightarrow> u32 \<Rightarrow> u64 set \<Rightarrow> bool" where
  "disjoint_segments Base seg V \<longleftrightarrow>
     (\<forall>v\<in>V. unat (Base v) + unat seg < 2 ^ 64) \<and>
     (\<forall>v\<in>V. \<forall>w\<in>V. unat (Base v) < unat (Base w) \<longrightarrow> unat (Base v) + unat seg \<le> unat (Base w))"

definition contains :: "(u64 \<Rightarrow> u64) \<Rightarrow> u32 \<Rightarrow> u64 \<Rightarrow> u64 \<Rightarrow> bool" where
  "contains Base seg address v \<longleftrightarrow> unat (Base v) \<le> unat address \<and> unat address < unat (Base v) + unat seg"

lemma by_base_cong:
  "lookup \<notin> set xs \<Longrightarrow> sorted_by (PhpFilePoolViewByBaseCompareFunction Base) xs \<Longrightarrow>
   sorted_by (PhpFilePoolViewByBaseCompareFunction (Base(lookup := a))) xs"
  unfolding sorted_by_def by (erule sorted_wrt_mono_rel [rotated]) (auto simp: PhpFilePoolViewByBaseCompareFunction_def)

lemma upper_dual_bound:
  assumes p: "pool_views h Base Pool views" and l: "lookup \<notin> set views"
  shows "PhUpperDualBoundElementAvlTree h
      ((ByBaseSet Pool)\<lparr> CompareFunction := PhpFilePoolViewByBaseCompareFunction (Base(lookup := a)) \<rparr>) lookup =
    Some (first_of (\<lambda>v. Base v \<le> a) (rev views))"
proof -
  let ?cmp = "PhpFilePoolViewByBaseCompareFunction (Base(lookup := a))"
  obtain t where t: "avl_tree h (ByBaseSet Pool) t" "elems t = views"
    "CompareFunction (ByBaseSet Pool) = PhpFilePoolViewByBaseCompareFunction Base" using p by (auto simp: pool_views_def)
  have "avl_tree h ((ByBaseSet Pool)\<lparr> CompareFunction := ?cmp \<rparr>) t"
    using t by_base_cong [OF l] by (simp add: avl_tree_def)
  then have "PhUpperDualBoundElementAvlTree h ((ByBaseSet Pool)\<lparr> CompareFunction := ?cmp \<rparr>) lookup =
      Some (first_of (\<lambda>x. ?cmp lookup x \<ge> 0) (rev (elems t)))"
    by (rule by_base.bounds_at(4)) simp
  moreover have "filter (\<lambda>x. ?cmp lookup x \<ge> 0) (rev views) = filter (\<lambda>v. Base v \<le> a) (rev views)"
    using l by (intro filter_cong) (auto simp: PhpFilePoolViewByBaseCompareFunction_def uintptrcmp_sign)
  ultimately show ?thesis by (simp add: first_of_def t(2))
qed

lemma last_below_contains:
  assumes s: "sorted_by (PhpFilePoolViewByBaseCompareFunction Base) views" and d: "disjoint_segments Base seg (set views)"
    and v: "first_of (\<lambda>v. Base v \<le> a) (rev views) = v" "0 \<notin> set views" and w: "w \<in> set views" "contains Base seg a w"
  shows "v = w"
proof -
  let ?P = "\<lambda>v. Base v \<le> a"
  have "w \<in> set (filter ?P (rev views))" using w by (simp add: contains_def word_le_nat_alt)
  then obtain vs where vs: "filter ?P (rev views) = v # vs" using v(1) by (cases "filter ?P (rev views)") (auto simp: first_of_def)
  then have vv: "v \<in> set (filter ?P (rev views))" by simp
  have "sorted_by (PhpFilePoolViewByBaseCompareFunction Base) (filter ?P views)"
    using s by (simp add: sorted_by_def sorted_wrt_filter)
  moreover have "filter ?P views = rev vs @ [v]" using vs by (simp add: rev_filter [symmetric] rev_swap)
  ultimately have "w = v \<or> Base w < Base v"
    using \<open>w \<in> set (filter ?P (rev views))\<close> vs
    by (auto simp: sorted_by_append PhpFilePoolViewByBaseCompareFunction_def uintptrcmp_sign)
  moreover have "\<not> Base w < Base v"
  proof
    assume "Base w < Base v"
    then have "unat (Base w) + unat seg \<le> unat (Base v)"
      using d w(1) vv by (simp add: disjoint_segments_def word_less_nat_alt)
    then show False using w(2) vv by (simp add: contains_def word_le_nat_alt)
  qed
  ultimately show ?thesis by blast
qed

text \<open>
  The search for the view of an address is exact although it is approximate in the tree: if
  the segments of the views do not overlap, PhFppFindViewByBase returns the view whose segment
  contains the address, and NULL exactly if there is none.
\<close>

theorem find_view_exact:
  assumes "pool_views h Base Pool views" and "disjoint_segments Base (SegmentSize Pool) (set views)"
    and "lookupView \<notin> set views"
  shows "\<exists>v. PhFppFindViewByBase h Base Pool lookupView address = Some v \<and>
    (v \<noteq> 0 \<longrightarrow> v \<in> set views \<and> contains Base (SegmentSize Pool) address v) \<and>
    (\<forall>w\<in>set views. contains Base (SegmentSize Pool) address w \<longrightarrow> v = w)"
proof -
  define v where "v = first_of (\<lambda>v. Base v \<le> address) (rev views)"
  have s: "sorted_by (PhpFilePoolViewByBaseCompareFunction Base) views" "0 \<notin> set views"
    using assms(1) by (auto simp: pool_views_def avl_tree_def zip_at_def)
  have f: "PhFppFindViewByBase h Base Pool lookupView address = Some (if v = 0 then 0
      else if address < (Base(lookupView := address)) v + ucast (SegmentSize Pool) then v else 0)"
    using upper_dual_bound [OF assms(1,3)] by (simp add: PhFppFindViewByBase_def v_def)
  have last: "v = w" if "w \<in> set views" "contains Base (SegmentSize Pool) address w" for w
    using last_below_contains [OF s(1) assms(2) _ s(2) that] by (simp add: v_def)
  have v: "v \<in> set views \<and> Base v \<le> address" if "v \<noteq> 0"
  proof -
    have "v \<noteq> 0" by (rule that)
    then obtain vs where "filter (\<lambda>v. Base v \<le> address) (rev views) = v # vs"
      by (cases "filter (\<lambda>v. Base v \<le> address) (rev views)") (auto simp: v_def first_of_def)
    then have "v \<in> set (filter (\<lambda>v. Base v \<le> address) (rev views))" by simp
    then show ?thesis by simp
  qed
  have inside: "address < Base v + ucast (SegmentSize Pool) \<longleftrightarrow> contains Base (SegmentSize Pool) address v" if "v \<noteq> 0"
  proof -
    have "unat (Base v) + unat (SegmentSize Pool) < 2 ^ 64" using v [OF that] assms(2) by (auto simp: disjoint_segments_def)
    then have "unat (Base v + ucast (SegmentSize Pool)) = unat (Base v) + unat (SegmentSize Pool)"
      by (subst unat_add_fits) simp_all
    then show ?thesis using v [OF that] by (simp add: contains_def word_less_nat_alt word_le_nat_alt)
  qed
  have lv: "v \<noteq> lookupView" if "v \<noteq> 0" using v [OF that] assms(3) by auto
  show ?thesis
  proof (cases "v \<noteq> 0 \<and> contains Base (SegmentSize Pool) address v")
    case True
    then show ?thesis using f inside v lv last by auto
  next
    case False
    then show ?thesis using f inside lv last by (cases "v = 0") auto
  qed
qed

theorem find_view_exact_witness:
  "PhFppFindViewByBase small_heap small_base \<lparr> ByBaseSet = small_avl, SegmentSize = 4096 \<rparr> 9 196610 = Some 3"
proof -
  let ?P = "\<lparr> ByBaseSet = small_avl, SegmentSize = 4096 \<rparr>"
  have "pool_views small_heap small_base ?P [2, 3, 4]"
    using small_avl_tree by (auto simp: pool_views_def small_avl_def small_tree_def by_address_def intro!: exI [of _ small_tree])
  moreover have "disjoint_segments small_base (SegmentSize ?P) (set [2, 3, 4])"
    by (simp add: disjoint_segments_def small_base_def)
  ultimately show ?thesis using find_view_exact [of small_heap small_base ?P "[2, 3, 4]" 9 196610]
    by (auto simp: contains_def small_base_def)
qed

end
