(* ===== verification/HandleTable.thy ===== *)
theory HandleTable
  imports PointerList "HOL-Library.Monad_Syntax"
begin

text \<open>
  The handle tables of ProcessHacker/phlib/handle.c, run by one thread. Blocks of 256 entries are
  reached through one, two or three levels; the blocks are named in the order of their allocation.
  Free entries are chained in two lists. Memory that cannot be had makes an allocation fail, as
  with PH_HANDLE_TABLE_SAFE, which handle.h defines. A step that would read or write outside a
  block, follow a NULL pointer, or wait for an entry that nobody unlocks has the result None.
\<close>

section \<open>The code\<close>

record PH_HANDLE_TABLE_ENTRY =
  Value :: u64
  Value2 :: u64

abbreviation PH_HANDLE_TABLE_ENTRY_TYPE :: u64 where "PH_HANDLE_TABLE_ENTRY_TYPE \<equiv> 1"
abbreviation PH_HANDLE_TABLE_ENTRY_FREE :: u64 where "PH_HANDLE_TABLE_ENTRY_FREE \<equiv> 1"
abbreviation PH_HANDLE_TABLE_ENTRY_LOCKED :: u64 where "PH_HANDLE_TABLE_ENTRY_LOCKED \<equiv> 2"
abbreviation PH_HANDLE_VALUE_INVALID :: u32 where "PH_HANDLE_VALUE_INVALID \<equiv> - 1"
abbreviation PH_HANDLE_TABLE_STRICT_FIFO :: u32 where "PH_HANDLE_TABLE_STRICT_FIFO \<equiv> 1"
abbreviation PH_HANDLE_TABLE_FREE_COUNT :: nat where "PH_HANDLE_TABLE_FREE_COUNT \<equiv> 64"
abbreviation PH_HANDLE_TABLE_LEVEL_ENTRIES :: nat where "PH_HANDLE_TABLE_LEVEL_ENTRIES \<equiv> 256"

text \<open>NextFreeValue is the low half of Value2.\<close>

definition NextFreeValue :: "PH_HANDLE_TABLE_ENTRY \<Rightarrow> u32" where
  "NextFreeValue e = ucast (Value2 e)"

definition set_NextFreeValue :: "u32 \<Rightarrow> PH_HANDLE_TABLE_ENTRY \<Rightarrow> PH_HANDLE_TABLE_ENTRY" where
  "set_NextFreeValue v e = e\<lparr> Value2 := (Value2 e AND NOT (mask 32)) OR ucast v \<rparr>"

text \<open>TableValue with its level: pointers to blocks, to tables of them, and to tables of those.\<close>

datatype table_value = Level0 nat | Level1 "nat option list" | Level2 "nat option list option list"

record PH_HANDLE_TABLE =
  htCount :: u32
  TableValue :: table_value
  FreeValue :: u32
  NextValue :: u32
  FreeValueAlt :: u32
  htFlags :: u32
  Blocks :: "PH_HANDLE_TABLE_ENTRY list list"

text \<open>What the allocator gives: a block with its old contents, and tables of the two upper levels.\<close>

record memory =
  Level0Memory :: "PH_HANDLE_TABLE_ENTRY list option"
  Level1Memory :: bool
  Level2Memory :: bool

definition nth_opt :: "'a list \<Rightarrow> nat \<Rightarrow> 'a option" where
  "nth_opt xs i = (if i < length xs then Some (xs ! i) else None)"

definition upd_opt :: "'a list \<Rightarrow> nat \<Rightarrow> 'a \<Rightarrow> 'a list option" where
  "upd_opt xs i x = (if i < length xs then Some (xs[i := x]) else None)"

type_synonym entry_ptr = "nat \<times> nat"

definition rd_entry :: "PH_HANDLE_TABLE \<Rightarrow> entry_ptr \<Rightarrow> PH_HANDLE_TABLE_ENTRY option" where
  "rd_entry T p = do { block \<leftarrow> nth_opt (Blocks T) (fst p); nth_opt block (snd p) }"

definition wr_entry :: "PH_HANDLE_TABLE \<Rightarrow> entry_ptr \<Rightarrow> PH_HANDLE_TABLE_ENTRY \<Rightarrow> PH_HANDLE_TABLE option" where
  "wr_entry T p e =
     do { block \<leftarrow> nth_opt (Blocks T) (fst p);
          block \<leftarrow> upd_opt block (snd p) e;
          Some (T\<lparr> Blocks := (Blocks T)[fst p := block] \<rparr>) }"

definition PhpEncodeHandle :: "u32 \<Rightarrow> u64" where
  "PhpEncodeHandle HandleValue = ucast (push_bit 2 HandleValue + 4)"

definition PhpDecodeHandle :: "u64 \<Rightarrow> u32" where
  "PhpDecodeHandle Handle = drop_bit 2 (ucast Handle - 4)"

definition PH_HANDLE_VALUE_LEVEL0 :: "u32 \<Rightarrow> nat" where
  "PH_HANDLE_VALUE_LEVEL0 v = unat (v AND 0xff)"

definition PH_HANDLE_VALUE_LEVEL1_U :: "u32 \<Rightarrow> nat" where
  "PH_HANDLE_VALUE_LEVEL1_U v = unat (drop_bit 8 v)"

definition PH_HANDLE_VALUE_LEVEL1 :: "u32 \<Rightarrow> nat" where
  "PH_HANDLE_VALUE_LEVEL1 v = unat (drop_bit 8 v AND 0xff)"

definition PH_HANDLE_VALUE_LEVEL2_U :: "u32 \<Rightarrow> nat" where
  "PH_HANDLE_VALUE_LEVEL2_U v = unat (drop_bit 16 v)"

text \<open>The inner option is the pointer that the function returns.\<close>

definition PhpLookupHandleTableEntry :: "PH_HANDLE_TABLE \<Rightarrow> u32 \<Rightarrow> entry_ptr option option" where
  "PhpLookupHandleTableEntry T HandleValue =
     (if HandleValue \<ge> NextValue T then Some None
      else case TableValue T of
        Level0 table0 \<Rightarrow> Some (Some (table0, unat HandleValue))
      | Level1 table1 \<Rightarrow>
          do { table0 \<leftarrow> nth_opt table1 (PH_HANDLE_VALUE_LEVEL1_U HandleValue);
               table0 \<leftarrow> table0;
               Some (Some (table0, PH_HANDLE_VALUE_LEVEL0 HandleValue)) }
      | Level2 table2 \<Rightarrow>
          do { table1 \<leftarrow> nth_opt table2 (PH_HANDLE_VALUE_LEVEL2_U HandleValue);
               table1 \<leftarrow> table1;
               table0 \<leftarrow> nth_opt table1 (PH_HANDLE_VALUE_LEVEL1 HandleValue);
               table0 \<leftarrow> table0;
               Some (Some (table0, PH_HANDLE_VALUE_LEVEL0 HandleValue)) })"

text \<open>A new block, its entries chained; every caller asks for the initialization.\<close>

definition chain_block :: "PH_HANDLE_TABLE_ENTRY list \<Rightarrow> u32 \<Rightarrow> PH_HANDLE_TABLE_ENTRY list" where
  "chain_block junk baseValue =
     map (\<lambda>i. set_NextFreeValue
            (if i + 1 < PH_HANDLE_TABLE_LEVEL_ENTRIES then baseValue + of_nat (i + 1) else PH_HANDLE_VALUE_INVALID)
            ((junk ! i)\<lparr> Value := PH_HANDLE_TABLE_ENTRY_FREE \<rparr>))
       [0..<PH_HANDLE_TABLE_LEVEL_ENTRIES]"

definition PhpCreateHandleTableLevel0 :: "memory \<Rightarrow> u32 \<Rightarrow> PH_HANDLE_TABLE_ENTRY list option" where
  "PhpCreateHandleTableLevel0 mem baseValue = map_option (\<lambda>junk. chain_block junk baseValue) (Level0Memory mem)"

definition PhpCreateHandleTableLevel1 :: "memory \<Rightarrow> nat option list option" where
  "PhpCreateHandleTableLevel1 mem =
     (if Level1Memory mem then Some (replicate PH_HANDLE_TABLE_LEVEL_ENTRIES None) else None)"

definition PhpCreateHandleTableLevel2 :: "memory \<Rightarrow> nat option list option list option" where
  "PhpCreateHandleTableLevel2 mem =
     (if Level2Memory mem then Some (replicate PH_HANDLE_TABLE_LEVEL_ENTRIES None) else None)"

definition PhCreateHandleTable :: "memory \<Rightarrow> PH_HANDLE_TABLE option" where
  "PhCreateHandleTable mem =
     (case PhpCreateHandleTableLevel0 mem 0 of
        None \<Rightarrow> None
      | Some block \<Rightarrow>
          Some \<lparr> htCount = 0, TableValue = Level0 0, FreeValue = 0,
            NextValue = of_nat PH_HANDLE_TABLE_LEVEL_ENTRIES, FreeValueAlt = PH_HANDLE_VALUE_INVALID,
            htFlags = 0, Blocks = [block] \<rparr>)"

text \<open>The place of a new block in the table, if memory and the number of handles allow it.\<close>

definition extend_table :: "memory \<Rightarrow> PH_HANDLE_TABLE \<Rightarrow> table_value option option" where
  "extend_table mem T =
     (let table0 = length (Blocks T) in
      case TableValue T of
        Level0 old \<Rightarrow>
          Some (case PhpCreateHandleTableLevel1 mem of
            None \<Rightarrow> None
          | Some table1 \<Rightarrow> Some (Level1 (table1[0 := Some old, 1 := Some table0])))
      | Level1 table1 \<Rightarrow>
          (let i = unat (NextValue T div of_nat PH_HANDLE_TABLE_LEVEL_ENTRIES) in
           if i < PH_HANDLE_TABLE_LEVEL_ENTRIES then
             do { table1 \<leftarrow> upd_opt table1 i (Some table0); Some (Some (Level1 table1)) }
           else
             Some (case PhpCreateHandleTableLevel2 mem of
               None \<Rightarrow> None
             | Some table2 \<Rightarrow>
                 (case PhpCreateHandleTableLevel1 mem of
                    None \<Rightarrow> None
                  | Some new1 \<Rightarrow> Some (Level2 (table2[0 := Some table1, 1 := Some (new1[0 := Some table0])])))))
      | Level2 table2 \<Rightarrow>
          (let i = NextValue T div of_nat (PH_HANDLE_TABLE_LEVEL_ENTRIES * PH_HANDLE_TABLE_LEVEL_ENTRIES) in
           if unat i \<ge> PH_HANDLE_TABLE_LEVEL_ENTRIES then Some None
           else
             do { t1 \<leftarrow> nth_opt table2 (unat i);
                  (case t1 of
                     Some table1 \<Rightarrow>
                       (let j = (NextValue T - i * of_nat (PH_HANDLE_TABLE_LEVEL_ENTRIES * PH_HANDLE_TABLE_LEVEL_ENTRIES))
                                div of_nat PH_HANDLE_TABLE_LEVEL_ENTRIES in
                        do { table1 \<leftarrow> upd_opt table1 (unat j) (Some table0);
                             Some (Some (Level2 (table2[unat i := Some table1]))) })
                   | None \<Rightarrow>
                       Some (case PhpCreateHandleTableLevel1 mem of
                         None \<Rightarrow> None
                       | Some table1 \<Rightarrow> Some (Level2 (table2[unat i := Some (table1[0 := Some table0])])))) }))"

text \<open>The new entries are pushed in front of the free list.\<close>

definition PhpAllocateMoreHandleTableEntries ::
  "memory \<Rightarrow> PH_HANDLE_TABLE \<Rightarrow> (PH_HANDLE_TABLE \<times> bool) option" where
  "PhpAllocateMoreHandleTableEntries mem T =
     do { tv \<leftarrow> extend_table mem T;
          (case tv of
             None \<Rightarrow> Some (T, False)
           | Some tableValue \<Rightarrow>
               (case PhpCreateHandleTableLevel0 mem (NextValue T) of
                  None \<Rightarrow> Some (T, False)
                | Some block \<Rightarrow>
                    do { let oldNextValue = NextValue T;
                         let T = T\<lparr> TableValue := tableValue, Blocks := Blocks T @ [block],
                                    NextValue := NextValue T + of_nat PH_HANDLE_TABLE_LEVEL_ENTRIES \<rparr>;
                         let lastEntry = (length (Blocks T) - 1, PH_HANDLE_TABLE_LEVEL_ENTRIES - 1);
                         e \<leftarrow> rd_entry T lastEntry;
                         T \<leftarrow> wr_entry T lastEntry (set_NextFreeValue (FreeValue T) e);
                         Some (T\<lparr> FreeValue := oldNextValue \<rparr>, True) })) }"

text \<open>Reversing a chain of free entries.\<close>

partial_function (option) reverse_chain ::
  "PH_HANDLE_TABLE \<Rightarrow> u32 \<Rightarrow> u32 \<Rightarrow> entry_ptr option \<Rightarrow> nat \<Rightarrow> (PH_HANDLE_TABLE \<times> entry_ptr option \<times> u32 \<times> nat) option" where
  "reverse_chain T index lastIndex firstEntry count =
     do { r \<leftarrow> PhpLookupHandleTableEntry T index;
          entry \<leftarrow> r;
          let firstEntry = (if lastIndex = PH_HANDLE_VALUE_INVALID then Some entry else firstEntry);
          e \<leftarrow> rd_entry T entry;
          let nextIndex = NextFreeValue e;
          T \<leftarrow> wr_entry T entry (set_NextFreeValue lastIndex e);
          if nextIndex = PH_HANDLE_VALUE_INVALID then Some (T, firstEntry, index, count + 1)
          else reverse_chain T nextIndex index firstEntry (count + 1) }"

definition PhpMoveFreeHandleTableEntries :: "PH_HANDLE_TABLE \<Rightarrow> (PH_HANDLE_TABLE \<times> u32) option" where
  "PhpMoveFreeHandleTableEntries T =
     (let freeValueAlt = FreeValueAlt T; T = T\<lparr> FreeValueAlt := PH_HANDLE_VALUE_INVALID \<rparr>;
          strict = (htFlags T AND PH_HANDLE_TABLE_STRICT_FIFO \<noteq> 0) in
      if freeValueAlt = PH_HANDLE_VALUE_INVALID then Some (T, PH_HANDLE_VALUE_INVALID)
      else if \<not> strict \<and> FreeValue T = PH_HANDLE_VALUE_INVALID
      then Some (T\<lparr> FreeValue := freeValueAlt \<rparr>, freeValueAlt)
      else
        do { (T, firstEntry, index, count) \<leftarrow> reverse_chain T freeValueAlt PH_HANDLE_VALUE_INVALID None 0;
             firstEntry \<leftarrow> firstEntry;
             e \<leftarrow> rd_entry T firstEntry;
             T \<leftarrow> wr_entry T firstEntry (set_NextFreeValue (FreeValue T) e);
             Some (T\<lparr> FreeValue := index \<rparr>,
                   if strict \<and> count < PH_HANDLE_TABLE_FREE_COUNT then PH_HANDLE_VALUE_INVALID else index) })"

text \<open>
  The inner and the outer loop of the allocation. A single thread finds FreeValue unchanged when it
  has the lock, so the second test of FreeValue and the failed exchange of the code are not needed.
\<close>

partial_function (option) refill :: "memory \<Rightarrow> PH_HANDLE_TABLE \<Rightarrow> (PH_HANDLE_TABLE \<times> u32 option) option" where
  "refill mem T =
     (if FreeValue T \<noteq> PH_HANDLE_VALUE_INVALID then Some (T, Some (FreeValue T))
      else
        do { (T, freeValue) \<leftarrow> PhpMoveFreeHandleTableEntries T;
             if freeValue \<noteq> PH_HANDLE_VALUE_INVALID then Some (T, Some freeValue)
             else
               do { (T, result) \<leftarrow> PhpAllocateMoreHandleTableEntries mem T;
                    if \<not> result \<and> FreeValue T = PH_HANDLE_VALUE_INVALID then Some (T, None) else refill mem T } })"

definition PhpAllocateHandleTableEntry ::
  "memory \<Rightarrow> PH_HANDLE_TABLE \<Rightarrow> (PH_HANDLE_TABLE \<times> (entry_ptr \<times> u32) option) option" where
  "PhpAllocateHandleTableEntry mem T =
     do { (T, r) \<leftarrow> refill mem T;
          (case r of
             None \<Rightarrow> Some (T, None)
           | Some freeValue \<Rightarrow>
               do { entry \<leftarrow> PhpLookupHandleTableEntry T freeValue;
                    entry \<leftarrow> entry;
                    e \<leftarrow> rd_entry T entry;
                    Some (T\<lparr> FreeValue := NextFreeValue e, htCount := htCount T + 1 \<rparr>, Some (entry, freeValue)) }) }"

text \<open>The flag tells whether the queued lock of the entry could be had without waiting.\<close>

definition PhpFreeHandleTableEntry ::
  "bool \<Rightarrow> PH_HANDLE_TABLE \<Rightarrow> u32 \<Rightarrow> entry_ptr \<Rightarrow> PH_HANDLE_TABLE option" where
  "PhpFreeHandleTableEntry acquired T HandleValue entry =
     do { let T = T\<lparr> htCount := htCount T - 1 \<rparr>;
          e \<leftarrow> rd_entry T entry;
          if htFlags T AND PH_HANDLE_TABLE_STRICT_FIFO = 0 \<and> acquired then
            do { T \<leftarrow> wr_entry T entry (set_NextFreeValue (FreeValue T) e);
                 Some (T\<lparr> FreeValue := HandleValue \<rparr>) }
          else
            do { T \<leftarrow> wr_entry T entry (set_NextFreeValue (FreeValueAlt T) e);
                 Some (T\<lparr> FreeValueAlt := HandleValue \<rparr>) } }"

definition PhLockHandleTableEntry :: "PH_HANDLE_TABLE \<Rightarrow> entry_ptr \<Rightarrow> (PH_HANDLE_TABLE \<times> bool) option" where
  "PhLockHandleTableEntry T entry =
     do { e \<leftarrow> rd_entry T entry;
          if Value e AND PH_HANDLE_TABLE_ENTRY_TYPE \<noteq> 0 then Some (T, False)
          else if Value e AND PH_HANDLE_TABLE_ENTRY_LOCKED \<noteq> 0 then
            do { T \<leftarrow> wr_entry T entry (e\<lparr> Value := Value e - PH_HANDLE_TABLE_ENTRY_LOCKED \<rparr>); Some (T, True) }
          else None }"

definition PhUnlockHandleTableEntry :: "PH_HANDLE_TABLE \<Rightarrow> entry_ptr \<Rightarrow> PH_HANDLE_TABLE option" where
  "PhUnlockHandleTableEntry T entry =
     do { e \<leftarrow> rd_entry T entry;
          wr_entry T entry (e\<lparr> Value := Value e OR PH_HANDLE_TABLE_ENTRY_LOCKED \<rparr>) }"

text \<open>A handle, or NULL.\<close>

definition PhCreateHandle ::
  "memory \<Rightarrow> PH_HANDLE_TABLE \<Rightarrow> PH_HANDLE_TABLE_ENTRY \<Rightarrow> (PH_HANDLE_TABLE \<times> u64) option" where
  "PhCreateHandle mem T HandleTableEntry =
     do { (T, r) \<leftarrow> PhpAllocateHandleTableEntry mem T;
          (case r of
             None \<Rightarrow> Some (T, 0)
           | Some (entry, handleValue) \<Rightarrow>
               do { e \<leftarrow> rd_entry T entry;
                    T \<leftarrow> wr_entry T entry
                      \<lparr> Value = (Value e AND PH_HANDLE_TABLE_ENTRY_LOCKED) OR (Value HandleTableEntry AND NOT 3),
                        Value2 = Value2 HandleTableEntry \<rparr>;
                    T \<leftarrow> PhUnlockHandleTableEntry T entry;
                    Some (T, PhpEncodeHandle handleValue) }) }"

definition PhLookupHandleTableEntry :: "PH_HANDLE_TABLE \<Rightarrow> u64 \<Rightarrow> (PH_HANDLE_TABLE \<times> entry_ptr option) option" where
  "PhLookupHandleTableEntry T Handle =
     do { r \<leftarrow> PhpLookupHandleTableEntry T (PhpDecodeHandle Handle);
          (case r of
             None \<Rightarrow> Some (T, None)
           | Some entry \<Rightarrow>
               do { (T, locked) \<leftarrow> PhLockHandleTableEntry T entry;
                    Some (T, if locked then Some entry else None) }) }"

text \<open>The caller may give the entry that it has locked.\<close>

definition PhDestroyHandle ::
  "bool \<Rightarrow> PH_HANDLE_TABLE \<Rightarrow> u64 \<Rightarrow> entry_ptr option \<Rightarrow> (PH_HANDLE_TABLE \<times> bool) option" where
  "PhDestroyHandle acquired T Handle HandleTableEntry =
     do { (T, r) \<leftarrow> (case HandleTableEntry of
            Some entry \<Rightarrow> Some (T, Some entry)
          | None \<Rightarrow> PhLookupHandleTableEntry T Handle);
          (case r of
             None \<Rightarrow> Some (T, False)
           | Some entry \<Rightarrow>
               do { e \<leftarrow> rd_entry T entry;
                    T \<leftarrow> wr_entry T entry (e\<lparr> Value := PH_HANDLE_TABLE_ENTRY_FREE \<rparr>);
                    T \<leftarrow> PhpFreeHandleTableEntry acquired T (PhpDecodeHandle Handle) entry;
                    Some (T, True) }) }"

text \<open>The callback sees the handle and the entry; the entry is locked meanwhile.\<close>

partial_function (option) enum_handles ::
  "(u64 \<Rightarrow> PH_HANDLE_TABLE_ENTRY \<Rightarrow> 'c \<Rightarrow> bool \<times> 'c) \<Rightarrow> PH_HANDLE_TABLE \<Rightarrow> u32 \<Rightarrow> 'c \<Rightarrow> (PH_HANDLE_TABLE \<times> 'c) option" where
  "enum_handles Callback T handleValue ctx =
     do { r \<leftarrow> PhpLookupHandleTableEntry T handleValue;
          (case r of
             None \<Rightarrow> Some (T, ctx)
           | Some entry \<Rightarrow>
               do { (T, locked) \<leftarrow> PhLockHandleTableEntry T entry;
                    if locked then
                      do { e \<leftarrow> rd_entry T entry;
                           (let (continue, ctx) = Callback (PhpEncodeHandle handleValue) e ctx in
                            do { T \<leftarrow> PhUnlockHandleTableEntry T entry;
                                 if continue then enum_handles Callback T (handleValue + 1) ctx else Some (T, ctx) }) }
                    else enum_handles Callback T (handleValue + 1) ctx }) }"

definition PhEnumHandleTable ::
  "PH_HANDLE_TABLE \<Rightarrow> (u64 \<Rightarrow> PH_HANDLE_TABLE_ENTRY \<Rightarrow> 'c \<Rightarrow> bool \<times> 'c) \<Rightarrow> 'c \<Rightarrow> (PH_HANDLE_TABLE \<times> 'c) option" where
  "PhEnumHandleTable T Callback ctx = enum_handles Callback T 0 ctx"

partial_function (option) sweep_handles ::
  "(u64 \<Rightarrow> PH_HANDLE_TABLE_ENTRY \<Rightarrow> 'c \<Rightarrow> bool \<times> 'c) \<Rightarrow> PH_HANDLE_TABLE \<Rightarrow> u32 \<Rightarrow> 'c \<Rightarrow> 'c option" where
  "sweep_handles Callback T handleValue ctx =
     do { r \<leftarrow> PhpLookupHandleTableEntry T handleValue;
          (case r of
             None \<Rightarrow> Some ctx
           | Some entry \<Rightarrow>
               do { e \<leftarrow> rd_entry T entry;
                    if Value e AND PH_HANDLE_TABLE_ENTRY_TYPE = 0 then
                      (let (continue, ctx) = Callback (PhpEncodeHandle handleValue) e ctx in
                       if continue then sweep_handles Callback T (handleValue + 1) ctx else Some ctx)
                    else sweep_handles Callback T (handleValue + 1) ctx }) }"

definition PhSweepHandleTable ::
  "PH_HANDLE_TABLE \<Rightarrow> (u64 \<Rightarrow> PH_HANDLE_TABLE_ENTRY \<Rightarrow> 'c \<Rightarrow> bool \<times> 'c) \<Rightarrow> 'c \<Rightarrow> 'c option" where
  "PhSweepHandleTable T Callback ctx = sweep_handles Callback T 0 ctx"

text \<open>The blocks of entries in the order in which the destruction frees them; the loops stop at NULL.\<close>

definition until_null :: "'a option list \<Rightarrow> 'a list" where
  "until_null ps = map the (takeWhile (\<lambda>p. p \<noteq> None) ps)"

definition PhDestroyHandleTable :: "PH_HANDLE_TABLE \<Rightarrow> nat list" where
  "PhDestroyHandleTable T =
     (case TableValue T of
        Level0 table0 \<Rightarrow> [table0]
      | Level1 table1 \<Rightarrow> until_null table1
      | Level2 table2 \<Rightarrow> concat (map until_null (until_null table2)))"

section \<open>The levels are one table\<close>

definition level1 :: "nat \<Rightarrow> nat \<Rightarrow> nat option list" where
  "level1 lo n = map (\<lambda>j. if lo + j < n then Some (lo + j) else None) [0..<256]"

definition level2 :: "nat \<Rightarrow> nat option list option list" where
  "level2 n = map (\<lambda>i. if 256 * i < n then Some (level1 (256 * i) n) else None) [0..<256]"

text \<open>The shape that a table of n blocks has, and the tables of that shape.\<close>

definition table_shape :: "table_value \<Rightarrow> nat \<Rightarrow> bool" where
  "table_shape tv n \<longleftrightarrow>
     (case tv of
        Level0 b \<Rightarrow> b = 0 \<and> n = 1
      | Level1 t1 \<Rightarrow> t1 = level1 0 n \<and> 1 < n \<and> n \<le> 256
      | Level2 t2 \<Rightarrow> t2 = level2 n \<and> 256 < n \<and> n \<le> 65536)"

definition shaped :: "PH_HANDLE_TABLE \<Rightarrow> bool" where
  "shaped T \<longleftrightarrow>
     table_shape (TableValue T) (length (Blocks T)) \<and> unat (NextValue T) = 256 * length (Blocks T) \<and>
     (\<forall>b\<in>set (Blocks T). length b = 256)"

definition entry_at :: "PH_HANDLE_TABLE \<Rightarrow> nat \<Rightarrow> PH_HANDLE_TABLE_ENTRY" where
  "entry_at T v = Blocks T ! (v div 256) ! (v mod 256)"

definition put_entry :: "PH_HANDLE_TABLE \<Rightarrow> nat \<Rightarrow> PH_HANDLE_TABLE_ENTRY \<Rightarrow> PH_HANDLE_TABLE" where
  "put_entry T v e = T\<lparr> Blocks := (Blocks T)[v div 256 := (Blocks T ! (v div 256))[v mod 256 := e]] \<rparr>"

lemma level1_nth [simp]: "j < 256 \<Longrightarrow> level1 lo n ! j = (if lo + j < n then Some (lo + j) else None)" "length (level1 lo n) = 256"
  by (simp_all add: level1_def)

lemma level2_nth [simp]: "i < 256 \<Longrightarrow> level2 n ! i = (if 256 * i < n then Some (level1 (256 * i) n) else None)" "length (level2 n) = 256"
  by (simp_all add: level2_def)

lemma shaped_limits:
  assumes "shaped T"
  shows "1 \<le> length (Blocks T)" "length (Blocks T) \<le> 65536" "unat (NextValue T) \<le> 16777216"
  using assms by (auto simp: shaped_def table_shape_def split: table_value.splits)

lemma level_parts:
  "PH_HANDLE_VALUE_LEVEL0 v = unat v mod 256" "PH_HANDLE_VALUE_LEVEL1_U v = unat v div 256"
  "PH_HANDLE_VALUE_LEVEL1 v = unat v div 256 mod 256" "PH_HANDLE_VALUE_LEVEL2_U v = unat v div 65536"
proof -
  have m: "x AND 255 = x mod 256" for x :: u32 using take_bit_eq_mask [of 8 x] by (simp add: take_bit_eq_mod mask_eq_exp_minus_1)
  show "PH_HANDLE_VALUE_LEVEL0 v = unat v mod 256" by (simp add: PH_HANDLE_VALUE_LEVEL0_def m unat_mod)
  show "PH_HANDLE_VALUE_LEVEL1_U v = unat v div 256" by (simp add: PH_HANDLE_VALUE_LEVEL1_U_def drop_bit_eq_div unat_div)
  show "PH_HANDLE_VALUE_LEVEL1 v = unat v div 256 mod 256"
    by (simp add: PH_HANDLE_VALUE_LEVEL1_def m unat_mod drop_bit_eq_div unat_div)
  show "PH_HANDLE_VALUE_LEVEL2_U v = unat v div 65536" by (simp add: PH_HANDLE_VALUE_LEVEL2_U_def drop_bit_eq_div unat_div)
qed

lemma lookup_in:
  assumes s: "shaped T" and v: "unat v < unat (NextValue T)"
  shows "PhpLookupHandleTableEntry T v = Some (Some (unat v div 256, unat v mod 256))"
proof -
  have n: "unat v div 256 < length (Blocks T)" "\<not> NextValue T \<le> v"
    using s v by (auto simp: shaped_def word_le_nat_alt)
  show ?thesis
  proof (cases "TableValue T")
    case (Level0 b)
    then show ?thesis using s n by (auto simp: shaped_def table_shape_def PhpLookupHandleTableEntry_def)
  next
    case (Level1 t1)
    then show ?thesis using s n
      by (auto simp: shaped_def table_shape_def PhpLookupHandleTableEntry_def level_parts nth_opt_def)
  next
    case (Level2 t2)
    have d: "unat v div 65536 = unat v div 256 div 256" by (simp flip: div_mult2_eq)
    have "unat v div 65536 < 256" "256 * (unat v div 65536) < length (Blocks T)"
      "256 * (unat v div 65536) + unat v div 256 mod 256 = unat v div 256"
      using n s Level2 unfolding d by (auto simp: shaped_def table_shape_def)
    then show ?thesis using s n Level2
      by (auto simp: shaped_def table_shape_def PhpLookupHandleTableEntry_def level_parts nth_opt_def)
  qed
qed

lemma lookup_out: "unat v \<ge> unat (NextValue T) \<Longrightarrow> PhpLookupHandleTableEntry T v = Some None"
  by (simp add: PhpLookupHandleTableEntry_def word_le_nat_alt)

lemma entry_ops:
  assumes "shaped T" "v < unat (NextValue T)"
  shows "rd_entry T (v div 256, v mod 256) = Some (entry_at T v)"
    "wr_entry T (v div 256, v mod 256) e = Some (put_entry T v e)"
proof -
  have "v div 256 < length (Blocks T)" using assms by (auto simp: shaped_def)
  moreover have "length (Blocks T ! (v div 256)) = 256" using assms(1) calculation by (auto simp: shaped_def)
  ultimately show "rd_entry T (v div 256, v mod 256) = Some (entry_at T v)"
    "wr_entry T (v div 256, v mod 256) e = Some (put_entry T v e)"
    by (simp_all add: rd_entry_def wr_entry_def nth_opt_def upd_opt_def entry_at_def put_entry_def)
qed

lemma put_entry_simps [simp]:
  "htCount (put_entry T v e) = htCount T" "TableValue (put_entry T v e) = TableValue T" "FreeValue (put_entry T v e) = FreeValue T"
  "NextValue (put_entry T v e) = NextValue T" "FreeValueAlt (put_entry T v e) = FreeValueAlt T" "htFlags (put_entry T v e) = htFlags T"
  by (simp_all add: put_entry_def)

lemma put_entry_at:
  assumes "shaped T" "v < unat (NextValue T)"
  shows "shaped (put_entry T v e)"
    "w < unat (NextValue T) \<Longrightarrow> entry_at (put_entry T v e) w = (if w = v then e else entry_at T w)"
proof -
  have b: "v div 256 < length (Blocks T)" "length (Blocks T ! (v div 256)) = 256" using assms by (auto simp: shaped_def)
  show "shaped (put_entry T v e)"
    using assms b by (auto simp: shaped_def put_entry_def dest!: set_update_subset_insert [THEN subsetD])
  show "entry_at (put_entry T v e) w = (if w = v then e else entry_at T w)" if "w < unat (NextValue T)"
  proof (cases "w div 256 = v div 256")
    case True
    then have "w = v \<longleftrightarrow> w mod 256 = v mod 256" using div_mult_mod_eq [of w 256] div_mult_mod_eq [of v 256] by metis
    then show ?thesis using True b by (simp add: entry_at_def put_entry_def nth_list_update)
  next
    case False
    then show ?thesis by (auto simp: entry_at_def put_entry_def nth_list_update)
  qed
qed

text \<open>Extending the table gives the next shape.\<close>

lemma level1_extend: "lo \<le> n \<Longrightarrow> n < lo + 256 \<Longrightarrow> (level1 lo n)[n - lo := Some n] = level1 lo (Suc n)"
  by (rule nth_equalityI) (auto simp: nth_list_update)

lemma level1_full: "lo + 256 \<le> n \<Longrightarrow> level1 lo (Suc n) = level1 lo n"
  by (rule nth_equalityI) auto

lemma level1_first: "(replicate 256 None)[0 := Some n] = level1 n (Suc n)"
  by (rule nth_equalityI) (auto simp: nth_list_update)

lemma level2_extend:
  assumes "n < 65536"
  shows "level2 (Suc n) = (level2 n)[n div 256 := Some (level1 (256 * (n div 256)) (Suc n))]"
proof (rule nth_equalityI)
  show "length (level2 (Suc n)) = length ((level2 n)[n div 256 := Some (level1 (256 * (n div 256)) (Suc n))])" by simp
  fix i assume "i < length (level2 (Suc n))"
  then have i: "i < 256" by simp
  consider "i < n div 256" | "i = n div 256" | "i > n div 256" by linarith
  then show "level2 (Suc n) ! i = (level2 n)[n div 256 := Some (level1 (256 * (n div 256)) (Suc n))] ! i"
  proof cases
    case 1
    then have "256 * i + 256 \<le> n" by (metis Suc_leI add.commute less_eq_div_iff_mult_less_eq mult.commute mult_Suc zero_less_numeral)
    then show ?thesis using 1 i by (simp add: level1_full)
  next
    case 2
    then show ?thesis using i assms by (simp add: less_Suc_eq_le)
  next
    case 3
    then show ?thesis using i by (simp add: div_less_iff_less_mult)
  qed
qed

definition memory_ok :: "memory \<Rightarrow> bool" where
  "memory_ok mem \<longleftrightarrow> (case Level0Memory mem of None \<Rightarrow> True | Some junk \<Rightarrow> length junk = 256)"

definition exhausted :: "memory \<Rightarrow> bool" where
  "exhausted mem \<longleftrightarrow> Level0Memory mem = None \<or> \<not> Level1Memory mem \<or> \<not> Level2Memory mem"

lemma next_value_parts:
  assumes "shaped T"
  defines "n \<equiv> length (Blocks T)"
  shows "unat (NextValue T div 256) = n" "unat (NextValue T div 65536) = n div 256"
    "unat ((NextValue T - NextValue T div 65536 * 65536) div 256) = n mod 256"
    "unat (NextValue T + 256) = 256 * Suc n"
proof -
  have N: "unat (NextValue T) = 256 * n" and n: "n \<le> 65536" using assms shaped_limits by (auto simp: shaped_def)
  show "unat (NextValue T div 256) = n" by (simp add: unat_div N)
  have d: "256 * n div 65536 = n div 256" using div_mult2_eq [of "256 * n" 256 256] by simp
  show i: "unat (NextValue T div 65536) = n div 256" by (simp add: unat_div N d)
  have "NextValue T - NextValue T div 65536 * 65536 = NextValue T mod 65536" by (simp add: minus_div_mult_eq_mod)
  moreover have "256 * n mod 65536 div 256 = n mod 256" using mod_mult_mult1 [of 256 n 256] by simp
  ultimately show "unat ((NextValue T - NextValue T div 65536 * 65536) div 256) = n mod 256"
    by (simp add: unat_div unat_mod N)
  show "unat (NextValue T + 256) = 256 * Suc n" using n by (subst unat_add_fits) (simp_all add: N)
qed

lemma extend_at:
  assumes s: "shaped T"
  defines "n \<equiv> length (Blocks T)"
  shows "\<exists>r. extend_table mem T = Some r \<and>
    (case r of None \<Rightarrow> n = 65536 \<or> exhausted mem | Some tv \<Rightarrow> table_shape tv (Suc n))"
proof -
  note N = next_value_parts [OF s, folded n_def]
  have ts: "table_shape (TableValue T) n" using s by (simp add: shaped_def n_def)
  note lim = shaped_limits [OF s, folded n_def]
  show ?thesis
  proof (cases "TableValue T")
    case (Level0 b)
    have "(replicate 256 None)[0 := Some 0, 1 := Some 1] = level1 0 (Suc (Suc 0))"
      by (rule nth_equalityI) (auto simp: nth_list_update)
    then show ?thesis using Level0 ts
      by (auto simp: extend_table_def PhpCreateHandleTableLevel1_def table_shape_def exhausted_def simp flip: n_def)
  next
    case (Level1 t1)
    then have t1: "t1 = level1 0 n" "1 < n" "n \<le> 256" using ts by (auto simp: table_shape_def)
    show ?thesis
    proof (cases "n < 256")
      case True
      then show ?thesis using Level1 t1 N level1_extend [of 0 n]
        by (simp add: extend_table_def upd_opt_def table_shape_def flip: n_def)
    next
      case False
      then have n: "n = 256" using t1 by simp
      have "(replicate 256 None)[0 := Some (level1 0 256), 1 := Some (level1 256 257)] = level2 257"
      proof (rule nth_equalityI)
        fix i :: nat assume "i < length ((replicate 256 None)[0 := Some (level1 0 256), 1 := Some (level1 256 257)])"
        then have i: "i < 256" by simp
        consider "i = 0" | "i = 1" | "i \<ge> 2" by linarith
        then show "(replicate 256 None)[0 := Some (level1 0 256), 1 := Some (level1 256 257)] ! i = level2 257 ! i"
          by cases (use i level1_full [of 0 256] in \<open>simp_all add: nth_list_update\<close>)
      qed simp
      then show ?thesis using Level1 t1 N n level1_first [of 256]
        by (simp add: extend_table_def table_shape_def PhpCreateHandleTableLevel1_def PhpCreateHandleTableLevel2_def
            exhausted_def flip: n_def)
    qed
  next
    case (Level2 t2)
    then have t2: "t2 = level2 n" "256 < n" "n \<le> 65536" using ts by (auto simp: table_shape_def)
    show ?thesis
    proof (cases "n = 65536")
      case True
      then show ?thesis using Level2 N by (simp add: extend_table_def flip: n_def)
    next
      case False
      then have i: "n < 65536" "n div 256 < 256" using t2 by auto
      have e: "level2 (Suc n) = t2[n div 256 := Some (level1 (256 * (n div 256)) (Suc n))]"
        using level2_extend [OF i(1)] t2 by simp
      show ?thesis
      proof (cases "256 * (n div 256) < n")
        case True
        have "(level1 (256 * (n div 256)) n)[n mod 256 := Some n] = level1 (256 * (n div 256)) (Suc n)"
          using level1_extend [of "256 * (n div 256)" n] by (simp add: minus_mult_div_eq_mod)
        then show ?thesis using Level2 t2 N i e True
          by (simp add: extend_table_def nth_opt_def upd_opt_def table_shape_def Let_def flip: n_def)
      next
        case False
        then have "256 * (n div 256) = n" by (metis le_neq_implies_less mult.commute div_times_less_eq_dividend)
        then show ?thesis using Level2 t2 N i e level1_first [of n]
          by (simp add: extend_table_def nth_opt_def table_shape_def PhpCreateHandleTableLevel1_def exhausted_def Let_def flip: n_def)
      qed
    qed
  qed
qed

lemma next_free_set [simp]: "NextFreeValue (set_NextFreeValue v e) = v" "Value (set_NextFreeValue v e) = Value e"
  by (simp_all add: NextFreeValue_def set_NextFreeValue_def) (rule bit_eqI, auto simp: bit_simps)

lemma chain_block_nth:
  assumes "length junk = 256" "i < 256"
  shows "Value (chain_block junk b ! i) = 1"
    "NextFreeValue (chain_block junk b ! i) = (if i < 255 then b + of_nat (i + 1) else - 1)"
  using assms by (auto simp: chain_block_def)

lemma more_entries:
  assumes s: "shaped T" and m: "memory_ok mem"
  defines "N \<equiv> unat (NextValue T)"
  obtains T' r where "PhpAllocateMoreHandleTableEntries mem T = Some (T', r)"
    "\<not> r \<Longrightarrow> T' = T \<and> (N = 16777216 \<or> exhausted mem)"
    "r \<Longrightarrow> shaped T' \<and> unat (NextValue T') = N + 256 \<and> FreeValue T' = of_nat N \<and> htCount T' = htCount T \<and>
      FreeValueAlt T' = FreeValueAlt T \<and> htFlags T' = htFlags T \<and> (\<forall>v<N. entry_at T' v = entry_at T v) \<and>
      (\<forall>i<256. Value (entry_at T' (N + i)) = 1 \<and>
         NextFreeValue (entry_at T' (N + i)) = (if i < 255 then of_nat (N + i + 1) else FreeValue T))"
proof -
  let ?n = "length (Blocks T)"
  have Nn: "N = 256 * ?n" using s by (simp add: shaped_def N_def)
  obtain r where r: "extend_table mem T = Some r"
    "case r of None \<Rightarrow> ?n = 65536 \<or> exhausted mem | Some tv \<Rightarrow> table_shape tv (Suc ?n)" using extend_at [OF s] by blast
  show ?thesis
  proof (cases r)
    case None
    then show ?thesis using that [of T False] r Nn by (auto simp: PhpAllocateMoreHandleTableEntries_def)
  next
    case (Some tv)
    show ?thesis
    proof (cases "Level0Memory mem")
      case None
      then show ?thesis using that [of T False] r \<open>r = Some tv\<close>
        by (auto simp: PhpAllocateMoreHandleTableEntries_def PhpCreateHandleTableLevel0_def exhausted_def)
    next
      case (Some junk)
      define T1 where "T1 = T\<lparr> TableValue := tv, Blocks := Blocks T @ [chain_block junk (NextValue T)], NextValue := NextValue T + 256 \<rparr>"
      have j: "length junk = 256" using m Some by (simp add: memory_ok_def)
      have s1: "shaped T1"
        using s r \<open>r = Some tv\<close> next_value_parts(4) [OF s] by (auto simp: shaped_def T1_def chain_block_def)
      have N1: "unat (NextValue T1) = N + 256" using next_value_parts(4) [OF s] Nn by (simp add: T1_def)
      have old: "entry_at T1 v = entry_at T v" if "v < N" for v
        using that Nn by (simp add: T1_def entry_at_def nth_append less_mult_imp_div_less mult.commute)
      have new: "entry_at T1 (N + i) = chain_block junk (NextValue T) ! i" if "i < 256" for i
        using that Nn by (simp add: T1_def entry_at_def)
      let ?l = "N + 255"
      have l: "?l < unat (NextValue T1)" "?l div 256 = length (Blocks T1) - 1" "?l mod 256 = 255"
        using N1 Nn by (simp_all add: T1_def)
      note ops = entry_ops [OF s1 l(1), unfolded l(2,3)] and put = put_entry_at [OF s1 l(1)]
      define T2 where "T2 = put_entry T1 ?l (set_NextFreeValue (FreeValue T) (entry_at T1 ?l))"
      have "PhpAllocateMoreHandleTableEntries mem T = Some (T2\<lparr> FreeValue := NextValue T \<rparr>, True)"
        using r(1) \<open>r = Some tv\<close> Some ops
        by (simp add: PhpAllocateMoreHandleTableEntries_def PhpCreateHandleTableLevel0_def T2_def flip: T1_def) (simp add: T1_def)
      moreover have "shaped (T2\<lparr> FreeValue := NextValue T \<rparr>)" using put(1) by (simp add: T2_def shaped_def)
      moreover have "NextValue T = of_nat N" by (simp add: N_def)
      moreover have "entry_at (T2\<lparr> FreeValue := x \<rparr>) v = entry_at T2 v" for x v by (simp add: entry_at_def)
      moreover have "entry_at T2 v = (if v = ?l then set_NextFreeValue (FreeValue T) (entry_at T1 ?l) else entry_at T1 v)"
        if "v < N + 256" for v using put(2) that N1 by (simp add: T2_def)
      ultimately show ?thesis
        using N1 old new chain_block_nth [OF j] by (intro that [of "T2\<lparr> FreeValue := NextValue T \<rparr>" True]) (auto simp: T2_def T1_def)
    qed
  qed
qed

section \<open>The free lists\<close>

text \<open>The entries of a chain from its first value to the invalid one.\<close>

primrec chained :: "PH_HANDLE_TABLE \<Rightarrow> u32 \<Rightarrow> nat list \<Rightarrow> u32 \<Rightarrow> bool" where
  "chained T x [] end \<longleftrightarrow> x = end"
| "chained T x (v # vs) end \<longleftrightarrow> x = of_nat v \<and> chained T (NextFreeValue (entry_at T v)) vs end"

lemma chained_cong:
  "(\<And>v. v \<in> set vs \<Longrightarrow> NextFreeValue (entry_at T' v) = NextFreeValue (entry_at T v)) \<Longrightarrow>
   chained T' x vs e = chained T x vs e"
  by (induction vs arbitrary: x) auto

lemma chained_append: "chained T x (vs @ ws) e \<longleftrightarrow> (\<exists>y. chained T x vs y \<and> chained T y ws e)"
  by (induction vs arbitrary: x) auto

text \<open>The state: the handles in use with what they refer to, and the two lists of free ones.\<close>

type_synonym handle_map = "nat \<Rightarrow> (u64 \<times> u64) option"

definition entry_meaning :: "PH_HANDLE_TABLE_ENTRY \<Rightarrow> u64 \<times> u64" where
  "entry_meaning e = (drop_bit 2 (Value e), Value2 e)"

definition ht_inv :: "PH_HANDLE_TABLE \<Rightarrow> handle_map \<Rightarrow> nat list \<Rightarrow> nat list \<Rightarrow> bool" where
  "ht_inv T m fs as \<longleftrightarrow>
     shaped T \<and> chained T (FreeValue T) fs (- 1) \<and> chained T (FreeValueAlt T) as (- 1) \<and> distinct (fs @ as) \<and>
     set (fs @ as) = {v. v < unat (NextValue T) \<and> m v = None} \<and> dom m \<subseteq> {..<unat (NextValue T)} \<and>
     (\<forall>v\<in>set (fs @ as). Value (entry_at T v) = 1) \<and>
     (\<forall>v a. m v = Some a \<longrightarrow> Value (entry_at T v) AND 3 = 2 \<and> entry_meaning (entry_at T v) = a) \<and>
     htCount T = of_nat (card (dom m))"

definition ht_rep :: "PH_HANDLE_TABLE \<Rightarrow> handle_map \<Rightarrow> bool" where
  "ht_rep T m \<longleftrightarrow> (\<exists>fs as. ht_inv T m fs as)"

lemma invalid_value: "v < 16777216 \<Longrightarrow> (of_nat v :: u32) \<noteq> - 1"
proof
  assume v: "v < 16777216" "(of_nat v :: u32) = - 1"
  then have "(of_nat (v + 1) :: u32) = 0" by simp
  then have "unat (of_nat (v + 1) :: u32) = 0" by simp
  then show False using v(1) by (subst (asm) unat_of_nat_u32) simp_all
qed

lemma chained_empty: "chained T x vs (- 1) \<Longrightarrow> \<forall>v\<in>set vs. v < 16777216 \<Longrightarrow> x = - 1 \<longleftrightarrow> vs = []"
  by (cases vs) (auto simp: invalid_value)

lemma ht_invD:
  assumes "ht_inv T m fs as"
  shows "shaped T" "\<And>v. v \<in> set fs \<union> set as \<Longrightarrow> v < unat (NextValue T) \<and> m v = None" "unat (NextValue T) \<le> 16777216"
    "FreeValue T = - 1 \<longleftrightarrow> fs = []" "FreeValueAlt T = - 1 \<longleftrightarrow> as = []"
proof -
  show s: "shaped T" and in_range: "\<And>v. v \<in> set fs \<union> set as \<Longrightarrow> v < unat (NextValue T) \<and> m v = None"
    using assms by (auto simp: ht_inv_def)
  show lim: "unat (NextValue T) \<le> 16777216" using shaped_limits [OF s] by simp
  have "v < 16777216" if "v \<in> set fs \<union> set as" for v using in_range [OF that] lim by linarith
  then show "FreeValue T = - 1 \<longleftrightarrow> fs = []" "FreeValueAlt T = - 1 \<longleftrightarrow> as = []"
    using assms by (auto simp: ht_inv_def intro!: chained_empty)
qed

lemma value_of_nat: "v < 16777216 \<Longrightarrow> unat (of_nat v :: u32) = v"
  by simp

lemma lookup_nat:
  "shaped T \<Longrightarrow> v < unat (NextValue T) \<Longrightarrow> PhpLookupHandleTableEntry T (of_nat v) = Some (Some (v div 256, v mod 256))"
  using lookup_in [of T "of_nat v"] shaped_limits [of T] by simp

text \<open>Reversing a chain.\<close>

lemma reverse_chain_at:
  assumes "shaped T" "chained T x vs (- 1)" "vs \<noteq> []" "distinct (vs @ ls)" "\<forall>v\<in>set vs \<union> set ls. v < unat (NextValue T)"
    "chained T prev ls (- 1)" "ls \<noteq> [] \<longrightarrow> first = Some (last ls div 256, last ls mod 256)"
  shows "\<exists>B. let T' = T\<lparr> Blocks := B \<rparr>; a = last (rev vs @ ls) in
    reverse_chain T x prev first n = Some (T', Some (a div 256, a mod 256), of_nat (last vs), n + length vs) \<and>
    shaped T' \<and> chained T' (of_nat (last vs)) (rev vs @ ls) (- 1) \<and>
    (\<forall>v<unat (NextValue T). v \<notin> set vs \<longrightarrow> entry_at T' v = entry_at T v) \<and>
    (\<forall>v<unat (NextValue T). Value (entry_at T' v) = Value (entry_at T v))"
  using assms
proof (induction vs arbitrary: T x prev ls first n)
  case (Cons v vs)
  let ?p = "(v div 256, v mod 256)" and ?first = "if prev = - 1 then Some (v div 256, v mod 256) else first"
  let ?T = "put_entry T v (set_NextFreeValue prev (entry_at T v))" and ?next = "NextFreeValue (entry_at T v)"
  have x: "x = of_nat v" "chained T ?next vs (- 1)" using Cons.prems(2) by simp_all
  have v: "v < unat (NextValue T)" using Cons.prems(5) by simp
  note lim = shaped_limits [OF Cons.prems(1)]
  note ops = entry_ops [OF Cons.prems(1) v] and put = put_entry_at [OF Cons.prems(1) v]
  have step: "reverse_chain T x prev first n =
    (if ?next = - 1 then Some (?T, ?first, x, n + 1) else reverse_chain ?T ?next x ?first (n + 1))"
    using x(1) lookup_nat [OF Cons.prems(1) v] ops by (subst reverse_chain.simps) (simp add: Let_def)
  have rg: "\<forall>w\<in>set (v # vs) \<union> set ls. w < 16777216" using Cons.prems(5) lim(3) order_less_le_trans by blast
  have nx: "?next = - 1 \<longleftrightarrow> vs = []"
    by (rule chained_empty [OF x(2)]) (use rg in simp)
  have cT: "chained ?T y ws (- 1) = chained T y ws (- 1)" if "v \<notin> set ws" "\<forall>w\<in>set ws. w < unat (NextValue T)" for y ws
    by (rule chained_cong) (use that put(2) in auto)
  have la: "chained ?T x (v # ls) (- 1)" using x(1) put(2) [OF v] cT [of ls prev] Cons.prems(4-6) by simp
  have lst: "prev = - 1 \<longleftrightarrow> ls = []"
    by (rule chained_empty [OF Cons.prems(6)]) (use rg in simp)
  then have fi: "?first = Some (last (v # ls) div 256, last (v # ls) mod 256)" using Cons.prems(7) by auto
  show ?case
  proof (cases "vs = []")
    case True
    have T: "?T = T\<lparr> Blocks := Blocks ?T \<rparr>" by (simp add: put_entry_def)
    show ?thesis
      by (rule exI [of _ "Blocks ?T"], unfold Let_def T [symmetric])
        (use True step nx fi la put x(1) v in \<open>auto\<close>)
  next
    case False
    obtain B where B: "reverse_chain ?T ?next x ?first (n + 1) =
        Some (?T\<lparr> Blocks := B \<rparr>, Some (last (rev vs @ v # ls) div 256, last (rev vs @ v # ls) mod 256),
          of_nat (last vs), n + 1 + length vs)"
      "shaped (?T\<lparr> Blocks := B \<rparr>)" "chained (?T\<lparr> Blocks := B \<rparr>) (of_nat (last vs)) (rev vs @ v # ls) (- 1)"
      "\<forall>w<unat (NextValue T). w \<notin> set vs \<longrightarrow> entry_at (?T\<lparr> Blocks := B \<rparr>) w = entry_at ?T w"
      "\<forall>w<unat (NextValue T). Value (entry_at (?T\<lparr> Blocks := B \<rparr>) w) = Value (entry_at ?T w)"
      using Cons.IH [OF put(1) [of "set_NextFreeValue prev (entry_at T v)"], where x = ?next and ls = "v # ls" and prev = x
          and first = ?first and n = "n + 1"] False la x(2) cT [of vs ?next] Cons.prems(4,5) fi
      by (auto simp: Let_def)
    have T: "?T\<lparr> Blocks := B \<rparr> = T\<lparr> Blocks := B \<rparr>" by (simp add: put_entry_def)
    show ?thesis
      by (rule exI [of _ B]) (use B step nx False put v in \<open>auto simp: Let_def T\<close>)
  qed
qed simp

lemma ht_inv_cong:
  assumes "ht_inv T m fs as" "shaped T'" "NextValue T' = NextValue T" "htCount T' = htCount T"
    "chained T' (FreeValue T') fs' (- 1)" "chained T' (FreeValueAlt T') as' (- 1)"
    "distinct (fs' @ as')" "set (fs' @ as') = set (fs @ as)"
    "\<And>v. v < unat (NextValue T) \<Longrightarrow> Value (entry_at T' v) = Value (entry_at T v)"
    "\<And>v. v < unat (NextValue T) \<Longrightarrow> v \<notin> set (fs @ as) \<Longrightarrow> entry_at T' v = entry_at T v"
  shows "ht_inv T' m fs' as'"
proof -
  have used: "v < unat (NextValue T) \<and> v \<notin> set (fs @ as)" if "m v = Some a" for v a
    using assms(1) that by (auto simp: ht_inv_def)
  have fr: "Value (entry_at T' v) = 1" if "v \<in> set (fs' @ as')" for v
    using assms(1,8,9) that by (simp add: ht_inv_def)
  have us: "Value (entry_at T' v) AND 3 = 2 \<and> entry_meaning (entry_at T' v) = a" if "m v = Some a" for v a
    using assms(1) assms(10) [of v] used [OF that] that by (cases a) (simp add: ht_inv_def)
  have "set (fs' @ as') = {v. v < unat (NextValue T') \<and> m v = None}" "dom m \<subseteq> {..<unat (NextValue T')}"
    "htCount T' = of_nat (card (dom m))" using assms(1,3,4,8) by (simp_all add: ht_inv_def)
  then show ?thesis using assms(2,5,6,7) fr us unfolding ht_inv_def by blast
qed

lemma entry_at_upd [simp]:
  "entry_at (T\<lparr> FreeValue := x \<rparr>) v = entry_at T v" "entry_at (T\<lparr> FreeValueAlt := x \<rparr>) v = entry_at T v"
  "entry_at (T\<lparr> htCount := c \<rparr>) v = entry_at T v"
  "shaped (T\<lparr> FreeValue := x \<rparr>) = shaped T" "shaped (T\<lparr> FreeValueAlt := x \<rparr>) = shaped T" "shaped (T\<lparr> htCount := c \<rparr>) = shaped T"
  by (simp_all add: entry_at_def shaped_def)

lemma chained_upd [simp]:
  "chained (T\<lparr> FreeValue := x \<rparr>) y vs e = chained T y vs e" "chained (T\<lparr> FreeValueAlt := x \<rparr>) y vs e = chained T y vs e"
  "chained (T\<lparr> htCount := c \<rparr>) y vs e = chained T y vs e"
  by (induction vs arbitrary: y; simp)+

abbreviation strict_fifo :: "PH_HANDLE_TABLE \<Rightarrow> bool" where
  "strict_fifo T \<equiv> htFlags T AND PH_HANDLE_TABLE_STRICT_FIFO \<noteq> 0"

text \<open>Moving the second list to the first, reversed unless the shortcut takes it as it is.\<close>

lemma move_at:
  assumes i: "ht_inv T m fs as"
  shows "\<exists>T' x. PhpMoveFreeHandleTableEntries T = Some (T', x) \<and> NextValue T' = NextValue T \<and> htFlags T' = htFlags T \<and>
    ht_inv T' m (if \<not> strict_fifo T \<and> fs = [] then as else rev as @ fs) [] \<and> (x \<noteq> - 1 \<longrightarrow> x = FreeValue T')"
proof -
  note D = ht_invD [OF i]
  let ?T = "T\<lparr> FreeValueAlt := - 1 \<rparr>"
  have c: "chained T (FreeValue T) fs (- 1)" "chained T (FreeValueAlt T) as (- 1)" "distinct (fs @ as)"
    using i by (simp_all add: ht_inv_def)
  consider "as = []" | "as \<noteq> []" "\<not> strict_fifo T" "fs = []" | "as \<noteq> []" "strict_fifo T \<or> fs \<noteq> []" by blast
  then show ?thesis
  proof cases
    case 1
    have "ht_inv ?T m fs []" by (rule ht_inv_cong [OF i]) (use c D 1 in simp_all)
    then show ?thesis using 1 D(5) by (auto simp: PhpMoveFreeHandleTableEntries_def Let_def)
  next
    case 2
    have "ht_inv (?T\<lparr> FreeValue := FreeValueAlt T \<rparr>) m as []" by (rule ht_inv_cong [OF i]) (use c D 2 in simp_all)
    then show ?thesis using 2 D(4,5) by (auto simp: PhpMoveFreeHandleTableEntries_def Let_def)
  next
    case 3
    let ?a = "hd as"
    have "shaped ?T" "chained ?T (FreeValueAlt T) as (- 1)" "chained ?T (- 1) [] (- 1)" "distinct (as @ [])"
      "\<forall>v\<in>set as \<union> set []. v < unat (NextValue ?T)"
      using c D by auto
    from reverse_chain_at [OF this(1,2) 3(1) this(4,5,3), of None 0]
    obtain B where B: "reverse_chain ?T (FreeValueAlt T) (- 1) None 0 =
        Some (?T\<lparr> Blocks := B \<rparr>, Some (?a div 256, ?a mod 256), of_nat (last as), length as)"
      "shaped (?T\<lparr> Blocks := B \<rparr>)" "chained (?T\<lparr> Blocks := B \<rparr>) (of_nat (last as)) (rev as) (- 1)"
      "\<forall>v<unat (NextValue T). v \<notin> set as \<longrightarrow> entry_at (?T\<lparr> Blocks := B \<rparr>) v = entry_at T v"
      "\<forall>v<unat (NextValue T). Value (entry_at (?T\<lparr> Blocks := B \<rparr>) v) = Value (entry_at T v)"
      using 3(1) by (auto simp: Let_def last_rev)
    define T1 where "T1 = ?T\<lparr> Blocks := B \<rparr>"
    have T1: "FreeValue T1 = FreeValue T" "NextValue T1 = NextValue T" "htFlags T1 = htFlags T" "htCount T1 = htCount T" "FreeValueAlt T1 = - 1"
      by (simp_all add: T1_def)
    have s1: "shaped T1" and e1: "\<And>v. v < unat (NextValue T) \<Longrightarrow> v \<notin> set as \<Longrightarrow> entry_at T1 v = entry_at T v"
      "\<And>v. v < unat (NextValue T) \<Longrightarrow> Value (entry_at T1 v) = Value (entry_at T v)" using B by (auto simp: T1_def)
    have a: "?a < unat (NextValue T1)" "?a \<in> set as" using 3(1) D(2) T1(2) by auto
    define T2 where "T2 = put_entry T1 ?a (set_NextFreeValue (FreeValue T) (entry_at T1 ?a))"
    note ops = entry_ops [OF s1 a(1)] and put = put_entry_at [OF s1 a(1), where e = "set_NextFreeValue (FreeValue T) (entry_at T1 ?a)", folded T2_def]
    have ra: "rev as = rev (tl as) @ [?a]" using 3(1) by (cases as) simp_all
    have lt: "\<forall>v\<in>set as \<union> set fs. v < unat (NextValue T1)" using D(2) T1(2) by auto
    have "chained T1 (of_nat (last as)) (rev (tl as)) (of_nat ?a)"
      using B(3) by (simp add: ra chained_append T1_def)
    moreover have "chained T2 y (rev (tl as)) z = chained T1 y (rev (tl as)) z" for y z
    proof (rule chained_cong)
      fix v assume "v \<in> set (rev (tl as))"
      moreover have "as = ?a # tl as" "distinct as" using 3(1) c(3) by simp_all
      ultimately have "v \<noteq> ?a" "v \<in> set as" by (metis distinct.simps(2) set_rev, metis list.set_intros(2) set_rev)
      then show "NextFreeValue (entry_at T2 v) = NextFreeValue (entry_at T1 v)" using put(2) [of v] lt by simp
    qed
    moreover have "chained T2 (FreeValue T) fs (- 1)"
    proof -
      have "chained T2 (FreeValue T) fs (- 1) = chained T (FreeValue T) fs (- 1)"
      proof (rule chained_cong)
        fix v assume v: "v \<in> set fs"
        then have "v \<notin> set as" "v < unat (NextValue T)" using c(3) D(2) by auto
        then show "NextFreeValue (entry_at T2 v) = NextFreeValue (entry_at T v)" using put(2) [of v] e1(1) [of v] a T1(2) by auto
      qed
      then show ?thesis using c(1) by simp
    qed
    ultimately have ch: "chained T2 (of_nat (last as)) (rev as @ fs) (- 1)"
      using put(2) [OF a(1)] by (simp add: ra chained_append)
    have "ht_inv (T2\<lparr> FreeValue := of_nat (last as) \<rparr>) m (rev as @ fs) []"
    proof (rule ht_inv_cong [OF i])
      show "Value (entry_at (T2\<lparr> FreeValue := of_nat (last as) \<rparr>) v) = Value (entry_at T v)" if "v < unat (NextValue T)" for v
        using put(2) [of v] e1(2) [of v] that T1(2) by auto
      show "entry_at (T2\<lparr> FreeValue := of_nat (last as) \<rparr>) v = entry_at T v"
        if "v < unat (NextValue T)" "v \<notin> set (fs @ as)" for v
        using put(2) [of v] e1(1) [of v] that T1(2) a by auto
    qed (use ch put(1) T1 c in \<open>auto simp: T2_def\<close>)
    moreover have "PhpMoveFreeHandleTableEntries T = Some (T2\<lparr> FreeValue := of_nat (last as) \<rparr>,
        if strict_fifo T \<and> length as < 64 then - 1 else of_nat (last as))"
      using 3 D(4,5) B(1) ops T1 unfolding T2_def
      by (auto simp: PhpMoveFreeHandleTableEntries_def Let_def simp flip: T1_def)
    ultimately show ?thesis using T1 3 by (auto simp: T2_def)
  qed
qed

text \<open>New entries.\<close>

lemma chained_upt:
  assumes "\<forall>i<256. NextFreeValue (entry_at T (N + i)) = (if i < 255 then of_nat (N + i + 1) else y)" "j < 256"
  shows "chained T (of_nat (N + j)) [N + j..<N + 256] y"
  using assms(2)
proof (induction "255 - j" arbitrary: j)
  case 0
  then have j: "j = 255" by simp
  have "[N + 255..<N + 256] = [N + 255]" by (simp add: upt_rec)
  then show ?case using assms(1) j by simp
next
  case (Suc k)
  have "[N + j..<N + 256] = (N + j) # [N + (j + 1)..<N + 256]" using Suc.prems by (simp add: upt_rec [of "N + j"])
  moreover have "chained T (of_nat (N + (j + 1))) [N + (j + 1)..<N + 256] y"
    using Suc.hyps(2) by (intro Suc.hyps(1)) simp_all
  moreover have "j < 255" using Suc.hyps(2) by simp
  ultimately show ?case using assms(1) by (simp add: add.assoc)
qed

lemma more_inv:
  assumes i: "ht_inv T m fs as" and "memory_ok mem"
  obtains T' r where "PhpAllocateMoreHandleTableEntries mem T = Some (T', r)"
    "\<not> r \<Longrightarrow> T' = T \<and> (unat (NextValue T) = 16777216 \<or> exhausted mem)"
    "r \<Longrightarrow> ht_inv T' m ([unat (NextValue T)..<unat (NextValue T) + 256] @ fs) as"
proof -
  note D = ht_invD [OF i]
  let ?N = "unat (NextValue T)"
  obtain T' r where r: "PhpAllocateMoreHandleTableEntries mem T = Some (T', r)"
    "\<not> r \<Longrightarrow> T' = T \<and> (?N = 16777216 \<or> exhausted mem)"
    "r \<Longrightarrow> shaped T' \<and> unat (NextValue T') = ?N + 256 \<and> FreeValue T' = of_nat ?N \<and> htCount T' = htCount T \<and>
      FreeValueAlt T' = FreeValueAlt T \<and> htFlags T' = htFlags T \<and> (\<forall>v<?N. entry_at T' v = entry_at T v) \<and>
      (\<forall>i<256. Value (entry_at T' (?N + i)) = 1 \<and>
         NextFreeValue (entry_at T' (?N + i)) = (if i < 255 then of_nat (?N + i + 1) else FreeValue T))"
    using more_entries [OF D(1) assms(2)] by blast
  have "ht_inv T' m ([?N..<?N + 256] @ fs) as" if r
  proof -
    note R = r(3) [OF that]
    have low: "v < ?N" if "v \<in> set fs \<union> set as" for v using D(2) that by blast
    have cT: "chained T' y vs (- 1) = chained T y vs (- 1)" if "set vs \<subseteq> set fs \<union> set as" for y vs
      by (rule chained_cong) (use that low R in \<open>auto simp: subset_eq\<close>)
    have "chained T' (of_nat ?N) [?N..<?N + 256] (FreeValue T)" using chained_upt [of T' ?N "FreeValue T" 0] R by simp
    moreover have "chained T' (FreeValue T) fs (- 1)" "chained T' (FreeValueAlt T) as (- 1)"
      using i cT [OF Un_upper1] cT [OF Un_upper2] unfolding ht_inv_def by blast+
    ultimately have ch: "chained T' (FreeValue T') ([?N..<?N + 256] @ fs) (- 1)" "chained T' (FreeValueAlt T') as (- 1)"
      using R by (auto simp only: chained_append)
    have dom: "dom m \<subseteq> {..<?N}" using i by (simp add: ht_inv_def)
    then have none: "m v = None" if "v \<ge> ?N" for v using that by (meson domIff lessThan_iff linorder_not_le subsetD)
    have "set ([?N..<?N + 256] @ fs @ as) = {v. v < unat (NextValue T') \<and> m v = None}"
      using i R none by (auto simp: ht_inv_def)
    moreover have "distinct (([?N..<?N + 256] @ fs) @ as)" using i low by (force simp: ht_inv_def)
    moreover have "Value (entry_at T' v) = 1" if "v \<in> set (([?N..<?N + 256] @ fs) @ as)" for v
    proof (cases "v < ?N")
      case True
      then show ?thesis using that i R by (auto simp: ht_inv_def)
    next
      case False
      then have "v < ?N + 256" using that low by fastforce
      then show ?thesis using R False by (metis add_diff_inverse_nat nat_add_left_cancel_less)
    qed
    moreover have "Value (entry_at T' v) AND 3 = 2 \<and> entry_meaning (entry_at T' v) = a" if "m v = Some a" for v a
      using i R that none by (cases a) (auto simp: ht_inv_def intro: leI)
    moreover have "dom m \<subseteq> {..<unat (NextValue T')}" "htCount T' = of_nat (card (dom m))" using dom R i by (auto simp: ht_inv_def)
    ultimately show ?thesis using R ch unfolding ht_inv_def by auto
  qed
  then show ?thesis using that r(1,2) by blast
qed

text \<open>A free entry is found unless all handles are in use and no more can be had.\<close>

lemma refill_at:
  assumes i: "ht_inv T m fs as" and "memory_ok mem"
  shows "\<exists>T' r fs' as'. refill mem T = Some (T', r) \<and> ht_inv T' m fs' as' \<and>
    (case r of
       None \<Rightarrow> (\<forall>v<unat (NextValue T). m v \<noteq> None) \<and> (unat (NextValue T) = 16777216 \<or> exhausted mem)
     | Some x \<Rightarrow> fs' \<noteq> [] \<and> x = FreeValue T')"
proof (cases "fs = []")
  case False
  then have "refill mem T = Some (T, Some (FreeValue T))" using ht_invD(4) [OF i] by (subst refill.simps) simp
  then show ?thesis using i False by fastforce
next
  case True
  note D = ht_invD [OF i]
  obtain T1 x fs1 where mv: "PhpMoveFreeHandleTableEntries T = Some (T1, x)" "NextValue T1 = NextValue T"
    "ht_inv T1 m fs1 []" "x \<noteq> - 1 \<longrightarrow> x = FreeValue T1" using move_at [OF i] by blast
  note D1 = ht_invD [OF mv(3)]
  have step: "refill mem T = (if x \<noteq> - 1 then Some (T1, Some x)
     else do { (T, result) \<leftarrow> PhpAllocateMoreHandleTableEntries mem T1;
               if \<not> result \<and> FreeValue T = - 1 then Some (T, None) else refill mem T })"
    using True D(4) mv(1) by (subst refill.simps) simp
  show ?thesis
  proof (cases "x = - 1")
    case False
    then show ?thesis using step mv D1(4) by fastforce
  next
    case x: True
    obtain T2 r where r: "PhpAllocateMoreHandleTableEntries mem T1 = Some (T2, r)"
      "\<not> r \<Longrightarrow> T2 = T1 \<and> (unat (NextValue T1) = 16777216 \<or> exhausted mem)"
      "r \<Longrightarrow> ht_inv T2 m ([unat (NextValue T1)..<unat (NextValue T1) + 256] @ fs1) []"
      using more_inv [OF mv(3) assms(2)] by blast
    show ?thesis
    proof (cases r)
      case True
      let ?fs = "[unat (NextValue T1)..<unat (NextValue T1) + 256] @ fs1"
      have "?fs \<noteq> []" by simp
      then have "FreeValue T2 \<noteq> - 1" using ht_invD(4) [OF r(3) [OF True]] by simp
      then have "refill mem T = Some (T2, Some (FreeValue T2))"
        using step x r(1) True by (simp add: refill.simps [of mem T2])
      then show ?thesis using r(3) [OF True] \<open>?fs \<noteq> []\<close> by fastforce
    next
      case False
      then have T2: "T2 = T1" using r(2) by simp
      show ?thesis
      proof (cases "fs1 = []")
        case True
        then have "set [] = {v. v < unat (NextValue T1) \<and> m v = None}" using mv(3) by (simp add: ht_inv_def)
        then have "\<forall>v<unat (NextValue T). m v \<noteq> None" using mv(2) by auto
        moreover have "refill mem T = Some (T1, None)" using step x r(1) False T2 D1(4) True by simp
        ultimately show ?thesis using mv(2,3) r(2) [OF False] True by fastforce
      next
        case False
        then have "FreeValue T1 \<noteq> - 1" using D1(4) by simp
        then have "refill mem T = Some (T1, Some (FreeValue T1))"
          using step x r(1) T2 by (simp add: refill.simps [of mem T1])
        then show ?thesis using mv(3) False by fastforce
      qed
    qed
  qed
qed

section \<open>The operations on the map of handles\<close>

lemma small_bits:
  "bit (1 :: u64) n \<longleftrightarrow> n = 0" "bit (2 :: u64) n \<longleftrightarrow> n = 1" "bit (3 :: u64) n \<longleftrightarrow> n < 2" "bit (- 4 :: u64) n \<longleftrightarrow> 2 \<le> n \<and> n < 64"
proof -
  show "bit (1 :: u64) n \<longleftrightarrow> n = 0" by (simp add: bit_1_iff)
  show "bit (2 :: u64) n \<longleftrightarrow> n = 1" using bit_exp_iff [where m = 1 and n = n and 'a = "64 word"] by auto
  have m: "bit (mask 2 :: u64) n \<longleftrightarrow> n < 2" using bit_mask_iff [where m = 2 and n = n and 'a = "64 word"] by auto
  have 3: "(3 :: u64) = mask 2" by (simp add: mask_eq_exp_minus_1)
  show "bit (3 :: u64) n \<longleftrightarrow> n < 2" using m unfolding 3 .
  have "(- 4 :: u64) = NOT 3" by simp
  then show "bit (- 4 :: u64) n \<longleftrightarrow> 2 \<le> n \<and> n < 64" using m unfolding 3 by (simp only: bit_not_iff) auto
qed

lemma unlocked_bits:
  assumes "x AND 3 = (2 :: u64)"
  shows "x AND 1 = 0" "x AND 2 = 2" "(x - 2) OR 2 = x" "drop_bit 2 (x - 2) = drop_bit 2 x"
    "x - 2 = push_bit 2 (drop_bit 2 x)" "x = push_bit 2 (drop_bit 2 x) OR 2"
proof -
  have "bit (x AND 3) 0 = bit (2 :: u64) 0" "bit (x AND 3) 1 = bit (2 :: u64) 1" using assms by simp_all
  then have b: "\<not> bit x 0" "bit x 1" by (simp_all add: bit_and_iff small_bits)
  show "x AND 1 = 0" by (rule bit_eqI) (use b in \<open>auto simp add: bit_and_iff small_bits intro: gr0I simp del: bit_numeral_word_iff bit_neg_numeral_word_iff\<close>)
  show 2: "x AND 2 = 2" by (rule bit_eqI) (use b in \<open>auto simp add: bit_and_iff small_bits simp del: bit_numeral_word_iff bit_neg_numeral_word_iff\<close>)
  have d: "x - 2 = x AND NOT 2" by (rule disjunctive_diff_eq_and_not, rule bit_eqI)
    (use b in \<open>auto simp add: bit_and_iff bit_not_iff small_bits simp del: bit_numeral_word_iff bit_neg_numeral_word_iff\<close>)
  show "(x - 2) OR 2 = x"
    unfolding d by (rule bit_eqI, simp only: bit_drop_bit_eq comp_def bit_and_iff bit_or_iff bit_not_iff small_bits) (use b in \<open>auto dest: bit_imp_le_length\<close>)
  show "drop_bit 2 (x - 2) = drop_bit 2 x"
    unfolding d by (rule bit_eqI, simp only: bit_drop_bit_eq comp_def bit_and_iff bit_or_iff bit_not_iff small_bits) (auto dest: bit_imp_le_length)
  have "take_bit 2 x = 2" using assms by (simp add: take_bit_eq_mask mask_eq_exp_minus_1)
  then have "push_bit 2 (drop_bit 2 x) + 2 = x" using bits_ident [of 2 x] by simp
  then show p: "x - 2 = push_bit 2 (drop_bit 2 x)" by (metis add_diff_cancel_right')
  show "x = push_bit 2 (drop_bit 2 x) OR 2" using \<open>(x - 2) OR 2 = x\<close> by (simp add: p)
qed

lemma new_value_bits:
  "(((1 AND 2) OR (x AND NOT 3)) OR 2) AND 3 = (2 :: u64)" 
  "drop_bit 2 (((1 AND 2) OR (x AND NOT 3)) OR 2) = drop_bit 2 (x :: u64)"
  by (rule bit_eqI, simp only: bit_drop_bit_eq comp_def bit_and_iff bit_or_iff bit_not_iff small_bits, (auto dest: bit_imp_le_length)[1])+

lemma put_put: "shaped T \<Longrightarrow> v < unat (NextValue T) \<Longrightarrow> put_entry (put_entry T v e) v e' = put_entry T v e'"
  by (simp add: put_entry_def shaped_def)

lemma put_same: "shaped T \<Longrightarrow> v < unat (NextValue T) \<Longrightarrow> put_entry T v (entry_at T v) = T"
  by (simp add: put_entry_def entry_at_def)

lemma put_entry_reads:
  assumes "shaped T" "v < unat (NextValue T)"
  shows "rd_entry (put_entry T v e) (v div 256, v mod 256) = Some e"
    "wr_entry (put_entry T v e) (v div 256, v mod 256) e' = Some (put_entry T v e')"
  using entry_ops [OF put_entry_at(1) [OF assms], of v e] put_entry_at(2) [OF assms assms(2), of e] put_put [OF assms] assms(2)
  by simp_all

lemma encode_decode_word: "unat x < 2 ^ 30 \<Longrightarrow> PhpDecodeHandle (PhpEncodeHandle x) = x"
proof -
  assume x: "unat x < 2 ^ 30"
  then have "unat (push_bit 2 x :: u32) = 4 * unat x" by (simp add: push_bit_eq_mult unat_mult_fits)
  then show ?thesis
    by (simp add: PhpDecodeHandle_def PhpEncodeHandle_def drop_bit_eq_div word_eq_unat unat_div)
qed

lemma encode_decode: "v < 16777216 \<Longrightarrow> unat (PhpDecodeHandle (PhpEncodeHandle (of_nat v))) = v"
  by (simp add: encode_decode_word)

lemma encode_not_null: "v < 16777216 \<Longrightarrow> PhpEncodeHandle (of_nat v) \<noteq> 0"
proof
  assume v: "v < 16777216" and 0: "PhpEncodeHandle (of_nat v) = 0"
  have p: "unat (push_bit 2 (of_nat v) :: u32) = 4 * v" using v by (simp add: push_bit_eq_mult unat_mult_fits)
  have "unat (push_bit 2 (of_nat v) + 4 :: u32) = 4 * v + 4" using v p by (subst unat_add_fits) simp_all
  then have "unat (PhpEncodeHandle (of_nat v)) = 4 * v + 4" by (simp add: PhpEncodeHandle_def)
  then show False using 0 by simp
qed

text \<open>A free entry that is taken from the first list.\<close>

lemma take_free:
  assumes i: "ht_inv T m (v # fs) as" and e: "Value e AND 3 = 2"
  shows "ht_inv (put_entry (T\<lparr> FreeValue := NextFreeValue (entry_at T v), htCount := htCount T + 1 \<rparr>) v e) (m(v \<mapsto> entry_meaning e)) fs as"
    (is "ht_inv ?T' ?m fs as")
proof -
  note D = ht_invD [OF i]
  have v: "v < unat (NextValue T)" "m v = None" using D(2) by auto
  let ?T = "T\<lparr> FreeValue := NextFreeValue (entry_at T v), htCount := htCount T + 1 \<rparr>"
  have s: "shaped ?T" using D(1) by (simp add: shaped_def)
  have v': "v < unat (NextValue ?T)" using v by simp
  note put = put_entry_at [OF s v', where e = e]
  have at: "entry_at ?T' w = (if w = v then e else entry_at T w)" if "w < unat (NextValue T)" for w
    using put(2) [of w] that by (simp add: entry_at_def)
  have low: "w < unat (NextValue T) \<and> w \<noteq> v" if "w \<in> set fs \<union> set as" for w
    using D(2) [of w] that i by (auto simp: ht_inv_def)
  have c: "chained ?T' y ws (- 1) = chained T y ws (- 1)" if "set ws \<subseteq> set fs \<union> set as" for y ws
    by (rule chained_cong) (use that low at in \<open>auto simp: subset_eq\<close>)
  have dom: "dom m \<subseteq> {..<unat (NextValue T)}" "finite (dom m)" using i by (auto simp: ht_inv_def intro: finite_subset)
  have "chained ?T' (FreeValue ?T') fs (- 1)" "chained ?T' (FreeValueAlt ?T') as (- 1)"
    using i c [OF Un_upper1] c [OF Un_upper2] by (auto simp: ht_inv_def)
  moreover have "set (fs @ as) = {w. w < unat (NextValue ?T') \<and> ?m w = None}"
    using i v by (auto simp: ht_inv_def)
  moreover have "Value (entry_at ?T' w) = 1" if "w \<in> set (fs @ as)" for w
    using i low [of w] at [of w] that by (auto simp: ht_inv_def)
  moreover have "Value (entry_at ?T' w) AND 3 = 2 \<and> entry_meaning (entry_at ?T' w) = a" if "?m w = Some a" for w a
  proof (cases "w = v")
    case True
    then show ?thesis using at v e that by auto
  next
    case False
    then have "m w = Some a" "w < unat (NextValue T)" using that dom by auto
    then show ?thesis using i at False by (cases a) (auto simp: ht_inv_def)
  qed
  moreover have "dom ?m \<subseteq> {..<unat (NextValue ?T')}" using dom v by auto
  moreover have "htCount ?T' = of_nat (card (dom ?m))" using i v(2) dom(2) by (simp add: ht_inv_def card_insert_if domIff)
  moreover have "distinct (fs @ as)" using i by (simp add: ht_inv_def)
  ultimately show ?thesis using put(1) unfolding ht_inv_def by auto
qed

text \<open>An entry in use that is pushed onto one of the lists.\<close>

lemma push_free:
  assumes i: "ht_inv T m fs as" and m: "m v = Some a"
    and T': "T' = put_entry (T\<lparr> htCount := htCount T - 1 \<rparr>) v e" "Value e = 1"
  shows "NextFreeValue e = FreeValue T \<Longrightarrow> ht_inv (T'\<lparr> FreeValue := of_nat v \<rparr>) (m(v := None)) (v # fs) as"
    "NextFreeValue e = FreeValueAlt T \<Longrightarrow> ht_inv (T'\<lparr> FreeValueAlt := of_nat v \<rparr>) (m(v := None)) fs (v # as)"
proof -
  note D = ht_invD [OF i]
  have dom: "dom m \<subseteq> {..<unat (NextValue T)}" "finite (dom m)" using i by (auto simp: ht_inv_def intro: finite_subset)
  have v: "v < unat (NextValue T)" "v \<notin> set fs \<union> set as" using m dom D(2) [of v] by auto
  let ?T = "T\<lparr> htCount := htCount T - 1 \<rparr>" and ?m = "m(v := None)"
  have s: "shaped ?T" "v < unat (NextValue ?T)" using D(1) v by simp_all
  note put = put_entry_at [OF s, where e = e, folded T'(1)]
  have at: "entry_at T' w = (if w = v then e else entry_at T w)" if "w < unat (NextValue T)" for w
    using put(2) [of w] that by simp
  have low: "w < unat (NextValue T) \<and> w \<noteq> v" if "w \<in> set fs \<union> set as" for w using D(2) [OF that] v(2) that by auto
  have c: "chained T' y ws (- 1) = chained T y ws (- 1)" if "set ws \<subseteq> set fs \<union> set as" for y ws
    by (rule chained_cong) (use that low at in \<open>auto simp: subset_eq\<close>)
  have cf: "chained T' (FreeValue T) fs (- 1)" "chained T' (FreeValueAlt T) as (- 1)"
    using i c [OF Un_upper1] c [OF Un_upper2] by (auto simp: ht_inv_def)
  have sets: "insert v (set fs \<union> set as) = {w. w < unat (NextValue T) \<and> ?m w = None}"
    using i v by (auto simp: ht_inv_def)
  have free: "Value (entry_at T' w) = 1" if "w \<in> insert v (set fs \<union> set as)" for w
  proof (cases "w = v")
    case False
    then show ?thesis using i low [of w] at [of w] that by (auto simp: ht_inv_def)
  qed (use at v T' in simp)
  have used: "Value (entry_at T' w) AND 3 = 2 \<and> entry_meaning (entry_at T' w) = b" if "?m w = Some b" for w b
  proof -
    have "m w = Some b" "w \<noteq> v" "w < unat (NextValue T)" using that dom by (auto split: if_split_asm)
    then show ?thesis using i at by (cases b) (auto simp: ht_inv_def)
  qed
  have "0 < card (dom m)" using m dom(2) by (auto simp: card_gt_0_iff)
  then have "(of_nat (card (dom m) - 1) :: u32) = of_nat (card (dom m)) - 1" by (simp add: of_nat_diff)
  then have count: "htCount T' = of_nat (card (dom ?m))"
    using i m dom(2) by (simp add: T'(1) ht_inv_def card_Diff_singleton domI)
  have same: "NextValue T' = NextValue T" "FreeValue T' = FreeValue T" "FreeValueAlt T' = FreeValueAlt T" by (simp_all add: T'(1))
  have dis: "distinct (v # fs @ as)" using i v by (simp add: ht_inv_def)
  have dm: "dom ?m \<subseteq> {..<unat (NextValue T)}" using dom by auto
  show "ht_inv (T'\<lparr> FreeValue := of_nat v \<rparr>) ?m (v # fs) as" if "NextFreeValue e = FreeValue T"
    using put(1) cf sets free used count same dis dm at [OF v(1)] that unfolding ht_inv_def by auto
  show "ht_inv (T'\<lparr> FreeValueAlt := of_nat v \<rparr>) ?m fs (v # as)" if "NextFreeValue e = FreeValueAlt T"
    using put(1) cf sets free used count same dis dm at [OF v(1)] that unfolding ht_inv_def by auto
qed

lemma create_at:
  assumes "ht_rep T m" and "memory_ok mem"
  shows "\<exists>T' h. PhCreateHandle mem T E = Some (T', h) \<and>
    (h = 0 \<and> ht_rep T' m \<and> (\<forall>v<unat (NextValue T). m v \<noteq> None) \<and> (unat (NextValue T) = 16777216 \<or> exhausted mem) \<or>
     h \<noteq> 0 \<and> unat (PhpDecodeHandle h) < 16777216 \<and> m (unat (PhpDecodeHandle h)) = None \<and>
       ht_rep T' (m(unat (PhpDecodeHandle h) \<mapsto> entry_meaning E)))"
proof -
  obtain fs as where i: "ht_inv T m fs as" using assms(1) by (auto simp: ht_rep_def)
  obtain T1 r fs1 as1 where r: "refill mem T = Some (T1, r)" "ht_inv T1 m fs1 as1"
    "case r of None \<Rightarrow> (\<forall>v<unat (NextValue T). m v \<noteq> None) \<and> (unat (NextValue T) = 16777216 \<or> exhausted mem)
     | Some x \<Rightarrow> fs1 \<noteq> [] \<and> x = FreeValue T1" using refill_at [OF i assms(2)] by blast
  show ?thesis
  proof (cases r)
    case None
    then have "PhCreateHandle mem T E = Some (T1, 0)" using r(1) by (simp add: PhCreateHandle_def PhpAllocateHandleTableEntry_def)
    then show ?thesis using r(2,3) None by (auto simp: ht_rep_def)
  next
    case (Some x)
    then obtain v fs2 where fs1: "fs1 = v # fs2" "x = FreeValue T1" using r(3) by (cases fs1) auto
    note D = ht_invD [OF r(2)]
    have v: "v < unat (NextValue T1)" "m v = None" "v < 16777216" using D(2) [of v] D(3) fs1 by auto
    have x: "x = of_nat v" "Value (entry_at T1 v) = 1" using r(2) fs1 by (simp_all add: ht_inv_def)
    define T2 where "T2 = T1\<lparr> FreeValue := NextFreeValue (entry_at T1 v), htCount := htCount T1 + 1 \<rparr>"
    have s2: "shaped T2" "v < unat (NextValue T2)" "entry_at T2 v = entry_at T1 v" using D(1) v by (simp_all add: T2_def)
    let ?e = "\<lparr> Value = ((1 AND 2) OR (Value E AND NOT 3)) OR 2, Value2 = Value2 E \<rparr>"
    have "PhpAllocateHandleTableEntry mem T = Some (T2, Some ((v div 256, v mod 256), of_nat v))"
      using r(1) Some x lookup_nat [OF D(1) v(1)] entry_ops(1) [OF D(1) v(1)]
      by (simp add: PhpAllocateHandleTableEntry_def T2_def)
    then have "PhCreateHandle mem T E = Some (put_entry T2 v ?e, PhpEncodeHandle (of_nat v))"
      using entry_ops [OF s2(1,2)] put_entry_reads [OF s2(1,2)] s2(3) x(2)
      by (simp add: PhCreateHandle_def PhUnlockHandleTableEntry_def)
    moreover have "ht_inv (put_entry T2 v ?e) (m(v \<mapsto> entry_meaning ?e)) fs2 as1"
      unfolding T2_def by (rule take_free) (use r(2) fs1 new_value_bits in simp_all)
    moreover have "entry_meaning ?e = entry_meaning E" using new_value_bits(2) [of "Value E"] by (simp add: entry_meaning_def)
    ultimately show ?thesis using encode_decode [OF v(3)] encode_not_null [OF v(3)] v(2,3) by (auto simp: ht_rep_def)
  qed
qed

text \<open>An entry as the holder of its lock sees it.\<close>

definition locked_entry :: "u64 \<times> u64 \<Rightarrow> PH_HANDLE_TABLE_ENTRY" where
  "locked_entry a = \<lparr> Value = push_bit 2 (fst a), Value2 = snd a \<rparr>"

lemma lock_at:
  assumes i: "ht_inv T m fs as" and v: "v < unat (NextValue T)"
  shows "case m v of
      None \<Rightarrow> PhLockHandleTableEntry T (v div 256, v mod 256) = Some (T, False) \<and> Value (entry_at T v) AND 1 = 1
    | Some a \<Rightarrow>
        PhLockHandleTableEntry T (v div 256, v mod 256) = Some (put_entry T v (locked_entry a), True) \<and>
        rd_entry (put_entry T v (locked_entry a)) (v div 256, v mod 256) = Some (locked_entry a) \<and>
        PhUnlockHandleTableEntry (put_entry T v (locked_entry a)) (v div 256, v mod 256) = Some T \<and>
        entry_meaning (locked_entry a) = a \<and>
        entry_at T v = \<lparr> Value = push_bit 2 (fst a) OR 2, Value2 = snd a \<rparr> \<and> Value (entry_at T v) AND 1 = 0"
proof -
  note D = ht_invD [OF i]
  note ops = entry_ops [OF D(1) v] and reads = put_entry_reads [OF D(1) v]
  show ?thesis
  proof (cases "m v")
    case None
    then have "v \<in> set (fs @ as)" using i v by (simp add: ht_inv_def)
    then have "Value (entry_at T v) = 1" using i unfolding ht_inv_def by blast
    then show ?thesis using None ops by (simp add: PhLockHandleTableEntry_def)
  next
    case (Some a)
    then have e: "Value (entry_at T v) AND 3 = 2" "entry_meaning (entry_at T v) = a"
      using i by (cases a; simp add: ht_inv_def)+
    note bits = unlocked_bits [OF e(1)]
    have a: "fst a = drop_bit 2 (Value (entry_at T v))" "snd a = Value2 (entry_at T v)" using e(2) by (auto simp: entry_meaning_def)
    have le: "locked_entry a = (entry_at T v)\<lparr> Value := Value (entry_at T v) - 2 \<rparr>"
      using a bits(5) by (simp add: locked_entry_def)
    have shown: "entry_at T v = \<lparr> Value = push_bit 2 (fst a) OR 2, Value2 = snd a \<rparr>"
      using a bits(6) by (cases "entry_at T v") simp
    have "(entry_at T v)\<lparr> Value := Value (entry_at T v) - 2 OR 2 \<rparr> = entry_at T v" using bits(3) by simp
    then have "PhUnlockHandleTableEntry (put_entry T v (locked_entry a)) (v div 256, v mod 256) = Some T"
      using reads put_same [OF D(1) v] by (simp add: PhUnlockHandleTableEntry_def le)
    moreover have "entry_meaning (locked_entry a) = a" using e(2) bits(4) by (simp add: le entry_meaning_def)
    ultimately show ?thesis using Some ops reads bits shown by (simp add: PhLockHandleTableEntry_def le)
  qed
qed

lemma lookup_at:
  assumes "ht_rep T m"
  shows "case m (unat (PhpDecodeHandle h)) of
      None \<Rightarrow> PhLookupHandleTableEntry T h = Some (T, None)
    | Some a \<Rightarrow> let v = unat (PhpDecodeHandle h); p = (v div 256, v mod 256); T' = put_entry T v (locked_entry a) in
        PhLookupHandleTableEntry T h = Some (T', Some p) \<and> rd_entry T' p = Some (locked_entry a) \<and>
        entry_meaning (locked_entry a) = a \<and> PhUnlockHandleTableEntry T' p = Some T"
proof -
  obtain fs as where i: "ht_inv T m fs as" using assms by (auto simp: ht_rep_def)
  note D = ht_invD [OF i]
  define v where "v = unat (PhpDecodeHandle h)"
  have dom: "dom m \<subseteq> {..<unat (NextValue T)}" using i by (auto simp: ht_inv_def)
  show ?thesis
  proof (cases "v < unat (NextValue T)")
    case False
    then have "m v = None" using dom by auto
    then show ?thesis using False lookup_out [of T "PhpDecodeHandle h"]
      by (simp add: PhLookupHandleTableEntry_def flip: v_def)
  next
    case True
    have lk: "PhpLookupHandleTableEntry T (PhpDecodeHandle h) = Some (Some (v div 256, v mod 256))"
      using lookup_in [OF D(1), of "PhpDecodeHandle h"] True by (simp add: v_def)
    show ?thesis using lock_at [OF i True] lk
      by (auto simp: PhLookupHandleTableEntry_def Let_def simp flip: v_def split: option.splits)
  qed
qed

lemma destroy_at:
  assumes "ht_rep T m"
  shows "case m (unat (PhpDecodeHandle h)) of
      None \<Rightarrow> PhDestroyHandle acquired T h None = Some (T, False)
    | Some a \<Rightarrow> \<exists>T'. PhDestroyHandle acquired T h None = Some (T', True) \<and> ht_rep T' (m(unat (PhpDecodeHandle h) := None))"
proof -
  obtain fs as where i: "ht_inv T m fs as" using assms by (auto simp: ht_rep_def)
  note D = ht_invD [OF i]
  define v where "v = unat (PhpDecodeHandle h)"
  let ?p = "(v div 256, v mod 256)"
  show ?thesis
  proof (cases "m v")
    case None
    then show ?thesis using lookup_at [OF assms, of h] by (simp add: PhDestroyHandle_def flip: v_def)
  next
    case (Some a)
    define e where "e = locked_entry a"
    have e: "PhLookupHandleTableEntry T h = Some (put_entry T v e, Some ?p)"
      using lookup_at [OF assms, of h] Some by (simp add: Let_def e_def flip: v_def)
    have v: "v < unat (NextValue T)" "PhpDecodeHandle h = of_nat v"
      using i Some by (auto simp: ht_inv_def v_def)
    define T0 where "T0 = T\<lparr> htCount := htCount T - 1 \<rparr>"
    have s0: "shaped T0" "v < unat (NextValue T0)" using D(1) v by (simp_all add: T0_def)
    have put0: "(put_entry T v x)\<lparr> htCount := htCount T - 1 \<rparr> = put_entry T0 v x" for x by (simp add: put_entry_def T0_def)
    have fl: "FreeValue T0 = FreeValue T" "FreeValueAlt T0 = FreeValueAlt T" "htFlags T0 = htFlags T" by (simp_all add: T0_def)
    let ?free = "\<lambda>n. set_NextFreeValue n (e\<lparr> Value := 1 \<rparr>)"
    have d: "PhDestroyHandle acquired T h None = Some
      (if htFlags T AND 1 = 0 \<and> acquired then (put_entry T0 v (?free (FreeValue T)))\<lparr> FreeValue := of_nat v \<rparr>
       else (put_entry T0 v (?free (FreeValueAlt T)))\<lparr> FreeValueAlt := of_nat v \<rparr>, True)"
      using e put_entry_reads [OF D(1) v(1)] put_entry_reads [OF s0] v(2) fl
      by (simp add: PhDestroyHandle_def PhpFreeHandleTableEntry_def Let_def put0)
    have "ht_inv ((put_entry T0 v (?free (FreeValue T)))\<lparr> FreeValue := of_nat v \<rparr>) (m(v := None)) (v # fs) as"
      by (rule push_free(1) [OF i Some, where e = "?free (FreeValue T)"]) (simp_all add: T0_def)
    moreover have "ht_inv ((put_entry T0 v (?free (FreeValueAlt T)))\<lparr> FreeValueAlt := of_nat v \<rparr>) (m(v := None)) fs (v # as)"
      by (rule push_free(2) [OF i Some, where e = "?free (FreeValueAlt T)"]) (simp_all add: T0_def)
    ultimately show ?thesis using d Some by (auto simp: ht_rep_def simp flip: v_def)
  qed
qed

lemma empty_at:
  assumes "memory_ok mem"
  shows "case PhCreateHandleTable mem of None \<Rightarrow> Level0Memory mem = None | Some T \<Rightarrow> ht_rep T Map.empty"
proof (cases "Level0Memory mem")
  case None
  then show ?thesis by (simp add: PhCreateHandleTable_def PhpCreateHandleTableLevel0_def)
next
  case (Some junk)
  then have j: "length junk = 256" using assms by (simp add: memory_ok_def)
  define T where "T = \<lparr> htCount = 0, TableValue = Level0 0, FreeValue = 0, NextValue = 256, FreeValueAlt = - 1,
    htFlags = 0, Blocks = [chain_block junk 0] \<rparr>"
  have at: "entry_at T v = chain_block junk 0 ! v" if "v < 256" for v using that by (simp add: T_def entry_at_def)
  have "chained T (of_nat 0) [0..<0 + 256] (- 1)"
    using chained_upt [of T 0 "- 1" 0] at chain_block_nth [OF j] by simp
  then have "ht_inv T Map.empty [0..<256] []"
    using at chain_block_nth [OF j] by (auto simp: ht_inv_def T_def shaped_def table_shape_def chain_block_def)
  then show ?thesis using Some
    by (auto simp: PhCreateHandleTable_def PhpCreateHandleTableLevel0_def ht_rep_def T_def)
qed

section \<open>Enumeration and destruction\<close>

text \<open>The callback is shown handles with their entries in turn until it declines.\<close>

primrec show_handles ::
  "(u64 \<Rightarrow> PH_HANDLE_TABLE_ENTRY \<Rightarrow> 'c \<Rightarrow> bool \<times> 'c) \<Rightarrow> (nat \<Rightarrow> PH_HANDLE_TABLE_ENTRY) \<Rightarrow> nat list \<Rightarrow> 'c \<Rightarrow> 'c" where
  "show_handles cb entry [] ctx = ctx"
| "show_handles cb entry (v # vs) ctx =
     (case cb (PhpEncodeHandle (of_nat v)) (entry v) ctx of (continue, ctx) \<Rightarrow>
        if continue then show_handles cb entry vs ctx else ctx)"

definition in_use :: "PH_HANDLE_TABLE \<Rightarrow> handle_map \<Rightarrow> nat \<Rightarrow> nat list" where
  "in_use T m v = filter (\<lambda>v. m v \<noteq> None) [v..<unat (NextValue T)]"

lemma in_use_step: "v < unat (NextValue T) \<Longrightarrow> in_use T m v = (if m v = None then in_use T m (Suc v) else v # in_use T m (Suc v))"
  by (simp add: in_use_def upt_conv_Cons)

lemma enum_handles_at:
  assumes i: "ht_inv T m fs as"
  shows "v \<le> unat (NextValue T) \<Longrightarrow> enum_handles cb T (of_nat v) ctx =
    Some (T, show_handles cb (\<lambda>v. locked_entry (the (m v))) (in_use T m v) ctx)"
proof (induction "unat (NextValue T) - v" arbitrary: v ctx)
  case 0
  note D = ht_invD [OF i]
  have "PhpLookupHandleTableEntry T (of_nat v) = Some None" by (rule lookup_out) (use 0 D(3) in simp)
  then show ?case using 0 by (subst enum_handles.simps) (simp add: in_use_def)
next
  case (Suc n)
  note D = ht_invD [OF i]
  have v: "v < unat (NextValue T)" using Suc.hyps(2) by simp
  have IH: "enum_handles cb T (of_nat v + 1) c = Some (T, show_handles cb (\<lambda>v. locked_entry (the (m v))) (in_use T m (Suc v)) c)" for c
    using Suc.hyps(1) [of "Suc v" c] Suc.hyps(2) v by (simp add: add.commute)
  show ?case
  proof (cases "m v")
    case None
    then show ?thesis using lock_at [OF i v] lookup_nat [OF D(1) v] IH
      by (subst enum_handles.simps) (simp add: in_use_step [OF v])
  next
    case (Some a)
    then show ?thesis using lock_at [OF i v] lookup_nat [OF D(1) v] IH
      by (subst enum_handles.simps) (simp add: in_use_step [OF v] split: prod.split)
  qed
qed

lemma sweep_handles_at:
  assumes i: "ht_inv T m fs as"
  shows "v \<le> unat (NextValue T) \<Longrightarrow> sweep_handles cb T (of_nat v) ctx =
    Some (show_handles cb (entry_at T) (in_use T m v) ctx)"
proof (induction "unat (NextValue T) - v" arbitrary: v ctx)
  case 0
  note D = ht_invD [OF i]
  have "PhpLookupHandleTableEntry T (of_nat v) = Some None" by (rule lookup_out) (use 0 D(3) in simp)
  then show ?case using 0 by (subst sweep_handles.simps) (simp add: in_use_def)
next
  case (Suc n)
  note D = ht_invD [OF i]
  have v: "v < unat (NextValue T)" using Suc.hyps(2) by simp
  have IH: "sweep_handles cb T (of_nat v + 1) c = Some (show_handles cb (entry_at T) (in_use T m (Suc v)) c)" for c
    using Suc.hyps(1) [of "Suc v" c] Suc.hyps(2) v by (simp add: add.commute)
  show ?case
    using lock_at [OF i v] lookup_nat [OF D(1) v] IH entry_ops(1) [OF D(1) v]
    by (subst sweep_handles.simps) (auto simp: in_use_step [OF v] split: prod.split option.splits)
qed

lemma until_null_prefix: "until_null (map Some xs @ replicate k None) = xs"
proof -
  have "takeWhile (\<lambda>p. p \<noteq> None) (map Some xs @ replicate k None) = map Some xs"
    by (subst takeWhile_append2) (auto simp: takeWhile_eq_Nil_iff hd_replicate)
  then show ?thesis by (simp add: until_null_def comp_def)
qed

lemma until_null_level1: "lo \<le> n \<Longrightarrow> until_null (level1 lo n) = [lo..<min n (lo + 256)]"
proof -
  assume lo: "lo \<le> n"
  have "level1 lo n = map Some [lo..<min n (lo + 256)] @ replicate (256 - (min n (lo + 256) - lo)) None"
    by (rule nth_equalityI) (use lo in \<open>auto simp: nth_append min_def split: if_split_asm\<close>)
  then show ?thesis by (simp only: until_null_prefix)
qed

lemma concat_ranges: "concat (map (\<lambda>i. [256 * i..<min n (256 * i + 256)]) [0..<k]) = [0..<min n (256 * k)]"
proof (induction k)
  case (Suc k)
  show ?case
  proof (cases "n \<le> 256 * k")
    case False
    then have "[0..<min n (256 * Suc k)] = [0..<256 * k] @ [256 * k..<min n (256 * Suc k)]"
      using upt_add_eq_append [of 0 "256 * k" "min n (256 * Suc k) - 256 * k"] by simp
    then show ?thesis using Suc False by (simp add: min_def add.commute)
  qed (use Suc in \<open>simp add: min_def\<close>)
qed simp

lemma last_part: "256 * i < n \<longleftrightarrow> i < (n + 255) div (256 :: nat)"
proof -
  have "i < (n + 255) div 256 \<longleftrightarrow> Suc i * 256 \<le> n + 255"
    using less_eq_div_iff_mult_less_eq [of 256 "Suc i" "n + 255"] by (simp add: Suc_le_eq)
  then show ?thesis by auto
qed

lemma until_null_level2: "n \<le> 65536 \<Longrightarrow> until_null (level2 n) = map (\<lambda>i. level1 (256 * i) n) [0..<(n + 255) div 256]"
proof -
  assume n: "n \<le> 65536"
  have "level2 n = map Some (map (\<lambda>i. level1 (256 * i) n) [0..<(n + 255) div 256]) @ replicate (256 - (n + 255) div 256) None"
    by (rule nth_equalityI) (use n in \<open>auto simp: nth_append last_part\<close>)
  then show ?thesis by (simp only: until_null_prefix)
qed

lemma destroy_table_at: "shaped T \<Longrightarrow> PhDestroyHandleTable T = [0..<length (Blocks T)]"
proof -
  assume "shaped T"
  then have s: "table_shape (TableValue T) (length (Blocks T))" by (simp add: shaped_def)
  show ?thesis
  proof (cases "TableValue T")
    case (Level2 t2)
    let ?n = "length (Blocks T)"
    have t2: "t2 = level2 ?n" "?n \<le> 65536" using s Level2 by (auto simp: table_shape_def)
    have le: "256 * i \<le> ?n" if "i < (?n + 255) div 256" for i using that last_part [of i ?n] by simp
    have "map until_null (until_null t2) = map (\<lambda>i. [256 * i..<min ?n (256 * i + 256)]) [0..<(?n + 255) div 256]"
      using t2 until_null_level2 [OF t2(2)] by (auto intro!: until_null_level1 le)
    moreover have "min ?n (256 * ((?n + 255) div 256)) = ?n" using last_part [of "(?n + 255) div 256" ?n] by simp
    ultimately show ?thesis using Level2 by (simp add: PhDestroyHandleTable_def concat_ranges)
  next
    case (Level1 t1)
    then show ?thesis using s until_null_level1 [of 0 "length (Blocks T)"]
      by (auto simp: PhDestroyHandleTable_def table_shape_def min_def)
  qed (use s in \<open>auto simp: PhDestroyHandleTable_def table_shape_def\<close>)
qed

section \<open>Information\<close>

datatype PH_HANDLE_TABLE_INFORMATION_CLASS =
  HandleTableBasicInformation | HandleTableFlagsInformation | MaxHandleTableInfoClass

abbreviation PH_HANDLE_TABLE_VALID_FLAGS :: u32 where "PH_HANDLE_TABLE_VALID_FLAGS \<equiv> 1"

text \<open>What is written to the buffer (Count, Flags and TableLevel, or Flags alone), the status, and the length.\<close>

definition table_level :: "table_value \<Rightarrow> u32" where
  "table_level tv = (case tv of Level0 _ \<Rightarrow> 0 | Level1 _ \<Rightarrow> 1 | Level2 _ \<Rightarrow> 2)"

definition PhQueryInformationHandleTable ::
  "PH_HANDLE_TABLE \<Rightarrow> PH_HANDLE_TABLE_INFORMATION_CLASS \<Rightarrow> u32 \<Rightarrow> u32 list \<times> ntstatus \<times> u32" where
  "PhQueryInformationHandleTable T InformationClass BufferLength =
     (case InformationClass of
        HandleTableBasicInformation \<Rightarrow>
          if BufferLength = 12 then ([htCount T, htFlags T, table_level (TableValue T)], STATUS_SUCCESS, 12)
          else ([], STATUS_INFO_LENGTH_MISMATCH, 12)
      | HandleTableFlagsInformation \<Rightarrow>
          if BufferLength = 4 then ([htFlags T], STATUS_SUCCESS, 4) else ([], STATUS_INFO_LENGTH_MISMATCH, 4)
      | MaxHandleTableInfoClass \<Rightarrow> ([], STATUS_INVALID_INFO_CLASS, 0))"

definition PhSetInformationHandleTable ::
  "PH_HANDLE_TABLE \<Rightarrow> PH_HANDLE_TABLE_INFORMATION_CLASS \<Rightarrow> u32 \<Rightarrow> u32 \<Rightarrow> PH_HANDLE_TABLE \<times> ntstatus" where
  "PhSetInformationHandleTable T InformationClass flags BufferLength =
     (case InformationClass of
        HandleTableFlagsInformation \<Rightarrow>
          if BufferLength = 4 then
            if flags AND PH_HANDLE_TABLE_VALID_FLAGS = flags then (T\<lparr> htFlags := flags \<rparr>, STATUS_SUCCESS)
            else (T, STATUS_INVALID_PARAMETER)
          else (T, STATUS_INFO_LENGTH_MISMATCH)
      | _ \<Rightarrow> (T, STATUS_INVALID_INFO_CLASS))"

lemma flags_at: "ht_rep (T\<lparr> htFlags := x \<rparr>) m = ht_rep T m"
proof -
  have "entry_at (T\<lparr> htFlags := x \<rparr>) = entry_at T" by (simp add: entry_at_def fun_eq_iff)
  moreover have "chained (T\<lparr> htFlags := x \<rparr>) y vs e = chained T y vs e" for y vs e
    by (rule chained_cong) (simp add: calculation)
  ultimately show ?thesis by (simp add: ht_rep_def ht_inv_def shaped_def)
qed

section \<open>The handle table keeps the contract of handles\<close>

text \<open>The values of handles have 30 bits; what an entry means has 62 bits, and an insertion needs memory and room.\<close>

definition ht_values :: "PH_HANDLE_TABLE \<Rightarrow> (30 word \<Rightarrow> (u64 \<times> u64) option) \<Rightarrow> bool" where
  "ht_values T f \<longleftrightarrow> (\<exists>m. ht_rep T m \<and> f = (\<lambda>v. m (unat v)))"

definition ht_fits :: "u64 \<times> u64 \<Rightarrow> bool" where
  "ht_fits a \<longleftrightarrow> drop_bit 2 (push_bit 2 (fst a)) = fst a"

definition ht_room :: "memory \<Rightarrow> PH_HANDLE_TABLE \<Rightarrow> bool" where
  "ht_room mem T \<longleftrightarrow> memory_ok mem \<and> \<not> exhausted mem \<and> unat (NextValue T) < 16777216"

definition ht_insert :: "memory \<Rightarrow> PH_HANDLE_TABLE \<Rightarrow> u64 \<times> u64 \<Rightarrow> fault + (30 word \<times> PH_HANDLE_TABLE)" where
  "ht_insert mem T a =
     (case PhCreateHandle mem T (locked_entry a) of
        None \<Rightarrow> Inl OutOfBounds
      | Some (T', h) \<Rightarrow> Inr (ucast (PhpDecodeHandle h), T'))"

definition ht_lookup :: "PH_HANDLE_TABLE \<Rightarrow> 30 word \<Rightarrow> fault + (u64 \<times> u64) option" where
  "ht_lookup T v =
     (case PhLookupHandleTableEntry T (PhpEncodeHandle (ucast v)) of
        None \<Rightarrow> Inl OutOfBounds
      | Some (T', None) \<Rightarrow> Inr None
      | Some (T', Some p) \<Rightarrow> (case rd_entry T' p of None \<Rightarrow> Inl OutOfBounds | Some e \<Rightarrow> Inr (Some (entry_meaning e))))"

definition ht_delete :: "bool \<Rightarrow> PH_HANDLE_TABLE \<Rightarrow> 30 word \<Rightarrow> fault + PH_HANDLE_TABLE" where
  "ht_delete acquired T v =
     (case PhDestroyHandle acquired T (PhpEncodeHandle (ucast v)) None of
        None \<Rightarrow> Inl OutOfBounds
      | Some (T', _) \<Rightarrow> Inr T')"

lemma value_30: "unat (ucast (PhpDecodeHandle h) :: 30 word) = unat (PhpDecodeHandle h)"
proof -
  have "unat (PhpDecodeHandle h) < 2 ^ 30"
    using unat_lt_u32 [of "ucast h - 4 :: u32"] by (simp add: PhpDecodeHandle_def drop_bit_eq_div unat_div less_mult_imp_div_less)
  then show ?thesis by (simp add: unsigned_ucast_eq take_bit_nat_eq_self)
qed

lemma decode_30: "unat (PhpDecodeHandle (PhpEncodeHandle (ucast (v :: 30 word)))) = unat v"
proof -
  have v: "unat v < 2 ^ 30" using unsigned_less [of v, where 'a = nat] by simp
  then have "unat (ucast v :: u32) = unat v" by (simp add: unsigned_ucast_eq take_bit_nat_eq_self)
  then show ?thesis using v by (simp add: encode_decode_word)
qed

lemma update_30: "(\<lambda>v :: 30 word. m (unat v))(w := x) = (\<lambda>v. (m(unat w := x)) (unat v))"
  by (auto simp: fun_eq_iff word_eq_unat)

interpretation handles: handle_table ht_values ht_fits "ht_room mem" "ht_insert mem" ht_lookup "ht_delete acquired"
  for mem acquired
proof unfold_locales
  fix T f and a :: "u64 \<times> u64"
  assume a: "ht_values T f" "ht_fits a" "ht_room mem T"
  obtain m where m: "ht_rep T m" "f = (\<lambda>v. m (unat v))" using a(1) by (auto simp: ht_values_def)
  have "entry_meaning (locked_entry a) = a" using a(2) by (simp add: ht_fits_def entry_meaning_def locked_entry_def)
  moreover obtain T' h where h: "PhCreateHandle mem T (locked_entry a) = Some (T', h)" "m (unat (PhpDecodeHandle h)) = None"
    "ht_rep T' (m(unat (PhpDecodeHandle h) \<mapsto> entry_meaning (locked_entry a)))"
    using create_at [OF m(1), of mem "locked_entry a"] a(3) by (auto simp: ht_room_def)
  ultimately show "\<exists>h T'. ht_insert mem T a = Inr (h, T') \<and> f h = None \<and> ht_values T' (f(h \<mapsto> a))"
    by (auto simp: ht_insert_def ht_values_def m(2) update_30 value_30)
next
  fix T f h assume "ht_values T f"
  then obtain m where m: "ht_rep T m" "f = (\<lambda>v. m (unat v))" by (auto simp: ht_values_def)
  show "ht_lookup T h = Inr (f h)"
    using lookup_at [OF m(1), of "PhpEncodeHandle (ucast h)"]
    by (auto simp: ht_lookup_def m(2) decode_30 Let_def split: option.splits)
next
  fix T f h assume a: "ht_values T f" "f h \<noteq> None"
  then obtain m where m: "ht_rep T m" "f = (\<lambda>v. m (unat v))" by (auto simp: ht_values_def)
  show "\<exists>T'. ht_delete acquired T h = Inr T' \<and> ht_values T' (f(h := None))"
    using destroy_at [OF m(1), of acquired "PhpEncodeHandle (ucast h)"] a(2)
    by (auto simp: ht_delete_def m(2) decode_30 update_30 ht_values_def split: option.splits)
qed

section \<open>Properties\<close>

definition plenty :: memory where
  "plenty = \<lparr> Level0Memory = Some (replicate 256 \<lparr> Value = 0, Value2 = 0 \<rparr>), Level1Memory = True, Level2Memory = True \<rparr>"

lemma plenty: "memory_ok plenty" "\<not> exhausted plenty"
  by (simp_all add: memory_ok_def exhausted_def plenty_def)

lemma plenty_table: "\<exists>T. PhCreateHandleTable plenty = Some T \<and> ht_rep T Map.empty"
  using empty_at [OF plenty(1)] by (auto simp: plenty_def split: option.splits)

text \<open>
  C6: a handle table maps its handles to the entries they were created with. Creating a handle gives
  one that was not in use, or NULL; looking up any 64-bit value returns the locked entry if it is a
  handle in use, and unlocking restores the table; destroying frees exactly that handle. What the
  table held before stays, through the growth of the table to two and three levels and with either
  choice of the free list.
\<close>

theorem handle_table_is_map:
  assumes "ht_rep T m" and "memory_ok mem"
  shows "(\<exists>T' h. PhCreateHandle mem T E = Some (T', h) \<and>
      (h = 0 \<and> ht_rep T' m \<or>
       h \<noteq> 0 \<and> m (unat (PhpDecodeHandle h)) = None \<and> ht_rep T' (m(unat (PhpDecodeHandle h) \<mapsto> entry_meaning E)))) \<and>
    (case m (unat (PhpDecodeHandle h)) of
       None \<Rightarrow> PhLookupHandleTableEntry T h = Some (T, None) \<and> PhDestroyHandle acquired T h None = Some (T, False)
     | Some a \<Rightarrow>
         (\<exists>T' p. PhLookupHandleTableEntry T h = Some (T', Some p) \<and> rd_entry T' p = Some (locked_entry a) \<and>
            entry_meaning (locked_entry a) = a \<and> PhUnlockHandleTableEntry T' p = Some T) \<and>
         (\<exists>T'. PhDestroyHandle acquired T h None = Some (T', True) \<and> ht_rep T' (m(unat (PhpDecodeHandle h) := None))))"
proof (intro conjI)
  show "\<exists>T' h. PhCreateHandle mem T E = Some (T', h) \<and>
      (h = 0 \<and> ht_rep T' m \<or>
       h \<noteq> 0 \<and> m (unat (PhpDecodeHandle h)) = None \<and> ht_rep T' (m(unat (PhpDecodeHandle h) \<mapsto> entry_meaning E)))"
    using create_at [OF assms] by blast
qed (use lookup_at [OF assms(1), of h] destroy_at [OF assms(1), of acquired h] in \<open>auto simp: Let_def split: option.splits\<close>)

theorem handle_table_is_map_witness:
  "\<exists>T T' h. PhCreateHandleTable plenty = Some T \<and> PhLookupHandleTableEntry T 4 = Some (T, None) \<and>
     PhCreateHandle plenty T \<lparr> Value = 16, Value2 = 5 \<rparr> = Some (T', h) \<and>
     (h = 0 \<and> ht_rep T' Map.empty \<or> h \<noteq> 0 \<and> ht_rep T' [unat (PhpDecodeHandle h) \<mapsto> (4, 5)])"
proof -
  obtain T where T: "PhCreateHandleTable plenty = Some T" "ht_rep T Map.empty" using plenty_table by blast
  have "entry_meaning \<lparr> Value = 16, Value2 = 5 \<rparr> = (4, 5)" by (simp add: entry_meaning_def)
  then show ?thesis
    using handle_table_is_map [OF T(2) plenty(1), of "\<lparr> Value = 16, Value2 = 5 \<rparr>" 4 True] T(1) by (auto simp del: One_nat_def)
qed

text \<open>
  C34: the enumeration and the sweep return, and show the callback exactly the handles in use, in
  ascending order, until it declines; the enumeration locks each entry meanwhile and leaves the table
  as it was. The destruction of the table frees every block of entries once.
\<close>

theorem handle_enumeration:
  assumes "ht_rep T m"
  shows "PhEnumHandleTable T cb ctx = Some (T, show_handles cb (\<lambda>v. locked_entry (the (m v))) (in_use T m 0) ctx) \<and>
    PhSweepHandleTable T cb ctx = Some (show_handles cb (entry_at T) (in_use T m 0) ctx) \<and>
    set (in_use T m 0) = dom m \<and> sorted (in_use T m 0) \<and>
    PhDestroyHandleTable T = [0..<length (Blocks T)]"
proof -
  obtain fs as where i: "ht_inv T m fs as" using assms by (auto simp: ht_rep_def)
  have "set (in_use T m 0) = dom m" using i by (auto simp: in_use_def ht_inv_def)
  moreover have "sorted (in_use T m 0)" by (simp add: in_use_def sorted_wrt_filter)
  ultimately show ?thesis
    using enum_handles_at [OF i, where v = 0 and cb = cb and ctx = ctx] sweep_handles_at [OF i, where v = 0 and cb = cb and ctx = ctx]
       destroy_table_at [OF ht_invD(1) [OF i]]
    by (simp add: PhEnumHandleTable_def PhSweepHandleTable_def)
qed

theorem handle_enumeration_witness:
  "\<exists>T. PhCreateHandleTable plenty = Some T \<and> PhEnumHandleTable T (\<lambda>h e n. (True, Suc n)) 0 = Some (T, 0) \<and>
     PhDestroyHandleTable T = [0]"
proof -
  obtain T where T: "PhCreateHandleTable plenty = Some T" "ht_rep T Map.empty" using plenty_table by blast
  have "in_use T Map.empty 0 = []" by (simp add: in_use_def)
  moreover have "length (Blocks T) = 1"
    using T(1) by (auto simp: PhCreateHandleTable_def PhpCreateHandleTableLevel0_def plenty_def)
  ultimately show ?thesis using handle_enumeration [OF T(2), of "\<lambda>h e n. (True, Suc n)" 0] T(1) by auto
qed

text \<open>
  C33: the table holds 16,777,216 handles. Creating a handle fails, with NULL and without changing
  what the table holds, if that many are in use, and only then while memory lasts.
\<close>

theorem handle_limit:
  assumes "ht_rep T m" and "memory_ok mem" and "\<not> exhausted mem"
  shows "\<exists>T' h. PhCreateHandle mem T E = Some (T', h) \<and> (h = 0 \<longleftrightarrow> {..<2 ^ 24} \<subseteq> dom m) \<and> (h = 0 \<longrightarrow> ht_rep T' m)"
proof -
  obtain T' h where h: "PhCreateHandle mem T E = Some (T', h)"
    "h = 0 \<and> ht_rep T' m \<and> (\<forall>v<unat (NextValue T). m v \<noteq> None) \<and> (unat (NextValue T) = 16777216 \<or> exhausted mem) \<or>
     h \<noteq> 0 \<and> unat (PhpDecodeHandle h) < 16777216 \<and> m (unat (PhpDecodeHandle h)) = None \<and>
     ht_rep T' (m(unat (PhpDecodeHandle h) \<mapsto> entry_meaning E))"
    using create_at [OF assms(1,2)] by metis
  have "{..<2 ^ 24} \<subseteq> dom m" if "h = 0" using h(2) that assms(3) by (auto simp: domIff)
  moreover have "h = 0" if "{..<2 ^ 24} \<subseteq> dom m" proof -
    have "m (unat (PhpDecodeHandle h)) \<noteq> None" if "unat (PhpDecodeHandle h) < 16777216"
      using \<open>{..<2 ^ 24} \<subseteq> dom m\<close> that by (simp add: subset_eq domIff)
    then show ?thesis using h(2) by metis
  qed
  ultimately show ?thesis using h by blast
qed

theorem handle_limit_witness:
  "\<exists>T T' h. PhCreateHandleTable plenty = Some T \<and> PhCreateHandle plenty T \<lparr> Value = 16, Value2 = 5 \<rparr> = Some (T', h) \<and> h \<noteq> 0"
proof -
  obtain T where T: "PhCreateHandleTable plenty = Some T" "ht_rep T Map.empty" using plenty_table by blast
  show ?thesis using handle_limit [OF T(2) plenty, of "\<lparr> Value = 16, Value2 = 5 \<rparr>"] T(1) by (auto simp: subset_eq dest: spec [of _ 0])
qed

end
