(* ===== verification/ProcessState.thy ===== *)
theory ProcessState
  imports TE_Prelude
begin

text \<open>
  What the driver knows about a process and how far it trusts it:
  ProcessHacker/KSystemInformer/cid_tracking.c (\<open>KphGetProcessState\<close>), protection.c (the evaluation
  of a process, \<open>KphpVerifyProcessAndProtect\<close> and \<open>KphGetProtectionState\<close>) and lsa.c (which process
  is lsass). The clients of the driver and the rights to protected processes depend on these states.
\<close>

section \<open>The states\<close>

definition KPH_PROCESS_SECURELY_CREATED :: u32 where "KPH_PROCESS_SECURELY_CREATED = 0x001"
definition KPH_PROCESS_VERIFIED_PROCESS :: u32 where "KPH_PROCESS_VERIFIED_PROCESS = 0x002"
definition KPH_PROCESS_PROTECTED_PROCESS :: u32 where "KPH_PROCESS_PROTECTED_PROCESS = 0x004"
definition KPH_PROCESS_NO_UNTRUSTED_IMAGES :: u32 where "KPH_PROCESS_NO_UNTRUSTED_IMAGES = 0x008"
definition KPH_PROCESS_HAS_FILE_OBJECT :: u32 where "KPH_PROCESS_HAS_FILE_OBJECT = 0x010"
definition KPH_PROCESS_HAS_SECTION_OBJECT_POINTERS :: u32 where
  "KPH_PROCESS_HAS_SECTION_OBJECT_POINTERS = 0x020"
definition KPH_PROCESS_NO_USER_WRITABLE_REFERENCES :: u32 where
  "KPH_PROCESS_NO_USER_WRITABLE_REFERENCES = 0x040"
definition KPH_PROCESS_NO_FILE_TRANSACTION :: u32 where "KPH_PROCESS_NO_FILE_TRANSACTION = 0x080"
definition KPH_PROCESS_NOT_BEING_DEBUGGED :: u32 where "KPH_PROCESS_NOT_BEING_DEBUGGED = 0x100"
definition KPH_PROCESS_NO_WRITABLE_FILE_OBJECT :: u32 where
  "KPH_PROCESS_NO_WRITABLE_FILE_OBJECT = 0x200"
definition KPH_PROCESS_CREATE_NOTIFICATION :: u32 where "KPH_PROCESS_CREATE_NOTIFICATION = 0x400"

lemmas process_state_bits =
  KPH_PROCESS_SECURELY_CREATED_def KPH_PROCESS_VERIFIED_PROCESS_def
  KPH_PROCESS_PROTECTED_PROCESS_def KPH_PROCESS_NO_UNTRUSTED_IMAGES_def
  KPH_PROCESS_HAS_FILE_OBJECT_def KPH_PROCESS_HAS_SECTION_OBJECT_POINTERS_def
  KPH_PROCESS_NO_USER_WRITABLE_REFERENCES_def KPH_PROCESS_NO_FILE_TRANSACTION_def
  KPH_PROCESS_NOT_BEING_DEBUGGED_def KPH_PROCESS_NO_WRITABLE_FILE_OBJECT_def
  KPH_PROCESS_CREATE_NOTIFICATION_def

definition KPH_PROCESS_STATE_MINIMUM :: u32 where
  "KPH_PROCESS_STATE_MINIMUM =
     KPH_PROCESS_HAS_FILE_OBJECT OR KPH_PROCESS_HAS_SECTION_OBJECT_POINTERS OR
     KPH_PROCESS_NO_USER_WRITABLE_REFERENCES OR KPH_PROCESS_NO_FILE_TRANSACTION OR
     KPH_PROCESS_NO_WRITABLE_FILE_OBJECT"

definition KPH_PROCESS_STATE_LOW :: u32 where
  "KPH_PROCESS_STATE_LOW =
     KPH_PROCESS_VERIFIED_PROCESS OR
     KPH_PROCESS_HAS_FILE_OBJECT OR KPH_PROCESS_HAS_SECTION_OBJECT_POINTERS OR
     KPH_PROCESS_NO_USER_WRITABLE_REFERENCES OR KPH_PROCESS_NO_FILE_TRANSACTION OR
     KPH_PROCESS_NO_WRITABLE_FILE_OBJECT"

definition KPH_PROCESS_STATE_MEDIUM :: u32 where
  "KPH_PROCESS_STATE_MEDIUM =
     KPH_PROCESS_VERIFIED_PROCESS OR KPH_PROCESS_PROTECTED_PROCESS OR
     KPH_PROCESS_HAS_FILE_OBJECT OR KPH_PROCESS_HAS_SECTION_OBJECT_POINTERS OR
     KPH_PROCESS_NO_USER_WRITABLE_REFERENCES OR KPH_PROCESS_NO_FILE_TRANSACTION OR
     KPH_PROCESS_NO_WRITABLE_FILE_OBJECT"

definition KPH_PROCESS_STATE_HIGH :: u32 where
  "KPH_PROCESS_STATE_HIGH =
     KPH_PROCESS_VERIFIED_PROCESS OR KPH_PROCESS_PROTECTED_PROCESS OR
     KPH_PROCESS_NO_UNTRUSTED_IMAGES OR
     KPH_PROCESS_HAS_FILE_OBJECT OR KPH_PROCESS_HAS_SECTION_OBJECT_POINTERS OR
     KPH_PROCESS_NO_USER_WRITABLE_REFERENCES OR KPH_PROCESS_NO_FILE_TRANSACTION OR
     KPH_PROCESS_NOT_BEING_DEBUGGED OR KPH_PROCESS_NO_WRITABLE_FILE_OBJECT OR
     KPH_PROCESS_CREATE_NOTIFICATION"

definition KPH_PROCESS_STATE_MAXIMUM :: u32 where
  "KPH_PROCESS_STATE_MAXIMUM =
     KPH_PROCESS_SECURELY_CREATED OR
     KPH_PROCESS_VERIFIED_PROCESS OR KPH_PROCESS_PROTECTED_PROCESS OR
     KPH_PROCESS_NO_UNTRUSTED_IMAGES OR
     KPH_PROCESS_HAS_FILE_OBJECT OR KPH_PROCESS_HAS_SECTION_OBJECT_POINTERS OR
     KPH_PROCESS_NO_USER_WRITABLE_REFERENCES OR KPH_PROCESS_NO_FILE_TRANSACTION OR
     KPH_PROCESS_NOT_BEING_DEBUGGED OR KPH_PROCESS_NO_WRITABLE_FILE_OBJECT OR
     KPH_PROCESS_CREATE_NOTIFICATION"

lemmas process_state_levels =
  KPH_PROCESS_STATE_MINIMUM_def KPH_PROCESS_STATE_LOW_def KPH_PROCESS_STATE_MEDIUM_def
  KPH_PROCESS_STATE_HIGH_def KPH_PROCESS_STATE_MAXIMUM_def

definition KPH_PROTECTION_NONE :: u32 where "KPH_PROTECTION_NONE = 0x00"
definition KPH_PROTECTION_PENDING :: u32 where "KPH_PROTECTION_PENDING = 0x01"
definition KPH_PROTECTION_VERIFIED :: u32 where "KPH_PROTECTION_VERIFIED = 0x02"
definition KPH_PROTECTION_UNTRUSTED :: u32 where "KPH_PROTECTION_UNTRUSTED = 0x04"
definition KPH_PROTECTION_ACTIVE :: u32 where "KPH_PROTECTION_ACTIVE = 0x08"
definition KPH_PROTECTION_TCB :: u32 where "KPH_PROTECTION_TCB = 0x10"

lemmas protection_bits =
  KPH_PROTECTION_NONE_def KPH_PROTECTION_PENDING_def KPH_PROTECTION_VERIFIED_def
  KPH_PROTECTION_UNTRUSTED_def KPH_PROTECTION_ACTIVE_def KPH_PROTECTION_TCB_def

text \<open>The macros for flags, and the test of a process state.\<close>

definition FlagOn :: "u32 \<Rightarrow> u32 \<Rightarrow> bool" where "FlagOn x f = (x AND f \<noteq> 0)"
definition SetFlag :: "u32 \<Rightarrow> u32 \<Rightarrow> u32" where "SetFlag x f = x OR f"
definition ClearFlag :: "u32 \<Rightarrow> u32 \<Rightarrow> u32" where "ClearFlag x f = x AND NOT f"

lemmas flag_ops = FlagOn_def SetFlag_def ClearFlag_def

definition KphTestProcessState :: "u32 \<Rightarrow> u32 \<Rightarrow> bool" where
  "KphTestProcessState processState state = (processState AND state = state)"

section \<open>Process contexts\<close>

text \<open>
  A kernel object is known by its address, a natural number; NULL is \<open>None\<close>. The rights are those
  of the Windows headers.
\<close>

definition STANDARD_RIGHTS_READ :: u32 where "STANDARD_RIGHTS_READ = 0x20000"
definition SYNCHRONIZE :: u32 where "SYNCHRONIZE = 0x100000"
definition PROCESS_TERMINATE :: u32 where "PROCESS_TERMINATE = 0x0001"
definition PROCESS_VM_OPERATION :: u32 where "PROCESS_VM_OPERATION = 0x0008"
definition PROCESS_VM_READ :: u32 where "PROCESS_VM_READ = 0x0010"
definition PROCESS_VM_WRITE :: u32 where "PROCESS_VM_WRITE = 0x0020"
definition PROCESS_QUERY_INFORMATION :: u32 where "PROCESS_QUERY_INFORMATION = 0x0400"
definition PROCESS_SUSPEND_RESUME :: u32 where "PROCESS_SUSPEND_RESUME = 0x0800"
definition PROCESS_QUERY_LIMITED_INFORMATION :: u32 where
  "PROCESS_QUERY_LIMITED_INFORMATION = 0x1000"
definition THREAD_TERMINATE :: u32 where "THREAD_TERMINATE = 0x0001"
definition THREAD_SUSPEND_RESUME :: u32 where "THREAD_SUSPEND_RESUME = 0x0002"
definition THREAD_GET_CONTEXT :: u32 where "THREAD_GET_CONTEXT = 0x0008"
definition THREAD_QUERY_INFORMATION :: u32 where "THREAD_QUERY_INFORMATION = 0x0040"
definition THREAD_QUERY_LIMITED_INFORMATION :: u32 where
  "THREAD_QUERY_LIMITED_INFORMATION = 0x0800"
definition THREAD_RESUME :: u32 where "THREAD_RESUME = 0x1000"

definition KPH_PROCESS_READ_ACCESS :: u32 where
  "KPH_PROCESS_READ_ACCESS =
     STANDARD_RIGHTS_READ OR SYNCHRONIZE OR PROCESS_QUERY_INFORMATION OR
     PROCESS_QUERY_LIMITED_INFORMATION OR PROCESS_VM_READ"

definition KPH_THREAD_READ_ACCESS :: u32 where
  "KPH_THREAD_READ_ACCESS =
     STANDARD_RIGHTS_READ OR SYNCHRONIZE OR THREAD_QUERY_INFORMATION OR
     THREAD_QUERY_LIMITED_INFORMATION OR THREAD_GET_CONTEXT"

definition KPH_PROTECTED_PROCESS_MASK :: u32 where
  "KPH_PROTECTED_PROCESS_MASK =
     KPH_PROCESS_READ_ACCESS OR PROCESS_TERMINATE OR PROCESS_SUSPEND_RESUME"

definition KPH_PROTECTED_THREAD_MASK :: u32 where
  "KPH_PROTECTED_THREAD_MASK =
     KPH_THREAD_READ_ACCESS OR THREAD_TERMINATE OR THREAD_SUSPEND_RESUME OR THREAD_RESUME"

lemmas access_rights =
  STANDARD_RIGHTS_READ_def SYNCHRONIZE_def PROCESS_TERMINATE_def PROCESS_VM_OPERATION_def
  PROCESS_VM_READ_def PROCESS_VM_WRITE_def PROCESS_QUERY_INFORMATION_def PROCESS_SUSPEND_RESUME_def
  PROCESS_QUERY_LIMITED_INFORMATION_def THREAD_TERMINATE_def THREAD_SUSPEND_RESUME_def
  THREAD_GET_CONTEXT_def THREAD_QUERY_INFORMATION_def THREAD_QUERY_LIMITED_INFORMATION_def
  THREAD_RESUME_def KPH_PROCESS_READ_ACCESS_def KPH_THREAD_READ_ACCESS_def
  KPH_PROTECTED_PROCESS_MASK_def KPH_PROTECTED_THREAD_MASK_def

text \<open>
  The lock, the list entry and the event of KPH_PROTECTION have no counterpart: an operation holds
  the lock while it runs, and the event is what \<open>KphGetProtectionState\<close> waits for.
\<close>

record KPH_PROTECTION =
  State :: u32
  ProcessAllowedMask :: u32
  ThreadAllowedMask :: u32

record KPH_STATE_TRACKING =
  Debugged :: bool
  FileObjectWritable :: bool
  FileObjectTransaction :: bool
  UserWritableReferences :: bool

record KPH_PROCESS_CONTEXT =
  ProcessId :: u64
  ImageFileName :: "u16 list option"
  FileObject :: "nat option"
  NumberOfImageLoads :: u64
  CreateNotification :: bool
  IsSubsystemProcess :: bool
  Protection :: KPH_PROTECTION
  StateTracking :: KPH_STATE_TRACKING
  NumberOfMicrosoftImageLoads :: u64
  NumberOfAntimalwareImageLoads :: u64
  NumberOfVerifiedImageLoads :: u64
  NumberOfUntrustedImageLoads :: u64

abbreviation ProtectionState :: "KPH_PROCESS_CONTEXT \<Rightarrow> u32" where
  "ProtectionState p \<equiv> State (Protection p)"

section \<open>The kernel\<close>

text \<open>
  \<open>KERNEL\<close> holds what the routines of the system, and those of the driver that are not modelled,
  answer while an operation runs. Nothing is assumed about the answers, and every operation has its
  own. The last four tell whether the dynamic data holds the offsets for enumerating handles, which
  processes have a handle table, whether the object of an entry can be decoded, and the process
  context to which the tracked context of a thread belongs.
\<close>

record FILE_OBJECT =
  WriteAccess :: bool
  SharedWrite :: bool
  SectionObjectPointer :: "nat option"

record PS_PROTECTION =
  ProtectedType :: u8
  ProtectedSigner :: u8

definition PsProtectedTypeNone :: u8 where "PsProtectedTypeNone = 0"
definition PsProtectedSignerLsa :: u8 where "PsProtectedSignerLsa = 4"
definition PsProtectedSignerWinTcb :: u8 where "PsProtectedSignerWinTcb = 6"
definition PsProtectedSignerWinSystem :: u8 where "PsProtectedSignerWinSystem = 7"

lemmas ps_constants =
  PsProtectedTypeNone_def PsProtectedSignerLsa_def PsProtectedSignerWinTcb_def
  PsProtectedSignerWinSystem_def

datatype privilege = SeDebugPrivilege | SeCreateTokenPrivilege

record KERNEL =
  KphIgnoreProtectionsSuppressed :: bool
  AllowDebugging :: bool
  KphClientPath :: "u16 list"
  RtlPrefixUnicodeString :: "u16 list \<Rightarrow> u16 list \<Rightarrow> bool"
  file_object :: "nat \<Rightarrow> FILE_OBJECT"
  IoGetTransactionParameterBlock :: "nat \<Rightarrow> bool"
  MmDoesFileHaveUserWritableReferences :: "nat \<Rightarrow> bool"
  KphVerifyFile :: "u16 list \<Rightarrow> nat \<Rightarrow> ntstatus"
  PsIsProcessBeingDebugged :: "nat \<Rightarrow> bool"
  PsGetProcessProtection :: "nat \<Rightarrow> PS_PROTECTION"
  PsGetProcessId :: "nat \<Rightarrow> u64"
  PsLookupProcessByProcessId :: "u64 \<Rightarrow> nat option"
  PsAcquireProcessExitSynchronization :: "nat \<Rightarrow> ntstatus"
  PsInitialSystemProcess :: nat
  PrivilegeCheck :: "privilege \<Rightarrow> nat \<Rightarrow> bool"
  passive_level :: bool
  dyn_data :: bool
  ZwAlpcConnectPort :: ntstatus
  KphAlpcQueryInformation :: "ntstatus \<times> u64"
  handle_table_offsets :: bool
  object_table :: "nat \<Rightarrow> bool"
  decode_object :: bool
  thread_context :: "nat \<Rightarrow> nat option"

definition KphInDeveloperMode :: "KERNEL \<Rightarrow> bool" where
  "KphInDeveloperMode K = (if \<not> AllowDebugging K then False else True)"

definition KphProtectionsSuppressed :: "KERNEL \<Rightarrow> bool" where
  "KphProtectionsSuppressed K =
     (if KphIgnoreProtectionsSuppressed K then False else KphInDeveloperMode K)"

section \<open>Which process is lsass\<close>

text \<open>
  The cached process identifier is \<open>lsass\<close>, 0 for NULL. \<open>PrivilegeCheck K v e\<close> is
  KphSinglePrivilegeCheckEx on the captured subject context of the process \<open>e\<close>.
\<close>

definition KphpGetLsassProcessId :: "KERNEL \<Rightarrow> u64 \<Rightarrow> ntstatus \<times> u64" where
  "KphpGetLsassProcessId K lsass =
     (if lsass \<noteq> 0 then (STATUS_SUCCESS, lsass)
      else if \<not> passive_level K then (STATUS_INVALID_LEVEL, 0)
      else if \<not> dyn_data K then (STATUS_NOINTERFACE, 0)
      else if \<not> NT_SUCCESS (ZwAlpcConnectPort K) then (ZwAlpcConnectPort K, 0)
      else let (status, owner) = KphAlpcQueryInformation K in
           if \<not> NT_SUCCESS status then (status, 0) else (status, owner))"

definition KphpCacheLsassProcessId :: "KERNEL \<Rightarrow> nat option \<Rightarrow> u64 \<Rightarrow> u64 \<Rightarrow> u64" where
  "KphpCacheLsassProcessId K Process processId lsass =
     (if lsass = processId then lsass
      else case (case Process of Some e \<Rightarrow> Some e | None \<Rightarrow> PsLookupProcessByProcessId K processId) of
        None \<Rightarrow> lsass
      | Some process \<Rightarrow>
          if NT_SUCCESS (PsAcquireProcessExitSynchronization K process) then processId else lsass)"

definition KphProcessIsLsass :: "KERNEL \<Rightarrow> nat \<Rightarrow> u64 \<Rightarrow> (ntstatus \<times> bool) \<times> u64" where
  "KphProcessIsLsass K Process lsass =
     (let processProtection = PsGetProcessProtection K Process;
          check = (\<lambda>lsass. if PrivilegeCheck K SeCreateTokenPrivilege Process
                           then ((STATUS_SUCCESS, True), lsass)
                           else ((STATUS_SUCCESS, False), 0)) in
      if ProtectedType processProtection \<noteq> PsProtectedTypeNone \<and>
         ProtectedSigner processProtection = PsProtectedSignerLsa
      then check (KphpCacheLsassProcessId K (Some Process) (PsGetProcessId K Process) lsass)
      else
        let (status, processId) = KphpGetLsassProcessId K lsass in
        if \<not> NT_SUCCESS status then ((status, False), lsass)
        else
          let lsass = KphpCacheLsassProcessId K None processId lsass in
          if processId \<noteq> PsGetProcessId K Process then ((STATUS_SUCCESS, False), lsass)
          else check lsass)"

definition KphCanIdentifyLsass :: "KERNEL \<Rightarrow> u64 \<Rightarrow> bool \<times> u64" where
  "KphCanIdentifyLsass K lsass =
     (let ((status, isLsass), lsass) = KphProcessIsLsass K (PsInitialSystemProcess K) lsass in
      (NT_SUCCESS status, lsass))"

definition KphInvalidateLsass :: "KERNEL \<Rightarrow> nat \<Rightarrow> u64 \<Rightarrow> u64" where
  "KphInvalidateLsass K Process lsass = (if lsass = PsGetProcessId K Process then 0 else lsass)"

section \<open>The evaluation of a process\<close>

text \<open>
  The operations act on the context of a process and on the cached identifier of lsass.
\<close>

definition set_state :: "u32 \<Rightarrow> KPH_PROCESS_CONTEXT \<Rightarrow> KPH_PROCESS_CONTEXT" where
  "set_state state p = p\<lparr> Protection := (Protection p)\<lparr> State := state \<rparr> \<rparr>"

definition KphProtectionSet :: "KPH_PROCESS_CONTEXT \<Rightarrow> u32 \<Rightarrow> KPH_PROCESS_CONTEXT" where
  "KphProtectionSet p flag = set_state (ProtectionState p OR flag) p"

definition KphProtectionClear :: "KPH_PROCESS_CONTEXT \<Rightarrow> u32 \<Rightarrow> KPH_PROCESS_CONTEXT" where
  "KphProtectionClear p flag = set_state (ProtectionState p AND NOT flag) p"

definition KphpStartProtectingProcess ::
  "KERNEL \<Rightarrow> nat \<Rightarrow> u32 \<Rightarrow> u32 \<Rightarrow> KPH_PROCESS_CONTEXT \<times> u64 \<Rightarrow> ntstatus \<times> KPH_PROCESS_CONTEXT \<times> u64" where
  "KphpStartProtectingProcess K e processAllowedMask threadAllowedMask =
     (\<lambda>(p, lsass).
        let (ok, lsass) = KphCanIdentifyLsass K lsass in
        if \<not> ok then (STATUS_NOINTERFACE, p, lsass)
        else if \<not> PrivilegeCheck K SeDebugPrivilege e then (STATUS_PRIVILEGE_NOT_HELD, p, lsass)
        else (STATUS_SUCCESS,
              p\<lparr> Protection := (Protection p)\<lparr> ProcessAllowedMask := processAllowedMask,
                                             ThreadAllowedMask := threadAllowedMask \<rparr> \<rparr>,
              lsass))"

definition KphpVerifyProcessAndProtect ::
  "KERNEL \<Rightarrow> nat \<Rightarrow> KPH_PROCESS_CONTEXT \<times> u64 \<Rightarrow> KPH_PROCESS_CONTEXT \<times> u64" where
  "KphpVerifyProcessAndProtect K e =
     (\<lambda>(p, lsass).
        let state = KPH_PROTECTION_UNTRUSTED in
        case (ImageFileName p, FileObject p) of
          (Some name, Some file) \<Rightarrow>
            if KphClientPath K \<noteq> [] \<and> RtlPrefixUnicodeString K (KphClientPath K) name
            then (set_state state p, lsass)
            else if WriteAccess (file_object K file) then (set_state state p, lsass)
            else if IoGetTransactionParameterBlock K file then (set_state state p, lsass)
            else if (case SectionObjectPointer (file_object K file) of
                       None \<Rightarrow> True
                     | Some s \<Rightarrow> MmDoesFileHaveUserWritableReferences K s)
            then (set_state state p, lsass)
            else if \<not> NT_SUCCESS (KphVerifyFile K name file) then (set_state state p, lsass)
            else
              let state = ClearFlag state KPH_PROTECTION_UNTRUSTED;
                  state = SetFlag state KPH_PROTECTION_VERIFIED;
                  (processAllowedMask, threadAllowedMask) =
                    (if KphProtectionsSuppressed K then (- 1, - 1)
                     else (KPH_PROTECTED_PROCESS_MASK, KPH_PROTECTED_THREAD_MASK));
                  (status, p, lsass) =
                    KphpStartProtectingProcess K e processAllowedMask threadAllowedMask (p, lsass) in
              if \<not> NT_SUCCESS status then (set_state state p, lsass)
              else (set_state (SetFlag state KPH_PROTECTION_ACTIVE) p, lsass)
        | _ \<Rightarrow> (set_state state p, lsass))"

text \<open>
  Whoever finds the state NONE queues the process for the worker, and whoever finds it PENDING waits
  for the worker to finish: in both cases the caller continues when the evaluation is done.
\<close>

definition KphGetProtectionState ::
  "KERNEL \<Rightarrow> nat \<Rightarrow> KPH_PROCESS_CONTEXT \<times> u64 \<Rightarrow> u32 \<times> KPH_PROCESS_CONTEXT \<times> u64" where
  "KphGetProtectionState K e =
     (\<lambda>(p, lsass).
        let state = ProtectionState p;
            p = (if state = KPH_PROTECTION_NONE then set_state KPH_PROTECTION_PENDING p else p);
            state = (if state = KPH_PROTECTION_NONE then SetFlag state KPH_PROTECTION_PENDING
                     else state) in
        if FlagOn state KPH_PROTECTION_PENDING then
          let (p, lsass) = KphpVerifyProcessAndProtect K e (p, lsass) in
          (ProtectionState p, p, lsass)
        else (state, p, lsass))"

definition KphIsProtectedProcess ::
  "KERNEL \<Rightarrow> nat \<Rightarrow> KPH_PROCESS_CONTEXT \<times> u64 \<Rightarrow> bool \<times> KPH_PROCESS_CONTEXT \<times> u64" where
  "KphIsProtectedProcess K e s =
     (let (state, s) = KphGetProtectionState K e s in (FlagOn state KPH_PROTECTION_ACTIVE, s))"

section \<open>The state of a process\<close>

text \<open>
  \<open>track\<close> is the pattern by which a fact that once spoke against the process is remembered: if
  the flag is clear and \<open>bad\<close> does not hold, the bit is set; if \<open>bad\<close> holds the flag is set.
\<close>

definition track :: "bool \<Rightarrow> bool \<Rightarrow> u32 \<Rightarrow> u32 \<Rightarrow> u32 \<times> bool" where
  "track flag bad mark processState =
     (if \<not> flag then if \<not> bad then (SetFlag processState mark, flag) else (processState, True)
      else (processState, flag))"

definition KphGetProcessState ::
  "KERNEL \<Rightarrow> nat \<Rightarrow> KPH_PROCESS_CONTEXT \<times> u64 \<Rightarrow> u32 \<times> KPH_PROCESS_CONTEXT \<times> u64" where
  "KphGetProcessState K e s =
     (let ps = (if KphProtectionsSuppressed K then NOT KPH_PROCESS_VERIFIED_PROCESS else 0);
          (protectionState, p, lsass) = KphGetProtectionState K e s;
          ps = (if FlagOn protectionState KPH_PROTECTION_TCB
                then SetFlag ps KPH_PROCESS_SECURELY_CREATED else ps);
          ps = (if FlagOn protectionState KPH_PROTECTION_VERIFIED
                then SetFlag ps KPH_PROCESS_VERIFIED_PROCESS else ps);
          ps = (if FlagOn protectionState KPH_PROTECTION_ACTIVE
                then SetFlag ps KPH_PROCESS_PROTECTED_PROCESS else ps);
          ps = (if CreateNotification p then SetFlag ps KPH_PROCESS_CREATE_NOTIFICATION else ps);
          ps = (if NumberOfUntrustedImageLoads p = 0
                then SetFlag ps KPH_PROCESS_NO_UNTRUSTED_IMAGES else ps);
          (ps, debugged) = track (Debugged (StateTracking p)) (PsIsProcessBeingDebugged K e)
                             KPH_PROCESS_NOT_BEING_DEBUGGED ps;
          p = p\<lparr> StateTracking := (StateTracking p)\<lparr> Debugged := debugged \<rparr> \<rparr> in
      case FileObject p of
        None \<Rightarrow> (ps, p, lsass)
      | Some file \<Rightarrow>
          let ps = SetFlag ps KPH_PROCESS_HAS_FILE_OBJECT;
              (ps, writable) = track (FileObjectWritable (StateTracking p))
                (\<not> (\<not> WriteAccess (file_object K file) \<or> \<not> SharedWrite (file_object K file)))
                KPH_PROCESS_NO_WRITABLE_FILE_OBJECT ps;
              (ps, transaction) = track (FileObjectTransaction (StateTracking p))
                (IoGetTransactionParameterBlock K file) KPH_PROCESS_NO_FILE_TRANSACTION ps;
              p = p\<lparr> StateTracking := (StateTracking p)\<lparr> FileObjectWritable := writable,
                                                       FileObjectTransaction := transaction \<rparr> \<rparr> in
          case SectionObjectPointer (file_object K file) of
            None \<Rightarrow> (ps, p, lsass)
          | Some section' \<Rightarrow>
              let ps = SetFlag ps KPH_PROCESS_HAS_SECTION_OBJECT_POINTERS;
                  (ps, references) = track (UserWritableReferences (StateTracking p))
                    (MmDoesFileHaveUserWritableReferences K section')
                    KPH_PROCESS_NO_USER_WRITABLE_REFERENCES ps;
                  p = p\<lparr> StateTracking := (StateTracking p)\<lparr> UserWritableReferences := references \<rparr> \<rparr> in
              (ps, p, lsass))"

definition KphTestProcessContextState ::
  "KERNEL \<Rightarrow> nat \<Rightarrow> u32 \<Rightarrow> KPH_PROCESS_CONTEXT \<times> u64 \<Rightarrow> bool \<times> KPH_PROCESS_CONTEXT \<times> u64" where
  "KphTestProcessContextState K e state s =
     (let (processState, s) = KphGetProcessState K e s in
      (KphTestProcessState processState state, s))"

text \<open>The tests are monotone: a level includes the levels below it.\<close>

lemma test_mono:
  assumes "KphTestProcessState ps b" and "a AND b = a"
  shows "KphTestProcessState ps a"
  using assms by (metis KphTestProcessState_def and.assoc and.commute)

lemma levels_ordered:
  "KPH_PROCESS_STATE_MINIMUM AND KPH_PROCESS_STATE_LOW = KPH_PROCESS_STATE_MINIMUM"
  "KPH_PROCESS_STATE_LOW AND KPH_PROCESS_STATE_MEDIUM = KPH_PROCESS_STATE_LOW"
  "KPH_PROCESS_STATE_MEDIUM AND KPH_PROCESS_STATE_HIGH = KPH_PROCESS_STATE_MEDIUM"
  "KPH_PROCESS_STATE_HIGH AND KPH_PROCESS_STATE_MAXIMUM = KPH_PROCESS_STATE_HIGH"
  by (simp_all add: process_state_levels process_state_bits)


section \<open>What an evaluation leaves\<close>

text \<open>
  A context is \<^emph>\<open>evaluated\<close> when its state is neither NONE nor PENDING; its state then never
  becomes ACTIVE again once it is not.
\<close>

definition evaluated :: "KPH_PROCESS_CONTEXT \<Rightarrow> bool" where
  "evaluated p \<longleftrightarrow> ProtectionState p \<noteq> KPH_PROTECTION_NONE \<and>
     \<not> FlagOn (ProtectionState p) KPH_PROTECTION_PENDING"

definition active :: "KPH_PROCESS_CONTEXT \<Rightarrow> bool" where
  "active p \<longleftrightarrow> FlagOn (ProtectionState p) KPH_PROTECTION_ACTIVE"

text \<open>States that occur: not yet evaluated, waiting, or evaluated.\<close>

definition state_ok :: "KPH_PROCESS_CONTEXT \<Rightarrow> bool" where
  "state_ok p \<longleftrightarrow> ProtectionState p \<in> {KPH_PROTECTION_NONE, KPH_PROTECTION_PENDING} \<or> evaluated p"

lemma set_state_simps [simp]:
  "ProtectionState (set_state st p) = st"
  "ProcessAllowedMask (Protection (set_state st p)) = ProcessAllowedMask (Protection p)"
  "ThreadAllowedMask (Protection (set_state st p)) = ThreadAllowedMask (Protection p)"
  "set_state a (set_state b p) = set_state a p"
  by (simp_all add: set_state_def)

lemma start_protecting_cases:
  assumes "KphpStartProtectingProcess K e pm tm (p, l) = (status, p', l')"
  shows "status = STATUS_SUCCESS \<and>
      p' = p\<lparr> Protection := (Protection p)\<lparr> ProcessAllowedMask := pm, ThreadAllowedMask := tm \<rparr> \<rparr> \<or>
    status \<noteq> STATUS_SUCCESS \<and> p' = p"
  using assms by (auto simp: KphpStartProtectingProcess_def Let_def split: prod.splits if_splits)

text \<open>The three outcomes of an evaluation.\<close>

definition untrusted :: "KPH_PROCESS_CONTEXT \<Rightarrow> KPH_PROCESS_CONTEXT" where
  "untrusted p = set_state KPH_PROTECTION_UNTRUSTED p"

definition verified :: "KPH_PROCESS_CONTEXT \<Rightarrow> KPH_PROCESS_CONTEXT" where
  "verified p = set_state KPH_PROTECTION_VERIFIED p"

definition protected :: "u32 \<Rightarrow> u32 \<Rightarrow> KPH_PROCESS_CONTEXT \<Rightarrow> KPH_PROCESS_CONTEXT" where
  "protected pm tm p =
     p\<lparr> Protection := \<lparr> State = KPH_PROTECTION_VERIFIED OR KPH_PROTECTION_ACTIVE,
                       ProcessAllowedMask = pm, ThreadAllowedMask = tm \<rparr> \<rparr>"

definition outcomes :: "KERNEL \<Rightarrow> KPH_PROCESS_CONTEXT \<Rightarrow> KPH_PROCESS_CONTEXT set" where
  "outcomes K p =
     {untrusted p, verified p,
      if KphProtectionsSuppressed K then protected (- 1) (- 1) p
      else protected KPH_PROTECTED_PROCESS_MASK KPH_PROTECTED_THREAD_MASK p}"

lemma verify_outcomes: "fst (KphpVerifyProcessAndProtect K e (p, l)) \<in> outcomes K p"
  by (auto simp: KphpVerifyProcessAndProtect_def outcomes_def untrusted_def verified_def
        protected_def set_state_def flag_ops protection_bits Let_def
      split: option.splits prod.splits if_splits dest!: start_protecting_cases)

lemma outcomes_set_state: "outcomes K (set_state s p) = outcomes K p"
  by (simp add: outcomes_def untrusted_def verified_def protected_def set_state_def)

lemma outcomes_evaluated [simp]:
  "evaluated (untrusted p)" "evaluated (verified p)" "evaluated (protected pm tm p)"
  "\<not> active (untrusted p)" "\<not> active (verified p)" "active (protected pm tm p)"
  by (simp_all add: evaluated_def active_def untrusted_def verified_def protected_def flag_ops
        protection_bits)

lemma protection_state_runs:
  "KphGetProtectionState K e (p, l) =
     (if evaluated p then (ProtectionState p, p, l)
      else let s = KphpVerifyProcessAndProtect K e
                     (if ProtectionState p = KPH_PROTECTION_NONE
                      then set_state KPH_PROTECTION_PENDING p else p, l) in
           (ProtectionState (fst s), s))"
  by (auto simp: KphGetProtectionState_def evaluated_def Let_def flag_ops protection_bits
      split: prod.splits)

lemma protection_state_cases:
  assumes "KphGetProtectionState K e (p, l) = (st, p', l')"
  shows "st = ProtectionState p'"
    and "evaluated p \<and> p' = p \<and> l' = l \<or> \<not> evaluated p \<and> p' \<in> outcomes K p"
proof -
  have *: "fst (KphpVerifyProcessAndProtect K e (set_state s p, l)) \<in> outcomes K p" for s
    using verify_outcomes [of K e "set_state s p" l] by (simp add: outcomes_set_state)
  show "st = ProtectionState p'"
    using assms by (auto simp: protection_state_runs Let_def split: if_splits)
  show "evaluated p \<and> p' = p \<and> l' = l \<or> \<not> evaluated p \<and> p' \<in> outcomes K p"
  proof (cases "evaluated p")
    case True
    with assms show ?thesis by (simp add: protection_state_runs)
  next
    case False
    then have q: "(p', l') = KphpVerifyProcessAndProtect K e
        (if ProtectionState p = KPH_PROTECTION_NONE then set_state KPH_PROTECTION_PENDING p else p, l)"
      using assms by (simp add: protection_state_runs Let_def split: if_splits)
    show ?thesis
      using * verify_outcomes [of K e p l] False arg_cong [OF q, of fst] by (auto split: if_splits)
  qed
qed

section \<open>The state is exact\<close>

lemma flag_or [simp]: "FlagOn (x OR a) b \<longleftrightarrow> FlagOn x b \<or> FlagOn a b"
  by (simp add: FlagOn_def bit.conj_disj_distrib2 or_eq_0_iff)

lemma flag_set [simp]: "FlagOn (SetFlag x a) b \<longleftrightarrow> FlagOn x b \<or> FlagOn a b"
  by (simp add: SetFlag_def)

lemma flag_zero [simp]: "\<not> FlagOn 0 b"
  by (simp add: FlagOn_def)

lemma flag_if [simp]: "FlagOn (if c then x else y) b \<longleftrightarrow> (if c then FlagOn x b else FlagOn y b)"
  by simp

lemma flag_track [simp]:
  "FlagOn (fst (track f bad m ps)) b \<longleftrightarrow> FlagOn ps b \<or> \<not> f \<and> \<not> bad \<and> FlagOn m b"
  "snd (track f bad m ps) \<longleftrightarrow> f \<or> bad"
  by (auto simp: track_def)

lemma test_or [simp]:
  "KphTestProcessState ps (a OR b) \<longleftrightarrow> KphTestProcessState ps a \<and> KphTestProcessState ps b"
  by (auto simp: KphTestProcessState_def bit_eq_iff bit_and_iff bit_or_iff)

lemma test_bit:
  assumes "n < 32"
  shows "KphTestProcessState ps (2 ^ n) \<longleftrightarrow> FlagOn ps (2 ^ n)"
proof (cases "bit ps n")
  case True
  then have "ps AND push_bit n 1 = push_bit n 1"
    by (intro bit_word_eqI) (auto simp only: bit_and_iff bit_push_bit_iff bit_1_iff diff_is_0_eq dest: le_antisym)
  with True assms show ?thesis
    by (simp add: KphTestProcessState_def FlagOn_def push_bit_of_1 exp_eq_zero_iff)
next
  case False
  then have "ps AND 2 ^ n = 0" by (simp add: and_exp_eq_0_iff_not_bit)
  with assms show ?thesis by (simp add: KphTestProcessState_def FlagOn_def exp_eq_zero_iff)
qed

lemma flag_literals [simp]:
  "FlagOn (numeral a) (numeral b) \<longleftrightarrow> (numeral a :: u32) AND numeral b \<noteq> 0"
  "FlagOn (numeral a) 1 \<longleftrightarrow> (numeral a :: u32) AND 1 \<noteq> 0"
  "FlagOn 1 (numeral b) \<longleftrightarrow> (1 :: u32) AND numeral b \<noteq> 0"
  "FlagOn 1 1"
  by (simp_all add: FlagOn_def)

lemma test_flags [simp]:
  "KphTestProcessState ps KPH_PROCESS_SECURELY_CREATED \<longleftrightarrow> FlagOn ps KPH_PROCESS_SECURELY_CREATED"
  "KphTestProcessState ps KPH_PROCESS_VERIFIED_PROCESS \<longleftrightarrow> FlagOn ps KPH_PROCESS_VERIFIED_PROCESS"
  "KphTestProcessState ps KPH_PROCESS_PROTECTED_PROCESS \<longleftrightarrow> FlagOn ps KPH_PROCESS_PROTECTED_PROCESS"
  "KphTestProcessState ps KPH_PROCESS_NO_UNTRUSTED_IMAGES \<longleftrightarrow>
     FlagOn ps KPH_PROCESS_NO_UNTRUSTED_IMAGES"
  "KphTestProcessState ps KPH_PROCESS_HAS_FILE_OBJECT \<longleftrightarrow> FlagOn ps KPH_PROCESS_HAS_FILE_OBJECT"
  "KphTestProcessState ps KPH_PROCESS_HAS_SECTION_OBJECT_POINTERS \<longleftrightarrow>
     FlagOn ps KPH_PROCESS_HAS_SECTION_OBJECT_POINTERS"
  "KphTestProcessState ps KPH_PROCESS_NO_USER_WRITABLE_REFERENCES \<longleftrightarrow>
     FlagOn ps KPH_PROCESS_NO_USER_WRITABLE_REFERENCES"
  "KphTestProcessState ps KPH_PROCESS_NO_FILE_TRANSACTION \<longleftrightarrow>
     FlagOn ps KPH_PROCESS_NO_FILE_TRANSACTION"
  "KphTestProcessState ps KPH_PROCESS_NOT_BEING_DEBUGGED \<longleftrightarrow>
     FlagOn ps KPH_PROCESS_NOT_BEING_DEBUGGED"
  "KphTestProcessState ps KPH_PROCESS_NO_WRITABLE_FILE_OBJECT \<longleftrightarrow>
     FlagOn ps KPH_PROCESS_NO_WRITABLE_FILE_OBJECT"
  "KphTestProcessState ps KPH_PROCESS_CREATE_NOTIFICATION \<longleftrightarrow>
     FlagOn ps KPH_PROCESS_CREATE_NOTIFICATION"
  using test_bit [of 0 ps] test_bit [of 1 ps] test_bit [of 2 ps] test_bit [of 3 ps]
    test_bit [of 4 ps] test_bit [of 5 ps] test_bit [of 6 ps] test_bit [of 7 ps] test_bit [of 8 ps]
    test_bit [of 9 ps] test_bit [of 10 ps]
  by (simp_all add: process_state_bits)

text \<open>The facts about a process that the bits of its state stand for.\<close>

definition writable_file :: "KERNEL \<Rightarrow> nat \<Rightarrow> bool" where
  "writable_file K file \<longleftrightarrow> WriteAccess (file_object K file) \<and> SharedWrite (file_object K file)"

definition has_section :: "KERNEL \<Rightarrow> KPH_PROCESS_CONTEXT \<Rightarrow> bool" where
  "has_section K p \<longleftrightarrow>
     (case FileObject p of None \<Rightarrow> False | Some f \<Rightarrow> SectionObjectPointer (file_object K f) \<noteq> None)"

definition writable_references :: "KERNEL \<Rightarrow> nat \<Rightarrow> bool" where
  "writable_references K file \<longleftrightarrow>
     (case SectionObjectPointer (file_object K file) of
        None \<Rightarrow> False | Some s \<Rightarrow> MmDoesFileHaveUserWritableReferences K s)"

lemma process_state_exact:
  assumes run: "KphGetProcessState K e (p, l) = (ps, p', l')"
    and eval: "KphGetProtectionState K e (p, l) = (st, q, l'')"
    and enforced: "\<not> KphProtectionsSuppressed K"
  shows "FlagOn ps KPH_PROCESS_SECURELY_CREATED \<longleftrightarrow> FlagOn st KPH_PROTECTION_TCB"
    and "FlagOn ps KPH_PROCESS_VERIFIED_PROCESS \<longleftrightarrow> FlagOn st KPH_PROTECTION_VERIFIED"
    and "FlagOn ps KPH_PROCESS_PROTECTED_PROCESS \<longleftrightarrow> FlagOn st KPH_PROTECTION_ACTIVE"
    and "FlagOn ps KPH_PROCESS_CREATE_NOTIFICATION \<longleftrightarrow> CreateNotification q"
    and "FlagOn ps KPH_PROCESS_NO_UNTRUSTED_IMAGES \<longleftrightarrow> NumberOfUntrustedImageLoads q = 0"
    and "FlagOn ps KPH_PROCESS_NOT_BEING_DEBUGGED \<longleftrightarrow>
           \<not> Debugged (StateTracking q) \<and> \<not> PsIsProcessBeingDebugged K e"
    and "FlagOn ps KPH_PROCESS_HAS_FILE_OBJECT \<longleftrightarrow> FileObject q \<noteq> None"
    and "FlagOn ps KPH_PROCESS_NO_WRITABLE_FILE_OBJECT \<longleftrightarrow>
           (\<exists>f. FileObject q = Some f \<and> \<not> FileObjectWritable (StateTracking q) \<and> \<not> writable_file K f)"
    and "FlagOn ps KPH_PROCESS_NO_FILE_TRANSACTION \<longleftrightarrow>
           (\<exists>f. FileObject q = Some f \<and> \<not> FileObjectTransaction (StateTracking q) \<and>
                \<not> IoGetTransactionParameterBlock K f)"
    and "FlagOn ps KPH_PROCESS_HAS_SECTION_OBJECT_POINTERS \<longleftrightarrow> has_section K q"
    and "FlagOn ps KPH_PROCESS_NO_USER_WRITABLE_REFERENCES \<longleftrightarrow>
           (\<exists>f. FileObject q = Some f \<and> has_section K q \<and>
                \<not> UserWritableReferences (StateTracking q) \<and> \<not> writable_references K f)"
proof -
  have ps: "ps = fst (KphGetProcessState K e (p, l))" using run by simp
  note unfold = ps KphGetProcessState_def eval enforced case_prod_beta Let_def process_state_bits
    has_section_def writable_references_def writable_file_def
  consider (none) "FileObject q = None"
    | (no_section) f where "FileObject q = Some f" "SectionObjectPointer (file_object K f) = None"
    | (sec) f s where "FileObject q = Some f" "SectionObjectPointer (file_object K f) = Some s"
    by (metis not_None_eq)
  note cases = this
  show "FlagOn ps KPH_PROCESS_SECURELY_CREATED \<longleftrightarrow> FlagOn st KPH_PROTECTION_TCB"
    and "FlagOn ps KPH_PROCESS_VERIFIED_PROCESS \<longleftrightarrow> FlagOn st KPH_PROTECTION_VERIFIED"
    and "FlagOn ps KPH_PROCESS_PROTECTED_PROCESS \<longleftrightarrow> FlagOn st KPH_PROTECTION_ACTIVE"
    and "FlagOn ps KPH_PROCESS_CREATE_NOTIFICATION \<longleftrightarrow> CreateNotification q"
    and "FlagOn ps KPH_PROCESS_NO_UNTRUSTED_IMAGES \<longleftrightarrow> NumberOfUntrustedImageLoads q = 0"
    and "FlagOn ps KPH_PROCESS_NOT_BEING_DEBUGGED \<longleftrightarrow>
           \<not> Debugged (StateTracking q) \<and> \<not> PsIsProcessBeingDebugged K e"
    and "FlagOn ps KPH_PROCESS_HAS_FILE_OBJECT \<longleftrightarrow> FileObject q \<noteq> None"
    and "FlagOn ps KPH_PROCESS_NO_WRITABLE_FILE_OBJECT \<longleftrightarrow>
           (\<exists>f. FileObject q = Some f \<and> \<not> FileObjectWritable (StateTracking q) \<and> \<not> writable_file K f)"
    and "FlagOn ps KPH_PROCESS_NO_FILE_TRANSACTION \<longleftrightarrow>
           (\<exists>f. FileObject q = Some f \<and> \<not> FileObjectTransaction (StateTracking q) \<and>
                \<not> IoGetTransactionParameterBlock K f)"
    and "FlagOn ps KPH_PROCESS_HAS_SECTION_OBJECT_POINTERS \<longleftrightarrow> has_section K q"
    and "FlagOn ps KPH_PROCESS_NO_USER_WRITABLE_REFERENCES \<longleftrightarrow>
           (\<exists>f. FileObject q = Some f \<and> has_section K q \<and>
                \<not> UserWritableReferences (StateTracking q) \<and> \<not> writable_references K f)"
    by (rule cases; simp add: unfold)+
qed


section \<open>What is once held against a process stays\<close>

definition tracking_le :: "KPH_STATE_TRACKING \<Rightarrow> KPH_STATE_TRACKING \<Rightarrow> bool" where
  "tracking_le s t \<longleftrightarrow>
     (Debugged s \<longrightarrow> Debugged t) \<and> (FileObjectWritable s \<longrightarrow> FileObjectWritable t) \<and>
     (FileObjectTransaction s \<longrightarrow> FileObjectTransaction t) \<and>
     (UserWritableReferences s \<longrightarrow> UserWritableReferences t)"

lemma process_state_context:
  assumes "KphGetProcessState K e (p, l) = (ps, p', l')"
    and "KphGetProtectionState K e (p, l) = (st, q, l'')"
  obtains t where "p' = q\<lparr> StateTracking := t \<rparr>" "tracking_le (StateTracking q) t" "l' = l''"
proof -
  have "\<exists>t. p' = q\<lparr> StateTracking := t \<rparr> \<and> tracking_le (StateTracking q) t \<and> l' = l''"
  proof (cases "FileObject q")
    case None
    then show ?thesis using assms
      by (auto simp: KphGetProcessState_def Let_def case_prod_beta tracking_le_def
          intro!: exI [of _ "StateTracking p'"])
  next
    case (Some f)
    then show ?thesis using assms
      by (cases "SectionObjectPointer (file_object K f)")
        (auto simp: KphGetProcessState_def Let_def case_prod_beta tracking_le_def
          intro!: exI [of _ "StateTracking p'"])
  qed
  then show thesis using that by blast
qed

text \<open>Reasons for which a process cannot be in the maximum state.\<close>

definition barred :: "KPH_PROCESS_CONTEXT \<Rightarrow> bool" where
  "barred p \<longleftrightarrow>
     NumberOfUntrustedImageLoads p \<noteq> 0 \<or> FileObject p = None \<or> Debugged (StateTracking p) \<or>
     FileObjectWritable (StateTracking p) \<or> FileObjectTransaction (StateTracking p) \<or>
     UserWritableReferences (StateTracking p) \<or> evaluated p \<and> \<not> active p"

text \<open>All that a query changes: the protection, by an evaluation, and the tracked facts, upwards.\<close>

definition queried :: "KERNEL \<Rightarrow> KPH_PROCESS_CONTEXT \<Rightarrow> KPH_PROCESS_CONTEXT \<Rightarrow> bool" where
  "queried K p p' \<longleftrightarrow>
     (\<exists>q t. (q = p \<or> \<not> evaluated p \<and> q \<in> outcomes K p) \<and> p' = q\<lparr> StateTracking := t \<rparr> \<and>
            tracking_le (StateTracking q) t)"

lemma queried_refl [simp]: "queried K p p"
  unfolding queried_def by (intro exI [of _ p] exI [of _ "StateTracking p"]) (simp add: tracking_le_def)

lemma queried_protection_state:
  assumes "KphGetProtectionState K e (p, l) = (st, q, l')"
  shows "queried K p q"
  using protection_state_cases(2) [OF assms]
  by (auto simp: queried_def tracking_le_def intro!: exI [of _ q] exI [of _ "StateTracking q"])

lemma queried_process_state:
  assumes run: "KphGetProcessState K e (p, l) = (ps, p', l')"
  shows "queried K p p'" and "evaluated p'"
proof -
  obtain st q l'' where ev: "KphGetProtectionState K e (p, l) = (st, q, l'')"
    by (metis prod_cases3)
  obtain t where t: "p' = q\<lparr> StateTracking := t \<rparr>" "tracking_le (StateTracking q) t"
    using process_state_context [OF run ev] by blast
  then show "queried K p p'"
    using protection_state_cases(2) [OF ev] unfolding queried_def by blast
  have "evaluated q"
    using protection_state_cases(2) [OF ev] by (auto simp: outcomes_def split: if_splits)
  then show "evaluated p'" using t(1) by (simp add: evaluated_def)
qed

lemma outcome_frame:
  assumes "q \<in> outcomes K p"
  shows "q\<lparr> Protection := pr \<rparr> = p\<lparr> Protection := pr \<rparr>" and "evaluated q"
  using assms by (auto simp: outcomes_def untrusted_def verified_def protected_def set_state_def
      evaluated_def flag_ops protection_bits split: if_splits)

lemma queried_frame:
  assumes "queried K p p'"
  shows "p' = p\<lparr> Protection := Protection p', StateTracking := StateTracking p' \<rparr>"
    and "tracking_le (StateTracking p) (StateTracking p')"
    and "evaluated p \<Longrightarrow> evaluated p' \<and> Protection p' = Protection p"
proof -
  obtain q t where q: "q = p \<or> \<not> evaluated p \<and> q \<in> outcomes K p" "p' = q\<lparr> StateTracking := t \<rparr>"
    "tracking_le (StateTracking q) t"
    using assms by (auto simp: queried_def)
  have *: "\<exists>pr. q = p\<lparr> Protection := pr \<rparr>"
    using q(1) outcome_frame(1) [of q K p "Protection q"]
    by (auto intro!: exI [of _ "Protection q"])
  then show "p' = p\<lparr> Protection := Protection p', StateTracking := StateTracking p' \<rparr>"
    and "tracking_le (StateTracking p) (StateTracking p')"
    using q(2,3) by auto
  show "evaluated p \<Longrightarrow> evaluated p' \<and> Protection p' = Protection p"
    using q by (auto simp: evaluated_def)
qed

lemma queried_barred:
  assumes "queried K p p'" and "barred p"
  shows "barred p'"
proof -
  have *: "NumberOfUntrustedImageLoads p' = NumberOfUntrustedImageLoads p"
    "FileObject p' = FileObject p"
    using arg_cong [OF queried_frame(1) [OF assms(1)], of NumberOfUntrustedImageLoads]
      arg_cong [OF queried_frame(1) [OF assms(1)], of FileObject] by simp_all
  have "evaluated p \<and> \<not> active p \<Longrightarrow> evaluated p' \<and> \<not> active p'"
    using queried_frame(3) [OF assms(1)] by (simp add: active_def)
  with * assms(2) queried_frame(2) [OF assms(1)] show ?thesis
    unfolding barred_def tracking_le_def by metis
qed

text \<open>A process that is barred is never found in the maximum state, and remains barred.\<close>

theorem barred_never_maximum:
  assumes run: "KphGetProcessState K e (p, l) = (ps, p', l')" and "barred p"
    and "\<not> KphProtectionsSuppressed K"
  shows "\<not> KphTestProcessState ps KPH_PROCESS_STATE_MAXIMUM \<and> barred p'"
proof -
  obtain st q l'' where ev: "KphGetProtectionState K e (p, l) = (st, q, l'')"
    by (metis prod_cases3)
  have q: "barred q" "queried K p q"
    using queried_barred [OF queried_protection_state [OF ev] \<open>barred p\<close>]
      queried_protection_state [OF ev] by auto
  note exact = process_state_exact [OF run ev assms(3)]
  have "\<not> KphTestProcessState ps KPH_PROCESS_STATE_MAXIMUM"
  proof
    assume "KphTestProcessState ps KPH_PROCESS_STATE_MAXIMUM"
    then have "NumberOfUntrustedImageLoads q = 0" "\<not> Debugged (StateTracking q)"
      "FileObject q \<noteq> None" "\<not> FileObjectWritable (StateTracking q)"
      "\<not> FileObjectTransaction (StateTracking q)" "\<not> UserWritableReferences (StateTracking q)"
      "FlagOn st KPH_PROTECTION_ACTIVE"
      by (auto simp: KPH_PROCESS_STATE_MAXIMUM_def exact)
    then show False
      using q(1) protection_state_cases(1) [OF ev] by (auto simp: barred_def active_def)
  qed
  moreover have "barred p'"
    using queried_barred [OF queried_process_state(1) [OF run] assms(2)] .
  ultimately show ?thesis ..
qed

text \<open>A process in the medium state or higher is protected.\<close>

lemma medium_is_active:
  assumes run: "KphGetProcessState K e (p, l) = (ps, p', l')"
    and "\<not> KphProtectionsSuppressed K" and "KphTestProcessState ps KPH_PROCESS_STATE_MEDIUM"
  shows "active p'"
proof -
  obtain st q l'' where ev: "KphGetProtectionState K e (p, l) = (st, q, l'')"
    by (metis prod_cases3)
  obtain t where "p' = q\<lparr> StateTracking := t \<rparr>" using process_state_context [OF run ev] by blast
  then show ?thesis
    using assms(3) process_state_exact(3) [OF run ev assms(2)] protection_state_cases(1) [OF ev]
    by (simp add: KPH_PROCESS_STATE_MEDIUM_def active_def)
qed


section \<open>A kernel and a process for the examples\<close>

text \<open>The file 10 has a section and is not written to; process 4 is the system.\<close>

definition example_kernel :: KERNEL where
  "example_kernel =
     \<lparr> KphIgnoreProtectionsSuppressed = False, AllowDebugging = False, KphClientPath = [],
       RtlPrefixUnicodeString = (\<lambda>a b. False),
       file_object = (\<lambda>f. \<lparr> WriteAccess = False, SharedWrite = False, SectionObjectPointer = Some f \<rparr>),
       IoGetTransactionParameterBlock = (\<lambda>f. False),
       MmDoesFileHaveUserWritableReferences = (\<lambda>s. False),
       KphVerifyFile = (\<lambda>name f. STATUS_SUCCESS), PsIsProcessBeingDebugged = (\<lambda>e. False),
       PsGetProcessProtection = (\<lambda>e. \<lparr> ProtectedType = 0, ProtectedSigner = 0 \<rparr>),
       PsGetProcessId = (\<lambda>e. of_nat e), PsLookupProcessByProcessId = (\<lambda>i. Some (unat i)),
       PsAcquireProcessExitSynchronization = (\<lambda>e. STATUS_SUCCESS), PsInitialSystemProcess = 4,
       PrivilegeCheck = (\<lambda>v e. v = SeDebugPrivilege), passive_level = True, dyn_data = True,
       ZwAlpcConnectPort = STATUS_SUCCESS, KphAlpcQueryInformation = (STATUS_SUCCESS, 99),
       handle_table_offsets = True, object_table = (\<lambda>e. True), decode_object = True,
       thread_context = (\<lambda>t. Some 20) \<rparr>"

text \<open>A new context is zeroed but for what identifies the process.\<close>

definition KphpInitializeProcessContext ::
  "u64 \<Rightarrow> u16 list option \<Rightarrow> nat option \<Rightarrow> bool \<Rightarrow> KPH_PROCESS_CONTEXT" where
  "KphpInitializeProcessContext processId imageFileName fileObject isSubsystemProcess =
     \<lparr> ProcessId = processId, ImageFileName = imageFileName, FileObject = fileObject,
       NumberOfImageLoads = 0, CreateNotification = False, IsSubsystemProcess = isSubsystemProcess,
       Protection = \<lparr> State = KPH_PROTECTION_NONE, ProcessAllowedMask = 0, ThreadAllowedMask = 0 \<rparr>,
       StateTracking = \<lparr> Debugged = False, FileObjectWritable = False,
                         FileObjectTransaction = False, UserWritableReferences = False \<rparr>,
       NumberOfMicrosoftImageLoads = 0, NumberOfAntimalwareImageLoads = 0,
       NumberOfVerifiedImageLoads = 0, NumberOfUntrustedImageLoads = 0 \<rparr>"

lemma new_context [simp]:
  "\<not> evaluated (KphpInitializeProcessContext i n f b)"
  "\<not> active (KphpInitializeProcessContext i n f b)"
  by (simp_all add: KphpInitializeProcessContext_def evaluated_def active_def protection_bits)

end
