(* ===== verification/ImageProtection.thy ===== *)
theory ImageProtection
  imports ProcessState
begin

text \<open>
  The images that are loaded into protected processes: \<open>KphApplyImageProtections\<close> and what it calls
  in ProcessHacker/KSystemInformer/protection.c. A trusted image is counted; for any other image an
  APC is queued that unmaps it, and where that is not possible the load is counted as untrusted,
  which keeps the process out of the high states.
\<close>

section \<open>The routines\<close>

definition SE_SIGNING_LEVEL_UNCHECKED :: u8 where "SE_SIGNING_LEVEL_UNCHECKED = 0"
definition SE_SIGNING_LEVEL_ANTIMALWARE :: u8 where "SE_SIGNING_LEVEL_ANTIMALWARE = 7"
definition SE_SIGNING_LEVEL_MICROSOFT :: u8 where "SE_SIGNING_LEVEL_MICROSOFT = 8"
definition SE_SIGNING_LEVEL_WINDOWS :: u8 where "SE_SIGNING_LEVEL_WINDOWS = 12"
definition SE_SIGNING_LEVEL_WINDOWS_TCB :: u8 where "SE_SIGNING_LEVEL_WINDOWS_TCB = 14"

lemmas signing_levels =
  SE_SIGNING_LEVEL_UNCHECKED_def SE_SIGNING_LEVEL_ANTIMALWARE_def SE_SIGNING_LEVEL_MICROSOFT_def
  SE_SIGNING_LEVEL_WINDOWS_def SE_SIGNING_LEVEL_WINDOWS_TCB_def

text \<open>
  What the routines that are called answer while an image is handled. \<open>insufficient_tracking\<close> is the
  case that the current thread or its process has no context.
\<close>

record IMAGE_KERNEL =
  KeAreAllApcsDisabled :: bool
  KphpReOpenImageFile :: ntstatus
  KphIsSameFile :: bool
  KphGetSigningLevel :: "ntstatus \<times> u8"
  KphVerifyFileObject :: ntstatus
  KphCheckImageCoherency :: ntstatus
  DisableImageLoadProtection :: bool
  PsGetProcessSectionBaseAddress :: u64
  insufficient_tracking :: bool
  KphCheckProcessApcNoopRoutine :: ntstatus
  MmHighestUserAddress :: u64
  KphCreateObject :: ntstatus
  KsiInsertQueueApc :: bool
  ZwUnmapViewOfSection :: ntstatus

text \<open>
  The APCs that are queued: the one on the return of the thread to user mode, the one that it stages
  to get down to passive level, and the one that looks at an image when APCs are enabled again.
\<close>

datatype image_apc =
    FirstApc (apc_base: u64)
  | SecondApc (apc_base: u64)
  | DeferredApc (apc_base: u64) nat

definition count_untrusted :: "KPH_PROCESS_CONTEXT \<Rightarrow> KPH_PROCESS_CONTEXT" where
  "count_untrusted p = p\<lparr> NumberOfUntrustedImageLoads := NumberOfUntrustedImageLoads p + 1 \<rparr>"

definition KphpHandleUntrustedImageLoad ::
  "IMAGE_KERNEL \<Rightarrow> KPH_PROCESS_CONTEXT \<Rightarrow> u64 \<Rightarrow> KPH_PROCESS_CONTEXT \<times> image_apc list" where
  "KphpHandleUntrustedImageLoad K p imageBase =
     (if DisableImageLoadProtection K then (count_untrusted p, [])
      else if NumberOfImageLoads p = 1 \<and> PsGetProcessSectionBaseAddress K = imageBase
      then (count_untrusted p, [])
      else if insufficient_tracking K then (count_untrusted p, [])
      else if \<not> NT_SUCCESS (KphCheckProcessApcNoopRoutine K) then (count_untrusted p, [])
      else if imageBase > MmHighestUserAddress K then (p, [])
      else if \<not> NT_SUCCESS (KphCreateObject K) then (count_untrusted p, [])
      else if \<not> KsiInsertQueueApc K then (count_untrusted p, [])
      else (p, [FirstApc imageBase]))"

text \<open>The counter of a signing level that Microsoft vouches for.\<close>

definition counter_of_level :: "u8 \<Rightarrow> (KPH_PROCESS_CONTEXT \<Rightarrow> KPH_PROCESS_CONTEXT) option" where
  "counter_of_level level =
     (if level = SE_SIGNING_LEVEL_MICROSOFT \<or> level = SE_SIGNING_LEVEL_WINDOWS \<or>
         level = SE_SIGNING_LEVEL_WINDOWS_TCB
      then Some (\<lambda>p. p\<lparr> NumberOfMicrosoftImageLoads := NumberOfMicrosoftImageLoads p + 1 \<rparr>)
      else if level = SE_SIGNING_LEVEL_ANTIMALWARE
      then Some (\<lambda>p. p\<lparr> NumberOfAntimalwareImageLoads := NumberOfAntimalwareImageLoads p + 1 \<rparr>)
      else None)"

text \<open>The decision of \<open>KphpApplyImageProtections\<close>: the counter of a trusted image, or none.\<close>

definition trusted_counter ::
  "KERNEL \<Rightarrow> IMAGE_KERNEL \<Rightarrow> nat \<Rightarrow> (KPH_PROCESS_CONTEXT \<Rightarrow> KPH_PROCESS_CONTEXT) option" where
  "trusted_counter E K fileObject =
     (if WriteAccess (file_object E fileObject) then None
      else if IoGetTransactionParameterBlock E fileObject then None
      else if (case SectionObjectPointer (file_object E fileObject) of
                 None \<Rightarrow> True
               | Some s \<Rightarrow> MmDoesFileHaveUserWritableReferences E s) then None
      else if \<not> NT_SUCCESS (KphpReOpenImageFile K) then None
      else if \<not> KphIsSameFile K then None
      else
        let (status, signingLevel) = KphGetSigningLevel K;
            signingLevel = (if \<not> NT_SUCCESS status then SE_SIGNING_LEVEL_UNCHECKED else signingLevel);
            imageLoadCounter =
              (case counter_of_level signingLevel of
                 Some c \<Rightarrow> Some c
               | None \<Rightarrow>
                   if NT_SUCCESS (KphVerifyFileObject K)
                   then Some (\<lambda>p. p\<lparr> NumberOfVerifiedImageLoads := NumberOfVerifiedImageLoads p + 1 \<rparr>)
                   else None) in
        if \<not> NT_SUCCESS (KphCheckImageCoherency K) then None else imageLoadCounter)"

definition KphpApplyImageProtections ::
  "KERNEL \<Rightarrow> IMAGE_KERNEL \<Rightarrow> KPH_PROCESS_CONTEXT \<Rightarrow> u64 \<Rightarrow> nat
     \<Rightarrow> KPH_PROCESS_CONTEXT \<times> image_apc list" where
  "KphpApplyImageProtections E K p imageBase fileObject =
     (case trusted_counter E K fileObject of
        Some imageLoadCounter \<Rightarrow> (imageLoadCounter p, [])
      | None \<Rightarrow> KphpHandleUntrustedImageLoad K p imageBase)"

definition KphpApplyImageProtectionsApcsDisabled ::
  "IMAGE_KERNEL \<Rightarrow> KPH_PROCESS_CONTEXT \<Rightarrow> u64 \<Rightarrow> nat \<Rightarrow> KPH_PROCESS_CONTEXT \<times> image_apc list" where
  "KphpApplyImageProtectionsApcsDisabled K p imageBase fileObject =
     (if \<not> NT_SUCCESS (KphCreateObject K) then (count_untrusted p, [])
      else if \<not> KsiInsertQueueApc K then (count_untrusted p, [])
      else (p, [DeferredApc imageBase fileObject]))"

text \<open>\<open>e\<close> is the process, \<open>l\<close> the cached identifier of lsass, which an evaluation may change.\<close>

definition KphApplyImageProtections ::
  "KERNEL \<Rightarrow> IMAGE_KERNEL \<Rightarrow> nat \<Rightarrow> u8 \<Rightarrow> u64 \<Rightarrow> nat \<Rightarrow> KPH_PROCESS_CONTEXT \<times> u64
     \<Rightarrow> (KPH_PROCESS_CONTEXT \<times> u64) \<times> image_apc list" where
  "KphApplyImageProtections E K e imageSignatureLevel imageBase fileObject s =
     (let (isProtected, p, l) = KphIsProtectedProcess E e s in
      if \<not> isProtected then ((p, l), [])
      else case counter_of_level imageSignatureLevel of
        Some imageLoadCounter \<Rightarrow> ((imageLoadCounter p, l), [])
      | None \<Rightarrow>
          let (p, apcs) =
                (if KeAreAllApcsDisabled K
                 then KphpApplyImageProtectionsApcsDisabled K p imageBase fileObject
                 else KphpApplyImageProtections E K p imageBase fileObject) in
          ((p, l), apcs))"

subsection \<open>The APCs\<close>

text \<open>The routines report whether the image was unmapped.\<close>

definition KphpImageLoadKernelRoutineFirst ::
  "IMAGE_KERNEL \<Rightarrow> KPH_PROCESS_CONTEXT \<Rightarrow> u64 \<Rightarrow> KPH_PROCESS_CONTEXT \<times> image_apc list" where
  "KphpImageLoadKernelRoutineFirst K p imageBase =
     (if \<not> NT_SUCCESS (KphCreateObject K) then (count_untrusted p, [])
      else if \<not> KsiInsertQueueApc K then (count_untrusted p, [])
      else (p, [SecondApc imageBase]))"

definition KphpImageLoadKernelNormalRoutine ::
  "IMAGE_KERNEL \<Rightarrow> KPH_PROCESS_CONTEXT \<Rightarrow> u64 \<Rightarrow> KPH_PROCESS_CONTEXT \<times> bool" where
  "KphpImageLoadKernelNormalRoutine K p imageBase =
     (if \<not> NT_SUCCESS (ZwUnmapViewOfSection K) then (count_untrusted p, False) else (p, True))"

definition KphpImageLoadKernelNormalRoutineApcsDisabled ::
  "KERNEL \<Rightarrow> IMAGE_KERNEL \<Rightarrow> KPH_PROCESS_CONTEXT \<Rightarrow> u64 \<Rightarrow> nat
     \<Rightarrow> KPH_PROCESS_CONTEXT \<times> image_apc list" where
  "KphpImageLoadKernelNormalRoutineApcsDisabled E K p imageBase fileObject =
     KphpApplyImageProtections E K p imageBase fileObject"

definition run_apc ::
  "KERNEL \<Rightarrow> IMAGE_KERNEL \<Rightarrow> image_apc \<Rightarrow> KPH_PROCESS_CONTEXT
     \<Rightarrow> KPH_PROCESS_CONTEXT \<times> image_apc list \<times> bool" where
  "run_apc E K apc p =
     (case apc of
        FirstApc b \<Rightarrow> let (p, apcs) = KphpImageLoadKernelRoutineFirst K p b in (p, apcs, False)
      | SecondApc b \<Rightarrow> let (p, unmapped) = KphpImageLoadKernelNormalRoutine K p b in (p, [], unmapped)
      | DeferredApc b f \<Rightarrow>
          let (p, apcs) = KphpImageLoadKernelNormalRoutineApcsDisabled E K p b f in (p, apcs, False))"

text \<open>
  An APC that never runs, because its thread exits or because it is taken out of the queue of the
  thread, is run down (ksidll.c): only its cleanup routine is called, which lets go of the object and
  takes no notice of why. After an APC that ran it is called as well.
\<close>

definition KphpImageLoadCleanupRoutine :: "image_apc \<Rightarrow> KPH_PROCESS_CONTEXT \<Rightarrow> KPH_PROCESS_CONTEXT" where
  "KphpImageLoadCleanupRoutine apc p = p"

definition KsipApcRundownRoutine :: "image_apc \<Rightarrow> KPH_PROCESS_CONTEXT \<Rightarrow> KPH_PROCESS_CONTEXT" where
  "KsipApcRundownRoutine apc p = KphpImageLoadCleanupRoutine apc p"

section \<open>Every image is accounted for\<close>

text \<open>
  The loads of a protected process and the APCs they queue, in any order: APCs of different threads
  may run, or be run down, in any order, so any queued one may be next. \<open>unmapped\<close> counts the images
  taken out of the process again, \<open>run_down\<close> the APCs that never ran.
\<close>

record IMAGES =
  img_process :: KPH_PROCESS_CONTEXT
  lsass_id :: u64
  queued :: "image_apc list"
  unmapped :: nat
  run_down :: nat

datatype image_event =
    ImageLoad KERNEL IMAGE_KERNEL (level_of: u8) (base_of: u64) nat
  | RunApc KERNEL IMAGE_KERNEL nat
  | RundownApc nat

fun image_step :: "nat \<Rightarrow> image_event \<Rightarrow> IMAGES \<Rightarrow> IMAGES" where
  "image_step e (ImageLoad E K level base f) s =
     (let ((p, l), apcs) = KphApplyImageProtections E K e level base f (img_process s, lsass_id s) in
      s\<lparr> img_process := p, lsass_id := l, queued := queued s @ apcs \<rparr>)"
| "image_step e (RunApc E K i) s =
     (if i < length (queued s) then
        let (p, apcs, u) = run_apc E K (queued s ! i) (img_process s) in
        s\<lparr> img_process := p, queued := take i (queued s) @ drop (Suc i) (queued s) @ apcs,
           unmapped := unmapped s + (if u then 1 else 0) \<rparr>
      else s)"
| "image_step e (RundownApc i) s =
     (if i < length (queued s)
      then s\<lparr> img_process := KsipApcRundownRoutine (queued s ! i) (img_process s),
              queued := take i (queued s) @ drop (Suc i) (queued s), run_down := run_down s + 1 \<rparr>
      else s)"

definition image_steps :: "nat \<Rightarrow> image_event list \<Rightarrow> IMAGES \<Rightarrow> IMAGES" where
  "image_steps e evs s = foldl (\<lambda>s ev. image_step e ev s) s evs"

fun is_load :: "image_event \<Rightarrow> bool" where
  "is_load (ImageLoad E K level base f) = True"
| "is_load (RunApc E K i) = False"
| "is_load (RundownApc i) = False"

text \<open>
  The images lie below the highest user address \<open>H\<close>; behind it the code takes no notice of an image.
\<close>

fun user_image :: "u64 \<Rightarrow> image_event \<Rightarrow> bool" where
  "user_image H (ImageLoad E K level base f) = (base \<le> H \<and> MmHighestUserAddress K = H)"
| "user_image H (RunApc E K i) = (MmHighestUserAddress K = H)"
| "user_image H (RundownApc i) = True"

text \<open>The events at which an image is found to be trusted.\<close>

fun trusts :: "IMAGES \<Rightarrow> image_event \<Rightarrow> bool" where
  "trusts s (ImageLoad E K level base f) =
     (counter_of_level level \<noteq> None \<or> \<not> KeAreAllApcsDisabled K \<and> trusted_counter E K f \<noteq> None)"
| "trusts s (RunApc E K i) =
     (i < length (queued s) \<and>
      (case queued s ! i of DeferredApc b f \<Rightarrow> trusted_counter E K f \<noteq> None | _ \<Rightarrow> False))"
| "trusts s (RundownApc i) = False"

fun trusted_events :: "nat \<Rightarrow> image_event list \<Rightarrow> IMAGES \<Rightarrow> nat" where
  "trusted_events e [] s = 0"
| "trusted_events e (ev # evs) s =
     (if trusts s ev then 1 else 0) + trusted_events e evs (image_step e ev s)"

definition counted_trusted :: "KPH_PROCESS_CONTEXT \<Rightarrow> nat" where
  "counted_trusted p = unat (NumberOfMicrosoftImageLoads p) + unat (NumberOfAntimalwareImageLoads p) +
     unat (NumberOfVerifiedImageLoads p)"

definition counted :: "KPH_PROCESS_CONTEXT \<Rightarrow> nat" where
  "counted p = counted_trusted p + unat (NumberOfUntrustedImageLoads p)"

lemmas counted_defs = counted_def counted_trusted_def

lemma unat_inc64: "unat (a :: u64) < 18446744073709551615 \<Longrightarrow> unat (a + 1) = unat a + 1"
  by (subst unat_add_fits) simp_all

lemma counted_untrusted:
  "counted p < 18446744073709551615 \<Longrightarrow>
     counted (count_untrusted p) = counted p + 1 \<and> counted_trusted (count_untrusted p) = counted_trusted p"
  by (simp add: counted_defs count_untrusted_def unat_inc64)

lemma counted_level:
  "counter_of_level level = Some c \<Longrightarrow> counted p < 18446744073709551615 \<Longrightarrow>
   counted (c p) = counted p + 1 \<and> counted_trusted (c p) = counted_trusted p + 1"
  by (auto simp: counted_defs counter_of_level_def unat_inc64 split: if_splits)

lemma counted_image:
  assumes "trusted_counter E K f = Some c" and "counted p < 18446744073709551615"
  shows "counted (c p) = counted p + 1 \<and> counted_trusted (c p) = counted_trusted p + 1"
  using assms
  by (auto simp: trusted_counter_def Let_def counted_level split: if_splits option.splits prod.splits)
    (auto simp: counted_defs unat_inc64)

lemma handle_untrusted_accounts:
  assumes "KphpHandleUntrustedImageLoad K p b = (p', apcs)" "b \<le> MmHighestUserAddress K"
    and "counted p < 18446744073709551615"
  shows "counted p' + length apcs = counted p + 1 \<and> counted_trusted p' = counted_trusted p"
    and "\<forall>a \<in> set apcs. apc_base a = b"
  using assms
  by (auto simp: KphpHandleUntrustedImageLoad_def counted_untrusted not_less split: if_splits)

lemma apply_accounts:
  assumes "KphpApplyImageProtections E K p b f = (p', apcs)" "b \<le> MmHighestUserAddress K"
    and "counted p < 18446744073709551615"
  shows "counted p' + length apcs = counted p + 1"
    and "counted_trusted p' = counted_trusted p + (if trusted_counter E K f \<noteq> None then 1 else 0)"
    and "\<forall>a \<in> set apcs. apc_base a = b"
  using assms counted_image [of E K f _ p] handle_untrusted_accounts [of K p b]
  by (auto simp: KphpApplyImageProtections_def split: option.splits)

lemma run_apc_accounts:
  assumes "run_apc E K apc p = (p', apcs, u)" "apc_base apc \<le> MmHighestUserAddress K"
    and "counted p < 18446744073709551615"
  shows "counted p' + length apcs + (if u then 1 else 0) = counted p + 1"
    and "counted_trusted p' = counted_trusted p +
          (case apc of DeferredApc b f \<Rightarrow> if trusted_counter E K f \<noteq> None then 1 else 0 | _ \<Rightarrow> 0)"
    and "\<forall>a \<in> set apcs. apc_base a = apc_base apc"
  using assms apply_accounts [of E K p]
  by (cases apc;
      auto simp: run_apc_def KphpImageLoadKernelRoutineFirst_def KphpImageLoadKernelNormalRoutine_def
      KphpImageLoadKernelNormalRoutineApcsDisabled_def counted_untrusted Let_def
      split: if_splits prod.splits)+

text \<open>Only the counters, the evaluation and the tracked facts change; protection stays as it is.\<close>

lemma counters_frame:
  "Protection (count_untrusted p) = Protection p"
  "counter_of_level level = Some c \<Longrightarrow> Protection (c p) = Protection p"
  "trusted_counter E K f = Some c \<Longrightarrow> Protection (c p) = Protection p"
  by (auto simp: count_untrusted_def counter_of_level_def trusted_counter_def Let_def
      split: if_splits option.splits prod.splits)

lemma apply_frame:
  "Protection (fst (KphpHandleUntrustedImageLoad K p b)) = Protection p"
  "Protection (fst (KphpApplyImageProtections E K p b f)) = Protection p"
  by (auto simp: KphpHandleUntrustedImageLoad_def KphpApplyImageProtections_def counters_frame
      split: option.splits)

lemma run_apc_frame: "Protection (fst (run_apc E K apc p)) = Protection p"
  by (auto simp: run_apc_def KphpImageLoadKernelRoutineFirst_def
      KphpImageLoadKernelNormalRoutine_def KphpImageLoadKernelNormalRoutineApcsDisabled_def
      counters_frame Let_def case_prod_beta apply_frame split: image_apc.splits)

lemma protected_query:
  assumes "active p" "evaluated p"
  shows "KphIsProtectedProcess E e (p, l) = (True, p, l)"
  using assms by (simp add: KphIsProtectedProcess_def protection_state_runs active_def)


definition image_inv :: "u64 \<Rightarrow> IMAGES \<Rightarrow> bool" where
  "image_inv H s \<longleftrightarrow> active (img_process s) \<and> evaluated (img_process s) \<and>
     (\<forall>a \<in> set (queued s). apc_base a \<le> H)"

lemma load_accounts:
  assumes run: "KphApplyImageProtections E K e level b f (p, l) = ((p', l'), apcs)"
    and p: "active p" "evaluated p"
    and b: "b \<le> MmHighestUserAddress K" and room: "counted p < 18446744073709551615"
  shows "counted p' + length apcs = counted p + 1"
    and "counted_trusted p' = counted_trusted p +
          (if counter_of_level level \<noteq> None \<or>
              \<not> KeAreAllApcsDisabled K \<and> trusted_counter E K f \<noteq> None then 1 else 0)"
    and "\<forall>a \<in> set apcs. apc_base a = b"
    and "Protection p' = Protection p"
  using run room b p counted_level [of level _ p] apply_accounts [of E K p b f p' apcs]
    apply_frame(2) [of E K p b f] counters_frame(2) [of level _ p]
  by (auto simp: KphApplyImageProtections_def protected_query
      KphpApplyImageProtectionsApcsDisabled_def counted_untrusted counters_frame(1)
      split: option.splits prod.splits if_splits)

lemma image_step_accounts:
  assumes inv: "image_inv H s" and user: "user_image H ev"
    and room: "counted (img_process s) < 18446744073709551615"
  shows "image_inv H (image_step e ev s)"
    and "counted (img_process (image_step e ev s)) + unmapped (image_step e ev s) + run_down (image_step e ev s) +
           length (queued (image_step e ev s)) =
         counted (img_process s) + unmapped s + run_down s + length (queued s) + (if is_load ev then 1 else 0)"
    and "counted_trusted (img_process (image_step e ev s)) =
         counted_trusted (img_process s) + (if trusts s ev then 1 else 0)"
    and "counted (img_process (image_step e ev s)) \<le> counted (img_process s) + 1"
proof -
  have p: "active (img_process s)" "evaluated (img_process s)" and q: "\<forall>a \<in> set (queued s). apc_base a \<le> H"
    using inv by (auto simp: image_inv_def)
  have keep: "active p' \<and> evaluated p'" if "Protection p' = Protection (img_process s)" for p'
    using p that by (simp add: active_def evaluated_def)
  consider (load) E K level b f where "ev = ImageLoad E K level b f"
    | (apc) E K i where "ev = RunApc E K i" "i < length (queued s)"
    | (rundown) i where "ev = RundownApc i" "i < length (queued s)"
    | (idle) E K i where "ev = RunApc E K i" "\<not> i < length (queued s)"
    | (gone) i where "ev = RundownApc i" "\<not> i < length (queued s)"
    by (cases ev) auto
  then have "image_inv H (image_step e ev s) \<and>
    counted (img_process (image_step e ev s)) + unmapped (image_step e ev s) + run_down (image_step e ev s) +
           length (queued (image_step e ev s)) =
         counted (img_process s) + unmapped s + run_down s + length (queued s) + (if is_load ev then 1 else 0) \<and>
    counted_trusted (img_process (image_step e ev s)) =
         counted_trusted (img_process s) + (if trusts s ev then 1 else 0) \<and>
    counted (img_process (image_step e ev s)) \<le> counted (img_process s) + 1"
  proof cases
    case load
    obtain p' l' apcs where run: "KphApplyImageProtections E K e level b f (img_process s, lsass_id s) =
        ((p', l'), apcs)" by (metis prod_cases3 surj_pair)
    have b: "b \<le> MmHighestUserAddress K" "b \<le> H" using user load by auto
    note acc = load_accounts [OF run p b(1) room]
    show ?thesis
      using acc keep [OF acc(4)] q b(2) by (auto simp: load run image_inv_def)
  next
    case apc
    obtain p' apcs u where run: "run_apc E K (queued s ! i) (img_process s) = (p', apcs, u)"
      by (metis prod_cases3)
    have b: "apc_base (queued s ! i) \<le> MmHighestUserAddress K" "apc_base (queued s ! i) \<le> H"
      using user apc q by auto
    note acc = run_apc_accounts [OF run b(1) room]
    have fr: "Protection p' = Protection (img_process s)"
      using run_apc_frame [of E K "queued s ! i" "img_process s"] run by simp
    have "\<forall>a \<in> set (take i (queued s) @ drop (Suc i) (queued s) @ apcs). apc_base a \<le> H"
      using q acc(3) b(2) by (auto dest: in_set_takeD in_set_dropD)
    then show ?thesis
      using acc keep [OF fr] apc(2)
      by (auto simp: apc(1) run image_inv_def split: image_apc.splits)
  next
    case rundown
    have "\<forall>a \<in> set (take i (queued s) @ drop (Suc i) (queued s)). apc_base a \<le> H"
      using q by (auto dest: in_set_takeD in_set_dropD)
    then show ?thesis
      using inv rundown
      by (auto simp: image_inv_def KsipApcRundownRoutine_def KphpImageLoadCleanupRoutine_def)
  next
    case idle
    then show ?thesis using inv by simp
  next
    case gone
    then show ?thesis using inv by simp
  qed
  then show "image_inv H (image_step e ev s)"
    and "counted (img_process (image_step e ev s)) + unmapped (image_step e ev s) + run_down (image_step e ev s) +
           length (queued (image_step e ev s)) =
         counted (img_process s) + unmapped s + run_down s + length (queued s) + (if is_load ev then 1 else 0)"
    and "counted_trusted (img_process (image_step e ev s)) =
         counted_trusted (img_process s) + (if trusts s ev then 1 else 0)"
    and "counted (img_process (image_step e ev s)) \<le> counted (img_process s) + 1" by auto
qed

lemma image_steps_account:
  assumes "image_inv H s" and "\<forall>ev \<in> set evs. user_image H ev"
    and "counted (img_process s) + length evs < 18446744073709551616"
  shows "image_inv H (image_steps e evs s) \<and>
    counted (img_process (image_steps e evs s)) + unmapped (image_steps e evs s) + run_down (image_steps e evs s) +
      length (queued (image_steps e evs s)) =
    counted (img_process s) + unmapped s + run_down s + length (queued s) + length (filter is_load evs) \<and>
    counted_trusted (img_process (image_steps e evs s)) =
    counted_trusted (img_process s) + trusted_events e evs s"
  using assms
proof (induction evs arbitrary: s)
  case Nil
  then show ?case by (simp add: image_steps_def)
next
  case (Cons ev evs)
  have room: "counted (img_process s) < 18446744073709551615" using Cons.prems(3) by simp
  note acc = image_step_accounts [OF Cons.prems(1) _ room, of ev e]
  have "user_image H ev" using Cons.prems(2) by simp
  note acc = acc [OF this]
  have "counted (img_process (image_step e ev s)) + length evs < 18446744073709551616"
    using acc(4) Cons.prems(3) by simp
  from Cons.IH [OF acc(1) _ this] Cons.prems(2) acc(2,3) show ?case
    by (simp add: image_steps_def)
qed

text \<open>
  C8: Which images go unnoticed, and which do not. For any sequence of loads of images that lie below
  the highest user address into a protected process, and of the APCs they queue, which run or are run
  down without running, whatever fails on the way, every load is accounted for exactly once: it is
  counted as trusted, which happens only if its signature level or the check of the file says so,
  counted as untrusted, unmapped again, still waiting in an APC, or its APC was run down. The last is
  the only way in which an image escapes: the process stays protected, and if no APC waits and an
  image was neither found trusted nor unmapped nor lost with an APC that was run down, the process is
  barred from the maximum state. There are fewer than 2^64 events.
\<close>

theorem images_accounted:
  assumes "active (img_process s)" "evaluated (img_process s)" "queued s = []" "unmapped s = 0"
    and "run_down s = 0" and "\<forall>ev \<in> set evs. user_image H ev"
    and "counted (img_process s) + length evs < 2 ^ 64"
    and "image_steps e evs s = s'"
  shows "counted (img_process s') + unmapped s' + run_down s' + length (queued s') =
           counted (img_process s) + length (filter is_load evs) \<and>
    counted_trusted (img_process s') = counted_trusted (img_process s) + trusted_events e evs s \<and>
    active (img_process s') \<and>
    (queued s' = [] \<and> unmapped s' + run_down s' + trusted_events e evs s < length (filter is_load evs) \<longrightarrow>
       barred (img_process s'))"
proof -
  have run: "image_inv H s' \<and>
    counted (img_process s') + unmapped s' + run_down s' + length (queued s') =
    counted (img_process s) + length (filter is_load evs) \<and>
    counted_trusted (img_process s') = counted_trusted (img_process s) + trusted_events e evs s"
    using image_steps_account [of H s evs e] assms by (auto simp: image_inv_def)
  have "barred (img_process s')" if "queued s' = []"
    "unmapped s' + run_down s' + trusted_events e evs s < length (filter is_load evs)"
  proof -
    have "unat (NumberOfUntrustedImageLoads (img_process s')) \<noteq> 0"
      using run that by (simp add: counted_def)
    then have "NumberOfUntrustedImageLoads (img_process s') \<noteq> 0" by (metis unsigned_0)
    then show ?thesis by (simp add: barred_def)
  qed
  with run show ?thesis by (simp add: image_inv_def)
qed

text \<open>
  A process is sent an image signed by Microsoft, one that is not trusted and is unmapped by its APCs,
  one whose APC is run down, and one whose APC cannot be queued.
\<close>

definition example_images :: "bool \<Rightarrow> IMAGE_KERNEL" where
  "example_images queue =
     \<lparr> KeAreAllApcsDisabled = False, KphpReOpenImageFile = STATUS_SUCCESS, KphIsSameFile = True,
       KphGetSigningLevel = (STATUS_SUCCESS, 0), KphVerifyFileObject = STATUS_UNSUCCESSFUL,
       KphCheckImageCoherency = STATUS_SUCCESS, DisableImageLoadProtection = False,
       PsGetProcessSectionBaseAddress = 0x1000, insufficient_tracking = False,
       KphCheckProcessApcNoopRoutine = STATUS_SUCCESS, MmHighestUserAddress = 0xffff0000,
       KphCreateObject = STATUS_SUCCESS, KsiInsertQueueApc = queue,
       ZwUnmapViewOfSection = STATUS_SUCCESS \<rparr>"

definition example_events :: "image_event list" where
  "example_events =
     [ImageLoad example_kernel (example_images True) 12 0x4000 10,
      ImageLoad example_kernel (example_images True) 0 0x8000 10,
      RunApc example_kernel (example_images True) 0,
      RunApc example_kernel (example_images True) 0,
      ImageLoad example_kernel (example_images True) 0 0xa000 10, RundownApc 0,
      ImageLoad example_kernel (example_images False) 0 0x9000 10]"

definition example_process :: IMAGES where
  "example_process =
     \<lparr> img_process = protected KPH_PROTECTED_PROCESS_MASK KPH_PROTECTED_THREAD_MASK
                   (KphpInitializeProcessContext 20 (Some []) (Some 10) False),
       lsass_id = 99, queued = [], unmapped = 0, run_down = 0 \<rparr>"

theorem images_accounted_witness:
  "unmapped (image_steps 20 example_events example_process) = 1 \<and>
   barred (img_process (image_steps 20 example_events example_process))"
proof -
  have run: "queued (image_steps 20 example_events example_process) = []"
    "unmapped (image_steps 20 example_events example_process) = 1"
    "run_down (image_steps 20 example_events example_process) = 1"
    "trusted_events 20 example_events example_process = 1"
    "length (filter is_load example_events) = 4" "length example_events = 7"
    by code_simp+
  have start: "active (img_process example_process)" "evaluated (img_process example_process)"
    "queued example_process = []" "unmapped example_process = 0" "run_down example_process = 0" "counted (img_process example_process) = 0"
    by (simp_all add: example_process_def counted_defs KphpInitializeProcessContext_def protected_def
        evaluated_def active_def protection_bits)
  have user: "\<forall>ev \<in> set example_events. user_image 0xffff0000 ev"
    by (simp add: example_events_def example_images_def)
  from images_accounted [OF start(1-5) user _ refl, of 20] run start(6) show ?thesis by simp
qed

text \<open>
  An image that escapes: the file is not trusted, its APC is queued, and the thread exits before it
  runs. The image is still mapped, nothing was counted, and nothing bars the process.
\<close>

lemma rundown_unnoticed:
  "let s = image_steps 20 [ImageLoad example_kernel (example_images True) 0 0x8000 10, RundownApc 0] example_process in
   unmapped s = 0 \<and> NumberOfUntrustedImageLoads (img_process s) = 0 \<and> \<not> barred (img_process s)"
  by code_simp

end
