(* ===== verification/Protection.thy ===== *)
theory Protection
  imports ImageProtection
begin

text \<open>
  The protection of processes: ProcessHacker/KSystemInformer/protection.c. Handles to a protected
  process and to its threads are opened with at most the allowed rights unless the actor is allowed
  more, and the handles that exist are stripped when the allowed masks are reduced. The last section
  puts the operations together; theory \<open>Confinement\<close> shows what they keep.
\<close>

section \<open>Handles and the objects they refer to\<close>

text \<open>
  \<open>ThreadObject t e\<close> is the thread \<open>t\<close> of the process \<open>e\<close> (PsGetThreadProcess). Handles are 64-bit
  values; those of the kernel are negative.
\<close>

datatype ob_object = ProcessObject nat | ThreadObject nat nat | OtherObject nat

record HANDLE_TABLE_ENTRY =
  Handle :: u64
  Object :: ob_object
  GrantedAccess :: u32

definition OBJ_GRANTED_ACCESS_MASK :: u32 where "OBJ_GRANTED_ACCESS_MASK = 0x01ffffff"

definition ObpDecodeGrantedAccess :: "u32 \<Rightarrow> u32" where
  "ObpDecodeGrantedAccess access = access AND OBJ_GRANTED_ACCESS_MASK"

definition ObpSetGrantedAccess :: "u32 \<Rightarrow> u32 \<Rightarrow> u32" where
  "ObpSetGrantedAccess grantedAccess access =
     access OR (grantedAccess AND NOT OBJ_GRANTED_ACCESS_MASK)"

definition IsKernelHandle :: "u64 \<Rightarrow> bool" where "IsKernelHandle h = (sint h < 0)"

datatype OB_OPERATION =
    OB_OPERATION_HANDLE_CREATE
  | OB_OPERATION_HANDLE_DUPLICATE (SourceProcess: nat) (TargetProcess: nat)

record OB_PRE_OPERATION_INFORMATION =
  Operation :: OB_OPERATION
  KernelHandle :: bool
  ObObject :: ob_object
  DesiredAccess :: u32

record KPH_THREAD_CONTEXT =
  ProcessContext :: "nat option"
  IsCreatingProcess :: bool
  IsCreatingProcessId :: u64

text \<open>
  The state of the system: the process contexts by the address of the process, the order in which
  the CID table enumerates them, the cached identifier of lsass, and the handle tables.
\<close>

record SYSTEM =
  contexts :: "nat \<Rightarrow> KPH_PROCESS_CONTEXT option"
  tracked :: "nat list"
  lsass :: u64
  handles :: "nat \<Rightarrow> HANDLE_TABLE_ENTRY list"

definition put_context :: "nat \<Rightarrow> KPH_PROCESS_CONTEXT \<times> u64 \<Rightarrow> SYSTEM \<Rightarrow> SYSTEM" where
  "put_context e = (\<lambda>(p, l) S. S\<lparr> contexts := (contexts S)(e \<mapsto> p), lsass := l \<rparr>)"

text \<open>A test of the state of a process that has a context.\<close>

definition test_state :: "KERNEL \<Rightarrow> nat \<Rightarrow> u32 \<Rightarrow> SYSTEM \<Rightarrow> bool \<times> SYSTEM" where
  "test_state K e state S =
     (case contexts S e of
        None \<Rightarrow> (False, S)
      | Some p \<Rightarrow> let (r, s) = KphTestProcessContextState K e state (p, lsass S) in (r, put_context e s S))"

definition is_protected :: "KERNEL \<Rightarrow> nat \<Rightarrow> SYSTEM \<Rightarrow> bool \<times> SYSTEM" where
  "is_protected K e S =
     (case contexts S e of
        None \<Rightarrow> (False, S)
      | Some p \<Rightarrow> let (r, s) = KphIsProtectedProcess K e (p, lsass S) in (r, put_context e s S))"

section \<open>Who is allowed\<close>

datatype KPROCESSOR_MODE = KernelMode | UserMode

definition KphDominationCheck :: "KERNEL \<Rightarrow> nat \<Rightarrow> nat \<Rightarrow> KPROCESSOR_MODE \<Rightarrow> ntstatus" where
  "KphDominationCheck K Process ProcessTarget accessMode =
     (if accessMode = KernelMode then STATUS_SUCCESS
      else
        let processProtection = PsGetProcessProtection K Process;
            targetProtection = PsGetProcessProtection K ProcessTarget in
        if ProtectedType targetProtection \<noteq> PsProtectedTypeNone \<and>
           ProtectedType targetProtection \<ge> ProtectedType processProtection
        then STATUS_ACCESS_DENIED
        else STATUS_SUCCESS)"

text \<open>What follows the tests of the states: protected processes and lsass are allowed.\<close>

definition allow_protected_or_lsass ::
  "KERNEL \<Rightarrow> nat \<Rightarrow> nat \<Rightarrow> SYSTEM \<Rightarrow> (ntstatus \<times> bool) \<times> SYSTEM" where
  "allow_protected_or_lsass K actor ob S =
     (if \<not> NT_SUCCESS (KphDominationCheck K ob actor UserMode) then ((STATUS_SUCCESS, True), S)
      else
        let ((status, isLsass), l) = KphProcessIsLsass K actor (lsass S);
            S = S\<lparr> lsass := l \<rparr> in
        if \<not> NT_SUCCESS status then ((status, False), S)
        else if isLsass then ((status, True), S)
        else ((status, False), S))"

definition KphpShouldAllowObjectAccess ::
  "KERNEL \<Rightarrow> OB_OPERATION option \<Rightarrow> nat \<Rightarrow> nat \<Rightarrow> SYSTEM \<Rightarrow> (ntstatus \<times> bool) \<times> SYSTEM" where
  "KphpShouldAllowObjectAccess K info actor ob S =
     (case info of
        Some (OB_OPERATION_HANDLE_DUPLICATE sourceProcess targetProcess) \<Rightarrow>
          if ob = actor \<and> ob = sourceProcess \<and> ob = targetProcess then ((STATUS_SUCCESS, True), S)
          else if contexts S sourceProcess = None then ((STATUS_INVALID_CID, False), S)
          else if contexts S targetProcess = None then ((STATUS_INVALID_CID, False), S)
          else
            let (a, S) = test_state K actor KPH_PROCESS_STATE_MAXIMUM S;
                (b, S) = (if a then test_state K sourceProcess KPH_PROCESS_STATE_MAXIMUM S
                          else (False, S));
                (c, S) = (if b then test_state K targetProcess KPH_PROCESS_STATE_MAXIMUM S
                          else (False, S)) in
            if c then ((STATUS_SUCCESS, True), S) else allow_protected_or_lsass K actor ob S
      | _ \<Rightarrow>
          if actor = ob then ((STATUS_SUCCESS, True), S)
          else
            let (a, S) = test_state K actor KPH_PROCESS_STATE_MAXIMUM S;
                (b, S) = (if a then test_state K ob KPH_PROCESS_STATE_MAXIMUM S else (False, S)) in
            if b then ((STATUS_SUCCESS, True), S) else allow_protected_or_lsass K actor ob S)"

section \<open>Opening and duplicating handles\<close>

definition KphpShouldPermitCreatorProcess ::
  "KERNEL \<Rightarrow> OB_OPERATION \<Rightarrow> KPH_THREAD_CONTEXT \<Rightarrow> nat \<Rightarrow> nat \<Rightarrow> SYSTEM \<Rightarrow> bool \<times> SYSTEM" where
  "KphpShouldPermitCreatorProcess K operation actor actorProcess process S =
     (case operation of
        OB_OPERATION_HANDLE_DUPLICATE _ _ \<Rightarrow> (False, S)
      | OB_OPERATION_HANDLE_CREATE \<Rightarrow>
          if \<not> IsCreatingProcess actor \<or>
             Some (IsCreatingProcessId actor) \<noteq> map_option ProcessId (contexts S process)
          then (False, S)
          else test_state K actorProcess KPH_PROCESS_STATE_MINIMUM S)"

text \<open>The process that an operation is about: \<open>None\<close> for other objects and for what is untracked.\<close>

definition process_of :: "KERNEL \<Rightarrow> ob_object \<Rightarrow> SYSTEM \<Rightarrow> nat option" where
  "process_of K ob S =
     (case ob of
        ProcessObject e \<Rightarrow> if contexts S e = None then None else Some e
      | ThreadObject t _ \<Rightarrow>
          (case thread_context K t of
             None \<Rightarrow> None
           | Some e \<Rightarrow> if contexts S e = None then None else Some e)
      | OtherObject _ \<Rightarrow> None)"

definition extra_rights :: "ob_object \<Rightarrow> u32" where
  "extra_rights ob =
     (case ob of
        ProcessObject _ \<Rightarrow> KPH_PROCESS_READ_ACCESS OR PROCESS_TERMINATE OR PROCESS_VM_OPERATION OR
                           PROCESS_VM_WRITE
      | _ \<Rightarrow> KPH_THREAD_READ_ACCESS OR THREAD_TERMINATE OR THREAD_RESUME)"

definition allowed_mask :: "ob_object \<Rightarrow> KPH_PROCESS_CONTEXT \<Rightarrow> u32" where
  "allowed_mask ob p =
     (case ob of
        ProcessObject _ \<Rightarrow> ProcessAllowedMask (Protection p)
      | _ \<Rightarrow> ThreadAllowedMask (Protection p))"

text \<open>
  The part of \<open>KphApplyObProtections\<close> for an actor that is not allowed: the access is cut down to
  the allowed mask, which the creator of the process may exceed.
\<close>

definition strip_access ::
  "KERNEL \<Rightarrow> KPH_THREAD_CONTEXT \<Rightarrow> nat \<Rightarrow> nat \<Rightarrow> OB_PRE_OPERATION_INFORMATION \<Rightarrow> SYSTEM
     \<Rightarrow> u32 \<times> SYSTEM" where
  "strip_access K actor actorProcess process info S =
     (let desiredAccess = DesiredAccess info;
          (permit, S) = KphpShouldPermitCreatorProcess K (Operation info) actor actorProcess process S;
          allowedAccessMask = (case contexts S process of
             None \<Rightarrow> 0 | Some p \<Rightarrow> allowed_mask (ObObject info) p);
          allowedAccessMask = (if permit then allowedAccessMask OR extra_rights (ObObject info)
                               else allowedAccessMask) in
      if desiredAccess AND allowedAccessMask \<noteq> desiredAccess
      then (desiredAccess AND allowedAccessMask, S)
      else (desiredAccess, S))"

text \<open>The part for a tracked actor and a tracked process.\<close>

definition restrict_access ::
  "KERNEL \<Rightarrow> KPH_THREAD_CONTEXT \<Rightarrow> nat \<Rightarrow> nat \<Rightarrow> OB_PRE_OPERATION_INFORMATION \<Rightarrow> SYSTEM
     \<Rightarrow> u32 \<times> SYSTEM" where
  "restrict_access K actor actorProcess process info S =
     (let (isProtected, S) = is_protected K process S in
      if \<not> isProtected then (DesiredAccess info, S)
      else
        let ((status, allow), S) =
              KphpShouldAllowObjectAccess K (Some (Operation info)) actorProcess process S;
            allow = (if \<not> NT_SUCCESS status then False else allow) in
        if allow then (DesiredAccess info, S)
        else strip_access K actor actorProcess process info S)"

text \<open>The result is the access that the operation may still ask for.\<close>

definition KphApplyObProtections ::
  "KERNEL \<Rightarrow> KPH_THREAD_CONTEXT option \<Rightarrow> OB_PRE_OPERATION_INFORMATION \<Rightarrow> SYSTEM \<Rightarrow> u32 \<times> SYSTEM"
where
  "KphApplyObProtections K actor info S =
     (if (case ObObject info of OtherObject _ \<Rightarrow> True | _ \<Rightarrow> False) then (DesiredAccess info, S)
      else if KernelHandle info then (DesiredAccess info, S)
      else case actor of
        None \<Rightarrow> (DesiredAccess info, S)
      | Some thread \<Rightarrow>
      (case ProcessContext thread of
        None \<Rightarrow> (DesiredAccess info, S)
      | Some actorProcess \<Rightarrow>
      (case process_of K (ObObject info) S of
        None \<Rightarrow> (DesiredAccess info, S)
      | Some process \<Rightarrow> restrict_access K thread actorProcess process info S)))"

section \<open>Stripping the handles that exist\<close>

text \<open>
  The callbacks of the enumerations return TRUE to stop. Besides, they report a status and the
  changed entry or system.
\<close>

definition KphpEnumProcessHandlesForProtection ::
  "KERNEL \<Rightarrow> nat \<Rightarrow> KPH_PROCESS_CONTEXT \<Rightarrow> HANDLE_TABLE_ENTRY \<Rightarrow> ntstatus
     \<Rightarrow> bool \<times> HANDLE_TABLE_ENTRY \<times> ntstatus" where
  "KphpEnumProcessHandlesForProtection K process p entry status =
     (if IsKernelHandle (Handle entry) then (False, entry, status)
      else if \<not> decode_object K then (True, entry, STATUS_NOINTERFACE)
      else
        let strip = (\<lambda>allowedAccessMask.
              let grantedAccess = ObpDecodeGrantedAccess (GrantedAccess entry) in
              if grantedAccess AND allowedAccessMask \<noteq> grantedAccess
              then entry\<lparr> GrantedAccess :=
                     ObpSetGrantedAccess (GrantedAccess entry) (grantedAccess AND allowedAccessMask) \<rparr>
              else entry) in
        case Object entry of
          ProcessObject e \<Rightarrow>
            if process \<noteq> e then (False, entry, status)
            else (False, strip (ProcessAllowedMask (Protection p)), status)
        | ThreadObject _ e \<Rightarrow>
            if process \<noteq> e then (False, entry, status)
            else (False, strip (ThreadAllowedMask (Protection p)), status)
        | OtherObject _ \<Rightarrow> (False, entry, status))"

fun ExEnumHandleTable ::
  "(HANDLE_TABLE_ENTRY \<Rightarrow> ntstatus \<Rightarrow> bool \<times> HANDLE_TABLE_ENTRY \<times> ntstatus)
     \<Rightarrow> HANDLE_TABLE_ENTRY list \<Rightarrow> ntstatus \<Rightarrow> HANDLE_TABLE_ENTRY list \<times> ntstatus" where
  "ExEnumHandleTable callback [] status = ([], status)"
| "ExEnumHandleTable callback (h # hs) status =
     (case callback h status of
        (stop, h', status) \<Rightarrow>
          if stop then (h' # hs, status)
          else let (hs', status) = ExEnumHandleTable callback hs status in (h' # hs', status))"

definition KphReferenceProcessHandleTable :: "KERNEL \<Rightarrow> nat \<Rightarrow> ntstatus" where
  "KphReferenceProcessHandleTable K e =
     (if \<not> NT_SUCCESS (PsAcquireProcessExitSynchronization K e) then STATUS_TOO_LATE
      else if \<not> object_table K e then STATUS_NOT_FOUND
      else STATUS_SUCCESS)"

definition KphEnumerateProcessHandlesEx ::
  "KERNEL \<Rightarrow> nat \<Rightarrow> (HANDLE_TABLE_ENTRY \<Rightarrow> ntstatus \<Rightarrow> bool \<times> HANDLE_TABLE_ENTRY \<times> ntstatus)
     \<Rightarrow> SYSTEM \<Rightarrow> ntstatus \<Rightarrow> ntstatus \<times> SYSTEM \<times> ntstatus" where
  "KphEnumerateProcessHandlesEx K e callback S parameter =
     (if \<not> dyn_data K \<or> \<not> handle_table_offsets K then (STATUS_NOINTERFACE, S, parameter)
      else
        let status = KphReferenceProcessHandleTable K e in
        if \<not> NT_SUCCESS status then (status, S, parameter)
        else
          let (hs, parameter) = ExEnumHandleTable callback (handles S e) parameter in
          (status, S\<lparr> handles := (handles S)(e := hs) \<rparr>, parameter))"

definition KphpEnumProcessContextsForProtection ::
  "KERNEL \<Rightarrow> nat \<Rightarrow> nat \<Rightarrow> SYSTEM \<times> ntstatus \<Rightarrow> bool \<times> SYSTEM \<times> ntstatus" where
  "KphpEnumProcessContextsForProtection K process e =
     (\<lambda>(S, parameter).
        let ((status, allow), S) = KphpShouldAllowObjectAccess K None e process S in
        if \<not> NT_SUCCESS status then (True, S, status)
        else if allow then (False, S, parameter)
        else case contexts S process of
          None \<Rightarrow> (True, S, parameter)
        | Some p \<Rightarrow>
            let (status, S, parameter) = KphEnumerateProcessHandlesEx K e
                  (KphpEnumProcessHandlesForProtection K process p) S parameter in
            if status = STATUS_NOINTERFACE then (True, S, status)
            else (False, S, parameter))"

fun KphEnumerateProcessContexts ::
  "(nat \<Rightarrow> SYSTEM \<times> ntstatus \<Rightarrow> bool \<times> SYSTEM \<times> ntstatus)
     \<Rightarrow> nat list \<Rightarrow> SYSTEM \<times> ntstatus \<Rightarrow> SYSTEM \<times> ntstatus" where
  "KphEnumerateProcessContexts callback [] s = s"
| "KphEnumerateProcessContexts callback (e # es) s =
     (case callback e s of
        (stop, s) \<Rightarrow> if stop then s else KphEnumerateProcessContexts callback es s)"

definition set_masks :: "u32 \<Rightarrow> u32 \<Rightarrow> KPH_PROCESS_CONTEXT \<Rightarrow> KPH_PROCESS_CONTEXT" where
  "set_masks pm tm p =
     p\<lparr> Protection := (Protection p)\<lparr> ProcessAllowedMask := pm, ThreadAllowedMask := tm \<rparr> \<rparr>"

definition KphpStripProtectedProcessMasks ::
  "KERNEL \<Rightarrow> nat \<Rightarrow> u32 \<Rightarrow> u32 \<Rightarrow> SYSTEM \<Rightarrow> ntstatus \<times> SYSTEM" where
  "KphpStripProtectedProcessMasks K process processAllowedMask threadAllowedMask S =
     (let (isProtected, S) = is_protected K process S in
      case contexts S process of
        None \<Rightarrow> (STATUS_INVALID_PARAMETER, S)
      | Some p \<Rightarrow>
          if \<not> isProtected then (STATUS_INVALID_PARAMETER, S)
          else if \<not> dyn_data K then (STATUS_NOINTERFACE, S)
          else
            let prevProcessAllowedMask = ProcessAllowedMask (Protection p);
                prevThreadAllowedMask = ThreadAllowedMask (Protection p);
                pm = prevProcessAllowedMask AND NOT processAllowedMask;
                tm = prevThreadAllowedMask AND NOT threadAllowedMask;
                S = put_context process (set_masks pm tm p, lsass S) S in
            if pm = prevProcessAllowedMask \<and> tm = prevThreadAllowedMask then (STATUS_SUCCESS, S)
            else
              let (S, status) = KphEnumerateProcessContexts
                    (KphpEnumProcessContextsForProtection K process) (tracked S) (S, STATUS_SUCCESS) in
              if \<not> NT_SUCCESS status
              then (status,
                    case contexts S process of
                      None \<Rightarrow> S
                    | Some p \<Rightarrow>
                        put_context process
                          (set_masks prevProcessAllowedMask prevThreadAllowedMask p, lsass S) S)
              else (status, S))"


section \<open>Processes come and go\<close>

text \<open>
  \<open>KphpPerformProcessTracking\<close> when a process \<open>e\<close> is created: it is tracked, \<open>fresh\<close> being the context
  it gets unless it has one already, and it counts as securely created if its creator is trusted.
\<close>

definition track_context :: "nat \<Rightarrow> KPH_PROCESS_CONTEXT \<Rightarrow> SYSTEM \<Rightarrow> SYSTEM" where
  "track_context e fresh S =
     (case contexts S e of
        None \<Rightarrow> S\<lparr> contexts := (contexts S)(e \<mapsto> fresh\<lparr> CreateNotification := True \<rparr>),
                   tracked := e # tracked S \<rparr>
      | Some p \<Rightarrow> S\<lparr> contexts := (contexts S)(e \<mapsto> p\<lparr> CreateNotification := True \<rparr>) \<rparr>)"

definition set_tcb :: "nat \<Rightarrow> SYSTEM \<Rightarrow> SYSTEM" where
  "set_tcb e S =
     (case contexts S e of
        None \<Rightarrow> S
      | Some p \<Rightarrow> S\<lparr> contexts := (contexts S)(e \<mapsto> KphProtectionSet p KPH_PROTECTION_TCB) \<rparr>)"

definition KphpPerformProcessTracking ::
  "KERNEL \<Rightarrow> nat \<Rightarrow> KPH_PROCESS_CONTEXT \<Rightarrow> nat option \<Rightarrow> SYSTEM \<Rightarrow> SYSTEM" where
  "KphpPerformProcessTracking K e fresh creatorProcess S =
     (let S = track_context e fresh S in
      case creatorProcess of
        None \<Rightarrow> S
      | Some creator \<Rightarrow>
          let (high, S) = test_state K e KPH_PROCESS_STATE_HIGH S in
          if \<not> high then S
          else
            let (maximum, S) = test_state K creator KPH_PROCESS_STATE_MAXIMUM S in
            if maximum then set_tcb e S
            else
              let processProtection = PsGetProcessProtection K creator in
              if ProtectedType processProtection \<noteq> PsProtectedTypeNone \<and>
                 (ProtectedSigner processProtection = PsProtectedSignerWinTcb \<or>
                  ProtectedSigner processProtection = PsProtectedSignerWinSystem)
              then set_tcb e S
              else S)"

text \<open>
  When it exits it is untracked and its handles are closed; when its context is deleted the cached
  identifier of lsass is forgotten if it was its.
\<close>

definition untrack_process :: "KERNEL \<Rightarrow> nat \<Rightarrow> SYSTEM \<Rightarrow> SYSTEM" where
  "untrack_process K e S =
     S\<lparr> contexts := (contexts S)(e := None), tracked := filter (\<lambda>x. x \<noteq> e) (tracked S),
        lsass := KphInvalidateLsass K e (lsass S), handles := (handles S)(e := []) \<rparr>"

text \<open>
  The creating thread is marked until it returns to user mode, which an APC sees to; if that cannot
  be arranged the process is no longer protected.
\<close>

definition KphpPerformProcessCreationTracking ::
  "KERNEL \<Rightarrow> nat \<Rightarrow> KPH_THREAD_CONTEXT option \<Rightarrow> ntstatus \<Rightarrow> bool \<Rightarrow> bool \<Rightarrow> SYSTEM
     \<Rightarrow> KPH_THREAD_CONTEXT option \<times> SYSTEM" where
  "KphpPerformProcessCreationTracking K e actor apcNoopRoutine allocated inserted S =
     (let (isProtected, S) = is_protected K e S;
          stopProtecting = (case contexts S e of
             None \<Rightarrow> S
           | Some p \<Rightarrow>
               S\<lparr> contexts := (contexts S)(e \<mapsto> KphProtectionClear p KPH_PROTECTION_ACTIVE) \<rparr>) in
      if \<not> isProtected then (actor, S)
      else case actor of
        None \<Rightarrow> (actor, stopProtecting)
      | Some thread \<Rightarrow>
      (case ProcessContext thread of
        None \<Rightarrow> (actor, stopProtecting)
      | Some a \<Rightarrow>
          if (case contexts S a of None \<Rightarrow> False | Some p \<Rightarrow> IsSubsystemProcess p)
          then (actor, stopProtecting)
          else if \<not> NT_SUCCESS apcNoopRoutine then (actor, stopProtecting)
          else if \<not> allocated then (actor, stopProtecting)
          else if \<not> inserted
          then (Some (thread\<lparr> IsCreatingProcess := False, IsCreatingProcessId := 0 \<rparr>), stopProtecting)
          else (Some (thread\<lparr> IsCreatingProcess := True,
                              IsCreatingProcessId := (case contexts S e of
                                None \<Rightarrow> 0 | Some p \<Rightarrow> ProcessId p) \<rparr>), S)))"

section \<open>The system\<close>

text \<open>
  What happens in the system while the driver runs, each with the kernel's answers of that moment.
  When a handle is opened or duplicated the callback of the driver decides on the access that may
  still be asked for; the object manager enters the handle with the part of it that its own access
  check grants.
\<close>

datatype system_op =
    HandleOperation KERNEL "KPH_THREAD_CONTEXT option" OB_PRE_OPERATION_INFORMATION
      (owner: nat) (handle: u64) (check: u32)
  | CloseHandle nat u64
  | QueryState KERNEL nat u32
  | StripMasks KERNEL nat u32 u32
  | TrackProcess KERNEL nat KPH_PROCESS_CONTEXT "nat option"
  | TrackCreation KERNEL nat "KPH_THREAD_CONTEXT option" ntstatus bool bool
  | LoadImage KERNEL IMAGE_KERNEL nat u8 u64 nat
  | RunImageApc KERNEL IMAGE_KERNEL nat image_apc
  | ExitProcess KERNEL nat

fun system_step :: "system_op \<Rightarrow> SYSTEM \<Rightarrow> SYSTEM" where
  "system_step (HandleOperation K actor info own h granted) S =
     (let (access, S) = KphApplyObProtections K actor info S in
      S\<lparr> handles := (handles S)(own := handles S own @
           [\<lparr> Handle = h, Object = ObObject info, GrantedAccess = access AND granted \<rparr>]) \<rparr>)"
| "system_step (CloseHandle e h) S =
     S\<lparr> handles := (handles S)(e := filter (\<lambda>x. Handle x \<noteq> h) (handles S e)) \<rparr>"
| "system_step (QueryState K e state) S = snd (test_state K e state S)"
| "system_step (StripMasks K e pm tm) S = snd (KphpStripProtectedProcessMasks K e pm tm S)"
| "system_step (TrackProcess K e fresh creator) S = KphpPerformProcessTracking K e fresh creator S"
| "system_step (TrackCreation K e actor noop allocated inserted) S =
     snd (KphpPerformProcessCreationTracking K e actor noop allocated inserted S)"
| "system_step (LoadImage K I e level base f) S =
     (case contexts S e of
        None \<Rightarrow> S
      | Some p \<Rightarrow> put_context e (fst (KphApplyImageProtections K I e level base f (p, lsass S))) S)"
| "system_step (RunImageApc K I e apc) S =
     (case contexts S e of
        None \<Rightarrow> S
      | Some p \<Rightarrow> put_context e (fst (run_apc K I apc p), lsass S) S)"
| "system_step (ExitProcess K e) S = untrack_process K e S"

definition system_run :: "system_op list \<Rightarrow> SYSTEM \<Rightarrow> SYSTEM" where
  "system_run ops S = foldl (\<lambda>S op. system_step op S) S ops"

end
