(* ===== verification/Confinement.thy ===== *)
theory Confinement
  imports Protection
begin

text \<open>
  The confinement of protected processes: over every sequence of operations of the system, an
  outsider holds no handle to a protected process, or to one of its threads, with more than the
  allowed rights.
\<close>

section \<open>What the driver's own queries change\<close>

text \<open>A process is protected once it is verified, with masks that never exceed the initial ones.\<close>

definition protection_ok :: "KPH_PROCESS_CONTEXT \<Rightarrow> bool" where
  "protection_ok p \<longleftrightarrow> FlagOn (ProtectionState p) KPH_PROTECTION_VERIFIED \<and>
     ProcessAllowedMask (Protection p) AND KPH_PROTECTED_PROCESS_MASK = ProcessAllowedMask (Protection p) \<and>
     ThreadAllowedMask (Protection p) AND KPH_PROTECTED_THREAD_MASK = ThreadAllowedMask (Protection p)"

text \<open>What is neither the protection nor the tracked facts.\<close>

definition rest :: "KPH_PROCESS_CONTEXT \<Rightarrow> KPH_PROCESS_CONTEXT" where
  "rest p = p\<lparr> Protection := \<lparr> State = 0, ProcessAllowedMask = 0, ThreadAllowedMask = 0 \<rparr>,
               StateTracking := \<lparr> Debugged = False, FileObjectWritable = False,
                 FileObjectTransaction = False, UserWritableReferences = False \<rparr> \<rparr>"

text \<open>A context advances: it may be evaluated, and the tracked facts may be set.\<close>

definition advanced :: "KPH_PROCESS_CONTEXT \<Rightarrow> KPH_PROCESS_CONTEXT \<Rightarrow> bool" where
  "advanced p p' \<longleftrightarrow>
     rest p' = rest p \<and> tracking_le (StateTracking p) (StateTracking p') \<and>
     (Protection p' = Protection p \<or> \<not> evaluated p \<and> evaluated p' \<and> (active p' \<longrightarrow> protection_ok p'))"

lemma protection_eq:
  "Protection p' = Protection p \<Longrightarrow> evaluated p' = evaluated p \<and> active p' = active p \<and>
     protection_ok p' = protection_ok p \<and> (\<forall>ob. allowed_mask ob p' = allowed_mask ob p)"
  by (auto simp: evaluated_def active_def protection_ok_def allowed_mask_def split: ob_object.splits)

lemma advanced_refl [simp]: "advanced p p"
  by (simp add: advanced_def tracking_le_def)

lemma advanced_trans:
  assumes "advanced p q" "advanced q r"
  shows "advanced p r"
  using assms protection_eq [of r q] protection_eq [of q p]
  unfolding advanced_def tracking_le_def by metis

lemma advanced_frame:
  assumes "advanced p p'"
  shows "NumberOfUntrustedImageLoads p' = NumberOfUntrustedImageLoads p"
    and "FileObject p' = FileObject p" and "ProcessId p' = ProcessId p"
proof -
  have r: "rest p' = rest p" using assms by (simp add: advanced_def)
  show "NumberOfUntrustedImageLoads p' = NumberOfUntrustedImageLoads p"
    "FileObject p' = FileObject p" "ProcessId p' = ProcessId p"
    using arg_cong [OF r, of NumberOfUntrustedImageLoads] arg_cong [OF r, of FileObject]
      arg_cong [OF r, of ProcessId] by (simp_all add: rest_def)
qed

lemma advanced_barred: "advanced p p' \<Longrightarrow> barred p \<Longrightarrow> barred p'"
  using advanced_frame [of p p'] protection_eq [of p' p]
  unfolding advanced_def barred_def tracking_le_def by metis

lemma protection_ok_protected [simp]:
  "protection_ok (protected KPH_PROTECTED_PROCESS_MASK KPH_PROTECTED_THREAD_MASK p)"
  by (simp add: protection_ok_def protected_def protection_bits)

lemma queried_advanced:
  assumes "queried K p p'" and "\<not> KphProtectionsSuppressed K"
  shows "advanced p p'"
proof -
  obtain q t where q: "q = p \<or> \<not> evaluated p \<and> q \<in> outcomes K p" "p' = q\<lparr> StateTracking := t \<rparr>"
    "tracking_le (StateTracking q) t"
    using assms(1) by (auto simp: queried_def)
  show ?thesis
  proof (cases "q = p")
    case True
    then show ?thesis using q by (simp add: advanced_def rest_def)
  next
    case False
    with q(1) have o: "\<not> evaluated p" "q \<in> outcomes K p" by auto
    have "rest p' = rest p"
      using outcome_frame(1) [OF o(2), of "\<lparr> State = 0, ProcessAllowedMask = 0, ThreadAllowedMask = 0 \<rparr>"]
        q(2) by (simp add: rest_def)
    moreover have "StateTracking q = StateTracking p"
      using o(2) by (auto simp: outcomes_def untrusted_def verified_def protected_def set_state_def
          split: if_splits)
    moreover have "evaluated p'" using outcome_frame(2) [OF o(2)] q(2) by (simp add: evaluated_def)
    moreover have "active p' \<longrightarrow> protection_ok p'"
      using o(2) assms(2) q(2) protection_eq [of p' q] by (auto simp: outcomes_def)
    ultimately show ?thesis using q o by (auto simp: advanced_def)
  qed
qed

section \<open>Systems\<close>

text \<open>Handles may lose rights.\<close>

definition le_entry :: "HANDLE_TABLE_ENTRY \<Rightarrow> HANDLE_TABLE_ENTRY \<Rightarrow> bool" where
  "le_entry h h' \<longleftrightarrow> Handle h' = Handle h \<and> Object h' = Object h \<and>
     (\<forall>m. ObpDecodeGrantedAccess (GrantedAccess h) AND m = ObpDecodeGrantedAccess (GrantedAccess h) \<longrightarrow>
          ObpDecodeGrantedAccess (GrantedAccess h') AND m = ObpDecodeGrantedAccess (GrantedAccess h'))"

definition sys_adv :: "SYSTEM \<Rightarrow> SYSTEM \<Rightarrow> bool" where
  "sys_adv S S' \<longleftrightarrow> tracked S' = tracked S \<and>
     (\<forall>e. rel_option advanced (contexts S e) (contexts S' e)) \<and>
     (\<forall>e. list_all2 le_entry (handles S e) (handles S' e))"

lemma le_entry_refl [simp]: "le_entry h h"
  by (simp add: le_entry_def)

lemma le_entry_trans: "le_entry a b \<Longrightarrow> le_entry b c \<Longrightarrow> le_entry a c"
  by (auto simp: le_entry_def)

lemma sys_adv_refl [simp]: "sys_adv S S"
  by (simp add: sys_adv_def option.rel_refl list_all2_refl)

lemma rel_option_trans: "rel_option advanced a b \<Longrightarrow> rel_option advanced b c \<Longrightarrow> rel_option advanced a c"
  by (cases a; cases b; cases c) (auto dest: advanced_trans)

lemma entries_trans:
  "list_all2 le_entry a b \<Longrightarrow> list_all2 le_entry b c \<Longrightarrow> list_all2 le_entry a c"
  by (rule list_all2_trans [of le_entry le_entry le_entry]) (auto intro: le_entry_trans)

lemma sys_adv_trans: "sys_adv S T \<Longrightarrow> sys_adv T U \<Longrightarrow> sys_adv S U"
  unfolding sys_adv_def using rel_option_trans entries_trans by (metis (no_types, lifting))

lemma sys_adv_lsass [simp]: "sys_adv S (T\<lparr> lsass := l \<rparr>) = sys_adv S T"
  by (simp add: sys_adv_def)

lemma put_context_adv:
  assumes "contexts S e = Some p" "advanced p p'"
  shows "sys_adv S (put_context e (p', l) S)"
  using assms by (auto simp: sys_adv_def put_context_def option.rel_refl list_all2_refl)

lemma test_state_adv:
  assumes "\<not> KphProtectionsSuppressed K"
  shows "sys_adv S (snd (test_state K e st S))"
proof (cases "contexts S e")
  case None
  then show ?thesis by (simp add: test_state_def)
next
  case (Some p)
  obtain ps p' l' where "KphGetProcessState K e (p, lsass S) = (ps, p', l')" by (metis prod_cases3)
  then show ?thesis
    using put_context_adv [OF Some queried_advanced [OF queried_process_state(1) assms]]
    by (simp add: test_state_def KphTestProcessContextState_def Some)
qed

lemma is_protected_adv:
  assumes "\<not> KphProtectionsSuppressed K"
  shows "sys_adv S (snd (is_protected K e S))"
    and "fst (is_protected K e S) \<Longrightarrow>
      \<exists>p'. contexts (snd (is_protected K e S)) e = Some p' \<and> active p' \<and> evaluated p'"
    and "\<not> fst (is_protected K e S) \<Longrightarrow> contexts S e \<noteq> None \<Longrightarrow>
      \<exists>p'. contexts (snd (is_protected K e S)) e = Some p' \<and> \<not> active p' \<and> evaluated p'"
proof -
  have "sys_adv S (snd (is_protected K e S)) \<and>
    (contexts S e \<noteq> None \<longrightarrow> (\<exists>p'. contexts (snd (is_protected K e S)) e = Some p' \<and>
       active p' = fst (is_protected K e S) \<and> evaluated p')) \<and>
    (contexts S e = None \<longrightarrow> \<not> fst (is_protected K e S))"
  proof (cases "contexts S e")
    case None
    then show ?thesis by (simp add: is_protected_def)
  next
    case (Some p)
    obtain st q l' where run: "KphGetProtectionState K e (p, lsass S) = (st, q, l')"
      by (metis prod_cases3)
    have "evaluated q"
      using protection_state_cases(2) [OF run] outcome_frame(2) by blast
    then show ?thesis
      using put_context_adv [OF Some queried_advanced [OF queried_protection_state [OF run] assms]]
        protection_state_cases(1) [OF run]
      by (auto simp: is_protected_def KphIsProtectedProcess_def Some run active_def put_context_def)
  qed
  then show "sys_adv S (snd (is_protected K e S))"
    and "fst (is_protected K e S) \<Longrightarrow>
      \<exists>p'. contexts (snd (is_protected K e S)) e = Some p' \<and> active p' \<and> evaluated p'"
    and "\<not> fst (is_protected K e S) \<Longrightarrow> contexts S e \<noteq> None \<Longrightarrow>
      \<exists>p'. contexts (snd (is_protected K e S)) e = Some p' \<and> \<not> active p' \<and> evaluated p'"
    by (cases "contexts S e"; auto)+
qed

text \<open>A test for the maximum state fails for a barred process.\<close>

lemma test_barred:
  assumes "\<not> KphProtectionsSuppressed K" and "contexts S e = Some p" "barred p"
  shows "\<not> fst (test_state K e KPH_PROCESS_STATE_MAXIMUM S)"
proof -
  obtain ps p' l' where run: "KphGetProcessState K e (p, lsass S) = (ps, p', l')"
    by (metis prod_cases3)
  show ?thesis
    using barred_never_maximum [OF run assms(3,1)] assms(2)
    by (simp add: test_state_def KphTestProcessContextState_def run)
qed

lemma sys_adv_context:
  assumes "sys_adv S S'" "contexts S e = Some p"
  obtains p' where "contexts S' e = Some p'" "advanced p p'"
proof -
  have "rel_option advanced (contexts S e) (contexts S' e)" using assms(1) by (simp add: sys_adv_def)
  then show thesis using assms(2) that by (cases "contexts S' e") auto
qed


section \<open>Outsiders\<close>

text \<open>An actor without protection by the system and without the privilege of lsass.\<close>

definition ordinary :: "KERNEL \<Rightarrow> nat \<Rightarrow> bool" where
  "ordinary K a \<longleftrightarrow> ProtectedType (PsGetProcessProtection K a) = PsProtectedTypeNone \<and>
     \<not> PrivilegeCheck K SeCreateTokenPrivilege a"

lemma lsass_ordinary:
  "ordinary K a \<Longrightarrow> \<not> snd (fst (KphProcessIsLsass K a l))"
  by (simp add: ordinary_def KphProcessIsLsass_def Let_def case_prod_beta)

lemma allow_ordinary:
  assumes "ordinary K a"
  shows "\<not> snd (fst (allow_protected_or_lsass K a ob S))"
    and "sys_adv S (snd (allow_protected_or_lsass K a ob S))"
  using assms lsass_ordinary [OF assms, of "lsass S"]
  by (simp_all add: allow_protected_or_lsass_def KphDominationCheck_def ordinary_def Let_def
      case_prod_beta)

lemma allow_adv: "sys_adv S (snd (allow_protected_or_lsass K a ob S))"
  by (simp add: allow_protected_or_lsass_def Let_def case_prod_beta)

text \<open>The three tests of a duplication, and the two of an opening, with what they leave.\<close>

definition test_next :: "KERNEL \<Rightarrow> nat \<Rightarrow> bool \<times> SYSTEM \<Rightarrow> bool \<times> SYSTEM" where
  "test_next K e r = (if fst r then test_state K e KPH_PROCESS_STATE_MAXIMUM (snd r) else (False, snd r))"

lemma should_allow_duplicate:
  "KphpShouldAllowObjectAccess K (Some (OB_OPERATION_HANDLE_DUPLICATE s d)) a ob S =
     (let r = test_next K d (test_next K s (test_next K a (True, S))) in
      if ob = a \<and> ob = s \<and> ob = d then ((STATUS_SUCCESS, True), S)
      else if contexts S s = None \<or> contexts S d = None then ((STATUS_INVALID_CID, False), S)
      else if fst r then ((STATUS_SUCCESS, True), snd r) else allow_protected_or_lsass K a ob (snd r))"
  by (auto simp: KphpShouldAllowObjectAccess_def test_next_def Let_def case_prod_beta)

lemma should_allow_open:
  assumes "info = None \<or> info = Some OB_OPERATION_HANDLE_CREATE"
  shows "KphpShouldAllowObjectAccess K info a ob S =
     (let r = test_next K ob (test_next K a (True, S)) in
      if a = ob then ((STATUS_SUCCESS, True), S)
      else if fst r then ((STATUS_SUCCESS, True), snd r) else allow_protected_or_lsass K a ob (snd r))"
  using assms
  by (auto simp: KphpShouldAllowObjectAccess_def test_next_def Let_def case_prod_beta)

lemma info_cases:
  "(\<exists>s d. info = Some (OB_OPERATION_HANDLE_DUPLICATE s d)) \<or>
   info = None \<or> info = Some OB_OPERATION_HANDLE_CREATE"
  by (metis OB_OPERATION.exhaust option.exhaust)

lemma test_next_adv:
  "\<not> KphProtectionsSuppressed K \<Longrightarrow> sys_adv S (snd r) \<Longrightarrow> sys_adv S (snd (test_next K e r))"
  using sys_adv_trans test_state_adv by (simp add: test_next_def)

lemma test_next_barred:
  assumes "\<not> KphProtectionsSuppressed K" and "contexts (snd r) e = Some p" "barred p"
  shows "\<not> fst (test_next K e r)"
  using test_barred [OF assms] by (simp add: test_next_def)

lemma should_allow_adv:
  assumes "\<not> KphProtectionsSuppressed K"
  shows "sys_adv S (snd (KphpShouldAllowObjectAccess K info a ob S))"
proof -
  consider (dup) s d where "info = Some (OB_OPERATION_HANDLE_DUPLICATE s d)"
    | (plain) "info = None \<or> info = Some OB_OPERATION_HANDLE_CREATE"
    using info_cases by blast
  then show ?thesis
  proof cases
  case dup
  have "sys_adv S (snd (test_next K d (test_next K s (test_next K a (True, S)))))"
    using assms by (intro test_next_adv) simp_all
  then show ?thesis
    using sys_adv_trans [OF _ allow_adv] by (simp add: dup should_allow_duplicate Let_def)
next
  case plain
  have "sys_adv S (snd (test_next K ob (test_next K a (True, S))))"
    using assms by (intro test_next_adv) simp_all
  then show ?thesis
    using sys_adv_trans [OF _ allow_adv] by (simp add: should_allow_open [OF plain] Let_def)
  qed
qed

text \<open>
  An ordinary actor is not allowed: when it opens a handle, if it is barred and not the process
  itself; when it duplicates one, if the receiver is barred and not the process.
\<close>

definition receiver :: "OB_OPERATION option \<Rightarrow> nat \<Rightarrow> nat" where
  "receiver info a = (case info of Some (OB_OPERATION_HANDLE_DUPLICATE s d) \<Rightarrow> d | _ \<Rightarrow> a)"

lemma outsider_not_allowed:
  assumes K: "\<not> KphProtectionsSuppressed K" and a: "ordinary K a"
    and r: "receiver info a \<noteq> ob" "contexts S (receiver info a) = Some cp" "barred cp"
  shows "\<not> snd (fst (KphpShouldAllowObjectAccess K info a ob S))"
proof -
  consider (dup) s d where "info = Some (OB_OPERATION_HANDLE_DUPLICATE s d)"
    | (plain) "info = None \<or> info = Some OB_OPERATION_HANDLE_CREATE"
    using info_cases by blast
  then show ?thesis
  proof cases
  case dup
  then have d: "d \<noteq> ob" "contexts S d = Some cp" using r by (auto simp: receiver_def)
  have "sys_adv S (snd (test_next K s (test_next K a (True, S))))"
    using K by (intro test_next_adv) simp_all
  then obtain p' where "contexts (snd (test_next K s (test_next K a (True, S)))) d = Some p'"
      "advanced cp p'"
    using sys_adv_context d(2) by blast
  then have "\<not> fst (test_next K d (test_next K s (test_next K a (True, S))))"
    using test_next_barred [OF K] advanced_barred r(3) by blast
  then show ?thesis
    using d(1) allow_ordinary(1) [OF a] by (simp add: dup should_allow_duplicate Let_def)
next
  case plain
  then have rec: "receiver info a = a" by (auto simp: receiver_def)
  then have "\<not> fst (test_next K a (True, S))"
    using test_next_barred [OF K, of "(True, S)"] r by simp
  then have "\<not> fst (test_next K ob (test_next K a (True, S)))" by (simp add: test_next_def)
  then show ?thesis
    using rec r(1) allow_ordinary(1) [OF a] by (simp add: should_allow_open [OF plain] Let_def)
  qed
qed


section \<open>What a handle may carry\<close>

text \<open>The handles that refer to the process \<open>t\<close> or to one of its threads.\<close>

definition refers :: "nat \<Rightarrow> ob_object \<Rightarrow> bool" where
  "refers t ob = (case ob of ProcessObject e \<Rightarrow> e = t | ThreadObject _ e \<Rightarrow> e = t | OtherObject _ \<Rightarrow> False)"

definition within :: "KPH_PROCESS_CONTEXT \<Rightarrow> HANDLE_TABLE_ENTRY \<Rightarrow> bool" where
  "within p h \<longleftrightarrow> ObpDecodeGrantedAccess (GrantedAccess h) AND allowed_mask (Object h) p =
     ObpDecodeGrantedAccess (GrantedAccess h)"

text \<open>
  The invariant between a process \<open>t\<close> and the handles of another: before \<open>t\<close> is evaluated there is
  none to it; while it is protected, they are within its allowed masks.
\<close>

definition confined :: "nat \<Rightarrow> KPH_PROCESS_CONTEXT \<Rightarrow> HANDLE_TABLE_ENTRY list \<Rightarrow> bool" where
  "confined t p hs \<longleftrightarrow>
     (\<forall>h \<in> set hs. \<not> IsKernelHandle (Handle h) \<and> refers t (Object h) \<longrightarrow>
        evaluated p \<and> (active p \<longrightarrow> within p h)) \<and>
     (active p \<longrightarrow> evaluated p \<and> protection_ok p)"

lemma within_le: "within p h \<Longrightarrow> le_entry h h' \<Longrightarrow> within p h'"
  by (auto simp: within_def le_entry_def)

lemma confined_le:
  assumes "confined t p hs" "list_all2 le_entry hs hs'"
  shows "confined t p hs'"
proof -
  have "\<exists>h \<in> set hs. le_entry h h'" if "h' \<in> set hs'" for h'
    using assms(2) that by (metis in_set_conv_nth list_all2_conv_all_nth)
  then show ?thesis
    using assms(1) within_le unfolding confined_def le_entry_def by metis
qed

lemma confined_advanced:
  assumes c: "confined t p hs" and adv: "advanced p p'"
  shows "confined t p' hs"
proof (cases "Protection p' = Protection p")
  case True
  then show ?thesis
    using c protection_eq [OF True] by (simp add: confined_def within_def)
next
  case False
  with adv have "\<not> evaluated p" "evaluated p'" "active p' \<longrightarrow> protection_ok p'"
    by (auto simp: advanced_def)
  then show ?thesis using c by (auto simp: confined_def)
qed

text \<open>
  The whole invariant: \<open>a\<close> is tracked and barred, \<open>t\<close> is tracked, and the handles of \<open>a\<close> are confined.
  \<open>n\<close> is the number of image loads that the counter of untrusted ones still has room for.
\<close>

definition sys_inv :: "nat \<Rightarrow> nat \<Rightarrow> u64 \<Rightarrow> nat \<Rightarrow> SYSTEM \<Rightarrow> bool" where
  "sys_inv a t pid n S \<longleftrightarrow>
     (\<exists>ca ct. contexts S a = Some ca \<and> contexts S t = Some ct \<and> barred ca \<and> ProcessId ct = pid \<and>
        unat (NumberOfUntrustedImageLoads ca) + n < 18446744073709551616 \<and>
        confined t ct (handles S a)) \<and>
     a \<in> set (tracked S)"

lemma sys_inv_adv:
  assumes inv: "sys_inv a t pid n S" and adv: "sys_adv S S'"
  shows "sys_inv a t pid n S'"
proof -
  obtain ca ct where c: "contexts S a = Some ca" "contexts S t = Some ct" "barred ca"
    "ProcessId ct = pid" "unat (NumberOfUntrustedImageLoads ca) + n < 18446744073709551616"
    "confined t ct (handles S a)" "a \<in> set (tracked S)"
    using inv by (auto simp: sys_inv_def)
  obtain ca' where ca': "contexts S' a = Some ca'" "advanced ca ca'" using sys_adv_context [OF adv c(1)] .
  obtain ct' where ct': "contexts S' t = Some ct'" "advanced ct ct'" using sys_adv_context [OF adv c(2)] .
  have h: "list_all2 le_entry (handles S a) (handles S' a)" "tracked S' = tracked S"
    using adv by (auto simp: sys_adv_def)
  have "confined t ct' (handles S' a)"
    by (rule confined_le [OF confined_advanced [OF c(6) ct'(2)] h(1)])
  then show ?thesis
    using c(3-5,7) ca'(1) ct'(1) h(2) advanced_barred [OF ca'(2) c(3)]
      advanced_frame [OF ca'(2)] advanced_frame [OF ct'(2)]
    by (simp add: sys_inv_def)
qed

section \<open>Opening and duplicating\<close>

text \<open>What makes an operation one by which only an ordinary actor gives \<open>a\<close> a handle to \<open>t\<close>.\<close>

definition ordinary_open ::
  "nat \<Rightarrow> nat \<Rightarrow> u64 \<Rightarrow> KERNEL \<Rightarrow> KPH_THREAD_CONTEXT option \<Rightarrow> OB_PRE_OPERATION_INFORMATION \<Rightarrow> bool"
where
  "ordinary_open a t pid K actor info \<longleftrightarrow>
     (case actor of
        None \<Rightarrow> False
      | Some thread \<Rightarrow>
          (case ProcessContext thread of
             None \<Rightarrow> False
           | Some x \<Rightarrow> ordinary K x \<and> receiver (Some (Operation info)) x = a) \<and>
          \<not> (IsCreatingProcess thread \<and> IsCreatingProcessId thread = pid)) \<and>
     (case ObObject info of ThreadObject th _ \<Rightarrow> thread_context K th = Some t | _ \<Rightarrow> True)"

lemma permit_not_creator:
  assumes "\<not> (IsCreatingProcess th \<and> IsCreatingProcessId th = pid)"
    and "contexts S t = Some ct" "ProcessId ct = pid"
  shows "KphpShouldPermitCreatorProcess K op' th x t S = (False, S)"
  using assms by (auto simp: KphpShouldPermitCreatorProcess_def split: OB_OPERATION.splits)

lemma permit_adv:
  assumes "\<not> KphProtectionsSuppressed K"
  shows "sys_adv S (snd (KphpShouldPermitCreatorProcess K op' th x t S))"
  using test_state_adv [OF assms]
  by (auto simp: KphpShouldPermitCreatorProcess_def split: OB_OPERATION.splits)

lemma strip_access_adv:
  assumes "\<not> KphProtectionsSuppressed K"
  shows "sys_adv S (snd (strip_access K th x t info S))"
  using permit_adv [OF assms] by (simp add: strip_access_def Let_def case_prod_beta if_distrib [of snd])

lemma restrict_access_adv:
  assumes K: "\<not> KphProtectionsSuppressed K"
  shows "sys_adv S (snd (restrict_access K th x t info S))"
proof -
  note p = is_protected_adv(1) [OF K]
  note q = sys_adv_trans [OF p should_allow_adv [OF K]]
  note r = sys_adv_trans [OF q strip_access_adv [OF K]]
  show ?thesis
    using p q r by (simp add: restrict_access_def Let_def case_prod_beta)
qed

lemma apply_protections_adv:
  assumes K: "\<not> KphProtectionsSuppressed K"
  shows "sys_adv S (snd (KphApplyObProtections K actor info S))"
  using restrict_access_adv [OF K]
  by (auto simp: KphApplyObProtections_def split: ob_object.splits option.splits)

lemma process_of_refers:
  assumes "refers t ob" "contexts S t = Some ct"
    and "case ob of ThreadObject th _ \<Rightarrow> thread_context K th = Some t | _ \<Rightarrow> True"
  shows "process_of K ob S = Some t"
  using assms by (auto simp: process_of_def refers_def split: ob_object.splits)

text \<open>The access that an ordinary actor is left with is within the allowed mask.\<close>

lemma ordinary_access:
  assumes K: "\<not> KphProtectionsSuppressed K" and inv: "sys_inv a t pid n S" and "a \<noteq> t"
    and o: "ordinary_open a t pid K actor info" "refers t (ObObject info)" "\<not> KernelHandle info"
    and run: "KphApplyObProtections K actor info S = (access, S')"
  shows "\<exists>ct. contexts S' t = Some ct \<and> evaluated ct \<and>
           (active ct \<longrightarrow> access AND allowed_mask (ObObject info) ct = access)"
proof -
  obtain thread x where th: "actor = Some thread" "ProcessContext thread = Some x" "ordinary K x"
    "receiver (Some (Operation info)) x = a"
    "\<not> (IsCreatingProcess thread \<and> IsCreatingProcessId thread = pid)"
    and ob: "case ObObject info of ThreadObject th _ \<Rightarrow> thread_context K th = Some t | _ \<Rightarrow> True"
    using o(1) by (auto simp: ordinary_open_def split: option.splits)
  obtain ca ct where c: "contexts S a = Some ca" "contexts S t = Some ct" "barred ca" "ProcessId ct = pid"
    using inv by (auto simp: sys_inv_def)
  have run': "restrict_access K thread x t info S = (access, S')"
    using run th o(2,3) process_of_refers [OF o(2) c(2) ob]
    by (auto simp: KphApplyObProtections_def refers_def split: ob_object.splits)
  define S1 where "S1 = snd (is_protected K t S)"
  define S2 where "S2 = snd (KphpShouldAllowObjectAccess K (Some (Operation info)) x t S1)"
  note prot = is_protected_adv [OF K, where S = S and e = t]
  show ?thesis
  proof (cases "fst (is_protected K t S)")
    case False
    then have "S' = S1" using run' by (simp add: restrict_access_def S1_def case_prod_beta)
    with prot(3) [OF False] c(2) show ?thesis by (auto simp: S1_def)
  next
    case True
    obtain ct1 where ct1: "contexts S1 t = Some ct1" "active ct1" "evaluated ct1"
      using prot(2) [OF True] by (auto simp: S1_def)
    obtain ca1 where ca1: "contexts S1 a = Some ca1" "advanced ca ca1"
      using sys_adv_context [OF prot(1) c(1)] by (auto simp: S1_def)
    have no: "\<not> snd (fst (KphpShouldAllowObjectAccess K (Some (Operation info)) x t S1))"
      using outsider_not_allowed [OF K th(3), of "Some (Operation info)" t S1 ca1] th(4) \<open>a \<noteq> t\<close>
        ca1 advanced_barred [OF ca1(2) c(3)] by simp
    have run2: "strip_access K thread x t info S2 = (access, S')"
      using run' True no
      by (simp add: restrict_access_def Let_def case_prod_beta S1_def S2_def split: if_splits)
    have "sys_adv S1 S2" using should_allow_adv [OF K] by (simp add: S2_def)
    then obtain ct2 where ct2: "contexts S2 t = Some ct2" "advanced ct1 ct2"
      using sys_adv_context ct1(1) by blast
    have "sys_adv S S2"
      using sys_adv_trans [OF prot(1)] \<open>sys_adv S1 S2\<close> by (simp add: S1_def)
    then obtain ct2' where "contexts S2 t = Some ct2'" "advanced ct ct2'"
      using sys_adv_context c(2) by blast
    then have pid: "ProcessId ct2 = pid" using ct2(1) advanced_frame(3) c(4) by auto
    have permit: "KphpShouldPermitCreatorProcess K (Operation info) thread x t S2 = (False, S2)"
      by (rule permit_not_creator [OF th(5) ct2(1) pid])
    have "S' = S2" "access AND allowed_mask (ObObject info) ct2 = access"
      using run2 ct2(1)
      by (auto simp: strip_access_def permit and.assoc Let_def split: if_splits)
    moreover have "evaluated ct2" using ct2(2) ct1(3) by (auto simp: advanced_def dest: protection_eq)
    ultimately show ?thesis using ct2(1) by auto
  qed
qed


section \<open>Stripping\<close>

lemma decode_set:
  "ObpDecodeGrantedAccess (ObpSetGrantedAccess g (ObpDecodeGrantedAccess g AND m)) =
     ObpDecodeGrantedAccess g AND m"
  unfolding ObpDecodeGrantedAccess_def ObpSetGrantedAccess_def
  by (rule bit_word_eqI) (auto simp only: bit_and_iff bit_or_iff bit_not_iff)

lemma and_within: "x AND m = (x :: u32) \<Longrightarrow> x AND (k AND m) = x AND k"
  by (metis and.assoc and.commute)

lemma strip_callback:
  assumes "KphpEnumProcessHandlesForProtection K t p h st = (stop, h', st')"
  shows "le_entry h h'"
    and "\<not> stop \<Longrightarrow> \<not> IsKernelHandle (Handle h') \<Longrightarrow> refers t (Object h') \<Longrightarrow> within p h'"
    and "stop \<Longrightarrow> st' = STATUS_NOINTERFACE" and "\<not> stop \<Longrightarrow> st' = st"
  using assms
  by (auto simp: KphpEnumProcessHandlesForProtection_def Let_def le_entry_def within_def decode_set
      and_within refers_def allowed_mask_def and.assoc split: if_splits ob_object.splits)

lemma strip_handles:
  assumes "ExEnumHandleTable (KphpEnumProcessHandlesForProtection K t p) hs st = (hs', st')"
  shows "list_all2 le_entry hs hs'"
    and "st' = STATUS_SUCCESS \<Longrightarrow> st = STATUS_SUCCESS"
    and "st' = STATUS_SUCCESS \<Longrightarrow>
      \<forall>h \<in> set hs'. \<not> IsKernelHandle (Handle h) \<and> refers t (Object h) \<longrightarrow> within p h"
proof -
  have "list_all2 le_entry hs hs' \<and> (st' = STATUS_SUCCESS \<longrightarrow> st = STATUS_SUCCESS \<and>
      (\<forall>h \<in> set hs'. \<not> IsKernelHandle (Handle h) \<and> refers t (Object h) \<longrightarrow> within p h))"
    using assms
  proof (induction hs arbitrary: hs' st st')
    case Nil
    then show ?case by simp
  next
    case (Cons h hs)
    obtain stop g sg where cb: "KphpEnumProcessHandlesForProtection K t p h st = (stop, g, sg)"
      by (metis prod_cases3)
    obtain gs sgs where rec: "ExEnumHandleTable (KphpEnumProcessHandlesForProtection K t p) hs sg =
        (gs, sgs)" by (metis surj_pair)
    note c = strip_callback [OF cb]
    show ?case
    proof (cases stop)
      case True
      with Cons.prems have "hs' = g # hs" "st' = sg" by (simp_all add: cb)
      with c(1,3) True show ?thesis by (simp add: list_all2_refl)
    next
      case False
      with Cons.prems have "hs' = g # gs" "st' = sgs" by (simp_all add: cb rec)
      with c(1,2,4) False Cons.IH [OF rec] show ?thesis by auto
    qed
  qed
  then show "list_all2 le_entry hs hs'"
    and "st' = STATUS_SUCCESS \<Longrightarrow> st = STATUS_SUCCESS"
    and "st' = STATUS_SUCCESS \<Longrightarrow>
      \<forall>h \<in> set hs'. \<not> IsKernelHandle (Handle h) \<and> refers t (Object h) \<longrightarrow> within p h" by auto
qed

lemma enumerate_handles:
  assumes "KphEnumerateProcessHandlesEx K e (KphpEnumProcessHandlesForProtection K t p) S st =
     (status, S', st')"
  shows "sys_adv S S'" and "contexts S' = contexts S"
    and "st' = STATUS_SUCCESS \<Longrightarrow> st = STATUS_SUCCESS"
    and "st' = STATUS_SUCCESS \<Longrightarrow> status = STATUS_SUCCESS \<Longrightarrow>
      \<forall>h \<in> set (handles S' e). \<not> IsKernelHandle (Handle h) \<and> refers t (Object h) \<longrightarrow> within p h"
proof -
  obtain hs' s' where run: "ExEnumHandleTable (KphpEnumProcessHandlesForProtection K t p) (handles S e) st =
      (hs', s')" by (metis surj_pair)
  note strip = strip_handles [OF run]
  have cases: "(status \<noteq> STATUS_SUCCESS \<and> S' = S \<and> st' = st) \<or>
    (status = STATUS_SUCCESS \<and> S' = S\<lparr> handles := (handles S)(e := hs') \<rparr> \<and> st' = s')"
    using assms by (auto simp: KphEnumerateProcessHandlesEx_def Let_def run split: if_splits)
  show "sys_adv S S'" and "contexts S' = contexts S"
    and "st' = STATUS_SUCCESS \<Longrightarrow> st = STATUS_SUCCESS"
    and "st' = STATUS_SUCCESS \<Longrightarrow> status = STATUS_SUCCESS \<Longrightarrow>
      \<forall>h \<in> set (handles S' e). \<not> IsKernelHandle (Handle h) \<and> refers t (Object h) \<longrightarrow> within p h"
    using cases strip
    by (auto simp: sys_adv_def option.rel_refl list_all2_refl)
qed

lemma strip_context:
  assumes K: "\<not> KphProtectionsSuppressed K" and t: "contexts S t = Some ct"
    and run: "KphpEnumProcessContextsForProtection K t e (S, st) = (stop, S', st')"
  shows "sys_adv S S'" and "st' = STATUS_SUCCESS \<Longrightarrow> st = STATUS_SUCCESS"
    and "stop \<Longrightarrow> st' \<noteq> STATUS_SUCCESS"
    and "e = a \<Longrightarrow> a \<noteq> t \<Longrightarrow> ordinary K a \<Longrightarrow> contexts S a = Some ca \<Longrightarrow> barred ca \<Longrightarrow>
      PsAcquireProcessExitSynchronization K a = STATUS_SUCCESS \<Longrightarrow> object_table K a \<Longrightarrow>
      st' = STATUS_SUCCESS \<Longrightarrow>
      \<exists>ct'. contexts S' t = Some ct' \<and> (\<forall>h \<in> set (handles S' a).
        \<not> IsKernelHandle (Handle h) \<and> refers t (Object h) \<longrightarrow> within ct' h)"
proof -
  obtain sa allow S1 where allow: "KphpShouldAllowObjectAccess K None e t S = ((sa, allow), S1)"
    by (metis surj_pair)
  have adv: "sys_adv S S1" using should_allow_adv [OF K, of S None e t] allow by simp
  obtain ct1 where ct1: "contexts S1 t = Some ct1" using sys_adv_context [OF adv t] .
  obtain sh S2 sp where en: "KphEnumerateProcessHandlesEx K e
      (KphpEnumProcessHandlesForProtection K t ct1) S1 st = (sh, S2, sp)" by (metis prod_cases3)
  note h = enumerate_handles [OF en]
  have cases: "(sa \<noteq> STATUS_SUCCESS \<and> stop \<and> S' = S1 \<and> st' = sa) \<or>
    (sa = STATUS_SUCCESS \<and> allow \<and> \<not> stop \<and> S' = S1 \<and> st' = st) \<or>
    (sa = STATUS_SUCCESS \<and> \<not> allow \<and> sh = STATUS_NOINTERFACE \<and> stop \<and> S' = S2 \<and> st' = sh) \<or>
    (sa = STATUS_SUCCESS \<and> \<not> allow \<and> sh \<noteq> STATUS_NOINTERFACE \<and> \<not> stop \<and> S' = S2 \<and> st' = sp)"
    using run by (auto simp: KphpEnumProcessContextsForProtection_def Let_def allow ct1 en
        split: if_splits)
  show "sys_adv S S'" using cases adv sys_adv_trans [OF adv h(1)] by auto
  show "stop \<Longrightarrow> st' \<noteq> STATUS_SUCCESS" using cases by auto
  show "\<exists>ct'. contexts S' t = Some ct' \<and> (\<forall>h \<in> set (handles S' a).
        \<not> IsKernelHandle (Handle h) \<and> refers t (Object h) \<longrightarrow> within ct' h)"
    if a: "e = a" "a \<noteq> t" "ordinary K a" "contexts S a = Some ca" "barred ca"
      "PsAcquireProcessExitSynchronization K a = STATUS_SUCCESS" "object_table K a"
      "st' = STATUS_SUCCESS"
  proof -
    have "\<not> allow"
      using outsider_not_allowed [OF K a(3), of None t S ca] a allow by (simp add: receiver_def)
    then have c: "sa = STATUS_SUCCESS" "sh \<noteq> STATUS_NOINTERFACE" "S' = S2" "st' = sp"
      using cases a(8) by auto
    have "sh = STATUS_SUCCESS"
      using en c(2) a by (auto simp: KphEnumerateProcessHandlesEx_def KphReferenceProcessHandleTable_def
          Let_def split: if_splits prod.splits)
    then show ?thesis using h(2,4) c a ct1 by auto
  qed
  show "st' = STATUS_SUCCESS \<Longrightarrow> st = STATUS_SUCCESS" using cases h(3) by auto
qed

lemma strip_contexts:
  assumes K: "\<not> KphProtectionsSuppressed K"
    and run: "KphEnumerateProcessContexts (KphpEnumProcessContextsForProtection K t) es (S, st) = (S', st')"
    and t: "contexts S t = Some ct" "evaluated ct"
  shows "sys_adv S S'" and "st' = STATUS_SUCCESS \<Longrightarrow> st = STATUS_SUCCESS"
    and "a \<in> set es \<Longrightarrow> a \<noteq> t \<Longrightarrow> ordinary K a \<Longrightarrow> contexts S a = Some ca \<Longrightarrow> barred ca \<Longrightarrow>
      PsAcquireProcessExitSynchronization K a = STATUS_SUCCESS \<Longrightarrow> object_table K a \<Longrightarrow>
      st' = STATUS_SUCCESS \<Longrightarrow> \<forall>h \<in> set (handles S' a).
        \<not> IsKernelHandle (Handle h) \<and> refers t (Object h) \<longrightarrow> within ct h"
proof -
  have "sys_adv S S' \<and> (st' = STATUS_SUCCESS \<longrightarrow> st = STATUS_SUCCESS) \<and>
    (a \<in> set es \<longrightarrow> a \<noteq> t \<longrightarrow> ordinary K a \<longrightarrow> (\<forall>ca. contexts S a = Some ca \<longrightarrow> barred ca \<longrightarrow>
      PsAcquireProcessExitSynchronization K a = STATUS_SUCCESS \<longrightarrow> object_table K a \<longrightarrow>
      st' = STATUS_SUCCESS \<longrightarrow> (\<forall>h \<in> set (handles S' a).
        \<not> IsKernelHandle (Handle h) \<and> refers t (Object h) \<longrightarrow> within ct h)))"
    using run t
  proof (induction es arbitrary: S st ct)
    case Nil
    then show ?case by simp
  next
    case (Cons e es)
    obtain stop S1 s1 where cb: "KphpEnumProcessContextsForProtection K t e (S, st) = (stop, S1, s1)"
      by (metis prod_cases3)
    note c = strip_context [OF K Cons.prems(2) cb]
    show ?case
    proof (cases stop)
      case True
      then have "S' = S1" "st' = s1" using Cons.prems(1) by (simp_all add: cb)
      then show ?thesis using c True by auto
    next
      case False
      then have rec: "KphEnumerateProcessContexts (KphpEnumProcessContextsForProtection K t) es (S1, s1) =
          (S', st')" using Cons.prems(1) by (simp add: cb)
      obtain ct1 where ct1: "contexts S1 t = Some ct1" "advanced ct ct1"
        using sys_adv_context [OF c(1) Cons.prems(2)] .
      have pr: "Protection ct1 = Protection ct" using ct1(2) Cons.prems(3) by (auto simp: advanced_def)
      have ev: "evaluated ct1" using protection_eq [OF pr] Cons.prems(3) by simp
      have w: "within ct1 h = within ct h" for h
        using protection_eq [OF pr] by (simp add: within_def)
      note ih = Cons.IH [OF rec ct1(1) ev]
      have adv: "sys_adv S S'" using ih sys_adv_trans [OF c(1)] by blast
      have st: "st' = STATUS_SUCCESS \<longrightarrow> s1 = STATUS_SUCCESS \<and> st = STATUS_SUCCESS"
        using ih c(2) by blast
      have stripped: "\<forall>h \<in> set (handles S' a). \<not> IsKernelHandle (Handle h) \<and> refers t (Object h) \<longrightarrow>
          within ct h"
        if a: "a \<in> set (e # es)" "a \<noteq> t" "ordinary K a" "contexts S a = Some ca" "barred ca"
          "PsAcquireProcessExitSynchronization K a = STATUS_SUCCESS" "object_table K a"
          "st' = STATUS_SUCCESS" for ca
      proof (cases "a \<in> set es")
        case True
        obtain ca1 where "contexts S1 a = Some ca1" "advanced ca ca1"
          using sys_adv_context [OF c(1) a(4)] .
        then show ?thesis using ih True a advanced_barred w by auto
      next
        case False
        then have "e = a" using a(1) by simp
        have "s1 = STATUS_SUCCESS" using st a(8) by simp
        with c(4) [OF \<open>e = a\<close> a(2-7)] ct1(1) w
        have here: "\<forall>h \<in> set (handles S1 a). \<not> IsKernelHandle (Handle h) \<and> refers t (Object h) \<longrightarrow>
            within ct h" by auto
        have "list_all2 le_entry (handles S1 a) (handles S' a)" using ih by (simp add: sys_adv_def)
        then have "\<exists>g \<in> set (handles S1 a). le_entry g h" if "h \<in> set (handles S' a)" for h
          using that by (metis in_set_conv_nth list_all2_conv_all_nth)
        then show ?thesis using here within_le unfolding le_entry_def by metis
      qed
      show ?thesis using adv st stripped by blast
    qed
  qed
  then show "sys_adv S S'" and "st' = STATUS_SUCCESS \<Longrightarrow> st = STATUS_SUCCESS"
    and "a \<in> set es \<Longrightarrow> a \<noteq> t \<Longrightarrow> ordinary K a \<Longrightarrow> contexts S a = Some ca \<Longrightarrow> barred ca \<Longrightarrow>
      PsAcquireProcessExitSynchronization K a = STATUS_SUCCESS \<Longrightarrow> object_table K a \<Longrightarrow>
      st' = STATUS_SUCCESS \<Longrightarrow> \<forall>h \<in> set (handles S' a).
        \<not> IsKernelHandle (Handle h) \<and> refers t (Object h) \<longrightarrow> within ct h" by blast+
qed


section \<open>Every operation keeps the handles confined\<close>

lemma sys_invE:
  assumes "sys_inv a t pid n S"
  obtains ca ct where "contexts S a = Some ca" "contexts S t = Some ct" "barred ca"
    "ProcessId ct = pid" "unat (NumberOfUntrustedImageLoads ca) + n < 18446744073709551616"
    "confined t ct (handles S a)" "a \<in> set (tracked S)"
  using assms by (auto simp: sys_inv_def)

lemma sys_invI:
  assumes "contexts S a = Some ca" "contexts S t = Some ct" "barred ca"
    "ProcessId ct = pid" "unat (NumberOfUntrustedImageLoads ca) + n < 18446744073709551616"
    "confined t ct (handles S a)" "a \<in> set (tracked S)"
  shows "sys_inv a t pid n S"
  using assms by (auto simp: sys_inv_def)

lemma sys_inv_less: "sys_inv a t pid n S \<Longrightarrow> m \<le> n \<Longrightarrow> sys_inv a t pid m S"
  by (auto simp: sys_inv_def)

lemma confined_subset: "confined t p hs \<Longrightarrow> set hs' \<subseteq> set hs \<Longrightarrow> confined t p hs'"
  by (auto simp: confined_def)

lemma confined_protection:
  assumes "Protection p' = Protection p"
  shows "confined t p' hs = confined t p hs"
  using protection_eq [OF assms] by (simp add: confined_def within_def)

lemma and_fits:
  "access AND m = (access :: u32) \<Longrightarrow>
     ObpDecodeGrantedAccess (access AND g) AND m = ObpDecodeGrantedAccess (access AND g)"
proof -
  assume a: "access AND m = access"
  have "((access AND g) AND x) AND m = (access AND m) AND (g AND x)" for x
    by (simp only: ac_simps)
  then show ?thesis by (simp add: ObpDecodeGrantedAccess_def a and.assoc)
qed

lemma inv_handle_operation:
  assumes inv: "sys_inv a t pid n S" and "a \<noteq> t" and K: "\<not> KphProtectionsSuppressed K"
    and o: "own = a \<and> refers t (ObObject info) \<and> \<not> IsKernelHandle h \<longrightarrow>
              \<not> KernelHandle info \<and> ordinary_open a t pid K actor info"
  shows "sys_inv a t pid n (system_step (HandleOperation K actor info own h granted) S)"
proof -
  obtain access S1 where run: "KphApplyObProtections K actor info S = (access, S1)"
    by (metis surj_pair)
  have "sys_adv S S1" using apply_protections_adv [OF K, of S actor info] run by simp
  then have inv1: "sys_inv a t pid n S1" using sys_inv_adv [OF inv] by blast
  obtain ca ct where c: "contexts S1 a = Some ca" "contexts S1 t = Some ct" "barred ca"
    "ProcessId ct = pid" "unat (NumberOfUntrustedImageLoads ca) + n < 18446744073709551616"
    "confined t ct (handles S1 a)" "a \<in> set (tracked S1)" by (rule sys_invE [OF inv1])
  let ?h = "\<lparr> Handle = h, Object = ObObject info, GrantedAccess = access AND granted \<rparr>"
  have new: "evaluated ct \<and> (active ct \<longrightarrow> within ct ?h)"
    if "own = a" "refers t (ObObject info)" "\<not> IsKernelHandle h"
  proof -
    have "evaluated ct \<and> (active ct \<longrightarrow> access AND allowed_mask (ObObject info) ct = access)"
      using ordinary_access [OF K inv \<open>a \<noteq> t\<close> _ that(2) _ run] o that c(2) by auto
    then show ?thesis
      using and_fits by (auto simp: within_def)
  qed
  have "confined t ct (if own = a then handles S1 a @ [?h] else handles S1 a)"
    using c(6) new by (auto simp: confined_def)
  then show ?thesis
    using c by (cases "own = a") (simp_all add: run sys_inv_def)
qed

lemma within_set_masks [simp]:
  "evaluated (set_masks pm tm p) = evaluated p" "active (set_masks pm tm p) = active p"
  "barred (set_masks pm tm p) = barred p" "ProcessId (set_masks pm tm p) = ProcessId p"
  "NumberOfUntrustedImageLoads (set_masks pm tm p) = NumberOfUntrustedImageLoads p"
  by (simp_all add: set_masks_def evaluated_def active_def barred_def)

lemma set_masks_same [simp]:
  "set_masks (ProcessAllowedMask (Protection p)) (ThreadAllowedMask (Protection p)) p = p"
  by (simp add: set_masks_def)

lemma protection_ok_strip:
  assumes "protection_ok p"
  shows "protection_ok (set_masks (ProcessAllowedMask (Protection p) AND x)
           (ThreadAllowedMask (Protection p) AND y) p)"
  using assms by (auto simp: protection_ok_def set_masks_def and_within and.assoc)

lemma inv_put_other:
  assumes "sys_inv a t pid n S" "e \<noteq> t" "contexts S e = Some p"
    and "e = a \<Longrightarrow> barred p \<Longrightarrow> barred p'"
    and "e = a \<Longrightarrow> unat (NumberOfUntrustedImageLoads p) + n < 18446744073709551616 \<Longrightarrow>
         unat (NumberOfUntrustedImageLoads p') + m < 18446744073709551616" and "m \<le> n"
  shows "sys_inv a t pid m (put_context e (p', l) S)"
  using assms by (auto simp: sys_inv_def put_context_def)

lemma inv_put_target:
  assumes "sys_inv a t pid n S" "a \<noteq> t" "contexts S t = Some p" "ProcessId p' = ProcessId p"
    and "confined t p (handles S a) \<Longrightarrow> confined t p' (handles S a)"
  shows "sys_inv a t pid n (put_context t (p', l) S)"
  using assms by (auto simp: sys_inv_def put_context_def)

lemma inv_strip_other:
  assumes inv: "sys_inv a t pid n S" and K: "\<not> KphProtectionsSuppressed K" and "e \<noteq> t"
  shows "sys_inv a t pid n (snd (KphpStripProtectedProcessMasks K e pm tm S))"
proof -
  obtain pr S1 where prot: "is_protected K e S = (pr, S1)" by (metis surj_pair)
  have inv1: "sys_inv a t pid n S1"
    using sys_inv_adv [OF inv is_protected_adv(1) [OF K, of S e]] prot by simp
  show ?thesis
  proof (cases "contexts S1 e")
    case None
    then show ?thesis using inv1 by (simp add: KphpStripProtectedProcessMasks_def prot)
  next
    case (Some p)
    have masks: "sys_inv a t pid n (put_context e (set_masks x y q, l) T)"
      if "sys_inv a t pid n T" "contexts T e = Some q" for x y q l T
      using inv_put_other [OF that(1) \<open>e \<noteq> t\<close> that(2), of "set_masks x y q" n] by simp
    define S2 where "S2 = put_context e (set_masks (ProcessAllowedMask (Protection p) AND NOT pm)
        (ThreadAllowedMask (Protection p) AND NOT tm) p, lsass S1) S1"
    have inv2: "sys_inv a t pid n S2" using masks [OF inv1 Some] by (simp add: S2_def)
    obtain S3 st where en: "KphEnumerateProcessContexts (KphpEnumProcessContextsForProtection K e)
        (tracked S2) (S2, STATUS_SUCCESS) = (S3, st)" by (metis surj_pair)
    show ?thesis
    proof (cases "pr \<and> evaluated p")
      case True
      have "\<exists>q. contexts S2 e = Some q \<and> evaluated q"
        using True by (simp add: S2_def put_context_def)
      then have "sys_adv S2 S3" using strip_contexts(1) [OF K en] by blast
      then have inv3: "sys_inv a t pid n S3" using sys_inv_adv [OF inv2] by blast
      have "contexts S3 e \<noteq> None"
        using sys_adv_context [OF \<open>sys_adv S2 S3\<close>, of e] by (auto simp: S2_def put_context_def)
      then show ?thesis
        using inv1 inv2 inv3 en masks [OF inv3]
          masks [OF inv1 Some, of "ProcessAllowedMask (Protection p)" "ThreadAllowedMask (Protection p)"]
        by (auto simp: KphpStripProtectedProcessMasks_def prot Some Let_def S2_def [symmetric]
            split: if_splits)
    next
      case False
      have "\<not> pr"
      proof
        assume pr
        then have "evaluated p" using is_protected_adv(2) [OF K, of e S] prot Some by auto
        with False \<open>pr\<close> show False by simp
      qed
      then show ?thesis using inv1 by (simp add: KphpStripProtectedProcessMasks_def prot Some)
    qed
  qed
qed


lemma inv_strip_target:
  assumes inv: "sys_inv a t pid n S" and K: "\<not> KphProtectionsSuppressed K" and "a \<noteq> t"
    and ok: "ordinary K a" "PsAcquireProcessExitSynchronization K a = STATUS_SUCCESS" "object_table K a"
  shows "sys_inv a t pid n (snd (KphpStripProtectedProcessMasks K t pm tm S))"
proof -
  obtain pr S1 where prot: "is_protected K t S = (pr, S1)" by (metis surj_pair)
  have inv1: "sys_inv a t pid n S1"
    using sys_inv_adv [OF inv is_protected_adv(1) [OF K, of S t]] prot by simp
  obtain ca p where c: "contexts S1 a = Some ca" "contexts S1 t = Some p" "barred ca"
    "ProcessId p = pid" "unat (NumberOfUntrustedImageLoads ca) + n < 18446744073709551616"
    "confined t p (handles S1 a)" "a \<in> set (tracked S1)" by (rule sys_invE [OF inv1])
  show ?thesis
  proof (cases "pr \<and> dyn_data K")
    case False
    then show ?thesis using inv1 c(2) by (auto simp: KphpStripProtectedProcessMasks_def prot)
  next
    case True
    have act: "active p" "evaluated p" using is_protected_adv(2) [OF K, of t S] prot c(2) True by auto
    define q where "q = set_masks (ProcessAllowedMask (Protection p) AND NOT pm)
        (ThreadAllowedMask (Protection p) AND NOT tm) p"
    define S2 where "S2 = put_context t (q, lsass S1) S1"
    have q: "contexts S2 t = Some q" "evaluated q" "active q" "ProcessId q = pid" "protection_ok q"
      "contexts S2 a = Some ca" "tracked S2 = tracked S1" "handles S2 = handles S1"
      using act c \<open>a \<noteq> t\<close> protection_ok_strip
      by (auto simp: S2_def q_def put_context_def confined_def)
    obtain S3 st where en: "KphEnumerateProcessContexts (KphpEnumProcessContextsForProtection K t)
        (tracked S2) (S2, STATUS_SUCCESS) = (S3, st)" by (metis surj_pair)
    note enum = strip_contexts [OF K en q(1,2)]
    have adv: "sys_adv S2 S3" by (rule enum(1))
    obtain q3 where q3: "contexts S3 t = Some q3" "advanced q q3" using sys_adv_context [OF adv q(1)] .
    obtain ca3 where ca3: "contexts S3 a = Some ca3" "advanced ca ca3" using sys_adv_context [OF adv q(6)] .
    have pr3: "Protection q3 = Protection q" using q3(2) q(2) by (auto simp: advanced_def)
    have le: "list_all2 le_entry (handles S1 a) (handles S3 a)" "tracked S3 = tracked S1"
      using adv q(7,8) by (auto simp: sys_adv_def)
    have base: "barred ca3" "ProcessId q3 = pid"
      "unat (NumberOfUntrustedImageLoads ca3) + n < 18446744073709551616" "a \<in> set (tracked S3)"
      using advanced_barred [OF ca3(2) c(3)] advanced_frame [OF ca3(2)] advanced_frame [OF q3(2)] q(4)
        c(5,7) le(2) by simp_all
    have unchanged: "sys_inv a t pid n (put_context t (p, lsass S1) S1)"
      using c \<open>a \<noteq> t\<close> by (simp add: sys_inv_def put_context_def)
    have success: "sys_inv a t pid n S3" if "st = STATUS_SUCCESS"
    proof -
      have "\<forall>h \<in> set (handles S3 a). \<not> IsKernelHandle (Handle h) \<and> refers t (Object h) \<longrightarrow> within q h"
        using enum(3) [of a ca] c(3,7) q(6,7) \<open>a \<noteq> t\<close> ok that by simp
      then have "confined t q (handles S3 a)" using q by (auto simp: confined_def)
      then have "confined t q3 (handles S3 a)" using confined_protection [OF pr3] by simp
      then show ?thesis using base ca3(1) q3(1) by (simp add: sys_inv_def)
    qed
    have failure: "sys_inv a t pid n (put_context t (set_masks (ProcessAllowedMask (Protection p))
        (ThreadAllowedMask (Protection p)) q3, lsass S3) S3)"
    proof -
      let ?r = "set_masks (ProcessAllowedMask (Protection p)) (ThreadAllowedMask (Protection p)) q3"
      have "Protection ?r = Protection p" using pr3 by (simp add: set_masks_def q_def)
      then have "confined t ?r (handles S3 a)"
        using confined_protection [of ?r p] confined_le [OF c(6) le(1)] by simp
      then show ?thesis
        using base ca3(1) q3(1) \<open>a \<noteq> t\<close> by (simp add: sys_inv_def put_context_def)
    qed
    show ?thesis
      using True unchanged success failure en c(2) q3(1)
      by (auto simp: KphpStripProtectedProcessMasks_def prot Let_def q_def [symmetric]
          S2_def [symmetric] split: if_splits)
  qed
qed


subsection \<open>Creation and tracking\<close>

lemma inv_track:
  assumes inv: "sys_inv a t pid n S"
  shows "sys_inv a t pid n (track_context e fresh S)"
proof -
  obtain ca ct where c: "contexts S a = Some ca" "contexts S t = Some ct" "barred ca"
    "ProcessId ct = pid" "unat (NumberOfUntrustedImageLoads ca) + n < 18446744073709551616"
    "confined t ct (handles S a)" "a \<in> set (tracked S)" by (rule sys_invE [OF inv])
  have note_simps: "barred (p\<lparr> CreateNotification := True \<rparr>) = barred p"
    "confined u (p\<lparr> CreateNotification := True \<rparr>) hs = confined u p hs" for p u hs
    by (simp add: barred_def evaluated_def active_def) (rule confined_protection, simp)
  show ?thesis
    using c by (cases "contexts S e") (auto simp: track_context_def sys_inv_def note_simps)
qed

lemma tcb_flags:
  "\<not> FlagOn KPH_PROTECTION_TCB KPH_PROTECTION_PENDING"
  "\<not> FlagOn KPH_PROTECTION_TCB KPH_PROTECTION_ACTIVE"
  "\<not> FlagOn KPH_PROTECTION_TCB KPH_PROTECTION_VERIFIED"
  "x OR KPH_PROTECTION_TCB \<noteq> KPH_PROTECTION_NONE"
  by (simp_all add: protection_bits or_eq_0_iff)

lemma inv_set_tcb:
  assumes inv: "sys_inv a t pid n S" and ev: "\<And>p. contexts S e = Some p \<Longrightarrow> evaluated p"
  shows "sys_inv a t pid n (set_tcb e S)"
proof (cases "contexts S e")
  case None
  then show ?thesis using inv by (simp add: set_tcb_def)
next
  case (Some p)
  let ?p = "KphProtectionSet p KPH_PROTECTION_TCB"
  have ev': "evaluated ?p" "active ?p = active p" "evaluated p"
    using ev [OF Some] by (simp_all add: KphProtectionSet_def evaluated_def active_def tcb_flags)
  have b: "barred p \<Longrightarrow> barred ?p"
    using ev' by (auto simp: barred_def KphProtectionSet_def set_state_def)
  have f: "ProcessId ?p = ProcessId p" "NumberOfUntrustedImageLoads ?p = NumberOfUntrustedImageLoads p"
    by (simp_all add: KphProtectionSet_def set_state_def)
  have "allowed_mask ob ?p = allowed_mask ob p" for ob
    by (simp add: KphProtectionSet_def set_state_def allowed_mask_def split: ob_object.splits)
  moreover have "protection_ok p \<Longrightarrow> protection_ok ?p"
    by (simp add: protection_ok_def KphProtectionSet_def set_state_def tcb_flags)
  ultimately have "confined t p hs \<Longrightarrow> confined t ?p hs" for hs
    using ev' by (auto simp: confined_def within_def)
  then show ?thesis
    using inv Some b f by (auto simp: set_tcb_def sys_inv_def)
qed

lemma test_state_evaluated:
  assumes "contexts S e = Some p"
  shows "\<exists>p'. contexts (snd (test_state K e st S)) e = Some p' \<and> evaluated p'"
proof -
  obtain ps p' l' where run: "KphGetProcessState K e (p, lsass S) = (ps, p', l')"
    by (metis prod_cases3)
  then show ?thesis
    using queried_process_state(2) [OF run] assms
    by (simp add: test_state_def KphTestProcessContextState_def put_context_def)
qed

lemma inv_process_tracking:
  assumes inv: "sys_inv a t pid n S" and K: "\<not> KphProtectionsSuppressed K"
  shows "sys_inv a t pid n (KphpPerformProcessTracking K e fresh creator S)"
proof (cases creator)
  case None
  then show ?thesis using inv_track [OF inv] by (simp add: KphpPerformProcessTracking_def)
next
  case (Some x)
  define S1 where "S1 = track_context e fresh S"
  define S2 where "S2 = snd (test_state K e KPH_PROCESS_STATE_HIGH S1)"
  define S3 where "S3 = snd (test_state K x KPH_PROCESS_STATE_MAXIMUM S2)"
  have inv1: "sys_inv a t pid n S1" using inv_track [OF inv] by (simp add: S1_def)
  have adv: "sys_adv S1 S2" "sys_adv S2 S3" using test_state_adv [OF K] by (simp_all add: S2_def S3_def)
  then have inv3: "sys_inv a t pid n S2" "sys_inv a t pid n S3" using sys_inv_adv inv1 by blast+
  obtain p where p: "contexts S1 e = Some p"
    by (cases "contexts S e") (auto simp: S1_def track_context_def)
  obtain p2 where p2: "contexts S2 e = Some p2" "evaluated p2"
    using test_state_evaluated [OF p] by (auto simp: S2_def)
  obtain p3 where "contexts S3 e = Some p3" "advanced p2 p3" using sys_adv_context [OF adv(2) p2(1)] .
  then have "sys_inv a t pid n (set_tcb e S3)"
    using p2(2) by (intro inv_set_tcb [OF inv3(2)]) (auto simp: advanced_def dest: protection_eq)
  then show ?thesis
    using inv3 by (auto simp: KphpPerformProcessTracking_def Some Let_def case_prod_beta
        S1_def [symmetric] S2_def [symmetric] S3_def [symmetric])
qed

lemma clear_active:
  "active p \<Longrightarrow> barred p \<Longrightarrow> barred (KphProtectionClear p KPH_PROTECTION_ACTIVE)"
  "\<not> active (KphProtectionClear p KPH_PROTECTION_ACTIVE)"
  "evaluated p \<Longrightarrow> protection_ok p \<Longrightarrow> evaluated (KphProtectionClear p KPH_PROTECTION_ACTIVE)"
proof -
  let ?p = "KphProtectionClear p KPH_PROTECTION_ACTIVE"
  show "active p \<Longrightarrow> barred p \<Longrightarrow> barred ?p"
    by (auto simp: barred_def KphProtectionClear_def set_state_def)
  show "\<not> active ?p"
    by (simp add: active_def KphProtectionClear_def protection_bits FlagOn_def and.assoc)
  assume "evaluated p" "protection_ok p"
  then have "FlagOn (ProtectionState ?p) KPH_PROTECTION_VERIFIED"
    "\<not> FlagOn (ProtectionState ?p) KPH_PROTECTION_PENDING"
    by (simp_all add: protection_ok_def evaluated_def KphProtectionClear_def protection_bits FlagOn_def
        and.assoc)
  then show "evaluated ?p" by (auto simp: evaluated_def FlagOn_def protection_bits)
qed


lemma inv_creation_tracking:
  assumes inv: "sys_inv a t pid n S" and K: "\<not> KphProtectionsSuppressed K" and "a \<noteq> t"
  shows "sys_inv a t pid n (snd (KphpPerformProcessCreationTracking K e actor noop alloc ins S))"
proof -
  obtain pr S1 where prot: "is_protected K e S = (pr, S1)" by (metis surj_pair)
  have inv1: "sys_inv a t pid n S1"
    using sys_inv_adv [OF inv is_protected_adv(1) [OF K, of S e]] prot by simp
  define S2 where "S2 = (case contexts S1 e of
             None \<Rightarrow> S1
           | Some p \<Rightarrow>
               S1\<lparr> contexts := (contexts S1)(e \<mapsto> KphProtectionClear p KPH_PROTECTION_ACTIVE) \<rparr>)"
  have "sys_inv a t pid n S2" if pr: pr
  proof -
    obtain p where p: "contexts S1 e = Some p" "active p" "evaluated p"
      using is_protected_adv(2) [OF K, of e S] prot pr by auto
    let ?p = "KphProtectionClear p KPH_PROTECTION_ACTIVE"
    have f: "ProcessId ?p = ProcessId p"
      "NumberOfUntrustedImageLoads ?p = NumberOfUntrustedImageLoads p"
      by (simp_all add: KphProtectionClear_def set_state_def)
    have "confined t p hs \<Longrightarrow> confined t ?p hs" for hs
      using clear_active(2,3) [of p] p by (auto simp: confined_def)
    then show ?thesis
      using inv1 p clear_active(1) [OF p(2)] f \<open>a \<noteq> t\<close> by (auto simp: S2_def sys_inv_def)
  qed
  then show ?thesis
    using inv1 by (auto simp: KphpPerformProcessCreationTracking_def prot Let_def S2_def
        split: option.splits)
qed

subsection \<open>Images\<close>

definition counts :: "KPH_PROCESS_CONTEXT \<Rightarrow> KPH_PROCESS_CONTEXT \<Rightarrow> bool" where
  "counts p p' \<longleftrightarrow> Protection p' = Protection p \<and> StateTracking p' = StateTracking p \<and>
     FileObject p' = FileObject p \<and> ProcessId p' = ProcessId p \<and>
     (NumberOfUntrustedImageLoads p' = NumberOfUntrustedImageLoads p \<or>
      NumberOfUntrustedImageLoads p' = NumberOfUntrustedImageLoads p + 1)"

lemma counts_intros [simp]:
  "counts p p" "counts p (count_untrusted p)"
  "counter_of_level level = Some c \<Longrightarrow> counts p (c p)"
  "trusted_counter E K f = Some c \<Longrightarrow> counts p (c p)"
  by (auto simp: counts_def count_untrusted_def counter_of_level_def trusted_counter_def Let_def
      split: if_splits option.splits prod.splits)

lemma counts_apply:
  "counts p (fst (KphpHandleUntrustedImageLoad K p b))"
  "counts p (fst (KphpApplyImageProtections E K p b f))"
  "counts p (fst (KphpApplyImageProtectionsApcsDisabled K p b f))"
  "counts p (fst (run_apc E K apc p))"
  by (auto simp: KphpHandleUntrustedImageLoad_def KphpApplyImageProtections_def run_apc_def Let_def
      case_prod_beta KphpApplyImageProtectionsApcsDisabled_def KphpImageLoadKernelRoutineFirst_def
      KphpImageLoadKernelNormalRoutine_def KphpImageLoadKernelNormalRoutineApcsDisabled_def
      split: option.splits image_apc.splits)

lemma inv_counts:
  assumes inv: "sys_inv a t pid (Suc n) S" and p: "contexts S e = Some p" and c: "counts p p'"
  shows "sys_inv a t pid n (put_context e (p', l) S)"
proof -
  obtain ca ct where i: "contexts S a = Some ca" "contexts S t = Some ct" "barred ca"
    "ProcessId ct = pid" "unat (NumberOfUntrustedImageLoads ca) + Suc n < 18446744073709551616"
    "confined t ct (handles S a)" "a \<in> set (tracked S)" by (rule sys_invE [OF inv])
  have pr: "Protection p' = Protection p" using c by (simp add: counts_def)
  have room: "unat (NumberOfUntrustedImageLoads p') + n < 18446744073709551616"
    if "unat (NumberOfUntrustedImageLoads p) + Suc n < 18446744073709551616"
    using c that by (auto simp: counts_def unat_inc64)
  have bar: "barred p'" if "barred p"
    "unat (NumberOfUntrustedImageLoads p) + Suc n < 18446744073709551616"
  proof -
    have "unat (NumberOfUntrustedImageLoads p + 1) = unat (NumberOfUntrustedImageLoads p) + 1"
      using that(2) by (intro unat_inc64) simp
    then have "NumberOfUntrustedImageLoads p + 1 \<noteq> 0" by auto
    then show ?thesis
      using that(1) c protection_eq [OF pr] by (auto simp: barred_def counts_def)
  qed
  show ?thesis
    using i p c room bar confined_protection [OF pr] by (auto simp: sys_inv_def put_context_def counts_def)
qed

lemma inv_load_image:
  assumes inv: "sys_inv a t pid (Suc n) S" and K: "\<not> KphProtectionsSuppressed K"
    and p: "contexts S e = Some p"
  shows "sys_inv a t pid n
    (put_context e (fst (KphApplyImageProtections K I e level b f (p, lsass S))) S)"
proof -
  obtain pr q l where run: "KphIsProtectedProcess K e (p, lsass S) = (pr, q, l)"
    by (metis prod_cases3)
  obtain st q' l' where run': "KphGetProtectionState K e (p, lsass S) = (st, q', l')"
    by (metis prod_cases3)
  have "advanced p q"
    using queried_advanced [OF queried_protection_state [OF run'] K] run run'
    by (simp add: KphIsProtectedProcess_def)
  then have "sys_inv a t pid (Suc n) (put_context e (q, l) S)"
    using sys_inv_adv [OF inv put_context_adv [OF p]] by blast
  moreover have "contexts (put_context e (q, l) S) e = Some q" by (simp add: put_context_def)
  ultimately have *: "sys_inv a t pid n (put_context e (p', l) (put_context e (q, l) S))"
    if "counts q p'" for p' using inv_counts that by blast
  have pp: "put_context e (p', l) (put_context e (q, l) S) = put_context e (p', l) S" for p'
    by (simp add: put_context_def)
  have "\<exists>p'. counts q p' \<and> fst (KphApplyImageProtections K I e level b f (p, lsass S)) = (p', l)"
    using counts_apply(2) [of q K I b f] counts_apply(3) [of q I b f]
    by (auto simp: KphApplyImageProtections_def run Let_def case_prod_beta split: option.splits)
  then show ?thesis using * pp by auto
qed


section \<open>Confinement\<close>

text \<open>
  The operations under which \<open>a\<close> is an outsider to \<open>t\<close>: the driver is not in developer mode; whenever
  a handle to \<open>t\<close> comes into the table of \<open>a\<close> an ordinary actor opened or duplicated it, and not the
  thread that is creating \<open>t\<close>; \<open>a\<close> is not exiting while the handles are stripped; and neither of the
  two exits.
\<close>

fun outsider_op :: "nat \<Rightarrow> nat \<Rightarrow> u64 \<Rightarrow> system_op \<Rightarrow> bool" where
  "outsider_op a t pid (HandleOperation K actor info own h granted) =
     (\<not> KphProtectionsSuppressed K \<and>
      (own = a \<and> refers t (ObObject info) \<and> \<not> IsKernelHandle h \<longrightarrow>
         \<not> KernelHandle info \<and> ordinary_open a t pid K actor info))"
| "outsider_op a t pid (CloseHandle e h) = True"
| "outsider_op a t pid (QueryState K e st) = (\<not> KphProtectionsSuppressed K)"
| "outsider_op a t pid (StripMasks K e pm tm) =
     (\<not> KphProtectionsSuppressed K \<and>
      (e = t \<longrightarrow> ordinary K a \<and> PsAcquireProcessExitSynchronization K a = STATUS_SUCCESS \<and>
                object_table K a))"
| "outsider_op a t pid (TrackProcess K e fresh creator) = (\<not> KphProtectionsSuppressed K)"
| "outsider_op a t pid (TrackCreation K e actor noop allocated inserted) =
     (\<not> KphProtectionsSuppressed K)"
| "outsider_op a t pid (LoadImage K I e level base f) = (\<not> KphProtectionsSuppressed K)"
| "outsider_op a t pid (RunImageApc K I e apc) = True"
| "outsider_op a t pid (ExitProcess K e) = (e \<noteq> a \<and> e \<noteq> t)"

lemma inv_system_step:
  assumes inv: "sys_inv a t pid (Suc n) S" and "a \<noteq> t" and o: "outsider_op a t pid op"
  shows "sys_inv a t pid n (system_step op S)"
proof -
  note inv' = sys_inv_less [OF inv, of n, simplified]
  show ?thesis
  proof (cases op)
    case (HandleOperation K actor info own h granted)
    show ?thesis unfolding HandleOperation
      by (rule inv_handle_operation [OF inv' \<open>a \<noteq> t\<close>]) (use o HandleOperation in auto)
  next
    case (CloseHandle e h)
    have "confined t p (filter (\<lambda>x. Handle x \<noteq> h) hs)" if "confined t p hs" for p hs
      using confined_subset [OF that] by auto
    then show ?thesis using inv' by (auto simp: CloseHandle sys_inv_def)
  next
    case (QueryState K e st)
    then show ?thesis using sys_inv_adv [OF inv' test_state_adv] o by simp
  next
    case (StripMasks K e pm tm)
    then show ?thesis
      using inv_strip_other [OF inv'] inv_strip_target [OF inv' _ \<open>a \<noteq> t\<close>] o
      by (cases "e = t") auto
  next
    case (TrackProcess K e fresh creator)
    then show ?thesis using inv_process_tracking [OF inv'] o by simp
  next
    case (TrackCreation K e actor noop allocated inserted)
    then show ?thesis using inv_creation_tracking [OF inv' _ \<open>a \<noteq> t\<close>] o by simp
  next
    case (LoadImage K I e level base f)
    then show ?thesis
      using inv_load_image [OF inv] inv' o by (auto split: option.splits)
  next
    case (RunImageApc K I e apc)
    then show ?thesis
      using inv_counts [OF inv _ counts_apply(4)] inv' by (auto split: option.splits)
  next
    case (ExitProcess K e)
    then show ?thesis using inv' o by (auto simp: sys_inv_def untrack_process_def)
  qed
qed

lemma inv_system_run:
  assumes "sys_inv a t pid (n + length ops) S" "a \<noteq> t" "\<forall>op \<in> set ops. outsider_op a t pid op"
  shows "sys_inv a t pid n (system_run ops S)"
  using assms
proof (induction ops arbitrary: S)
  case Nil
  then show ?case by (simp add: system_run_def)
next
  case (Cons op ops)
  have "sys_inv a t pid (n + length ops) (system_step op S)"
    using inv_system_step [of a t pid "n + length ops" S op] Cons.prems by simp
  from Cons.IH [OF this] Cons.prems show ?case by (simp add: system_run_def)
qed

text \<open>The rights that protection leaves to others.\<close>

definition protected_mask :: "ob_object \<Rightarrow> u32" where
  "protected_mask ob =
     (case ob of ProcessObject _ \<Rightarrow> KPH_PROTECTED_PROCESS_MASK | _ \<Rightarrow> KPH_PROTECTED_THREAD_MASK)"

lemma within_protected:
  assumes "within p h" "protection_ok p"
  shows "ObpDecodeGrantedAccess (GrantedAccess h) AND protected_mask (Object h) =
    ObpDecodeGrantedAccess (GrantedAccess h)"
proof -
  have "allowed_mask (Object h) p AND protected_mask (Object h) = allowed_mask (Object h) p"
    using assms(2)
    by (cases "Object h") (auto simp: protection_ok_def allowed_mask_def protected_mask_def)
  with assms(1) show ?thesis unfolding within_def by (metis and.assoc)
qed


text \<open>
  A process is created and starts to be protected; an outsider, which has no image file, opens it
  with all rights, duplicates a handle to one of its threads, and the masks are then reduced.
\<close>

definition example_target :: KPH_PROCESS_CONTEXT where
  "example_target = KphpInitializeProcessContext 20 (Some []) (Some 10) False"

definition example_outsider :: KPH_PROCESS_CONTEXT where
  "example_outsider = KphpInitializeProcessContext 30 None None False"

definition example_system :: SYSTEM where
  "example_system = \<lparr> contexts = [20 \<mapsto> example_target, 30 \<mapsto> example_outsider], tracked = [20, 30],
     lsass = 99, handles = (\<lambda>e. []) \<rparr>"

definition example_thread :: KPH_THREAD_CONTEXT where
  "example_thread = \<lparr> ProcessContext = Some 30, IsCreatingProcess = False, IsCreatingProcessId = 0 \<rparr>"

definition example_ops :: "system_op list" where
  "example_ops =
     [HandleOperation example_kernel (Some example_thread)
        \<lparr> Operation = OB_OPERATION_HANDLE_CREATE, KernelHandle = False, ObObject = ProcessObject 20,
          DesiredAccess = 0x1fffff \<rparr> 30 4 0x1fffff,
      HandleOperation example_kernel (Some example_thread)
        \<lparr> Operation = OB_OPERATION_HANDLE_DUPLICATE 20 30, KernelHandle = False,
          ObObject = ThreadObject 21 20, DesiredAccess = 0x1fffff \<rparr> 30 8 0x1fffff,
      StripMasks example_kernel 20 PROCESS_TERMINATE 0]"


end
