(* ===== verification/KphObject.thy ===== *)
theory KphObject
  imports TE_Prelude "HOL-Library.Multiset" "HOL-Library.Monad_Syntax"
begin

unbundle bit_operations_syntax

text \<open>
  The objects of the driver, ProcessHacker/KSystemInformer/kphobject.c: reference counts, the
  atomically managed references, in whose word the low four bits are a lock, and the deferred
  deletion. Any number of threads runs the routines; every access to shared memory is a step of its
  own and the steps of different threads interleave freely, each seeing those before it.
\<close>

section \<open>The code\<close>

definition KPH_ATOMIC_OBJECT_REF_SHARED_MAX :: u64 where "KPH_ATOMIC_OBJECT_REF_SHARED_MAX = 7"
definition KPH_ATOMIC_OBJECT_REF_EXCLUSIVE_BIT :: nat where "KPH_ATOMIC_OBJECT_REF_EXCLUSIVE_BIT = 3"
definition KPH_ATOMIC_OBJECT_REF_LOCK_MASK :: u64 where "KPH_ATOMIC_OBJECT_REF_LOCK_MASK = 0xf"
definition KPH_ATOMIC_OBJECT_REF_OBJECT_MASK :: u64 where
  "KPH_ATOMIC_OBJECT_REF_OBJECT_MASK = 0xfffffffffffffff0"
definition KPH_ATOMIC_OBJECT_REF_EXCLUSIVE_FLAG :: u64 where
  "KPH_ATOMIC_OBJECT_REF_EXCLUSIVE_FLAG = push_bit KPH_ATOMIC_OBJECT_REF_EXCLUSIVE_BIT 1"

lemmas atomic_defs = KPH_ATOMIC_OBJECT_REF_SHARED_MAX_def KPH_ATOMIC_OBJECT_REF_LOCK_MASK_def
  KPH_ATOMIC_OBJECT_REF_OBJECT_MASK_def KPH_ATOMIC_OBJECT_REF_EXCLUSIVE_FLAG_def
  KPH_ATOMIC_OBJECT_REF_EXCLUSIVE_BIT_def

text \<open>
  An object is named by its address; its memory is allocated, or not, or its last reference is gone
  and its deletion is on the way. References have owners: a thread, a slot (an atomically managed
  reference), or a thread that is in the middle of a routine. Who owns a reference is not in the
  memory of the program.
\<close>

datatype phase = Absent | Live | Dying

datatype owner = OfThread nat | OfSlot nat | InFlight nat

record KPH_OBJECT_HEADER =
  PointerCount :: u64
  TypeIndex :: u8

record KPH_OBJECT_TYPE =
  DeferDelete :: bool
  TotalNumberOfObjects :: u64
  HighWaterNumberOfObjects :: u64

text \<open>
  Where a thread stands, with its local variables. \<open>move\<close> tells the two routines apart that store a
  reference; \<open>Deleting\<close> goes on with the objects that are left of the flushed list, none when the
  object was deleted directly.
\<close>

datatype pc =
    Idle
  | SharedAcquire nat u64
  | SharedRead nat
  | SharedReference nat u64
  | SharedRelease nat u64
  | StoreStart bool nat u64
  | ExclusiveAcquire bool nat u64 u64
  | ExclusiveDrain bool nat u64 u64
  | ExclusiveWrite bool nat u64 u64
  | ExclusiveRelease bool nat u64
  | Drop u64 bool
  | Push u64
  | Schedule
  | Flush
  | Deleting u64 "u64 list"
  | Uncounting u8 "u64 list"
  | Counting u64
  | HighWater u64 u64

record OBJECTS =
  Object :: "nat \<Rightarrow> u64"
  header :: "u64 \<Rightarrow> KPH_OBJECT_HEADER"
  KphpObjectTypes :: "u8 \<Rightarrow> KPH_OBJECT_TYPE"
  KphpDeferDeleteObjectList :: "u64 list"
  dpcs :: nat
  work_items :: nat
  pcs :: "nat \<Rightarrow> pc"
  phases :: "u64 \<Rightarrow> phase"
  refs :: "(owner \<times> u64) multiset"

definition goto :: "nat \<Rightarrow> pc \<Rightarrow> OBJECTS \<Rightarrow> OBJECTS" where
  "goto t c s = s\<lparr> pcs := (pcs s)(t := c) \<rparr>"

definition set_word :: "nat \<Rightarrow> u64 \<Rightarrow> OBJECTS \<Rightarrow> OBJECTS" where
  "set_word r w s = s\<lparr> Object := (Object s)(r := w) \<rparr>"

definition set_count :: "u64 \<Rightarrow> u64 \<Rightarrow> OBJECTS \<Rightarrow> OBJECTS" where
  "set_count ob n s = s\<lparr> header := (header s)(ob := (header s ob)\<lparr> PointerCount := n \<rparr>) \<rparr>"

definition set_phase :: "u64 \<Rightarrow> phase \<Rightarrow> OBJECTS \<Rightarrow> OBJECTS" where
  "set_phase ob p s = s\<lparr> phases := (phases s)(ob := p) \<rparr>"

text \<open>A reference, if it is one and not NULL, comes to an owner, leaves one, or changes it.\<close>

definition gain :: "owner \<Rightarrow> u64 \<Rightarrow> OBJECTS \<Rightarrow> OBJECTS" where
  "gain w ob s = (if ob = 0 then s else s\<lparr> refs := add_mset (w, ob) (refs s) \<rparr>)"

definition lose :: "owner \<Rightarrow> u64 \<Rightarrow> OBJECTS \<Rightarrow> OBJECTS" where
  "lose w ob s = (if ob = 0 then s else s\<lparr> refs := refs s - {# (w, ob) #} \<rparr>)"

definition hand :: "owner \<Rightarrow> owner \<Rightarrow> u64 \<Rightarrow> OBJECTS \<Rightarrow> OBJECTS" where
  "hand w w' ob s = gain w' ob (lose w ob s)"

subsection \<open>Reference counts and deletion\<close>

definition KphReferenceObject :: "u64 \<Rightarrow> OBJECTS \<Rightarrow> OBJECTS" where
  "KphReferenceObject ob s = set_count ob (PointerCount (header s ob) + 1) s"

text \<open>
  The decrement of \<open>KphDereferenceObject\<close> and of \<open>KphDereferenceObjectDeferDelete\<close> (\<open>defer\<close>), and
  where it leads.
\<close>

definition dereference :: "nat \<Rightarrow> u64 \<Rightarrow> bool \<Rightarrow> OBJECTS \<Rightarrow> OBJECTS" where
  "dereference t ob defer s =
     (let refCount = PointerCount (header s ob) - 1;
          s = lose (InFlight t) ob (set_count ob refCount s) in
      if sint refCount > 0 then goto t Idle s
      else
        let deferred = defer \<or> DeferDelete (KphpObjectTypes s (TypeIndex (header s ob))) in
        goto t (if deferred then Push ob else Deleting ob []) (set_phase ob Dying s))"

text \<open>The worker was scheduled by whoever found the list empty.\<close>

definition KphpObjectDeferDelete :: "nat \<Rightarrow> u64 \<Rightarrow> OBJECTS \<Rightarrow> OBJECTS" where
  "KphpObjectDeferDelete t ob s =
     goto t (if KphpDeferDeleteObjectList s \<noteq> [] then Idle else Schedule)
       (s\<lparr> KphpDeferDeleteObjectList := ob # KphpDeferDeleteObjectList s \<rparr>)"

definition schedule_worker :: "nat \<Rightarrow> bool \<Rightarrow> OBJECTS \<Rightarrow> OBJECTS" where
  "schedule_worker t dispatch s =
     goto t Idle (if dispatch then s\<lparr> work_items := work_items s + 1 \<rparr> else s\<lparr> dpcs := dpcs s + 1 \<rparr>)"

definition next_entry :: "u64 list \<Rightarrow> pc" where
  "next_entry es = (case es of [] \<Rightarrow> Idle | e # es \<Rightarrow> Deleting e es)"

definition KphpDeferDeleteObjectWorker :: "nat \<Rightarrow> OBJECTS \<Rightarrow> OBJECTS" where
  "KphpDeferDeleteObjectWorker t s =
     goto t (next_entry (KphpDeferDeleteObjectList s)) (s\<lparr> KphpDeferDeleteObjectList := [] \<rparr>)"

text \<open>\<open>KphpObjectDelete\<close>: the object is freed, then its type counts one less.\<close>

definition delete_object :: "nat \<Rightarrow> u64 \<Rightarrow> u64 list \<Rightarrow> OBJECTS \<Rightarrow> OBJECTS" where
  "delete_object t ob es s =
     goto t (Uncounting (TypeIndex (header s ob)) es) (set_phase ob Absent s)"

definition set_total :: "u8 \<Rightarrow> u64 \<Rightarrow> OBJECTS \<Rightarrow> OBJECTS" where
  "set_total i n s =
     s\<lparr> KphpObjectTypes := (KphpObjectTypes s)(i := (KphpObjectTypes s i)\<lparr> TotalNumberOfObjects := n \<rparr>) \<rparr>"

definition uncount_object :: "nat \<Rightarrow> u8 \<Rightarrow> u64 list \<Rightarrow> OBJECTS \<Rightarrow> OBJECTS" where
  "uncount_object t i es s =
     goto t (next_entry es) (set_total i (TotalNumberOfObjects (KphpObjectTypes s i) - 1) s)"

text \<open>
  \<open>KphCreateObject\<close>: the allocation of the object at \<open>ob\<close> and its initialization succeed or not;
  then the type counts it.
\<close>

definition KphCreateObject :: "nat \<Rightarrow> u64 \<Rightarrow> u8 \<Rightarrow> bool \<Rightarrow> ntstatus \<Rightarrow> OBJECTS \<Rightarrow> OBJECTS" where
  "KphCreateObject t ob i allocated initialized s =
     (if \<not> allocated \<or> \<not> NT_SUCCESS initialized then s
      else goto t (Counting ob) (gain (InFlight t) ob (set_phase ob Live
             (s\<lparr> header := (header s)(ob := \<lparr> PointerCount = 1, TypeIndex = i \<rparr>) \<rparr>))))"

definition count_object :: "nat \<Rightarrow> u64 \<Rightarrow> OBJECTS \<Rightarrow> OBJECTS" where
  "count_object t ob s =
     (let i = TypeIndex (header s ob); n = TotalNumberOfObjects (KphpObjectTypes s i) + 1 in
      goto t (HighWater ob n) (set_total i n s))"

definition raise_high_water :: "nat \<Rightarrow> u64 \<Rightarrow> u64 \<Rightarrow> OBJECTS \<Rightarrow> OBJECTS" where
  "raise_high_water t ob n s =
     (let i = TypeIndex (header s ob); ty = KphpObjectTypes s i in
      goto t Idle (hand (InFlight t) (OfThread t) ob
        (s\<lparr> KphpObjectTypes := (KphpObjectTypes s)(i := ty\<lparr> HighWaterNumberOfObjects :=
             max n (HighWaterNumberOfObjects ty) \<rparr>) \<rparr>)))"

subsection \<open>The lock in the word of a slot\<close>

text \<open>
  Each of these is one access to the word: an attempt of the compare-and-exchange, or the read that
  precedes the next one. \<open>v\<close> is the value the thread has seen.
\<close>

definition KphpAtomicAcquireObjectLockShared :: "nat \<Rightarrow> nat \<Rightarrow> u64 \<Rightarrow> OBJECTS \<Rightarrow> OBJECTS" where
  "KphpAtomicAcquireObjectLockShared t r v s =
     (if v AND KPH_ATOMIC_OBJECT_REF_LOCK_MASK \<ge> KPH_ATOMIC_OBJECT_REF_SHARED_MAX
      then goto t (SharedAcquire r (Object s r)) s
      else if Object s r = v then goto t (SharedRead r) (set_word r (v + 1) s)
      else goto t (SharedAcquire r (Object s r)) s)"

definition KphpAtomicReleaseObjectLockShared :: "nat \<Rightarrow> OBJECTS \<Rightarrow> OBJECTS" where
  "KphpAtomicReleaseObjectLockShared r s = set_word r (Object s r - 1) s"

definition KphpAtomicAcquireObjectLockExclusive ::
  "nat \<Rightarrow> bool \<Rightarrow> nat \<Rightarrow> u64 \<Rightarrow> u64 \<Rightarrow> OBJECTS \<Rightarrow> OBJECTS" where
  "KphpAtomicAcquireObjectLockExclusive t move r new v s =
     (if v AND KPH_ATOMIC_OBJECT_REF_EXCLUSIVE_FLAG \<noteq> 0
      then goto t (ExclusiveAcquire move r new (Object s r)) s
      else if Object s r = v
      then goto t (ExclusiveDrain move r new v)
             (set_word r (v OR KPH_ATOMIC_OBJECT_REF_EXCLUSIVE_FLAG) s)
      else goto t (ExclusiveAcquire move r new (Object s r)) s)"

definition KphpAtomicReleaseObjectLockExclusive :: "nat \<Rightarrow> OBJECTS \<Rightarrow> OBJECTS" where
  "KphpAtomicReleaseObjectLockExclusive r s =
     set_word r (Object s r AND NOT (push_bit KPH_ATOMIC_OBJECT_REF_EXCLUSIVE_BIT 1)) s"

text \<open>The end of the loop that drains the sharers, and the read that follows it.\<close>

definition drain_sharers :: "nat \<Rightarrow> bool \<Rightarrow> nat \<Rightarrow> u64 \<Rightarrow> u64 \<Rightarrow> OBJECTS \<Rightarrow> OBJECTS" where
  "drain_sharers t move r new v s =
     (if v AND KPH_ATOMIC_OBJECT_REF_SHARED_MAX \<noteq> 0
      then goto t (ExclusiveDrain move r new (Object s r)) s
      else goto t (ExclusiveWrite move r new (Object s r AND KPH_ATOMIC_OBJECT_REF_OBJECT_MASK)) s)"

subsection \<open>Atomically managed references\<close>

definition shared_read :: "nat \<Rightarrow> nat \<Rightarrow> OBJECTS \<Rightarrow> OBJECTS" where
  "shared_read t r s =
     (let ob = Object s r AND KPH_ATOMIC_OBJECT_REF_OBJECT_MASK in
      goto t (if ob \<noteq> 0 then SharedReference r ob else SharedRelease r 0) s)"

definition exclusive_write :: "nat \<Rightarrow> bool \<Rightarrow> nat \<Rightarrow> u64 \<Rightarrow> u64 \<Rightarrow> OBJECTS \<Rightarrow> OBJECTS" where
  "exclusive_write t move r new previous s =
     goto t (ExclusiveRelease move r previous)
       (hand (InFlight t) (OfSlot r) new (hand (OfSlot r) (InFlight t) previous
         (set_word r (new OR KPH_ATOMIC_OBJECT_REF_EXCLUSIVE_FLAG) s)))"

text \<open>After the release the previous object goes to the caller, or is dereferenced.\<close>

definition exclusive_release :: "nat \<Rightarrow> bool \<Rightarrow> nat \<Rightarrow> u64 \<Rightarrow> OBJECTS \<Rightarrow> OBJECTS" where
  "exclusive_release t move r previous s =
     (let s = KphpAtomicReleaseObjectLockExclusive r s in
      if move then goto t Idle (hand (InFlight t) (OfThread t) previous s)
      else goto t (if previous \<noteq> 0 then Drop previous False else Idle) s)"

text \<open>One step of a thread; \<open>dispatch\<close> tells whether it runs at DISPATCH_LEVEL or below.\<close>

fun run_thread :: "nat \<Rightarrow> bool \<Rightarrow> OBJECTS \<Rightarrow> pc \<Rightarrow> OBJECTS option" where
  "run_thread t dispatch s Idle = None"
| "run_thread t dispatch s (SharedAcquire r v) = Some (KphpAtomicAcquireObjectLockShared t r v s)"
| "run_thread t dispatch s (SharedRead r) = Some (shared_read t r s)"
| "run_thread t dispatch s (SharedReference r ob) =
     Some (goto t (SharedRelease r ob) (gain (InFlight t) ob (KphReferenceObject ob s)))"
| "run_thread t dispatch s (SharedRelease r ob) =
     Some (goto t Idle (hand (InFlight t) (OfThread t) ob (KphpAtomicReleaseObjectLockShared r s)))"
| "run_thread t dispatch s (StoreStart move r new) =
     Some (goto t (ExclusiveAcquire move r new (Object s r)) s)"
| "run_thread t dispatch s (ExclusiveAcquire move r new v) =
     Some (KphpAtomicAcquireObjectLockExclusive t move r new v s)"
| "run_thread t dispatch s (ExclusiveDrain move r new v) = Some (drain_sharers t move r new v s)"
| "run_thread t dispatch s (ExclusiveWrite move r new previous) =
     Some (exclusive_write t move r new previous s)"
| "run_thread t dispatch s (ExclusiveRelease move r previous) =
     Some (exclusive_release t move r previous s)"
| "run_thread t dispatch s (Drop ob defer) = Some (dereference t ob defer s)"
| "run_thread t dispatch s (Push ob) = Some (KphpObjectDeferDelete t ob s)"
| "run_thread t dispatch s Schedule = Some (schedule_worker t dispatch s)"
| "run_thread t dispatch s Flush = Some (KphpDeferDeleteObjectWorker t s)"
| "run_thread t dispatch s (Deleting ob es) = Some (delete_object t ob es s)"
| "run_thread t dispatch s (Uncounting i es) = Some (uncount_object t i es s)"
| "run_thread t dispatch s (Counting ob) = Some (count_object t ob s)"
| "run_thread t dispatch s (HighWater ob n) = Some (raise_high_water t ob n s)"

text \<open>
  The calls a thread may make. It uses only objects to which it owns a reference; the memory of a
  new object is not in use, and objects are aligned to 16 bytes.
\<close>

datatype call =
    Create u64 u8 bool ntstatus
  | Reference u64
  | Dereference u64 bool
  | AtomicReference nat
  | AtomicAssign nat u64
  | AtomicMove nat u64
  | HandOver nat u64

fun start_call :: "nat \<Rightarrow> call \<Rightarrow> OBJECTS \<Rightarrow> OBJECTS option" where
  "start_call t (Create ob i allocated initialized) s =
     (if ob \<noteq> 0 \<and> ob AND KPH_ATOMIC_OBJECT_REF_LOCK_MASK = 0 \<and> phases s ob = Absent
      then Some (KphCreateObject t ob i allocated initialized s) else None)"
| "start_call t (Reference ob) s =
     (if (OfThread t, ob) \<in># refs s then Some (gain (OfThread t) ob (KphReferenceObject ob s)) else None)"
| "start_call t (Dereference ob defer) s =
     (if (OfThread t, ob) \<in># refs s
      then Some (goto t (Drop ob defer) (hand (OfThread t) (InFlight t) ob s)) else None)"
| "start_call t (AtomicReference r) s = Some (goto t (SharedAcquire r (Object s r)) s)"
| "start_call t (AtomicAssign r ob) s =
     (if ob = 0 then Some (goto t (StoreStart False r 0) s)
      else if (OfThread t, ob) \<in># refs s
      then Some (goto t (StoreStart False r ob) (gain (InFlight t) ob (KphReferenceObject ob s)))
      else None)"
| "start_call t (AtomicMove r ob) s =
     (if ob = 0 \<or> (OfThread t, ob) \<in># refs s
      then Some (goto t (StoreStart True r ob) (hand (OfThread t) (InFlight t) ob s)) else None)"
| "start_call t (HandOver t' ob) s =
     (if (OfThread t, ob) \<in># refs s then Some (hand (OfThread t) (OfThread t') ob s) else None)"

text \<open>What happens: an idle thread makes a call, a thread runs, the DPC fires, the worker starts.\<close>

datatype event = Call nat call | Run nat bool | FireDpc | StartWorker nat

fun object_step :: "event \<Rightarrow> OBJECTS \<Rightarrow> OBJECTS option" where
  "object_step (Call t c) s = (if pcs s t = Idle then start_call t c s else None)"
| "object_step (Run t dispatch) s = run_thread t dispatch s (pcs s t)"
| "object_step FireDpc s =
     (if dpcs s > 0 then Some (s\<lparr> dpcs := dpcs s - 1, work_items := work_items s + 1 \<rparr>) else None)"
| "object_step (StartWorker t) s =
     (if work_items s > 0 \<and> pcs s t = Idle
      then Some (goto t Flush (s\<lparr> work_items := work_items s - 1 \<rparr>)) else None)"

definition init_objects :: "(u8 \<Rightarrow> KPH_OBJECT_TYPE) \<Rightarrow> (u64 \<Rightarrow> KPH_OBJECT_HEADER) \<Rightarrow> OBJECTS" where
  "init_objects types memory =
     \<lparr> Object = (\<lambda>r. 0), header = memory, KphpObjectTypes = types, KphpDeferDeleteObjectList = [],
       dpcs = 0, work_items = 0, pcs = (\<lambda>t. Idle), phases = (\<lambda>ob. Absent), refs = {#} \<rparr>"

text \<open>A reference takes memory to hold, so there are fewer than \<open>2^63\<close>.\<close>

inductive object_reach :: "OBJECTS \<Rightarrow> bool" where
  init: "object_reach (init_objects types memory)"
| step: "object_reach s \<Longrightarrow> object_step e s = Some s' \<Longrightarrow> size (refs s') < 2 ^ 63 \<Longrightarrow> object_reach s'"

fun object_run :: "event list \<Rightarrow> OBJECTS \<Rightarrow> OBJECTS option" where
  "object_run [] s = Some s"
| "object_run (e # es) s = object_step e s \<bind> object_run es"

end
