(* ===== verification/KphObjectSafety.thy ===== *)
theory KphObjectSafety
  imports KphObject
begin

unbundle bit_operations_syntax

text \<open>
  The safety of the objects of the driver: the lock in the word of a slot, who owns the references,
  the objects that are being deleted and the duty to empty the list, as invariants of the reachable
  states; from them, that no object is used after its deletion and no deletion is forgotten.
\<close>

section \<open>The word of a slot\<close>

definition managed :: "u64 \<Rightarrow> u64" where "managed w = w AND KPH_ATOMIC_OBJECT_REF_OBJECT_MASK"

definition sharers :: "u64 \<Rightarrow> nat" where "sharers w = unat (w AND KPH_ATOMIC_OBJECT_REF_SHARED_MAX)"

definition locked :: "u64 \<Rightarrow> bool" where "locked w \<longleftrightarrow> w AND KPH_ATOMIC_OBJECT_REF_EXCLUSIVE_FLAG \<noteq> 0"

lemma word_consts:
  "KPH_ATOMIC_OBJECT_REF_SHARED_MAX = 7" "KPH_ATOMIC_OBJECT_REF_EXCLUSIVE_FLAG = 8"
  by (simp_all add: atomic_defs push_bit_eq_mult)

lemma low_bits: "unat (w AND 0xf :: u64) = unat w mod 16"
proof -
  have "w AND 0xf = take_bit 4 w" by (simp only: take_bit_eq_mask) (simp add: mask_eq_exp_minus_1)
  then show ?thesis by (simp only: unsigned_take_bit_eq) (simp add: take_bit_eq_mod)
qed

lemma high_bits: "unat (w AND 0xfffffffffffffff0 :: u64) = unat w div 16 * 16"
proof -
  have "(0xfffffffffffffff0 :: u64) = NOT (mask 4)" by (simp add: mask_eq_exp_minus_1)
  then have "w AND 0xfffffffffffffff0 = w div 16 * 16" using align_down [of w 4] by simp
  moreover have "unat (w div 16) * unat (16 :: u64) < 2 ^ 64"
    using unat_lt_u64 [of w] le_less_trans [OF div_times_less_eq_dividend [of "unat w" 16]]
    by (simp add: unat_div_distrib)
  ultimately show ?thesis by (simp add: unat_mult_fits unat_div_distrib)
qed

lemma low_word: "w AND 0xf = (of_nat (unat w mod 16) :: u64)"
  by (simp add: word_eq_unat low_bits unsigned_of_nat take_bit_eq_mod)

lemma low_fields:
  "(w :: u64) AND 7 = of_nat (unat w mod 16) AND 7" "w AND 8 = of_nat (unat w mod 16) AND 8"
  unfolding low_word [symmetric] by (simp_all add: and.assoc)

lemma div_steps:
  "(n :: nat) mod 16 < 7 \<Longrightarrow> (n + 1) div 16 = n div 16"
  "(n :: nat) mod 16 < 7 \<Longrightarrow> (n + 1) mod 16 = n mod 16 + 1"
  by (simp_all add: div_Suc mod_Suc)

lemma div_steps_back:
  "(n :: nat) mod 16 \<noteq> 0 \<Longrightarrow> (n - 1) div 16 = n div 16"
  "(n :: nat) mod 16 \<noteq> 0 \<Longrightarrow> (n - 1) mod 16 = n mod 16 - 1"
  by (cases n; simp add: div_Suc mod_Suc split: if_splits)+

lemma div_exact: "(n :: nat) mod 16 = 0 \<Longrightarrow> n div 16 * 16 = n"
  by (metis add.right_neutral div_mult_mod_eq)

lemma unat_managed: "unat (managed w) = unat w div 16 * 16"
  by (simp only: managed_def atomic_defs high_bits)

text \<open>The sixteen values of the low bits, by evaluation.\<close>

lemma low_take:
  assumes "(l :: nat) < 7"
  shows "unat ((of_nat (l + 1) :: u64) AND 7) = unat ((of_nat l :: u64) AND 7) + 1 \<and>
     (of_nat l :: u64) AND 8 = 0 \<and> (of_nat (l + 1) :: u64) AND 8 = 0"
proof -
  have "\<forall>l \<in> set [0 ..< 7]. unat ((of_nat (l + 1) :: u64) AND 7) = unat ((of_nat l :: u64) AND 7) + 1 \<and>
     (of_nat l :: u64) AND 8 = 0 \<and> (of_nat (l + 1) :: u64) AND 8 = 0"
    by code_simp
  then show ?thesis using assms by simp
qed

lemma low_drop:
  assumes "(l :: nat) < 16" "unat ((of_nat l :: u64) AND 7) \<noteq> 0"
  shows "unat ((of_nat (l - 1) :: u64) AND 7) + 1 = unat ((of_nat l :: u64) AND 7) \<and>
     (of_nat (l - 1) :: u64) AND 8 = of_nat l AND 8 \<and> l \<noteq> 0"
proof -
  have "\<forall>l \<in> set [0 ..< 16]. unat ((of_nat l :: u64) AND 7) \<noteq> 0 \<longrightarrow>
     unat ((of_nat (l - 1) :: u64) AND 7) + 1 = unat ((of_nat l :: u64) AND 7) \<and>
     (of_nat (l - 1) :: u64) AND 8 = of_nat l AND 8 \<and> l \<noteq> 0"
    by code_simp
  then show ?thesis using assms by (metis atLeastLessThan_iff atLeastLessThan_upt zero_le)
qed

lemma take_shared:
  assumes "v AND KPH_ATOMIC_OBJECT_REF_LOCK_MASK < KPH_ATOMIC_OBJECT_REF_SHARED_MAX"
  shows "managed (v + 1) = managed v" "sharers (v + 1) = sharers v + 1" "\<not> locked v" "\<not> locked (v + 1)"
proof -
  have low: "unat v mod 16 < 7" using assms by (simp add: atomic_defs word_less_nat_alt low_bits)
  have "unat v mod 16 + 1 < 16" using low by simp
  have "unat v < 2 ^ 64 - 1"
  proof (rule ccontr)
    assume "\<not> ?thesis"
    moreover have "unat v < 2 ^ 64" using unsigned_less [of v] by simp
    ultimately have "unat v = 2 ^ 64 - 1" by linarith
    then show False using low by simp
  qed
  then have u: "unat (v + 1) = unat v + 1" by (simp add: unat_add_fits)
  note low1 = div_steps(2) [OF low]
  show "managed (v + 1) = managed v"
    by (simp only: word_eq_unat unat_managed u div_steps(1) [OF low])
  show "sharers (v + 1) = sharers v + 1" "\<not> locked v" "\<not> locked (v + 1)"
    unfolding sharers_def locked_def word_consts low_fields [of v] low_fields [of "v + 1"] u low1
    using low_take [OF low] by blast+
qed

lemma drop_shared:
  assumes "sharers v \<noteq> 0"
  shows "managed (v - 1) = managed v" "sharers (v - 1) + 1 = sharers v" "locked (v - 1) = locked v"
proof -
  have "unat v mod 16 < 16" by simp
  note low = low_drop [OF this] 
  have nz: "unat ((of_nat (unat v mod 16) :: u64) AND 7) \<noteq> 0"
    using assms by (simp only: sharers_def atomic_defs low_fields [of v]) simp
  have l0: "unat v mod 16 \<noteq> 0" using low [OF nz] by blast
  then have "unat v \<noteq> 0" by (metis mod_0)
  then have u: "unat (v - 1) = unat v - 1" by (metis unat_eq_zero unat_minus_one)
  note low1 = div_steps_back(2) [OF l0]
  show "managed (v - 1) = managed v"
    by (simp only: word_eq_unat unat_managed u div_steps_back(1) [OF l0])
  show "sharers (v - 1) + 1 = sharers v" "locked (v - 1) = locked v"
    unfolding sharers_def locked_def word_consts low_fields [of v] low_fields [of "v - 1"] u low1
    using low [OF nz] by argo+
qed

lemma set_exclusive:
  "managed (v OR KPH_ATOMIC_OBJECT_REF_EXCLUSIVE_FLAG) = managed v"
  "sharers (v OR KPH_ATOMIC_OBJECT_REF_EXCLUSIVE_FLAG) = sharers v"
  "locked (v OR KPH_ATOMIC_OBJECT_REF_EXCLUSIVE_FLAG)"
  by (simp_all add: managed_def sharers_def locked_def atomic_defs word_ao_dist)

lemma clear_exclusive:
  "managed (v AND NOT (push_bit KPH_ATOMIC_OBJECT_REF_EXCLUSIVE_BIT 1)) = managed v"
  "sharers (v AND NOT (push_bit KPH_ATOMIC_OBJECT_REF_EXCLUSIVE_BIT 1)) = sharers v"
  "\<not> locked (v AND NOT (push_bit KPH_ATOMIC_OBJECT_REF_EXCLUSIVE_BIT 1))"
  by (simp_all add: managed_def sharers_def locked_def atomic_defs and.assoc)

lemma aligned_word:
  assumes "ob AND KPH_ATOMIC_OBJECT_REF_LOCK_MASK = 0"
  shows "managed ob = ob" "sharers ob = 0" "\<not> locked ob"
proof -
  have z: "ob AND 0xf = 0" using assms by (simp add: atomic_defs)
  then have "unat ob mod 16 = 0" using low_bits [of ob] by simp
  then show "managed ob = ob" by (simp only: word_eq_unat unat_managed div_exact)
  show "sharers ob = 0" "\<not> locked ob"
    using low_fields [of ob] low_bits [of ob] by (simp_all add: z sharers_def locked_def atomic_defs)
qed

lemma managed_managed [simp]: "managed (managed w) = managed w"
  by (simp add: managed_def and.assoc)

lemma sharers_managed [simp]: "sharers (managed w) = 0"
  by (simp add: managed_def sharers_def atomic_defs and.assoc)


section \<open>What a thread holds\<close>

fun sharer :: "pc \<Rightarrow> nat option" where
  "sharer (SharedRead r) = Some r"
| "sharer (SharedReference r ob) = Some r"
| "sharer (SharedRelease r ob) = Some r"
| "sharer _ = None"

fun writer :: "pc \<Rightarrow> nat option" where
  "writer (ExclusiveDrain m r new v) = Some r"
| "writer (ExclusiveWrite m r new previous) = Some r"
| "writer (ExclusiveRelease m r previous) = Some r"
| "writer _ = None"

text \<open>The slot that no sharer is left in.\<close>

fun alone :: "pc \<Rightarrow> nat option" where
  "alone (ExclusiveDrain m r new v) = (if sharers v = 0 then Some r else None)"
| "alone (ExclusiveWrite m r new previous) = Some r"
| "alone (ExclusiveRelease m r previous) = Some r"
| "alone _ = None"

text \<open>The reference in flight, or 0; the objects whose deletion the thread owes; the duty to see to the list.\<close>

fun in_flight :: "pc \<Rightarrow> u64" where
  "in_flight (SharedRelease r ob) = ob"
| "in_flight (StoreStart m r new) = new"
| "in_flight (ExclusiveAcquire m r new v) = new"
| "in_flight (ExclusiveDrain m r new v) = new"
| "in_flight (ExclusiveWrite m r new previous) = new"
| "in_flight (ExclusiveRelease m r previous) = previous"
| "in_flight (Drop ob defer) = ob"
| "in_flight (Counting ob) = ob"
| "in_flight (HighWater ob n) = ob"
| "in_flight _ = 0"

fun dying :: "pc \<Rightarrow> u64 list" where
  "dying (Push ob) = [ob]"
| "dying (Deleting ob es) = ob # es"
| "dying (Uncounting i es) = es"
| "dying _ = []"

fun on_duty :: "pc \<Rightarrow> bool" where
  "on_duty Schedule = True"
| "on_duty Flush = True"
| "on_duty _ = False"

definition busy :: "OBJECTS \<Rightarrow> nat set" where "busy s = {t. pcs s t \<noteq> Idle}"

definition number :: "(pc \<Rightarrow> bool) \<Rightarrow> OBJECTS \<Rightarrow> nat" where
  "number P s = card {t. P (pcs s t)}"

definition references :: "(owner \<times> u64) multiset \<Rightarrow> u64 \<Rightarrow> nat" where
  "references M ob = size (filter_mset (\<lambda>x. snd x = ob) M)"

section \<open>Fields and updates\<close>

lemma goto_simps [simp]:
  "Object (goto t c s) = Object s" "header (goto t c s) = header s"
  "KphpObjectTypes (goto t c s) = KphpObjectTypes s"
  "KphpDeferDeleteObjectList (goto t c s) = KphpDeferDeleteObjectList s"
  "dpcs (goto t c s) = dpcs s" "work_items (goto t c s) = work_items s"
  "pcs (goto t c s) = (pcs s)(t := c)" "phases (goto t c s) = phases s" "refs (goto t c s) = refs s"
  by (simp_all add: goto_def)

lemma set_simps [simp]:
  "Object (set_word r w s) = (Object s)(r := w)" "header (set_word r w s) = header s"
  "KphpDeferDeleteObjectList (set_word r w s) = KphpDeferDeleteObjectList s"
  "dpcs (set_word r w s) = dpcs s" "work_items (set_word r w s) = work_items s"
  "pcs (set_word r w s) = pcs s" "phases (set_word r w s) = phases s" "refs (set_word r w s) = refs s"
  "Object (set_count ob n s) = Object s"
  "header (set_count ob n s) = (header s)(ob := (header s ob)\<lparr> PointerCount := n \<rparr>)"
  "KphpDeferDeleteObjectList (set_count ob n s) = KphpDeferDeleteObjectList s"
  "dpcs (set_count ob n s) = dpcs s" "work_items (set_count ob n s) = work_items s"
  "pcs (set_count ob n s) = pcs s" "phases (set_count ob n s) = phases s"
  "refs (set_count ob n s) = refs s"
  "Object (set_phase ob p s) = Object s" "header (set_phase ob p s) = header s"
  "KphpDeferDeleteObjectList (set_phase ob p s) = KphpDeferDeleteObjectList s"
  "dpcs (set_phase ob p s) = dpcs s" "work_items (set_phase ob p s) = work_items s"
  "pcs (set_phase ob p s) = pcs s" "phases (set_phase ob p s) = (phases s)(ob := p)"
  "refs (set_phase ob p s) = refs s"
  "Object (set_total i n s) = Object s" "header (set_total i n s) = header s"
  "KphpDeferDeleteObjectList (set_total i n s) = KphpDeferDeleteObjectList s"
  "dpcs (set_total i n s) = dpcs s" "work_items (set_total i n s) = work_items s"
  "pcs (set_total i n s) = pcs s" "phases (set_total i n s) = phases s" "refs (set_total i n s) = refs s"
  by (simp_all add: set_word_def set_count_def set_phase_def set_total_def)

lemma owner_simps [simp]:
  "Object (gain w ob s) = Object s" "header (gain w ob s) = header s"
  "KphpDeferDeleteObjectList (gain w ob s) = KphpDeferDeleteObjectList s"
  "dpcs (gain w ob s) = dpcs s" "work_items (gain w ob s) = work_items s"
  "pcs (gain w ob s) = pcs s" "phases (gain w ob s) = phases s"
  "refs (gain w ob s) = (if ob = 0 then refs s else add_mset (w, ob) (refs s))"
  "Object (lose w ob s) = Object s" "header (lose w ob s) = header s"
  "KphpDeferDeleteObjectList (lose w ob s) = KphpDeferDeleteObjectList s"
  "dpcs (lose w ob s) = dpcs s" "work_items (lose w ob s) = work_items s"
  "pcs (lose w ob s) = pcs s" "phases (lose w ob s) = phases s"
  "refs (lose w ob s) = (if ob = 0 then refs s else refs s - {# (w, ob) #})"
  "Object (hand w w' ob s) = Object s" "header (hand w w' ob s) = header s"
  "KphpDeferDeleteObjectList (hand w w' ob s) = KphpDeferDeleteObjectList s"
  "dpcs (hand w w' ob s) = dpcs s" "work_items (hand w w' ob s) = work_items s"
  "pcs (hand w w' ob s) = pcs s" "phases (hand w w' ob s) = phases s"
  "refs (hand w w' ob s) = (if ob = 0 then refs s else add_mset (w', ob) (refs s - {# (w, ob) #}))"
  by (simp_all add: gain_def lose_def hand_def)

lemmas step_defs = KphReferenceObject_def dereference_def KphpObjectDeferDelete_def schedule_worker_def
  KphpDeferDeleteObjectWorker_def delete_object_def uncount_object_def KphCreateObject_def
  count_object_def raise_high_water_def KphpAtomicAcquireObjectLockShared_def
  KphpAtomicReleaseObjectLockShared_def KphpAtomicAcquireObjectLockExclusive_def
  KphpAtomicReleaseObjectLockExclusive_def drain_sharers_def shared_read_def exclusive_write_def
  exclusive_release_def Let_def

lemma next_entry_simps [simp]:
  "dying (next_entry es) = es" "in_flight (next_entry es) = 0" "sharer (next_entry es) = None"
  "writer (next_entry es) = None" "alone (next_entry es) = None" "\<not> on_duty (next_entry es)"
  by (cases es; simp add: next_entry_def)+

lemma number_goto:
  assumes "finite (busy s)" "\<not> P Idle" "pcs s' = (pcs s)(t := c)"
  shows "number P s' + of_bool (P (pcs s t)) = number P s + of_bool (P c)"
proof -
  have fin: "finite {u. P (pcs s u)}"
    by (rule finite_subset [OF _ assms(1)]) (use assms(2) in \<open>auto simp: busy_def\<close>)
  have new: "{u. P (pcs s' u)} = (if P c then insert t {u. P (pcs s u)} else {u. P (pcs s u)} - {t})"
    by (auto simp: assms(3))
  show ?thesis
    using fin card_Suc_Diff1 [OF fin, of t]
    by (auto simp: number_def new card_insert_if)
qed

lemma finite_busy: "finite (busy s) \<Longrightarrow> pcs s' = (pcs s)(t := c) \<Longrightarrow> finite (busy s')"
  by (rule finite_subset [of _ "insert t (busy s)"]) (auto simp: busy_def)

lemma number_pos: "finite (busy s) \<Longrightarrow> \<not> P Idle \<Longrightarrow> P (pcs s t) \<Longrightarrow> number P s \<noteq> 0"
proof -
  assume "finite (busy s)" "\<not> P Idle" "P (pcs s t)"
  then have "finite {u. P (pcs s u)}" "t \<in> {u. P (pcs s u)}"
    by (auto simp: busy_def intro: finite_subset [of _ "{t. pcs s t \<noteq> Idle}"])
  then show ?thesis by (auto simp: number_def card_eq_0_iff)
qed

lemma number_cong: "pcs s' = pcs s \<Longrightarrow> number P s' = number P s"
  by (simp add: number_def)

section \<open>The lock\<close>

definition lock_inv :: "OBJECTS \<Rightarrow> bool" where
  "lock_inv s \<longleftrightarrow> finite (busy s) \<and>
     (\<forall>r. number (\<lambda>c. sharer c = Some r) s = sharers (Object s r) \<and>
          number (\<lambda>c. writer c = Some r) s = of_bool (locked (Object s r)) \<and>
          (\<forall>t. alone (pcs s t) = Some r \<longrightarrow> sharers (Object s r) = 0))"

lemma lock_keep:
  assumes "lock_inv s" "Object s' = Object s" "pcs s' = (pcs s)(t := c)"
    "sharer c = sharer (pcs s t)" "writer c = writer (pcs s t)"
    "\<And>r. alone c = Some r \<Longrightarrow> alone (pcs s t) = Some r \<or> sharers (Object s r) = 0"
  shows "lock_inv s'"
proof -
  have n: "number (\<lambda>c. sharer c = Some r) s' = number (\<lambda>c. sharer c = Some r) s"
    "number (\<lambda>c. writer c = Some r) s' = number (\<lambda>c. writer c = Some r) s" for r
    using number_goto [of s "\<lambda>c. sharer c = Some r" s' t c] number_goto [of s "\<lambda>c. writer c = Some r" s' t c]
      assms by (simp_all add: lock_inv_def)
  have "sharers (Object s r) = 0" if "alone (pcs s' u) = Some r" for u r
    using assms(1,3) assms(6) [of r] that by (cases "u = t") (auto simp: lock_inv_def)
  then show ?thesis
    using assms(1,2) finite_busy [OF _ assms(3)] by (simp add: lock_inv_def n)
qed

lemma lock_word:
  assumes inv: "lock_inv s" and w: "Object s' = (Object s)(r := w)" and p: "pcs s' = (pcs s)(t := c)"
    and sh: "sharers w + of_bool (sharer (pcs s t) = Some r) = sharers (Object s r) + of_bool (sharer c = Some r)"
    and wr: "of_bool (locked w) + of_bool (writer (pcs s t) = Some r) =
             (of_bool (locked (Object s r)) + of_bool (writer c = Some r) :: nat)"
    and other: "\<And>q. q \<noteq> r \<Longrightarrow> sharer (pcs s t) \<noteq> Some q \<and> sharer c \<noteq> Some q \<and>
      writer (pcs s t) \<noteq> Some q \<and> writer c \<noteq> Some q \<and> alone c \<noteq> Some q"
    and al: "\<And>u. u \<noteq> t \<Longrightarrow> alone (pcs s u) = Some r \<Longrightarrow> sharers w = 0" "alone c = Some r \<Longrightarrow> sharers w = 0"
  shows "lock_inv s'"
proof -
  have fin: "finite (busy s)" using inv by (simp add: lock_inv_def)
  have n: "number (\<lambda>c. sharer c = Some q) s' + of_bool (sharer (pcs s t) = Some q) =
      sharers (Object s q) + of_bool (sharer c = Some q)"
    "number (\<lambda>c. writer c = Some q) s' + of_bool (writer (pcs s t) = Some q) =
      of_bool (locked (Object s q)) + of_bool (writer c = Some q)" for q
    using number_goto [of s "\<lambda>c. sharer c = Some q" s' t c] number_goto [of s "\<lambda>c. writer c = Some q" s' t c]
      inv p by (simp_all add: lock_inv_def)
  have "number (\<lambda>c. sharer c = Some q) s' = sharers (Object s' q) \<and>
      number (\<lambda>c. writer c = Some q) s' = of_bool (locked (Object s' q))" for q
  proof (cases "q = r")
    case True
    then show ?thesis using n [of r] sh wr by (simp add: w)
  next
    case False
    then show ?thesis using n [of q] other [OF False] by (simp add: w)
  qed
  moreover have "sharers (Object s' q) = 0" if "alone (pcs s' u) = Some q" for u q
  proof (cases "q = r")
    case True
    then show ?thesis using al that by (cases "u = t") (auto simp: w p)
  next
    case False
    then show ?thesis using other [OF False] that inv by (cases "u = t") (auto simp: w p lock_inv_def)
  qed
  ultimately show ?thesis using finite_busy [OF fin p] by (simp add: lock_inv_def)
qed

lemma start_pc:
  assumes "pcs s t = Idle" "start_call t k s = Some s'"
  shows "Object s' = Object s \<and> KphpDeferDeleteObjectList s' = KphpDeferDeleteObjectList s \<and>
    dpcs s' = dpcs s \<and> work_items s' = work_items s \<and> pcs s' = (pcs s)(t := pcs s' t) \<and>
    sharer (pcs s' t) = None \<and> writer (pcs s' t) = None \<and> alone (pcs s' t) = None \<and>
    dying (pcs s' t) = [] \<and> \<not> on_duty (pcs s' t)"
  using assms by (cases k) (auto simp: step_defs fun_eq_iff split: if_splits)

lemma lock_start:
  assumes "lock_inv s" "pcs s t = Idle" "start_call t k s = Some s'"
  shows "lock_inv s'"
  using start_pc [OF assms(2,3)] assms(2)
  by (intro lock_keep [OF assms(1), of s' t "pcs s' t"]) simp_all

lemma lock_run:
  assumes inv: "lock_inv s" and run: "run_thread t d s (pcs s t) = Some s'"
    and al0: "in_flight (pcs s t) AND KPH_ATOMIC_OBJECT_REF_LOCK_MASK = 0"
  shows "lock_inv s'"
proof -
  have num: "number (\<lambda>c. sharer c = Some r) s = sharers (Object s r)"
    "number (\<lambda>c. writer c = Some r) s = of_bool (locked (Object s r))" for r
    using inv by (simp_all add: lock_inv_def)
  have al: "sharers (Object s r) = 0" if "alone (pcs s u) = Some r" for u r
    using inv that by (auto simp: lock_inv_def)
  have sh: "sharers (Object s r) \<noteq> 0" if "sharer (pcs s t) = Some r" for r
    using number_pos [of s "\<lambda>c. sharer c = Some r" t] inv that by (simp add: lock_inv_def)
  have wr: "locked (Object s r)" if "writer (pcs s u) = Some r" for r u
    using number_pos [of s "\<lambda>c. writer c = Some r" u] inv that by (simp add: lock_inv_def)
  have not_alone: "alone (pcs s u) \<noteq> Some r" if "\<not> locked (Object s r)" for u r
    using wr [of u r] that by (cases "pcs s u") (auto split: if_splits)
  show ?thesis
  proof (cases "pcs s t")
    case (SharedAcquire r v)
    show ?thesis
    proof (cases "v AND KPH_ATOMIC_OBJECT_REF_LOCK_MASK < KPH_ATOMIC_OBJECT_REF_SHARED_MAX \<and> Object s r = v")
      case True
      then have s': "s' = goto t (SharedRead r) (set_word r (v + 1) s)"
        using run SharedAcquire by (auto simp: step_defs not_le)
      note w = take_shared [of v, OF conjunct1 [OF True]]
      show ?thesis
        by (rule lock_word [OF inv, of s' r "v + 1" t "SharedRead r"])
           (use True w not_alone [of r] SharedAcquire in \<open>auto simp: s'\<close>)
    next
      case False
      then have s': "s' = goto t (SharedAcquire r (Object s r)) s"
        using run SharedAcquire by (auto simp: step_defs split: if_splits)
      show ?thesis
        by (rule lock_keep [OF inv, of s' t "SharedAcquire r (Object s r)"]) (simp_all add: s' SharedAcquire)
    qed
  next
    case (SharedRelease r ob)
    note w = drop_shared [OF sh, of r]
    show ?thesis
      by (rule lock_word [OF inv, of s' r "Object s r - 1" t Idle])
         (use run w al [of _ r] sh [of r] SharedRelease in \<open>auto simp: step_defs\<close>)
  next
    case (ExclusiveAcquire m r new v)
    show ?thesis
    proof (cases "\<not> locked v \<and> Object s r = v")
      case True
      then have s': "s' = goto t (ExclusiveDrain m r new v) (set_word r (v OR KPH_ATOMIC_OBJECT_REF_EXCLUSIVE_FLAG) s)"
        using run ExclusiveAcquire by (auto simp: step_defs locked_def)
      show ?thesis
        by (rule lock_word [OF inv, of s' r "v OR KPH_ATOMIC_OBJECT_REF_EXCLUSIVE_FLAG" t "ExclusiveDrain m r new v"])
           (use True set_exclusive [of v] not_alone [of r] ExclusiveAcquire in \<open>auto simp: s' split: if_splits\<close>)
    next
      case False
      then have s': "s' = goto t (ExclusiveAcquire m r new (Object s r)) s"
        using run ExclusiveAcquire by (auto simp: step_defs locked_def split: if_splits)
      show ?thesis
        by (rule lock_keep [OF inv, of s' t "ExclusiveAcquire m r new (Object s r)"])
           (simp_all add: s' ExclusiveAcquire)
    qed
  next
    case (ExclusiveDrain m r new v)
    show ?thesis
      by (rule lock_keep [OF inv, of s' t "pcs s' t"])
         (use run ExclusiveDrain in \<open>auto simp: step_defs sharers_def split: if_splits\<close>)
  next
    case (ExclusiveWrite m r new previous)
    have "sharers (new OR KPH_ATOMIC_OBJECT_REF_EXCLUSIVE_FLAG) = 0"
      using al0 aligned_word(2) [of new] ExclusiveWrite by (simp add: set_exclusive)
    then show ?thesis
      by (intro lock_word [OF inv, of s' r "new OR KPH_ATOMIC_OBJECT_REF_EXCLUSIVE_FLAG" t "ExclusiveRelease m r previous"])
         (use run al [of t r] wr [of t r] set_exclusive(3) [of new] ExclusiveWrite in \<open>auto simp: step_defs\<close>)
  next
    case (ExclusiveRelease m r previous)
    note w = clear_exclusive [of "Object s r"]
    show ?thesis
      by (rule lock_word [OF inv, of s' r "Object s r AND NOT (push_bit KPH_ATOMIC_OBJECT_REF_EXCLUSIVE_BIT 1)" t "pcs s' t"])
         (use run w al [of _ r] wr [of t r] ExclusiveRelease in \<open>auto simp: step_defs split: if_splits\<close>)
  next
    case Idle
    then show ?thesis using run by simp
  qed (rule lock_keep [OF inv, of s' t "pcs s' t"];
       use run in \<open>auto simp: step_defs split: if_splits\<close>)+
qed


section \<open>References and counts\<close>

lemma references_simps [simp]:
  "references {#} ob = 0"
  "references (add_mset x M) ob = references M ob + of_bool (snd x = ob)"
  by (simp_all add: references_def)

lemma references_remove:
  assumes "x \<in># M"
  shows "references (M - {#x#}) ob + of_bool (snd x = ob) = references M ob"
  using references_simps(2) [of x "M - {#x#}" ob] insert_DiffM [OF assms] by simp

lemma references_pos: "(w, ob) \<in># M \<Longrightarrow> references M ob \<noteq> 0"
  using references_remove [of "(w, ob)" M ob] by auto

lemma size_exchange: "x \<in># M \<Longrightarrow> size (add_mset y (M - {#x#})) = size M"
  using insert_DiffM [of x M] size_add_mset [of x "M - {#x#}"] by simp

lemma references_le: "references M ob \<le> size M"
  by (simp add: references_def size_filter_mset_lesseq)

lemma references_zero: "references M ob = 0 \<Longrightarrow> (w, ob) \<notin># M"
  using references_pos [of w ob M] by blast

text \<open>What a thread has read from the word of a slot and still relies on.\<close>

fun reads :: "pc \<Rightarrow> (nat \<times> u64) option" where
  "reads (SharedReference r ob) = Some (r, ob)"
| "reads (ExclusiveWrite m r new previous) = Some (r, previous)"
| "reads _ = None"

text \<open>The object that the next step counts on being live.\<close>

fun needs :: "pc \<Rightarrow> u64 option" where
  "needs (SharedReference r ob) = Some ob"
| "needs (Drop ob defer) = Some ob"
| "needs (Counting ob) = Some ob"
| "needs (HighWater ob n) = Some ob"
| "needs _ = None"

lemma next_entry_reads [simp]: "reads (next_entry es) = None" "needs (next_entry es) = None"
  by (cases es; simp add: next_entry_def)+

definition ref_inv :: "OBJECTS \<Rightarrow> bool" where
  "ref_inv s \<longleftrightarrow>
     (\<forall>t ob. count (refs s) (InFlight t, ob) = of_bool (ob \<noteq> 0 \<and> in_flight (pcs s t) = ob)) \<and>
     (\<forall>r ob. count (refs s) (OfSlot r, ob) = of_bool (ob \<noteq> 0 \<and> managed (Object s r) = ob)) \<and>
     (\<forall>ob. references (refs s) ob = (if phases s ob = Live then unat (PointerCount (header s ob)) else 0)) \<and>
     (\<forall>ob. phases s ob = Live \<longrightarrow> PointerCount (header s ob) \<noteq> 0) \<and>
     (\<forall>w ob. (w, ob) \<in># refs s \<longrightarrow> ob \<noteq> 0 \<and> ob AND KPH_ATOMIC_OBJECT_REF_LOCK_MASK = 0) \<and>
     (\<forall>t r ob. reads (pcs s t) = Some (r, ob) \<longrightarrow> managed (Object s r) = ob) \<and>
     (\<forall>t. needs (pcs s t) \<noteq> Some 0) \<and>
     size (refs s) < 2 ^ 63"

lemma ref_live:
  assumes "ref_inv s" "(w, ob) \<in># refs s"
  shows "phases s ob = Live" "ob \<noteq> 0" "ob AND KPH_ATOMIC_OBJECT_REF_LOCK_MASK = 0"
proof -
  have "references (refs s) ob = (if phases s ob = Live then unat (PointerCount (header s ob)) else 0)"
    using assms(1) by (simp add: ref_inv_def)
  then show "phases s ob = Live" using references_pos [OF assms(2)] by (auto split: if_splits)
  show "ob \<noteq> 0" "ob AND KPH_ATOMIC_OBJECT_REF_LOCK_MASK = 0"
    using assms unfolding ref_inv_def by blast+
qed

lemma ref_in_flight:
  assumes "ref_inv s" "in_flight (pcs s t) = ob" "ob \<noteq> 0"
  shows "(InFlight t, ob) \<in># refs s"
proof -
  have "count (refs s) (InFlight t, ob) = 1" using assms by (simp add: ref_inv_def)
  then show ?thesis by (metis count_eq_zero_iff zero_neq_one)
qed

lemma ref_in_slot:
  assumes "ref_inv s" "managed (Object s r) = ob" "ob \<noteq> 0"
  shows "(OfSlot r, ob) \<in># refs s"
proof -
  have "count (refs s) (OfSlot r, ob) = 1" using assms by (simp add: ref_inv_def)
  then show ?thesis by (metis count_eq_zero_iff zero_neq_one)
qed

lemma ref_move:
  assumes inv: "ref_inv s" and frame: "header s' = header s" "phases s' = phases s"
    "\<And>r. managed (Object s' r) = managed (Object s r)"
    and p: "pcs s' = (pcs s)(t := c)" "reads c = None" "needs c \<noteq> Some 0"
    and r: "refs s' = (if ob = 0 then refs s else add_mset (w', ob) (refs s - {#(w, ob)#}))"
      "ob \<noteq> 0 \<Longrightarrow> (w, ob) \<in># refs s"
    and w: "w = OfThread u \<or> w = InFlight t" "w' = OfThread u' \<or> w' = InFlight t"
    and fl: "in_flight c = (if w' = InFlight t then ob else 0)"
      "in_flight (pcs s t) = (if w = InFlight t then ob else 0)"
  shows "ref_inv s'"
proof -
  have size: "size (refs s') = size (refs s)"
    using r size_exchange [of "(w, ob)" "refs s"] by simp
  have refs: "references (refs s') x = references (refs s) x" for x
    using r references_remove [of "(w, ob)" "refs s" x] by auto
  have cnt: "count (refs s') y = count (refs s) y - of_bool (ob \<noteq> 0 \<and> y = (w, ob)) + of_bool (ob \<noteq> 0 \<and> y = (w', ob))" for y
    using r(1) by auto
  have old: "count (refs s) (InFlight v, x) = of_bool (x \<noteq> 0 \<and> in_flight (pcs s v) = x)"
    "count (refs s) (OfSlot q, x) = of_bool (x \<noteq> 0 \<and> managed (Object s q) = x)" for v q x
    using inv by (simp_all add: ref_inv_def)
  have flight: "count (refs s') (InFlight v, x) = of_bool (x \<noteq> 0 \<and> in_flight (pcs s' v) = x)" for v x
    using w fl by (auto simp: cnt old p)
  have slot: "count (refs s') (OfSlot q, x) = of_bool (x \<noteq> 0 \<and> managed (Object s' q) = x)" for q x
    using w by (auto simp: cnt old frame)
  have mem: "x \<noteq> 0 \<and> x AND KPH_ATOMIC_OBJECT_REF_LOCK_MASK = 0" if "(v, x) \<in># refs s'" for v x
  proof -
    have "\<exists>v. (v, x) \<in># refs s" using that r by (auto split: if_splits dest: in_diffD)
    then show ?thesis using ref_live(2,3) [OF inv] by blast
  qed
  have rd: "managed (Object s' q) = x" if "reads (pcs s' v) = Some (q, x)" for v q x
    using that p inv frame(3) by (auto simp: ref_inv_def split: if_splits)
  have sr: "needs (pcs s' v) \<noteq> Some 0" for v
    using p inv by (auto simp: ref_inv_def)
  show ?thesis
    unfolding ref_inv_def
    using inv flight slot mem rd sr refs size frame by (simp add: ref_inv_def)
qed

lemma ref_keep:
  assumes inv: "ref_inv s" and frame: "refs s' = refs s"
    "\<And>ob. PointerCount (header s' ob) = PointerCount (header s ob)"
    "\<And>ob. (phases s' ob = Live) = (phases s ob = Live)"
    "\<And>r. managed (Object s' r) = managed (Object s r)"
    and p: "pcs s' = (pcs s)(t := c)" "in_flight c = in_flight (pcs s t)"
    "\<And>r ob. reads c = Some (r, ob) \<Longrightarrow> managed (Object s r) = ob" "needs c \<noteq> Some 0"
  shows "ref_inv s'"
proof -
  have flight: "count (refs s') (InFlight v, x) = of_bool (x \<noteq> 0 \<and> in_flight (pcs s' v) = x)" for v x
    using inv p(2) by (simp add: ref_inv_def frame p(1))
  have rd: "managed (Object s' q) = x" if "reads (pcs s' v) = Some (q, x)" for v q x
    using that p(1,3) inv frame(4) by (auto simp: ref_inv_def split: if_splits)
  have sr: "needs (pcs s' v) \<noteq> Some 0" for v
    using p(1,4) inv by (auto simp: ref_inv_def frame)
  show ?thesis
    unfolding ref_inv_def using inv flight rd sr frame by (simp add: ref_inv_def)
qed

lemma ref_gain:
  assumes inv: "ref_inv s"
    and frame: "header s' = (header s)(ob := (header s ob)\<lparr> PointerCount := PointerCount (header s ob) + 1 \<rparr>)"
      "phases s' = phases s" "\<And>r. managed (Object s' r) = managed (Object s r)"
    and p: "pcs s' = (pcs s)(t := c)" "reads c = None" "needs c \<noteq> Some 0"
    and r: "refs s' = add_mset (w, ob) (refs s)" "(v, ob) \<in># refs s"
    and w: "w = OfThread u \<or> w = InFlight t"
    and fl: "in_flight c = (if w = InFlight t then ob else 0)" "in_flight (pcs s t) = 0"
    and size: "size (refs s') < 2 ^ 63"
  shows "ref_inv s'"
proof -
  have ob: "phases s ob = Live" "ob \<noteq> 0" "ob AND KPH_ATOMIC_OBJECT_REF_LOCK_MASK = 0"
    using ref_live [OF inv r(2)] by simp_all
  have flight: "count (refs s') (InFlight v, x) = of_bool (x \<noteq> 0 \<and> in_flight (pcs s' v) = x)" for v x
    using inv w fl ob by (auto simp: ref_inv_def r p)
  have slot: "count (refs s') (OfSlot q, x) = of_bool (x \<noteq> 0 \<and> managed (Object s' q) = x)" for q x
    using inv w by (auto simp: ref_inv_def r frame)
  have mem: "x \<noteq> 0 \<and> x AND KPH_ATOMIC_OBJECT_REF_LOCK_MASK = 0" if "(v, x) \<in># refs s'" for v x
    using that ob ref_live(2,3) [OF inv] by (auto simp: r)
  have rd: "managed (Object s' q) = x" if "reads (pcs s' v) = Some (q, x)" for v q x
    using that p inv frame(3) by (auto simp: ref_inv_def split: if_splits)
  have sr: "needs (pcs s' v) \<noteq> Some 0" for v
    using p inv by (auto simp: ref_inv_def frame)
  have n: "unat (PointerCount (header s ob)) + 1 < 2 ^ 63"
    using inv ob size references_le [of "refs s'" ob] by (auto simp: ref_inv_def r)
  then have n1: "unat (PointerCount (header s ob) + 1) = unat (PointerCount (header s ob)) + 1"
    by (intro trans [OF unat_add_fits]) simp_all
  then have nz: "PointerCount (header s ob) + 1 \<noteq> 0" by auto
  show ?thesis
    unfolding ref_inv_def
    using inv flight slot mem rd sr size n1 nz ob(1) by (auto simp: ref_inv_def r frame)
qed

lemma sint_small: "unat (w :: u64) < 2 ^ 63 \<Longrightarrow> sint w = int (unat w)"
proof -
  assume "unat w < 2 ^ 63"
  then have "int (unat w) < int (2 ^ 63)" by (simp only: of_nat_less_iff)
  then have "0 \<le> uint w" "uint w < 2 ^ 63" by simp_all
  then have "signed_take_bit 63 (uint w) = uint w" by (intro signed_take_bit_int_eq_self) linarith+
  then show ?thesis by (simp add: sint_uint)
qed

lemma ref_drop:
  assumes inv: "ref_inv s" and fl: "in_flight (pcs s t) = ob" "ob \<noteq> 0" "in_flight c = 0" "reads c = None" "needs c \<noteq> Some 0"
    and frame: "header s' = (header s)(ob := (header s ob)\<lparr> PointerCount := PointerCount (header s ob) - 1 \<rparr>)"
      "phases s' = (if sint (PointerCount (header s ob) - 1) > 0 then phases s else (phases s)(ob := Dying))"
      "Object s' = Object s" "pcs s' = (pcs s)(t := c)" "refs s' = refs s - {#(InFlight t, ob)#}"
  shows "ref_inv s'" and "sint (PointerCount (header s ob) - 1) \<ge> 0"
proof -
  note r = ref_in_flight [OF inv fl(1,2)]
  note ob = ref_live [OF inv r]
  let ?n = "PointerCount (header s ob)"
  have n: "unat ?n = references (refs s) ob" "unat ?n < 2 ^ 63" "?n \<noteq> 0"
    using inv ob references_le [of "refs s" ob] by (auto simp: ref_inv_def)
  have n1: "unat (?n - 1) = unat ?n - 1" using n(3) by (metis unat_eq_zero unat_minus_one)
  have s1: "sint (?n - 1) = int (unat ?n - 1)"
    using sint_small [of "?n - 1"] n(2) by (simp add: n1)
  then show "sint (?n - 1) \<ge> 0" by simp
  have refs: "references (refs s') x + of_bool (x = ob) = references (refs s) x" for x
    using references_remove [OF r, of x] by (auto simp: frame)
  have flight: "count (refs s') (InFlight v, x) = of_bool (x \<noteq> 0 \<and> in_flight (pcs s' v) = x)" for v x
    using inv fl by (auto simp: ref_inv_def frame)
  have slot: "count (refs s') (OfSlot q, x) = of_bool (x \<noteq> 0 \<and> managed (Object s' q) = x)" for q x
    using inv by (auto simp: ref_inv_def frame)
  have mem: "x \<noteq> 0 \<and> x AND KPH_ATOMIC_OBJECT_REF_LOCK_MASK = 0" if "(v, x) \<in># refs s'" for v x
    using that ref_live(2,3) [OF inv] by (auto simp: frame dest: in_diffD)
  have rd: "managed (Object s' q) = x" if "reads (pcs s' v) = Some (q, x)" for v q x
    using that fl inv by (auto simp: ref_inv_def frame split: if_splits)
  have sr: "needs (pcs s' v) \<noteq> Some 0" for v
    using fl inv by (auto simp: ref_inv_def frame)
  have cnt: "references (refs s') x = (if phases s' x = Live then unat (PointerCount (header s' x)) else 0)"
    "phases s' x = Live \<longrightarrow> PointerCount (header s' x) \<noteq> 0" for x
  proof -
    have old: "references (refs s) x = (if phases s x = Live then unat (PointerCount (header s x)) else 0)"
      "phases s x = Live \<longrightarrow> PointerCount (header s x) \<noteq> 0"
      using inv by (simp_all add: ref_inv_def)
    show "references (refs s') x = (if phases s' x = Live then unat (PointerCount (header s' x)) else 0)"
    proof (cases "x = ob")
      case True
      then show ?thesis using refs [of ob] n(1) n1 ob(1) s1 by (auto simp: frame)
    next
      case False
      then show ?thesis using refs [of x] old(1) by (simp add: frame)
    qed
    show "phases s' x = Live \<longrightarrow> PointerCount (header s' x) \<noteq> 0"
    proof (cases "x = ob")
      case True
      show ?thesis
      proof (cases "sint (?n - 1) > 0")
        case True
        then have "unat (?n - 1) \<noteq> 0" using s1 n1 by simp
        then have "?n - 1 \<noteq> 0" by (metis unsigned_0)
        then show ?thesis using True \<open>x = ob\<close> by (simp add: frame)
      next
        case False
        then show ?thesis using \<open>x = ob\<close> by (simp add: frame)
      qed
    next
      case False
      then show ?thesis using old(2) by (simp add: frame)
    qed
  qed
  have size: "size (refs s') < 2 ^ 63"
    using inv size_Diff1_le [of "refs s"] by (auto simp: ref_inv_def frame intro: le_less_trans)
  show "ref_inv s'"
    unfolding ref_inv_def using flight slot mem rd sr cnt size by blast
qed

lemma ref_create:
  assumes inv: "ref_inv s"
    and ob: "ob \<noteq> 0" "ob AND KPH_ATOMIC_OBJECT_REF_LOCK_MASK = 0" "phases s ob = Absent"
    and frame: "header s' = (header s)(ob := \<lparr> PointerCount = 1, TypeIndex = i \<rparr>)"
      "phases s' = (phases s)(ob := Live)" "Object s' = Object s"
      "refs s' = add_mset (InFlight t, ob) (refs s)" "pcs s' = (pcs s)(t := Counting ob)"
    and fl: "in_flight (pcs s t) = 0" and size: "size (refs s') < 2 ^ 63"
  shows "ref_inv s'"
proof -
  have none: "references (refs s) ob = 0" using inv ob by (simp add: ref_inv_def)
  have flight: "count (refs s') (InFlight v, x) = of_bool (x \<noteq> 0 \<and> in_flight (pcs s' v) = x)" for v x
    using inv ob fl by (auto simp: ref_inv_def frame)
  have rd: "managed (Object s' q) = x" if "reads (pcs s' v) = Some (q, x)" for v q x
    using that inv by (auto simp: ref_inv_def frame split: if_splits)
  have sr: "needs (pcs s' v) \<noteq> Some 0" for v
    using fl ob inv by (auto simp: ref_inv_def frame)
  have mem: "x \<noteq> 0 \<and> x AND KPH_ATOMIC_OBJECT_REF_LOCK_MASK = 0" if "(v, x) \<in># refs s'" for v x
    using that ob ref_live(2,3) [OF inv] by (auto simp: frame)
  show ?thesis
    unfolding ref_inv_def
    using inv flight mem rd sr size none by (auto simp: ref_inv_def frame)
qed

lemma ref_write:
  assumes inv: "ref_inv s" and t: "pcs s t = ExclusiveWrite m r new previous"
    and only: "\<And>u q ob. u \<noteq> t \<Longrightarrow> reads (pcs s u) \<noteq> Some (r, ob)"
    and frame: "header s' = header s" "phases s' = phases s"
      "Object s' = (Object s)(r := w)" "managed w = new" "pcs s' = (pcs s)(t := ExclusiveRelease m r previous)"
    and refs: "refs s' = refs (hand (InFlight t) (OfSlot r) new (hand (OfSlot r) (InFlight t) previous s))"
  shows "ref_inv s'"
proof -
  have "reads (pcs s t) = Some (r, previous)" by (simp add: t)
  then have prev: "managed (Object s r) = previous" using inv by (simp add: ref_inv_def)
  have p: "previous \<noteq> 0 \<Longrightarrow> (OfSlot r, previous) \<in># refs s" using ref_in_slot [OF inv prev] by blast
  have n: "new \<noteq> 0 \<Longrightarrow> (InFlight t, new) \<in># refs s" using ref_in_flight [OF inv, of t new] t by simp
  define M where "M = refs (hand (OfSlot r) (InFlight t) previous s)"
  have nM: "new \<noteq> 0 \<Longrightarrow> (InFlight t, new) \<in># M"
    using n p by (auto simp: M_def in_diff_count)
  have sM: "size M = size (refs s)"
    using p size_exchange [of "(OfSlot r, previous)" "refs s"] by (simp add: M_def)
  have rs: "refs s' = (if new = 0 then M else add_mset (OfSlot r, new) (M - {#(InFlight t, new)#}))"
    by (simp add: refs M_def)
  have size: "size (refs s') = size (refs s)"
    using nM size_exchange [of "(InFlight t, new)" M] sM by (simp add: rs)
  have rM: "references M x = references (refs s) x" for x
    using p references_remove [of "(OfSlot r, previous)" "refs s" x] by (auto simp: M_def)
  have rfs: "references (refs s') x = references (refs s) x" for x
    using nM references_remove [of "(InFlight t, new)" M x] by (auto simp: rs rM)
  have old: "count (refs s) (InFlight v, x) = of_bool (x \<noteq> 0 \<and> in_flight (pcs s v) = x)"
    "count (refs s) (OfSlot q, x) = of_bool (x \<noteq> 0 \<and> managed (Object s q) = x)" for v q x
    using inv by (simp_all add: ref_inv_def)
  have flight: "count (refs s') (InFlight v, x) = of_bool (x \<noteq> 0 \<and> in_flight (pcs s' v) = x)" for v x
    by (auto simp: rs M_def old t frame)
  have slot: "count (refs s') (OfSlot q, x) = of_bool (x \<noteq> 0 \<and> managed (Object s' q) = x)" for q x
    by (auto simp: rs M_def old prev frame)
  have mem: "x \<noteq> 0 \<and> x AND KPH_ATOMIC_OBJECT_REF_LOCK_MASK = 0" if "(v, x) \<in># refs s'" for v x
  proof -
    have "\<exists>v. (v, x) \<in># refs s" using that n p by (auto simp: rs M_def split: if_splits dest!: in_diffD)
    then show ?thesis using ref_live(2,3) [OF inv] by blast
  qed
  have rd: "managed (Object s' q) = x" if "reads (pcs s' v) = Some (q, x)" for v q x
    using that only inv by (cases "v = t") (auto simp: ref_inv_def frame split: if_splits)
  have sr: "needs (pcs s' v) \<noteq> Some 0" for v
    using t inv by (auto simp: ref_inv_def frame)
  show ?thesis
    unfolding ref_inv_def
    using inv flight slot mem rd sr size rfs frame by (simp add: ref_inv_def)
qed

lemma ref_start:
  assumes inv: "ref_inv s" and t: "pcs s t = Idle" and run: "start_call t k s = Some s'"
    and size: "size (refs s') < 2 ^ 63"
  shows "ref_inv s'"
proof (cases k)
  case (Create ob i a st)
  show ?thesis
  proof (cases "a \<and> NT_SUCCESS st")
    case True
    then show ?thesis
      by (intro ref_create [OF inv, of ob s' i t])
         (use run Create t size in \<open>auto simp: step_defs split: if_splits\<close>)
  next
    case False
    then show ?thesis using run Create inv by (auto simp: step_defs split: if_splits)
  qed
next
  case (Reference ob)
  then have r: "(OfThread t, ob) \<in># refs s" using run by (auto split: if_splits)
  show ?thesis
    by (rule ref_gain [OF inv, of s' ob t Idle "OfThread t" "OfThread t" t])
       (use run Reference t size r ref_live(2) [OF inv r] in \<open>auto simp: step_defs\<close>)
next
  case (Dereference ob d)
  then have r: "(OfThread t, ob) \<in># refs s" using run by (auto split: if_splits)
  show ?thesis
    by (rule ref_move [OF inv, of s' t "Drop ob d" ob "InFlight t" "OfThread t" t])
       (use run Dereference t r ref_live(2) [OF inv r] in \<open>auto simp:\<close>)
next
  case (AtomicReference r)
  then show ?thesis
    by (intro ref_keep [OF inv, of s' t "SharedAcquire r (Object s r)"])
       (use run t in \<open>auto simp:\<close>)
next
  case (AtomicAssign r ob)
  show ?thesis
  proof (cases "ob = 0")
    case True
    then show ?thesis
      by (intro ref_keep [OF inv, of s' t "StoreStart False r 0"])
         (use run AtomicAssign t in \<open>auto simp:\<close>)
  next
    case False
    then have r: "(OfThread t, ob) \<in># refs s" using run AtomicAssign by (auto split: if_splits)
    show ?thesis
      by (rule ref_gain [OF inv, of s' ob t "StoreStart False r ob" "InFlight t" "OfThread t" t])
         (use run AtomicAssign t size r False in \<open>auto simp: step_defs\<close>)
  qed
next
  case (AtomicMove r ob)
  then show ?thesis
    by (intro ref_move [OF inv, of s' t "StoreStart True r ob" ob "InFlight t" "OfThread t" t])
       (use run t in \<open>auto simp: split: if_splits\<close>)
next
  case (HandOver t' ob)
  then show ?thesis
    by (intro ref_move [OF inv, of s' t Idle ob "OfThread t'" "OfThread t" t t'])
       (use run t in \<open>auto simp: split: if_splits\<close>)
qed


text \<open>At most one thread writes to a slot; when one is alone in it, none shares it.\<close>

lemma number_one:
  assumes "finite (busy s)" "\<not> P Idle" "number P s \<le> 1" "P (pcs s t)" "P (pcs s u)"
  shows "u = t"
proof -
  have fin: "finite {v. P (pcs s v)}"
    by (rule finite_subset [OF _ assms(1)]) (use assms(2) in \<open>auto simp: busy_def\<close>)
  have "card {t, u} \<le> card {v. P (pcs s v)}" using assms(4,5) by (intro card_mono [OF fin]) auto
  then show ?thesis using assms(3) by (cases "u = t") (auto simp: number_def)
qed

lemma lock_exclusive:
  assumes "lock_inv s" "alone (pcs s t) = Some r" "u \<noteq> t"
  shows "sharer (pcs s u) \<noteq> Some r" "writer (pcs s u) \<noteq> Some r"
proof -
  have "sharers (Object s r) = 0" "finite (busy s)" "number (\<lambda>c. sharer c = Some r) s = sharers (Object s r)"
    "number (\<lambda>c. writer c = Some r) s \<le> 1"
    using assms(1,2) by (auto simp: lock_inv_def)
  moreover have "writer (pcs s t) = Some r" using assms(2) by (cases "pcs s t") (auto split: if_splits)
  ultimately show "sharer (pcs s u) \<noteq> Some r" "writer (pcs s u) \<noteq> Some r"
    using number_pos [of s "\<lambda>c. sharer c = Some r" u] number_one [of s "\<lambda>c. writer c = Some r" t u] assms(3)
    by auto
qed

lemma lock_sharer:
  assumes "lock_inv s" "sharer (pcs s t) = Some r"
  shows "sharers (Object s r) \<noteq> 0"
  using assms number_pos [of s "\<lambda>c. sharer c = Some r" t] by (simp add: lock_inv_def)

lemma ref_run:
  assumes inv: "ref_inv s" and lock: "lock_inv s" and run: "run_thread t d s (pcs s t) = Some s'"
    and dy: "\<And>ob. ob \<in> set (dying (pcs s t)) \<Longrightarrow> phases s ob = Dying"
    and size: "size (refs s') < 2 ^ 63"
  shows "ref_inv s'"
proof (cases "pcs s t")
  case Idle
  then show ?thesis using run by simp
next
  case (SharedAcquire r v)
  have "managed (v + 1) = managed v" if "\<not> KPH_ATOMIC_OBJECT_REF_SHARED_MAX \<le> v AND KPH_ATOMIC_OBJECT_REF_LOCK_MASK"
    using take_shared(1) [of v] that by (simp add: not_le)
  then show ?thesis
    by (intro ref_keep [OF inv, of s' t "pcs s' t"])
       (use run SharedAcquire in \<open>auto simp: step_defs split: if_splits\<close>)
next
  case (SharedRead r)
  show ?thesis
    by (rule ref_keep [OF inv, of s' t "pcs s' t"])
       (use run SharedRead in \<open>auto simp: step_defs managed_def split: if_splits\<close>)
next
  case (SharedReference r ob)
  have "reads (pcs s t) = Some (r, ob)" by (simp add: SharedReference)
  then have m: "managed (Object s r) = ob" using inv by (simp add: ref_inv_def)
  have nz: "ob \<noteq> 0" using inv SharedReference unfolding ref_inv_def by (metis needs.simps(1))
  show ?thesis
    by (rule ref_gain [OF inv, of s' ob t "SharedRelease r ob" "InFlight t" "OfSlot r" t])
       (use run SharedReference size nz ref_in_slot [OF inv m nz] in \<open>auto simp: step_defs\<close>)
next
  case (SharedRelease r ob)
  have w: "managed (Object s r - 1) = managed (Object s r)"
    using drop_shared(1) lock_sharer [OF lock, of t r] SharedRelease by simp
  show ?thesis
    by (rule ref_move [OF inv, of s' t Idle ob "OfThread t" "InFlight t" t t])
       (use run SharedRelease w ref_in_flight [OF inv, of t ob] in \<open>auto simp: step_defs\<close>)
next
  case (StoreStart m r new)
  show ?thesis
    by (rule ref_keep [OF inv, of s' t "pcs s' t"]) (use run StoreStart in \<open>auto simp: step_defs\<close>)
next
  case (ExclusiveAcquire m r new v)
  show ?thesis
    by (rule ref_keep [OF inv, of s' t "pcs s' t"])
       (use run ExclusiveAcquire set_exclusive(1) in \<open>auto simp: step_defs split: if_splits\<close>)
next
  case (ExclusiveDrain m r new v)
  show ?thesis
    by (rule ref_keep [OF inv, of s' t "pcs s' t"])
       (use run ExclusiveDrain in \<open>auto simp: step_defs managed_def split: if_splits\<close>)
next
  case (ExclusiveWrite m r new previous)
  have al: "new AND KPH_ATOMIC_OBJECT_REF_LOCK_MASK = 0"
    using ref_live(3) [OF inv ref_in_flight [OF inv, of t new]] ExclusiveWrite by (cases "new = 0") auto
  have only: "reads (pcs s u) \<noteq> Some (r, ob)" if "u \<noteq> t" for u ob
    using lock_exclusive [OF lock, of t r u] that ExclusiveWrite by (cases "pcs s u") auto
  show ?thesis
    by (rule ref_write [OF inv ExclusiveWrite only, where s' = s' and
          w = "new OR KPH_ATOMIC_OBJECT_REF_EXCLUSIVE_FLAG"])
       (use run ExclusiveWrite set_exclusive(1) [of new] aligned_word(1) [OF al] in \<open>auto simp: step_defs\<close>)
next
  case (ExclusiveRelease m r previous)
  note w = clear_exclusive(1) [of "Object s r"]
  show ?thesis
  proof (cases m)
    case True
    then show ?thesis
      by (intro ref_move [OF inv, of s' t Idle previous "OfThread t" "InFlight t" t t])
         (use run ExclusiveRelease w ref_in_flight [OF inv, of t previous] in \<open>auto simp: step_defs\<close>)
  next
    case False
    then show ?thesis
      by (intro ref_keep [OF inv, of s' t "pcs s' t"])
         (use run ExclusiveRelease w in \<open>auto simp: step_defs split: if_splits\<close>)
  qed
next
  case (Drop ob def)
  show ?thesis
  proof -
    have "ob \<noteq> 0" using inv Drop unfolding ref_inv_def by (metis needs.simps(2))
    then show ?thesis
      by (intro ref_drop(1) [OF inv, where t = t and ob = ob and c = "pcs s' t"])
         (use run Drop in \<open>auto simp: step_defs split: if_splits\<close>)
  qed
next
  case (HighWater ob n)
  show ?thesis
    by (rule ref_move [OF inv, of s' t Idle ob "OfThread t" "InFlight t" t t])
       (use run HighWater ref_in_flight [OF inv, of t ob] in \<open>auto simp: step_defs\<close>)
next
  case (Counting ob)
  have "ob \<noteq> 0" using inv Counting unfolding ref_inv_def by (metis needs.simps(3))
  then show ?thesis
    by (intro ref_keep [OF inv, of s' t "pcs s' t"]) (use run Counting in \<open>auto simp: step_defs\<close>)
next
  case (Deleting ob es)
  have "phases s ob = Dying" using dy Deleting by simp
  then show ?thesis
    by (intro ref_keep [OF inv, of s' t "pcs s' t"]) (use run Deleting in \<open>auto simp: step_defs split: if_splits\<close>)
qed (rule ref_keep [OF inv, of s' t "pcs s' t"]; use run in \<open>auto simp: step_defs split: if_splits\<close>)+

section \<open>The deletion of objects\<close>

definition dying_inv :: "OBJECTS \<Rightarrow> bool" where
  "dying_inv s \<longleftrightarrow>
     (\<forall>ob. phases s ob = Dying \<longleftrightarrow>
        ob \<in> set (KphpDeferDeleteObjectList s) \<or> (\<exists>t. ob \<in> set (dying (pcs s t)))) \<and>
     distinct (KphpDeferDeleteObjectList s) \<and>
     (\<forall>t. distinct (dying (pcs s t)) \<and> set (dying (pcs s t)) \<inter> set (KphpDeferDeleteObjectList s) = {}) \<and>
     (\<forall>t u. t \<noteq> u \<longrightarrow> set (dying (pcs s t)) \<inter> set (dying (pcs s u)) = {})"

definition duty_inv :: "OBJECTS \<Rightarrow> bool" where
  "duty_inv s \<longleftrightarrow> finite (busy s) \<and>
     number on_duty s + dpcs s + work_items s = of_bool (KphpDeferDeleteObjectList s \<noteq> [])"

text \<open>The threads and the list share out the objects that are to be deleted.\<close>

lemma dying_keep:
  assumes "dying_inv s" "\<And>ob. (phases s' ob = Dying) = (phases s ob = Dying)"
    "KphpDeferDeleteObjectList s' = KphpDeferDeleteObjectList s"
    "pcs s' = (pcs s)(t := c)" "dying c = dying (pcs s t)"
  shows "dying_inv s'"
proof -
  have d: "dying (pcs s' u) = dying (pcs s u)" for u using assms(4,5) by simp
  show ?thesis using assms(1-3) by (simp add: dying_inv_def d)
qed

lemma dying_step:
  assumes inv: "dying_inv s"
    and p: "\<And>u. dying (pcs s' u) = (if u = t then D else dying (pcs s u))"
    and d: "distinct (D @ KphpDeferDeleteObjectList s')"
    and new: "set (D @ KphpDeferDeleteObjectList s') \<subseteq>
      set (dying (pcs s t) @ KphpDeferDeleteObjectList s) \<union> {ob. phases s ob \<noteq> Dying}"
    and ph: "\<And>ob. (phases s' ob = Dying) =
      (if ob \<in> set (dying (pcs s t) @ KphpDeferDeleteObjectList s)
       then ob \<in> set (D @ KphpDeferDeleteObjectList s')
       else phases s ob = Dying \<or> ob \<in> set (D @ KphpDeferDeleteObjectList s'))"
  shows "dying_inv s'"
proof -
  let ?L = "KphpDeferDeleteObjectList s" and ?L' = "KphpDeferDeleteObjectList s'"
  have dying: "phases s ob = Dying" if "ob \<in> set (dying (pcs s u))" for ob u
    using inv that unfolding dying_inv_def by blast
  have other: "x \<in> set (dying (pcs s u)) \<Longrightarrow> x \<notin> set D \<and> x \<notin> set ?L'" if "u \<noteq> t" for u x
  proof -
    have "set (dying (pcs s u)) \<inter> set (dying (pcs s t)) = {}" "set (dying (pcs s u)) \<inter> set ?L = {}"
      using inv that unfolding dying_inv_def by blast+
    then have "set (dying (pcs s u)) \<inter> set (dying (pcs s t) @ ?L) = {}" by auto
    moreover assume "x \<in> set (dying (pcs s u))"
    ultimately show ?thesis using new dying [of x u] unfolding set_append by blast
  qed
  have "(phases s' ob = Dying) = (ob \<in> set ?L' \<or> (\<exists>v. ob \<in> set (dying (pcs s' v))))" for ob
  proof -
    have old: "(phases s ob = Dying) = (ob \<in> set ?L \<or> (\<exists>v. ob \<in> set (dying (pcs s v))))"
      using inv by (simp add: dying_inv_def)
    have "ob \<notin> set (dying (pcs s v))" if "ob \<in> set (dying (pcs s t) @ ?L)" "v \<noteq> t" for v
      using inv that unfolding dying_inv_def set_append by blast
    then show ?thesis using ph [of ob] old by (auto simp: p split: if_splits)
  qed
  moreover have "distinct ?L'" "distinct (dying (pcs s' u)) \<and> set (dying (pcs s' u)) \<inter> set ?L' = {}" for u
    using inv d other [of u] by (auto simp: dying_inv_def p)
  moreover have "set (dying (pcs s' u)) \<inter> set (dying (pcs s' v)) = {}" if "u \<noteq> v" for u v
  proof -
    have "set (dying (pcs s u)) \<inter> set (dying (pcs s v)) = {}" using inv that by (simp add: dying_inv_def)
    then show ?thesis using other [of u] other [of v] that by (auto simp: p)
  qed
  ultimately show ?thesis unfolding dying_inv_def by blast
qed

lemma dying_run:
  assumes inv: "dying_inv s" and run: "run_thread t d s (pcs s t) = Some s'"
    and live: "\<And>ob. needs (pcs s t) = Some ob \<Longrightarrow> phases s ob = Live"
  shows "dying_inv s'"
proof (cases "pcs s t")
  case Idle
  then show ?thesis using run by simp
next
  case (Drop ob def)
  have l: "phases s ob = Live" using live Drop by simp
  show ?thesis
  proof (cases "sint (PointerCount (header s ob) - 1) > 0")
    case True
    then show ?thesis
      by (intro dying_keep [OF inv, of s' t Idle]) (use run Drop in \<open>auto simp: step_defs\<close>)
  next
    case False
    have new: "ob \<notin> set (KphpDeferDeleteObjectList s)"
      using inv l unfolding dying_inv_def by (metis phase.distinct(5))
    show ?thesis
      by (rule dying_step [OF inv, of s' t "[ob]"])
         (use run Drop False inv new l in \<open>auto simp: step_defs dying_inv_def\<close>)
  qed
next
  case (Push ob)
  have "ob \<notin> set (KphpDeferDeleteObjectList s)"
    using inv Push unfolding dying_inv_def by (metis Int_iff dying.simps(1) empty_iff list.set_intros(1))
  moreover have "phases s ob = Dying"
    using inv Push unfolding dying_inv_def by (metis dying.simps(1) list.set_intros(1))
  ultimately show ?thesis
    using inv by (intro dying_step [OF inv, of s' t "[]"])
       (use run Push in \<open>auto simp: step_defs dying_inv_def\<close>)
next
  case Flush
  then show ?thesis
    by (intro dying_step [OF inv, of s' t "KphpDeferDeleteObjectList s"])
       (use run inv in \<open>auto simp: step_defs dying_inv_def\<close>)
next
  case (Deleting ob es)
  have "distinct (ob # es)" "set (ob # es) \<inter> set (KphpDeferDeleteObjectList s) = {}"
    using inv Deleting unfolding dying_inv_def by (metis dying.simps(2))+
  moreover have "phases s x = Dying" if "x \<in> set (ob # es)" for x
    using inv Deleting that unfolding dying_inv_def by (metis dying.simps(2))
  ultimately show ?thesis
    using inv by (intro dying_step [OF inv, of s' t es])
       (use run Deleting in \<open>auto simp: step_defs dying_inv_def\<close>)
qed (rule dying_keep [OF inv, of s' t "pcs s' t"]; use run in \<open>auto simp: step_defs split: if_splits\<close>)+

text \<open>The duty to empty the list is with exactly one: a thread, the DPC, or the work item.\<close>

lemma duty_keep:
  assumes "duty_inv s" "pcs s' = (pcs s)(t := c)" "on_duty c = on_duty (pcs s t)"
    "KphpDeferDeleteObjectList s' = KphpDeferDeleteObjectList s" "dpcs s' = dpcs s"
    "work_items s' = work_items s"
  shows "duty_inv s'"
  using assms number_goto [of s on_duty s' t c] finite_busy [OF _ assms(2)] by (simp add: duty_inv_def)

lemma duty_run:
  assumes inv: "duty_inv s" and run: "run_thread t d s (pcs s t) = Some s'"
  shows "duty_inv s'"
proof -
  have fin: "finite (busy s)" and n: "number on_duty s + dpcs s + work_items s = of_bool (KphpDeferDeleteObjectList s \<noteq> [])"
    using inv by (simp_all add: duty_inv_def)
  note ng = number_goto [OF fin, of on_duty s' t, simplified]
  show ?thesis
  proof (cases "pcs s t")
    case Idle
    then show ?thesis using run by simp
  next
    case (Push ob)
    then have s': "s' = KphpObjectDeferDelete t ob s" using run by simp
    then have p: "pcs s' = (pcs s)(t := pcs s' t)" by (simp add: step_defs)
    show ?thesis
      using n ng [OF p] finite_busy [OF fin p] Push s' by (auto simp: duty_inv_def step_defs)
  next
    case Schedule
    then have s': "s' = schedule_worker t d s" using run by simp
    then have p: "pcs s' = (pcs s)(t := Idle)" by (simp add: step_defs)
    show ?thesis
      using n ng [OF p] finite_busy [OF fin p] Schedule s' by (auto simp: duty_inv_def step_defs)
  next
    case Flush
    then have s': "s' = KphpDeferDeleteObjectWorker t s" using run by simp
    then have p: "pcs s' = (pcs s)(t := pcs s' t)" by (simp add: step_defs)
    show ?thesis
      using n ng [OF p] finite_busy [OF fin p] Flush s'
      by (cases "KphpDeferDeleteObjectList s = []") (auto simp: duty_inv_def step_defs)
  qed (rule duty_keep [OF inv, of s' t "pcs s' t"]; use run in \<open>auto simp: step_defs split: if_splits\<close>)+
qed

section \<open>Reachable states\<close>

definition object_inv :: "OBJECTS \<Rightarrow> bool" where
  "object_inv s \<longleftrightarrow> lock_inv s \<and> ref_inv s \<and> dying_inv s \<and> duty_inv s"

lemma object_inv_init: "object_inv (init_objects types memory)"
  by (simp add: object_inv_def lock_inv_def ref_inv_def dying_inv_def duty_inv_def init_objects_def
      busy_def number_def sharers_def locked_def managed_def)

lemma dying_start:
  assumes inv: "dying_inv s" and t: "pcs s t = Idle" and run: "start_call t k s = Some s'"
  shows "dying_inv s'"
proof -
  have "(phases s' ob = Dying) = (phases s ob = Dying)" for ob
    using run by (cases k) (auto simp: step_defs split: if_splits)
  then show ?thesis
    using start_pc [OF t run] t by (intro dying_keep [OF inv, of s' t "pcs s' t"]) simp_all
qed

lemma needs_live:
  assumes "ref_inv s" "needs (pcs s t) = Some ob"
  shows "phases s ob = Live"
proof -
  have nz: "ob \<noteq> 0" using assms by (auto simp: ref_inv_def)
  have "in_flight (pcs s t) = ob \<or> (\<exists>r. reads (pcs s t) = Some (r, ob))"
    using assms(2) by (cases "pcs s t") auto
  then have "\<exists>w. (w, ob) \<in># refs s"
  proof
    assume "in_flight (pcs s t) = ob"
    then show ?thesis using ref_in_flight [OF assms(1) _ nz] by blast
  next
    assume "\<exists>r. reads (pcs s t) = Some (r, ob)"
    then obtain r where "managed (Object s r) = ob" using assms(1) unfolding ref_inv_def by blast
    then show ?thesis using ref_in_slot [OF assms(1) _ nz] by blast
  qed
  then show ?thesis using ref_live(1) [OF assms(1)] by blast
qed

lemma object_inv_step:
  assumes "object_inv s" "object_step e s = Some s'" "size (refs s') < 2 ^ 63"
  shows "object_inv s'"
proof -
  have inv: "lock_inv s" "ref_inv s" "dying_inv s" "duty_inv s"
    using assms(1) by (simp_all add: object_inv_def)
  show ?thesis
  proof (cases e)
    case (Call t k)
    then have t: "pcs s t = Idle" and run: "start_call t k s = Some s'"
      using assms(2) by (auto split: if_splits)
    have "duty_inv s'"
      using start_pc [OF t run] t by (intro duty_keep [OF inv(4), of s' t "pcs s' t"]) simp_all
    then show ?thesis
      using lock_start [OF inv(1) t run] ref_start [OF inv(2) t run assms(3)] dying_start [OF inv(3) t run]
      by (simp add: object_inv_def)
  next
    case (Run t d)
    then have run: "run_thread t d s (pcs s t) = Some s'" using assms(2) by simp
    have al: "in_flight (pcs s t) AND KPH_ATOMIC_OBJECT_REF_LOCK_MASK = 0"
      using ref_live(3) [OF inv(2) ref_in_flight [OF inv(2), of t "in_flight (pcs s t)"]]
      by (cases "in_flight (pcs s t) = 0") auto
    have dy: "phases s ob = Dying" if "ob \<in> set (dying (pcs s t))" for ob
      using inv(3) that unfolding dying_inv_def by blast
    show ?thesis
      using lock_run [OF inv(1) run al] ref_run [OF inv(2,1) run dy assms(3)]
        dying_run [OF inv(3) run needs_live [OF inv(2)]] duty_run [OF inv(4) run]
      by (simp add: object_inv_def)
  next
    case FireDpc
    then have s': "s' = s\<lparr> dpcs := dpcs s - 1, work_items := work_items s + 1 \<rparr>" "dpcs s > 0"
      using assms(2) by (auto split: if_splits)
    have "number P s' = number P s" "busy s' = busy s" for P
      by (simp_all add: number_def busy_def s')
    then have "lock_inv s'" "duty_inv s'"
      using inv(1,4) s'(2) by (auto simp: lock_inv_def duty_inv_def s'(1))
    moreover have "managed (Object s r) = ob" "needs (pcs s 0) \<noteq> Some 0" if "reads (pcs s 0) = Some (r, ob)" for r ob
      using inv(2) that unfolding ref_inv_def by blast+
    then have "ref_inv s'"
      using inv(2) by (intro ref_keep [OF inv(2), of s' 0 "pcs s 0"]) (auto simp: s'(1) ref_inv_def)
    moreover have "dying_inv s'" by (rule dying_keep [OF inv(3), of s' 0 "pcs s 0"]) (simp_all add: s'(1))
    ultimately show ?thesis by (simp add: object_inv_def)
  next
    case (StartWorker t)
    then have s': "s' = goto t Flush (s\<lparr> work_items := work_items s - 1 \<rparr>)" "work_items s > 0" "pcs s t = Idle"
      using assms(2) by (auto split: if_splits)
    have p: "pcs s' = (pcs s)(t := Flush)" by (simp add: s')
    have "lock_inv s'" by (rule lock_keep [OF inv(1) _ p]) (simp_all add: s')
    moreover have "ref_inv s'" by (rule ref_keep [OF inv(2) _ _ _ _ p]) (simp_all add: s')
    moreover have "dying_inv s'" by (rule dying_keep [OF inv(3) _ _ p]) (simp_all add: s')
    moreover have "duty_inv s'"
      using inv(4) number_goto [of s on_duty s' t Flush] p s' finite_busy [OF _ p]
      by (cases "KphpDeferDeleteObjectList s = []") (auto simp: duty_inv_def)
    ultimately show ?thesis by (simp add: object_inv_def)
  qed
qed

lemma object_reach_inv: "object_reach s \<Longrightarrow> object_inv s"
  by (induction rule: object_reach.induct) (simp add: object_inv_init, rule object_inv_step)

lemma object_step_size:
  assumes "object_inv s" "object_step e s = Some s'"
  shows "size (refs s') \<le> size (refs s) + 1"
proof -
  have d: "size (M - {#x#}) \<le> size M" for M :: "(owner \<times> u64) multiset" and x
    by (simp add: size_Diff1_le)
  note d = d le_SucI [OF d]
  show ?thesis
  proof (cases e)
    case (Call t k)
    then have run: "start_call t k s = Some s'" using assms(2) by (auto split: if_splits)
    show ?thesis
      using run d by (cases k) (auto simp: step_defs split: if_splits)
  next
    case (Run t b)
    then have run: "run_thread t b s (pcs s t) = Some s'" using assms(2) by simp
    show ?thesis
    proof (cases "pcs s t")
      case (ExclusiveWrite m r new previous)
      have "reads (pcs s t) = Some (r, previous)" by (simp add: ExclusiveWrite)
      then have "managed (Object s r) = previous" "ref_inv s"
        using assms(1) unfolding object_inv_def ref_inv_def by blast+
      then have "previous \<noteq> 0 \<Longrightarrow> (OfSlot r, previous) \<in># refs s" using ref_in_slot by blast
      then have "size (refs (hand (OfSlot r) (InFlight t) previous s)) = size (refs s)"
        using size_exchange [of "(OfSlot r, previous)" "refs s"] by simp
      then show ?thesis
        using run ExclusiveWrite d(1) [of "refs (hand (OfSlot r) (InFlight t) previous s)" "(InFlight t, new)"]
        by (auto simp: step_defs)
    qed (use run d in \<open>auto simp: step_defs split: if_splits\<close>)
  qed (use assms(2) in \<open>auto split: if_splits\<close>)
qed

lemma object_run_reach:
  "object_reach s \<Longrightarrow> object_run es s = Some s' \<Longrightarrow> size (refs s) + length es < 2 ^ 63 \<Longrightarrow> object_reach s'"
proof (induction es arbitrary: s)
  case (Cons e es)
  from Cons.prems(2) obtain s1 where s1: "object_step e s = Some s1" "object_run es s1 = Some s'"
    by (auto simp: bind_eq_Some_conv)
  have "size (refs s1) \<le> size (refs s) + 1"
    using object_step_size [OF object_reach_inv [OF Cons.prems(1)] s1(1)] .
  moreover from this have "object_reach s1"
    using object_reach.step [OF Cons.prems(1) s1(1)] Cons.prems(3) by simp
  ultimately show ?case using Cons.IH [OF _ s1(2)] Cons.prems(3) by simp
qed simp

section \<open>Properties\<close>

text \<open>The object whose memory the next step of a thread reads or writes.\<close>

fun touches :: "pc \<Rightarrow> u64 option" where
  "touches (SharedReference r ob) = Some ob"
| "touches (Drop ob defer) = Some ob"
| "touches (Push ob) = Some ob"
| "touches (Deleting ob es) = Some ob"
| "touches (Counting ob) = Some ob"
| "touches (HighWater ob n) = Some ob"
| "touches _ = None"

text \<open>What the debug build asserts at the next step.\<close>

fun asserted :: "OBJECTS \<Rightarrow> pc \<Rightarrow> bool" where
  "asserted s (SharedReference r ob) = (sint (PointerCount (header s ob) + 1) > 1)"
| "asserted s (SharedRelease r ob) =
     ((Object s r - 1) AND KPH_ATOMIC_OBJECT_REF_SHARED_MAX < KPH_ATOMIC_OBJECT_REF_SHARED_MAX)"
| "asserted s (ExclusiveRelease m r previous) = (Object s r AND KPH_ATOMIC_OBJECT_REF_EXCLUSIVE_FLAG \<noteq> 0)"
| "asserted s (Drop ob defer) = (sint (PointerCount (header s ob) - 1) \<ge> 0)"
| "asserted s _ = True"

lemma touches_allocated:
  assumes "object_inv s" "touches (pcs s t) = Some ob"
  shows "phases s ob \<noteq> Absent"
proof -
  have inv: "ref_inv s" "dying_inv s" using assms(1) by (simp_all add: object_inv_def)
  consider "needs (pcs s t) = Some ob" | "ob \<in> set (dying (pcs s t))"
    using assms(2) by (cases "pcs s t") auto
  then show ?thesis
  proof cases
    case 1
    then show ?thesis using needs_live [OF inv(1)] by simp
  next
    case 2
    then have "phases s ob = Dying" using inv(2) unfolding dying_inv_def by blast
    then show ?thesis by simp
  qed
qed

lemma asserted_reach:
  assumes "object_inv s" "size (refs s) + 1 < 2 ^ 63"
  shows "asserted s (pcs s t)"
proof -
  have inv: "ref_inv s" "lock_inv s" using assms(1) by (simp_all add: object_inv_def)
  show ?thesis
  proof (cases "pcs s t")
    case (SharedReference r ob)
    then have l: "phases s ob = Live" using needs_live [OF inv(1), of t ob] by simp
    then have n: "unat (PointerCount (header s ob)) = references (refs s) ob" "PointerCount (header s ob) \<noteq> 0"
      using inv(1) by (simp_all add: ref_inv_def)
    have "unat (PointerCount (header s ob)) + 1 < 2 ^ 63"
      using n(1) references_le [of "refs s" ob] assms(2) by simp
    moreover from this have "unat (PointerCount (header s ob) + 1) = unat (PointerCount (header s ob)) + 1"
      by (intro trans [OF unat_add_fits]) simp_all
    moreover have "unat (PointerCount (header s ob)) \<noteq> 0" using n(2) by (metis unat_eq_zero)
    ultimately have "sint (PointerCount (header s ob) + 1) > 1"
      using sint_small [of "PointerCount (header s ob) + 1"] by linarith
    then show ?thesis using SharedReference by simp
  next
    case (SharedRelease r ob)
    have w: "sharers (Object s r - 1) + 1 = sharers (Object s r)"
      using drop_shared(2) lock_sharer [OF inv(2), of t r] SharedRelease by simp
    have "sharers (Object s r) \<le> 7"
    proof -
      have "Object s r AND 7 \<le> 7" by (rule word_and_le1)
      then show ?thesis by (simp add: sharers_def atomic_defs word_le_nat_alt)
    qed
    then show ?thesis using w SharedRelease by (simp add: sharers_def atomic_defs word_less_nat_alt)
  next
    case (ExclusiveRelease m r previous)
    have "locked (Object s r)"
      using number_pos [of s "\<lambda>c. writer c = Some r" t] inv(2) ExclusiveRelease by (simp add: lock_inv_def)
    then show ?thesis using ExclusiveRelease by (simp add: locked_def)
  next
    case (Drop ob d)
    have "ob \<noteq> 0" using inv(1) Drop unfolding ref_inv_def by (metis needs.simps(2))
    moreover obtain s' where "run_thread t True s (pcs s t) = Some s'" by (simp add: Drop)
    ultimately show ?thesis
      using ref_drop(2) [OF inv(1), where t = t and ob = ob and c = "pcs s' t" and s' = s'] Drop
      by (auto simp: step_defs split: if_splits)
  qed simp_all
qed

text \<open>
  C5: No object is used after it was deleted, and none is deleted twice. In every reachable state,
  however the threads interleave: an object to which a thread, a slot or a routine in progress has a
  reference is live, and its count is the number of these references; the object whose memory a
  thread is about to read or write is allocated; when a thread is about to delete an object there is
  no reference to it, it is not in the list, and no other thread is to delete it. None of the
  assertions of the code fails.
\<close>

theorem objects_never_dangle:
  assumes "object_reach s" "size (refs s) + 1 < 2 ^ 63"
  shows "(\<forall>w ob. (w, ob) \<in># refs s \<longrightarrow> phases s ob = Live) \<and>
    (\<forall>ob. phases s ob = Live \<longrightarrow>
       int (references (refs s) ob) = sint (PointerCount (header s ob)) \<and> references (refs s) ob > 0) \<and>
    (\<forall>r. managed (Object s r) \<noteq> 0 \<longrightarrow> phases s (managed (Object s r)) = Live) \<and>
    (\<forall>t ob. touches (pcs s t) = Some ob \<longrightarrow> phases s ob \<noteq> Absent) \<and>
    (\<forall>t ob es. pcs s t = Deleting ob es \<longrightarrow>
       (\<forall>w. (w, ob) \<notin># refs s) \<and> ob \<notin> set (KphpDeferDeleteObjectList s) \<and> ob \<notin> set es \<and>
       (\<forall>u. u \<noteq> t \<longrightarrow> ob \<notin> set (dying (pcs s u)))) \<and>
    (\<forall>t. asserted s (pcs s t))"
proof -
  have inv: "object_inv s" using object_reach_inv [OF assms(1)] .
  then have r: "ref_inv s" and d: "dying_inv s" by (simp_all add: object_inv_def)
  have live: "\<forall>w ob. (w, ob) \<in># refs s \<longrightarrow> phases s ob = Live" using ref_live(1) [OF r] by blast
  have cnt: "int (references (refs s) ob) = sint (PointerCount (header s ob)) \<and> references (refs s) ob > 0"
    if "phases s ob = Live" for ob
  proof -
    have "references (refs s) ob = unat (PointerCount (header s ob))" "PointerCount (header s ob) \<noteq> 0"
      using r that by (simp_all add: ref_inv_def)
    then show ?thesis
      using sint_small [of "PointerCount (header s ob)"] references_le [of "refs s" ob] assms(2)
      by (auto simp: unat_gt_0)
  qed
  have slot: "phases s (managed (Object s q)) = Live" if "managed (Object s q) \<noteq> 0" for q
    using ref_in_slot [OF r refl that] live by blast
  have del: "(\<forall>w. (w, ob) \<notin># refs s) \<and> ob \<notin> set (KphpDeferDeleteObjectList s) \<and> ob \<notin> set es \<and>
       (\<forall>u. u \<noteq> t \<longrightarrow> ob \<notin> set (dying (pcs s u)))" if t: "pcs s t = Deleting ob es" for t ob es
  proof -
    have mem: "ob \<in> set (dying (pcs s t))" by (simp add: t)
    then have "phases s ob = Dying" using d unfolding dying_inv_def by blast
    then have "\<forall>w. (w, ob) \<notin># refs s" using live by fastforce
    moreover have "ob \<notin> set (KphpDeferDeleteObjectList s)" "\<forall>u. u \<noteq> t \<longrightarrow> ob \<notin> set (dying (pcs s u))"
      using d mem unfolding dying_inv_def by blast+
    moreover have "distinct (dying (pcs s t))" using d unfolding dying_inv_def by blast
    ultimately show ?thesis by (simp add: t)
  qed
  show ?thesis
    using live cnt slot del touches_allocated [OF inv] asserted_reach [OF inv assms(2)] by blast
qed

lemma worker_loop:
  "pcs s t = next_entry es \<Longrightarrow>
   \<exists>s'. object_run (replicate (2 * length es) (Run t True)) s = Some s' \<and>
     (\<forall>ob. phases s' ob = (if ob \<in> set es then Absent else phases s ob))"
proof (induction es arbitrary: s)
  case (Cons e es)
  define s1 where "s1 = uncount_object t (TypeIndex (header s e)) es (delete_object t e es s)"
  have pc: "pcs s t = Deleting e es" using Cons.prems by (simp add: next_entry_def)
  have two: "object_run (Run t True # Run t True # es') s = object_run es' s1" for es'
    by (simp add: pc s1_def delete_object_def)
  have "pcs s1 t = next_entry es" "\<And>ob. phases s1 ob = (if ob = e then Absent else phases s ob)"
    by (simp_all add: s1_def uncount_object_def delete_object_def)
  with Cons.IH [of s1] obtain s' where "object_run (replicate (2 * length es) (Run t True)) s1 = Some s'"
    "\<And>ob. phases s' ob = (if ob \<in> set es then Absent else if ob = e then Absent else phases s ob)"
    by auto
  then show ?case using two by (intro exI [of _ s']) auto
qed simp

lemma object_run_append: "object_run (es @ es') s = object_run es s \<bind> object_run es'"
  by (induction es arbitrary: s) (auto simp: bind_assoc split: bind_splits)

text \<open>From \<open>s0\<close> the objects in \<open>L\<close> can be deleted in \<open>n\<close> steps and two for each of them.\<close>

definition works_off where
  "works_off L n s0 \<longleftrightarrow>
     (\<exists>es s'. object_run es s0 = Some s' \<and> length es \<le> n + 2 * length L \<and>
        (\<forall>e \<in> set es. \<forall>t k. e \<noteq> Call t k) \<and> (\<forall>ob \<in> set L. phases s' ob = Absent))"

lemma works_off_step:
  assumes "object_step e s0 = Some s1" "works_off L n s1" "\<And>t k. e \<noteq> Call t k"
  shows "works_off L (Suc n) s0"
proof -
  obtain es s' where "object_run es s1 = Some s'" "length es \<le> n + 2 * length L"
    "\<forall>e \<in> set es. \<forall>t k. e \<noteq> Call t k" "\<forall>ob \<in> set L. phases s' ob = Absent"
    using assms(2) unfolding works_off_def by blast
  then show ?thesis using assms(1,3) unfolding works_off_def by (intro exI [of _ "e # es"] exI [of _ s']) simp
qed

lemma works_off_more: "works_off L n s0 \<Longrightarrow> n \<le> m \<Longrightarrow> works_off L m s0"
  unfolding works_off_def by force

lemma flush_works_off:
  assumes "pcs s0 t = Flush"
  shows "works_off (KphpDeferDeleteObjectList s0) 1 s0"
proof -
  have "pcs (KphpDeferDeleteObjectWorker t s0) t = next_entry (KphpDeferDeleteObjectList s0)"
    by (simp add: KphpDeferDeleteObjectWorker_def)
  from worker_loop [OF this]
  have "works_off (KphpDeferDeleteObjectList s0) 0 (KphpDeferDeleteObjectWorker t s0)"
    unfolding works_off_def by (metis add_0 event.distinct(1) in_set_replicate length_replicate order_refl)
  then show ?thesis using works_off_step [of "Run t True" s0 _ _ 0] assms by simp
qed

lemma work_item_works_off:
  assumes "work_items s0 > 0" "finite (busy s0)"
  shows "works_off (KphpDeferDeleteObjectList s0) 2 s0"
proof -
  obtain u where u: "pcs s0 u = Idle"
    using ex_new_if_finite [OF infinite_UNIV_nat assms(2)] by (auto simp: busy_def)
  let ?s = "goto u Flush (s0\<lparr> work_items := work_items s0 - 1 \<rparr>)"
  have "works_off (KphpDeferDeleteObjectList ?s) 1 ?s" by (rule flush_works_off [of _ u]) simp
  then show ?thesis using works_off_step [of "StartWorker u" s0 ?s _ 1] u assms(1) by (simp add: numeral_2_eq_2)
qed

lemma dpc_works_off:
  assumes "dpcs s > 0" "finite (busy s)"
  shows "works_off (KphpDeferDeleteObjectList s) 3 s"
proof -
  let ?s = "s\<lparr> dpcs := dpcs s - 1, work_items := work_items s + 1 \<rparr>"
  have "works_off (KphpDeferDeleteObjectList ?s) 2 ?s"
    by (rule work_item_works_off) (use assms(2) in \<open>simp_all add: busy_def\<close>)
  then show ?thesis using works_off_step [of FireDpc s ?s _ 2] assms(1) by (simp add: numeral_eq_Suc)
qed

lemma duty_works_off:
  assumes "on_duty (pcs s t)" "finite (busy s)"
  shows "works_off (KphpDeferDeleteObjectList s) 3 s"
proof -
  consider "pcs s t = Schedule" | "pcs s t = Flush" using assms(1) by (cases "pcs s t") auto
  then show ?thesis
  proof cases
    case 1
    let ?s = "schedule_worker t True s"
    have "finite (busy ?s)"
      by (rule finite_busy [OF assms(2), of _ t Idle]) (simp add: schedule_worker_def)
    then have "works_off (KphpDeferDeleteObjectList ?s) 2 ?s"
      by (intro work_item_works_off) (simp_all add: schedule_worker_def)
    then show ?thesis
      using works_off_step [of "Run t True" s ?s _ 2] 1 by (simp add: numeral_eq_Suc schedule_worker_def)
  next
    case 2
    then show ?thesis using flush_works_off [OF 2] works_off_more [of _ 1 s 3] by simp
  qed
qed

text \<open>
  C18: No deferred deletion is forgotten. In every reachable state in which objects wait in the
  list, exactly one of the threads that push to it, the DPC, the work item and the worker has the
  duty to empty it, so the work item is never queued twice; and whatever the state, the list can be
  worked off: a run of at most three steps up to the worker and two for each object, none by a
  thread that does something else, deletes every object that waits.
\<close>

theorem deferred_deletion:
  assumes "object_reach s" "KphpDeferDeleteObjectList s \<noteq> []"
  shows "number on_duty s + dpcs s + work_items s = 1 \<and>
    (\<exists>es s'. object_run es s = Some s' \<and> length es \<le> 3 + 2 * length (KphpDeferDeleteObjectList s) \<and>
       (\<forall>e \<in> set es. \<forall>t k. e \<noteq> Call t k) \<and>
       (\<forall>ob \<in> set (KphpDeferDeleteObjectList s). phases s' ob = Absent))"
proof -
  have inv: "duty_inv s" using object_reach_inv [OF assms(1)] by (simp add: object_inv_def)
  then have one: "number on_duty s + dpcs s + work_items s = 1" and fin: "finite (busy s)"
    using assms(2) by (simp_all add: duty_inv_def)
  have "work_items s > 0 \<or> dpcs s > 0 \<or> (\<exists>t. on_duty (pcs s t))"
  proof (rule ccontr)
    assume "\<not> ?thesis"
    then show False using one by (simp add: number_def)
  qed
  then have "works_off (KphpDeferDeleteObjectList s) 3 s"
    using work_item_works_off [OF _ fin] works_off_more [of _ 2 s 3] dpc_works_off [OF _ fin] duty_works_off [OF _ fin]
    by (elim disjE exE) auto
  then show ?thesis using one by (simp add: works_off_def)
qed

text \<open>
  Thread 1 creates an object of a type with deferred deletion and moves its reference into slot 0.
  Thread 2 takes the lock of the slot to reference the object, thread 1 begins to clear the slot and
  has to wait for it; both drop their references, and the worker deletes the object.
\<close>

definition example_types :: "u8 \<Rightarrow> KPH_OBJECT_TYPE" where
  "example_types i = \<lparr> DeferDelete = True, TotalNumberOfObjects = 0, HighWaterNumberOfObjects = 0 \<rparr>"

definition example_start :: OBJECTS where
  "example_start = init_objects example_types (\<lambda>ob. \<lparr> PointerCount = 0, TypeIndex = 0 \<rparr>)"

definition example_events :: "event list" where
  "example_events =
     [Call 1 (Create 0x1000 0 True STATUS_SUCCESS), Run 1 True, Run 1 True,
      Call 1 (AtomicMove 0 0x1000), Run 1 True, Run 1 True, Run 1 True, Run 1 True, Run 1 True,
      Call 2 (AtomicReference 0), Run 2 True,
      Call 1 (AtomicAssign 0 0), Run 1 True, Run 1 True, Run 1 True,
      Run 2 True, Run 2 True, Run 2 True,
      Run 1 True, Run 1 True, Run 1 True, Run 1 True, Run 1 True,
      Call 2 (Dereference 0x1000 False), Run 2 True, Run 2 True]"

lemma example_reach:
  assumes "object_run es example_start = Some s" "length es < 100"
  shows "object_reach s"
proof (rule object_run_reach [OF _ assms(1)])
  show "object_reach example_start" unfolding example_start_def by (rule object_reach.init)
  show "size (refs example_start) + length es < 2 ^ 63"
    using assms(2) by (simp add: example_start_def init_objects_def)
qed

theorem objects_never_dangle_witness:
  "\<exists>s. object_run (take 18 example_events) example_start = Some s \<and> pcs s 2 = Idle \<and>
     phases s 0x1000 = Live \<and> sint (PointerCount (header s 0x1000)) = 2"
proof -
  have run: "object_run (take 18 example_events) example_start \<noteq> None" by code_simp
  then obtain s where s: "object_run (take 18 example_events) example_start = Some s" by blast
  have "pcs (the (object_run (take 18 example_events) example_start)) 2 = Idle \<and>
     references (refs (the (object_run (take 18 example_events) example_start))) 0x1000 = 2 \<and>
     (OfThread 2, 0x1000) \<in># refs (the (object_run (take 18 example_events) example_start)) \<and>
     size (refs (the (object_run (take 18 example_events) example_start))) = 2"
    by code_simp
  then have st: "pcs s 2 = Idle" "references (refs s) 0x1000 = 2" "(OfThread 2, 0x1000) \<in># refs s"
    "size (refs s) = 2"
    by (simp_all add: s)
  have "object_reach s" by (rule example_reach [OF s]) (simp add: example_events_def)
  note T = objects_never_dangle [OF this, unfolded st(4), simplified]
  have live: "phases s 0x1000 = Live" using T st(3) by blast
  then have "int (references (refs s) 0x1000) = sint (PointerCount (header s 0x1000))" using T by blast
  then show ?thesis using s st(1,2) live by simp
qed

theorem deferred_deletion_witness:
  "\<exists>s es s'. object_run example_events example_start = Some s \<and>
     KphpDeferDeleteObjectList s = [0x1000] \<and> object_run es s = Some s' \<and> phases s' 0x1000 = Absent"
proof -
  have run: "object_run example_events example_start \<noteq> None" by code_simp
  then obtain s where s: "object_run example_events example_start = Some s" by blast
  have "KphpDeferDeleteObjectList (the (object_run example_events example_start)) = [0x1000]" by code_simp
  then have l: "KphpDeferDeleteObjectList s = [0x1000]" by (simp add: s)
  have "object_reach s" by (rule example_reach [OF s]) (simp add: example_events_def)
  from deferred_deletion [OF this] s l show ?thesis by auto
qed

end
