(* ===== verification/Base64.thy ===== *)
theory Base64
  imports TE_Prelude
begin

unbundle bit_operations_syntax

text \<open>
  Base64, ProcessHacker/phlib/base64.c: the encoder with its vector loop and its scalar loops, and the
  decoder. Input and output are arrays of bytes, lists here; a read or a write outside an array has
  the result None. An array in memory is shorter than 2^63 bytes, so indexes are natural numbers that
  do not wrap; the lengths that are computed and compared are words. \<open>PhHasSSSE3\<close> is an argument.
\<close>

section \<open>The vector instructions\<close>

text \<open>
  A register of 128 bits is the list of its 16 bytes, the lowest first, and its 16-bit lanes are
  pairs of bytes.
\<close>

type_synonym m128 = "u8 list"

definition lane16 :: "u8 \<Rightarrow> u8 \<Rightarrow> u16" where
  "lane16 lo hi = ucast lo OR push_bit 8 (ucast hi)"

fun map16 :: "(u16 \<Rightarrow> u16 \<Rightarrow> u16) \<Rightarrow> m128 \<Rightarrow> m128 \<Rightarrow> m128" where
  "map16 f (a # a' # as) (b # b' # bs) =
     (let r = f (lane16 a a') (lane16 b b') in ucast r # ucast (drop_bit 8 r) # map16 f as bs)"
| "map16 f _ _ = []"

definition mm_set1_epi8 :: "u8 \<Rightarrow> m128" where
  "mm_set1_epi8 v = replicate 16 v"

definition mm_set1_epi32 :: "u32 \<Rightarrow> m128" where
  "mm_set1_epi32 v =
     concat (replicate 4 [ucast v, ucast (drop_bit 8 v), ucast (drop_bit 16 v), ucast (drop_bit 24 v)])"

definition mm_shuffle_epi8 :: "m128 \<Rightarrow> m128 \<Rightarrow> m128" where
  "mm_shuffle_epi8 a m = map (\<lambda>i. if bit i 7 then 0 else a ! unat (i AND 15)) m"

definition mm_and_si128 :: "m128 \<Rightarrow> m128 \<Rightarrow> m128" where "mm_and_si128 = map2 (AND)"
definition mm_or_si128 :: "m128 \<Rightarrow> m128 \<Rightarrow> m128" where "mm_or_si128 = map2 (OR)"

definition mm_mulhi_epu16 :: "m128 \<Rightarrow> m128 \<Rightarrow> m128" where
  "mm_mulhi_epu16 = map16 (\<lambda>x y. ucast (drop_bit 16 (ucast x * ucast y :: u32)))"

definition mm_mullo_epi16 :: "m128 \<Rightarrow> m128 \<Rightarrow> m128" where
  "mm_mullo_epi16 = map16 (*)"

definition mm_cmpgt_epi8 :: "m128 \<Rightarrow> m128 \<Rightarrow> m128" where
  "mm_cmpgt_epi8 = map2 (\<lambda>a b. if b <s a then 0xff else 0)"

definition mm_subs_epu8 :: "m128 \<Rightarrow> m128 \<Rightarrow> m128" where
  "mm_subs_epu8 = map2 (\<lambda>a b. if a < b then 0 else a - b)"

definition mm_sub_epi8 :: "m128 \<Rightarrow> m128 \<Rightarrow> m128" where "mm_sub_epi8 = map2 (-)"
definition mm_add_epi8 :: "m128 \<Rightarrow> m128 \<Rightarrow> m128" where "mm_add_epi8 = map2 (+)"

section \<open>The encoder\<close>

definition PhBase64EncodeTable :: "u8 list" where
  "PhBase64EncodeTable = map of_char
     ''ABCDEFGHIJKLMNOPQRSTUVWXYZabcdefghijklmnopqrstuvwxyz0123456789+/''"

definition block_lut :: m128 where
  "block_lut = [65, 71, -4, -4, -4, -4, -4, -4, -4, -4, -4, -4, -19, -16, 0, 0]"

text \<open>The indices of six bits, one in each byte of the result.\<close>

definition block_indices :: "m128 \<Rightarrow> m128" where
  "block_indices Input =
     (let inp = mm_shuffle_epi8 Input [1, 0, 2, 1, 4, 3, 5, 4, 7, 6, 8, 7, 10, 9, 11, 10];
          t0 = mm_and_si128 inp (mm_set1_epi32 0x0fc0fc00);
          t1 = mm_mulhi_epu16 t0 (mm_set1_epi32 0x04000040);
          t2 = mm_and_si128 inp (mm_set1_epi32 0x003f03f0);
          t3 = mm_mullo_epi16 t2 (mm_set1_epi32 0x01000010)
      in mm_or_si128 t1 t3)"

definition block_translate :: "m128 \<Rightarrow> m128" where
  "block_translate indices =
     (let mk = mm_cmpgt_epi8 indices (mm_set1_epi8 25);
          t0 = mm_subs_epu8 indices (mm_set1_epi8 51);
          t0 = mm_sub_epi8 t0 mk
      in mm_add_epi8 indices (mm_shuffle_epi8 block_lut t0))"

definition PhpBase64EncodeBlock :: "m128 \<Rightarrow> m128" where
  "PhpBase64EncodeBlock Input = block_translate (block_indices Input)"

definition store_at :: "u8 list \<Rightarrow> nat \<Rightarrow> u8 list \<Rightarrow> u8 list option" where
  "store_at out k bs =
     (if k + length bs \<le> length out then Some (take k out @ bs @ drop (k + length bs) out) else None)"

text \<open>A read of \<open>n\<close> bytes of the input, at once or one after the other.\<close>

definition load_at :: "u8 list \<Rightarrow> nat \<Rightarrow> nat \<Rightarrow> u8 list option" where
  "load_at Input i n = (if i + n \<le> length Input then Some (take n (drop i Input)) else None)"

function encode_blocks :: "u8 list \<Rightarrow> nat \<Rightarrow> nat \<Rightarrow> u8 list \<Rightarrow> (nat \<times> nat \<times> u8 list) option" where
  "encode_blocks Input inputIndex outputIndex Output =
     (if inputIndex + 16 \<le> length Input
      then case load_at Input inputIndex 16 of
             None \<Rightarrow> None
           | Some block \<Rightarrow> (case store_at Output outputIndex (PhpBase64EncodeBlock block) of
               None \<Rightarrow> None
             | Some out \<Rightarrow> encode_blocks Input (inputIndex + 12) (outputIndex + 16) out)
      else Some (inputIndex, outputIndex, Output))"
  by pat_completeness auto
termination by (relation "measure (\<lambda>(inp, i, _). length inp - i)") auto

definition table_char :: "u32 \<Rightarrow> nat \<Rightarrow> u8" where
  "table_char v s = PhBase64EncodeTable ! unat (drop_bit s v AND 0x3f)"

definition triple_value :: "u8 \<Rightarrow> u8 \<Rightarrow> u8 \<Rightarrow> u32" where
  "triple_value a b c = push_bit 16 (ucast a) OR push_bit 8 (ucast b) OR ucast c"

function encode_triples :: "u8 list \<Rightarrow> nat \<Rightarrow> nat \<Rightarrow> u8 list \<Rightarrow> (nat \<times> nat \<times> u8 list) option" where
  "encode_triples Input inputIndex outputIndex Output =
     (if inputIndex + 3 \<le> length Input
      then case load_at Input inputIndex 3 of
             Some [a, b, c] \<Rightarrow>
               (let v = triple_value a b c in
                case store_at Output outputIndex [table_char v 18, table_char v 12, table_char v 6, table_char v 0] of
                  None \<Rightarrow> None
                | Some out \<Rightarrow> encode_triples Input (inputIndex + 3) (outputIndex + 4) out)
           | _ \<Rightarrow> None
      else Some (inputIndex, outputIndex, Output))"
  by pat_completeness auto
termination by (relation "measure (\<lambda>(inp, i, _). length inp - i)") auto

declare encode_blocks.simps [simp del] encode_triples.simps [simp del]

abbreviation equals_sign :: u8 where "equals_sign \<equiv> 61"

definition encode_rest :: "u8 list \<Rightarrow> nat \<Rightarrow> u8 list option" where
  "encode_rest Input inputIndex =
     (if inputIndex < length Input
      then case load_at Input inputIndex 1 of
             Some [a] \<Rightarrow>
               (if inputIndex + 1 < length Input
                then case load_at Input (inputIndex + 1) 1 of
                       Some [b] \<Rightarrow>
                         (let v = triple_value a b 0 in
                          Some [table_char v 18, table_char v 12, table_char v 6, equals_sign])
                     | _ \<Rightarrow> None
                else let v = triple_value a 0 0 in
                  Some [table_char v 18, table_char v 12, equals_sign, equals_sign])
           | _ \<Rightarrow> None
      else Some [])"

text \<open>The result: TRUE or FALSE, what the output array holds, and what ResultLength receives.\<close>

definition PhBase64Encode :: "bool \<Rightarrow> u8 list \<Rightarrow> u8 list \<Rightarrow> (bool \<times> u8 list \<times> nat) option" where
  "PhBase64Encode PhHasSSSE3 Input Output =
     (if of_nat (length Output) < (of_nat (length Input) + 2) div 3 * 4 + (1 :: u64)
      then Some (False, Output, 0)
      else case (if PhHasSSSE3 then encode_blocks Input 0 0 Output else Some (0, 0, Output)) of
        None \<Rightarrow> None
      | Some (i, k, out) \<Rightarrow> (case encode_triples Input i k out of
          None \<Rightarrow> None
        | Some (i, k, out) \<Rightarrow> (case encode_rest Input i of
            None \<Rightarrow> None
          | Some rest \<Rightarrow> (case store_at out k rest of
              None \<Rightarrow> None
            | Some out \<Rightarrow>
                (let k = k + length rest in
                 case store_at out k [0] of None \<Rightarrow> None | Some out \<Rightarrow> Some (True, out, k))))))"

section \<open>The decoder\<close>

definition PhBase64DecodeTable :: "u8 list" where
  "PhBase64DecodeTable = [
     0xff, 0xff, 0xff, 0xff, 0xff, 0xff, 0xff, 0xff, 0xff, 0xff, 0xff, 0xff, 0xff, 0xff, 0xff, 0xff,
     0xff, 0xff, 0xff, 0xff, 0xff, 0xff, 0xff, 0xff, 0xff, 0xff, 0xff, 0xff, 0xff, 0xff, 0xff, 0xff,
     0xff, 0xff, 0xff, 0xff, 0xff, 0xff, 0xff, 0xff, 0xff, 0xff, 0xff, 62, 0xff, 0xff, 0xff, 63,
     52, 53, 54, 55, 56, 57, 58, 59, 60, 61, 0xff, 0xff, 0xff, 0xfe, 0xff, 0xff,
     0xff, 0, 1, 2, 3, 4, 5, 6, 7, 8, 9, 10, 11, 12, 13, 14,
     15, 16, 17, 18, 19, 20, 21, 22, 23, 24, 25, 0xff, 0xff, 0xff, 0xff, 0xff,
     0xff, 26, 27, 28, 29, 30, 31, 32, 33, 34, 35, 36, 37, 38, 39, 40,
     41, 42, 43, 44, 45, 46, 47, 48, 49, 50, 51, 0xff, 0xff, 0xff, 0xff, 0xff,
     0xff, 0xff, 0xff, 0xff, 0xff, 0xff, 0xff, 0xff, 0xff, 0xff, 0xff, 0xff, 0xff, 0xff, 0xff, 0xff,
     0xff, 0xff, 0xff, 0xff, 0xff, 0xff, 0xff, 0xff, 0xff, 0xff, 0xff, 0xff, 0xff, 0xff, 0xff, 0xff,
     0xff, 0xff, 0xff, 0xff, 0xff, 0xff, 0xff, 0xff, 0xff, 0xff, 0xff, 0xff, 0xff, 0xff, 0xff, 0xff,
     0xff, 0xff, 0xff, 0xff, 0xff, 0xff, 0xff, 0xff, 0xff, 0xff, 0xff, 0xff, 0xff, 0xff, 0xff, 0xff,
     0xff, 0xff, 0xff, 0xff, 0xff, 0xff, 0xff, 0xff, 0xff, 0xff, 0xff, 0xff, 0xff, 0xff, 0xff, 0xff,
     0xff, 0xff, 0xff, 0xff, 0xff, 0xff, 0xff, 0xff, 0xff, 0xff, 0xff, 0xff, 0xff, 0xff, 0xff, 0xff,
     0xff, 0xff, 0xff, 0xff, 0xff, 0xff, 0xff, 0xff, 0xff, 0xff, 0xff, 0xff, 0xff, 0xff, 0xff, 0xff,
     0xff, 0xff, 0xff, 0xff, 0xff, 0xff, 0xff, 0xff, 0xff, 0xff, 0xff, 0xff, 0xff, 0xff, 0xff, 0xff]"

definition PhBase64IsWhitespace :: "u8 \<Rightarrow> bool" where
  "PhBase64IsWhitespace Value \<longleftrightarrow> Value = 32 \<or> Value = 9 \<or> Value = 13 \<or> Value = 10"

abbreviation decoded :: "u8 \<Rightarrow> u8" where
  "decoded c \<equiv> PhBase64DecodeTable ! unat c"

abbreviation no_digit :: "u8 \<Rightarrow> bool" where
  "no_digit d \<equiv> d = 0xff \<or> d = 0xfe"

text \<open>The space that is left, as the unsigned subtraction gives it.\<close>

definition space_left :: "u8 list \<Rightarrow> nat \<Rightarrow> u64" where
  "space_left Output outputIndex = of_nat (length Output) - of_nat outputIndex"

record DECODER =
  outputBytes :: "u8 list"
  outputIndex :: nat
  quartet :: "u8 list"
  seenPadding :: bool

text \<open>A step gives FALSE when the routine returns FALSE there, with the state it has reached.\<close>

definition emit :: "u8 list \<Rightarrow> bool \<Rightarrow> DECODER \<Rightarrow> (bool \<times> DECODER) option" where
  "emit bs pad d =
     (if space_left (outputBytes d) (outputIndex d) < of_nat (length bs) then Some (False, d)
      else case store_at (outputBytes d) (outputIndex d) bs of
        None \<Rightarrow> None
      | Some out \<Rightarrow> Some (True, \<lparr> outputBytes = out, outputIndex = outputIndex d + length bs, quartet = [],
                               seenPadding = pad \<or> seenPadding d \<rparr>))"

definition decode_quartet :: "u8 \<Rightarrow> u8 \<Rightarrow> u8 \<Rightarrow> u8 \<Rightarrow> DECODER \<Rightarrow> (bool \<times> DECODER) option" where
  "decode_quartet q0 q1 q2 q3 d =
     (if q0 = equals_sign \<or> q1 = equals_sign then Some (False, d)
      else let d0 = decoded q0; d1 = decoded q1; d2 = decoded q2; d3 = decoded q3 in
        if no_digit d0 \<or> no_digit d1 then Some (False, d)
        else if q2 = equals_sign then
          if q3 \<noteq> equals_sign then Some (False, d)
          else emit [push_bit 2 d0 OR drop_bit 4 d1] True d
        else if q3 = equals_sign then
          if no_digit d2 then Some (False, d)
          else emit [push_bit 2 d0 OR drop_bit 4 d1, push_bit 4 d1 OR drop_bit 2 d2] True d
        else if no_digit d2 \<or> no_digit d3 then Some (False, d)
        else emit [push_bit 2 d0 OR drop_bit 4 d1, push_bit 4 d1 OR drop_bit 2 d2,
                   push_bit 6 d2 OR d3] False d)"

definition decode_char :: "u8 \<Rightarrow> DECODER \<Rightarrow> (bool \<times> DECODER) option" where
  "decode_char c d =
     (if PhBase64IsWhitespace c then Some (True, d)
      else if seenPadding d then Some (False, d)
      else case quartet d of
        [q0, q1, q2] \<Rightarrow> decode_quartet q0 q1 q2 c d
      | qs \<Rightarrow> Some (True, d\<lparr> quartet := qs @ [c] \<rparr>))"

fun decode_chars :: "u8 list \<Rightarrow> DECODER \<Rightarrow> (bool \<times> DECODER) option" where
  "decode_chars [] d = Some (True, d)"
| "decode_chars (c # cs) d =
     (case decode_char c d of Some (True, e) \<Rightarrow> decode_chars cs e | r \<Rightarrow> r)"

text \<open>The result: TRUE or FALSE, what the output array holds, and what ResultLength receives.\<close>

definition decoder_start :: "u8 list \<Rightarrow> DECODER" where
  "decoder_start Output = \<lparr> outputBytes = Output, outputIndex = 0, quartet = [], seenPadding = False \<rparr>"

definition PhBase64Decode :: "u8 list \<Rightarrow> u8 list \<Rightarrow> (bool \<times> u8 list \<times> nat) option" where
  "PhBase64Decode Input Output =
     (case decode_chars Input (decoder_start Output) of
        None \<Rightarrow> None
      | Some (ok, d) \<Rightarrow>
          Some (if ok \<and> quartet d = [] then (True, outputBytes d, outputIndex d)
                else (False, outputBytes d, 0)))"

section \<open>What base64 is\<close>

text \<open>
  RFC 4648: the bits of the octets, in groups of six from the left, the last group filled with zeros,
  as characters of the alphabet, and padding to a multiple of four characters.
\<close>

definition octet_bits :: "u8 \<Rightarrow> bool list" where
  "octet_bits b = map (bit b) [7, 6, 5, 4, 3, 2, 1, 0]"

definition bits_value :: "bool list \<Rightarrow> nat" where
  "bits_value bs = horner_sum of_bool 2 (rev bs)"

function sextets :: "bool list \<Rightarrow> nat list" where
  "sextets bs = (if bs = [] then [] else bits_value (take 6 (bs @ replicate 5 False)) # sextets (drop 6 bs))"
  by pat_completeness auto
termination by (relation "measure length") auto

declare sextets.simps [simp del]

definition base64 :: "u8 list \<Rightarrow> u8 list" where
  "base64 xs = map ((!) PhBase64EncodeTable) (sextets (concat (map octet_bits xs))) @
               replicate ((3 - length xs mod 3) mod 3) equals_sign"

section \<open>Lemmas\<close>

lemma sextets_Nil [simp]: "sextets [] = []"
  by (simp add: sextets.simps)

lemma sextets_6 [simp]:
  "sextets (a # b # c # d # e # f # bs) = bits_value [a, b, c, d, e, f] # sextets bs"
  by (subst sextets.simps) simp

lemma sextets_4 [simp]: "sextets [a, b, c, d] = [bits_value [a, b, c, d, False, False]]"
  by (simp add: sextets.simps numeral_eq_Suc)

lemma sextets_2 [simp]: "sextets [a, b] = [bits_value [a, b, False, False, False, False]]"
  by (simp add: sextets.simps numeral_eq_Suc)

lemma bits_value_word:
  "bits_value [bit x 5, bit x 4, bit x 3, bit x 2, bit x 1, bit x 0] = unat (x AND 0x3f)"
  for x :: u32
proof -
  have "rev [bit x 5, bit x 4, bit x 3, bit x 2, bit x 1, bit x 0] = map (bit x) [0, 1, 2, 3, 4, 5]" by simp
  also have "[0, 1, 2, 3, 4, 5] = [0..<6 :: nat]" by code_simp
  also have "map (bit x) [0..<6] = map (bit (unat x)) [0..<6]"
    by (simp add: bit_unsigned_iff)
  finally have "bits_value [bit x 5, bit x 4, bit x 3, bit x 2, bit x 1, bit x 0] = take_bit 6 (unat x)"
    by (simp only: bits_value_def horner_sum_bit_eq_take_bit)
  also have "\<dots> = unat (take_bit 6 x)" by (simp add: unsigned_take_bit_eq)
  also have "take_bit 6 x = x AND 0x3f" by (simp add: take_bit_eq_mask mask_eq_exp_minus_1)
  finally show ?thesis .
qed

lemma table_char_bits:
  "table_char v 18 = PhBase64EncodeTable ! bits_value [bit v 23, bit v 22, bit v 21, bit v 20, bit v 19, bit v 18]"
  "table_char v 12 = PhBase64EncodeTable ! bits_value [bit v 17, bit v 16, bit v 15, bit v 14, bit v 13, bit v 12]"
  "table_char v 6 = PhBase64EncodeTable ! bits_value [bit v 11, bit v 10, bit v 9, bit v 8, bit v 7, bit v 6]"
  "table_char v 0 = PhBase64EncodeTable ! bits_value [bit v 5, bit v 4, bit v 3, bit v 2, bit v 1, bit v 0]"
  using bits_value_word [of "drop_bit 18 v"] bits_value_word [of "drop_bit 12 v"]
    bits_value_word [of "drop_bit 6 v"] bits_value_word [of v]
  by (simp_all add: table_char_def bit_drop_bit_eq)

lemma bit_triple:
  "bit (triple_value a b c) n \<longleftrightarrow>
     (if n < 8 then bit c n else if n < 16 then bit b (n - 8) else n < 24 \<and> bit a (n - 16))"
  by (auto simp: triple_value_def bit_simps dest: bit_imp_le_length)

lemma replicate_2: "replicate 2 x = [x, x]"
  by (simp add: numeral_2_eq_2)

lemma base64_Nil [simp]: "base64 [] = []"
  by (simp add: base64_def)

lemma base64_triple:
  "base64 (a # b # c # xs) =
     [table_char (triple_value a b c) 18, table_char (triple_value a b c) 12,
      table_char (triple_value a b c) 6, table_char (triple_value a b c) 0] @ base64 xs"
  unfolding table_char_bits by (simp add: base64_def octet_bits_def bit_triple)

lemma base64_pair:
  "base64 [a, b] = (let v = triple_value a b 0 in [table_char v 18, table_char v 12, table_char v 6, equals_sign])"
  unfolding table_char_bits Let_def by (simp add: base64_def octet_bits_def bit_triple)

lemma base64_single:
  "base64 [a] = (let v = triple_value a 0 0 in [table_char v 18, table_char v 12, equals_sign, equals_sign])"
  unfolding table_char_bits Let_def by (simp add: base64_def octet_bits_def bit_triple replicate_2)

lemma base64_induct [case_names Nil single pair triple]:
  assumes "P []" "\<And>a. P [a]" "\<And>a b. P [a, b]" "\<And>a b c xs. P xs \<Longrightarrow> P (a # b # c # xs)"
  shows "P xs"
proof (induction xs rule: length_induct)
  case (1 xs)
  show ?case
  proof (cases xs rule: remdups_adj.cases)
    case (3 a b ys)
    then show ?thesis using 1 assms by (cases ys) auto
  qed (use assms in auto)
qed

lemma length_base64: "length (base64 xs) = (length xs + 2) div 3 * 4"
proof (induction xs rule: base64_induct)
  case (triple a b c xs)
  have "(length (a # b # c # xs) + 2) div 3 = Suc ((length xs + 2) div 3)" by simp
  with triple show ?case by (simp add: base64_triple)
qed (simp_all add: base64_single base64_pair Let_def)

subsection \<open>The vector loop\<close>

lemma times_64: "(w :: u32) * 64 = push_bit 6 w" by (simp add: push_bit_eq_mult)
lemma times_1024: "(w :: u32) * 1024 = push_bit 10 w" by (simp add: push_bit_eq_mult)
lemma times_16: "(w :: u16) * 16 = push_bit 4 w" by (simp add: push_bit_eq_mult)
lemma times_256: "(w :: u16) * 256 = push_bit 8 w" by (simp add: push_bit_eq_mult)

text \<open>The byte that the code makes of an index, and the four indices of a lane.\<close>

definition index_char :: "u8 \<Rightarrow> u8" where
  "index_char i =
     (let mk = if 25 <s i then 0xff else 0; t = (if i < 51 then 0 else i - 51) - mk
      in i + (if bit t 7 then 0 else block_lut ! unat (t AND 15)))"

lemma index_char_table: "\<forall>i \<in> set [0..<64]. index_char (of_nat i) = PhBase64EncodeTable ! i"
  by code_simp

definition sextet :: "u8 \<Rightarrow> u8 \<Rightarrow> u8 \<Rightarrow> nat \<Rightarrow> u8" where
  "sextet a b c s = ucast (drop_bit s (triple_value a b c) AND 0x3f)"

lemma index_char_sextet: "index_char (sextet a b c s) = table_char (triple_value a b c) s"
proof -
  let ?w = "drop_bit s (triple_value a b c) AND 0x3f"
  have w: "?w = take_bit 6 (drop_bit s (triple_value a b c))"
    by (simp add: take_bit_eq_mask mask_eq_exp_minus_1)
  have lt: "unat ?w < 64"
    unfolding w unsigned_take_bit_eq using take_bit_nat_less_exp [of 6] by simp
  have "index_char (of_nat (unat ?w)) = PhBase64EncodeTable ! unat ?w"
    using index_char_table lt by (simp del: of_nat_unat)
  then show ?thesis by (simp add: sextet_def table_char_def)
qed

lemma translate_list: "length xs = 16 \<Longrightarrow> block_translate xs = map index_char xs"
  by (simp add: block_translate_def index_char_def mm_cmpgt_epi8_def mm_subs_epu8_def mm_sub_epi8_def
      mm_add_epi8_def mm_shuffle_epi8_def mm_set1_epi8_def Let_def list_eq_iff_nth_eq)

definition lane_indices :: "u8 \<Rightarrow> u8 \<Rightarrow> u8 \<Rightarrow> m128" where
  "lane_indices a b c =
     (let x = lane16 0 (a AND 0xfc); y = lane16 (c AND 0xc0) (b AND 0x0f);
          x = ucast (drop_bit 16 (push_bit 6 (ucast x :: u32))) :: u16;
          y = ucast (drop_bit 16 (push_bit 10 (ucast y :: u32))) :: u16;
          u = push_bit 4 (lane16 (b AND 0xf0) (a AND 0x03)); v = push_bit 8 (lane16 (c AND 0x3f) 0)
      in [ucast x OR ucast u, ucast (drop_bit 8 x) OR ucast (drop_bit 8 u),
          ucast y OR ucast v, ucast (drop_bit 8 y) OR ucast (drop_bit 8 v)])"

lemma byte_eqI:
  assumes "\<And>n. n \<in> {0, 1, 2, 3, 4, 5, 6, 7} \<Longrightarrow> bit x n = bit y n"
  shows "x = (y :: u8)"
proof (rule bit_word_eqI)
  fix n assume "n < LENGTH(8)"
  then have "n \<in> {0, 1, 2, 3, 4, 5, 6, 7}" by (simp add: less_Suc_eq numeral_eq_Suc)
  then show "bit x n = bit y n" by (rule assms)
qed

lemma lane_indices:
  "lane_indices a b c = map (sextet a b c) [18, 12, 6, 0]"
  unfolding lane_indices_def Let_def sextet_def lane16_def
  by (simp, intro conjI; rule byte_eqI; elim insertE emptyE; simp add: bit_simps bit_triple)

lemma one_lane:
  "mm_or_si128
     (mm_mulhi_epu16 (mm_and_si128 (b # a # c # b # xs) (0 # 0xfc # 0xc0 # 0x0f # ms)) (0x40 # 0 # 0 # 4 # ns))
     (mm_mullo_epi16 (mm_and_si128 (b # a # c # b # xs) (0xf0 # 3 # 0x3f # 0 # us)) (0x10 # 0 # 0 # 1 # vs)) =
   lane_indices a b c @
     mm_or_si128 (mm_mulhi_epu16 (mm_and_si128 xs ms) ns) (mm_mullo_epi16 (mm_and_si128 xs us) vs)"
proof -
  have c: "lane16 0x40 0 = 64" "lane16 0 4 = 1024" "lane16 0x10 0 = 16" "lane16 0 1 = 256" by code_simp+
  show ?thesis
    by (simp add: lane_indices_def mm_and_si128_def mm_mulhi_epu16_def mm_mullo_epi16_def mm_or_si128_def Let_def
        c times_64 times_1024 times_16 times_256)
qed

lemma no_lane: "mm_or_si128 (mm_mulhi_epu16 xs []) (mm_mullo_epi16 ys []) = []"
  by (simp add: mm_or_si128_def mm_mulhi_epu16_def)

lemma block_masks:
  "mm_set1_epi32 0x0fc0fc00 =
     [0, 0xfc, 0xc0, 0x0f, 0, 0xfc, 0xc0, 0x0f, 0, 0xfc, 0xc0, 0x0f, 0, 0xfc, 0xc0, 0x0f]"
  "mm_set1_epi32 0x04000040 = [0x40, 0, 0, 4, 0x40, 0, 0, 4, 0x40, 0, 0, 4, 0x40, 0, 0, 4]"
  "mm_set1_epi32 0x003f03f0 =
     [0xf0, 3, 0x3f, 0, 0xf0, 3, 0x3f, 0, 0xf0, 3, 0x3f, 0, 0xf0, 3, 0x3f, 0]"
  "mm_set1_epi32 0x01000010 = [0x10, 0, 0, 1, 0x10, 0, 0, 1, 0x10, 0, 0, 1, 0x10, 0, 0, 1]"
  by code_simp+

lemma block_shuffle:
  "mm_shuffle_epi8 [b0, b1, b2, b3, b4, b5, b6, b7, b8, b9, b10, b11, b12, b13, b14, b15]
     [1, 0, 2, 1, 4, 3, 5, 4, 7, 6, 8, 7, 10, 9, 11, 10] =
   [b1, b0, b2, b1, b4, b3, b5, b4, b7, b6, b8, b7, b10, b9, b11, b10]"
  by (simp add: mm_shuffle_epi8_def)

lemma encode_block_list:
  "PhpBase64EncodeBlock [b0, b1, b2, b3, b4, b5, b6, b7, b8, b9, b10, b11, b12, b13, b14, b15] =
   base64 [b0, b1, b2, b3, b4, b5, b6, b7, b8, b9, b10, b11]" (is "PhpBase64EncodeBlock ?xs = _")
proof -
  have "block_indices ?xs =
    lane_indices b0 b1 b2 @ lane_indices b3 b4 b5 @ lane_indices b6 b7 b8 @ lane_indices b9 b10 b11"
    unfolding block_indices_def Let_def block_shuffle block_masks one_lane no_lane append_Nil2 ..
  then show ?thesis
    by (simp add: PhpBase64EncodeBlock_def translate_list lane_indices index_char_sextet base64_triple)
qed

subsection \<open>The loops\<close>

abbreviation stored :: "u8 list \<Rightarrow> nat \<Rightarrow> u8 list \<Rightarrow> u8 list" where
  "stored out k bs \<equiv> take k out @ bs @ drop (k + length bs) out"

lemma store_at_fits [simp]: "k + length bs \<le> length out \<Longrightarrow> store_at out k bs = Some (stored out k bs)"
  by (simp add: store_at_def)

lemma stored_stored:
  "k + length as + length bs \<le> length out \<Longrightarrow>
   stored (stored out k as) (k + length as) bs = stored out k (as @ bs)"
  by (cases "k = length out") (auto simp: min_def ac_simps)

lemma drop_3:
  "i + 3 \<le> length xs \<Longrightarrow> drop i xs = xs ! i # xs ! (i + 1) # xs ! (i + 2) # drop (i + 3) xs"
  by (simp add: Cons_nth_drop_Suc numeral_3_eq_3 numeral_2_eq_2)

text \<open>
  A loop consumes a part of the input, to \<open>i'\<close>, and has then stored its text \<open>w\<close>: what the text of
  the rest was before is that text and the text of what is left.
\<close>

definition encodes :: "u8 list \<Rightarrow> nat \<Rightarrow> nat \<Rightarrow> u8 list \<Rightarrow> (nat \<times> nat \<times> u8 list) option \<Rightarrow> bool" where
  "encodes inp i k out r \<longleftrightarrow>
     (\<exists>i' w. i' \<le> length inp \<and> r = Some (i', k + length w, stored out k w) \<and>
             base64 (drop i inp) = w @ base64 (drop i' inp))"

lemma encodes_refl: "i \<le> length inp \<Longrightarrow> encodes inp i k out (Some (i, k, out))"
  by (force simp: encodes_def)

lemma encodes_step:
  assumes room: "k + length (base64 (drop i inp)) \<le> length out"
    and head: "base64 (drop i inp) = bs @ base64 (drop j inp)"
    and rest: "encodes inp j (k + length bs) (stored out k bs) r"
  shows "encodes inp i k out r"
proof -
  obtain i' w where i': "i' \<le> length inp"
    and r: "r = Some (i', k + length bs + length w, stored (stored out k bs) (k + length bs) w)"
    and w: "base64 (drop j inp) = w @ base64 (drop i' inp)"
    using rest unfolding encodes_def by blast
  have len: "k + length bs + length w \<le> length out" using room head w by simp
  show ?thesis
    unfolding encodes_def
  proof (intro exI conjI)
    show "r = Some (i', k + length (bs @ w), stored out k (bs @ w))"
      unfolding r stored_stored [OF len] by (simp add: add.assoc)
  qed (use i' head w in auto)
qed

lemma load_at_fits [simp]: "i + n \<le> length inp \<Longrightarrow> load_at inp i n = Some (take n (drop i inp))"
  by (simp add: load_at_def)

lemma load_3:
  assumes "i + 3 \<le> length inp"
  shows "load_at inp i 3 = Some [inp ! i, inp ! (i + 1), inp ! (i + 2)]"
  using assms by (simp add: drop_3)

lemma encode_triples_encodes:
  "i \<le> length inp \<Longrightarrow> k + length (base64 (drop i inp)) \<le> length out \<Longrightarrow>
   encodes inp i k out (encode_triples inp i k out) \<and>
   (case encode_triples inp i k out of Some (i', _) \<Rightarrow> length inp < i' + 3 | None \<Rightarrow> True)"
proof (induction inp i k out rule: encode_triples.induct)
  case (1 inp i k out)
  show ?case
  proof (cases "i + 3 \<le> length inp")
    case True
    define v where "v = triple_value (inp ! i) (inp ! (i + 1)) (inp ! (i + 2))"
    define bs where "bs = [table_char v 18, table_char v 12, table_char v 6, table_char v 0]"
    have head: "base64 (drop i inp) = bs @ base64 (drop (i + 3) inp)"
      by (simp only: drop_3 [OF True] base64_triple bs_def v_def)
    have fits: "k + length bs \<le> length out" using 1(3) head by simp
    have l: "length bs = 4" by (simp add: bs_def)
    have st: "store_at out k [table_char v 18, table_char v 12, table_char v 6, table_char v 0] =
        Some (stored out k bs)"
      using store_at_fits [OF fits] unfolding bs_def .
    note ld = load_3 [OF True]
    have step: "encode_triples inp i k out = encode_triples inp (i + 3) (k + length bs) (stored out k bs)"
      by (subst encode_triples.simps)
        (simp only: True ld v_def [symmetric] Let_def l st option.case list.case if_True)
    have room: "k + length bs + length (base64 (drop (i + 3) inp)) \<le> length (stored out k bs)"
      using 1(3) head by simp
    have IH: "encodes inp (i + 3) (k + length bs) (stored out k bs)
        (encode_triples inp (i + 3) (k + length bs) (stored out k bs)) \<and>
      (case encode_triples inp (i + 3) (k + length bs) (stored out k bs) of
         Some (i', _) \<Rightarrow> length inp < i' + 3 | None \<Rightarrow> True)"
      using 1(1) [OF True ld refl refl refl refl v_def st] True room unfolding l by blast
    show ?thesis
      unfolding step using encodes_step [OF 1(3) head] IH by blast
  next
    case False
    then show ?thesis using 1(2) by (simp add: encode_triples.simps encodes_refl)
  qed
qed

lemma list_of_16:
  assumes "16 \<le> length xs"
  obtains b0 b1 b2 b3 b4 b5 b6 b7 b8 b9 b10 b11 b12 b13 b14 b15 ys where
    "xs = b0 # b1 # b2 # b3 # b4 # b5 # b6 # b7 # b8 # b9 # b10 # b11 # b12 # b13 # b14 # b15 # ys"
  using assms by (auto simp: numeral_eq_Suc Suc_le_length_iff)

lemma encode_block_base64:
  assumes "i + 16 \<le> length inp"
  shows "base64 (drop i inp) = PhpBase64EncodeBlock (take 16 (drop i inp)) @ base64 (drop (i + 12) inp)"
    and "length (PhpBase64EncodeBlock (take 16 (drop i inp))) = 16"
proof -
  have "16 \<le> length (drop i inp)" using assms by simp
  then obtain b0 b1 b2 b3 b4 b5 b6 b7 b8 b9 b10 b11 b12 b13 b14 b15 ys where
    x: "drop i inp = b0 # b1 # b2 # b3 # b4 # b5 # b6 # b7 # b8 # b9 # b10 # b11 # b12 # b13 # b14 # b15 # ys"
    by (rule list_of_16)
  have t: "take 16 (drop i inp) = [b0, b1, b2, b3, b4, b5, b6, b7, b8, b9, b10, b11, b12, b13, b14, b15]"
    unfolding x by simp
  have d: "drop (i + 12) inp = b12 # b13 # b14 # b15 # ys"
    using arg_cong [OF x, of "drop 12"] by (simp add: add.commute)
  show "base64 (drop i inp) = PhpBase64EncodeBlock (take 16 (drop i inp)) @ base64 (drop (i + 12) inp)"
    unfolding t d unfolding x encode_block_list by (simp add: base64_triple)
  show "length (PhpBase64EncodeBlock (take 16 (drop i inp))) = 16"
    unfolding t encode_block_list by (simp add: length_base64)
qed

lemma encode_blocks_encodes:
  "i \<le> length inp \<Longrightarrow> k + length (base64 (drop i inp)) \<le> length out \<Longrightarrow>
   encodes inp i k out (encode_blocks inp i k out)"
proof (induction inp i k out rule: encode_blocks.induct)
  case (1 inp i k out)
  show ?case
  proof (cases "i + 16 \<le> length inp")
    case True
    define bs where "bs = PhpBase64EncodeBlock (take 16 (drop i inp))"
    note head = encode_block_base64(1) [OF True, folded bs_def]
    have l: "length bs = 16" unfolding bs_def by (rule encode_block_base64(2) [OF True])
    have st: "store_at out k bs = Some (stored out k bs)" using 1(3) head by simp
    have step: "encode_blocks inp i k out = encode_blocks inp (i + 12) (k + length bs) (stored out k bs)"
      by (subst encode_blocks.simps)
        (simp only: True load_at_fits [OF True] bs_def [symmetric] l st option.case if_True)
    have room: "k + length bs + length (base64 (drop (i + 12) inp)) \<le> length (stored out k bs)"
      using 1(3) head by simp
    have "encodes inp (i + 12) (k + length bs) (stored out k bs)
        (encode_blocks inp (i + 12) (k + length bs) (stored out k bs))"
      using 1(1) [OF True load_at_fits [OF True] st [unfolded bs_def], folded bs_def] True room unfolding l by simp
    then show ?thesis unfolding step by (rule encodes_step [OF 1(3) head])
  next
    case False
    then show ?thesis using 1(2) by (simp add: encode_blocks.simps encodes_refl)
  qed
qed

lemma encode_rest_base64:
  assumes "i \<le> length inp" "length inp < i + 3"
  shows "encode_rest inp i = Some (base64 (drop i inp))"
proof -
  have "length (drop i inp) < 3" using assms by auto
  then consider "drop i inp = []" | a where "drop i inp = [a]" | a b where "drop i inp = [a, b]"
    by (auto simp: numeral_3_eq_3 less_Suc_eq length_Suc_conv simp del: length_drop drop_eq_Nil)
  then show ?thesis
  proof cases
    case 1
    then show ?thesis by (simp add: encode_rest_def)
  next
    case (2 a)
    then have "length inp = i + 1" using assms(1) by (auto dest: arg_cong [where f = length])
    then show ?thesis using 2 by (simp add: encode_rest_def base64_single Let_def)
  next
    case (3 a b)
    then have "length inp = i + 2" using assms(1) by (auto dest: arg_cong [where f = length])
    moreover have "drop (Suc i) inp = [b]" using arg_cong [OF 3, of "drop 1"] by simp
    ultimately show ?thesis using 3 by (simp add: encode_rest_def base64_pair Let_def)
  qed
qed

subsection \<open>The decoder\<close>

lemma decode_table: "map (\<lambda>c. decoded c) PhBase64EncodeTable = map of_nat [0..<64]"
  by code_simp

lemma encode_table_plain:
  "list_all (\<lambda>c. c \<noteq> equals_sign \<and> \<not> PhBase64IsWhitespace c) PhBase64EncodeTable"
  by code_simp

lemma length_encode_table [simp]: "length PhBase64EncodeTable = 64"
  by (simp add: PhBase64EncodeTable_def)

lemma sextet_below: "unat (drop_bit s w AND 0x3f :: u32) < 64"
proof -
  have "drop_bit s w AND 0x3f = take_bit 6 (drop_bit s w)" by (simp add: take_bit_eq_mask mask_eq_exp_minus_1)
  then show ?thesis using take_bit_nat_less_exp [of 6] by (simp only: unsigned_take_bit_eq) simp
qed

lemma table_char_decoded: "decoded (table_char (triple_value a b c) s) = sextet a b c s"
proof -
  let ?i = "unat (drop_bit s (triple_value a b c) AND 0x3f)"
  have "decoded (PhBase64EncodeTable ! ?i) = of_nat ?i"
    using arg_cong [OF decode_table, of "\<lambda>xs. xs ! ?i"] sextet_below by (simp del: of_nat_unat)
  then show ?thesis by (simp add: table_char_def sextet_def)
qed

lemma table_char_plain [simp]:
  "table_char v s \<noteq> equals_sign" "\<not> PhBase64IsWhitespace (table_char v s)"
  using encode_table_plain sextet_below [of s v] by (auto simp: table_char_def list_all_length)

lemma sextet_digit: "sextet a b c s \<noteq> 0xff" "sextet a b c s \<noteq> 0xfe"
proof -
  have "\<not> bit (sextet a b c s) 7" by (simp add: sextet_def bit_simps)
  moreover have "bit (0xff :: u8) 7" "bit (0xfe :: u8) 7" by code_simp+
  ultimately show "sextet a b c s \<noteq> 0xff" "sextet a b c s \<noteq> 0xfe" by metis+
qed

lemma sextets_join:
  "push_bit 2 (sextet a b c 18) OR drop_bit 4 (sextet a b c 12) = a"
  "push_bit 4 (sextet a b c 12) OR drop_bit 2 (sextet a b c 6) = b"
  "push_bit 6 (sextet a b c 6) OR sextet a b c 0 = c"
  by (rule byte_eqI; elim insertE emptyE; simp add: sextet_def bit_simps bit_triple)+

text \<open>The text without whitespace is what counts.\<close>

abbreviation plain :: "u8 list \<Rightarrow> u8 list" where
  "plain t \<equiv> filter (\<lambda>c. \<not> PhBase64IsWhitespace c) t"

lemma decode_chars_plain: "decode_chars t d = decode_chars (plain t) d"
proof (induction t arbitrary: d)
  case (Cons c t)
  then show ?case by (auto simp: decode_char_def split: option.splits bool.splits list.splits)
qed simp

definition decoder_ok :: "DECODER \<Rightarrow> bool" where
  "decoder_ok d \<longleftrightarrow> outputIndex d \<le> length (outputBytes d) \<and> length (outputBytes d) < 2 ^ 63"

definition emitted :: "u8 list \<Rightarrow> bool \<Rightarrow> DECODER \<Rightarrow> DECODER" where
  "emitted bs pad d = \<lparr> outputBytes = stored (outputBytes d) (outputIndex d) bs,
     outputIndex = outputIndex d + length bs, quartet = [], seenPadding = pad \<or> seenPadding d \<rparr>"

lemma emit_cases:
  assumes "decoder_ok d" "length bs \<le> 3"
  shows "emit bs pad d =
    (if outputIndex d + length bs \<le> length (outputBytes d) then Some (True, emitted bs pad d)
     else Some (False, d))"
proof -
  have le: "outputIndex d \<le> length (outputBytes d)" and lt: "length (outputBytes d) < 2 ^ 63"
    using assms(1) by (simp_all add: decoder_ok_def)
  have "space_left (outputBytes d) (outputIndex d) = of_nat (length (outputBytes d) - outputIndex d)"
    using le by (simp add: space_left_def of_nat_diff)
  moreover have "(of_nat (length (outputBytes d) - outputIndex d) :: u64) < of_nat (length bs) \<longleftrightarrow>
      length (outputBytes d) - outputIndex d < length bs"
    using lt assms(2) by (simp add: word_less_nat_alt)
  ultimately show ?thesis using le by (auto simp: emit_def emitted_def)
qed

lemma emitted_ok:
  "decoder_ok d \<Longrightarrow> outputIndex d + length bs \<le> length (outputBytes d) \<Longrightarrow> decoder_ok (emitted bs pad d)"
  by (simp add: decoder_ok_def emitted_def)

lemma plain_equals [simp]: "\<not> PhBase64IsWhitespace equals_sign"
  by code_simp

lemma decode_four:
  assumes "\<not> PhBase64IsWhitespace a" "\<not> PhBase64IsWhitespace b" "\<not> PhBase64IsWhitespace c"
    "\<not> PhBase64IsWhitespace e" "quartet d = []" "\<not> seenPadding d"
  shows "decode_chars (a # b # c # e # t) d =
    (case decode_quartet a b c e (d\<lparr> quartet := [a, b, c] \<rparr>) of Some (True, d') \<Rightarrow> decode_chars t d' | r \<Rightarrow> r)"
  using assms by (simp add: decode_char_def)

lemma decode_short:
  assumes "length t < 4" "list_all (\<lambda>c. \<not> PhBase64IsWhitespace c) t" "quartet d = []" "\<not> seenPadding d"
  shows "decode_chars t d = Some (True, d\<lparr> quartet := t \<rparr>)"
proof -
  have "t = [] \<or> (\<exists>a. t = [a]) \<or> (\<exists>a b. t = [a, b]) \<or> (\<exists>a b c. t = [a, b, c])"
    using assms(1) by (auto simp: numeral_eq_Suc less_Suc_eq length_Suc_conv)
  then show ?thesis using assms by (auto simp: decode_char_def)
qed

lemma decode_padded:
  assumes "seenPadding d" "list_all (\<lambda>c. \<not> PhBase64IsWhitespace c) t"
  shows "decode_chars t d = Some (t = [], d)"
  using assms by (cases t) (simp_all add: decode_char_def)

lemma emitted_quartet [simp]: "emitted bs pad (d\<lparr> quartet := q \<rparr>) = emitted bs pad d"
  by (simp add: emitted_def)

lemma decoder_ok_quartet [simp]: "decoder_ok (d\<lparr> quartet := q \<rparr>) = decoder_ok d"
  by (simp add: decoder_ok_def)

lemma emitted_emitted:
  "outputIndex d + length as + length bs \<le> length (outputBytes d) \<Longrightarrow>
   emitted bs pad (emitted as False d) = emitted (as @ bs) pad d"
  using stored_stored [of "outputIndex d" as bs "outputBytes d"] by (simp add: emitted_def ac_simps)

text \<open>The decoder reads what the encoder writes.\<close>

lemma decode_base64:
  "decoder_ok d \<Longrightarrow> quartet d = [] \<Longrightarrow> \<not> seenPadding d \<Longrightarrow>
   outputIndex d + length xs \<le> length (outputBytes d) \<Longrightarrow>
   decode_chars (base64 xs) d = Some (True, emitted xs (length xs mod 3 \<noteq> 0) d)"
proof (induction xs arbitrary: d rule: base64_induct)
  case Nil
  then show ?case by (simp add: emitted_def)
next
  case (single a)
  then show ?case
    by (simp add: base64_single Let_def decode_four decode_quartet_def table_char_decoded sextet_digit
        emit_cases sextets_join del: decode_chars.simps(2))
next
  case (pair a b)
  then show ?case
    by (simp add: base64_pair Let_def decode_four decode_quartet_def table_char_decoded sextet_digit
        emit_cases sextets_join del: decode_chars.simps(2))
next
  case (triple a b c xs)
  let ?e = "emitted [a, b, c] False d"
  have "decode_chars (base64 xs) ?e = Some (True, emitted xs (length xs mod 3 \<noteq> 0) ?e)"
    by (rule triple.IH) (use triple.prems in \<open>simp_all add: emitted_ok\<close>, simp_all add: emitted_def)
  also have "emitted xs (length xs mod 3 \<noteq> 0) ?e = emitted (a # b # c # xs) (length xs mod 3 \<noteq> 0) d"
    using emitted_emitted [of d "[a, b, c]" xs] triple.prems by simp
  finally show ?case
    using triple.prems
    by (simp add: base64_triple decode_four decode_quartet_def table_char_decoded sextet_digit
        emit_cases sextets_join del: decode_chars.simps(2))
qed

text \<open>
  A text reads as \<open>ys\<close> if it is the base64 text of \<open>ys\<close>, up to the bits of the last character before
  the padding that are not used.
\<close>

definition padding :: "u8 list \<Rightarrow> nat" where
  "padding ys = (3 - length ys mod 3) mod 3"

definition reads :: "u8 list \<Rightarrow> u8 list \<Rightarrow> bool" where
  "reads t ys \<longleftrightarrow> length t = length (base64 ys) \<and>
     (\<forall>i < length t. padding ys = 0 \<or> i + 1 + padding ys \<noteq> length t \<longrightarrow> t ! i = base64 ys ! i)"

lemma encode_table_literal: "PhBase64EncodeTable =
    [65, 66, 67, 68, 69, 70, 71, 72, 73, 74, 75, 76, 77, 78, 79, 80, 81, 82, 83, 84, 85, 86, 87, 88, 89, 90,
     97, 98, 99, 100, 101, 102, 103, 104, 105, 106, 107, 108, 109, 110, 111, 112, 113, 114, 115, 116, 117,
     118, 119, 120, 121, 122, 48, 49, 50, 51, 52, 53, 54, 55, 56, 57, 43, 47]"
  by code_simp

lemma table_inverse: "list_all (\<lambda>(i, d). no_digit d \<or> d AND 0x3f = d \<and>
     [65 :: u8, 66, 67, 68, 69, 70, 71, 72, 73, 74, 75, 76, 77, 78, 79, 80, 81, 82, 83, 84, 85, 86, 87, 88, 89, 90,
      97, 98, 99, 100, 101, 102, 103, 104, 105, 106, 107, 108, 109, 110, 111, 112, 113, 114, 115, 116, 117,
      118, 119, 120, 121, 122, 48, 49, 50, 51, 52, 53, 54, 55, 56, 57, 43, 47] ! unat d = of_nat i)
    (zip [0..<256] PhBase64DecodeTable)"
  by code_simp

lemma decoded_char:
  assumes "\<not> no_digit (decoded c)"
  shows "PhBase64EncodeTable ! unat (decoded c) = c" and "decoded c AND 0x3f = decoded c"
proof -
  have len: "length PhBase64DecodeTable = 256" by (simp add: PhBase64DecodeTable_def)
  have "(unat c, decoded c) \<in> set (zip [0..<256] PhBase64DecodeTable)"
    using unat_lt_u8 [of c] by (auto simp: in_set_zip len intro!: exI [of _ "unat c"])
  then have "decoded c AND 0x3f = decoded c \<and> PhBase64EncodeTable ! unat (decoded c) = of_nat (unat c)"
    using table_inverse [folded encode_table_literal] assms unfolding list_all_iff by fastforce
  then show "PhBase64EncodeTable ! unat (decoded c) = c" "decoded c AND 0x3f = decoded c"
    by simp_all
qed

text \<open>The characters are those of the bytes that are made of their digits.\<close>

lemma digits_back:
  fixes p q r s :: u8
  assumes "p AND 0x3f = p" "q AND 0x3f = q" "r AND 0x3f = r" "s AND 0x3f = s"
  defines "a \<equiv> push_bit 2 p OR drop_bit 4 q" and "b \<equiv> push_bit 4 q OR drop_bit 2 r"
    and "c \<equiv> push_bit 6 r OR s"
  shows "sextet a y z 18 = p" "sextet a b z 12 = q" "sextet a b c 6 = r" "sextet a b c 0 = s"
proof -
  have *: "\<not> bit x 6 \<and> \<not> bit x 7" if "x AND 0x3f = x" for x :: u8
  proof -
    have "\<not> bit (x AND 0x3f) 6" "\<not> bit (x AND 0x3f) 7" by (simp_all add: bit_simps)
    then show ?thesis unfolding that by blast
  qed
  have high: "\<not> bit x 8" "\<not> bit x 9" "\<not> bit x 10" "\<not> bit x 11" for x :: u8
    by (auto dest: bit_imp_le_length)
  show "sextet a y z 18 = p" "sextet a b z 12 = q" "sextet a b c 6 = r" "sextet a b c 0 = s"
    by (rule byte_eqI; elim insertE emptyE;
        simp add: sextet_def bit_simps bit_triple a_def b_def c_def * high assms(1-4))+
qed

lemma table_char_sextet: "table_char (triple_value a b c) s = PhBase64EncodeTable ! unat (sextet a b c s)"
proof -
  have "unat (ucast (drop_bit s (triple_value a b c) AND 0x3f :: u32) :: u8) =
        unat (drop_bit s (triple_value a b c) AND 0x3f)"
    using sextet_below [of s "triple_value a b c"]
    by (simp add: unsigned_ucast_eq take_bit_nat_eq_self)
  then show ?thesis by (simp add: table_char_def sextet_def)
qed

lemma quartet_reads:
  assumes d: "decoder_ok d" and step: "decode_quartet p q r s d = Some (True, d')"
  obtains ys where "reads [p, q, r, s] ys" "d' = emitted ys (length ys < 3) d" "ys \<noteq> []" "length ys \<le> 3"
    "length ys = 3 \<longrightarrow> base64 ys = [p, q, r, s]"
    "outputIndex d + length ys \<le> length (outputBytes d)"
proof -
  let ?a = "push_bit 2 (decoded p) OR drop_bit 4 (decoded q)"
  let ?b = "push_bit 4 (decoded q) OR drop_bit 2 (decoded r)"
  let ?c = "push_bit 6 (decoded r) OR decoded s"
  note u = decode_quartet_def Let_def emit_cases [OF d]
  have pq: "\<not> no_digit (decoded p)" "\<not> no_digit (decoded q)"
    using step by (auto simp: u split: if_splits)
  note P = decoded_char [OF pq(1)] and Q = decoded_char [OF pq(2)]
  consider "r = equals_sign" "s = equals_sign"
    | "r \<noteq> equals_sign" "s = equals_sign" "\<not> no_digit (decoded r)"
    | "r \<noteq> equals_sign" "s \<noteq> equals_sign" "\<not> no_digit (decoded r)" "\<not> no_digit (decoded s)"
    using step by (auto simp: u split: if_splits)
  then show thesis
  proof cases
    case 1
    have t: "table_char (triple_value ?a 0 0) 18 = p"
      unfolding table_char_sextet digits_back(1) [OF P(2) Q(2) P(2) P(2)] by (rule P(1))
    have "reads [p, q, r, s] [?a]"
      using t 1 by (simp add: reads_def padding_def base64_single Let_def less_Suc_eq)
    moreover have "d' = emitted [?a] True d" "outputIndex d + 1 \<le> length (outputBytes d)"
      using step 1 pq by (auto simp: u split: if_splits)
    ultimately show thesis by (intro that [of "[?a]"]) simp_all
  next
    case 2
    note R = decoded_char [OF 2(3)]
    have t: "table_char (triple_value ?a ?b 0) 18 = p" "table_char (triple_value ?a ?b 0) 12 = q"
      unfolding table_char_sextet digits_back(1) [OF P(2) Q(2) P(2) P(2)] digits_back(2) [OF P(2) Q(2) R(2) P(2)]
      by (rule P(1) Q(1))+
    have "reads [p, q, r, s] [?a, ?b]"
      using t 2 by (simp add: reads_def padding_def base64_pair Let_def less_Suc_eq)
    moreover have "d' = emitted [?a, ?b] True d" "outputIndex d + 2 \<le> length (outputBytes d)"
      using step 2 pq by (auto simp: u split: if_splits)
    ultimately show thesis by (intro that [of "[?a, ?b]"]) simp_all
  next
    case 3
    note R = decoded_char [OF 3(3)] and S = decoded_char [OF 3(4)]
    have t: "base64 [?a, ?b, ?c] = [p, q, r, s]"
      unfolding base64_triple table_char_sextet digits_back(1) [OF P(2) Q(2) P(2) P(2)]
        digits_back(2) [OF P(2) Q(2) R(2) P(2)] digits_back(3,4) [OF P(2) Q(2) R(2) S(2)] P Q R S by simp
    then have "reads [p, q, r, s] [?a, ?b, ?c]" by (simp add: reads_def)
    moreover have "d' = emitted [?a, ?b, ?c] False d" "outputIndex d + 3 \<le> length (outputBytes d)"
      using step 3 pq by (auto simp: u split: if_splits)
    ultimately show thesis using t by (intro that [of "[?a, ?b, ?c]"]) simp_all
  qed
qed

lemma decode_quartet_total:
  "decoder_ok d \<Longrightarrow> \<exists>ok d'. decode_quartet p q r s d = Some (ok, d') \<and> (\<not> ok \<longrightarrow> d' = d)"
  by (simp add: decode_quartet_def Let_def emit_cases ex_bool_eq)

lemma reads_append:
  assumes "reads t ys" "base64 xs = ts" "length xs = 3"
  shows "reads (ts @ t) (xs @ ys)"
proof -
  obtain a b c where xs: "xs = [a, b, c]" using assms(3) by (auto simp: numeral_3_eq_3 length_Suc_conv)
  have b: "base64 (xs @ ys) = ts @ base64 ys" using assms(2) by (simp add: xs base64_triple)
  have p: "padding (xs @ ys) = padding ys" by (simp add: padding_def xs)
  show ?thesis
    using assms(1) unfolding reads_def b p by (auto simp: nth_append)
qed

lemma reads_Nil [simp]: "reads [] []"
  by (simp add: reads_def)

lemma emitted_Nil: "quartet d = [] \<Longrightarrow> \<not> seenPadding d \<Longrightarrow> emitted [] False d = d"
  by (cases d) (simp add: emitted_def)

lemma decode_sound:
  assumes "decoder_ok d" "quartet d = []" "\<not> seenPadding d" "list_all (\<lambda>c. \<not> PhBase64IsWhitespace c) t"
  shows "\<exists>ok d'. decode_chars t d = Some (ok, d') \<and> decoder_ok d' \<and>
    length (outputBytes d') = length (outputBytes d) \<and>
    (ok \<and> quartet d' = [] \<longrightarrow>
      (\<exists>ys pad. reads t ys \<and> d' = emitted ys pad d \<and> outputIndex d + length ys \<le> length (outputBytes d)))"
  using assms
proof (induction t arbitrary: d rule: length_induct)
  case (1 t)
  show ?case
  proof (cases "length t < 4")
    case True
    have short: "decode_chars t d = Some (True, d\<lparr> quartet := t \<rparr>)"
      by (rule decode_short [OF True]) (use 1(3-) in simp_all)
    have "d = emitted [] False d" using emitted_Nil 1(2-4) by (simp add: decoder_ok_def)
    then have "\<exists>ys pad. reads t ys \<and> d\<lparr> quartet := t \<rparr> = emitted ys pad d \<and>
        outputIndex d + length ys \<le> length (outputBytes d)" if "t = []"
      using that 1(2,3) by (intro exI [of _ "[]"] exI [of _ False]) (simp add: decoder_ok_def)
    then show ?thesis using 1(2) short by (auto simp: ex_bool_eq)
  next
    case False
    then obtain p q r s u where t: "t = p # q # r # s # u"
      by (auto simp: numeral_eq_Suc not_less Suc_le_length_iff)
    let ?d = "d\<lparr> quartet := [p, q, r] \<rparr>"
    have dec: "decode_chars t d =
        (case decode_quartet p q r s ?d of Some (True, d') \<Rightarrow> decode_chars u d' | x \<Rightarrow> x)"
      unfolding t using 1(3-) by (intro decode_four) (simp_all add: t)
    obtain ok d' where one: "decode_quartet p q r s ?d = Some (ok, d')" "\<not> ok \<longrightarrow> d' = ?d"
      using decode_quartet_total [of ?d] 1(2) by (metis decoder_ok_quartet)
    show ?thesis
    proof (cases ok)
      case False
      then show ?thesis using one 1(2) by (simp add: dec ex_bool_eq)
    next
      case True
      then have "decoder_ok ?d" "decode_quartet p q r s ?d = Some (True, d')" using one 1(2) by simp_all
      then obtain ys where "reads [p, q, r, s] ys" "d' = emitted ys (length ys < 3) ?d" "length ys \<le> 3"
        "length ys = 3 \<longrightarrow> base64 ys = [p, q, r, s]" "outputIndex ?d + length ys \<le> length (outputBytes ?d)"
        by (rule quartet_reads)
      then have ys: "reads [p, q, r, s] ys" "d' = emitted ys (length ys < 3) d" "length ys \<le> 3"
        "length ys = 3 \<longrightarrow> base64 ys = [p, q, r, s]" "outputIndex d + length ys \<le> length (outputBytes d)"
        by simp_all
      have ok': "decoder_ok d'" "length (outputBytes d') = length (outputBytes d)"
        using ys emitted_ok [OF 1(2)] by (auto simp: emitted_def)
      show ?thesis
      proof (cases "length ys < 3")
        case padded: True
        have "decode_chars u d' = Some (u = [], d')"
          by (rule decode_padded) (use 1(5) padded in \<open>simp_all add: ys(2) emitted_def t\<close>)
        then have run: "decode_chars t d = Some (u = [], d')" using one(1) True by (simp add: dec)
        show ?thesis
        proof (cases "u = []")
          case True
          then have "reads t ys" using ys(1) by (simp add: t)
          then show ?thesis using run ok' ys(2,5) True by auto
        qed (use run ok' in auto)
      next
        case False
        then have l: "length ys = 3" and b: "base64 ys = [p, q, r, s]" using ys by simp_all
        obtain ok2 d2 where two: "decode_chars u d' = Some (ok2, d2)" "decoder_ok d2"
          "length (outputBytes d2) = length (outputBytes d')"
          "ok2 \<and> quartet d2 = [] \<longrightarrow> (\<exists>zs pad. reads u zs \<and> d2 = emitted zs pad d' \<and>
             outputIndex d' + length zs \<le> length (outputBytes d'))"
          using 1(1) [rule_format, of u d'] ok' 1(4,5) False by (auto simp: t ys(2) emitted_def)
        have "\<exists>xs pad. reads t xs \<and> d2 = emitted xs pad d \<and>
            outputIndex d + length xs \<le> length (outputBytes d)" if "ok2 \<and> quartet d2 = []"
        proof -
          obtain zs pad where zs: "reads u zs" "d2 = emitted zs pad d'"
            "outputIndex d' + length zs \<le> length (outputBytes d')" using two(4) \<open>ok2 \<and> quartet d2 = []\<close> by blast
          have fits: "outputIndex d + length ys + length zs \<le> length (outputBytes d)"
            using zs(3) ok'(2) by (simp add: ys(2) emitted_def)
          have "d2 = emitted (ys @ zs) pad d"
            unfolding zs(2) ys(2) using emitted_emitted [OF fits] l by simp
          moreover have "reads t (ys @ zs)" using reads_append [OF zs(1) b l] by (simp add: t)
          ultimately show ?thesis using fits by auto
        qed
        then show ?thesis using two ok' one True by (auto simp: dec)
      qed
    qed
  qed
qed

section \<open>The properties\<close>

text \<open>The buffer is refused exactly when the text and its terminator do not fit.\<close>

lemma required_length:
  assumes "length Input < 2 ^ 63" "length Output < 2 ^ 63"
  shows "of_nat (length Output) < (of_nat (length Input) + 2) div 3 * 4 + (1 :: u64) \<longleftrightarrow>
    \<not> length (base64 Input) < length Output"
proof -
  have n: "length (base64 Input) \<le> 12297829382473034412"
    using assms(1) unfolding length_base64 by simp
  have "unat ((of_nat (length Input) + 2) div 3 * 4 + 1 :: u64) = length (base64 Input) + 1"
  proof -
    have "unat ((of_nat (length Input) + 2) div 3 :: u64) = (length Input + 2) div 3"
      using assms(1) by (simp add: unat_div_distrib unat_add_fits)
    then show ?thesis
      using n unfolding length_base64 by (subst unat_add_fits; subst unat_mult_fits) simp_all
  qed
  then show ?thesis
    using assms(2) by (auto simp: word_less_nat_alt)
qed

text \<open>
  C22: The encoder writes base64 as RFC 4648 defines it, with the vector instructions as without them.
  It succeeds exactly if the output array has room for the text and its terminator, writes those and
  nothing behind them, and otherwise changes nothing. Every load, those of 16 bytes included, and every
  store is inside its array, for arrays of fewer than 2^63 bytes.
\<close>

theorem base64_encode_is_standard:
  assumes "length Input < 2 ^ 63" "length Output < 2 ^ 63"
  shows "PhBase64Encode PhHasSSSE3 Input Output =
    Some (if length (base64 Input) < length Output
          then (True, base64 Input @ [0] @ drop (length (base64 Input) + 1) Output, length (base64 Input))
          else (False, Output, 0))"
proof -
  note room = required_length [OF assms]
  show ?thesis
  proof (cases "length (base64 Input) < length Output")
    case False
    then show ?thesis using room by (simp add: PhBase64Encode_def)
  next
    case True
    let ?start = "if PhHasSSSE3 then encode_blocks Input 0 0 Output else Some (0, 0, Output)"
    have "encodes Input 0 0 Output ?start"
      using True encode_blocks_encodes [of 0 Input 0 Output] encodes_refl [of 0 Input 0 Output] by simp
    then obtain i w where i: "i \<le> length Input" and s1: "?start = Some (i, length w, stored Output 0 w)"
      and w: "base64 Input = w @ base64 (drop i Input)"
      unfolding encodes_def by auto
    have "length w + length (base64 (drop i Input)) \<le> length (stored Output 0 w)"
      using True w by simp
    note loop = encode_triples_encodes [OF i this]
    then obtain j v where j: "j \<le> length Input"
      and s2: "encode_triples Input i (length w) (stored Output 0 w) =
        Some (j, length w + length v, stored (stored Output 0 w) (length w) v)"
      and v: "base64 (drop i Input) = v @ base64 (drop j Input)"
      unfolding encodes_def by blast
    have rest: "encode_rest Input j = Some (base64 (drop j Input))"
      using conjunct2 [OF loop] j unfolding s2 by (intro encode_rest_base64) simp_all
    have parts: "base64 Input = w @ v @ base64 (drop j Input)" using w v by simp
    have s3: "stored (stored Output 0 w) (length w) v = stored Output 0 (w @ v)"
      using stored_stored [of 0 w v Output] True parts by simp
    show ?thesis
      using True room s2 s3 unfolding PhBase64Encode_def s1
      by (simp add: rest parts Let_def ac_simps)
  qed
qed

lemma base64_encode_is_standard_witness:
  "PhBase64Encode True [77, 97, 110] [7, 7, 7, 7, 7, 7] = Some (True, [84, 87, 70, 117, 0, 7], 4) \<and>
   PhBase64Encode True [77, 97, 110] [7, 7, 7, 7] = Some (False, [7, 7, 7, 7], 0)"
proof -
  have "base64 [77, 97, 110] = [84, 87, 70, 117]" by code_simp
  then show ?thesis
    using base64_encode_is_standard [of "[77, 97, 110]" "[7, 7, 7, 7, 7, 7]" True]
      base64_encode_is_standard [of "[77, 97, 110]" "[7, 7, 7, 7]" True] by simp
qed

text \<open>
  C31: The decoder inverts the encoder and trusts no text. It gives back the bytes of every base64 text
  if the output array has room for them, whatever whitespace the text contains. On an arbitrary text
  it reads and writes only inside the arrays, and an answer TRUE means that the text without its
  whitespace is the base64 text of the bytes it wrote, the unused bits before the padding apart.
\<close>

theorem base64_decode_inverts:
  assumes "length Output < 2 ^ 63"
  shows "(length ys \<le> length Output \<and> plain Input = base64 ys \<longrightarrow>
            PhBase64Decode Input Output = Some (True, ys @ drop (length ys) Output, length ys)) \<and>
         (\<exists>ok out n. PhBase64Decode Input Output = Some (ok, out, n) \<and> length out = length Output \<and>
            (ok \<longrightarrow> (\<exists>zs. out = zs @ drop n Output \<and> n = length zs \<and> reads (plain Input) zs)))"
proof (intro conjI impI)
  let ?d = "decoder_start Output"
  have d: "decoder_ok ?d" "quartet ?d = []" "\<not> seenPadding ?d"
    using assms by (simp_all add: decoder_ok_def decoder_start_def)
  have e: "emitted zs pad ?d = \<lparr> outputBytes = zs @ drop (length zs) Output, outputIndex = length zs,
      quartet = [], seenPadding = pad \<rparr>" for zs pad
    by (simp add: emitted_def decoder_start_def)
  show "PhBase64Decode Input Output = Some (True, ys @ drop (length ys) Output, length ys)"
    if "length ys \<le> length Output \<and> plain Input = base64 ys"
  proof -
    have "decode_chars Input ?d = Some (True, emitted ys (length ys mod 3 \<noteq> 0) ?d)"
      unfolding decode_chars_plain [of Input] conjunct2 [OF that]
      by (rule decode_base64 [OF d]) (use that in \<open>simp add: decoder_start_def\<close>)
    then show ?thesis by (simp add: PhBase64Decode_def e)
  qed
  obtain ok d' where r: "decode_chars (plain Input) ?d = Some (ok, d')"
    "length (outputBytes d') = length (outputBytes ?d)"
    "ok \<and> quartet d' = [] \<longrightarrow> (\<exists>zs pad. reads (plain Input) zs \<and> d' = emitted zs pad ?d \<and>
       outputIndex ?d + length zs \<le> length (outputBytes ?d))"
    using decode_sound [OF d, of "plain Input"] by (auto simp: list_all_iff)
  have l: "length (outputBytes ?d) = length Output" by (simp add: decoder_start_def)
  show "\<exists>ok out n. PhBase64Decode Input Output = Some (ok, out, n) \<and> length out = length Output \<and>
      (ok \<longrightarrow> (\<exists>zs. out = zs @ drop n Output \<and> n = length zs \<and> reads (plain Input) zs))"
  proof (cases "ok \<and> quartet d' = []")
    case True
    then obtain zs pad where zs: "reads (plain Input) zs" "d' = emitted zs pad ?d" using r(3) by blast
    then show ?thesis
      using r True l by (auto simp: PhBase64Decode_def decode_chars_plain [of Input] e)
  next
    case False
    then show ?thesis using r(1,2) l by (auto simp: PhBase64Decode_def decode_chars_plain [of Input])
  qed
qed

lemma base64_decode_inverts_witness:
  "PhBase64Decode [84, 87, 32, 70, 117] [7, 7, 7, 7] = Some (True, [77, 97, 110, 7], 3)"
proof -
  have "plain [84, 87, 32, 70, 117] = base64 [77, 97, 110]" by code_simp
  then show ?thesis
    using base64_decode_inverts [of "[7, 7, 7, 7]" "[77, 97, 110]" "[84, 87, 32, 70, 117]"] by simp
qed

end
