(* ===== verification/SessionToken.thy ===== *)
theory SessionToken
  imports Protection
begin

unbundle bit_operations_syntax

text \<open>
  The session tokens of the driver, ProcessHacker/KSystemInformer/session_token.c, and what they are
  for: the termination of processes that the caller does not dominate (util.c, process.c). A thread
  requests a token, has its content signed, and assigns it to a process or a thread; whoever holds
  it may use its privileges until it expires or its uses are spent. Any number of privilege checks
  runs at the same time; each access to the use count and to the slots is a step of its own, but the two
  exchanges of an assignment are one.
\<close>

section \<open>Tokens\<close>

definition KPH_TOKEN_PRIVILEGE_TERMINATE :: u32 where "KPH_TOKEN_PRIVILEGE_TERMINATE = 1"
definition KPH_TOKEN_VALID_PRIVILEGES :: u32 where
  "KPH_TOKEN_VALID_PRIVILEGES = KPH_TOKEN_PRIVILEGE_TERMINATE"

record KPH_SESSION_ACCESS_TOKEN =
  Expiry :: u64
  Privileges :: u32
  Uses :: u32
  Identifier :: "u8 list"
  Material :: "u8 list"

record KPH_SESSION_TOKEN =
  AccessToken :: KPH_SESSION_ACCESS_TOKEN
  UseCount :: u32

definition zero_access_token :: KPH_SESSION_ACCESS_TOKEN where
  "zero_access_token = \<lparr> Expiry = 0, Privileges = 0, Uses = 0, Identifier = replicate 16 0,
                         Material = replicate 32 0 \<rparr>"

record KPH_SESSION_TOKEN_INIT =
  InitExpiry :: u64
  InitPrivileges :: u32
  InitUses :: u32

text \<open>
  What the system answers while an operation runs. The status of ExUuidCreate is the raw number: a
  success other than 0 means that the identifier is not unique.
\<close>

record TOKEN_KERNEL =
  ExUuidCreate :: "u32 \<times> u8 list"
  BCryptGenRandom :: "ntstatus \<times> u8 list"
  KeQuerySystemTime :: u64
  object_allocated :: bool
  SessionTokenPublicKeyHandle :: bool
  capture_signature :: ntstatus
  ObReferenceObjectByHandle :: "ntstatus \<times> nat"

definition KphpInitializeSessionToken ::
  "TOKEN_KERNEL \<Rightarrow> KPH_SESSION_TOKEN_INIT \<Rightarrow> ntstatus \<times> KPH_SESSION_TOKEN option" where
  "KphpInitializeSessionToken T init =
     (let (status, identifier) = ExUuidCreate T in
      if status \<noteq> 0
      then (if 0 \<le>s status then STATUS_UNSUCCESSFUL else STATUS_SYSTEM_ERROR status, None)
      else
        let (status, material) = BCryptGenRandom T in
        if \<not> NT_SUCCESS status then (status, None)
        else
          let expiry = (if InitExpiry init <s 0 then KeQuerySystemTime T + - InitExpiry init
                        else InitExpiry init) in
          (STATUS_SUCCESS,
           Some \<lparr> AccessToken = \<lparr> Expiry = expiry, Privileges = InitPrivileges init,
                                   Uses = InitUses init, Identifier = identifier,
                                   Material = material \<rparr>,
                  UseCount = 0 \<rparr>))"

section \<open>The state\<close>

text \<open>
  A thread context has two slots for tokens, a process context one. Token objects are named by their
  address; they are never named again, as theory \<open>KphObject\<close> shows of objects to which references
  exist. \<open>checks\<close> are the privilege checks that are running, by a number.

  A check runs on behalf of a call of \<open>KphTerminateProcess\<close>. It is about to reference the token in
  the slot of the thread, or of its process; has the token and reads the time; reads the use count;
  decides and exchanges the use count; or is decided.

  Four histories record what happened: which thread requested which token, the assignments, with the
  process or thread that was named to hold the token, the process that was verified and the state of
  the system in which it was, the privileges that were granted, and the
  processes that were terminated. A decided check names the grant that decided it.
\<close>

record SESSION_THREAD = KPH_THREAD_CONTEXT +
  RequestSessionToken :: "nat option"
  SessionToken :: "nat option"

record terminate_call =
  by_thread :: "nat option"
  by_process :: nat
  target :: nat
  mode :: KPROCESSOR_MODE

datatype check =
    NoCheck
  | ThreadSlot terminate_call
  | ProcessSlot terminate_call nat
  | ReadTime terminate_call "nat option" nat
  | ReadCount terminate_call "nat option" nat u64
  | Exchange terminate_call "nat option" nat u64 u32
  | Decided terminate_call "nat option"

datatype holder = HolderProcess nat | HolderThread nat

record assignment =
  assigned_token :: nat
  assigned_to :: holder
  assigned_by :: nat
  actor_process :: nat
  target_process :: nat
  signature :: "u8 list"
  assign_kernel :: KERNEL
  assign_system :: SYSTEM

record grant =
  granted_token :: nat
  granted_privileges :: u32
  granted_time :: u64

record killed_process =
  terminate_kernel :: KERNEL
  for_call :: terminate_call
  ticket :: "nat option"

record SESSIONS =
  base :: SYSTEM
  threads :: "nat \<Rightarrow> SESSION_THREAD option"
  process_token :: "nat \<Rightarrow> nat option"
  tokens :: "nat \<Rightarrow> KPH_SESSION_TOKEN option"
  checks :: "nat \<Rightarrow> check"
  requester :: "nat \<Rightarrow> nat option"
  assignments :: "assignment list"
  grants :: "grant list"
  terminations :: "killed_process list"

section \<open>Requests\<close>

definition put_thread :: "nat \<Rightarrow> SESSION_THREAD \<Rightarrow> SESSIONS \<Rightarrow> SESSIONS" where
  "put_thread t th S = S\<lparr> threads := (threads S)(t \<mapsto> th) \<rparr>"

text \<open>\<open>address\<close> is where the object is allocated, memory that no token occupies.\<close>

definition KphRequestSessionAccessToken ::
  "TOKEN_KERNEL \<Rightarrow> nat \<Rightarrow> nat \<Rightarrow> u64 \<Rightarrow> u32 \<Rightarrow> u32 \<Rightarrow> SESSIONS
     \<Rightarrow> ntstatus \<times> KPH_SESSION_ACCESS_TOKEN \<times> SESSIONS" where
  "KphRequestSessionAccessToken T t address expiry privileges uses S =
     (if privileges = 0 \<or> privileges AND NOT KPH_TOKEN_VALID_PRIVILEGES \<noteq> 0
      then (STATUS_INVALID_PARAMETER, zero_access_token, S)
      else case threads S t of
        None \<Rightarrow> (STATUS_INSUFFICIENT_RESOURCES, zero_access_token, S)
      | Some th \<Rightarrow>
          if \<not> object_allocated T \<or> tokens S address \<noteq> None
          then (STATUS_INSUFFICIENT_RESOURCES, zero_access_token, S)
          else case KphpInitializeSessionToken T
                 \<lparr> InitExpiry = expiry, InitPrivileges = privileges, InitUses = uses \<rparr> of
            (status, None) \<Rightarrow> (status, zero_access_token, S)
          | (status, Some token) \<Rightarrow>
              (status, AccessToken token,
               put_thread t (th\<lparr> RequestSessionToken := Some address \<rparr>)
                 (S\<lparr> tokens := (tokens S)(address \<mapsto> token),
                     requester := (requester S)(address \<mapsto> t) \<rparr>)))"

section \<open>Assignments\<close>

text \<open>
  \<open>verifies\<close> is KphVerifyBufferEx with the public key of the dynamic data: whether the signature is
  one of the content of the token.
\<close>

definition KphpVerifySessionToken ::
  "(KPH_SESSION_ACCESS_TOKEN \<Rightarrow> u8 list \<Rightarrow> ntstatus) \<Rightarrow> KERNEL \<Rightarrow> TOKEN_KERNEL \<Rightarrow> nat \<Rightarrow> nat
     \<Rightarrow> KPH_SESSION_TOKEN \<Rightarrow> u8 list \<Rightarrow> KPROCESSOR_MODE \<Rightarrow> SYSTEM \<Rightarrow> ntstatus \<times> SYSTEM" where
  "KphpVerifySessionToken verifies K T actor tgt token sig accessMode S =
     (if \<not> dyn_data K \<or> \<not> SessionTokenPublicKeyHandle T then (STATUS_NOINTERFACE, S)
      else if accessMode \<noteq> KernelMode \<and> \<not> NT_SUCCESS (capture_signature T)
      then (capture_signature T, S)
      else if \<not> NT_SUCCESS (verifies (AccessToken token) sig)
      then (verifies (AccessToken token) sig, S)
      else
        let (actorMaximum, S) = test_state K actor KPH_PROCESS_STATE_MAXIMUM S in
        if \<not> actorMaximum then (STATUS_ACCESS_DENIED, S)
        else
          let (targetMaximum, S) = test_state K tgt KPH_PROCESS_STATE_MAXIMUM S in
          if \<not> targetMaximum then (STATUS_ACCESS_DENIED, S)
          else (STATUS_SUCCESS, S))"

text \<open>
  What the two assignments share: the requested token is taken out of the slot of the current thread
  \<open>t\<close>, verified for the process \<open>tgt\<close>, if there is one, and stored by \<open>put\<close>; \<open>h\<close> is whom the
  caller named. Nobody else reaches the token between the two exchanges, which are one step here.
\<close>

definition assign_token ::
  "(KPH_SESSION_ACCESS_TOKEN \<Rightarrow> u8 list \<Rightarrow> ntstatus) \<Rightarrow> KERNEL \<Rightarrow> TOKEN_KERNEL \<Rightarrow> nat \<Rightarrow> nat option
     \<Rightarrow> holder \<Rightarrow> u8 list \<Rightarrow> KPROCESSOR_MODE \<Rightarrow> (nat \<Rightarrow> SESSIONS \<Rightarrow> SESSIONS) \<Rightarrow> SESSIONS
     \<Rightarrow> ntstatus \<times> SESSIONS" where
  "assign_token verifies K T t tgt h sig accessMode put S =
     (case threads S t of
        None \<Rightarrow> (STATUS_INSUFFICIENT_RESOURCES, S)
      | Some th \<Rightarrow>
      (case RequestSessionToken th of
        None \<Rightarrow> (STATUS_INVALID_STATE_TRANSITION, S)
      | Some a \<Rightarrow>
      (let S = put_thread t (th\<lparr> RequestSessionToken := None \<rparr>) S in
       case (ProcessContext th, tgt, tokens S a) of
         (Some actor, Some e, Some token) \<Rightarrow>
           let (status, B) = KphpVerifySessionToken verifies K T actor e token sig accessMode (base S);
               asg = \<lparr> assigned_token = a, assigned_to = h, assigned_by = t, actor_process = actor, target_process = e,
                       signature = sig, assign_kernel = K, assign_system = base S \<rparr>;
               S = S\<lparr> base := B \<rparr> in
           if \<not> NT_SUCCESS status then (status, S)
           else (STATUS_SUCCESS, put a (S\<lparr> assignments := assignments S @ [asg] \<rparr>))
       | _ \<Rightarrow> (STATUS_INSUFFICIENT_RESOURCES, S))))"

definition KphAssignProcessSessionToken ::
  "(KPH_SESSION_ACCESS_TOKEN \<Rightarrow> u8 list \<Rightarrow> ntstatus) \<Rightarrow> KERNEL \<Rightarrow> TOKEN_KERNEL \<Rightarrow> nat
     \<Rightarrow> u8 list option \<Rightarrow> KPROCESSOR_MODE \<Rightarrow> SESSIONS \<Rightarrow> ntstatus \<times> SESSIONS" where
  "KphAssignProcessSessionToken verifies K T t sig accessMode S =
     (case sig of
        None \<Rightarrow> (STATUS_INVALID_PARAMETER, S)
      | Some sig \<Rightarrow>
          if sig = [] then (STATUS_INVALID_PARAMETER, S)
          else
            let (status, e) = ObReferenceObjectByHandle T in
            if \<not> NT_SUCCESS status then (status, S)
            else if contexts (base S) e = None then (STATUS_INSUFFICIENT_RESOURCES, S)
            else assign_token verifies K T t (Some e) (HolderProcess e) sig accessMode
                   (\<lambda>a S. S\<lparr> process_token := (process_token S)(e := Some a) \<rparr>) S)"

definition KphAssignThreadSessionToken ::
  "(KPH_SESSION_ACCESS_TOKEN \<Rightarrow> u8 list \<Rightarrow> ntstatus) \<Rightarrow> KERNEL \<Rightarrow> TOKEN_KERNEL \<Rightarrow> nat
     \<Rightarrow> u8 list option \<Rightarrow> KPROCESSOR_MODE \<Rightarrow> SESSIONS \<Rightarrow> ntstatus \<times> SESSIONS" where
  "KphAssignThreadSessionToken verifies K T t sig accessMode S =
     (case sig of
        None \<Rightarrow> (STATUS_INVALID_PARAMETER, S)
      | Some sig \<Rightarrow>
          if sig = [] then (STATUS_INVALID_PARAMETER, S)
          else
            let (status, u) = ObReferenceObjectByHandle T in
            if \<not> NT_SUCCESS status then (status, S)
            else case threads S u of
              None \<Rightarrow> (STATUS_INSUFFICIENT_RESOURCES, S)
            | Some uth \<Rightarrow>
                assign_token verifies K T t (ProcessContext uth) (HolderThread u) sig accessMode
                  (\<lambda>a S. case threads S u of
                     None \<Rightarrow> S
                   | Some uth \<Rightarrow> put_thread u (uth\<lparr> SessionToken := Some a \<rparr>) S) S)"

section \<open>Privilege checks\<close>

text \<open>
  What \<open>KphpSessionTokenPrivilegeCheck\<close> decides on the use count it has seen; None is to try to count
  a use.
\<close>

definition token_decision :: "KPH_SESSION_ACCESS_TOKEN \<Rightarrow> u32 \<Rightarrow> u64 \<Rightarrow> u32 \<Rightarrow> ntstatus option" where
  "token_decision token privileges systemTime useCount =
     (if Expiry token \<le>s systemTime then Some STATUS_TIMEOUT
      else if Privileges token AND privileges \<noteq> privileges then Some STATUS_PRIVILEGE_NOT_HELD
      else if Uses token <s 0 then Some STATUS_SUCCESS
      else if Uses token \<le>s useCount then Some STATUS_QUOTA_EXCEEDED
      else None)"

definition set_check :: "nat \<Rightarrow> check \<Rightarrow> SESSIONS \<Rightarrow> SESSIONS" where
  "set_check i c S = S\<lparr> checks := (checks S)(i := c) \<rparr>"

text \<open>
  A check that a token refused: one of the token of the thread goes on with the token of the process
  \<open>next\<close>.
\<close>

definition refuse :: "nat \<Rightarrow> terminate_call \<Rightarrow> nat option \<Rightarrow> SESSIONS \<Rightarrow> SESSIONS" where
  "refuse i c nxt = set_check i (case nxt of None \<Rightarrow> Decided c None | Some p \<Rightarrow> ProcessSlot c p)"

definition record_grant :: "nat \<Rightarrow> terminate_call \<Rightarrow> nat \<Rightarrow> u64 \<Rightarrow> SESSIONS \<Rightarrow> SESSIONS" where
  "record_grant i c a systemTime S =
     set_check i (Decided c (Some (length (grants S))))
       (S\<lparr> grants := grants S @ [\<lparr> granted_token = a,
             granted_privileges = KPH_TOKEN_PRIVILEGE_TERMINATE, granted_time = systemTime \<rparr>] \<rparr>)"

definition exchange_step ::
  "nat \<Rightarrow> terminate_call \<Rightarrow> nat option \<Rightarrow> nat \<Rightarrow> u64 \<Rightarrow> u32 \<Rightarrow> SESSIONS \<Rightarrow> SESSIONS" where
  "exchange_step i c nxt a systemTime useCount S =
     (case tokens S a of
        None \<Rightarrow> S
      | Some token \<Rightarrow>
          (case token_decision (AccessToken token) KPH_TOKEN_PRIVILEGE_TERMINATE systemTime useCount of
             Some status \<Rightarrow>
               if status = STATUS_SUCCESS then record_grant i c a systemTime S else refuse i c nxt S
           | None \<Rightarrow>
               if UseCount token = useCount
               then record_grant i c a systemTime
                      (S\<lparr> tokens := (tokens S)(a \<mapsto> token\<lparr> UseCount := useCount + 1 \<rparr>) \<rparr>)
               else set_check i (Exchange c nxt a systemTime (UseCount token)) S))"

text \<open>One step of the check \<open>i\<close>; \<open>now\<close> is what KeQuerySystemTime answers if it is asked.\<close>

definition check_step :: "nat \<Rightarrow> u64 \<Rightarrow> SESSIONS \<Rightarrow> SESSIONS" where
  "check_step i now S =
     (case checks S i of
        ThreadSlot c \<Rightarrow>
          (case by_thread c of
             None \<Rightarrow> S
           | Some t \<Rightarrow>
               (case threads S t of
                  None \<Rightarrow> S
                | Some th \<Rightarrow>
                    (case SessionToken th of
                       None \<Rightarrow> refuse i c (ProcessContext th) S
                     | Some a \<Rightarrow> set_check i (ReadTime c (ProcessContext th) a) S)))
      | ProcessSlot c p \<Rightarrow>
          (case process_token S p of
             None \<Rightarrow> refuse i c None S
           | Some a \<Rightarrow> set_check i (ReadTime c None a) S)
      | ReadTime c nxt a \<Rightarrow> set_check i (ReadCount c nxt a now) S
      | ReadCount c nxt a systemTime \<Rightarrow>
          (case tokens S a of
             None \<Rightarrow> S
           | Some token \<Rightarrow> set_check i (Exchange c nxt a systemTime (UseCount token)) S)
      | Exchange c nxt a systemTime useCount \<Rightarrow> exchange_step i c nxt a systemTime useCount S
      | _ \<Rightarrow> S)"

section \<open>The termination of a process\<close>

text \<open>
  \<open>KphDominationAndPrivilegeCheck\<close> up to the decision of the session tokens, and what follows it.
\<close>

definition begin_check :: "nat \<Rightarrow> terminate_call \<Rightarrow> SESSIONS \<Rightarrow> SESSIONS" where
  "begin_check i c S =
     set_check i
       (if mode c = KernelMode then Decided c None
        else case by_thread c of
          None \<Rightarrow> Decided c None
        | Some t \<Rightarrow> if threads S t = None then Decided c None else ThreadSlot c) S"

definition KphDominationAndPrivilegeCheck :: "KERNEL \<Rightarrow> terminate_call \<Rightarrow> bool \<Rightarrow> ntstatus" where
  "KphDominationAndPrivilegeCheck K c granted =
     (if mode c = KernelMode then STATUS_SUCCESS
      else if granted then STATUS_SUCCESS
      else KphDominationCheck K (by_process c) (target c) (mode c))"

text \<open>
  The last part of \<open>KphTerminateProcess\<close>; \<open>opened\<close> and \<open>killed\<close> are the answers of
  ObOpenObjectByPointer and ZwTerminateProcess.
\<close>

definition finish_terminate ::
  "nat \<Rightarrow> KERNEL \<Rightarrow> ntstatus \<Rightarrow> ntstatus \<Rightarrow> SESSIONS \<Rightarrow> ntstatus \<times> SESSIONS" where
  "finish_terminate i K opened killed S =
     (case checks S i of
        Decided c g \<Rightarrow>
          let S = set_check i NoCheck S;
              status = KphDominationAndPrivilegeCheck K c (g \<noteq> None) in
          if \<not> NT_SUCCESS status then (status, S)
          else if target c = by_process c then (STATUS_ACCESS_DENIED, S)
          else if \<not> NT_SUCCESS opened then (opened, S)
          else (killed,
                if NT_SUCCESS killed
                then S\<lparr> terminations := terminations S @
                        [\<lparr> terminate_kernel = K, for_call = c, ticket = g \<rparr>] \<rparr>
                else S)
      | _ \<Rightarrow> (STATUS_SUCCESS, S))"

section \<open>The operations\<close>

text \<open>
  Everything that happens, in the order in which it happens: operations of the system, new thread
  contexts, the operations on tokens by a thread, the begin, the steps and the end of a termination.
  A process context starts without a token, and so does a thread context.
\<close>

datatype session_op =
    SystemOperation system_op
  | TrackThread nat KPH_THREAD_CONTEXT
  | RequestToken TOKEN_KERNEL nat nat u64 u32 u32
  | AssignProcess KERNEL TOKEN_KERNEL nat "u8 list option" KPROCESSOR_MODE
  | AssignThread KERNEL TOKEN_KERNEL nat "u8 list option" KPROCESSOR_MODE
  | BeginTerminate nat terminate_call
  | StepCheck nat u64
  | FinishTerminate nat KERNEL ntstatus ntstatus

definition system_operation :: "system_op \<Rightarrow> SESSIONS \<Rightarrow> SESSIONS" where
  "system_operation opr S =
     (let B = system_step opr (base S) in
      S\<lparr> base := B,
         process_token := (\<lambda>e. if contexts (base S) e = None \<and> contexts B e \<noteq> None then None
                                else process_token S e) \<rparr>)"

definition track_thread :: "nat \<Rightarrow> KPH_THREAD_CONTEXT \<Rightarrow> SESSIONS \<Rightarrow> SESSIONS" where
  "track_thread t th S =
     (if threads S t = None
      then put_thread t (KPH_THREAD_CONTEXT.extend th \<lparr> RequestSessionToken = None, SessionToken = None \<rparr>) S
      else S)"

fun session_step ::
  "(KPH_SESSION_ACCESS_TOKEN \<Rightarrow> u8 list \<Rightarrow> ntstatus) \<Rightarrow> session_op \<Rightarrow> SESSIONS \<Rightarrow> SESSIONS" where
  "session_step verifies (SystemOperation opr) S = system_operation opr S"
| "session_step verifies (TrackThread t th) S = track_thread t th S"
| "session_step verifies (RequestToken T t a expiry privileges uses) S =
     snd (snd (KphRequestSessionAccessToken T t a expiry privileges uses S))"
| "session_step verifies (AssignProcess K T t sig accessMode) S =
     snd (KphAssignProcessSessionToken verifies K T t sig accessMode S)"
| "session_step verifies (AssignThread K T t sig accessMode) S =
     snd (KphAssignThreadSessionToken verifies K T t sig accessMode S)"
| "session_step verifies (BeginTerminate i c) S = (if checks S i = NoCheck then begin_check i c S else S)"
| "session_step verifies (StepCheck i now) S = check_step i now S"
| "session_step verifies (FinishTerminate i K opened killed) S = snd (finish_terminate i K opened killed S)"

definition session_run ::
  "(KPH_SESSION_ACCESS_TOKEN \<Rightarrow> u8 list \<Rightarrow> ntstatus) \<Rightarrow> session_op list \<Rightarrow> SESSIONS \<Rightarrow> SESSIONS" where
  "session_run verifies ops S = foldl (\<lambda>S op. session_step verifies op S) S ops"

definition session_start :: "SYSTEM \<Rightarrow> SESSIONS" where
  "session_start B =
     \<lparr> base = B, threads = (\<lambda>_. None), process_token = (\<lambda>_. None), tokens = (\<lambda>_. None),
       checks = (\<lambda>_. NoCheck), requester = (\<lambda>_. None), assignments = [], grants = [], terminations = [] \<rparr>"

section \<open>The invariant\<close>

abbreviation assigned :: "SESSIONS \<Rightarrow> nat set" where
  "assigned S \<equiv> assigned_token ` set (assignments S)"

definition uses_of :: "nat \<Rightarrow> SESSIONS \<Rightarrow> nat" where
  "uses_of a S = length (filter (\<lambda>g. granted_token g = a) (grants S))"

text \<open>The token \<open>a\<close> was assigned to \<open>h\<close>, and the process \<open>e\<close> was verified for it.\<close>

definition assigned_for :: "assignment list \<Rightarrow> nat \<Rightarrow> holder \<Rightarrow> nat \<Rightarrow> bool" where
  "assigned_for xs a h e \<longleftrightarrow>
     (\<exists>x \<in> set xs. assigned_token x = a \<and> assigned_to x = h \<and> target_process x = e)"

lemma assigned_for_mono: "assigned_for xs a h e \<Longrightarrow> assigned_for (xs @ ys) a h e"
  by (auto simp: assigned_for_def)

lemma assigned_for_assigned: "assigned_for (assignments S) a h e \<Longrightarrow> a \<in> assigned S"
  by (auto simp: assigned_for_def)

text \<open>
  A requested token is in the slot of the thread that requested it, or it was assigned, or dropped;
  what is in the slot of a thread or process was assigned to it.
\<close>

definition slots_ok :: "SESSIONS \<Rightarrow> bool" where
  "slots_ok S \<longleftrightarrow>
     (\<forall>t th a. threads S t = Some th \<longrightarrow> RequestSessionToken th = Some a \<longrightarrow>
        requester S a = Some t \<and> a \<notin> assigned S) \<and>
     (\<forall>t th a. threads S t = Some th \<longrightarrow> SessionToken th = Some a \<longrightarrow>
        (\<exists>e. ProcessContext th = Some e \<and> assigned_for (assignments S) a (HolderThread t) e)) \<and>
     (\<forall>e a. process_token S e = Some a \<longrightarrow> assigned_for (assignments S) a (HolderProcess e) e)"

lemma slots_assigned:
  assumes "slots_ok S"
  shows "threads S t = Some th \<Longrightarrow> SessionToken th = Some a \<Longrightarrow> a \<in> assigned S"
    "process_token S e = Some a \<Longrightarrow> a \<in> assigned S"
  using assms assigned_for_assigned unfolding slots_ok_def by blast+

text \<open>What an assignment needed: a signature of the content, and two processes in the maximum state.\<close>

definition assignment_ok ::
  "(KPH_SESSION_ACCESS_TOKEN \<Rightarrow> u8 list \<Rightarrow> ntstatus) \<Rightarrow> SESSIONS \<Rightarrow> assignment \<Rightarrow> bool" where
  "assignment_ok verifies S x \<longleftrightarrow>
     requester S (assigned_token x) = Some (assigned_by x) \<and>
     (\<exists>token. tokens S (assigned_token x) = Some token \<and>
        NT_SUCCESS (verifies (AccessToken token) (signature x))) \<and>
     (let (actorMaximum, B) = test_state (assign_kernel x) (actor_process x) KPH_PROCESS_STATE_MAXIMUM
            (assign_system x) in
      actorMaximum \<and> fst (test_state (assign_kernel x) (target_process x) KPH_PROCESS_STATE_MAXIMUM B))"

definition token_ok :: "SESSIONS \<Rightarrow> nat \<Rightarrow> KPH_SESSION_TOKEN \<Rightarrow> bool" where
  "token_ok S a token \<longleftrightarrow>
     Privileges (AccessToken token) AND NOT KPH_TOKEN_VALID_PRIVILEGES = 0 \<and>
     (0 \<le>s Uses (AccessToken token) \<longrightarrow>
        unat (UseCount token) = uses_of a S \<and> unat (UseCount token) \<le> unat (Uses (AccessToken token)))"

definition grant_ok :: "SESSIONS \<Rightarrow> grant \<Rightarrow> bool" where
  "grant_ok S g \<longleftrightarrow>
     granted_token g \<in> assigned S \<and>
     (\<exists>token. tokens S (granted_token g) = Some token \<and>
        granted_time g <s Expiry (AccessToken token) \<and>
        Privileges (AccessToken token) AND granted_privileges g = granted_privileges g)"

fun check_ok :: "nat set \<Rightarrow> check \<Rightarrow> bool" where
  "check_ok A (ReadTime _ _ a) \<longleftrightarrow> a \<in> A"
| "check_ok A (ReadCount _ _ a _) \<longleftrightarrow> a \<in> A"
| "check_ok A (Exchange _ _ a _ _) \<longleftrightarrow> a \<in> A"
| "check_ok A _ \<longleftrightarrow> True"

fun ticket_of :: "check \<Rightarrow> nat option" where
  "ticket_of (Decided c g) = g"
| "ticket_of _ = None"

text \<open>A grant serves one termination: no two tickets, of checks or of terminations, are the same.\<close>

definition tickets_ok :: "SESSIONS \<Rightarrow> bool" where
  "tickets_ok S \<longleftrightarrow>
     (\<forall>i n. ticket_of (checks S i) = Some n \<longrightarrow>
        n < length (grants S) \<and> Some n \<notin> ticket ` set (terminations S)) \<and>
     (\<forall>i j n. ticket_of (checks S i) = Some n \<longrightarrow> ticket_of (checks S j) = Some n \<longrightarrow> i = j) \<and>
     (\<forall>n. Some n \<in> ticket ` set (terminations S) \<longrightarrow> n < length (grants S)) \<and>
     distinct (filter (\<lambda>x. x \<noteq> None) (map ticket (terminations S)))"

definition termination_ok :: "killed_process \<Rightarrow> bool" where
  "termination_ok x \<longleftrightarrow>
     by_process (for_call x) \<noteq> target (for_call x) \<and>
     (mode (for_call x) = UserMode \<and> ticket x = None \<longrightarrow>
        NT_SUCCESS (KphDominationCheck (terminate_kernel x) (by_process (for_call x)) (target (for_call x))
          UserMode))"

definition session_inv ::
  "(KPH_SESSION_ACCESS_TOKEN \<Rightarrow> u8 list \<Rightarrow> ntstatus) \<Rightarrow> SESSIONS \<Rightarrow> bool" where
  "session_inv verifies S \<longleftrightarrow>
     slots_ok S \<and> distinct (map assigned_token (assignments S)) \<and>
     (\<forall>x \<in> set (assignments S). assignment_ok verifies S x) \<and>
     (\<forall>a token. tokens S a = Some token \<longrightarrow> token_ok S a token) \<and>
     (\<forall>a. tokens S a = None \<longrightarrow> requester S a = None) \<and>
     (\<forall>g \<in> set (grants S). grant_ok S g) \<and>
     (\<forall>i. check_ok (assigned S) (checks S i)) \<and> tickets_ok S \<and>
     (\<forall>x \<in> set (terminations S). termination_ok x)"

lemma session_invD:
  assumes "session_inv verifies S"
  shows inv_slots: "slots_ok S"
    and inv_distinct: "distinct (map assigned_token (assignments S))"
    and inv_assignments: "\<And>x. x \<in> set (assignments S) \<Longrightarrow> assignment_ok verifies S x"
    and inv_tokens: "\<And>a token. tokens S a = Some token \<Longrightarrow> token_ok S a token"
    and inv_unrequested: "\<And>a. tokens S a = None \<Longrightarrow> requester S a = None"
    and inv_grants: "\<And>g. g \<in> set (grants S) \<Longrightarrow> grant_ok S g"
    and inv_checks: "\<And>i. check_ok (assigned S) (checks S i)"
    and inv_tickets: "tickets_ok S"
    and inv_terminations: "\<And>y. y \<in> set (terminations S) \<Longrightarrow> termination_ok y"
  using assms unfolding session_inv_def by blast+

lemma session_invI:
  assumes "slots_ok S" "distinct (map assigned_token (assignments S))"
    "\<And>x. x \<in> set (assignments S) \<Longrightarrow> assignment_ok verifies S x"
    "\<And>a token. tokens S a = Some token \<Longrightarrow> token_ok S a token"
    "\<And>a. tokens S a = None \<Longrightarrow> requester S a = None"
    "\<And>g. g \<in> set (grants S) \<Longrightarrow> grant_ok S g"
    "\<And>i. check_ok (assigned S) (checks S i)" "tickets_ok S"
    "\<And>y. y \<in> set (terminations S) \<Longrightarrow> termination_ok y"
  shows "session_inv verifies S"
  using assms unfolding session_inv_def by blast

lemma assigned_has_token:
  "session_inv verifies S \<Longrightarrow> a \<in> assigned S \<Longrightarrow> \<exists>token. tokens S a = Some token"
  by (auto dest!: inv_assignments simp: assignment_ok_def)

lemma session_start_inv: "session_inv verifies (session_start B)"
  by (simp add: session_inv_def session_start_def slots_ok_def tickets_ok_def)

subsection \<open>What the parts of an operation keep\<close>

lemma same_view:
  "assignment_ok verifies (S\<lparr> base := B \<rparr>) = assignment_ok verifies S"
  "assignment_ok verifies (S\<lparr> threads := th \<rparr>) = assignment_ok verifies S"
  "assignment_ok verifies (S\<lparr> process_token := p \<rparr>) = assignment_ok verifies S"
  "assignment_ok verifies (S\<lparr> checks := c \<rparr>) = assignment_ok verifies S"
  "assignment_ok verifies (S\<lparr> grants := g \<rparr>) = assignment_ok verifies S"
  "assignment_ok verifies (S\<lparr> terminations := k \<rparr>) = assignment_ok verifies S"
  "assignment_ok verifies (S\<lparr> assignments := xs \<rparr>) = assignment_ok verifies S"
  "token_ok (S\<lparr> base := B \<rparr>) = token_ok S"
  "token_ok (S\<lparr> threads := th \<rparr>) = token_ok S"
  "token_ok (S\<lparr> process_token := p \<rparr>) = token_ok S"
  "token_ok (S\<lparr> checks := c \<rparr>) = token_ok S"
  "token_ok (S\<lparr> terminations := k \<rparr>) = token_ok S"
  "token_ok (S\<lparr> assignments := xs \<rparr>) = token_ok S"
  "token_ok (S\<lparr> tokens := ts \<rparr>) = token_ok S"
  "token_ok (S\<lparr> requester := r \<rparr>) = token_ok S"
  "grant_ok (S\<lparr> base := B \<rparr>) = grant_ok S"
  "grant_ok (S\<lparr> threads := th \<rparr>) = grant_ok S"
  "grant_ok (S\<lparr> process_token := p \<rparr>) = grant_ok S"
  "grant_ok (S\<lparr> checks := c \<rparr>) = grant_ok S"
  "grant_ok (S\<lparr> grants := g \<rparr>) = grant_ok S"
  "grant_ok (S\<lparr> terminations := k \<rparr>) = grant_ok S"
  "grant_ok (S\<lparr> requester := r \<rparr>) = grant_ok S"
  by (intro ext; simp add: assignment_ok_def token_ok_def grant_ok_def uses_of_def)+

lemma same_view_state:
  "tickets_ok (S\<lparr> base := B \<rparr>) = tickets_ok S"
  "tickets_ok (S\<lparr> threads := th \<rparr>) = tickets_ok S"
  "tickets_ok (S\<lparr> process_token := p \<rparr>) = tickets_ok S"
  "tickets_ok (S\<lparr> tokens := ts \<rparr>) = tickets_ok S"
  "tickets_ok (S\<lparr> requester := r \<rparr>) = tickets_ok S"
  "tickets_ok (S\<lparr> assignments := xs \<rparr>) = tickets_ok S"
  "slots_ok (S\<lparr> base := B \<rparr>) = slots_ok S"
  "slots_ok (S\<lparr> checks := c \<rparr>) = slots_ok S"
  "slots_ok (S\<lparr> grants := g \<rparr>) = slots_ok S"
  "slots_ok (S\<lparr> terminations := k \<rparr>) = slots_ok S"
  "slots_ok (S\<lparr> tokens := ts \<rparr>) = slots_ok S"
  by (simp_all add: tickets_ok_def slots_ok_def)

lemmas views = same_view same_view_state

lemma check_ok_mono: "check_ok A c \<Longrightarrow> A \<subseteq> B \<Longrightarrow> check_ok B c"
  by (cases c) auto

lemma inv_slots_update:
  assumes "session_inv verifies S"
    and "slots_ok (S\<lparr> base := B, threads := th, process_token := p \<rparr>)"
  shows "session_inv verifies (S\<lparr> base := B, threads := th, process_token := p \<rparr>)"
  by (rule session_invI) (use assms session_invD [OF assms(1)] in \<open>simp_all add: views\<close>)

lemma inv_base:
  assumes "session_inv verifies S"
  shows "session_inv verifies (S\<lparr> base := B \<rparr>)"
  using inv_slots_update [OF assms, where B = B and th = "threads S" and p = "process_token S"] inv_slots [OF assms]
  by (simp add: views)

lemma inv_put_thread:
  assumes "session_inv verifies S"
    and "\<And>a. RequestSessionToken th = Some a \<Longrightarrow> requester S a = Some t \<and> a \<notin> assigned S"
    and "\<And>a. SessionToken th = Some a \<Longrightarrow>
      \<exists>e. ProcessContext th = Some e \<and> assigned_for (assignments S) a (HolderThread t) e"
  shows "session_inv verifies (put_thread t th S)"
proof -
  have "slots_ok (S\<lparr> base := base S, threads := (threads S)(t \<mapsto> th), process_token := process_token S \<rparr>)"
    using inv_slots [OF assms(1)] assms(2,3) by (auto simp: slots_ok_def split: if_splits)
  then show ?thesis
    using inv_slots_update [OF assms(1)] by (fastforce simp: put_thread_def)
qed

lemma inv_put_process:
  assumes "session_inv verifies S" "assigned_for (assignments S) a (HolderProcess e) e"
  shows "session_inv verifies (S\<lparr> process_token := (process_token S)(e := Some a) \<rparr>)"
proof -
  have "slots_ok (S\<lparr> base := base S, threads := threads S, process_token := (process_token S)(e := Some a) \<rparr>)"
    using inv_slots [OF assms(1)] assms(2) by (simp add: slots_ok_def)
  then show ?thesis using inv_slots_update [OF assms(1)] by fastforce
qed

lemma inv_system: "session_inv verifies S \<Longrightarrow> session_inv verifies (system_operation opr S)"
proof -
  assume inv: "session_inv verifies S"
  let ?B = "system_step opr (base S)"
  let ?p = "\<lambda>e. if contexts (base S) e = None \<and> contexts ?B e \<noteq> None then None else process_token S e"
  have "slots_ok (S\<lparr> base := ?B, threads := threads S, process_token := ?p \<rparr>)"
    using inv_slots [OF inv] by (auto simp: slots_ok_def split: if_splits)
  then show ?thesis
    using inv_slots_update [OF inv] by (fastforce simp: system_operation_def Let_def)
qed

text \<open>A new token, which nobody has used.\<close>

lemma inv_new_token:
  assumes inv: "session_inv verifies S" and fresh: "tokens S a = None"
    and token: "Privileges (AccessToken token) AND NOT KPH_TOKEN_VALID_PRIVILEGES = 0" "UseCount token = 0"
  shows "session_inv verifies (S\<lparr> tokens := (tokens S)(a \<mapsto> token), requester := (requester S)(a \<mapsto> t) \<rparr>)"
    (is "session_inv verifies ?S") and "a \<notin> assigned S"
proof -
  show new: "a \<notin> assigned S" using assigned_has_token [OF inv] fresh by fastforce
  have unused: "uses_of a S = 0"
    using inv_grants [OF inv] new by (auto simp: uses_of_def grant_ok_def filter_empty_conv)
  show "session_inv verifies ?S"
  proof (rule session_invI)
    show "slots_ok ?S"
      using inv_slots [OF inv] inv_unrequested [OF inv fresh] by (auto simp: slots_ok_def)
    show "assignment_ok verifies ?S x" if "x \<in> set (assignments ?S)" for x
      using inv_assignments [OF inv, of x] that new by (auto simp: assignment_ok_def)
    show "token_ok ?S b tk" if "tokens ?S b = Some tk" for b tk
      using inv_tokens [OF inv, of b tk] that token unused
      by (auto simp: token_ok_def uses_of_def split: if_splits)
    show "grant_ok ?S g" if "g \<in> set (grants ?S)" for g
      using inv_grants [OF inv, of g] that new by (auto simp: grant_ok_def)
    show "requester ?S b = None" if "tokens ?S b = None" for b
      using inv_unrequested [OF inv] that by (auto split: if_splits)
  qed (use session_invD [OF inv] in \<open>simp_all add: views\<close>)
qed

lemma inv_request:
  assumes inv: "session_inv verifies S"
  shows "session_inv verifies (snd (snd (KphRequestSessionAccessToken T t a expiry privileges uses S)))"
proof -
  have "session_inv verifies (put_thread t (th\<lparr> RequestSessionToken := Some a \<rparr>)
      (S\<lparr> tokens := (tokens S)(a \<mapsto> token), requester := (requester S)(a \<mapsto> t) \<rparr>))"
    if "tokens S a = None" "threads S t = Some th" "Privileges (AccessToken token) = privileges"
      "UseCount token = 0" "privileges AND NOT KPH_TOKEN_VALID_PRIVILEGES = 0" for th token
  proof (rule inv_put_thread)
    show "session_inv verifies (S\<lparr> tokens := (tokens S)(a \<mapsto> token), requester := (requester S)(a \<mapsto> t) \<rparr>)"
      using inv_new_token [OF inv that(1)] that by blast
  qed (use inv_new_token(2) [OF inv that(1), of token] inv_slots [OF inv] that in \<open>auto simp: slots_ok_def\<close>)
  then show ?thesis
    using inv
    by (auto simp: KphRequestSessionAccessToken_def KphpInitializeSessionToken_def Let_def
        split: option.splits prod.splits if_splits)
qed

lemma inv_append_assignment:
  assumes inv: "session_inv verifies S" and ok: "assignment_ok verifies S x"
    and new: "assigned_token x \<notin> assigned S"
    and free: "\<And>t th. threads S t = Some th \<Longrightarrow> RequestSessionToken th \<noteq> Some (assigned_token x)"
  shows "session_inv verifies (S\<lparr> assignments := assignments S @ [x] \<rparr>)" (is "session_inv verifies ?S")
proof (rule session_invI)
  show "slots_ok ?S" using inv_slots [OF inv] free by (fastforce simp: slots_ok_def intro: assigned_for_mono)
  show "grant_ok ?S g" if "g \<in> set (grants ?S)" for g
    using inv_grants [OF inv, of g] that by (auto simp: grant_ok_def)
  show "check_ok (assigned ?S) (checks ?S i)" for i
    using inv_checks [OF inv, of i] by (auto elim: check_ok_mono)
qed (use session_invD [OF inv] ok new in \<open>auto simp: views\<close>)

lemma verify_success:
  assumes "KphpVerifySessionToken verifies K T actor e token sig m B = (status, B')" "NT_SUCCESS status"
  shows "NT_SUCCESS (verifies (AccessToken token) sig)"
    and "fst (test_state K actor KPH_PROCESS_STATE_MAXIMUM B)"
    and "fst (test_state K e KPH_PROCESS_STATE_MAXIMUM (snd (test_state K actor KPH_PROCESS_STATE_MAXIMUM B)))"
  using assms by (auto simp: KphpVerifySessionToken_def Let_def case_prod_beta split: if_splits)

lemma inv_assign:
  assumes inv: "session_inv verifies S"
    and put: "\<And>S' a e. session_inv verifies S' \<Longrightarrow> tgt = Some e \<Longrightarrow> assigned_for (assignments S') a h e \<Longrightarrow>
      (\<And>u. map_option ProcessContext (threads S' u) = map_option ProcessContext (threads S u)) \<Longrightarrow>
      session_inv verifies (put a S')"
  shows "session_inv verifies (snd (assign_token verifies K T t tgt h sig m put S))"
proof (cases "\<exists>th a. threads S t = Some th \<and> RequestSessionToken th = Some a")
  case False
  then show ?thesis using inv by (auto simp: assign_token_def split: option.splits)
next
  case True
  then obtain th a where th: "threads S t = Some th" and a: "RequestSessionToken th = Some a" by blast
  define S1 where "S1 = put_thread t (th\<lparr> RequestSessionToken := None \<rparr>) S"
  have req: "requester S a = Some t" "a \<notin> assigned S"
    using inv_slots [OF inv] th a by (auto simp: slots_ok_def)
  have inv1: "session_inv verifies S1"
    unfolding S1_def by (rule inv_put_thread [OF inv]) (use inv_slots [OF inv] th in \<open>auto simp: slots_ok_def\<close>)
  have free: "RequestSessionToken th' \<noteq> Some a" if "threads S1 u = Some th'" for u th'
    using inv_slots [OF inv] req(1) that
    by (auto simp: slots_ok_def S1_def put_thread_def split: if_splits)
  have same: "requester S1 = requester S" "assignments S1 = assignments S" "tokens S1 = tokens S" "base S1 = base S"
    by (simp_all add: S1_def put_thread_def)
  show ?thesis
  proof (cases "\<exists>actor e token. ProcessContext th = Some actor \<and> tgt = Some e \<and> tokens S1 a = Some token")
    case False
    then show ?thesis
      using th a inv1 by (auto simp: assign_token_def Let_def S1_def [symmetric] split: option.splits)
  next
    case True
    then obtain actor e token where p: "ProcessContext th = Some actor" "tgt = Some e"
      and token: "tokens S1 a = Some token" by blast
    obtain status B where v:
      "KphpVerifySessionToken verifies K T actor e token sig m (base S) = (status, B)" by fastforce
    define x where "x = \<lparr> assigned_token = a, assigned_to = h, assigned_by = t, actor_process = actor, target_process = e,
      signature = sig, assign_kernel = K, assign_system = base S \<rparr>"
    have run: "snd (assign_token verifies K T t tgt h sig m put S) =
        (if NT_SUCCESS status then put a (S1\<lparr> base := B, assignments := assignments S1 @ [x] \<rparr>)
         else S1\<lparr> base := B \<rparr>)"
      using th a p token v by (simp add: assign_token_def Let_def S1_def [symmetric] same x_def)
    have inv2: "session_inv verifies (S1\<lparr> base := B \<rparr>)" by (rule inv_base [OF inv1])
    have "session_inv verifies (put a (S1\<lparr> base := B, assignments := assignments S1 @ [x] \<rparr>))"
      if ok: "NT_SUCCESS status"
    proof (rule put [OF _ p(2)])
      have "assignment_ok verifies (S1\<lparr> base := B \<rparr>) x"
        using verify_success [OF v ok] token req(1)
        by (simp add: assignment_ok_def x_def same Let_def case_prod_beta)
      then have "session_inv verifies
          (S1\<lparr> base := B, assignments := assignments (S1\<lparr> base := B \<rparr>) @ [x] \<rparr>)"
        by (rule inv_append_assignment [OF inv2]) (use req(2) free in \<open>simp_all add: x_def same\<close>)
      then show "session_inv verifies (S1\<lparr> base := B, assignments := assignments S1 @ [x] \<rparr>)" by simp
    qed (use th in \<open>auto simp: x_def assigned_for_def S1_def put_thread_def\<close>)
    then show ?thesis using inv2 by (simp add: run)
  qed
qed

lemma inv_assign_process:
  assumes inv: "session_inv verifies S"
  shows "session_inv verifies (snd (KphAssignProcessSessionToken verifies K T t sig m S))"
proof -
  have "session_inv verifies (snd (assign_token verifies K T t (Some e) (HolderProcess e) sig m
      (\<lambda>a S. S\<lparr> process_token := (process_token S)(e := Some a) \<rparr>) S))" for e sig
    by (rule inv_assign [OF inv]) (auto intro: inv_put_process)
  then show ?thesis
    using inv by (auto simp: KphAssignProcessSessionToken_def Let_def case_prod_beta split: option.splits)
qed

lemma inv_assign_thread:
  assumes inv: "session_inv verifies S"
  shows "session_inv verifies (snd (KphAssignThreadSessionToken verifies K T t sig m S))"
proof -
  have "session_inv verifies (snd (assign_token verifies K T t (ProcessContext uth) (HolderThread u) sig m
      (\<lambda>a S. case threads S u of None \<Rightarrow> S
         | Some uth \<Rightarrow> put_thread u (uth\<lparr> SessionToken := Some a \<rparr>) S) S))"
    if uth: "threads S u = Some uth" for u uth sig
  proof (rule inv_assign [OF inv])
    fix S' a e
    assume S': "session_inv verifies S'" "ProcessContext uth = Some e" "assigned_for (assignments S') a (HolderThread u) e"
      and same: "map_option ProcessContext (threads S' v) = map_option ProcessContext (threads S v)" for v
    obtain uth' where uth': "threads S' u = Some uth'" "ProcessContext uth' = Some e"
      using same [of u] uth S'(2) by (cases "threads S' u") auto
    have "session_inv verifies (put_thread u (uth'\<lparr> SessionToken := Some a \<rparr>) S')"
      by (rule inv_put_thread [OF S'(1)])
        (use inv_slots [OF S'(1)] uth' S'(3) in \<open>auto simp: slots_ok_def\<close>)
    then show "session_inv verifies (case threads S' u of None \<Rightarrow> S'
         | Some uth \<Rightarrow> put_thread u (uth\<lparr> SessionToken := Some a \<rparr>) S')"
      using uth'(1) by simp
  qed
  then show ?thesis
    using inv by (auto simp: KphAssignThreadSessionToken_def Let_def case_prod_beta split: option.splits)
qed

subsection \<open>What a check keeps\<close>

lemma tickets_mono:
  assumes "tickets_ok S" and le: "length (grants S) \<le> length (grants S')"
    and same: "terminations S' = terminations S"
    and sub: "\<And>j. ticket_of (checks S' j) = None \<or> ticket_of (checks S' j) = ticket_of (checks S j)"
  shows "tickets_ok S'"
proof -
  have bk: "ticket_of (checks S j) = Some n" if "ticket_of (checks S' j) = Some n" for j n
    using sub [of j] that by simp
  show ?thesis
    using assms(1) le unfolding tickets_ok_def same by (meson bk less_le_trans)
qed

lemma inv_set_check:
  assumes inv: "session_inv verifies S" and ok: "check_ok (assigned S) c"
    and ticket: "ticket_of c = None \<or> ticket_of c = ticket_of (checks S i)"
  shows "session_inv verifies (set_check i c S)"
proof (rule session_invI)
  show "check_ok (assigned (set_check i c S)) (checks (set_check i c S) j)" for j
    using inv_checks [OF inv, of j] ok by (simp add: set_check_def)
  show "tickets_ok (set_check i c S)"
    by (rule tickets_mono [OF inv_tickets [OF inv]]) (use ticket in \<open>auto simp: set_check_def\<close>)
qed (use session_invD [OF inv] in \<open>simp_all add: views set_check_def\<close>)

lemma inv_refuse:
  "session_inv verifies S \<Longrightarrow> session_inv verifies (refuse i c nxt S)"
  by (auto simp: refuse_def intro!: inv_set_check split: option.splits)

text \<open>A use that is counted.\<close>

lemma sint_uint_u32:
  fixes w :: u32
  obtains "0 \<le> sint w" "uint w = sint w" "uint w < 2147483648"
    | "sint w < 0" "uint w = sint w + 4294967296" "2147483648 \<le> uint w"
proof -
  have r: "- 2147483648 \<le> sint w" "sint w < 2147483648"
    using sint_ge [of w] sint_less [of w] by simp_all
  have u: "uint w = sint w mod 4294967296"
    using uint_sint [of w] by (simp add: take_bit_eq_mod)
  show thesis
  proof (cases "0 \<le> sint w")
    case True
    then have "uint w = sint w" using u r by simp
    then show thesis using that(1) True r by simp
  next
    case False
    then have "(sint w + 4294967296) mod 4294967296 = sint w + 4294967296"
      using r by (intro mod_pos_pos_trivial) linarith+
    then have "uint w = sint w + 4294967296" using u by simp
    then show thesis using that(2) False r by simp
  qed
qed

lemma count_use:
  fixes u c :: u32
  assumes "0 \<le>s u" "unat c \<le> unat u" "\<not> u \<le>s c"
  shows "unat (c + 1) = unat c + 1" and "unat (c + 1) \<le> unat u"
proof -
  have u: "0 \<le> sint u" using assms(1) by (simp add: word_sle_eq)
  have le: "uint c \<le> uint u" using assms(2) by (simp add: word_le_nat_alt flip: word_le_def)
  have "uint u < 2147483648" "uint u = sint u" using u by (cases u rule: sint_uint_u32; simp)+
  moreover have "uint c = sint c" using le calculation by (cases c rule: sint_uint_u32) simp_all
  moreover have "sint c < sint u" using assms(3) by (simp add: word_sle_eq)
  ultimately have "c < u" by (simp add: word_less_def)
  then have lt: "unat c < unat u" by (simp add: word_less_nat_alt)
  show "unat (c + 1) = unat c + 1" using suc_below [OF lt] by simp
  then show "unat (c + 1) \<le> unat u" using lt by simp
qed

lemma uses_of_snoc:
  "uses_of a (S\<lparr> grants := grants S @ [g] \<rparr>) = uses_of a S + of_bool (granted_token g = a)"
  by (simp add: uses_of_def)

text \<open>A grant on the token \<open>a\<close>, whose use count becomes \<open>n\<close>.\<close>

lemma inv_record_grant:
  assumes inv: "session_inv verifies S" and a: "a \<in> assigned S" "tokens S a = Some token"
    and idle: "ticket_of (checks S i) = None"
    and time: "systemTime <s Expiry (AccessToken token)"
    and priv: "Privileges (AccessToken token) AND KPH_TOKEN_PRIVILEGE_TERMINATE = KPH_TOKEN_PRIVILEGE_TERMINATE"
    and uses: "0 \<le>s Uses (AccessToken token) \<longrightarrow>
      unat n = unat (UseCount token) + 1 \<and> unat n \<le> unat (Uses (AccessToken token))"
  shows "session_inv verifies (record_grant i c a systemTime
           (S\<lparr> tokens := (tokens S)(a \<mapsto> token\<lparr> UseCount := n \<rparr>) \<rparr>))" (is "session_inv verifies ?S")
proof -
  let ?g = "\<lparr> granted_token = a, granted_privileges = KPH_TOKEN_PRIVILEGE_TERMINATE, granted_time = systemTime \<rparr>"
  have S: "?S = S\<lparr> tokens := (tokens S)(a \<mapsto> token\<lparr> UseCount := n \<rparr>), grants := grants S @ [?g],
      checks := (checks S)(i := Decided c (Some (length (grants S)))) \<rparr>"
    by (simp add: record_grant_def set_check_def)
  show ?thesis
  proof (rule session_invI)
    show "slots_ok ?S" using inv_slots [OF inv] by (simp add: S slots_ok_def)
    show "assignment_ok verifies ?S x" if "x \<in> set (assignments ?S)" for x
      using inv_assignments [OF inv, of x] that a(2) by (auto simp: S assignment_ok_def)
    show "token_ok ?S b tk" if "tokens ?S b = Some tk" for b tk
      using inv_tokens [OF inv, of b] that a(2) uses
      by (auto simp: S token_ok_def uses_of_def split: if_splits)
    show "grant_ok ?S g" if "g \<in> set (grants ?S)" for g
      using inv_grants [OF inv, of g] that a time priv by (auto simp: S grant_ok_def)
    show "requester ?S b = None" if "tokens ?S b = None" for b
      using inv_unrequested [OF inv] that by (auto simp: S split: if_splits)
    show "check_ok (assigned ?S) (checks ?S j)" for j
      using inv_checks [OF inv, of j] by (simp add: S)
    have tk: "ticket_of (checks ?S j) = (if j = i then Some (length (grants S)) else ticket_of (checks S j))" for j
      by (simp add: S)
    have old: "n \<noteq> length (grants S)" if "ticket_of (checks S j) = Some n" for j n
      using inv_tickets [OF inv] that unfolding tickets_ok_def by blast
    show "tickets_ok ?S"
      unfolding tickets_ok_def tk using inv_tickets [OF inv] old
      by (auto simp: S tickets_ok_def less_Suc_eq)
  qed (use session_invD [OF inv] in \<open>simp_all add: S\<close>)
qed

lemma inv_exchange:
  assumes inv: "session_inv verifies S" and chk: "checks S i = Exchange c nxt a systemTime useCount"
  shows "session_inv verifies (exchange_step i c nxt a systemTime useCount S)"
proof -
  have a: "a \<in> assigned S" using inv_checks [OF inv, of i] by (simp add: chk)
  then obtain token where token: "tokens S a = Some token" using assigned_has_token [OF inv] by blast
  have idle: "ticket_of (checks S i) = None" by (simp add: chk)
  note ok = inv_tokens [OF inv token, unfolded token_ok_def]
  note grant = inv_record_grant [OF inv a token idle]
  let ?d = "token_decision (AccessToken token) KPH_TOKEN_PRIVILEGE_TERMINATE systemTime useCount"
  show ?thesis
  proof (cases ?d)
    case (Some status)
    show ?thesis
    proof (cases "status = STATUS_SUCCESS")
      case True
      then have d: "systemTime <s Expiry (AccessToken token)" "Uses (AccessToken token) <s 0"
        "Privileges (AccessToken token) AND KPH_TOKEN_PRIVILEGE_TERMINATE = KPH_TOKEN_PRIVILEGE_TERMINATE"
        using Some by (auto simp: token_decision_def split: if_splits)
      have same: "S\<lparr> tokens := (tokens S)(a \<mapsto> token\<lparr> UseCount := UseCount token \<rparr>) \<rparr> = S"
        using token by (simp add: fun_upd_idem)
      have "session_inv verifies (record_grant i c a systemTime S)"
        using grant [of systemTime "UseCount token" c] d unfolding same by (auto simp: not_le [symmetric])
      then show ?thesis using True Some token by (simp add: exchange_step_def)
    next
      case False
      then show ?thesis using Some token inv_refuse [OF inv] by (simp add: exchange_step_def)
    qed
  next
    case None
    then have d: "systemTime <s Expiry (AccessToken token)" "0 \<le>s Uses (AccessToken token)"
      "Privileges (AccessToken token) AND KPH_TOKEN_PRIVILEGE_TERMINATE = KPH_TOKEN_PRIVILEGE_TERMINATE"
      "\<not> Uses (AccessToken token) \<le>s useCount"
      by (auto simp: token_decision_def split: if_splits)
    show ?thesis
    proof (cases "UseCount token = useCount")
      case True
      have "unat (useCount + 1) = unat useCount + 1" "unat (useCount + 1) \<le> unat (Uses (AccessToken token))"
        using count_use [OF d(2) _ d(4)] ok d(2) True by auto
      then show ?thesis
        using None token True grant [OF d(1,3), of "useCount + 1" c] by (simp add: exchange_step_def)
    next
      case False
      then show ?thesis
        using None token a inv_set_check [OF inv, of "Exchange c nxt a systemTime (UseCount token)" i]
        by (simp add: exchange_step_def)
    qed
  qed
qed

lemma inv_check_step:
  assumes inv: "session_inv verifies S"
  shows "session_inv verifies (check_step i now S)"
proof (cases "checks S i")
  case (ThreadSlot c)
  then show ?thesis
    using inv inv_refuse [OF inv] slots_assigned(1) [OF inv_slots [OF inv]]
    by (auto simp: check_step_def intro!: inv_set_check split: option.splits)
next
  case (ProcessSlot c p)
  then show ?thesis
    using inv_refuse [OF inv] slots_assigned(2) [OF inv_slots [OF inv]]
    by (auto simp: check_step_def intro!: inv_set_check [OF inv] split: option.splits)
next
  case (ReadTime c nxt a)
  then show ?thesis
    using inv_checks [OF inv, of i] by (auto simp: check_step_def intro!: inv_set_check [OF inv])
next
  case (ReadCount c nxt a systemTime)
  then show ?thesis
    using inv inv_checks [OF inv, of i]
    by (auto simp: check_step_def intro!: inv_set_check [OF inv] split: option.splits)
next
  case (Exchange c nxt a systemTime useCount)
  then show ?thesis using inv_exchange [OF inv Exchange] by (simp add: check_step_def)
qed (simp_all add: check_step_def inv)

lemma inv_begin: "session_inv verifies S \<Longrightarrow> session_inv verifies (begin_check i c S)"
  by (auto simp: begin_check_def intro!: inv_set_check split: option.splits)

lemma inv_terminated:
  assumes inv: "session_inv verifies S" and chk: "checks S i = Decided c g"
    and ok: "termination_ok \<lparr> terminate_kernel = K, for_call = c, ticket = g \<rparr>"
  shows "session_inv verifies (set_check i NoCheck S\<lparr> terminations := terminations S @
           [\<lparr> terminate_kernel = K, for_call = c, ticket = g \<rparr>] \<rparr>)" (is "session_inv verifies ?S")
proof (rule session_invI)
  have tk: "ticket_of (checks ?S j) = (if j = i then None else ticket_of (checks S j))" for j
    by (simp add: set_check_def)
  have g: "g = ticket_of (checks S i)" by (simp add: chk)
  have frame: "grants ?S = grants S" "assignments ?S = assignments S" "tokens ?S = tokens S"
    "requester ?S = requester S" by (simp_all add: set_check_def)
  show "tickets_ok ?S"
    unfolding tickets_ok_def tk frame using inv_tickets [OF inv]
    by (auto simp: tickets_ok_def g set_check_def split: if_splits) (metis image_eqI)
  show "check_ok (assigned ?S) (checks ?S j)" for j
    using inv_checks [OF inv, of j] by (simp add: set_check_def)
qed (use session_invD [OF inv] ok in \<open>auto simp: views set_check_def\<close>)

lemma inv_finish:
  assumes inv: "session_inv verifies S"
  shows "session_inv verifies (snd (finish_terminate i K opened killed S))"
proof (cases "checks S i")
  case (Decided c g)
  have none: "session_inv verifies (set_check i NoCheck S)"
    by (rule inv_set_check [OF inv]) simp_all
  show ?thesis
  proof (cases "NT_SUCCESS (KphDominationAndPrivilegeCheck K c (g \<noteq> None)) \<and> target c \<noteq> by_process c")
    case True
    then have "termination_ok \<lparr> terminate_kernel = K, for_call = c, ticket = g \<rparr>"
      by (cases "mode c") (auto simp: termination_ok_def KphDominationAndPrivilegeCheck_def)
    then show ?thesis
      using none inv_terminated [OF inv Decided]
      by (simp add: finish_terminate_def Decided Let_def set_check_def)
  qed (use none in \<open>auto simp: finish_terminate_def Decided Let_def\<close>)
qed (simp_all add: finish_terminate_def inv)

lemma inv_session_step: "session_inv verifies S \<Longrightarrow> session_inv verifies (session_step verifies opr S)"
proof (cases opr)
  case (TrackThread t th)
  assume "session_inv verifies S"
  then show ?thesis
    by (auto simp: TrackThread track_thread_def KPH_THREAD_CONTEXT.defs intro!: inv_put_thread)
qed (auto intro: inv_system inv_request inv_assign_process inv_assign_thread inv_begin inv_check_step inv_finish)

lemma session_run_inv: "session_inv verifies S \<Longrightarrow> session_inv verifies (session_run verifies ops S)"
  by (induction ops arbitrary: S) (auto simp: session_run_def intro: inv_session_step)

section \<open>The properties\<close>

text \<open>The terminations that a use of the token \<open>a\<close> paid for.\<close>

definition paid_by :: "nat \<Rightarrow> SESSIONS \<Rightarrow> killed_process list" where
  "paid_by a S = filter (\<lambda>x. case ticket x of
       None \<Rightarrow> False
     | Some n \<Rightarrow> n < length (grants S) \<and> granted_token (grants S ! n) = a) (terminations S)"

lemma paid_by_uses:
  assumes "session_inv verifies S"
  shows "length (paid_by a S) \<le> uses_of a S"
proof -
  let ?ns = "map (\<lambda>x. the (ticket x)) (paid_by a S)"
  have some: "ticket x \<noteq> None" if "x \<in> set (paid_by a S)" for x
    using that by (auto simp: paid_by_def split: option.splits)
  have "distinct (filter (\<lambda>t. t \<noteq> None) (map ticket (terminations S)))"
    using inv_tickets [OF assms] by (simp add: tickets_ok_def)
  moreover have "filter (\<lambda>t. case t of None \<Rightarrow> False | Some n \<Rightarrow> n < length (grants S) \<and> granted_token (grants S ! n) = a)
      (filter (\<lambda>t. t \<noteq> None) (map ticket (terminations S))) = map ticket (paid_by a S)"
    by (simp add: paid_by_def filter_map comp_def) (rule arg_cong [where f = "map ticket"], rule filter_cong,
      auto split: option.splits)
  ultimately have "distinct (map ticket (paid_by a S))" by (metis distinct_filter)
  moreover have "map ticket (paid_by a S) = map Some ?ns"
    using some by (simp add: comp_def)
  ultimately have d: "distinct ?ns" by (metis distinct_map)
  have "set ?ns \<subseteq> {n. n < length (grants S) \<and> granted_token (grants S ! n) = a}"
    by (auto simp: paid_by_def split: option.splits)
  then have "card (set ?ns) \<le> card {n. n < length (grants S) \<and> granted_token (grants S ! n) = a}"
    by (intro card_mono) auto
  then show ?thesis
    using distinct_card [OF d] by (simp add: uses_of_def length_filter_conv_card)
qed

text \<open>
  C10: Session tokens are not forged, moved or overdrawn. Whatever is done in whatever order, and
  however the privilege checks interleave: a token that a thread or process holds was assigned to
  this very thread or process, and only once, so that no two hold the same; it was requested by the
  thread that assigned it, its content was signed, and the assigning process and the receiving one,
  which is that of the thread, were in the maximum state when it was verified. Every privilege granted
  is one of the token's, all of them valid ones, was granted before the token expired, and a token
  with a number of uses grants no more often than that.
\<close>

theorem session_tokens_accounted:
  "let S = session_run verifies ops (session_start B) in
     (\<forall>t th a. threads S t = Some th \<and> SessionToken th = Some a \<longrightarrow>
        (\<exists>x \<in> set (assignments S). assigned_token x = a \<and> assigned_to x = HolderThread t \<and>
           ProcessContext th = Some (target_process x))) \<and>
     (\<forall>e a. process_token S e = Some a \<longrightarrow>
        (\<exists>x \<in> set (assignments S). assigned_token x = a \<and> assigned_to x = HolderProcess e \<and>
           target_process x = e)) \<and>
     distinct (map assigned_token (assignments S)) \<and>
     (\<forall>x \<in> set (assignments S). assignment_ok verifies S x) \<and>
     (\<forall>g \<in> set (grants S). grant_ok S g) \<and>
     (\<forall>a token. tokens S a = Some token \<longrightarrow>
        Privileges (AccessToken token) AND NOT KPH_TOKEN_VALID_PRIVILEGES = 0 \<and>
        (0 \<le>s Uses (AccessToken token) \<longrightarrow> uses_of a S \<le> unat (Uses (AccessToken token))))"
proof -
  define S where "S = session_run verifies ops (session_start B)"
  have inv: "session_inv verifies S"
    unfolding S_def by (rule session_run_inv [OF session_start_inv])
  have "\<forall>t th a. threads S t = Some th \<and> SessionToken th = Some a \<longrightarrow>
      (\<exists>x \<in> set (assignments S). assigned_token x = a \<and> assigned_to x = HolderThread t \<and>
         ProcessContext th = Some (target_process x))"
    "\<forall>e a. process_token S e = Some a \<longrightarrow>
      (\<exists>x \<in> set (assignments S). assigned_token x = a \<and> assigned_to x = HolderProcess e \<and>
         target_process x = e)"
    using inv_slots [OF inv] unfolding slots_ok_def assigned_for_def by fast+
  moreover have "\<forall>a token. tokens S a = Some token \<longrightarrow>
      Privileges (AccessToken token) AND NOT KPH_TOKEN_VALID_PRIVILEGES = 0 \<and>
      (0 \<le>s Uses (AccessToken token) \<longrightarrow> uses_of a S \<le> unat (Uses (AccessToken token)))"
    using inv_tokens [OF inv] unfolding token_ok_def by metis
  ultimately show ?thesis
    using inv_distinct [OF inv] inv_assignments [OF inv] inv_grants [OF inv]
    unfolding Let_def S_def [symmetric] by blast
qed

text \<open>
  Two processes of which the caller does not dominate the other. The caller requests a token for one
  use, assigns it to itself and terminates the other process; its second attempt is refused.
\<close>

definition session_kernel :: KERNEL where
  "session_kernel = example_kernel\<lparr> PsGetProcessProtection :=
     (\<lambda>e. if e = 40 then \<lparr> ProtectedType = 2, ProtectedSigner = 3 \<rparr>
          else \<lparr> ProtectedType = 0, ProtectedSigner = 0 \<rparr>) \<rparr>"

definition session_process :: KPH_PROCESS_CONTEXT where
  "session_process = (set_state (KPH_PROTECTION_VERIFIED OR KPH_PROTECTION_ACTIVE OR KPH_PROTECTION_TCB)
     (KphpInitializeProcessContext 20 (Some []) (Some 10) False))\<lparr> CreateNotification := True \<rparr>"

definition session_system :: SYSTEM where
  "session_system = \<lparr> contexts = [20 \<mapsto> session_process], tracked = [20], lsass = 99, handles = (\<lambda>e. []) \<rparr>"

definition session_answers :: TOKEN_KERNEL where
  "session_answers = \<lparr> ExUuidCreate = (0, replicate 16 1), BCryptGenRandom = (STATUS_SUCCESS, replicate 32 2),
     KeQuerySystemTime = 100, object_allocated = True, SessionTokenPublicKeyHandle = True,
     capture_signature = STATUS_SUCCESS, ObReferenceObjectByHandle = (STATUS_SUCCESS, 20) \<rparr>"

definition session_call :: terminate_call where
  "session_call = \<lparr> by_thread = Some 21, by_process = 20, target = 40, mode = UserMode \<rparr>"

definition session_verifies :: "KPH_SESSION_ACCESS_TOKEN \<Rightarrow> u8 list \<Rightarrow> ntstatus" where
  "session_verifies token sig = (if sig = [1, 2, 3] then STATUS_SUCCESS else STATUS_ACCESS_DENIED)"

definition session_ops :: "session_op list" where
  "session_ops =
     [TrackThread 21 \<lparr> ProcessContext = Some 20, IsCreatingProcess = False, IsCreatingProcessId = 0 \<rparr>,
      RequestToken session_answers 21 7 1000 1 1,
      AssignProcess session_kernel session_answers 21 (Some [1, 2, 3]) UserMode,
      BeginTerminate 0 session_call, BeginTerminate 1 session_call,
      StepCheck 0 0, StepCheck 1 0, StepCheck 0 0, StepCheck 1 0, StepCheck 0 101, StepCheck 1 102,
      StepCheck 0 0, StepCheck 1 0, StepCheck 0 0, StepCheck 1 0, StepCheck 1 0,
      FinishTerminate 0 session_kernel STATUS_SUCCESS STATUS_SUCCESS,
      FinishTerminate 1 session_kernel STATUS_SUCCESS STATUS_SUCCESS]"

lemma session_tokens_accounted_witness:
  "let S = session_run session_verifies session_ops (session_start session_system) in
   length (assignments S) = 1 \<and> length (grants S) = 1 \<and> uses_of 7 S \<le> 1"
proof -
  let ?S = "session_run session_verifies session_ops (session_start session_system)"
  have run: "map_option (Uses \<circ> AccessToken) (tokens ?S 7) = Some 1" "length (assignments ?S) = 1"
    "length (grants ?S) = 1"
    by code_simp+
  then obtain token where token: "tokens ?S 7 = Some token" "Uses (AccessToken token) = 1" by auto
  then have "uses_of 7 ?S \<le> 1"
    using session_tokens_accounted [of session_verifies session_ops session_system]
    unfolding Let_def by (auto simp: word_sle_eq dest!: spec [where x = 7])
  then show ?thesis using run(2,3) by (simp add: Let_def)
qed



end
