(* ===== verification/Comms.thy ===== *)
theory Comms
  imports KphMessage Protection
begin

unbundle bit_operations_syntax

text \<open>
  The communication port of the driver, ProcessHacker/KSystemInformer/comms.c: the clients that are
  connected, and the way of a message from a client, from its memory through the validation and the
  test of the client's state to the handler and back. Of comms_handlers.c, the table of the handlers,
  the states they require, and the handlers that open processes, threads, tokens and jobs, with the
  routines of process.c and thread.c that they call; the other handlers are an argument.
\<close>

section \<open>Access masks and enumerations\<close>

definition TOKEN_QUERY :: u32 where "TOKEN_QUERY = 0x0008"
definition TOKEN_QUERY_SOURCE :: u32 where "TOKEN_QUERY_SOURCE = 0x0010"
definition JOB_OBJECT_QUERY :: u32 where "JOB_OBJECT_QUERY = 0x0004"
definition FILE_READ_DATA :: u32 where "FILE_READ_DATA = 0x0001"
definition FILE_READ_EA :: u32 where "FILE_READ_EA = 0x0008"
definition FILE_READ_ATTRIBUTES :: u32 where "FILE_READ_ATTRIBUTES = 0x0080"
definition IO_IGNORE_SHARE_ACCESS_CHECK :: u32 where "IO_IGNORE_SHARE_ACCESS_CHECK = 0x0800"
definition IO_OPEN_PAGING_FILE :: u32 where "IO_OPEN_PAGING_FILE = 0x0002"

definition KPH_TOKEN_READ_ACCESS :: u32 where
  "KPH_TOKEN_READ_ACCESS = STANDARD_RIGHTS_READ OR SYNCHRONIZE OR TOKEN_QUERY OR TOKEN_QUERY_SOURCE"
definition KPH_JOB_READ_ACCESS :: u32 where
  "KPH_JOB_READ_ACCESS = STANDARD_RIGHTS_READ OR SYNCHRONIZE OR JOB_OBJECT_QUERY"
definition KPH_FILE_READ_ACCESS :: u32 where
  "KPH_FILE_READ_ACCESS =
     STANDARD_RIGHTS_READ OR SYNCHRONIZE OR FILE_READ_DATA OR FILE_READ_ATTRIBUTES OR FILE_READ_EA"
definition KPH_FILE_READ_DISPOSITION :: u32 where "KPH_FILE_READ_DISPOSITION = 1"

text \<open>The identifiers of the messages from clients, in the order of the enumeration, from 1.\<close>

definition KphMsgOpenProcess :: int where "KphMsgOpenProcess = 3"
definition KphMsgOpenProcessToken :: int where "KphMsgOpenProcessToken = 4"
definition KphMsgOpenProcessJob :: int where "KphMsgOpenProcessJob = 5"
definition KphMsgOpenThread :: int where "KphMsgOpenThread = 8"
definition KphMsgOpenThreadProcess :: int where "KphMsgOpenThreadProcess = 9"
definition MaxKphMsgClient :: int where "MaxKphMsgClient = 49"

lemmas message_ids = KphMsgOpenProcess_def KphMsgOpenProcessToken_def KphMsgOpenProcessJob_def
  KphMsgOpenThread_def KphMsgOpenThreadProcess_def MaxKphMsgClient_def

section \<open>What a message requires\<close>

text \<open>
  The members of the messages by their offset: the union of the messages follows the header of 16
  bytes, a member \<open>Status\<close> comes first, pointers and handles have 8 bytes.
\<close>

definition message_desired_access :: "KPH_MESSAGE \<Rightarrow> u32" where
  "message_desired_access m = rd32 (Bytes m) 32"

definition message_class :: "KPH_MESSAGE \<Rightarrow> int" where
  "message_class m = sint (rd32 (Bytes m) 32)"

definition message_memory_class :: "KPH_MESSAGE \<Rightarrow> int" where
  "message_memory_class m = sint (rd32 (Bytes m) 40)"

definition message_create_disposition :: "KPH_MESSAGE \<Rightarrow> u32" where
  "message_create_disposition m = rd32 (Bytes m) 72"

definition message_options :: "KPH_MESSAGE \<Rightarrow> u32" where
  "message_options m = rd32 (Bytes m) 92"

definition KphpCommsRequireMaximum :: "KPH_MESSAGE \<Rightarrow> u32" where
  "KphpCommsRequireMaximum m = KPH_PROCESS_STATE_MAXIMUM"
definition KphpCommsRequireMedium :: "KPH_MESSAGE \<Rightarrow> u32" where
  "KphpCommsRequireMedium m = KPH_PROCESS_STATE_MEDIUM"
definition KphpCommsRequireLow :: "KPH_MESSAGE \<Rightarrow> u32" where
  "KphpCommsRequireLow m = KPH_PROCESS_STATE_LOW"

definition KphpCommsOpenProcessRequires :: "KPH_MESSAGE \<Rightarrow> u32" where
  "KphpCommsOpenProcessRequires m =
     (if message_desired_access m AND KPH_PROCESS_READ_ACCESS \<noteq> message_desired_access m
      then KPH_PROCESS_STATE_MAXIMUM else KPH_PROCESS_STATE_MEDIUM)"

definition KphpCommsOpenProcessTokenRequires :: "KPH_MESSAGE \<Rightarrow> u32" where
  "KphpCommsOpenProcessTokenRequires m =
     (if message_desired_access m AND KPH_TOKEN_READ_ACCESS \<noteq> message_desired_access m
      then KPH_PROCESS_STATE_MAXIMUM else KPH_PROCESS_STATE_MEDIUM)"

definition KphpCommsOpenProcessJobRequires :: "KPH_MESSAGE \<Rightarrow> u32" where
  "KphpCommsOpenProcessJobRequires m =
     (if message_desired_access m AND KPH_JOB_READ_ACCESS \<noteq> message_desired_access m
      then KPH_PROCESS_STATE_MAXIMUM else KPH_PROCESS_STATE_MEDIUM)"

definition KphpCommsOpenThreadRequires :: "KPH_MESSAGE \<Rightarrow> u32" where
  "KphpCommsOpenThreadRequires m =
     (if message_desired_access m AND KPH_THREAD_READ_ACCESS \<noteq> message_desired_access m
      then KPH_PROCESS_STATE_MAXIMUM else KPH_PROCESS_STATE_MEDIUM)"

definition KphpCommsOpenThreadProcessRequires :: "KPH_MESSAGE \<Rightarrow> u32" where
  "KphpCommsOpenThreadProcessRequires m =
     (if message_desired_access m AND KPH_PROCESS_READ_ACCESS \<noteq> message_desired_access m
      then KPH_PROCESS_STATE_MAXIMUM else KPH_PROCESS_STATE_MEDIUM)"

text \<open>
  The information classes of kphapi.h: 13, 1, 14 and 15 are the WSL process identifier, the state,
  the sequence number and the start key of a process, 0 and 16 its basic information and its image
  section; 12 and 13 the I/O counters and the WSL identifier of a thread; 0 and 1 the image and the
  data section of an address.
\<close>

definition KphpCommsQueryInformationProcessRequires :: "KPH_MESSAGE \<Rightarrow> u32" where
  "KphpCommsQueryInformationProcessRequires m =
     (if message_class m \<in> {13, 1, 14, 15} then KPH_PROCESS_STATE_LOW
      else if message_class m \<in> {0, 16} then KPH_PROCESS_STATE_MEDIUM
      else KPH_PROCESS_STATE_MAXIMUM)"

definition KphpCommsCreateFileRequires :: "KPH_MESSAGE \<Rightarrow> u32" where
  "KphpCommsCreateFileRequires m =
     (if message_desired_access m AND KPH_FILE_READ_ACCESS \<noteq> message_desired_access m
      then KPH_PROCESS_STATE_MAXIMUM
      else if message_create_disposition m \<noteq> KPH_FILE_READ_DISPOSITION then KPH_PROCESS_STATE_MAXIMUM
      else if message_options m AND (IO_IGNORE_SHARE_ACCESS_CHECK OR IO_OPEN_PAGING_FILE) \<noteq> 0
      then KPH_PROCESS_STATE_MAXIMUM
      else KPH_PROCESS_STATE_MEDIUM)"

definition KphpCommsQueryInformationThreadRequires :: "KPH_MESSAGE \<Rightarrow> u32" where
  "KphpCommsQueryInformationThreadRequires m =
     (if message_class m \<in> {12, 13} then KPH_PROCESS_STATE_LOW else KPH_PROCESS_STATE_MAXIMUM)"

definition KphpCommsQueryVirtualMemoryRequires :: "KPH_MESSAGE \<Rightarrow> u32" where
  "KphpCommsQueryVirtualMemoryRequires m =
     (if message_memory_class m \<in> {0, 1} then KPH_PROCESS_STATE_MEDIUM else KPH_PROCESS_STATE_MAXIMUM)"

text \<open>The table of the handlers, without the handlers: what each message requires, by its identifier.\<close>

definition KphCommsMessageHandlers :: "(KPH_MESSAGE \<Rightarrow> u32) option list" where
  "KphCommsMessageHandlers =
     [None,
      Some KphpCommsRequireLow, Some KphpCommsRequireLow, Some KphpCommsOpenProcessRequires,
      Some KphpCommsOpenProcessTokenRequires, Some KphpCommsOpenProcessJobRequires,
      Some KphpCommsRequireMaximum, Some KphpCommsRequireMaximum,
      Some KphpCommsOpenThreadRequires, Some KphpCommsOpenThreadProcessRequires,
      Some KphpCommsRequireMedium, Some KphpCommsRequireMedium, Some KphpCommsRequireMedium,
      Some KphpCommsRequireMaximum, Some KphpCommsRequireMaximum, Some KphpCommsRequireMaximum,
      Some KphpCommsQueryInformationProcessRequires,
      Some KphpCommsRequireMaximum, Some KphpCommsRequireMaximum, Some KphpCommsRequireMaximum,
      Some KphpCommsRequireMedium, Some KphpCommsRequireMedium, Some KphpCommsRequireMedium,
      Some KphpCommsRequireMaximum, Some KphpCommsRequireLow,
      Some KphpCommsCreateFileRequires, Some KphpCommsQueryInformationThreadRequires,
      Some KphpCommsRequireMedium, Some KphpCommsRequireMedium, Some KphpCommsRequireLow,
      Some KphpCommsRequireLow, Some KphpCommsRequireMaximum, Some KphpCommsRequireMaximum,
      Some KphpCommsRequireLow, Some KphpCommsRequireLow, Some KphpCommsRequireLow,
      Some KphpCommsRequireMaximum, Some KphpCommsRequireMaximum, Some KphpCommsRequireMaximum,
      Some KphpCommsRequireLow, Some KphpCommsRequireLow, Some KphpCommsRequireMaximum,
      Some KphpCommsQueryVirtualMemoryRequires, Some KphpCommsRequireMaximum,
      Some KphpCommsRequireMaximum, Some KphpCommsRequireMaximum, Some KphpCommsRequireMaximum,
      Some KphpCommsRequireLow, Some KphpCommsRequireLow]"

section \<open>Messages in memory\<close>

text \<open>
  The first KPH_MESSAGE_MIN_SIZE bytes of a message are its header of 16 bytes, the union, and from
  360 on the count, 3 bytes of padding and the table. \<open>message_of\<close> reads them from memory, with
  everything behind them; \<open>message_bytes\<close> writes them.
\<close>

definition entry_at :: "mem \<Rightarrow> nat \<Rightarrow> KPH_MESSAGE_DYNAMIC_TABLE_ENTRY" where
  "entry_at b i =
     \<lparr> FieldId = sint (rd32 b (364 + 12 * i)), TypeId = sint (rd32 b (368 + 12 * i)),
       Offset = rd16 b (372 + 12 * i), Length = rd16 b (374 + 12 * i) \<rparr>"

definition message_of :: "mem \<Rightarrow> KPH_MESSAGE" where
  "message_of b =
     \<lparr> Version = rd16 b 0, Size = rd16 b 2, MessageId = sint (rd32 b 4), TimeStamp = rd64 b 8,
       Count = b 360, Entries = map (entry_at b) [0..<DYN_ENTRIES], Bytes = b \<rparr>"

definition entry_bytes :: "KPH_MESSAGE_DYNAMIC_TABLE_ENTRY \<Rightarrow> u8 list" where
  "entry_bytes e =
     le_bytes 4 (unat (word_of_int (FieldId e) :: u32)) @ le_bytes 4 (unat (word_of_int (TypeId e) :: u32)) @
     le_bytes 2 (unat (Offset e)) @ le_bytes 2 (unat (Length e))"

definition header_bytes :: "KPH_MESSAGE \<Rightarrow> u8 list" where
  "header_bytes m =
     le_bytes 2 (unat (Version m)) @ le_bytes 2 (unat (Size m)) @
     le_bytes 4 (unat (word_of_int (MessageId m) :: u32)) @ le_bytes 8 (unat (TimeStamp m))"

definition message_bytes :: "KPH_MESSAGE \<Rightarrow> mem" where
  "message_bytes m =
     wr_bytes (wr_bytes (wr_bytes (Bytes m) 0 (header_bytes m)) 360 [Count m])
       364 (concat (map entry_bytes (Entries m)))"

text \<open>A handler reports the result of what it did in the member \<open>Status\<close>, as a number.\<close>

definition set_message_status :: "(ntstatus \<Rightarrow> u32) \<Rightarrow> ntstatus \<Rightarrow> KPH_MESSAGE \<Rightarrow> KPH_MESSAGE" where
  "set_message_status code status m =
     m\<lparr> Bytes := wr_bytes (Bytes m) 16 (le_bytes 4 (unat (code status))) \<rparr>"

section \<open>The clients\<close>

text \<open>
  The connected clients are kept in an array of 32 slots, the first \<open>KphpConnectedClientsCount\<close> of
  them in use; a client is named by the address of its object. \<open>opens\<close> records the objects that
  were opened for clients, \<open>state_failures\<close> the messages of \<open>KphpSendRequiredStateFailure\<close>: the
  identifier, the state of the client's process and the state that was required.
\<close>

definition KPH_COMMS_MAX_CLIENTS :: nat where "KPH_COMMS_MAX_CLIENTS = 32"

record KPH_CLIENT =
  client_process :: nat
  Port :: nat
  RingBuffer :: bool

text \<open>An object of another kind, such as a section, a file or a device, is opened by a handler that is not modelled.\<close>

datatype open_object =
    OpenedProcess nat
  | OpenedThread nat
  | OpenedToken nat
  | OpenedJob nat
  | OpenedOther nat

record open_event =
  opened :: open_object
  opened_of :: nat
  open_access :: u32

record COMMS =
  driver :: SYSTEM
  clients :: "nat \<Rightarrow> KPH_CLIENT option"
  KphpConnectedClients :: "nat option list"
  KphpConnectedClientsCount :: nat
  opens :: "open_event list"
  state_failures :: "(int \<times> u32 \<times> u32) list"

definition comms_start :: "SYSTEM \<Rightarrow> COMMS" where
  "comms_start B =
     \<lparr> driver = B, clients = (\<lambda>_. None), KphpConnectedClients = replicate KPH_COMMS_MAX_CLIENTS None,
       KphpConnectedClientsCount = 0, opens = [], state_failures = [] \<rparr>"

definition KphpAddConnectedClient :: "nat \<Rightarrow> COMMS \<Rightarrow> bool \<times> COMMS" where
  "KphpAddConnectedClient c S =
     (if KphpConnectedClientsCount S < KPH_COMMS_MAX_CLIENTS
      then (True, S\<lparr> KphpConnectedClients := (KphpConnectedClients S)[KphpConnectedClientsCount S := Some c],
                     KphpConnectedClientsCount := KphpConnectedClientsCount S + 1 \<rparr>)
      else (False, S))"

definition KphpRemoveConnectedClient :: "nat \<Rightarrow> COMMS \<Rightarrow> nat option \<times> COMMS" where
  "KphpRemoveConnectedClient c S =
     (let slots = KphpConnectedClients S in
      case find (\<lambda>i. slots ! i = Some c) [0..<KphpConnectedClientsCount S] of
        None \<Rightarrow> (None, S)
      | Some i \<Rightarrow>
          (slots ! i,
           S\<lparr> KphpConnectedClientsCount := KphpConnectedClientsCount S - 1,
              KphpConnectedClients :=
                (take i slots @ drop (i + 1) slots @ [slots ! (KPH_COMMS_MAX_CLIENTS - 1)])
                  [KPH_COMMS_MAX_CLIENTS - 1 := None] \<rparr>))"

definition KphGetConnectedClientCount :: "COMMS \<Rightarrow> nat" where
  "KphGetConnectedClientCount S = KphpConnectedClientsCount S"

text \<open>The call of the filter manager for a connection, with the answers of the system.\<close>

record CONNECT_CALL =
  connecting_process :: nat
  client_object :: nat
  ClientPort :: nat
  client_allocated :: bool
  ConnectionContext :: bool
  ring_buffer_status :: ntstatus

definition KphpCommsConnectNotifyCallback ::
  "KERNEL \<Rightarrow> CONNECT_CALL \<Rightarrow> COMMS \<Rightarrow> ntstatus \<times> nat option \<times> COMMS" where
  "KphpCommsConnectNotifyCallback K C S =
     (let e = connecting_process C; c = client_object C in
      if \<not> PrivilegeCheck K SeDebugPrivilege e then (STATUS_PRIVILEGE_NOT_HELD, None, S)
      else if contexts (driver S) e = None then (STATUS_INSUFFICIENT_RESOURCES, None, S)
      else
        let (low, B) = test_state K e KPH_PROCESS_STATE_LOW (driver S); S = S\<lparr> driver := B \<rparr> in
        if \<not> low then (STATUS_ACCESS_DENIED, None, S)
        else if \<not> client_allocated C \<or> clients S c \<noteq> None then (STATUS_INSUFFICIENT_RESOURCES, None, S)
        else if ConnectionContext C \<and> \<not> NT_SUCCESS (ring_buffer_status C)
        then (ring_buffer_status C, None, S)
        else
          let (added, S) = KphpAddConnectedClient c S in
          if \<not> added then (STATUS_INSUFFICIENT_RESOURCES, None, S)
          else (STATUS_SUCCESS, Some c,
                S\<lparr> clients := (clients S)(c \<mapsto> \<lparr> client_process = e, Port = ClientPort C,
                                                RingBuffer = ConnectionContext C \<rparr>) \<rparr>))"

definition KphpCommsDisconnectNotifyCallback :: "nat \<Rightarrow> COMMS \<Rightarrow> COMMS" where
  "KphpCommsDisconnectNotifyCallback c S =
     (let (found, S) = KphpRemoveConnectedClient c S in
      case found of None \<Rightarrow> S | Some c \<Rightarrow> S\<lparr> clients := (clients S)(c := None) \<rparr>)"

section \<open>Opening objects\<close>

text \<open>What the system answers while an object is opened.\<close>

record OPEN_KERNEL =
  copy_client_id :: "ntstatus \<times> u64 \<times> u64"
  PsLookupProcessThreadByCid :: "ntstatus \<times> nat \<times> nat"
  lookup_process :: "ntstatus \<times> nat"
  lookup_thread :: "ntstatus \<times> nat"
  reference_by_handle :: "ntstatus \<times> nat"
  PsReferencePrimaryToken :: bool
  exit_synchronization :: ntstatus
  PsGetProcessJob :: "nat option"
  PsGetThreadProcess :: "nat \<Rightarrow> nat"
  ObOpenObjectByPointer :: ntstatus
  KphWriteHandleToMode :: ntstatus

text \<open>
  What the routines share: an access beyond reading needs a caller that dominates the process
  \<open>e\<close>, and the object is then opened without ordinary access checks.
\<close>

definition open_guarded ::
  "KERNEL \<Rightarrow> OPEN_KERNEL \<Rightarrow> nat \<Rightarrow> u32 \<Rightarrow> u32 \<Rightarrow> nat \<Rightarrow> open_object \<Rightarrow> KPROCESSOR_MODE \<Rightarrow> COMMS
     \<Rightarrow> ntstatus \<times> COMMS" where
  "open_guarded K W current desiredAccess readAccess e ob accessMode S =
     (let status = (if desiredAccess AND readAccess \<noteq> desiredAccess
                    then KphDominationCheck K current e accessMode else STATUS_SUCCESS) in
      if \<not> NT_SUCCESS status then (status, S)
      else if \<not> NT_SUCCESS (ObOpenObjectByPointer W) then (ObOpenObjectByPointer W, S)
      else (KphWriteHandleToMode W,
            S\<lparr> opens := opens S @ [\<lparr> opened = ob, opened_of = e, open_access = desiredAccess \<rparr>] \<rparr>))"

definition KphOpenProcess ::
  "KERNEL \<Rightarrow> OPEN_KERNEL \<Rightarrow> nat \<Rightarrow> u32 \<Rightarrow> KPROCESSOR_MODE \<Rightarrow> COMMS \<Rightarrow> ntstatus \<times> COMMS" where
  "KphOpenProcess K W current desiredAccess accessMode S =
     (let (status, uniqueProcess, uniqueThread) = copy_client_id W in
      if \<not> NT_SUCCESS status then (status, S)
      else
        let (status, e) = (if uniqueThread \<noteq> 0
              then let (status, process, thread) = PsLookupProcessThreadByCid W in (status, process)
              else lookup_process W) in
        if \<not> NT_SUCCESS status then (status, S)
        else open_guarded K W current desiredAccess KPH_PROCESS_READ_ACCESS e (OpenedProcess e) accessMode S)"

definition KphOpenProcessToken ::
  "KERNEL \<Rightarrow> OPEN_KERNEL \<Rightarrow> nat \<Rightarrow> u32 \<Rightarrow> KPROCESSOR_MODE \<Rightarrow> COMMS \<Rightarrow> ntstatus \<times> COMMS" where
  "KphOpenProcessToken K W current desiredAccess accessMode S =
     (let (status, e) = reference_by_handle W in
      if \<not> NT_SUCCESS status then (status, S)
      else if \<not> PsReferencePrimaryToken W then (STATUS_NO_TOKEN, S)
      else open_guarded K W current desiredAccess KPH_TOKEN_READ_ACCESS e (OpenedToken e) accessMode S)"

definition KphOpenProcessJob ::
  "KERNEL \<Rightarrow> OPEN_KERNEL \<Rightarrow> nat \<Rightarrow> u32 \<Rightarrow> KPROCESSOR_MODE \<Rightarrow> COMMS \<Rightarrow> ntstatus \<times> COMMS" where
  "KphOpenProcessJob K W current desiredAccess accessMode S =
     (let (status, e) = reference_by_handle W in
      if \<not> NT_SUCCESS status then (status, S)
      else if \<not> NT_SUCCESS (exit_synchronization W) then (exit_synchronization W, S)
      else case PsGetProcessJob W of
        None \<Rightarrow> (STATUS_NOT_FOUND, S)
      | Some job \<Rightarrow>
          open_guarded K W current desiredAccess KPH_JOB_READ_ACCESS e (OpenedJob job) accessMode S)"

definition KphOpenThread ::
  "KERNEL \<Rightarrow> OPEN_KERNEL \<Rightarrow> nat \<Rightarrow> u32 \<Rightarrow> KPROCESSOR_MODE \<Rightarrow> COMMS \<Rightarrow> ntstatus \<times> COMMS" where
  "KphOpenThread K W current desiredAccess accessMode S =
     (let (status, uniqueProcess, uniqueThread) = copy_client_id W in
      if \<not> NT_SUCCESS status then (status, S)
      else
        let (status, t) = (if uniqueProcess \<noteq> 0
              then let (status, process, thread) = PsLookupProcessThreadByCid W in (status, thread)
              else lookup_thread W) in
        if \<not> NT_SUCCESS status then (status, S)
        else open_guarded K W current desiredAccess KPH_THREAD_READ_ACCESS (PsGetThreadProcess W t)
               (OpenedThread t) accessMode S)"

definition KphOpenThreadProcess ::
  "KERNEL \<Rightarrow> OPEN_KERNEL \<Rightarrow> nat \<Rightarrow> u32 \<Rightarrow> KPROCESSOR_MODE \<Rightarrow> COMMS \<Rightarrow> ntstatus \<times> COMMS" where
  "KphOpenThreadProcess K W current desiredAccess accessMode S =
     (let (status, t) = reference_by_handle W in
      if \<not> NT_SUCCESS status then (status, S)
      else open_guarded K W current desiredAccess KPH_PROCESS_READ_ACCESS (PsGetThreadProcess W t)
             (OpenedProcess (PsGetThreadProcess W t)) accessMode S)"

section \<open>The handlers\<close>

text \<open>
  \<open>code\<close> gives the number of a status. The handlers that are not modelled are the argument \<open>other\<close>,
  which may change the message and the state of the driver, open objects, and report a status to the
  port.
\<close>

type_synonym other_handlers =
  "nat \<Rightarrow> KPH_MESSAGE \<Rightarrow> SYSTEM \<Rightarrow> ntstatus \<times> KPH_MESSAGE \<times> SYSTEM \<times> open_event list"

definition KphpCommsOpenProcess where
  "KphpCommsOpenProcess code K W current m S =
     (let (status, S) = KphOpenProcess K W current (message_desired_access m) UserMode S in
      (STATUS_SUCCESS, set_message_status code status m, S))"

definition KphpCommsOpenProcessToken where
  "KphpCommsOpenProcessToken code K W current m S =
     (let (status, S) = KphOpenProcessToken K W current (message_desired_access m) UserMode S in
      (STATUS_SUCCESS, set_message_status code status m, S))"

definition KphpCommsOpenProcessJob where
  "KphpCommsOpenProcessJob code K W current m S =
     (let (status, S) = KphOpenProcessJob K W current (message_desired_access m) UserMode S in
      (STATUS_SUCCESS, set_message_status code status m, S))"

definition KphpCommsOpenThread where
  "KphpCommsOpenThread code K W current m S =
     (let (status, S) = KphOpenThread K W current (message_desired_access m) UserMode S in
      (STATUS_SUCCESS, set_message_status code status m, S))"

definition KphpCommsOpenThreadProcess where
  "KphpCommsOpenThreadProcess code K W current m S =
     (let (status, S) = KphOpenThreadProcess K W current (message_desired_access m) UserMode S in
      (STATUS_SUCCESS, set_message_status code status m, S))"

definition run_handler ::
  "(ntstatus \<Rightarrow> u32) \<Rightarrow> other_handlers
     \<Rightarrow> KERNEL \<Rightarrow> OPEN_KERNEL \<Rightarrow> nat \<Rightarrow> nat \<Rightarrow> KPH_MESSAGE \<Rightarrow> COMMS \<Rightarrow> ntstatus \<times> KPH_MESSAGE \<times> COMMS" where
  "run_handler code other K W current c m S =
     (if MessageId m = KphMsgOpenProcess then KphpCommsOpenProcess code K W current m S
      else if MessageId m = KphMsgOpenProcessToken then KphpCommsOpenProcessToken code K W current m S
      else if MessageId m = KphMsgOpenProcessJob then KphpCommsOpenProcessJob code K W current m S
      else if MessageId m = KphMsgOpenThread then KphpCommsOpenThread code K W current m S
      else if MessageId m = KphMsgOpenThreadProcess then KphpCommsOpenThreadProcess code K W current m S
      else let (status, m, B, es) = other c m (driver S) in
           (status, m, S\<lparr> driver := B, opens := opens S @ es \<rparr>))"

section \<open>The way of a message\<close>

text \<open>
  The call of the filter manager for a message. The memory of the client is read twice, and may
  change between: \<open>first_copy\<close> and \<open>second_copy\<close> are what is read, or the exception that is raised;
  \<open>allocated_message\<close> is what the new message holds before.
\<close>

record MESSAGE_CALL =
  caller_process :: nat
  ExGetPreviousMode :: KPROCESSOR_MODE
  InputBuffer :: bool
  InputBufferLength :: u32
  OutputBuffer :: bool
  OutputBufferLength :: u32
  allocated_message :: "mem option"
  first_copy :: "ntstatus \<times> mem"
  second_copy :: "ntstatus \<times> mem"
  copy_back :: ntstatus

text \<open>
  What a call results in: the status, the message that the handler was given with the state of the
  client's process, the bytes that were written to the client, and the new state.
\<close>

record GATE =
  gate_status :: ntstatus
  gate_handled :: "(KPH_MESSAGE \<times> u32) option"
  gate_reply :: "u8 list option"
  gate_state :: COMMS

definition gate_fails :: "ntstatus \<Rightarrow> COMMS \<Rightarrow> GATE" where
  "gate_fails status S =
     \<lparr> gate_status = status, gate_handled = None, gate_reply = None, gate_state = S \<rparr>"

definition input_invalid :: "MESSAGE_CALL \<Rightarrow> bool" where
  "input_invalid M \<longleftrightarrow>
     \<not> InputBuffer M \<or> InputBufferLength M < ucast KPH_MESSAGE_MIN_SIZE \<or>
     InputBufferLength M > ucast sizeof_KPH_MESSAGE \<or> OutputBuffer M \<or> OutputBufferLength M > 0"

text \<open>The message after the two copies, and the exception of the second if it is made.\<close>

definition capture_message :: "mem \<Rightarrow> MESSAGE_CALL \<Rightarrow> ntstatus \<times> KPH_MESSAGE" where
  "capture_message junk M =
     (let head = (\<lambda>i. if i < unat KPH_MESSAGE_MIN_SIZE then snd (first_copy M) i else junk i);
          m = message_of head in
      if \<not> NT_SUCCESS (fst (first_copy M)) then (fst (first_copy M), m)
      else if \<not> NT_SUCCESS (KphMsgValidate m) then (KphMsgValidate m, m)
      else if Size m > KPH_MESSAGE_MIN_SIZE then
        (fst (second_copy M),
         m\<lparr> Bytes := (\<lambda>i. if unat KPH_MESSAGE_MIN_SIZE \<le> i \<and> i < unat (Size m)
                           then snd (second_copy M) i else head i) \<rparr>)
      else (STATUS_SUCCESS, m))"

text \<open>The handler and the copy of the message back to the client.\<close>

definition handle_message ::
  "(ntstatus \<Rightarrow> u32) \<Rightarrow> other_handlers
     \<Rightarrow> KERNEL \<Rightarrow> OPEN_KERNEL \<Rightarrow> MESSAGE_CALL \<Rightarrow> nat \<Rightarrow> KPH_MESSAGE \<Rightarrow> u32 \<Rightarrow> COMMS \<Rightarrow> GATE" where
  "handle_message code other K W M c m processState S =
     (let (status, r, S) = run_handler code other K W (caller_process M) c m S;
          (status, reply) =
            (if \<not> NT_SUCCESS status then (status, None)
             else if InputBufferLength M < ucast (Size r) then (STATUS_BUFFER_TOO_SMALL, None)
             else if \<not> NT_SUCCESS (copy_back M) then (copy_back M, None)
             else (STATUS_SUCCESS, Some (rd_bytes (message_bytes r) 0 (unat (Size r))))) in
      \<lparr> gate_status = status, gate_handled = Some (m, processState), gate_reply = reply, gate_state = S \<rparr>)"

text \<open>
  The test of the state of the process \<open>e\<close> of the client. That process is the one that calls; it
  runs, so it has a context.
\<close>

definition check_message ::
  "(ntstatus \<Rightarrow> u32) \<Rightarrow> other_handlers
     \<Rightarrow> KERNEL \<Rightarrow> OPEN_KERNEL \<Rightarrow> MESSAGE_CALL \<Rightarrow> nat \<Rightarrow> nat \<Rightarrow> KPH_MESSAGE \<Rightarrow> COMMS \<Rightarrow> GATE" where
  "check_message code other K W M c e m S =
     (if MessageId m \<le> InvalidKphMsg \<or> MessageId m \<ge> MaxKphMsgClient \<or>
         nat (MessageId m) \<ge> length KphCommsMessageHandlers
      then gate_fails STATUS_MESSAGE_NOT_FOUND S
      else case (KphCommsMessageHandlers ! nat (MessageId m), contexts (driver S) e) of
        (Some RequiredState, Some p) \<Rightarrow>
          let (processState, s) = KphGetProcessState K e (p, lsass (driver S));
              S = S\<lparr> driver := put_context e s (driver S) \<rparr> in
          if \<not> KphTestProcessState processState (RequiredState m)
          then gate_fails STATUS_ACCESS_DENIED
                 (S\<lparr> state_failures := state_failures S @
                      [(MessageId m, processState, RequiredState m)] \<rparr>)
          else handle_message code other K W M c m processState S
      | _ \<Rightarrow> gate_fails STATUS_MESSAGE_NOT_FOUND S)"

definition KphpCommsMessageNotifyCallback ::
  "(ntstatus \<Rightarrow> u32) \<Rightarrow> other_handlers
     \<Rightarrow> KERNEL \<Rightarrow> OPEN_KERNEL \<Rightarrow> MESSAGE_CALL \<Rightarrow> nat \<Rightarrow> KPH_CLIENT \<Rightarrow> COMMS \<Rightarrow> GATE" where
  "KphpCommsMessageNotifyCallback code other K W M c client S =
     (if caller_process M \<noteq> client_process client \<or> ExGetPreviousMode M \<noteq> UserMode
      then gate_fails STATUS_ACCESS_DENIED S
      else if input_invalid M then gate_fails STATUS_INVALID_PARAMETER S
      else case allocated_message M of
        None \<Rightarrow> gate_fails STATUS_INSUFFICIENT_RESOURCES S
      | Some junk \<Rightarrow>
          let (status, m) = capture_message junk M in
          if \<not> NT_SUCCESS status then gate_fails status S
          else check_message code other K W M c (client_process client) m S)"

section \<open>Lemmas on the required states\<close>

definition required_state :: "KPH_MESSAGE \<Rightarrow> u32" where
  "required_state m = (case KphCommsMessageHandlers ! nat (MessageId m) of None \<Rightarrow> 0 | Some req \<Rightarrow> req m)"

lemmas requires_defs =
  KphpCommsRequireMaximum_def KphpCommsRequireMedium_def KphpCommsRequireLow_def
  KphpCommsOpenProcessRequires_def KphpCommsOpenProcessTokenRequires_def
  KphpCommsOpenProcessJobRequires_def KphpCommsOpenThreadRequires_def
  KphpCommsOpenThreadProcessRequires_def KphpCommsQueryInformationProcessRequires_def
  KphpCommsCreateFileRequires_def KphpCommsQueryInformationThreadRequires_def
  KphpCommsQueryVirtualMemoryRequires_def

lemma table_length [simp]: "length KphCommsMessageHandlers = 49"
  by (simp add: KphCommsMessageHandlers_def)

lemma table_entries:
  "list_all (\<lambda>r. case r of None \<Rightarrow> False
     | Some req \<Rightarrow> req m \<in> {KPH_PROCESS_STATE_LOW, KPH_PROCESS_STATE_MEDIUM, KPH_PROCESS_STATE_MAXIMUM})
   (tl KphCommsMessageHandlers)"
  by (simp add: KphCommsMessageHandlers_def requires_defs)

lemma table_entry:
  assumes "0 < MessageId m" "MessageId m < 49"
  obtains req where "KphCommsMessageHandlers ! nat (MessageId m) = Some req" "required_state m = req m"
    "req m \<in> {KPH_PROCESS_STATE_LOW, KPH_PROCESS_STATE_MEDIUM, KPH_PROCESS_STATE_MAXIMUM}"
proof -
  let ?i = "nat (MessageId m) - 1"
  have "?i < length (tl KphCommsMessageHandlers)" using assms by simp
  then have "case tl KphCommsMessageHandlers ! ?i of None \<Rightarrow> False
     | Some req \<Rightarrow> req m \<in> {KPH_PROCESS_STATE_LOW, KPH_PROCESS_STATE_MEDIUM, KPH_PROCESS_STATE_MAXIMUM}"
    using table_entries [of m] unfolding list_all_length by blast
  moreover have "tl KphCommsMessageHandlers ! ?i = KphCommsMessageHandlers ! nat (MessageId m)"
    using assms by (simp add: nth_tl)
  ultimately show thesis using that by (auto simp: required_state_def split: option.splits)
qed

lemma at_least_low:
  assumes "0 < MessageId m" "MessageId m < 49" "KphTestProcessState ps (required_state m)"
  shows "KphTestProcessState ps KPH_PROCESS_STATE_LOW"
proof -
  have "KPH_PROCESS_STATE_LOW AND KPH_PROCESS_STATE_MAXIMUM = KPH_PROCESS_STATE_LOW"
    using levels_ordered by (metis and.assoc)
  moreover obtain req where "required_state m = req m"
    "req m \<in> {KPH_PROCESS_STATE_LOW, KPH_PROCESS_STATE_MEDIUM, KPH_PROCESS_STATE_MAXIMUM}"
    using table_entry [OF assms(1,2)] by blast
  ultimately show ?thesis
    using assms(3) levels_ordered(2) test_mono by (metis empty_iff insert_iff)
qed

lemma open_requires:
  "MessageId m = KphMsgOpenProcess \<Longrightarrow> required_state m = KphpCommsOpenProcessRequires m"
  "MessageId m = KphMsgOpenProcessToken \<Longrightarrow> required_state m = KphpCommsOpenProcessTokenRequires m"
  "MessageId m = KphMsgOpenProcessJob \<Longrightarrow> required_state m = KphpCommsOpenProcessJobRequires m"
  "MessageId m = KphMsgOpenThread \<Longrightarrow> required_state m = KphpCommsOpenThreadRequires m"
  "MessageId m = KphMsgOpenThreadProcess \<Longrightarrow> required_state m = KphpCommsOpenThreadProcessRequires m"
  by (simp_all add: required_state_def KphCommsMessageHandlers_def message_ids)

section \<open>Lemmas on the gate\<close>

lemma gate_fails_simps [simp]:
  "gate_handled (gate_fails st S) = None" "gate_reply (gate_fails st S) = None"
  "gate_state (gate_fails st S) = S" "gate_status (gate_fails st S) = st"
  by (simp_all add: gate_fails_def)

text \<open>A call either is refused, which opens nothing, or comes to the handler.\<close>

lemma message_cases:
  obtains (refused) st S' where
      "KphpCommsMessageNotifyCallback code other K W M c client S = gate_fails st S'"
      "opens S' = opens S" "clients S' = clients S" "KphpConnectedClients S' = KphpConnectedClients S"
      "KphpConnectedClientsCount S' = KphpConnectedClientsCount S"
  | (handled) junk m p ps s where
      "KphpCommsMessageNotifyCallback code other K W M c client S =
         handle_message code other K W M c m ps (S\<lparr> driver := put_context (client_process client) s (driver S) \<rparr>)"
      "caller_process M = client_process client" "ExGetPreviousMode M = UserMode" "\<not> input_invalid M"
      "allocated_message M = Some junk" "capture_message junk M = (STATUS_SUCCESS, m)"
      "0 < MessageId m" "MessageId m < 49" "contexts (driver S) (client_process client) = Some p"
      "KphGetProcessState K (client_process client) (p, lsass (driver S)) = (ps, s)"
      "KphTestProcessState ps (required_state m)"
proof -
  let ?e = "client_process client"
  let ?r = "KphpCommsMessageNotifyCallback code other K W M c client S"
  have no: thesis if "?r = gate_fails st S" for st
    by (rule refused [OF that]) simp_all
  show thesis
  proof (cases "caller_process M \<noteq> ?e \<or> ExGetPreviousMode M \<noteq> UserMode \<or> input_invalid M \<or> allocated_message M = None")
    case True
    then have "\<exists>st. ?r = gate_fails st S" by (auto simp: KphpCommsMessageNotifyCallback_def)
    then show thesis using no by blast
  next
    case False
    then obtain junk where junk: "allocated_message M = Some junk" by auto
    obtain st m where cap: "capture_message junk M = (st, m)" by fastforce
    show thesis
    proof (cases "st = STATUS_SUCCESS \<and> 0 < MessageId m \<and> MessageId m < 49")
      case bad: False
      then have "\<exists>st. ?r = gate_fails st S"
        using False junk cap
        by (auto simp: KphpCommsMessageNotifyCallback_def check_message_def InvalidKphMsg_def message_ids)
      then show thesis using no by blast
    next
      case True
      then obtain req where req: "KphCommsMessageHandlers ! nat (MessageId m) = Some req" "required_state m = req m"
        using table_entry [of m] by blast
      have r: "?r = check_message code other K W M c ?e m S"
        using False junk cap True by (simp add: KphpCommsMessageNotifyCallback_def)
      have id: "\<not> (MessageId m \<le> InvalidKphMsg \<or> MessageId m \<ge> MaxKphMsgClient \<or>
          nat (MessageId m) \<ge> length KphCommsMessageHandlers)"
        using True by (auto simp: InvalidKphMsg_def message_ids nat_less_iff not_le)
      show thesis
      proof (cases "contexts (driver S) ?e")
        case None
        then show thesis using r id req by (auto simp: check_message_def intro: no)
      next
        case (Some p)
        obtain ps s where state: "KphGetProcessState K ?e (p, lsass (driver S)) = (ps, s)"
          by (metis surj_pair)
        show thesis
        proof (cases "KphTestProcessState ps (req m)")
          case ok: True
          then have "?r = handle_message code other K W M c m ps (S\<lparr> driver := put_context ?e s (driver S) \<rparr>)"
            using r id req Some state by (simp add: check_message_def)
          then show thesis using handled False junk cap True Some state ok req(2) by auto
        next
          case denied: False
          have "?r = gate_fails STATUS_ACCESS_DENIED (S\<lparr> driver := put_context ?e s (driver S),
              state_failures := state_failures S @ [(MessageId m, ps, req m)] \<rparr>)"
            using r id req Some state denied by (simp add: check_message_def)
          then show thesis by (rule refused) simp_all
        qed
      qed
    qed
  qed
qed

lemma capture_valid:
  assumes "capture_message junk M = (STATUS_SUCCESS, m)"
  shows "KphMsgValidate m = STATUS_SUCCESS"
  using assms by (auto simp: capture_message_def Let_def KphMsgValidate_def split: if_splits)

lemma open_guarded_opens:
  assumes "open_guarded K W current access readAccess e ob UserMode S = (st, S')"
  shows "opens S' = opens S \<or> opens S' = opens S @ [\<lparr> opened = ob, opened_of = e, open_access = access \<rparr>] \<and>
     (access AND readAccess = access \<or> NT_SUCCESS (KphDominationCheck K current e UserMode))"
  using assms by (auto simp: open_guarded_def Let_def split: if_splits)

definition read_access :: "open_object \<Rightarrow> u32" where
  "read_access ob = (case ob of
       OpenedProcess _ \<Rightarrow> KPH_PROCESS_READ_ACCESS | OpenedThread _ \<Rightarrow> KPH_THREAD_READ_ACCESS
     | OpenedToken _ \<Rightarrow> KPH_TOKEN_READ_ACCESS | OpenedJob _ \<Rightarrow> KPH_JOB_READ_ACCESS
     | OpenedOther _ \<Rightarrow> 0)"

text \<open>The messages that ask for a process, a thread, a token or a job to be opened.\<close>

definition open_ids :: "int set" where
  "open_ids = {KphMsgOpenProcess, KphMsgOpenProcessToken, KphMsgOpenProcessJob, KphMsgOpenThread,
     KphMsgOpenThreadProcess}"

text \<open>The kind of object that a message asks for.\<close>

definition opens_kind :: "int \<Rightarrow> open_object \<Rightarrow> bool" where
  "opens_kind i ob = (case ob of
       OpenedProcess _ \<Rightarrow> i = KphMsgOpenProcess \<or> i = KphMsgOpenThreadProcess
     | OpenedThread _ \<Rightarrow> i = KphMsgOpenThread
     | OpenedToken _ \<Rightarrow> i = KphMsgOpenProcessToken
     | OpenedJob _ \<Rightarrow> i = KphMsgOpenProcessJob
     | OpenedOther _ \<Rightarrow> False)"

text \<open>The process that an object belongs to, which is the one to be dominated.\<close>

definition belongs_to :: "OPEN_KERNEL \<Rightarrow> open_object \<Rightarrow> nat \<Rightarrow> bool" where
  "belongs_to W ob e \<longleftrightarrow> (case ob of
       OpenedProcess p \<Rightarrow> e = p
     | OpenedThread t \<Rightarrow> e = PsGetThreadProcess W t
     | OpenedToken p \<Rightarrow> e = p
     | OpenedJob j \<Rightarrow> e = snd (reference_by_handle W) \<and> PsGetProcessJob W = Some j
     | OpenedOther _ \<Rightarrow> False)"

text \<open>What a handler opens, and the state it required.\<close>

definition open_allowed :: "KERNEL \<Rightarrow> OPEN_KERNEL \<Rightarrow> nat \<Rightarrow> KPH_MESSAGE \<Rightarrow> open_event \<Rightarrow> bool" where
  "open_allowed K W current m ev \<longleftrightarrow>
     opens_kind (MessageId m) (opened ev) \<and> belongs_to W (opened ev) (opened_of ev) \<and>
     open_access ev = message_desired_access m \<and>
     (if open_access ev AND read_access (opened ev) = open_access ev
      then required_state m = KPH_PROCESS_STATE_MEDIUM
      else required_state m = KPH_PROCESS_STATE_MAXIMUM \<and>
           NT_SUCCESS (KphDominationCheck K current (opened_of ev) UserMode))"

lemma open_guarded_allowed:
  assumes "open_guarded K W current (message_desired_access m) (read_access ob) e ob UserMode S = (st, S')"
    and "opens_kind (MessageId m) ob" and "belongs_to W ob e"
    and "required_state m = (if message_desired_access m AND read_access ob \<noteq> message_desired_access m
           then KPH_PROCESS_STATE_MAXIMUM else KPH_PROCESS_STATE_MEDIUM)"
  shows "\<exists>es. opens S' = opens S @ es \<and> length es \<le> 1 \<and> (\<forall>ev \<in> set es. open_allowed K W current m ev)"
  using open_guarded_opens [OF assms(1)] assms(2-4)
  by (auto simp: open_allowed_def split: if_splits)

lemmas open_defs = KphOpenProcess_def KphOpenProcessToken_def KphOpenProcessJob_def KphOpenThread_def
  KphOpenThreadProcess_def

lemma handler_opens:
  assumes "run_handler code other K W current c m S = (st, r, S')"
  shows "\<exists>es. opens S' = opens S @ es \<and>
    (MessageId m \<in> open_ids \<longrightarrow> length es \<le> 1 \<and> (\<forall>ev \<in> set es. open_allowed K W current m ev))"
proof -
  let ?opens = "\<exists>es. opens S' = opens S @ es \<and> length es \<le> 1 \<and> (\<forall>ev \<in> set es. open_allowed K W current m ev)"
  note guarded = open_guarded_allowed [of K W current m]
  consider "MessageId m = KphMsgOpenProcess" | "MessageId m = KphMsgOpenProcessToken"
    | "MessageId m = KphMsgOpenProcessJob" | "MessageId m = KphMsgOpenThread"
    | "MessageId m = KphMsgOpenThreadProcess"
    | "MessageId m \<notin> open_ids" unfolding open_ids_def by blast
  then show ?thesis
  proof cases
    case 1
    have "KphOpenProcess K W current (message_desired_access m) UserMode S = (st', S') \<Longrightarrow> ?opens" for st'
      using guarded [of "OpenedProcess e" e S st' S' for e] open_requires(1) [OF 1] 1
      by (auto simp: KphOpenProcess_def Let_def read_access_def opens_kind_def belongs_to_def KphpCommsOpenProcessRequires_def
          split: prod.splits if_splits)
    then have ?opens
      using assms 1 by (auto simp: run_handler_def KphpCommsOpenProcess_def message_ids split: prod.splits)
    then show ?thesis by blast
  next
    case 2
    have "KphOpenProcessToken K W current (message_desired_access m) UserMode S = (st', S') \<Longrightarrow> ?opens" for st'
      using guarded [of "OpenedToken e" e S st' S' for e] open_requires(2) [OF 2] 2
      by (auto simp: KphOpenProcessToken_def Let_def read_access_def opens_kind_def belongs_to_def KphpCommsOpenProcessTokenRequires_def
          split: prod.splits if_splits)
    then have ?opens
      using assms 2 by (auto simp: run_handler_def KphpCommsOpenProcessToken_def message_ids split: prod.splits)
    then show ?thesis by blast
  next
    case 3
    have "KphOpenProcessJob K W current (message_desired_access m) UserMode S = (st', S') \<Longrightarrow> ?opens" for st'
      using guarded [of "OpenedJob j" e S st' S' for e j] open_requires(3) [OF 3] 3
      by (auto simp: KphOpenProcessJob_def Let_def read_access_def opens_kind_def belongs_to_def KphpCommsOpenProcessJobRequires_def
          split: prod.splits if_splits option.splits)
    then have ?opens
      using assms 3 by (auto simp: run_handler_def KphpCommsOpenProcessJob_def message_ids split: prod.splits)
    then show ?thesis by blast
  next
    case 4
    have "KphOpenThread K W current (message_desired_access m) UserMode S = (st', S') \<Longrightarrow> ?opens" for st'
      using guarded [of "OpenedThread t" e S st' S' for t e] open_requires(4) [OF 4] 4
      by (auto simp: KphOpenThread_def Let_def read_access_def opens_kind_def belongs_to_def KphpCommsOpenThreadRequires_def
          split: prod.splits if_splits)
    then have ?opens
      using assms 4 by (auto simp: run_handler_def KphpCommsOpenThread_def message_ids split: prod.splits)
    then show ?thesis by blast
  next
    case 5
    have "KphOpenThreadProcess K W current (message_desired_access m) UserMode S = (st', S') \<Longrightarrow> ?opens" for st'
      using guarded [of "OpenedProcess e" e S st' S' for e] open_requires(5) [OF 5] 5
      by (auto simp: KphOpenThreadProcess_def Let_def read_access_def opens_kind_def belongs_to_def KphpCommsOpenThreadProcessRequires_def
          split: prod.splits if_splits)
    then have ?opens
      using assms 5 by (auto simp: run_handler_def KphpCommsOpenThreadProcess_def message_ids split: prod.splits)
    then show ?thesis by blast
  next
    case 6
    then show ?thesis using assms by (auto simp: run_handler_def open_ids_def split: prod.splits)
  qed
qed

lemma handle_message_simps:
  assumes "run_handler code other K W (caller_process M) c m S = (st, r, S')"
  shows "gate_handled (handle_message code other K W M c m ps S) = Some (m, ps)"
    "gate_state (handle_message code other K W M c m ps S) = S'"
    "gate_reply (handle_message code other K W M c m ps S) =
       (if NT_SUCCESS st \<and> ucast (Size r) \<le> InputBufferLength M \<and> NT_SUCCESS (copy_back M)
        then Some (rd_bytes (message_bytes r) 0 (unat (Size r))) else None)"
  using assms by (auto simp: handle_message_def Let_def not_less [symmetric])

section \<open>Reading and writing messages\<close>

lemma le_bytes_le_val: "le_bytes (length bs) (le_val bs) = bs"
proof (induction bs)
  case (Cons b bs)
  have "unat (word_of_nat (unat b + 256 * le_val bs) :: u8) = (unat b + 256 * le_val bs) mod 256"
    by (simp only: unsigned_of_nat take_bit_eq_mod) simp
  then have "word_of_nat (unat b + 256 * le_val bs) = b" by (simp only: word_unat_eq_iff) simp
  moreover have "(unat b + 256 * le_val bs) div 256 = le_val bs" by simp
  ultimately show ?case using Cons by (simp only: le_bytes.simps le_val.simps list.size) simp
qed simp

lemma le_val_less: "le_val bs < 256 ^ length bs"
proof (induction bs)
  case (Cons b bs)
  have "unat b + 256 * le_val bs < 256 + 256 * le_val bs" by simp
  also have "\<dots> \<le> 256 * 256 ^ length bs" using Cons by (metis Suc_leI add.commute mult_Suc_right mult_le_mono2)
  finally show ?case by simp
qed simp

lemma le_bytes_rd:
  "le_bytes 2 (unat (rd16 b a)) = rd_bytes b a 2" "le_bytes 4 (unat (rd32 b a)) = rd_bytes b a 4"
  "le_bytes 8 (unat (rd64 b a)) = rd_bytes b a 8"
  using le_bytes_le_val [of "rd_bytes b a 2"] le_bytes_le_val [of "rd_bytes b a 4"]
    le_bytes_le_val [of "rd_bytes b a 8"] le_val_less [of "rd_bytes b a 2"] le_val_less [of "rd_bytes b a 4"]
    le_val_less [of "rd_bytes b a 8"]
  by (simp_all add: rd16_def rd32_def rd64_def unsigned_of_nat take_bit_nat_eq_self)

lemma rd_bytes_join: "rd_bytes b a n @ rd_bytes b (a + n) k = rd_bytes b a (n + k)"
  by (rule nth_equalityI) (auto simp: rd_bytes_def nth_append)

lemma rd_bytes_nth: "k < n \<Longrightarrow> rd_bytes b a n ! k = b (a + k)"
  by (simp add: rd_bytes_def)

lemma header_bytes_of: "header_bytes (message_of b) = rd_bytes b 0 16"
proof -
  have "rd_bytes b 0 16 = rd_bytes b 0 2 @ rd_bytes b 2 2 @ rd_bytes b 4 4 @ rd_bytes b 8 8"
    using rd_bytes_join [of b 0 2 14, symmetric] rd_bytes_join [of b 2 2 12, symmetric]
      rd_bytes_join [of b 4 4 8, symmetric]
    by (simp del: add_2_eq_Suc add_2_eq_Suc')
  then show ?thesis by (simp add: header_bytes_def message_of_def le_bytes_rd)
qed

lemma table_entry_bytes: "entry_bytes (entry_at b i) = rd_bytes b (364 + 12 * i) 12"
proof -
  have "rd_bytes b x 12 = rd_bytes b x 4 @ rd_bytes b (x + 4) 4 @ rd_bytes b (x + 8) 2 @ rd_bytes b (x + 10) 2" for x
    using rd_bytes_join [of b x 4 8, symmetric] rd_bytes_join [of b "x + 4" 4 4, symmetric]
      rd_bytes_join [of b "x + 8" 2 2, symmetric]
    by (simp add: add.assoc add.commute [of x 10])
  then show ?thesis by (simp add: entry_bytes_def entry_at_def le_bytes_rd add.commute)
qed

lemma table_bytes_of: "concat (map entry_bytes (map (entry_at b) [0..<n])) = rd_bytes b 364 (12 * n)"
proof (induction n)
  case 0
  then show ?case by (simp add: rd_bytes_def)
next
  case (Suc n)
  then show ?case
    using rd_bytes_join [of b 364 "12 * n" 12] by (simp add: table_entry_bytes add.commute)
qed

text \<open>Only the bytes of the union and of the buffer are those of \<open>B\<close>.\<close>

lemma message_bytes_update:
  "message_bytes (message_of h\<lparr> Bytes := B \<rparr>) =
     (\<lambda>i. if i < 16 \<or> i = 360 \<or> 364 \<le> i \<and> i < 460 then h i else B i)"
proof -
  have "header_bytes (message_of h\<lparr> Bytes := B \<rparr>) = rd_bytes h 0 16"
    using header_bytes_of [of h] by (simp add: header_bytes_def)
  moreover have "[Count (message_of h\<lparr> Bytes := B \<rparr>)] = rd_bytes h 360 1"
    by (simp add: message_of_def rd_bytes_def upt_rec)
  moreover have "concat (map entry_bytes (Entries (message_of h\<lparr> Bytes := B \<rparr>))) = rd_bytes h 364 96"
    using table_bytes_of [of h 8] by (simp add: message_of_def DYN_ENTRIES_def)
  ultimately have "message_bytes (message_of h\<lparr> Bytes := B \<rparr>) =
      wr_bytes (wr_bytes (wr_bytes B 0 (rd_bytes h 0 16)) 360 (rd_bytes h 360 1)) 364 (rd_bytes h 364 96)"
    by (simp add: message_bytes_def)
  then show ?thesis by (intro ext) (auto simp: wr_bytes_def rd_bytes_nth length_rd_bytes)
qed

text \<open>A message that is not changed is written as it was read.\<close>

lemma message_bytes_of: "message_bytes (message_of b) = b"
  using message_bytes_update [of b b] by (auto simp: message_of_def)

text \<open>What a client gets back from the handlers that only report a status.\<close>

definition received :: "MESSAGE_CALL \<Rightarrow> mem" where
  "received M = (\<lambda>i. if i < unat KPH_MESSAGE_MIN_SIZE then snd (first_copy M) i else snd (second_copy M) i)"

definition captured_head :: "mem \<Rightarrow> MESSAGE_CALL \<Rightarrow> mem" where
  "captured_head junk M = (\<lambda>i. if i < unat KPH_MESSAGE_MIN_SIZE then snd (first_copy M) i else junk i)"

lemma capture_success:
  assumes "capture_message junk M = (STATUS_SUCCESS, m)"
  obtains B where "m = message_of (captured_head junk M)\<lparr> Bytes := B \<rparr>"
    "\<And>i. i < unat KPH_MESSAGE_MIN_SIZE \<Longrightarrow> B i = snd (first_copy M) i"
    "\<And>i. unat KPH_MESSAGE_MIN_SIZE \<le> i \<Longrightarrow> i < unat (Size m) \<Longrightarrow> B i = snd (second_copy M) i"
proof -
  let ?h = "captured_head junk M"
  let ?B = "\<lambda>i. if unat KPH_MESSAGE_MIN_SIZE \<le> i \<and> i < unat (Size (message_of ?h)) then snd (second_copy M) i else ?h i"
  have m: "m = (if Size (message_of ?h) > KPH_MESSAGE_MIN_SIZE then message_of ?h\<lparr> Bytes := ?B \<rparr> else message_of ?h)"
    using assms unfolding captured_head_def capture_message_def by (auto simp: Let_def split: if_splits)
  then have size: "Size m = Size (message_of ?h)" by simp
  have bytes: "Bytes m = (if Size m > KPH_MESSAGE_MIN_SIZE then ?B else ?h)"
    using m by (simp add: message_of_def)
  show thesis
  proof (rule that [of "Bytes m"])
    show "m = message_of ?h\<lparr> Bytes := Bytes m \<rparr>" by (subst m) (simp add: m)
    show "Bytes m i = snd (first_copy M) i" if "i < unat KPH_MESSAGE_MIN_SIZE" for i
      using that by (simp add: bytes captured_head_def)
    show "Bytes m i = snd (second_copy M) i" if "unat KPH_MESSAGE_MIN_SIZE \<le> i" "i < unat (Size m)" for i
      using that size by (simp add: bytes word_less_nat_alt)
  qed
qed

lemma captured_bytes:
  assumes "capture_message junk M = (STATUS_SUCCESS, m)" and i: "i < unat (Size m)" "i < 16 \<or> 20 \<le> i"
  shows "message_bytes (set_message_status code st m) i = received M i"
proof -
  obtain B where m: "m = message_of (captured_head junk M)\<lparr> Bytes := B \<rparr>"
    and B: "\<And>i. i < unat KPH_MESSAGE_MIN_SIZE \<Longrightarrow> B i = snd (first_copy M) i"
      "\<And>i. unat KPH_MESSAGE_MIN_SIZE \<le> i \<Longrightarrow> i < unat (Size m) \<Longrightarrow> B i = snd (second_copy M) i"
    using capture_success [OF assms(1)] by blast
  let ?h = "captured_head junk M"
  have min: "unat KPH_MESSAGE_MIN_SIZE = 460" by (simp add: KPH_MESSAGE_MIN_SIZE_def)
  have "set_message_status code st m =
      message_of ?h\<lparr> Bytes := wr_bytes B 16 (le_bytes 4 (unat (code st))) \<rparr>"
    unfolding set_message_status_def by (subst (2) m) (simp add: m)
  then have "message_bytes (set_message_status code st m) i = (if i < 460 then snd (first_copy M) i else B i)"
    using i(2) B(1) by (auto simp: message_bytes_update wr_bytes_def captured_head_def min)
  then show ?thesis using B(2) i(1) by (simp add: received_def min)
qed

section \<open>The port over time\<close>

text \<open>
  Connections, disconnections and messages of connected clients, in any order. Between them the rest
  of the driver may change the state of the processes.
\<close>

datatype comms_op =
    Connect KERNEL CONNECT_CALL
  | Disconnect nat
  | Send KERNEL OPEN_KERNEL MESSAGE_CALL nat
  | DriverChange SYSTEM

fun comms_step ::
  "(ntstatus \<Rightarrow> u32) \<Rightarrow> other_handlers
     \<Rightarrow> comms_op \<Rightarrow> COMMS \<Rightarrow> COMMS" where
  "comms_step code other (Connect K C) S = snd (snd (KphpCommsConnectNotifyCallback K C S))"
| "comms_step code other (Disconnect c) S = KphpCommsDisconnectNotifyCallback c S"
| "comms_step code other (Send K W M c) S =
     (case clients S c of
        None \<Rightarrow> S
      | Some client \<Rightarrow> gate_state (KphpCommsMessageNotifyCallback code other K W M c client S))"
| "comms_step code other (DriverChange B) S = S\<lparr> driver := B \<rparr>"

definition comms_run where
  "comms_run code other ops S = fold (comms_step code other) ops S"

text \<open>The slots hold the connected clients, each once, before the free ones.\<close>

definition slots_hold :: "nat list \<Rightarrow> COMMS \<Rightarrow> bool" where
  "slots_hold cs S \<longleftrightarrow>
     KphpConnectedClients S = map Some cs @ replicate (KPH_COMMS_MAX_CLIENTS - length cs) None \<and>
     KphpConnectedClientsCount S = length cs \<and> length cs \<le> KPH_COMMS_MAX_CLIENTS \<and>
     distinct cs \<and> set cs = dom (clients S)"

lemma slots_hold_cong:
  "clients S' = clients S \<Longrightarrow> KphpConnectedClients S' = KphpConnectedClients S \<Longrightarrow>
   KphpConnectedClientsCount S' = KphpConnectedClientsCount S \<Longrightarrow> slots_hold cs S' = slots_hold cs S"
  by (simp add: slots_hold_def)

lemma slots_hold_start: "slots_hold [] (comms_start B)"
  by (simp add: slots_hold_def comms_start_def)

lemma slots_hold_add:
  assumes "slots_hold cs S" "clients S c = None" "KphpAddConnectedClient c S = (True, S')"
  shows "slots_hold (cs @ [c]) (S'\<lparr> clients := (clients S')(c \<mapsto> client) \<rparr>)"
proof -
  have less: "length cs < KPH_COMMS_MAX_CLIENTS" and
    S': "S' = S\<lparr> KphpConnectedClients := (KphpConnectedClients S)[length cs := Some c],
                KphpConnectedClientsCount := length cs + 1 \<rparr>"
    using assms(1,3) by (auto simp: KphpAddConnectedClient_def slots_hold_def split: if_splits)
  obtain k where k: "KPH_COMMS_MAX_CLIENTS - length cs = Suc k" using less by (metis Suc_diff_Suc)
  have "(map Some cs @ replicate (Suc k) None)[length cs := Some c] = map Some (cs @ [c]) @ replicate k None"
    by (simp add: list_update_append)
  moreover have "KPH_COMMS_MAX_CLIENTS - length (cs @ [c]) = k" using k by simp
  moreover have "c \<notin> set cs" using assms(1,2) by (auto simp: slots_hold_def)
  ultimately show ?thesis using assms(1) less k by (auto simp: slots_hold_def S')
qed

lemma connect_cases:
  obtains (refused) st B where "KphpCommsConnectNotifyCallback K C S = (st, None, S\<lparr> driver := B \<rparr>)"
  | (connected) B S' where "clients S (client_object C) = None"
      "KphpAddConnectedClient (client_object C) (S\<lparr> driver := B \<rparr>) = (True, S')"
      "KphpCommsConnectNotifyCallback K C S =
         (STATUS_SUCCESS, Some (client_object C), S'\<lparr> clients := (clients S')(client_object C \<mapsto>
           \<lparr> client_process = connecting_process C, Port = ClientPort C, RingBuffer = ConnectionContext C \<rparr>) \<rparr>)"
proof -
  obtain low B where low: "test_state K (connecting_process C) KPH_PROCESS_STATE_LOW (driver S) = (low, B)"
    by (metis surj_pair)
  obtain added S' where add: "KphpAddConnectedClient (client_object C) (S\<lparr> driver := B \<rparr>) = (added, S')"
    by (metis surj_pair)
  have ex: "\<exists>B. S = S\<lparr> driver := B \<rparr>" "\<exists>B'. S\<lparr> driver := B \<rparr> = S\<lparr> driver := B' \<rparr>" for S :: COMMS and B
    by (rule exI [of _ "driver S"], simp) blast
  have S': "\<not> added \<Longrightarrow> S' = S\<lparr> driver := B \<rparr>"
    using add by (auto simp: KphpAddConnectedClient_def split: if_splits)
  let ?ok = "PrivilegeCheck K SeDebugPrivilege (connecting_process C) \<and> contexts (driver S) (connecting_process C) \<noteq> None \<and>
    low \<and> client_allocated C \<and> clients S (client_object C) = None \<and>
    \<not> (ConnectionContext C \<and> \<not> NT_SUCCESS (ring_buffer_status C)) \<and> added"
  show thesis
  proof (cases ?ok)
    case True
    show thesis
      by (rule connected [of B S'])
        (use True low add in \<open>auto simp: KphpCommsConnectNotifyCallback_def Let_def\<close>)
  next
    case False
    then have "\<exists>st B. KphpCommsConnectNotifyCallback K C S = (st, None, S\<lparr> driver := B \<rparr>)"
      using low add S' by (auto simp: KphpCommsConnectNotifyCallback_def Let_def ex)
    then show thesis using refused by blast
  qed
qed

lemma find_slot:
  assumes "slots_hold cs S"
  shows "find (\<lambda>i. KphpConnectedClients S ! i = Some c) [0..<KphpConnectedClientsCount S] =
    find (\<lambda>i. cs ! i = c) [0..<length cs]"
  using assms by (auto simp: slots_hold_def nth_append intro!: find_cong)

lemma slots_hold_remove:
  assumes "slots_hold cs S"
  shows "KphpRemoveConnectedClient c S =
    (if c \<in> set cs
     then (Some c, S\<lparr> KphpConnectedClientsCount := length cs - 1,
             KphpConnectedClients := map Some (remove1 c cs) @
               replicate (KPH_COMMS_MAX_CLIENTS - (length cs - 1)) None \<rparr>)
     else (None, S))"
proof (cases "c \<in> set cs")
  case False
  then have "find (\<lambda>i. cs ! i = c) [0..<length cs] = None"
    by (auto simp: find_None_iff)
  then show ?thesis using False find_slot [OF assms, of c] by (simp add: KphpRemoveConnectedClient_def Let_def)
next
  case True
  then obtain xs ys where cs: "cs = xs @ c # ys" "c \<notin> set xs" by (meson split_list_first)
  have "find (\<lambda>i. cs ! i = c) [0..<length cs] = Some (length xs)"
    unfolding find_Some_iff using cs by (auto simp: nth_append intro!: exI [of _ "length xs"])
  then have find: "find (\<lambda>i. KphpConnectedClients S ! i = Some c) [0..<KphpConnectedClientsCount S] = Some (length xs)"
    using find_slot [OF assms] by simp
  define n where "n = KPH_COMMS_MAX_CLIENTS - length cs"
  have n: "KPH_COMMS_MAX_CLIENTS = length xs + Suc (length ys) + n" "KphpConnectedClientsCount S = length cs"
    and slots: "KphpConnectedClients S = map Some xs @ Some c # map Some ys @ replicate n None"
    using assms cs n_def by (auto simp: slots_hold_def)
  have last: "KPH_COMMS_MAX_CLIENTS - 1 = length xs + length ys + n" using n(1) by simp
  have "(map Some xs @ map Some ys @ replicate n None @ [z])[length xs + length ys + n := None] =
      map Some xs @ map Some ys @ replicate n None @ [None]" for z :: "nat option"
    by (simp add: list_update_append)
  moreover have "replicate n None @ [None] = replicate (Suc n) (None :: nat option)"
    by (simp add: replicate_append_same)
  moreover have "(map Some xs @ Some c # map Some ys @ replicate n None) ! length xs = Some c"
    using nth_append_length [of "map Some xs"] by simp
  ultimately have "KphpRemoveConnectedClient c S = (Some c, S\<lparr> KphpConnectedClientsCount := length cs - 1,
      KphpConnectedClients := map Some xs @ map Some ys @ replicate (Suc n) None \<rparr>)"
    unfolding KphpRemoveConnectedClient_def Let_def find option.case last unfolding slots n(2) by simp
  moreover have "KPH_COMMS_MAX_CLIENTS - (length cs - 1) = Suc n" using n cs by simp
  ultimately show ?thesis using True cs by (simp add: remove1_append)
qed

lemma slots_hold_disconnect:
  assumes "slots_hold cs S"
  shows "slots_hold (remove1 c cs) (KphpCommsDisconnectNotifyCallback c S)"
proof (cases "c \<in> set cs")
  case True
  then have "length (remove1 c cs) = length cs - 1" by (simp add: length_remove1)
  then show ?thesis
    using True assms by (auto simp: KphpCommsDisconnectNotifyCallback_def slots_hold_remove [OF assms] slots_hold_def)
next
  case False
  then show ?thesis
    using assms by (simp add: KphpCommsDisconnectNotifyCallback_def slots_hold_remove [OF assms] remove1_idem)
qed

lemma open_guarded_table:
  assumes "open_guarded K W current access readAccess e ob md S = (st, S')"
  shows "clients S' = clients S \<and> KphpConnectedClients S' = KphpConnectedClients S \<and>
    KphpConnectedClientsCount S' = KphpConnectedClientsCount S"
  using assms by (auto simp: open_guarded_def Let_def split: if_splits)

lemma handler_table:
  assumes "run_handler code other K W current c m S = (st, r, S')"
  shows "clients S' = clients S \<and> KphpConnectedClients S' = KphpConnectedClients S \<and>
    KphpConnectedClientsCount S' = KphpConnectedClientsCount S"
  using assms
  by (auto simp: run_handler_def KphpCommsOpenProcess_def KphpCommsOpenProcessToken_def KphpCommsOpenProcessJob_def
    KphpCommsOpenThread_def KphpCommsOpenThreadProcess_def open_defs Let_def
    split: prod.splits if_splits option.splits dest: open_guarded_table)

lemma comms_step_slots:
  assumes "slots_hold cs S"
  shows "\<exists>cs. slots_hold cs (comms_step code other op S)"
proof (cases op)
  case (Connect K C)
  show ?thesis
  proof (cases rule: connect_cases [of K C S])
    case (refused st B)
    then show ?thesis using assms Connect by (auto simp: slots_hold_def)
  next
    case (connected B S')
    have "slots_hold cs (S\<lparr> driver := B \<rparr>)" using assms by (simp add: slots_hold_def)
    from slots_hold_add [OF this _ connected(2)] connected(1,3) Connect show ?thesis
      by (metis COMMS.select_convs(2) COMMS.update_convs(1) COMMS.surjective comms_step.simps(1) snd_conv)
  qed
next
  case (Disconnect c)
  show ?thesis
    using slots_hold_disconnect [OF assms, of c] Disconnect by auto
next
  case (Send K W M c)
  show ?thesis
  proof (cases "clients S c")
    case None
    then show ?thesis using assms Send by auto
  next
    case (Some client)
    let ?r = "KphpCommsMessageNotifyCallback code other K W M c client S"
    have "clients (gate_state ?r) = clients S \<and> KphpConnectedClients (gate_state ?r) = KphpConnectedClients S \<and>
        KphpConnectedClientsCount (gate_state ?r) = KphpConnectedClientsCount S"
    proof (cases rule: message_cases [of code other K W M c client S])
      case (handled junk m p ps s)
      obtain st r S' where run: "run_handler code other K W (caller_process M) c m
          (S\<lparr> driver := put_context (client_process client) s (driver S) \<rparr>) = (st, r, S')" by (metis prod_cases3)
      show ?thesis using handler_table [OF run] handled(1) handle_message_simps(2) [OF run] by simp
    qed simp
    then have "slots_hold cs (gate_state ?r)" using assms slots_hold_cong by metis
    then show ?thesis using Send Some by auto
  qed
next
  case (DriverChange B)
  then show ?thesis using assms by (auto simp: slots_hold_def)
qed

lemma comms_run_slots: "\<exists>cs. slots_hold cs (comms_run code other ops (comms_start B))"
  unfolding comms_run_def
proof (induction ops rule: rev_induct)
  case Nil
  then show ?case using slots_hold_start by auto
next
  case (snoc op ops)
  then show ?case using comms_step_slots by fastforce
qed

section \<open>Properties of the port\<close>

lemma handle_message_handled:
  "gate_handled (handle_message code other K W M c m ps S) = Some (m, ps)"
  using handle_message_simps(1) by (metis prod_cases3)

lemma reply_length:
  assumes "gate_reply (handle_message code other K W M c m ps S) = Some bs"
  shows "length bs \<le> unat (InputBufferLength M)"
proof -
  obtain st r S' where run: "run_handler code other K W (caller_process M) c m S = (st, r, S')"
    by (metis prod_cases3)
  have "ucast (Size r) \<le> InputBufferLength M" "length bs = unat (Size r)"
    using assms unfolding handle_message_simps(3) [OF run] by (auto simp: length_rd_bytes split: if_splits)
  then show ?thesis by (simp add: word_le_nat_alt unsigned_ucast_eq take_bit_nat_eq_self unsigned_less [THEN order_less_le_trans])
qed

text \<open>
  C3: Only clients that may use a message reach its handler. A handler runs only for a call that the
  process of the client makes from user mode with one input buffer, for a message that is valid and
  has a handler, when the state of that process, taken for this very message, passes the test for
  what the message requires, and low at least. Unless protections are suppressed, as they are in
  developer mode, a process that was tampered with never reaches a handler that requires the maximum.
  What is refused opens nothing and is not answered, and an answer fits into the buffer of the client.
\<close>

theorem messages_gated:
  "let r = KphpCommsMessageNotifyCallback code other K W M c client S in
   (case gate_handled r of
      None \<Rightarrow> gate_reply r = None \<and> opens (gate_state r) = opens S
    | Some (m, ps) \<Rightarrow>
        caller_process M = client_process client \<and> ExGetPreviousMode M = UserMode \<and> \<not> input_invalid M \<and>
        KphMsgValidate m = STATUS_SUCCESS \<and> 0 < MessageId m \<and> MessageId m < MaxKphMsgClient \<and>
        (\<exists>p s. contexts (driver S) (client_process client) = Some p \<and>
           KphGetProcessState K (client_process client) (p, lsass (driver S)) = (ps, s) \<and>
           (\<not> KphProtectionsSuppressed K \<and> barred p \<longrightarrow> required_state m \<noteq> KPH_PROCESS_STATE_MAXIMUM)) \<and>
        KphTestProcessState ps (required_state m) \<and> KphTestProcessState ps KPH_PROCESS_STATE_LOW) \<and>
   (\<forall>bs. gate_reply r = Some bs \<longrightarrow> length bs \<le> unat (InputBufferLength M))"
proof (cases rule: message_cases [of code other K W M c client S])
  case (refused st S')
  then show ?thesis by simp
next
  case (handled junk m p ps s)
  have "\<not> KphProtectionsSuppressed K \<and> barred p \<longrightarrow> required_state m \<noteq> KPH_PROCESS_STATE_MAXIMUM"
    using barred_never_maximum [of K "client_process client" p "lsass (driver S)" ps "fst s" "snd s"]
      handled(10,11) by auto
  then show ?thesis
    unfolding Let_def handled(1) handle_message_handled
    using handled capture_valid [OF handled(6)] at_least_low [OF handled(7,8,11)] reply_length
    by (auto simp: MaxKphMsgClient_def)
qed

text \<open>
  C11: What is opened for a client as a process, a thread, a token or a job was allowed. A message that
  asks for one of these opens at most one object, of the kind it names and with the access it asked
  for; an access to read needs the medium state, any other one the maximum state and that the caller
  dominates the process that the object belongs to (the process itself, the process of the thread, the
  process whose token or whose job it is), and the client's process passed the test for that
  state when the message came. A message that is refused opens nothing. What the other messages open,
  devices, drivers, files, sections and duplicates of handles, is outside of this.
\<close>

theorem opens_authorised:
  "let r = KphpCommsMessageNotifyCallback code other K W M c client S in
   \<exists>es. opens (gate_state r) = opens S @ es \<and>
     (gate_handled r = None \<longrightarrow> es = []) \<and>
     (\<forall>m ps. gate_handled r = Some (m, ps) \<and> MessageId m \<in> open_ids \<longrightarrow> length es \<le> 1 \<and>
        (\<forall>ev \<in> set es. opens_kind (MessageId m) (opened ev) \<and> belongs_to W (opened ev) (opened_of ev) \<and>
           open_access ev = message_desired_access m \<and>
           KphTestProcessState ps
             (if open_access ev AND read_access (opened ev) = open_access ev
              then KPH_PROCESS_STATE_MEDIUM else KPH_PROCESS_STATE_MAXIMUM) \<and>
           (open_access ev AND read_access (opened ev) = open_access ev \<or>
            NT_SUCCESS (KphDominationCheck K (client_process client) (opened_of ev) UserMode))))"
proof (cases rule: message_cases [of code other K W M c client S])
  case (refused st S')
  then show ?thesis by simp
next
  case (handled junk m p ps s)
  let ?S = "S\<lparr> driver := put_context (client_process client) s (driver S) \<rparr>"
  obtain st w S' where run: "run_handler code other K W (caller_process M) c m ?S = (st, w, S')"
    by (metis prod_cases3)
  obtain es where es: "opens S' = opens S @ es"
    "MessageId m \<in> open_ids \<longrightarrow> length es \<le> 1 \<and> (\<forall>ev \<in> set es. open_allowed K W (client_process client) m ev)"
    using handler_opens [OF run] handled(2) by auto
  let ?allowed = "\<lambda>ev. opens_kind (MessageId m) (opened ev) \<and> belongs_to W (opened ev) (opened_of ev) \<and>
      open_access ev = message_desired_access m \<and>
      KphTestProcessState ps
        (if open_access ev AND read_access (opened ev) = open_access ev
         then KPH_PROCESS_STATE_MEDIUM else KPH_PROCESS_STATE_MAXIMUM) \<and>
      (open_access ev AND read_access (opened ev) = open_access ev \<or>
       NT_SUCCESS (KphDominationCheck K (client_process client) (opened_of ev) UserMode))"
  have allowed: "?allowed ev" if "open_allowed K W (client_process client) m ev" for ev
    using that handled(11) unfolding open_allowed_def
    by (cases "open_access ev AND read_access (opened ev) = open_access ev") simp_all
  have all: "MessageId m \<in> open_ids \<longrightarrow> length es \<le> 1 \<and> (\<forall>ev \<in> set es. ?allowed ev)"
    using es(2) allowed by blast
  show ?thesis
    unfolding Let_def handled(1) handle_message_handled handle_message_simps(2) [OF run]
    by (intro exI [of _ es] conjI) (use es(1) in simp, simp, use all in blast)
qed

text \<open>
  C32: The table of the connected clients stays well formed. After any sequence of connections,
  disconnections and messages its 32 slots hold the connected clients, each exactly once and before
  the free slots, as many as the count says; a new client is refused only when all slots are taken.
\<close>

theorem client_table_well_formed:
  "let S = comms_run code other ops (comms_start B) in
   \<exists>cs. KphpConnectedClients S = map Some cs @ replicate (KPH_COMMS_MAX_CLIENTS - length cs) None \<and>
        KphGetConnectedClientCount S = length cs \<and> length cs \<le> KPH_COMMS_MAX_CLIENTS \<and> distinct cs \<and>
        (\<forall>c. c \<in> set cs \<longleftrightarrow> clients S c \<noteq> None) \<and>
        (\<forall>c. fst (KphpAddConnectedClient c S) \<longleftrightarrow> (\<exists>slot \<in> set (KphpConnectedClients S). slot = None))"
proof -
  define S where "S = comms_run code other ops (comms_start B)"
  obtain cs where cs: "slots_hold cs S"
    using comms_run_slots unfolding S_def by blast
  moreover have "fst (KphpAddConnectedClient c S) \<longleftrightarrow> (\<exists>slot \<in> set (KphpConnectedClients S). slot = None)" for c
    using cs by (auto simp: slots_hold_def KphpAddConnectedClient_def)
  ultimately show ?thesis
    unfolding Let_def S_def [symmetric] slots_hold_def KphGetConnectedClientCount_def by (intro exI [of _ cs]) auto
qed

lemma open_handler_reports:
  assumes "run_handler code other K W current c m S = (st, r, S')" and "MessageId m \<in> open_ids"
  obtains status where "r = set_message_status code status m"
  using assms
  by (auto simp: run_handler_def open_ids_def KphpCommsOpenProcess_def KphpCommsOpenProcessToken_def
    KphpCommsOpenProcessJob_def KphpCommsOpenThread_def KphpCommsOpenThreadProcess_def
    split: prod.splits if_splits)

lemma status_bytes:
  assumes "i < 4"
  shows "message_bytes (set_message_status code st m) (16 + i) = le_bytes 4 (unat (code st)) ! i"
proof -
  have "length (header_bytes m) = 16" for m by (simp add: header_bytes_def length_le_bytes)
  then show ?thesis
    using assms by (simp add: message_bytes_def set_message_status_def wr_bytes_def length_le_bytes)
qed

text \<open>
  C30: The answer to a message that asks for a process, a thread, a token or a job to be opened holds
  nothing but what the client sent and a status. The bytes that the client gets back are those of its
  own request, byte for byte as they were read from its memory, except for the member Status, which
  is the number of a status; whatever the memory of the driver held where the message was copied to.
  The answers to the other messages, most of which are made to carry data, are outside of this.
\<close>

theorem replies_disclose_nothing:
  "let r = KphpCommsMessageNotifyCallback code other K W M c client S in
   \<forall>m ps bs. gate_handled r = Some (m, ps) \<and> gate_reply r = Some bs \<and> MessageId m \<in> open_ids \<longrightarrow>
     length bs = unat (Size m) \<and>
     (\<forall>i < length bs. i < 16 \<or> 20 \<le> i \<longrightarrow> bs ! i = received M i) \<and>
     (\<exists>status. \<forall>i < 4. bs ! (16 + i) = le_bytes 4 (unat (code status)) ! i)"
proof (cases rule: message_cases [of code other K W M c client S])
  case (refused st S')
  then show ?thesis by simp
next
  case (handled junk m p ps s)
  obtain st w S' where run: "run_handler code other K W (caller_process M) c m
      (S\<lparr> driver := put_context (client_process client) s (driver S) \<rparr>) = (st, w, S')"
    by (metis prod_cases3)
  have "460 \<le> unat (Size m)"
    using capture_valid [OF handled(6)]
    by (auto simp: KphMsgValidate_def KPH_MESSAGE_MIN_SIZE_def word_less_nat_alt split: if_splits)
  moreover have "length bs = unat (Size m) \<and>
     (\<forall>i < length bs. i < 16 \<or> 20 \<le> i \<longrightarrow> bs ! i = received M i) \<and>
     (\<exists>status. \<forall>i < 4. 460 \<le> unat (Size m) \<longrightarrow> bs ! (16 + i) = le_bytes 4 (unat (code status)) ! i)"
    if reply: "gate_reply (handle_message code other K W M c m ps
        (S\<lparr> driver := put_context (client_process client) s (driver S) \<rparr>)) = Some bs"
      and ids: "MessageId m \<in> open_ids" for bs
  proof -
    obtain status where w: "w = set_message_status code status m"
      using open_handler_reports [OF run ids] .
    then have "bs = rd_bytes (message_bytes w) 0 (unat (Size m))"
      using reply unfolding handle_message_simps(3) [OF run] by (auto simp: set_message_status_def split: if_splits)
    then show ?thesis
      using captured_bytes [OF handled(6), of _ code status] status_bytes [of _ code status m]
      by (auto simp: w length_rd_bytes rd_bytes_nth intro!: exI [of _ status])
  qed
  ultimately show ?thesis
    unfolding Let_def handled(1) handle_message_handled by (auto simp del: One_nat_def)
qed

section \<open>An example\<close>

text \<open>
  The process 20 is the client. It asks for access to the process 30, first to read, then to
  terminate it; \<open>tampered\<close> says that a debugger was attached to it.
\<close>

definition comms_process :: "bool \<Rightarrow> KPH_PROCESS_CONTEXT" where
  "comms_process tampered =
     (set_state (KPH_PROTECTION_VERIFIED OR KPH_PROTECTION_ACTIVE OR KPH_PROTECTION_TCB)
       (KphpInitializeProcessContext 20 (Some []) (Some 10) False))
       \<lparr> CreateNotification := True,
         StateTracking := \<lparr> Debugged = tampered, FileObjectWritable = False,
                           FileObjectTransaction = False, UserWritableReferences = False \<rparr> \<rparr>"

definition comms_system :: "bool \<Rightarrow> SYSTEM" where
  "comms_system tampered =
     \<lparr> contexts = [20 \<mapsto> comms_process tampered], tracked = [20], lsass = 99, handles = (\<lambda>e. []) \<rparr>"

definition comms_request :: "u8 \<Rightarrow> mem" where
  "comms_request access = wr_bytes (wr_bytes (\<lambda>i. 0) 0 [8, 0, 204, 1, 3, 0, 0, 0])
     32 [access]"

definition comms_call :: "u8 \<Rightarrow> MESSAGE_CALL" where
  "comms_call access =
     \<lparr> caller_process = 20, ExGetPreviousMode = UserMode, InputBuffer = True, InputBufferLength = 460,
       OutputBuffer = False, OutputBufferLength = 0, allocated_message = Some (\<lambda>i. 165),
       first_copy = (STATUS_SUCCESS, comms_request access),
       second_copy = (STATUS_SUCCESS, comms_request access), copy_back = STATUS_SUCCESS \<rparr>"

definition comms_answers :: OPEN_KERNEL where
  "comms_answers =
     \<lparr> copy_client_id = (STATUS_SUCCESS, 30, 0), PsLookupProcessThreadByCid = (STATUS_SUCCESS, 30, 31),
       lookup_process = (STATUS_SUCCESS, 30), lookup_thread = (STATUS_SUCCESS, 31),
       reference_by_handle = (STATUS_SUCCESS, 30), PsReferencePrimaryToken = True,
       exit_synchronization = STATUS_SUCCESS, PsGetProcessJob = None, PsGetThreadProcess = (\<lambda>t. 30),
       ObOpenObjectByPointer = STATUS_SUCCESS, KphWriteHandleToMode = STATUS_SUCCESS \<rparr>"

definition comms_client :: KPH_CLIENT where
  "comms_client = \<lparr> client_process = 20, Port = 5, RingBuffer = False \<rparr>"

definition comms_code :: "ntstatus \<Rightarrow> u32" where
  "comms_code st = (if st = STATUS_SUCCESS then 0 else 0xc0000001)"

definition comms_others :: other_handlers where
  "comms_others c m B = (STATUS_SUCCESS, m, B, [])"

definition comms_result :: "bool \<Rightarrow> u8 \<Rightarrow> GATE" where
  "comms_result tampered access =
     KphpCommsMessageNotifyCallback comms_code comms_others example_kernel comms_answers
       (comms_call access) 3 comms_client (comms_start (comms_system tampered))"

lemma comms_tampered:
  "map_option (\<lambda>(m, ps). MessageId m) (gate_handled (comms_result True 0x10)) = Some 3"
  by code_simp

lemma comms_run_once:
  "(let r = comms_result False 1 in
     (map_option (\<lambda>(m, ps). (MessageId m, Size m)) (gate_handled r), map_option length (gate_reply r),
      opens (gate_state r))) =
   (Some (3, 460), Some 460, [\<lparr> opened = OpenedProcess 30, opened_of = 30, open_access = 1 \<rparr>])"
  by code_simp

lemma comms_example:
  "map_option (\<lambda>(m, ps). MessageId m) (gate_handled (comms_result True 0x10)) = Some 3"
  "map_option (\<lambda>(m, ps). (MessageId m, Size m)) (gate_handled (comms_result False 1)) = Some (3, 460)"
  "map_option length (gate_reply (comms_result False 1)) = Some 460"
  "opens (gate_state (comms_result False 1)) =
      [\<lparr> opened = OpenedProcess 30, opened_of = 30, open_access = 1 \<rparr>]"
  using comms_tampered comms_run_once by (simp_all add: Let_def)

lemma messages_gated_witness:
  "(\<exists>m ps. gate_handled (comms_result True 0x10) = Some (m, ps) \<and> MessageId m = 3 \<and>
      required_state m \<noteq> KPH_PROCESS_STATE_MAXIMUM) \<and>
   (\<exists>bs. gate_reply (comms_result False 1) = Some bs \<and> bs \<noteq> [] \<and> length bs \<le> 460)"
proof -
  have K: "\<not> KphProtectionsSuppressed example_kernel" by code_simp
  obtain m ps where m: "gate_handled (comms_result True 0x10) = Some (m, ps)" "MessageId m = 3"
    using comms_example(1) by auto
  have "barred (comms_process True)" by (simp add: barred_def comms_process_def set_state_def)
  moreover have "contexts (driver (comms_start (comms_system True))) (client_process comms_client) =
      Some (comms_process True)"
    by (simp add: comms_start_def comms_system_def comms_client_def)
  ultimately have "required_state m \<noteq> KPH_PROCESS_STATE_MAXIMUM"
    using messages_gated [of comms_code comms_others example_kernel comms_answers "comms_call 0x10" 3 comms_client
        "comms_start (comms_system True)", folded comms_result_def, unfolded Let_def m(1) option.case prod.case]
      K by auto
  moreover obtain bs where bs: "gate_reply (comms_result False 1) = Some bs" "length bs = 460"
    using comms_example(3) by auto
  ultimately show ?thesis using m by auto
qed

lemma opens_authorised_witness:
  "\<exists>ev. opens (gate_state (comms_result False 1)) = [ev] \<and> opened ev = OpenedProcess 30 \<and>
     open_access ev = PROCESS_TERMINATE \<and>
     NT_SUCCESS (KphDominationCheck example_kernel 20 (opened_of ev) UserMode)"
proof -
  have client: "client_process comms_client = 20" by (simp add: comms_client_def)
  have run: "opens (comms_start (comms_system False)) = []" "PROCESS_TERMINATE = 1"
    "1 AND read_access (OpenedProcess 30) \<noteq> 1"
    by code_simp+
  obtain m ps where m: "gate_handled (comms_result False 1) = Some (m, ps)" "MessageId m = 3"
    using comms_example(2) by auto
  then show ?thesis
    using opens_authorised [of comms_code comms_others example_kernel comms_answers "comms_call 1" 3 comms_client
        "comms_start (comms_system False)", folded comms_result_def, unfolded Let_def comms_example(4) run(1)] run comms_example(4)
    by (auto simp: client open_ids_def message_ids)
qed

lemma replies_disclose_nothing_witness:
  "\<exists>bs. gate_reply (comms_result False 1) = Some bs \<and> length bs = 460 \<and>
     (\<forall>i < 460. i < 16 \<or> 20 \<le> i \<longrightarrow> bs ! i = comms_request 1 i)"
proof -
  obtain m ps bs where m: "gate_handled (comms_result False 1) = Some (m, ps)" "MessageId m = 3"
    and bs: "gate_reply (comms_result False 1) = Some bs" "length bs = 460"
    using comms_example(2,3) by auto
  have "received (comms_call 1) = comms_request 1" by (auto simp: received_def comms_call_def)
  then show ?thesis
    using replies_disclose_nothing [of comms_code comms_others example_kernel comms_answers "comms_call 1" 3 comms_client
        "comms_start (comms_system False)", folded comms_result_def, unfolded Let_def] m bs
    by (auto simp: open_ids_def message_ids)
qed

end
