(* ===== verification/Delivery.thy ===== *)
theory Delivery
  imports RateLimit RingProtocol Comms
begin

unbundle bit_operations_syntax

text \<open>
  The messages that the driver sends to its clients, ProcessHacker/KSystemInformer/comms.c: who gets a
  message under the rate limits, the copy into the rings of the clients, the queue for those whose ring
  has no room, the thread that coalesces the items of the queue, and the messages that wait for a
  reply. A message is the memory of its 16384 bytes; what the routines need of it they read from its
  header, which lies as \<open>message_of\<close> reads it.
\<close>

section \<open>State\<close>

definition KphMsgProcessCreate :: int where "KphMsgProcessCreate = 0x40000001"
definition KphMsgFilePreCreate :: int where "KphMsgFilePreCreate = 0x40000015"
definition KphMsgFilePostCreate :: int where "KphMsgFilePostCreate = 0x40000016"

definition STATUS_IO_TIMEOUT :: ntstatus where "STATUS_IO_TIMEOUT = STATUS_SYSTEM_ERROR 0xc00000b5"
definition STATUS_PORT_DISCONNECTED :: ntstatus where
  "STATUS_PORT_DISCONNECTED = STATUS_SYSTEM_ERROR 0xc0000037"

record KPH_MESSAGE_TIMEOUTS =
  AsyncTimeout :: u64
  DefaultTimeout :: u64
  ProcessCreateTimeout :: u64
  FilePreCreateTimeout :: u64
  FilePostCreateTimeout :: u64

record KPH_INFORMER_CLIENT_SETTINGS =
  SettingsTimeouts :: KPH_MESSAGE_TIMEOUTS
  AsyncQueuePolicy :: KPH_RATE_LIMIT_POLICY
  InformerPolicy :: "KPH_RATE_LIMIT_POLICY list"

record KPH_CLIENT_INFORMER_STATE =
  MessageTimeouts :: KPH_MESSAGE_TIMEOUTS
  AsyncQueueRateLimit :: KPH_RATE_LIMIT
  InformerRateLimit :: "KPH_RATE_LIMIT list"

record KPHM_QUEUE_ITEM =
  Message :: mem
  NonPaged :: bool
  TargetClients :: "nat list"

text \<open>
  The state of the port, with what belongs to each client: the settings it has made, and its ring.
  \<open>sends\<close> records the calls of \<open>KphpFltSendMessage\<close>: the client, the bytes to be sent, and the status.
  A send may fail: \<open>send_answers n\<close> is what FltObjectReference and FltSendMessage answer to the \<open>n\<close>-th.
\<close>

record DELIVERY = COMMS +
  InformerState :: "nat \<Rightarrow> KPH_CLIENT_INFORMER_STATE option"
  rings :: "nat \<Rightarrow> KPH_RING_BUFFER option"
  KphpMessageQueue :: "KPHM_QUEUE_ITEM list"
  sends :: "(nat \<times> u8 list \<times> ntstatus) list"
  send_answers :: "nat \<Rightarrow> ntstatus \<times> ntstatus"

definition message_size :: "mem \<Rightarrow> u16" where "message_size b = rd16 b 2"
definition message_id :: "mem \<Rightarrow> int" where "message_id b = sint (rd32 b 4)"
definition message_time :: "mem \<Rightarrow> u64" where "message_time b = rd64 b 8"

text \<open>The bytes of a message as its header counts them.\<close>

definition message_image :: "mem \<Rightarrow> u8 list" where
  "message_image b = rd_bytes b 0 (unat (message_size b))"

section \<open>The settings of a client\<close>

definition KphpInitializeClientInformerState ::
  "KPH_INFORMER_CLIENT_SETTINGS \<Rightarrow> u64 \<Rightarrow> KPH_CLIENT_INFORMER_STATE" where
  "KphpInitializeClientInformerState settings timeStamp =
     \<lparr> MessageTimeouts = SettingsTimeouts settings,
       AsyncQueueRateLimit = KphInitializeRateLimit (AsyncQueuePolicy settings) timeStamp,
       InformerRateLimit = map (\<lambda>i. KphInitializeRateLimit (InformerPolicy settings ! i) timeStamp)
         [0..<nat KPH_INFORMER_COUNT] \<rparr>"

text \<open>
  The copies from and to the memory of the client may raise an exception, \<open>copied\<close>; the allocations
  may fail.
\<close>

definition KphSetInformerClientSettings ::
  "nat \<Rightarrow> KPH_INFORMER_CLIENT_SETTINGS \<Rightarrow> u64 \<Rightarrow> bool \<Rightarrow> ntstatus \<Rightarrow> ntstatus \<Rightarrow> DELIVERY \<Rightarrow> ntstatus \<times> DELIVERY" where
  "KphSetInformerClientSettings c settings timeStamp allocated copied created S =
     (if \<not> allocated then (STATUS_INSUFFICIENT_RESOURCES, S)
      else if \<not> NT_SUCCESS copied then (copied, S)
      else if \<not> NT_SUCCESS created then (created, S)
      else (STATUS_SUCCESS,
            S\<lparr> InformerState := (InformerState S)(c \<mapsto> KphpInitializeClientInformerState settings timeStamp) \<rparr>))"

definition KphGetInformerClientSettings ::
  "nat \<Rightarrow> ntstatus \<Rightarrow> ntstatus \<Rightarrow> DELIVERY \<Rightarrow> ntstatus \<times> KPH_INFORMER_CLIENT_SETTINGS option" where
  "KphGetInformerClientSettings c zeroed copied S =
     (if \<not> NT_SUCCESS zeroed then (zeroed, None)
      else case InformerState S c of
        None \<Rightarrow> (STATUS_NOT_FOUND, None)
      | Some state \<Rightarrow>
          if \<not> NT_SUCCESS copied then (copied, None)
          else (STATUS_SUCCESS,
                Some \<lparr> SettingsTimeouts = MessageTimeouts state,
                       AsyncQueuePolicy = Policy (AsyncQueueRateLimit state),
                       InformerPolicy = map (\<lambda>i. Policy (InformerRateLimit state ! i))
                         [0..<nat KPH_INFORMER_COUNT] \<rparr>))"

text \<open>The settings that a client reads are those that it made.\<close>

lemma settings_roundtrip:
  assumes set: "KphSetInformerClientSettings c settings timeStamp allocated copied created S = (STATUS_SUCCESS, S')"
    and len: "length (InformerPolicy settings) = nat KPH_INFORMER_COUNT"
    and status: "allocated" "NT_SUCCESS copied" "NT_SUCCESS created"
  shows "KphGetInformerClientSettings c STATUS_SUCCESS STATUS_SUCCESS S' = (STATUS_SUCCESS, Some settings)"
proof -
  have S': "S' = S\<lparr> InformerState := (InformerState S)(c \<mapsto> KphpInitializeClientInformerState settings timeStamp) \<rparr>"
    using set status by (simp add: KphSetInformerClientSettings_def)
  have whole: "map (\<lambda>i. InformerPolicy settings ! i) [0..<nat KPH_INFORMER_COUNT] = InformerPolicy settings"
    unfolding len [symmetric] by (rule map_nth)
  have p: "Policy (KphInitializeRateLimit q timeStamp) = q" for q by (simp add: KphInitializeRateLimit_def)
  have policies: "map (\<lambda>i. Policy (map (\<lambda>i. KphInitializeRateLimit (q i) timeStamp) [0..<n] ! i)) [0..<n] =
      map (\<lambda>i. q i) [0..<n]" for q n
    by (rule map_cong) (simp_all add: p)
  show ?thesis
    by (simp add: S' whole KphGetInformerClientSettings_def KphpInitializeClientInformerState_def
      p policies [of "\<lambda>i. InformerPolicy settings ! i"])
qed

section \<open>Who gets a message\<close>

text \<open>The clients in the slots that are in use, and those of them that have made settings.\<close>

definition connected :: "DELIVERY \<Rightarrow> nat list" where
  "connected S = List.map_filter id (take (KphpConnectedClientsCount S) (KphpConnectedClients S))"

definition KphpGetInformerClients :: "DELIVERY \<Rightarrow> nat list" where
  "KphpGetInformerClients S = filter (\<lambda>c. InformerState S c \<noteq> None) (connected S)"

definition KphGetInformerClientCount :: "DELIVERY \<Rightarrow> nat" where
  "KphGetInformerClientCount S = length (KphpGetInformerClients S)"

definition put_informer :: "nat \<Rightarrow> KPH_CLIENT_INFORMER_STATE \<Rightarrow> DELIVERY \<Rightarrow> DELIVERY" where
  "put_informer c state S = S\<lparr> InformerState := (InformerState S)(c \<mapsto> state) \<rparr>"

text \<open>The test of the limit on the messages with one identifier, on the state of the client.\<close>

definition message_limit :: "mem \<Rightarrow> KPH_CLIENT_INFORMER_STATE \<Rightarrow> bool \<times> KPH_CLIENT_INFORMER_STATE" where
  "message_limit b state =
     (let index = (word_of_int (message_id b - (MaxKphMsgClientAllowed + 1)) :: u32) in
      if \<not> index < word_of_int KPH_INFORMER_COUNT then (False, state)
      else
        let (r, allowed) = KphRateLimitConsumeToken (InformerRateLimit state ! unat index) (message_time b) in
        (\<not> allowed, state\<lparr> InformerRateLimit := (InformerRateLimit state)[unat index := r] \<rparr>))"

definition KphpCommsMessageIsRateLimited :: "mem \<Rightarrow> nat \<Rightarrow> DELIVERY \<Rightarrow> bool \<times> DELIVERY" where
  "KphpCommsMessageIsRateLimited b c S =
     (case InformerState S c of
        None \<Rightarrow> (False, S)
      | Some state \<Rightarrow> let (limited, state) = message_limit b state in (limited, put_informer c state S))"

definition queue_limit :: "mem \<Rightarrow> KPH_CLIENT_INFORMER_STATE \<Rightarrow> bool \<times> KPH_CLIENT_INFORMER_STATE" where
  "queue_limit b state =
     (let (r, allowed) = KphRateLimitConsumeToken (AsyncQueueRateLimit state) (message_time b) in
      (\<not> allowed, state\<lparr> AsyncQueueRateLimit := r \<rparr>))"

definition KphpCommsQueueIsRateLimited :: "mem \<Rightarrow> nat \<Rightarrow> DELIVERY \<Rightarrow> bool \<times> DELIVERY" where
  "KphpCommsQueueIsRateLimited b c S =
     (case InformerState S c of
        None \<Rightarrow> (False, S)
      | Some state \<Rightarrow> let (limited, state) = queue_limit b state in (limited, put_informer c state S))"

text \<open>Both loops over the clients drop some of them and keep the others, in their order.\<close>

fun keep_clients :: "(nat \<Rightarrow> 's \<Rightarrow> bool \<times> 's) \<Rightarrow> nat list \<Rightarrow> 's \<Rightarrow> nat list \<times> 's" where
  "keep_clients dropped [] S = ([], S)"
| "keep_clients dropped (c # cs) S =
     (let (d, S) = dropped c S; (kept, S) = keep_clients dropped cs S in
      (if d then kept else c # kept, S))"

definition KphpGetNonRateLimitedClients :: "mem \<Rightarrow> DELIVERY \<Rightarrow> nat list \<times> DELIVERY" where
  "KphpGetNonRateLimitedClients b S =
     keep_clients (KphpCommsMessageIsRateLimited b) (KphpGetInformerClients S) S"

section \<open>The rings\<close>

text \<open>The copy of a message into a ring.\<close>

definition ring_copy :: "mem \<Rightarrow> KPH_RING_BUFFER \<Rightarrow> bool \<times> KPH_RING_BUFFER" where
  "ring_copy b ring =
     (case KphReserveRingBuffer ring (ucast (message_size b)) of
        (None, ring) \<Rightarrow> (False, ring)
      | (Some buffer, ring) \<Rightarrow>
          (True, KphCommitRingBuffer
             (ring\<lparr> Buffer := wr_bytes (Buffer ring) buffer (message_image b) \<rparr>) buffer))"

definition KphpCommsCopyMessageToRingBuffer :: "mem \<Rightarrow> nat \<Rightarrow> DELIVERY \<Rightarrow> bool \<times> DELIVERY" where
  "KphpCommsCopyMessageToRingBuffer b c S =
     (case rings S c of
        None \<Rightarrow> (False, S)
      | Some ring \<Rightarrow> let (copied, ring) = ring_copy b ring in (copied, S\<lparr> rings := (rings S)(c \<mapsto> ring) \<rparr>))"

definition KphpCommsSendMessageToRingBuffers :: "mem \<Rightarrow> DELIVERY \<Rightarrow> nat list \<times> DELIVERY" where
  "KphpCommsSendMessageToRingBuffers b S =
     (let (cs, S) = KphpGetNonRateLimitedClients b S in
      keep_clients
        (\<lambda>c S. let (copied, S) = KphpCommsCopyMessageToRingBuffer b c S in
               if copied then (True, S) else KphpCommsQueueIsRateLimited b c S) cs S)"

section \<open>The queue\<close>

text \<open>
  \<open>rundown\<close> says that the port is still running, \<open>item\<close> that the item could be allocated. A message
  for a single client goes to the queue at once.
\<close>

definition send_async :: "bool \<Rightarrow> bool \<Rightarrow> bool \<Rightarrow> mem \<Rightarrow> nat option \<Rightarrow> DELIVERY \<Rightarrow> DELIVERY" where
  "send_async nonPaged rundown item b target S =
     (if \<not> rundown then S
      else
        let (cs, S) = (case target of
              Some c \<Rightarrow> ([c], S) | None \<Rightarrow> KphpCommsSendMessageToRingBuffers b S) in
        if cs = [] \<or> \<not> item then S
        else S\<lparr> KphpMessageQueue := KphpMessageQueue S @
                 [\<lparr> Message = b, NonPaged = nonPaged, TargetClients = cs \<rparr>] \<rparr>)"

definition KphCommsSendNPagedMessageAsync :: "bool \<Rightarrow> bool \<Rightarrow> mem \<Rightarrow> DELIVERY \<Rightarrow> DELIVERY" where
  "KphCommsSendNPagedMessageAsync rundown item b S = send_async True rundown item b None S"

definition KphpCommsSendMessageAsync :: "bool \<Rightarrow> bool \<Rightarrow> mem \<Rightarrow> nat option \<Rightarrow> DELIVERY \<Rightarrow> DELIVERY" where
  "KphpCommsSendMessageAsync rundown item b target S = send_async False rundown item b target S"

definition KphCommsSendMessageAsync :: "bool \<Rightarrow> bool \<Rightarrow> mem \<Rightarrow> DELIVERY \<Rightarrow> DELIVERY" where
  "KphCommsSendMessageAsync rundown item b S = KphpCommsSendMessageAsync rundown item b None S"

section \<open>Sending to one client\<close>

text \<open>
  What happens during a send: the process that runs, the bytes of the reply that the filter manager
  wrote and their number, the memory of a copy if it can be allocated, whether an item can, and the
  system time that a new header gets.
\<close>

record SEND_ANSWERS =
  sending_process :: nat
  flt_reply :: mem
  reply_length :: u32
  copy_allocated :: "mem option"
  item_allocated :: bool
  port_running :: bool
  KphMsgQuerySystemTime :: u64

definition KphpGetTimeoutForMessage :: "nat \<Rightarrow> mem \<Rightarrow> bool \<Rightarrow> DELIVERY \<Rightarrow> u64 option" where
  "KphpGetTimeoutForMessage c b asyncTimeout S =
     (case InformerState S c of
        None \<Rightarrow> None
      | Some state \<Rightarrow>
          let t = MessageTimeouts state in
          Some (if asyncTimeout then AsyncTimeout t
                else if message_id b = KphMsgProcessCreate then ProcessCreateTimeout t
                else if message_id b = KphMsgFilePreCreate then FilePreCreateTimeout t
                else if message_id b = KphMsgFilePostCreate then FilePostCreateTimeout t
                else DefaultTimeout t))"

definition KphpFltSendMessage :: "ntstatus \<Rightarrow> ntstatus \<Rightarrow> ntstatus" where
  "KphpFltSendMessage reference sent =
     (if \<not> NT_SUCCESS reference then reference
      else if sent = STATUS_TIMEOUT then STATUS_IO_TIMEOUT
      else sent)"

text \<open>The status of the \<open>n\<close>-th send, and a send, which is the next one.\<close>

definition send_status :: "DELIVERY \<Rightarrow> nat \<Rightarrow> ntstatus" where
  "send_status S n = (let (reference, sent) = send_answers S n in KphpFltSendMessage reference sent)"

definition put_send :: "nat \<Rightarrow> u8 list \<Rightarrow> DELIVERY \<Rightarrow> DELIVERY" where
  "put_send c bs S = S\<lparr> sends := sends S @ [(c, bs, send_status S (length (sends S)))] \<rparr>"

text \<open>
  The reply buffer after a send: FltSendMessage, if it is called, writes as many bytes as the client
  answers with and the buffer holds. The length that it returns is not looked at.
\<close>

definition reply_received :: "SEND_ANSWERS \<Rightarrow> ntstatus \<Rightarrow> mem \<Rightarrow> mem" where
  "reply_received A reference reply =
     (if NT_SUCCESS reference
      then (\<lambda>i. if i < unat (reply_length A) \<and> i < unat sizeof_KPH_MESSAGE then flt_reply A i else reply i)
      else reply)"

definition init_reply :: "u64 \<Rightarrow> mem \<Rightarrow> mem" where
  "init_reply now r = message_bytes (KphMsgInit (message_of r) KphMsgUnhandled now)"

text \<open>The test of the process of a client for the maximum state, and of the reply.\<close>

definition reply_status :: "KERNEL \<Rightarrow> nat \<Rightarrow> mem \<Rightarrow> DELIVERY \<Rightarrow> bool \<times> DELIVERY" where
  "reply_status K e r S =
     (let (maximum, B) = test_state K e KPH_PROCESS_STATE_MAXIMUM (driver S) in
      (maximum \<and> NT_SUCCESS (KphMsgValidate (message_of r)), S\<lparr> driver := B \<rparr>))"

text \<open>
  \<open>KphpCommsSendMessage\<close> without a reply, as the thread of the queue calls it, and with one. The
  message may be several messages of \<open>len\<close> bytes in all.
\<close>

definition send_no_reply :: "nat \<Rightarrow> mem \<Rightarrow> nat \<Rightarrow> bool \<Rightarrow> DELIVERY \<Rightarrow> DELIVERY" where
  "send_no_reply c b len fromAsyncQueue S =
     (case KphpGetTimeoutForMessage c b fromAsyncQueue S of
        None \<Rightarrow> S
      | Some timeout \<Rightarrow> put_send c (rd_bytes b 0 len) S)"

definition send_for_reply ::
  "KERNEL \<Rightarrow> SEND_ANSWERS \<Rightarrow> nat \<Rightarrow> KPH_CLIENT \<Rightarrow> mem \<Rightarrow> nat \<Rightarrow> mem \<Rightarrow> DELIVERY \<Rightarrow> mem \<times> DELIVERY" where
  "send_for_reply K A c client b len reply S =
     (if sending_process A = client_process client then
        (case copy_allocated A of
           None \<Rightarrow> (reply, S)
         | Some junk \<Rightarrow>
             (init_reply (KphMsgQuerySystemTime A) reply,
              KphpCommsSendMessageAsync (port_running A) (item_allocated A)
                (wr_bytes junk 0 (message_image b)) (Some c) S))
      else case KphpGetTimeoutForMessage c b False S of
        None \<Rightarrow> (init_reply (KphMsgQuerySystemTime A) reply, S)
      | Some timeout \<Rightarrow>
          let r = reply_received A (fst (send_answers S (length (sends S)))) reply;
              status = send_status S (length (sends S));
              S = put_send c (rd_bytes b 0 len) S in
          if \<not> NT_SUCCESS status then (init_reply (KphMsgQuerySystemTime A) r, S)
          else
            let (accepted, S) = reply_status K (client_process client) r S in
            (if accepted then r else init_reply (KphMsgQuerySystemTime A) r, S))"

definition KphpCommsSendMessage ::
  "KERNEL \<Rightarrow> SEND_ANSWERS \<Rightarrow> nat \<Rightarrow> KPH_CLIENT \<Rightarrow> mem \<Rightarrow> nat \<Rightarrow> mem option \<Rightarrow> bool \<Rightarrow> DELIVERY
     \<Rightarrow> mem option \<times> DELIVERY" where
  "KphpCommsSendMessage K A c client b len Reply fromAsyncQueue S =
     (case Reply of
        None \<Rightarrow> (None, send_no_reply c b len fromAsyncQueue S)
      | Some reply \<Rightarrow>
          if message_id reply = KphMsgUnhandled
          then let (reply, S) = send_for_reply K A c client b len reply S in (Some reply, S)
          else (Some reply, send_no_reply c b len fromAsyncQueue S))"

section \<open>Sending to all clients\<close>

text \<open>The answers are those of the send to each client; a client is looked up by its object.\<close>

fun send_each ::
  "KERNEL \<Rightarrow> (nat \<Rightarrow> SEND_ANSWERS) \<Rightarrow> (nat \<Rightarrow> KPH_CLIENT option) \<Rightarrow> mem \<Rightarrow> nat list \<Rightarrow> mem option \<Rightarrow> DELIVERY
     \<Rightarrow> mem option \<times> DELIVERY" where
  "send_each K A who b [] Reply S = (Reply, S)"
| "send_each K A who b (c # cs) Reply S =
     (let (Reply, S) =
        (case who c of
           None \<Rightarrow> (Reply, S)
         | Some client \<Rightarrow>
             KphpCommsSendMessage K (A c) c client b (unat (message_size b)) Reply False S) in
      send_each K A who b cs Reply S)"

definition KphCommsSendMessage ::
  "KERNEL \<Rightarrow> (nat \<Rightarrow> SEND_ANSWERS) \<Rightarrow> bool \<Rightarrow> u64 \<Rightarrow> mem \<Rightarrow> mem option \<Rightarrow> DELIVERY
     \<Rightarrow> ntstatus \<times> mem option \<times> DELIVERY" where
  "KphCommsSendMessage K A rundown now b Reply S =
     (if \<not> rundown then (STATUS_TOO_LATE, Reply, S)
      else
        let Reply = map_option (init_reply now) Reply;
            (cs, S) = KphpGetNonRateLimitedClients b S;
            (Reply, S) = send_each K A (clients S) b cs Reply S in
        (if cs = [] then STATUS_PORT_DISCONNECTED else STATUS_SUCCESS, Reply, S))"

section \<open>The thread of the queue\<close>

text \<open>
  KeRemoveQueueEx fills an array with items; in place of an item a status may stand, the one that the
  queue is run down, or one that is not expected.
\<close>

datatype queue_entry = Item KPHM_QUEUE_ITEM | Abandoned | Unexpected

text \<open>
  The loop that coalesces, over the entries behind the first one with their indexes. A coalesced item
  is freed; to read one that was freed is a fault, None.
\<close>

record COALESCE =
  First :: KPHM_QUEUE_ITEM
  remainingLength :: u32
  Index :: nat
  Rundown :: bool
  freed :: "nat set"

definition take_in :: "nat \<Rightarrow> KPHM_QUEUE_ITEM \<Rightarrow> COALESCE \<Rightarrow> COALESCE" where
  "take_in i item s =
     s\<lparr> First := (First s)\<lparr> Message := wr_bytes (Message (First s))
                   (unat sizeof_KPH_MESSAGE - unat (remainingLength s)) (message_image (Message item)) \<rparr>,
        remainingLength := remainingLength s - ucast (message_size (Message item)),
        Index := Index s + 1, freed := insert i (freed s) \<rparr>"

fun coalesce :: "(nat \<times> queue_entry) list \<Rightarrow> COALESCE \<Rightarrow> COALESCE option" where
  "coalesce [] s = Some s"
| "coalesce ((i, Unexpected) # es) s = coalesce es s"
| "coalesce ((i, Abandoned) # es) s = Some (s\<lparr> Rundown := True \<rparr>)"
| "coalesce ((i, Item item) # es) s =
     (if i \<in> freed s then None
      else if TargetClients (First s) \<noteq> TargetClients item then Some s
      else if remainingLength s < ucast (message_size (Message item)) then Some s
      else coalesce es (take_in i item s))"

text \<open>The result: the item to send if there is one, its length, the new index, rundown, and what is freed.\<close>

definition KphpMessageQueueCoalesceItems ::
  "queue_entry list \<Rightarrow> nat \<Rightarrow> nat set \<Rightarrow> (KPHM_QUEUE_ITEM option \<times> u32 \<times> nat \<times> bool \<times> nat set) option" where
  "KphpMessageQueueCoalesceItems Items i fr =
     (case Items ! i of
        Unexpected \<Rightarrow> Some (None, 0, i, False, fr)
      | Abandoned \<Rightarrow> Some (None, 0, i, True, fr)
      | Item first \<Rightarrow>
          if i \<in> fr then None
          else map_option
            (\<lambda>s. (Some (First s), ucast sizeof_KPH_MESSAGE - remainingLength s, Index s, Rundown s,
                  insert i (freed s)))
            (coalesce (drop (i + 1) (enumerate 0 Items))
              \<lparr> First = first,
                remainingLength = ucast sizeof_KPH_MESSAGE - ucast (message_size (Message first)),
                Index = i, Rundown = False, freed = fr \<rparr>))"

text \<open>The sends of an item, and the loop over the items of the array.\<close>

definition send_item :: "KPHM_QUEUE_ITEM \<Rightarrow> nat \<Rightarrow> DELIVERY \<Rightarrow> DELIVERY" where
  "send_item item len S = fold (\<lambda>c S. send_no_reply c (Message item) len True S) (TargetClients item) S"

lemma coalesce_index: "coalesce es s = Some s' \<Longrightarrow> Index s \<le> Index s'"
  by (induction es s rule: coalesce.induct) (force simp: take_in_def split: if_splits)+

lemma coalesce_items_index:
  "KphpMessageQueueCoalesceItems Items i fr = Some (item, len, i', rd, fr') \<Longrightarrow> i \<le> i'"
  by (auto simp: KphpMessageQueueCoalesceItems_def split: queue_entry.splits if_splits dest!: coalesce_index)

function process_items :: "queue_entry list \<Rightarrow> nat \<Rightarrow> nat set \<Rightarrow> DELIVERY \<Rightarrow> (bool \<times> DELIVERY) option" where
  "process_items Items i fr S =
     (if length Items \<le> i then Some (False, S)
      else case KphpMessageQueueCoalesceItems Items i fr of
        None \<Rightarrow> None
      | Some (item, len, i', rd, fr') \<Rightarrow>
          let S = (case item of None \<Rightarrow> S | Some item \<Rightarrow> send_item item (unat len) S) in
          if rd then Some (True, S) else process_items Items (i' + 1) fr' S)"
  by pat_completeness auto
termination
  by (relation "measure (\<lambda>(Items, i, fr, S). length Items - i)") (auto dest!: coalesce_items_index)

definition KphpMessageQueueProcessItems :: "queue_entry list \<Rightarrow> DELIVERY \<Rightarrow> (bool \<times> DELIVERY) option" where
  "KphpMessageQueueProcessItems Items S = process_items Items 0 {} S"

text \<open>One round of the thread: it takes up to 32 items from the queue.\<close>

definition KphpMessageQueueThread :: "nat \<Rightarrow> DELIVERY \<Rightarrow> (bool \<times> DELIVERY) option" where
  "KphpMessageQueueThread n S =
     (let k = min n 32 in
      KphpMessageQueueProcessItems (map Item (take k (KphpMessageQueue S)))
        (S\<lparr> KphpMessageQueue := drop k (KphpMessageQueue S) \<rparr>))"

declare process_items.simps [simp del]

text \<open>When the port stops, what is left in the queue is sent, one item after the other.\<close>

fun drain_items :: "KPHM_QUEUE_ITEM list \<Rightarrow> DELIVERY \<Rightarrow> DELIVERY option" where
  "drain_items [] S = Some S"
| "drain_items (item # items) S =
     (case KphpMessageQueueProcessItems [Item item] S of
        None \<Rightarrow> None
      | Some (rd, S) \<Rightarrow> drain_items items S)"

definition KphCommsStop :: "DELIVERY \<Rightarrow> DELIVERY option" where
  "KphCommsStop S = drain_items (KphpMessageQueue S) (S\<lparr> KphpMessageQueue := [] \<rparr>)"

section \<open>What a client reads\<close>

text \<open>
  The client takes what it receives apart by the sizes in the headers. \<open>attempted\<close> are the messages in
  all the sends to a client, \<open>delivered\<close> those in the sends that succeed; \<open>deliveries\<close> is the same for
  sends without their statuses, which \<open>stamp\<close> adds.
\<close>

function split_messages :: "u8 list \<Rightarrow> u8 list list" where
  "split_messages bs =
     (let n = le_val (take 2 (drop 2 bs)) in
      if n = 0 \<or> length bs < n then [] else take n bs # split_messages (drop n bs))"
  by pat_completeness auto
termination
  by (relation "measure length") auto

declare split_messages.simps [simp del]

definition attempted :: "nat \<Rightarrow> (nat \<times> u8 list \<times> ntstatus) list \<Rightarrow> u8 list list" where
  "attempted c log = concat (map (split_messages \<circ> fst \<circ> snd) (filter (\<lambda>x. fst x = c) log))"

definition delivered :: "nat \<Rightarrow> (nat \<times> u8 list \<times> ntstatus) list \<Rightarrow> u8 list list" where
  "delivered c log =
     concat (map (split_messages \<circ> fst \<circ> snd) (filter (\<lambda>x. fst x = c \<and> NT_SUCCESS (snd (snd x))) log))"

definition deliveries :: "nat \<Rightarrow> (nat \<times> u8 list) list \<Rightarrow> u8 list list" where
  "deliveries c log = concat (map (split_messages \<circ> snd) (filter (\<lambda>x. fst x = c) log))"

lemma deliveries_append: "deliveries c (xs @ ys) = deliveries c xs @ deliveries c ys"
  by (simp add: deliveries_def)

definition stamp :: "DELIVERY \<Rightarrow> nat \<Rightarrow> (nat \<times> u8 list) list \<Rightarrow> (nat \<times> u8 list \<times> ntstatus) list" where
  "stamp S n log = map (\<lambda>(i, c, bs). (c, bs, send_status S i)) (enumerate n log)"

lemma stamp_simps [simp]:
  "stamp S n [] = []" "stamp S n (x # log) = (fst x, snd x, send_status S n) # stamp S (Suc n) log"
  "stamp S n (xs @ ys) = stamp S n xs @ stamp S (n + length xs) ys"
  "length (stamp S n log) = length log"
  by (simp_all add: stamp_def enumerate_append_eq case_prod_beta)

lemma stamp_cong: "send_answers S' = send_answers S \<Longrightarrow> stamp S' = stamp S"
  by (simp add: stamp_def send_status_def fun_eq_iff)

lemma stamp_nth: "i < length log \<Longrightarrow> stamp S n log ! i = (fst (log ! i), snd (log ! i), send_status S (n + i))"
  by (simp add: stamp_def nth_enumerate_eq case_prod_beta)

lemma attempted_stamp: "attempted c (stamp S n log) = deliveries c log"
  by (induction log arbitrary: n) (simp_all add: attempted_def deliveries_def)

lemma delivered_all:
  assumes "\<forall>x \<in> set log. fst x = c \<longrightarrow> NT_SUCCESS (snd (snd x))"
  shows "delivered c log = attempted c log"
proof -
  have "filter (\<lambda>x. fst x = c \<and> NT_SUCCESS (snd (snd x))) log = filter (\<lambda>x. fst x = c) log"
    using assms by (intro filter_cong) auto
  then show ?thesis by (simp add: attempted_def delivered_def)
qed

definition item_ok :: "KPHM_QUEUE_ITEM \<Rightarrow> bool" where
  "item_ok item \<longleftrightarrow>
     KPH_MESSAGE_MIN_SIZE \<le> message_size (Message item) \<and> message_size (Message item) \<le> sizeof_KPH_MESSAGE \<and>
     distinct (TargetClients item)"

lemma item_sizes:
  assumes "item_ok item"
  shows "460 \<le> unat (message_size (Message item))" "unat (message_size (Message item)) \<le> 16384"
  using assms by (simp_all add: item_ok_def KPH_MESSAGE_MIN_SIZE_def sizeof_KPH_MESSAGE_def word_le_nat_alt)

lemma length_image: "length (message_image b) = unat (message_size b)"
  by (simp add: message_image_def)

lemma image_size:
  assumes "4 \<le> unat (message_size b)"
  shows "le_val (take 2 (drop 2 (message_image b @ bs))) = unat (message_size b)"
proof -
  have "take 2 (drop 2 (message_image b @ bs)) = rd_bytes b 2 2"
    using assms by (intro nth_equalityI) (auto simp: nth_append message_image_def rd_bytes_nth)
  moreover have "unat (message_size b) = le_val (rd_bytes b 2 2)"
    using le_val_less [of "rd_bytes b 2 2"]
    by (simp add: message_size_def rd16_def unsigned_of_nat take_bit_nat_eq_self)
  ultimately show ?thesis by simp
qed

lemma split_image:
  assumes "4 \<le> unat (message_size b)"
  shows "split_messages (message_image b @ bs) = message_image b # split_messages bs"
  using image_size [OF assms, of bs] assms
  by (subst split_messages.simps) (simp add: Let_def length_image)

definition image_of :: "KPHM_QUEUE_ITEM \<Rightarrow> u8 list" where
  "image_of item = message_image (Message item)"

lemma split_images:
  assumes "\<forall>item \<in> set items. item_ok item"
  shows "split_messages (concat (map image_of items)) = map image_of items"
  using assms
proof (induction items)
  case Nil
  show ?case by (simp add: split_messages.simps [of "[]"])
next
  case (Cons item items)
  then show ?case using split_image [of "Message item"] item_sizes [of item] by (simp add: image_of_def)
qed

section \<open>Coalescing\<close>

text \<open>What the first item holds while others are taken in: the bytes of their messages in order.\<close>

definition holds :: "COALESCE \<Rightarrow> u8 list \<Rightarrow> bool" where
  "holds s bs \<longleftrightarrow> unat (remainingLength s) + length bs = 16384 \<and> rd_bytes (Message (First s)) 0 (length bs) = bs"

lemma rd_bytes_after_write:
  "rd_bytes (wr_bytes b n xs) 0 (n + length xs) = rd_bytes b 0 n @ xs"
  by (rule nth_equalityI) (auto simp: rd_bytes_nth nth_append wr_bytes_def)

lemma holds_take_in:
  assumes "holds s bs" "unat (message_size (Message item)) \<le> unat (remainingLength s)"
  shows "holds (take_in i item s) (bs @ message_image (Message item))"
proof -
  let ?n = "unat (message_size (Message item))"
  have u: "unat (ucast (message_size (Message item)) :: u32) = ?n"
    by (simp add: unsigned_ucast_eq take_bit_nat_eq_self unsigned_less [THEN order_less_le_trans])
  have r: "unat (remainingLength s - ucast (message_size (Message item))) = unat (remainingLength s) - ?n"
    using assms(2) by (simp add: unat_sub word_le_nat_alt u)
  have "16384 - unat (remainingLength s) = length bs" using assms(1) by (auto simp: holds_def)
  then show ?thesis
    using assms rd_bytes_after_write [of "Message (First s)" "length bs" "message_image (Message item)"]
    by (simp add: holds_def take_in_def r length_image sizeof_KPH_MESSAGE_def)
qed

text \<open>The entries are items, behind which the queue may be run down.\<close>

abbreviation entries_of :: "KPHM_QUEUE_ITEM list \<Rightarrow> bool \<Rightarrow> queue_entry list" where
  "entries_of items rd \<equiv> map Item items @ (if rd then [Abandoned] else [])"

lemma coalesce_items:
  assumes "holds s bs" "freed s \<subseteq> {..<i}"
  shows "\<exists>k s'. coalesce (enumerate i (entries_of items rd)) s = Some s' \<and> k \<le> length items \<and>
    holds s' (bs @ concat (map image_of (take k items))) \<and>
    TargetClients (First s') = TargetClients (First s) \<and> Index s' = Index s + k \<and>
    freed s' \<subseteq> {..<i + k} \<and> (Rundown s' \<longleftrightarrow> Rundown s \<or> k = length items \<and> rd) \<and>
    (\<forall>item \<in> set (take k items). TargetClients item = TargetClients (First s))"
  using assms
proof (induction items arbitrary: i s bs)
  case Nil
  then show ?case by (auto simp: holds_def)
next
  case (Cons item items)
  have not: "i \<notin> freed s" using Cons.prems(2) by auto
  show ?case
  proof (cases "TargetClients (First s) = TargetClients item \<and>
      \<not> remainingLength s < ucast (message_size (Message item))")
    case False
    then have "coalesce (enumerate i (entries_of (item # items) rd)) s = Some s" using not by auto
    then show ?thesis using Cons.prems by (intro exI [of _ 0] exI [of _ s]) auto
  next
    case True
    have "unat (message_size (Message item)) \<le> unat (remainingLength s)"
      using True by (simp add: not_less word_le_nat_alt unsigned_ucast_eq take_bit_nat_eq_self
        unsigned_less [THEN order_less_le_trans])
    then have h: "holds (take_in i item s) (bs @ image_of item)"
      unfolding image_of_def by (rule holds_take_in [OF Cons.prems(1)])
    have "freed (take_in i item s) \<subseteq> {..<Suc i}" using Cons.prems(2) by (auto simp: take_in_def)
    from Cons.IH [OF h this] obtain k s' where
      s': "coalesce (enumerate (Suc i) (entries_of items rd)) (take_in i item s) = Some s'" "k \<le> length items"
      "holds s' ((bs @ image_of item) @ concat (map image_of (take k items)))"
      "TargetClients (First s') = TargetClients (First (take_in i item s))"
      "Index s' = Index (take_in i item s) + k" "freed s' \<subseteq> {..<Suc i + k}"
      "Rundown s' \<longleftrightarrow> Rundown (take_in i item s) \<or> k = length items \<and> rd"
      "\<forall>x \<in> set (take k items). TargetClients x = TargetClients (First (take_in i item s))"
      by blast
    have "coalesce (enumerate i (entries_of (item # items) rd)) s = Some s'"
      using True not s'(1) by simp
    then show ?thesis
      using s' True by (intro exI [of _ "Suc k"] exI [of _ s']) (auto simp: take_in_def)
  qed
qed

text \<open>Everything that a group of items has to be: what is sent for it to each of its clients.\<close>

definition group_log :: "nat list \<Rightarrow> u8 list \<Rightarrow> (nat \<times> u8 list) list" where
  "group_log cs bs = map (\<lambda>c. (c, bs)) cs"

text \<open>The state after further sends.\<close>

definition after_sends :: "(nat \<times> u8 list) list \<Rightarrow> DELIVERY \<Rightarrow> DELIVERY" where
  "after_sends log S = S\<lparr> sends := sends S @ stamp S (length (sends S)) log \<rparr>"

lemma after_sends_fields [simp]:
  "InformerState (after_sends log S) = InformerState S" "send_answers (after_sends log S) = send_answers S"
  "KphpMessageQueue (after_sends log S) = KphpMessageQueue S"
  "sends (after_sends log S) = sends S @ stamp S (length (sends S)) log"
  by (simp_all add: after_sends_def)

lemma after_sends_append: "after_sends log2 (after_sends log1 S) = after_sends (log1 @ log2) S"
  using stamp_cong [of "after_sends log1 S" S] by (simp add: after_sends_def)

lemma after_no_sends [simp]: "after_sends [] S = S"
  by (simp add: after_sends_def)

lemma put_send_after: "put_send c bs S = after_sends [(c, bs)] S"
  by (simp add: put_send_def after_sends_def)

lemma send_item_log:
  assumes "\<forall>c \<in> set (TargetClients item). InformerState S c \<noteq> None"
  shows "send_item item len S = after_sends (group_log (TargetClients item) (rd_bytes (Message item) 0 len)) S"
proof -
  have "fold (\<lambda>c S. send_no_reply c (Message item) len True S) cs S =
      after_sends (group_log cs (rd_bytes (Message item) 0 len)) S"
    if "\<forall>c \<in> set cs. InformerState S c \<noteq> None" for cs S
    using that
  proof (induction cs arbitrary: S)
    case (Cons c cs)
    then show ?case
      using Cons.IH [of "after_sends [(c, rd_bytes (Message item) 0 len)] S"]
      by (auto simp: send_no_reply_def KphpGetTimeoutForMessage_def group_log_def put_send_after
        after_sends_append Let_def)
  qed (simp add: group_log_def)
  then show ?thesis using assms by (simp add: send_item_def)
qed

lemma deliveries_group:
  assumes "distinct cs" "\<forall>item \<in> set items. item_ok item"
  shows "deliveries c (group_log cs (concat (map image_of items))) = (if c \<in> set cs then map image_of items else [])"
proof -
  have "filter (\<lambda>x. fst x = c) (group_log cs bs) = (if c \<in> set cs then [(c, bs)] else [])" for bs
    using assms(1) by (induction cs) (auto simp: group_log_def)
  then show ?thesis using split_images [OF assms(2)] by (simp add: deliveries_def)
qed

definition coalesce_start :: "nat \<Rightarrow> nat set \<Rightarrow> KPHM_QUEUE_ITEM \<Rightarrow> COALESCE" where
  "coalesce_start i fr item =
     \<lparr> First = item, remainingLength = ucast sizeof_KPH_MESSAGE - ucast (message_size (Message item)),
       Index = i, Rundown = False, freed = fr \<rparr>"

lemma start_sel:
  "First (coalesce_start i fr item) = item" "Index (coalesce_start i fr item) = i"
  "Rundown (coalesce_start i fr item) = False"
  by (simp_all add: coalesce_start_def)

lemma holds_start:
  assumes "item_ok item"
  shows "holds (coalesce_start i fr item) (image_of item)"
proof -
  have "unat (ucast (message_size (Message item)) :: u32) = unat (message_size (Message item))"
    by (simp add: unsigned_ucast_eq take_bit_nat_eq_self unsigned_less [THEN order_less_le_trans])
  then have "unat (ucast sizeof_KPH_MESSAGE - ucast (message_size (Message item)) :: u32) =
      16384 - unat (message_size (Message item))"
    using item_sizes(2) [OF assms] by (subst unat_sub) (simp_all add: sizeof_KPH_MESSAGE_def word_le_nat_alt)
  then show ?thesis
    using item_sizes [OF assms]
    by (simp add: holds_def coalesce_start_def image_of_def length_image message_image_def)
qed

text \<open>One call coalesces the next items with the same clients, as long as they fit.\<close>

lemma coalesce_call:
  assumes i: "i < length items" and ok: "item_ok (items ! i)" and fr: "fr \<subseteq> {..<i}"
  obtains k first len fr' where
    "KphpMessageQueueCoalesceItems (entries_of items rd) i fr =
       Some (Some first, len, i + k, i + k + 1 = length items \<and> rd, fr')"
    "i + k < length items" "fr' \<subseteq> {..<i + k + 1}" "TargetClients first = TargetClients (items ! i)"
    "rd_bytes (Message first) 0 (unat len) = concat (map image_of (take (k + 1) (drop i items)))"
    "unat len \<le> 16384" "\<forall>item \<in> set (take (k + 1) (drop i items)). TargetClients item = TargetClients (items ! i)"
proof -
  let ?item = "items ! i" and ?rest = "drop (i + 1) items"
  have drop_i: "drop i items = ?item # ?rest" using i by (simp add: Cons_nth_drop_Suc)
  have "drop (i + 1) (enumerate 0 (entries_of items rd)) = enumerate (i + 1) (entries_of ?rest rd)"
    using i by (intro nth_equalityI) (auto simp: nth_enumerate_eq nth_append)
  moreover have fr1: "freed (coalesce_start i fr ?item) \<subseteq> {..<i + 1}"
    using fr by (auto simp: coalesce_start_def)
  moreover obtain k s' where s':
    "coalesce (enumerate (i + 1) (entries_of ?rest rd)) (coalesce_start i fr ?item) = Some s'"
    "k \<le> length ?rest" "holds s' (image_of ?item @ concat (map image_of (take k ?rest)))"
    "TargetClients (First s') = TargetClients ?item" "Index s' = i + k" "freed s' \<subseteq> {..<i + 1 + k}"
    "Rundown s' \<longleftrightarrow> k = length ?rest \<and> rd" "\<forall>item \<in> set (take k ?rest). TargetClients item = TargetClients ?item"
    using coalesce_items [OF holds_start [OF ok] fr1, of ?rest rd]
    unfolding start_sel simp_thms by blast
  moreover have "i \<notin> fr" using fr by auto
  moreover have "entries_of items rd ! i = Item ?item" using i by (simp add: nth_append)
  ultimately have call: "KphpMessageQueueCoalesceItems (entries_of items rd) i fr =
      Some (Some (First s'), ucast sizeof_KPH_MESSAGE - remainingLength s', i + k, Rundown s', insert i (freed s'))"
    by (simp add: KphpMessageQueueCoalesceItems_def coalesce_start_def)
  let ?len = "ucast sizeof_KPH_MESSAGE - remainingLength s' :: u32"
  have h: "unat (remainingLength s') + length (concat (map image_of (take (k + 1) (drop i items)))) = 16384"
    "rd_bytes (Message (First s')) 0 (length (concat (map image_of (take (k + 1) (drop i items))))) =
      concat (map image_of (take (k + 1) (drop i items)))"
    using s'(3) unfolding holds_def drop_i by simp_all
  have len: "unat ?len = length (concat (map image_of (take (k + 1) (drop i items))))"
    using h(1) by (subst unat_sub) (simp_all add: sizeof_KPH_MESSAGE_def word_le_nat_alt)
  show thesis
  proof (rule that)
    have "Rundown s' \<longleftrightarrow> i + k + 1 = length items \<and> rd" using s'(2,7) i by auto
    with call show "KphpMessageQueueCoalesceItems (entries_of items rd) i fr =
       Some (Some (First s'), ?len, i + k, i + k + 1 = length items \<and> rd, insert i (freed s'))" by (simp only:)
    show "i + k < length items" using s'(2) i by simp
    show "insert i (freed s') \<subseteq> {..<i + k + 1}" using s'(6) by auto
    show "TargetClients (First s') = TargetClients (items ! i)" by (rule s'(4))
    show "rd_bytes (Message (First s')) 0 (unat ?len) = concat (map image_of (take (k + 1) (drop i items)))"
      unfolding len by (rule h(2))
    show "unat ?len \<le> 16384" unfolding len using h(1) by linarith
    show "\<forall>item \<in> set (take (k + 1) (drop i items)). TargetClients item = TargetClients (items ! i)"
      using s'(8) by (simp add: drop_i)
  qed
qed

definition log_ok :: "KPHM_QUEUE_ITEM list \<Rightarrow> (nat \<times> u8 list) list \<Rightarrow> bool" where
  "log_ok items log \<longleftrightarrow>
     (\<forall>c. deliveries c log = map image_of (filter (\<lambda>item. c \<in> set (TargetClients item)) items)) \<and>
     (\<forall>x \<in> set log. length (snd x) \<le> 16384)"

lemma process_items_log:
  assumes "\<forall>item \<in> set items. item_ok item \<and> (\<forall>c \<in> set (TargetClients item). InformerState S c \<noteq> None)"
    and "i \<le> length items" "fr \<subseteq> {..<i}"
  shows "\<exists>log. process_items (entries_of items rd) i fr S = Some (rd, after_sends log S) \<and>
    log_ok (drop i items) log"
  using assms
proof (induction "length items - i" arbitrary: i fr S rule: less_induct)
  case less
  show ?case
  proof (cases "i < length items")
    case False
    then have "i = length items" using less.prems(2) by simp
    then show ?thesis
      by (auto simp: process_items.simps [of _ "length items"] log_ok_def deliveries_def KphpMessageQueueCoalesceItems_def
        nth_append intro!: exI [of _ "[]"])
  next
    case True
    then have mem: "items ! i \<in> set items" by simp
    have ok: "item_ok (items ! i)" using less.prems(1) mem by blast
    obtain k first len fr' where call: "KphpMessageQueueCoalesceItems (entries_of items rd) i fr =
       Some (Some first, len, i + k, i + k + 1 = length items \<and> rd, fr')"
      and k: "i + k < length items" "fr' \<subseteq> {..<i + k + 1}"
      and clients: "TargetClients first = TargetClients (items ! i)"
      and bytes: "rd_bytes (Message first) 0 (unat len) = concat (map image_of (take (k + 1) (drop i items)))"
      and len: "unat len \<le> 16384"
      and same: "\<forall>item \<in> set (take (k + 1) (drop i items)). TargetClients item = TargetClients (items ! i)"
      by (rule coalesce_call [OF True ok less.prems(3)])
    let ?group = "take (k + 1) (drop i items)"
    let ?log1 = "group_log (TargetClients (items ! i)) (concat (map image_of ?group))"
    let ?S = "after_sends ?log1 S"
    have send: "send_item first (unat len) S = ?S"
      using send_item_log [of first S] less.prems(1) mem clients bytes by simp
    have log1: "log_ok ?group ?log1"
    proof -
      have "\<forall>item \<in> set ?group. item_ok item" using less.prems(1) by (auto dest!: in_set_takeD in_set_dropD)
      moreover have "distinct (TargetClients (items ! i))" using ok by (simp add: item_ok_def)
      moreover have "filter (\<lambda>item. c \<in> set (TargetClients item)) ?group =
          (if c \<in> set (TargetClients (items ! i)) then ?group else [])" for c
        using same by (auto simp: filter_id_conv filter_empty_conv)
      moreover have "length (concat (map image_of ?group)) \<le> 16384"
        using bytes len by (metis length_rd_bytes)
      ultimately show ?thesis
        unfolding log_ok_def by (simp add: deliveries_group) (simp add: group_log_def)
    qed
    have split: "drop i items = ?group @ drop (i + k + 1) items"
      by (metis add.assoc append_take_drop_id drop_drop add.commute)
    have step: "process_items (entries_of items rd) i fr S =
        (if i + k + 1 = length items \<and> rd then Some (True, ?S)
         else process_items (entries_of items rd) (i + k + 1) fr' ?S)"
      using True by (subst process_items.simps) (simp add: call send Let_def)
    have inf: "InformerState ?S = InformerState S" by simp
    show ?thesis
    proof (cases "i + k + 1 = length items \<and> rd")
      case True
      then have "drop i items = ?group" using split by simp
      then show ?thesis using step True log1 by (intro exI [of _ ?log1]) simp
    next
      case False
      have "\<exists>log. process_items (entries_of items rd) (i + k + 1) fr' ?S = Some (rd, after_sends log ?S) \<and>
          log_ok (drop (i + k + 1) items) log"
        using k less.prems(1) inf by (intro less.hyps) auto
      then obtain log where log: "process_items (entries_of items rd) (i + k + 1) fr' ?S =
          Some (rd, after_sends log ?S)" "log_ok (drop (i + k + 1) items) log" by blast
      have "log_ok (drop i items) (?log1 @ log)"
        using log1 log(2) by (subst split) (auto simp: log_ok_def deliveries_append)
      moreover have "process_items (entries_of items rd) i fr S = Some (rd, after_sends log ?S)"
        unfolding step using False log(1) by (simp only: if_False)
      ultimately show ?thesis by (intro exI [of _ "?log1 @ log"]) (simp add: after_sends_append)
    qed
  qed
qed

lemma drain_items_log:
  assumes "\<forall>item \<in> set items. item_ok item \<and> (\<forall>c \<in> set (TargetClients item). InformerState S c \<noteq> None)"
  shows "\<exists>log. drain_items items S = Some (after_sends log S) \<and> log_ok items log"
  using assms
proof (induction items arbitrary: S)
  case Nil
  show ?case by (intro exI [of _ "[]"]) (simp add: log_ok_def deliveries_def)
next
  case (Cons item items)
  obtain log1 where log1: "KphpMessageQueueProcessItems [Item item] S = Some (False, after_sends log1 S)"
    "log_ok [item] log1"
    using process_items_log [of "[item]" S 0 "{}" False] Cons.prems
    by (auto simp: KphpMessageQueueProcessItems_def)
  obtain log where log: "drain_items items (after_sends log1 S) =
      Some (after_sends (log1 @ log) S)" "log_ok items log"
    using Cons.IH [of "after_sends log1 S"] Cons.prems by (auto simp: after_sends_append)
  have "log_ok (item # items) (log1 @ log)"
    using log1(2) log(2) by (auto simp: log_ok_def deliveries_append)
  then show ?case using log1(1) log(1) by (intro exI [of _ "log1 @ log"]) simp
qed

text \<open>
  An entry that is not expected between two items makes the loop go wrong: it is passed over without
  being counted, so the index that is returned is behind an item that was coalesced and freed.
  KeRemoveQueueEx does not return such entries as it is called.
\<close>

lemma unexpected_entry_frees_twice:
  assumes "item_ok a" "item_ok b" "TargetClients a = TargetClients b"
    and fits: "unat (message_size (Message a)) + unat (message_size (Message b)) \<le> 16384"
  shows "KphpMessageQueueProcessItems [Item a, Unexpected, Item b] S = None"
proof -
  let ?s = "coalesce_start 0 {} a"
  have u: "unat (ucast (message_size (Message x)) :: u32) = unat (message_size (Message x))" for x
    by (simp add: unsigned_ucast_eq take_bit_nat_eq_self unsigned_less [THEN order_less_le_trans])
  have "unat (remainingLength ?s) + unat (message_size (Message a)) = 16384"
    using holds_start [OF assms(1), of 0 "{}"] by (auto simp: holds_def image_of_def length_image)
  then have "\<not> remainingLength ?s < ucast (message_size (Message b))"
    using fits by (simp add: word_less_nat_alt u)
  then have "coalesce [(1, Unexpected), (2, Item b)] ?s = Some (take_in 2 b ?s)"
    using assms(3) by (simp add: coalesce_start_def)
  then obtain len rd where "KphpMessageQueueCoalesceItems [Item a, Unexpected, Item b] 0 {} =
      Some (Some (First (take_in 2 b ?s)), len, 1, False, {0, 2})"
    by (simp add: KphpMessageQueueCoalesceItems_def coalesce_start_def take_in_def numeral_2_eq_2)
  moreover have "KphpMessageQueueCoalesceItems [Item a, Unexpected, Item b] 2 {0, 2} = None"
    by (simp add: KphpMessageQueueCoalesceItems_def)
  ultimately show ?thesis
    by (simp add: KphpMessageQueueProcessItems_def process_items.simps [of _ 0] process_items.simps [of _ 2]
      Let_def numeral_2_eq_2 [symmetric])
qed

section \<open>Loops over the clients\<close>

text \<open>
  A loop that drops clients, when what it does for a client reads and writes only what belongs to this
  client: \<open>view\<close> is that part of the state, \<open>local\<close> what the loop does on it, and \<open>frame\<close> the rest,
  which stays.
\<close>

locale local_loop =
  fixes dropped :: "nat \<Rightarrow> 's \<Rightarrow> bool \<times> 's" and view :: "'s \<Rightarrow> nat \<Rightarrow> 'v"
    and local :: "'v \<Rightarrow> bool \<times> 'v" and frame :: "'s \<Rightarrow> 'f"
  assumes result: "fst (dropped c S) = fst (local (view S c))"
    and own: "view (snd (dropped c S)) c = snd (local (view S c))"
    and other: "d \<noteq> c \<Longrightarrow> view (snd (dropped c S)) d = view S d"
    and frame: "frame (snd (dropped c S)) = frame S"
begin

lemma keep_clients_frame:
  "keep_clients dropped cs S = (kept, S') \<Longrightarrow> frame S' = frame S \<and> set kept \<subseteq> set cs"
proof (induction cs arbitrary: S kept)
  case (Cons c cs)
  obtain d S1 k where "dropped c S = (d, S1)" "keep_clients dropped cs S1 = (k, S')" "kept = (if d then k else c # k)"
    using Cons.prems by (auto split: prod.splits)
  then show ?case using Cons.IH [of S1 k] frame [of c S] by auto
qed simp

lemma keep_clients_local:
  assumes "distinct cs" "keep_clients dropped cs S = (kept, S')"
  shows "kept = filter (\<lambda>c. \<not> fst (local (view S c))) cs \<and> frame S' = frame S \<and>
    (\<forall>d. view S' d = (if d \<in> set cs then snd (local (view S d)) else view S d))"
  using assms
proof (induction cs arbitrary: S kept S')
  case Nil
  then show ?case by simp
next
  case (Cons c cs)
  obtain d S1 where d: "dropped c S = (d, S1)" by (metis surj_pair)
  obtain k where k: "keep_clients dropped cs S1 = (k, S')" "kept = (if d then k else c # k)"
    using Cons.prems(2) d by (auto split: prod.splits)
  have ih: "k = filter (\<lambda>c. \<not> fst (local (view S1 c))) cs" "frame S' = frame S1"
    "\<forall>x. view S' x = (if x \<in> set cs then snd (local (view S1 x)) else view S1 x)"
    using Cons.IH [OF _ k(1)] Cons.prems(1) by auto
  have S1: "view S1 c = snd (local (view S c))" "x \<noteq> c \<Longrightarrow> view S1 x = view S x" "frame S1 = frame S"
    "d = fst (local (view S c))" for x
    using own [of c S] other [of x c S] frame [of c S] result [of c S] d by auto
  have "c \<notin> set cs" using Cons.prems(1) by simp
  then have same: "x \<in> set cs \<Longrightarrow> view S1 x = view S x" for x using S1(2) by metis
  then have "filter (\<lambda>c. \<not> fst (local (view S1 c))) cs = filter (\<lambda>c. \<not> fst (local (view S c))) cs"
    by (intro filter_cong) simp_all
  then show ?case using ih S1 same k(2) \<open>c \<notin> set cs\<close> by auto
qed

end

text \<open>What belongs to a client, the rest of the state, and the two loops on what belongs to a client.\<close>

type_synonym client_view = "KPH_CLIENT_INFORMER_STATE option \<times> KPH_RING_BUFFER option"

definition client_view :: "DELIVERY \<Rightarrow> nat \<Rightarrow> client_view" where
  "client_view S c = (InformerState S c, rings S c)"

definition delivery_frame :: "DELIVERY \<Rightarrow> DELIVERY" where
  "delivery_frame S = S\<lparr> InformerState := (\<lambda>_. None), rings := (\<lambda>_. None) \<rparr>"

fun local_message_limit :: "mem \<Rightarrow> client_view \<Rightarrow> bool \<times> client_view" where
  "local_message_limit b (None, r) = (False, (None, r))"
| "local_message_limit b (Some state, r) = (let (d, state) = message_limit b state in (d, (Some state, r)))"

fun local_queue_limit :: "mem \<Rightarrow> client_view \<Rightarrow> bool \<times> client_view" where
  "local_queue_limit b (None, r) = (False, (None, r))"
| "local_queue_limit b (Some state, r) = (let (d, state) = queue_limit b state in (d, (Some state, r)))"

fun local_ring :: "mem \<Rightarrow> client_view \<Rightarrow> bool \<times> client_view" where
  "local_ring b (st, None) = local_queue_limit b (st, None)"
| "local_ring b (st, Some ring) =
     (let (copied, ring) = ring_copy b ring in
      if copied then (True, (st, Some ring)) else local_queue_limit b (st, Some ring))"

lemma put_views [simp]:
  "client_view (put_informer c state S) d = (if d = c then (Some state, rings S c) else client_view S d)"
  "delivery_frame (put_informer c state S) = delivery_frame S"
  "client_view (S\<lparr> rings := (rings S)(c \<mapsto> ring) \<rparr>) d =
     (if d = c then (InformerState S c, Some ring) else client_view S d)"
  "delivery_frame (S\<lparr> rings := R \<rparr>) = delivery_frame S"
  by (auto simp: client_view_def put_informer_def delivery_frame_def)

lemma queue_limited_view:
  "fst (KphpCommsQueueIsRateLimited b c S) = fst (local_queue_limit b (client_view S c))"
  "client_view (snd (KphpCommsQueueIsRateLimited b c S)) d =
     (if d = c then snd (local_queue_limit b (client_view S c)) else client_view S d)"
  "delivery_frame (snd (KphpCommsQueueIsRateLimited b c S)) = delivery_frame S"
  by (auto simp: KphpCommsQueueIsRateLimited_def client_view_def Let_def split: option.splits prod.splits)
    (simp_all add: client_view_def put_informer_def delivery_frame_def)

interpretation message_loop: local_loop "KphpCommsMessageIsRateLimited b" client_view "local_message_limit b"
    delivery_frame for b
  by unfold_locales
    (auto simp: KphpCommsMessageIsRateLimited_def client_view_def put_informer_def delivery_frame_def
      split: option.splits prod.splits)

definition ring_or_queue :: "mem \<Rightarrow> nat \<Rightarrow> DELIVERY \<Rightarrow> bool \<times> DELIVERY" where
  "ring_or_queue b c S =
     (let (copied, S) = KphpCommsCopyMessageToRingBuffer b c S in
      if copied then (True, S) else KphpCommsQueueIsRateLimited b c S)"

lemma ring_or_queue_view:
  "fst (ring_or_queue b c S) = fst (local_ring b (client_view S c))"
  "client_view (snd (ring_or_queue b c S)) d =
     (if d = c then snd (local_ring b (client_view S c)) else client_view S d)"
  "delivery_frame (snd (ring_or_queue b c S)) = delivery_frame S"
proof -
  have cv: "client_view S c = (InformerState S c, rings S c)" by (simp add: client_view_def)
  have "fst (ring_or_queue b c S) = fst (local_ring b (client_view S c)) \<and>
     client_view (snd (ring_or_queue b c S)) d =
       (if d = c then snd (local_ring b (client_view S c)) else client_view S d) \<and>
     delivery_frame (snd (ring_or_queue b c S)) = delivery_frame S"
  proof (cases "rings S c")
    case None
    then show ?thesis
      by (simp add: ring_or_queue_def KphpCommsCopyMessageToRingBuffer_def queue_limited_view cv)
  next
    case (Some ring)
    obtain copied ring' where copy: "ring_copy b ring = (copied, ring')" by (metis surj_pair)
    then show ?thesis
      using Some by (simp add: ring_or_queue_def KphpCommsCopyMessageToRingBuffer_def queue_limited_view cv)
  qed
  then show "fst (ring_or_queue b c S) = fst (local_ring b (client_view S c))"
    "client_view (snd (ring_or_queue b c S)) d =
     (if d = c then snd (local_ring b (client_view S c)) else client_view S d)"
    "delivery_frame (snd (ring_or_queue b c S)) = delivery_frame S" by blast+
qed

interpretation ring_loop: local_loop "ring_or_queue b" client_view "local_ring b" delivery_frame for b
  by unfold_locales (simp_all add: ring_or_queue_view)

section \<open>What becomes of a message\<close>

text \<open>A message that is copied into a ring is there for the consumer, behind the others.\<close>

lemma ring_copy_ok:
  assumes ok: "ring_ok ring es" and copy: "ring_copy b ring = (copied, ring')"
  shows "if copied then \<exists>e. ring_ok ring' (es @ [e]) \<and> eState e = Committed \<and> eData e = message_image b
         else ring' = ring"
proof (cases "KphReserveRingBuffer ring (ucast (message_size b))")
  case (Pair r ring1)
  show ?thesis
  proof (cases r)
    case None
    then show ?thesis using copy Pair reserve_failure by (auto simp: ring_copy_def)
  next
    case (Some a)
    then obtain wrap pos newPos where
      plan: "plan_reserve (RingLength ring) (ConsumerPos ring) (ProducerPos ring) (ucast (message_size b)) =
        Some (wrap, pos, newPos)"
      and a: "a = unat pos + 16"
      and r1: "ring1 = reserve_publish (reserve_write ring wrap pos (ucast (message_size b))) newPos"
      using Pair by (metis reserve_success)
    let ?e = "new_entry pos (ucast (message_size b))"
    let ?r = "ring1\<lparr> Buffer := wr_bytes (Buffer ring1) a (message_image b) \<rparr>"
    have len: "eLen ?e = length (message_image b)"
      by (simp add: length_image unsigned_ucast_eq take_bit_nat_eq_self unsigned_less [THEN order_less_le_trans])
    have off: "eOff ?e = a" by (simp add: a)
    have "ring_ok ring1 (es @ [?e])" using reserve_write_layout(2) [OF ok plan seen_now] by (simp add: r1)
    then have filled: "ring_ok ?r (es @ [?e])"
      using ring_ok_fill [of ring1 "es @ [?e]" ?e 0 "message_image b"] len off by simp
    have "map (mark (Buffer ?r) a False) (es @ [?e]) = es @ [mark (Buffer ?r) a False ?e]"
      using layout_distinct [OF filled [unfolded ring_ok_def]]
        mark_unique [of es ?e "[]" "Buffer ?r" False] off by simp
    then have "ring_ok (KphCommitRingBuffer ?r a) (es @ [mark (Buffer ?r) a False ?e])"
      using ring_ok_submit [OF filled, of ?e False] off by (simp add: KphCommitRingBuffer_def)
    moreover have "rd_bytes (Buffer ?r) a (eLen ?e) = message_image b"
      unfolding len by (rule nth_equalityI) (simp_all add: rd_bytes_nth wr_bytes_def)
    ultimately show ?thesis
      using copy Pair Some off by (auto simp: ring_copy_def mark_def)
  qed
qed

datatype outcome = Limited | InRing | QueueLimited | Queued

text \<open>
  What becomes of a message for one client, by its limits and its ring alone. The messages to clients
  are of 155 kinds, counted from KphMsgProcessCreate; each kind has its limit.
\<close>

definition kind_of :: "mem \<Rightarrow> nat option" where
  "kind_of b =
     (let k = message_id b - KphMsgProcessCreate in if 0 \<le> k \<and> k < 155 then Some (nat k) else None)"

definition kind_allows :: "mem \<Rightarrow> KPH_CLIENT_INFORMER_STATE \<Rightarrow> bool" where
  "kind_allows b state \<longleftrightarrow> (case kind_of b of
       None \<Rightarrow> True
     | Some k \<Rightarrow> snd (KphRateLimitConsumeToken (InformerRateLimit state ! k) (message_time b)))"

definition charge_kind :: "mem \<Rightarrow> KPH_CLIENT_INFORMER_STATE \<Rightarrow> KPH_CLIENT_INFORMER_STATE" where
  "charge_kind b state = (case kind_of b of
       None \<Rightarrow> state
     | Some k \<Rightarrow> state\<lparr> InformerRateLimit := (InformerRateLimit state)
         [k := fst (KphRateLimitConsumeToken (InformerRateLimit state ! k) (message_time b))] \<rparr>)"

definition queue_allows :: "mem \<Rightarrow> KPH_CLIENT_INFORMER_STATE \<Rightarrow> bool" where
  "queue_allows b state \<longleftrightarrow> snd (KphRateLimitConsumeToken (AsyncQueueRateLimit state) (message_time b))"

definition charge_queue :: "mem \<Rightarrow> KPH_CLIENT_INFORMER_STATE \<Rightarrow> KPH_CLIENT_INFORMER_STATE" where
  "charge_queue b state = state\<lparr> AsyncQueueRateLimit :=
     fst (KphRateLimitConsumeToken (AsyncQueueRateLimit state) (message_time b)) \<rparr>"

definition ring_has_room :: "mem \<Rightarrow> KPH_RING_BUFFER option \<Rightarrow> bool" where
  "ring_has_room b ring \<longleftrightarrow> (case ring of
       None \<Rightarrow> False
     | Some ring \<Rightarrow> fst (KphReserveRingBuffer ring (ucast (message_size b))) \<noteq> None)"

definition client_outcome ::
  "mem \<Rightarrow> KPH_CLIENT_INFORMER_STATE \<Rightarrow> KPH_RING_BUFFER option \<Rightarrow> outcome" where
  "client_outcome b state ring =
     (if \<not> kind_allows b state then Limited
      else if ring_has_room b ring then InRing
      else if \<not> queue_allows b state then QueueLimited
      else Queued)"

definition client_state_after ::
  "mem \<Rightarrow> KPH_CLIENT_INFORMER_STATE \<Rightarrow> KPH_RING_BUFFER option \<Rightarrow> KPH_CLIENT_INFORMER_STATE" where
  "client_state_after b state ring =
     (if client_outcome b state ring \<in> {Limited, InRing} then charge_kind b state
      else charge_queue b (charge_kind b state))"

text \<open>The limits of the code are these.\<close>

lemma kind_index:
  assumes "- (2 ^ 31) \<le> (d :: int)" "d < 2 ^ 31"
  shows "(word_of_int (d - 0x40000001) :: u32) < 155 \<longleftrightarrow> 0 \<le> d - 0x40000001 \<and> d - 0x40000001 < 155"
    and "0 \<le> d - 0x40000001 \<and> d - 0x40000001 < 155 \<Longrightarrow>
      unat (word_of_int (d - 0x40000001) :: u32) = nat (d - 0x40000001)"
proof -
  let ?k = "d - 0x40000001"
  have u: "unat (word_of_int ?k :: u32) = nat (?k mod 2 ^ 32)"
    by (simp only: unat_eq_nat_uint uint_word_of_int) simp
  show "unat (word_of_int ?k :: u32) = nat ?k" if "0 \<le> ?k \<and> ?k < 155"
    unfolding u using that by simp
  have "?k mod 2 ^ 32 = (?k + 2 ^ 32) mod 2 ^ 32" by (simp only: mod_add_self2)
  then have "?k mod 2 ^ 32 = (if 0 \<le> ?k then ?k else ?k + 2 ^ 32)"
    using assms by (auto simp: mod_pos_pos_trivial simp del: mod_add_self2)
  then show "(word_of_int ?k :: u32) < 155 \<longleftrightarrow> 0 \<le> ?k \<and> ?k < 155"
    using assms unfolding word_less_nat_alt u by (auto split: if_splits)
qed

lemma message_limit_spec: "message_limit b state = (\<not> kind_allows b state, charge_kind b state)"
proof -
  have "- (2 ^ 31) \<le> message_id b" "message_id b < 2 ^ 31"
    using sint_ge [of "rd32 b 4"] sint_lt [of "rd32 b 4"] by (simp_all add: message_id_def)
  note k = kind_index [OF this]
  define w :: u32 where "w = word_of_int (message_id b - 0x40000001)"
  have w: "word_of_int (message_id b - (MaxKphMsgClientAllowed + 1)) = w"
    by (simp add: w_def MaxKphMsgClientAllowed_def)
  have "w < word_of_int KPH_INFORMER_COUNT \<longleftrightarrow> kind_of b \<noteq> None"
    using k(1) unfolding w_def [symmetric]
    by (simp add: kind_of_def KPH_INFORMER_COUNT_def KphMsgProcessCreate_def Let_def)
  moreover have "unat w = i" if "kind_of b = Some i" for i
    using k(2) that unfolding w_def [symmetric]
    by (simp add: kind_of_def KphMsgProcessCreate_def Let_def split: if_splits)
  ultimately show ?thesis
    unfolding message_limit_def w Let_def
    by (cases "kind_of b") (auto simp: kind_allows_def charge_kind_def split: prod.splits)
qed

lemma queue_limit_spec: "queue_limit b state = (\<not> queue_allows b state, charge_queue b state)"
  by (simp add: queue_limit_def queue_allows_def charge_queue_def Let_def split: prod.splits)

lemma queue_allows_charged: "queue_allows b (charge_kind b state) = queue_allows b state"
  by (simp add: queue_allows_def charge_kind_def split: option.splits)

lemma ring_copy_room: "fst (ring_copy b ring) \<longleftrightarrow> ring_has_room b (Some ring)"
  by (auto simp: ring_copy_def ring_has_room_def split: prod.splits option.splits)

lemmas outcome_simps = message_limit_spec queue_limit_spec queue_allows_charged

lemma local_outcome:
  assumes "state = the st" "st \<noteq> None"
  shows "fst (local_message_limit b (st, ring)) \<longleftrightarrow> client_outcome b state ring = Limited"
    "client_outcome b state ring \<noteq> Limited \<Longrightarrow>
       fst (local_ring b (snd (local_message_limit b (st, ring)))) \<longleftrightarrow> client_outcome b state ring \<noteq> Queued"
    "client_outcome b state ring = Limited \<Longrightarrow>
       snd (local_message_limit b (st, ring)) = (Some (client_state_after b state ring), ring)"
    "client_outcome b state ring \<noteq> Limited \<Longrightarrow>
       fst (snd (local_ring b (snd (local_message_limit b (st, ring))))) = Some (client_state_after b state ring)"
    "client_outcome b state ring \<noteq> Limited \<Longrightarrow>
       snd (snd (local_ring b (snd (local_message_limit b (st, ring))))) =
         (case ring of None \<Rightarrow> None | Some r \<Rightarrow> Some (snd (ring_copy b r)))"
proof -
  have "fst (local_message_limit b (st, ring)) \<longleftrightarrow> client_outcome b state ring = Limited"
    using assms by (auto simp: client_outcome_def outcome_simps)
  then show "fst (local_message_limit b (st, ring)) \<longleftrightarrow> client_outcome b state ring = Limited" .
  show "client_outcome b state ring = Limited \<Longrightarrow>
       snd (local_message_limit b (st, ring)) = (Some (client_state_after b state ring), ring)"
    using assms by (auto simp: client_state_after_def outcome_simps)
  assume "client_outcome b state ring \<noteq> Limited"
  then show "fst (local_ring b (snd (local_message_limit b (st, ring)))) \<longleftrightarrow> client_outcome b state ring \<noteq> Queued"
    "fst (snd (local_ring b (snd (local_message_limit b (st, ring))))) = Some (client_state_after b state ring)"
    "snd (snd (local_ring b (snd (local_message_limit b (st, ring))))) =
         (case ring of None \<Rightarrow> None | Some r \<Rightarrow> Some (snd (ring_copy b r)))"
    using assms ring_copy_room [of b "the ring"]
    by (cases ring; auto simp: client_outcome_def client_state_after_def outcome_simps ring_has_room_def
        split: prod.splits if_splits)+
qed

lemma distinct_informer: "distinct (connected S) \<Longrightarrow> distinct (KphpGetInformerClients S)"
  by (simp add: KphpGetInformerClients_def)

lemma send_to_rings:
  assumes "distinct (connected S)"
    and run: "KphpCommsSendMessageToRingBuffers b S = (cs, S')"
  defines "out \<equiv> \<lambda>c. client_outcome b (the (InformerState S c)) (rings S c)"
  shows "cs = filter (\<lambda>c. out c = Queued) (KphpGetInformerClients S)" "delivery_frame S' = delivery_frame S"
    "client_view S' c =
       (if c \<in> set (KphpGetInformerClients S)
        then (Some (client_state_after b (the (InformerState S c)) (rings S c)),
              case rings S c of None \<Rightarrow> None
              | Some r \<Rightarrow> Some (if out c = Limited then r else snd (ring_copy b r)))
        else client_view S c)"
proof -
  let ?all = "KphpGetInformerClients S"
  have inf: "InformerState S c \<noteq> None" if "c \<in> set ?all" for c using that by (simp add: KphpGetInformerClients_def)
  obtain ds S1 where first: "keep_clients (KphpCommsMessageIsRateLimited b) ?all S = (ds, S1)" by (metis surj_pair)
  have second: "keep_clients (ring_or_queue b) ds S1 = (cs, S')"
    using run first
    by (simp add: KphpCommsSendMessageToRingBuffers_def KphpGetNonRateLimitedClients_def ring_or_queue_def [abs_def])
  note L1 = message_loop.keep_clients_local [OF distinct_informer [OF assms(1)] first]
  have ds: "ds = filter (\<lambda>c. out c \<noteq> Limited) ?all"
    unfolding conjunct1 [OF L1]
    by (intro filter_cong) (simp_all add: client_view_def out_def local_outcome(1) [OF refl] inf)
  then have "distinct ds" using distinct_informer [OF assms(1)] by simp
  note L2 = ring_loop.keep_clients_local [OF this second]
  show "delivery_frame S' = delivery_frame S" using L1 L2 by simp
  have view1: "client_view S1 c = snd (local_message_limit b (client_view S c))" if "c \<in> set ?all" for c
    using L1 that by simp
  have v: "client_view S c = (InformerState S c, rings S c)" for c by (simp add: client_view_def)
  have "cs = filter (\<lambda>c. \<not> fst (local_ring b (client_view S1 c))) ds" using L2 by simp
  also have "\<dots> = filter (\<lambda>c. out c = Queued) ds"
    by (intro filter_cong) (auto simp: ds view1 v out_def local_outcome(2) [OF refl] inf)
  also have "\<dots> = filter (\<lambda>c. out c = Queued) ?all" unfolding ds by (auto intro: filter_cong)
  finally show "cs = filter (\<lambda>c. out c = Queued) ?all" .
  show "client_view S' c =
       (if c \<in> set ?all
        then (Some (client_state_after b (the (InformerState S c)) (rings S c)),
              case rings S c of None \<Rightarrow> None
              | Some r \<Rightarrow> Some (if out c = Limited then r else snd (ring_copy b r)))
        else client_view S c)"
  proof (cases "c \<in> set ?all")
    case False
    then show ?thesis using L1 L2 ds by simp
  next
    case True
    show ?thesis
    proof (cases "out c = Limited")
      case lim: True
      then have "client_view S' c = snd (local_message_limit b (client_view S c))"
        using L2 ds view1 True by simp
      then show ?thesis
        using local_outcome(3) [OF refl inf [OF True], of b "rings S c"] lim True
        by (cases "rings S c") (simp_all add: v out_def)
    next
      case False
      then have "client_view S' c = snd (local_ring b (snd (local_message_limit b (client_view S c))))"
        using L2 ds view1 True by simp
      then show ?thesis
        using local_outcome(4,5) [OF refl inf [OF True], of b "rings S c"] False True
        by (cases "rings S c") (simp_all add: v out_def prod_eq_iff)
    qed
  qed
qed

lemma frame_fields:
  assumes "delivery_frame S' = delivery_frame S"
  shows "KphpMessageQueue S' = KphpMessageQueue S" "sends S' = sends S" "clients S' = clients S"
    "driver S' = driver S" "connected S' = connected S" "opens S' = opens S"
  using arg_cong [OF assms, of KphpMessageQueue] arg_cong [OF assms, of sends] arg_cong [OF assms, of clients]
    arg_cong [OF assms, of driver] arg_cong [OF assms, of KphpConnectedClients] arg_cong [OF assms, of opens]
    arg_cong [OF assms, of KphpConnectedClientsCount]
  by (simp_all add: delivery_frame_def connected_def)

section \<open>Properties of the delivery\<close>

text \<open>
  C20: What becomes of a message that is sent asynchronously. If the port is running down it is dropped
  and nothing changes. Otherwise each client that has made settings is decided on by its own limits and
  its own ring: the message is dropped if the limit on its kind has no token, where the kind is its
  number counted from KphMsgProcessCreate; else it is put into the ring, behind the entries that wait
  there, if the ring has room; else it is dropped if the limit on the queue has no token; else it is
  queued, for all such clients in one item, which is lost only if it cannot be allocated. Each limit
  that is asked is charged once, that of the queue only if the ring has no room, and what belongs to the
  other clients stays. The connected clients are distinct, as they are in the table of the clients.
\<close>

theorem message_reaches_clients:
  assumes "distinct (connected S)"
  shows "let S' = KphCommsSendMessageAsync running item b S;
      cs = filter (\<lambda>c. InformerState S c \<noteq> None) (connected S);
      out = (\<lambda>c. client_outcome b (the (InformerState S c)) (rings S c));
      queued = filter (\<lambda>c. out c = Queued) cs in
    if \<not> running then S' = S
    else
      KphpMessageQueue S' = KphpMessageQueue S @
        (if queued = [] \<or> \<not> item then [] else [\<lparr> Message = b, NonPaged = False, TargetClients = queued \<rparr>]) \<and>
      sends S' = sends S \<and> connected S' = connected S \<and> driver S' = driver S \<and>
      (\<forall>c. InformerState S' c =
         (if c \<in> set cs then Some (client_state_after b (the (InformerState S c)) (rings S c))
          else InformerState S c)) \<and>
      (\<forall>c ring es. rings S c = Some ring \<and> ring_ok ring es \<longrightarrow>
         (\<exists>ring'. rings S' c = Some ring' \<and>
            (if c \<in> set cs \<and> out c = InRing
             then \<exists>e. ring_ok ring' (es @ [e]) \<and> eState e = Committed \<and> eData e = message_image b
             else ring' = ring)))"
proof (cases running)
  case False
  then show ?thesis
    by (simp add: KphCommsSendMessageAsync_def KphpCommsSendMessageAsync_def send_async_def Let_def)
next
  case True
  define out where "out c = client_outcome b (the (InformerState S c)) (rings S c)" for c
  obtain qs S1 where run: "KphpCommsSendMessageToRingBuffers b S = (qs, S1)" by (metis surj_pair)
  note spec = send_to_rings [OF assms run, folded out_def] and frame = frame_fields [OF spec(2)]
  let ?S' = "KphCommsSendMessageAsync running item b S" and ?cs = "KphpGetInformerClients S"
  have S': "?S' = (if qs = [] \<or> \<not> item then S1
      else S1\<lparr> KphpMessageQueue := KphpMessageQueue S1 @ [\<lparr> Message = b, NonPaged = False, TargetClients = qs \<rparr>] \<rparr>)"
    by (simp add: KphCommsSendMessageAsync_def KphpCommsSendMessageAsync_def send_async_def run True)
  have view: "client_view ?S' c = client_view S1 c" for c by (simp add: S' client_view_def)
  have state: "InformerState ?S' c =
     (if c \<in> set ?cs then Some (client_state_after b (the (InformerState S c)) (rings S c)) else InformerState S c)" for c
    using arg_cong [OF spec(3) [of c], of fst] view [of c] by (simp add: client_view_def split: if_splits)
  have "\<exists>ring'. rings ?S' c = Some ring' \<and>
      (if c \<in> set ?cs \<and> out c = InRing
       then \<exists>e. ring_ok ring' (es @ [e]) \<and> eState e = Committed \<and> eData e = message_image b
       else ring' = ring)" if ring: "rings S c = Some ring" "ring_ok ring es" for c ring es
  proof -
    obtain copied ring' where copy: "ring_copy b ring = (copied, ring')" by (metis surj_pair)
    note ok = ring_copy_ok [OF ring(2) copy]
    have out: "out c = client_outcome b (the (InformerState S c)) (Some ring)" by (simp add: out_def ring(1))
    have "out c = InRing \<longleftrightarrow> out c \<noteq> Limited \<and> copied"
      using ring_copy_room [of b ring] copy by (auto simp: out_def client_outcome_def ring)
    moreover have "rings ?S' c = Some (if c \<in> set ?cs \<and> out c \<noteq> Limited then ring' else ring)"
      using arg_cong [OF spec(3) [of c], of snd] view [of c] ring(1) copy
      by (simp add: client_view_def out ring(1) split: if_splits)
    ultimately show ?thesis using ok by (cases copied) auto
  qed
  moreover have "sends ?S' = sends S" "connected ?S' = connected S" "driver ?S' = driver S"
    using frame by (simp_all add: S' connected_def)
  moreover have "KphpMessageQueue ?S' = KphpMessageQueue S @
      (if qs = [] \<or> \<not> item then [] else [\<lparr> Message = b, NonPaged = False, TargetClients = qs \<rparr>])"
    using frame by (simp add: S')
  ultimately show ?thesis
    using state spec(1) True unfolding Let_def out_def [symmetric] KphpGetInformerClients_def by simp
qed

text \<open>The asynchronous sends put only such items into the queue as the thread expects.\<close>

definition queue_ok :: "DELIVERY \<Rightarrow> bool" where
  "queue_ok S \<longleftrightarrow> (\<forall>item \<in> set (KphpMessageQueue S).
     item_ok item \<and> (\<forall>c \<in> set (TargetClients item). InformerState S c \<noteq> None))"

lemma queue_ok_append:
  assumes "queue_ok S" "distinct cs" "\<forall>c \<in> set cs. InformerState S c \<noteq> None"
    and "KPH_MESSAGE_MIN_SIZE \<le> message_size b" "message_size b \<le> sizeof_KPH_MESSAGE"
  shows "queue_ok (S\<lparr> KphpMessageQueue := KphpMessageQueue S @
    [\<lparr> Message = b, NonPaged = nonPaged, TargetClients = cs \<rparr>] \<rparr>)"
  using assms by (auto simp: queue_ok_def item_ok_def)

lemma async_keeps_queue_ok:
  assumes ok: "queue_ok S" and "distinct (connected S)" and "\<forall>c. target = Some c \<longrightarrow> InformerState S c \<noteq> None"
    and size: "KPH_MESSAGE_MIN_SIZE \<le> message_size b" "message_size b \<le> sizeof_KPH_MESSAGE"
  shows "queue_ok (send_async nonPaged running item b target S)"
proof (cases target)
  case (Some c)
  then show ?thesis
    using ok assms(3) queue_ok_append [OF ok _ _ size, of "[c]" nonPaged] by (simp add: send_async_def)
next
  case None
  obtain cs S1 where run: "KphpCommsSendMessageToRingBuffers b S = (cs, S1)" by (metis surj_pair)
  note spec = send_to_rings [OF assms(2) run] and queue = frame_fields(1) [OF send_to_rings(2) [OF assms(2) run]]
  have known: "InformerState S1 c \<noteq> None" if "InformerState S c \<noteq> None" for c
    using arg_cong [OF spec(3) [of c], of fst] that by (simp add: client_view_def split: if_splits)
  have cs: "distinct cs" "\<forall>c \<in> set cs. InformerState S c \<noteq> None"
    unfolding spec(1) using assms(2) by (simp_all add: KphpGetInformerClients_def)
  have kept: "queue_ok S1" using ok known queue by (simp add: queue_ok_def)
  then show ?thesis
    using ok run None known cs(2) queue_ok_append [OF kept cs(1) _ size, of nonPaged]
    by (simp add: send_async_def)
qed

text \<open>A send succeeds if the port can be referenced and the message is sent before the timeout.\<close>

definition sent_ok :: "DELIVERY \<Rightarrow> nat \<Rightarrow> bool" where
  "sent_ok S n \<longleftrightarrow> (case send_answers S n of (reference, sent) \<Rightarrow>
     NT_SUCCESS reference \<and> NT_SUCCESS sent \<and> sent \<noteq> STATUS_TIMEOUT)"

lemma send_status_ok: "NT_SUCCESS (send_status S n) \<longleftrightarrow> sent_ok S n"
  by (auto simp: send_status_def sent_ok_def KphpFltSendMessage_def STATUS_IO_TIMEOUT_def split: prod.splits)

lemma log_ok_sent:
  assumes "log_ok items log"
  shows "(\<forall>c. attempted c (stamp S n log) = map image_of (filter (\<lambda>item. c \<in> set (TargetClients item)) items)) \<and>
    (\<forall>c. (\<forall>x \<in> set (stamp S n log). fst x = c \<longrightarrow> NT_SUCCESS (snd (snd x))) \<longrightarrow>
       delivered c (stamp S n log) = map image_of (filter (\<lambda>item. c \<in> set (TargetClients item)) items)) \<and>
    (\<forall>i < length (stamp S n log). length (fst (snd (stamp S n log ! i))) \<le> unat sizeof_KPH_MESSAGE \<and>
       (NT_SUCCESS (snd (snd (stamp S n log ! i))) \<longleftrightarrow> sent_ok S (n + i)))"
  using assms delivered_all [of "stamp S n log"]
  by (auto simp: log_ok_def attempted_stamp stamp_nth sizeof_KPH_MESSAGE_def send_status_ok)

text \<open>
  C12: The queue itself loses nothing and changes nothing. However the thread coalesces the items that it
  takes, and when the port stops, every message is part of exactly one send to each client that its
  item names, whole and in the order of the queue, and of no send to another client; a send never has
  more bytes than a message may have, and no item is used after it was freed. A send succeeds
  exactly if the port of the client can be referenced and the filter manager sends before the timeout. A client whose sends all
  succeed gets all its messages; a send that fails is not tried again, and its messages are lost for
  this client. This is for items as the asynchronous sends queue them, messages of 460 to 16384 bytes
  for distinct clients that have made settings (\<open>queue_ok\<close>, which \<open>async_keeps_queue_ok\<close> shows to be kept).
\<close>

theorem queue_delivers:
  assumes "queue_ok S"
  shows "(\<exists>S' log. KphpMessageQueueThread n S = Some (False, S') \<and> sends S' = sends S @ log \<and>
      KphpMessageQueue S' = drop (min n 32) (KphpMessageQueue S) \<and>
      (\<forall>c. attempted c log =
         map image_of (filter (\<lambda>item. c \<in> set (TargetClients item)) (take (min n 32) (KphpMessageQueue S)))) \<and>
      (\<forall>c. (\<forall>x \<in> set log. fst x = c \<longrightarrow> NT_SUCCESS (snd (snd x))) \<longrightarrow> delivered c log =
         map image_of (filter (\<lambda>item. c \<in> set (TargetClients item)) (take (min n 32) (KphpMessageQueue S)))) \<and>
      (\<forall>i < length log. length (fst (snd (log ! i))) \<le> unat sizeof_KPH_MESSAGE \<and>
         (NT_SUCCESS (snd (snd (log ! i))) \<longleftrightarrow> sent_ok S (length (sends S) + i)))) \<and>
    (\<exists>S' log. KphCommsStop S = Some S' \<and> sends S' = sends S @ log \<and> KphpMessageQueue S' = [] \<and>
      (\<forall>c. attempted c log =
         map image_of (filter (\<lambda>item. c \<in> set (TargetClients item)) (KphpMessageQueue S))) \<and>
      (\<forall>c. (\<forall>x \<in> set log. fst x = c \<longrightarrow> NT_SUCCESS (snd (snd x))) \<longrightarrow> delivered c log =
         map image_of (filter (\<lambda>item. c \<in> set (TargetClients item)) (KphpMessageQueue S))) \<and>
      (\<forall>i < length log. length (fst (snd (log ! i))) \<le> unat sizeof_KPH_MESSAGE \<and>
         (NT_SUCCESS (snd (snd (log ! i))) \<longleftrightarrow> sent_ok S (length (sends S) + i))))"
proof (rule conjI)
  let ?items = "take (min n 32) (KphpMessageQueue S)"
  let ?S = "S\<lparr> KphpMessageQueue := drop (min n 32) (KphpMessageQueue S) \<rparr>"
  have "\<forall>item \<in> set ?items. item_ok item \<and> (\<forall>c \<in> set (TargetClients item). InformerState ?S c \<noteq> None)"
    using assms by (auto simp: queue_ok_def dest: in_set_takeD)
  then obtain log where log: "process_items (entries_of ?items False) 0 {} ?S = Some (False, after_sends log ?S)"
    "log_ok ?items log"
    using process_items_log [of ?items ?S 0 "{}" False] by auto
  have "stamp ?S = stamp S" by (rule stamp_cong) simp
  then show "\<exists>S' log. KphpMessageQueueThread n S = Some (False, S') \<and> sends S' = sends S @ log \<and>
      KphpMessageQueue S' = drop (min n 32) (KphpMessageQueue S) \<and>
      (\<forall>c. attempted c log = map image_of (filter (\<lambda>item. c \<in> set (TargetClients item)) ?items)) \<and>
      (\<forall>c. (\<forall>x \<in> set log. fst x = c \<longrightarrow> NT_SUCCESS (snd (snd x))) \<longrightarrow>
         delivered c log = map image_of (filter (\<lambda>item. c \<in> set (TargetClients item)) ?items)) \<and>
      (\<forall>i < length log. length (fst (snd (log ! i))) \<le> unat sizeof_KPH_MESSAGE \<and>
         (NT_SUCCESS (snd (snd (log ! i))) \<longleftrightarrow> sent_ok S (length (sends S) + i)))"
    using log(1) log_ok_sent [OF log(2), of S "length (sends S)"]
    by (intro exI [of _ "after_sends log ?S"] exI [of _ "stamp S (length (sends S)) log"])
      (simp add: KphpMessageQueueThread_def KphpMessageQueueProcessItems_def Let_def)
next
  let ?S = "S\<lparr> KphpMessageQueue := [] \<rparr>"
  have "\<forall>item \<in> set (KphpMessageQueue S). item_ok item \<and> (\<forall>c \<in> set (TargetClients item). InformerState ?S c \<noteq> None)"
    using assms by (simp add: queue_ok_def)
  then obtain log where log: "drain_items (KphpMessageQueue S) ?S = Some (after_sends log ?S)"
    "log_ok (KphpMessageQueue S) log"
    using drain_items_log [of "KphpMessageQueue S" ?S] by blast
  have "stamp ?S = stamp S" by (rule stamp_cong) simp
  then show "\<exists>S' log. KphCommsStop S = Some S' \<and> sends S' = sends S @ log \<and> KphpMessageQueue S' = [] \<and>
      (\<forall>c. attempted c log =
         map image_of (filter (\<lambda>item. c \<in> set (TargetClients item)) (KphpMessageQueue S))) \<and>
      (\<forall>c. (\<forall>x \<in> set log. fst x = c \<longrightarrow> NT_SUCCESS (snd (snd x))) \<longrightarrow> delivered c log =
         map image_of (filter (\<lambda>item. c \<in> set (TargetClients item)) (KphpMessageQueue S))) \<and>
      (\<forall>i < length log. length (fst (snd (log ! i))) \<le> unat sizeof_KPH_MESSAGE \<and>
         (NT_SUCCESS (snd (snd (log ! i))) \<longleftrightarrow> sent_ok S (length (sends S) + i)))"
    using log(1) log_ok_sent [OF log(2), of S "length (sends S)"]
    by (intro exI [of _ "after_sends log ?S"] exI [of _ "stamp S (length (sends S)) log"])
      (simp add: KphCommsStop_def)
qed

section \<open>Who may answer\<close>

lemma init_reply_unhandled: "message_id (init_reply now r) = KphMsgUnhandled"
proof -
  let ?m = "KphMsgInit (message_of r) KphMsgUnhandled now"
  have h: "length (header_bytes ?m) = 16" by (simp add: header_bytes_def length_le_bytes)
  have "rd_bytes (message_bytes ?m) 4 4 = take 4 (drop 4 (header_bytes ?m))"
    by (rule nth_equalityI) (simp_all add: rd_bytes_nth message_bytes_def wr_bytes_def h)
  also have "\<dots> = le_bytes 4 (unat (word_of_int KphMsgUnhandled :: u32))"
    by (simp add: header_bytes_def length_le_bytes KphMsgInit_def)
  finally show ?thesis
    by (simp add: message_id_def init_reply_def rd32_def le_val_le_bytes KphMsgUnhandled_def)
qed

text \<open>No process that was barred from the maximum state stops to be so.\<close>

definition barred_kept :: "SYSTEM \<Rightarrow> SYSTEM \<Rightarrow> bool" where
  "barred_kept B B' \<longleftrightarrow>
     (\<forall>e p. contexts B e = Some p \<and> barred p \<longrightarrow> (\<exists>p'. contexts B' e = Some p' \<and> barred p'))"

lemma barred_kept_refl [simp]: "barred_kept B B"
  by (auto simp: barred_kept_def)

lemma barred_kept_trans: "barred_kept B B1 \<Longrightarrow> barred_kept B1 B2 \<Longrightarrow> barred_kept B B2"
  unfolding barred_kept_def by blast

lemma test_state_barred:
  assumes "test_state K e state B = (r, B')"
  shows "barred_kept B B'"
proof (cases "contexts B e")
  case None
  then show ?thesis using assms by (simp add: test_state_def)
next
  case (Some p)
  obtain ps p' l' where run: "KphGetProcessState K e (p, lsass B) = (ps, p', l')" by (metis prod_cases3)
  then have "B' = put_context e (p', l') B"
    using assms Some by (simp add: test_state_def KphTestProcessContextState_def)
  then show ?thesis
    using queried_barred [OF queried_process_state(1) [OF run]] Some
    by (auto simp: barred_kept_def put_context_def)
qed

lemma maximum_not_barred:
  assumes "test_state K e KPH_PROCESS_STATE_MAXIMUM B = (True, B')"
    and "\<not> KphProtectionsSuppressed K"
  shows "\<exists>p. contexts B e = Some p \<and> \<not> barred p"
proof (cases "contexts B e")
  case None
  then show ?thesis using assms by (simp add: test_state_def)
next
  case (Some p)
  obtain ps p' l' where run: "KphGetProcessState K e (p, lsass B) = (ps, p', l')" by (metis prod_cases3)
  then have "KphTestProcessState ps KPH_PROCESS_STATE_MAXIMUM"
    using assms(1) Some by (simp add: test_state_def KphTestProcessContextState_def)
  then show ?thesis using barred_never_maximum [OF run _ assms(2)] Some by auto
qed

text \<open>All that has to hold for the reply of a client to be taken.\<close>

definition reply_accepted :: "KERNEL \<Rightarrow> SEND_ANSWERS \<Rightarrow> KPH_CLIENT \<Rightarrow> mem \<Rightarrow> mem \<Rightarrow> DELIVERY \<Rightarrow> bool" where
  "reply_accepted K A client u r S \<longleftrightarrow>
     sending_process A \<noteq> client_process client \<and> NT_SUCCESS (send_status S (length (sends S))) \<and>
     (\<forall>i. r i = (if i < unat (reply_length A) \<and> i < unat sizeof_KPH_MESSAGE then flt_reply A i else u i)) \<and>
     KphMsgValidate (message_of r) = STATUS_SUCCESS \<and>
     fst (test_state K (client_process client) KPH_PROCESS_STATE_MAXIMUM (driver S))"

text \<open>A send that succeeds has called FltSendMessage.\<close>

lemma sent_reply:
  assumes "NT_SUCCESS (send_status S n)"
  shows "reply_received A (fst (send_answers S n)) u =
    (\<lambda>i. if i < unat (reply_length A) \<and> i < unat sizeof_KPH_MESSAGE then flt_reply A i else u i)"
  using assms
  by (auto simp: send_status_def KphpFltSendMessage_def reply_received_def Let_def split: prod.splits if_splits)

lemma validate_status: "NT_SUCCESS (KphMsgValidate m) \<longleftrightarrow> KphMsgValidate m = STATUS_SUCCESS"
  by (simp add: KphMsgValidate_def)

lemma accepted_not_barred:
  assumes "reply_accepted K A client u r S" "\<not> KphProtectionsSuppressed K" "barred_kept B0 (driver S)"
  shows "(\<exists>p. contexts (driver S) (client_process client) = Some p \<and> \<not> barred p) \<and>
    (\<forall>p. contexts B0 (client_process client) = Some p \<longrightarrow> \<not> barred p)"
proof -
  have "\<exists>p. contexts (driver S) (client_process client) = Some p \<and> \<not> barred p"
    using assms(1,2) maximum_not_barred [of K "client_process client" "driver S"] unfolding reply_accepted_def
    by (metis prod.collapse)
  then show ?thesis using assms(3) unfolding barred_kept_def by fastforce
qed

lemma put_send_driver [simp]: "driver (put_send c bs S) = driver S"
  by (simp add: put_send_def)

lemma send_for_reply_result:
  assumes "send_for_reply K A c client b len reply S = (r, S')" and "message_id reply = KphMsgUnhandled"
  shows "(message_id r = KphMsgUnhandled \<or> reply_accepted K A client reply r S) \<and>
    barred_kept (driver S) (driver S')"
proof (cases "sending_process A = client_process client \<or> KphpGetTimeoutForMessage c b False S = None \<or>
    \<not> NT_SUCCESS (send_status S (length (sends S)))")
  case True
  then show ?thesis
    using assms init_reply_unhandled
    by (auto simp: send_for_reply_def KphpCommsSendMessageAsync_def send_async_def Let_def split: option.splits if_splits)
next
  case False
  let ?r = "\<lambda>i. if i < unat (reply_length A) \<and> i < unat sizeof_KPH_MESSAGE then flt_reply A i else reply i"
  have got: "reply_received A (fst (send_answers S (length (sends S)))) reply = ?r"
    using False by (intro sent_reply) simp
  obtain maximum B where test: "test_state K (client_process client) KPH_PROCESS_STATE_MAXIMUM (driver S) = (maximum, B)"
    by (metis surj_pair)
  have "r = (if maximum \<and> NT_SUCCESS (KphMsgValidate (message_of ?r)) then ?r
       else init_reply (KphMsgQuerySystemTime A) ?r)" "driver S' = B"
    using assms(1) False test unfolding send_for_reply_def got by (auto simp: reply_status_def Let_def)
  then show ?thesis
    using False test test_state_barred [OF test] init_reply_unhandled validate_status
    by (auto simp: reply_accepted_def)
qed

lemma send_message_result:
  assumes "KphpCommsSendMessage K A c client b len (Some r) fromAsyncQueue S = (R, S')"
  shows "\<exists>r'. R = Some r' \<and> barred_kept (driver S) (driver S') \<and>
    (if message_id r \<noteq> KphMsgUnhandled then r' = r
     else message_id r' = KphMsgUnhandled \<or> reply_accepted K A client r r' S)"
proof (cases "message_id r = KphMsgUnhandled")
  case True
  obtain r' S1 where send: "send_for_reply K A c client b len r S = (r', S1)" by (metis surj_pair)
  then show ?thesis
    using assms True send_for_reply_result [OF send True] by (auto simp: KphpCommsSendMessage_def)
next
  case False
  then show ?thesis
    using assms by (auto simp: KphpCommsSendMessage_def send_no_reply_def split: option.splits)
qed

text \<open>The first client whose reply is accepted has the authority: before it nobody answered.\<close>

definition authority ::
  "KERNEL \<Rightarrow> (nat \<Rightarrow> SEND_ANSWERS) \<Rightarrow> (nat \<Rightarrow> KPH_CLIENT option) \<Rightarrow> mem \<Rightarrow> nat list \<Rightarrow> mem \<Rightarrow> DELIVERY
     \<Rightarrow> nat list \<Rightarrow> nat \<Rightarrow> mem \<Rightarrow> bool" where
  "authority K A who b cs r S pre c r' \<longleftrightarrow>
     (\<exists>post u S1 client. cs = pre @ c # post \<and> send_each K A who b pre (Some r) S = (Some u, S1) \<and>
        message_id u = KphMsgUnhandled \<and> who c = Some client \<and> barred_kept (driver S) (driver S1) \<and>
        reply_accepted K (A c) client u r' S1)"

lemma send_each_keeps:
  "\<lbrakk>send_each K A who b cs (Some r) S = (R, S'); message_id r \<noteq> KphMsgUnhandled\<rbrakk> \<Longrightarrow>
    R = Some r \<and> barred_kept (driver S) (driver S')"
proof (induction cs arbitrary: S)
  case (Cons c cs)
  show ?case
  proof (cases "who c")
    case None
    then show ?thesis using Cons by simp
  next
    case (Some client)
    obtain R1 S1 where send:
      "KphpCommsSendMessage K (A c) c client b (unat (message_size b)) (Some r) False S = (R1, S1)"
      by (metis surj_pair)
    then have "R1 = Some r" "barred_kept (driver S) (driver S1)"
      using send_message_result [OF send] Cons.prems(2) by auto
    then show ?thesis
      using Cons.IH [of S1] Cons.prems send Some barred_kept_trans by auto
  qed
qed simp

lemma send_each_authority:
  "\<lbrakk>send_each K A who b cs (Some r) S = (R, S'); message_id r = KphMsgUnhandled\<rbrakk> \<Longrightarrow>
    \<exists>r'. R = Some r' \<and> barred_kept (driver S) (driver S') \<and>
      (message_id r' = KphMsgUnhandled \<or> (\<exists>pre c. authority K A who b cs r S pre c r'))"
proof (induction cs arbitrary: S r)
  case (Cons c cs)
  let ?sent = "case who c of None \<Rightarrow> (Some r, S)
    | Some client \<Rightarrow> KphpCommsSendMessage K (A c) c client b (unat (message_size b)) (Some r) False S"
  obtain R1 S1 where step: "?sent = (R1, S1)" by (metis surj_pair)
  have rest: "send_each K A who b cs R1 S1 = (R, S')" using Cons.prems(1) step by (simp split: option.splits)
  have first: "send_each K A who b (c # pre) (Some r) S = send_each K A who b pre R1 S1" for pre
    using step by simp
  obtain r1 where r1: "R1 = Some r1" "barred_kept (driver S) (driver S1)"
    "message_id r1 = KphMsgUnhandled \<or>
       (\<exists>client. who c = Some client \<and> reply_accepted K (A c) client r r1 S)"
    using step Cons.prems(2) send_message_result [of K "A c" c _ b "unat (message_size b)" r False S R1 S1]
    by (auto split: option.splits)
  show ?case
  proof (cases "message_id r1 = KphMsgUnhandled")
    case False
    then obtain client where "who c = Some client" "reply_accepted K (A c) client r r1 S" using r1(3) by blast
    then have "authority K A who b (c # cs) r S [] c r1" by (simp add: authority_def Cons.prems(2))
    then show ?thesis
      using send_each_keeps [OF rest [unfolded r1(1)] False] barred_kept_trans [OF r1(2)] by blast
  next
    case True
    from Cons.IH [OF rest [unfolded r1(1)] True] obtain r' where
      r': "R = Some r'" "barred_kept (driver S1) (driver S')"
      "message_id r' = KphMsgUnhandled \<or> (\<exists>pre d. authority K A who b cs r1 S1 pre d r')"
      by blast
    have "authority K A who b (c # cs) r S (c # pre) d r'" if "authority K A who b cs r1 S1 pre d r'" for pre d
      using that r1(1,2) barred_kept_trans [OF r1(2)] unfolding authority_def first by auto
    then show ?thesis using r' barred_kept_trans [OF r1(2)] by blast
  qed
qed auto

text \<open>
  C13: The first client that answers has the authority, and only a client that may. A reply that the
  driver acts on, one with another identifier than KphMsgUnhandled, comes from a client that was asked
  and that is not itself the process that waits for the answer; the send to it succeeded, its process
  passed the test for the maximum state after it, suppressed protections or not, and the reply is a
  valid message. If protections are in force no process that was barred from that state, by a debugger,
  an image that is not trusted or a writable file, so decides what the driver does. All the clients
  that were asked before it left the message unhandled. The bytes that the client answered with are the
  reply, byte for byte; behind them, for the length of the answer is not looked at, the reply keeps what
  its buffer held.
\<close>

theorem reply_authority:
  "case KphCommsSendMessage K A True now b (Some r0) S of (status, R, S') \<Rightarrow>
     \<exists>r. R = Some r \<and> (message_id r = KphMsgUnhandled \<or>
       (\<exists>pre c post client u S1.
          fst (KphpGetNonRateLimitedClients b S) = pre @ c # post \<and> c \<in> set (connected S) \<and>
          clients S c = Some client \<and>
          send_each K A (clients S) b pre (Some (init_reply now r0)) (snd (KphpGetNonRateLimitedClients b S)) =
            (Some u, S1) \<and> message_id u = KphMsgUnhandled \<and>
          sending_process (A c) \<noteq> client_process client \<and> sent_ok S1 (length (sends S1)) \<and>
          fst (test_state K (client_process client) KPH_PROCESS_STATE_MAXIMUM (driver S1)) \<and>
          (\<forall>i. r i = (if i < unat (reply_length (A c)) \<and> i < unat sizeof_KPH_MESSAGE
                     then flt_reply (A c) i else u i)) \<and>
          KphMsgValidate (message_of r) = STATUS_SUCCESS \<and>
          (\<not> KphProtectionsSuppressed K \<longrightarrow>
             (\<exists>p. contexts (driver S1) (client_process client) = Some p \<and> \<not> barred p) \<and>
             (\<forall>p. contexts (driver S) (client_process client) = Some p \<longrightarrow> \<not> barred p))))"
proof -
  obtain cs S0 where cs: "KphpGetNonRateLimitedClients b S = (cs, S0)" by (metis surj_pair)
  note sub = message_loop.keep_clients_frame [OF cs [unfolded KphpGetNonRateLimitedClients_def]]
  have frame: "clients S0 = clients S" "driver S0 = driver S" using frame_fields [OF conjunct1 [OF sub]] by simp_all
  obtain R S' where each: "send_each K A (clients S) b cs (Some (init_reply now r0)) S0 = (R, S')" by (metis surj_pair)
  then obtain status where run: "KphCommsSendMessage K A True now b (Some r0) S = (status, R, S')"
    using cs frame by (simp add: KphCommsSendMessage_def)
  obtain r where r: "R = Some r"
    "message_id r = KphMsgUnhandled \<or> (\<exists>pre c. authority K A (clients S) b cs (init_reply now r0) S0 pre c r)"
    using send_each_authority [OF each init_reply_unhandled] by blast
  show ?thesis
  proof (cases "message_id r = KphMsgUnhandled")
    case True
    then show ?thesis using r(1) by (simp add: run)
  next
    case False
    then obtain pre c post u S1 client where a: "cs = pre @ c # post"
      "send_each K A (clients S) b pre (Some (init_reply now r0)) S0 = (Some u, S1)" "message_id u = KphMsgUnhandled"
      "clients S c = Some client" "barred_kept (driver S) (driver S1)"
      "reply_accepted K (A c) client u r S1"
      using r(2) unfolding authority_def frame by blast
    have "c \<in> set (connected S)" using sub a(1) by (auto simp: KphpGetInformerClients_def)
    moreover have "\<not> KphProtectionsSuppressed K \<longrightarrow>
        (\<exists>p. contexts (driver S1) (client_process client) = Some p \<and> \<not> barred p) \<and>
        (\<forall>p. contexts (driver S) (client_process client) = Some p \<longrightarrow> \<not> barred p)"
      using accepted_not_barred [OF a(6) _ a(5)] by blast
    ultimately show ?thesis
      unfolding run prod.case cs fst_conv snd_conv
      by (intro exI [of _ r] conjI r(1) disjI2 exI [of _ pre] exI [of _ c] exI [of _ post] exI [of _ client]
          exI [of _ u] exI [of _ S1]) (use a in \<open>simp_all add: reply_accepted_def send_status_ok\<close>)
  qed
qed

section \<open>Examples\<close>

text \<open>
  Three clients are connected: 3, which takes every message, 4, which has made no settings, and 5,
  which takes none.
\<close>

definition delivery_limit :: "u32 \<Rightarrow> KPH_RATE_LIMIT" where
  "delivery_limit n =
     \<lparr> Bucket = \<lparr> CurrentTokens = n, LastRefillTime = 0 \<rparr>,
       Policy = \<lparr> TokensPerPeriod = n, PeriodInSeconds = 1, MaxBucketSize = n \<rparr>,
       Allowed = 0, Dropped = 0, CasMiss = 0 \<rparr>"

definition delivery_settings :: "u32 \<Rightarrow> KPH_CLIENT_INFORMER_STATE" where
  "delivery_settings n =
     \<lparr> MessageTimeouts = \<lparr> AsyncTimeout = 1, DefaultTimeout = 2, ProcessCreateTimeout = 3,
                         FilePreCreateTimeout = 4, FilePostCreateTimeout = 5 \<rparr>,
       AsyncQueueRateLimit = delivery_limit n, InformerRateLimit = replicate 155 (delivery_limit n) \<rparr>"

definition delivery_message :: "u8 \<Rightarrow> mem" where
  "delivery_message n = wr_bytes (wr_bytes (\<lambda>i. 0) 0 [8, 0, 204, 1, 1, 0, 0, 64]) 32 [n]"

definition delivery_example :: "bool \<Rightarrow> KPHM_QUEUE_ITEM list \<Rightarrow> DELIVERY" where
  "delivery_example tampered items =
     \<lparr> driver = comms_system tampered, clients = (\<lambda>_. None)(3 \<mapsto> comms_client),
       KphpConnectedClients = map Some [3, 4, 5] @ replicate 29 None, KphpConnectedClientsCount = 3,
       opens = [], state_failures = [],
       InformerState = [3 \<mapsto> delivery_settings 0xFFFFFFFF, 5 \<mapsto> delivery_settings 0],
       rings = (\<lambda>_. None), KphpMessageQueue = items, sends = [],
       send_answers = (\<lambda>n. (STATUS_SUCCESS, STATUS_SUCCESS)) \<rparr>"

definition delivery_item :: "u8 \<Rightarrow> KPHM_QUEUE_ITEM" where
  "delivery_item n = \<lparr> Message = delivery_message n, NonPaged = False, TargetClients = [3] \<rparr>"

lemma delivery_clients:
  "connected (delivery_example t items) = [3, 4, 5]"
  "KphpGetInformerClients (delivery_example t items) = [3, 5]"
  "InformerState (delivery_example t items) = [3 \<mapsto> delivery_settings 0xFFFFFFFF, 5 \<mapsto> delivery_settings 0]"
  "rings (delivery_example t items) = (\<lambda>_. None)" "KphpMessageQueue (delivery_example t items) = items"
  "sends (delivery_example t items) = []" "send_status (delivery_example t items) n = STATUS_SUCCESS"
  "sent_ok (delivery_example t items) n"
  by (simp_all add: KphpGetInformerClients_def connected_def delivery_example_def List.map_filter_def
      send_status_def KphpFltSendMessage_def sent_ok_def)

lemma delivery_outcomes:
  "client_outcome (delivery_message n) (delivery_settings 0xFFFFFFFF) None = Queued"
  "client_outcome (delivery_message n) (delivery_settings 0) None = Limited"
proof -
  have "rd_bytes (delivery_message n) 4 4 = [1, 0, 0, 64]"
    by (rule nth_equalityI) (simp_all add: rd_bytes_nth delivery_message_def wr_bytes_def less_Suc_eq numeral_eq_Suc, auto)
  then have "message_id (delivery_message n) = 0x40000001"
    by (simp add: message_id_def rd32_def)
  then show "client_outcome (delivery_message n) (delivery_settings 0xFFFFFFFF) None = Queued"
    "client_outcome (delivery_message n) (delivery_settings 0) None = Limited"
    by (simp_all add: client_outcome_def kind_of_def kind_allows_def queue_allows_def ring_has_room_def delivery_settings_def delivery_limit_def
      KphRateLimitConsumeToken_def is_unlimited_def is_deny_all_def KphMsgProcessCreate_def Let_def)
qed

lemma message_reaches_clients_witness:
  "KphpMessageQueue (KphCommsSendMessageAsync True True (delivery_message 7) (delivery_example False [])) =
     [delivery_item 7]"
proof -
  have "distinct (connected (delivery_example False []))" by (simp add: delivery_clients)
  from message_reaches_clients [OF this, where running = True and item = True and b = "delivery_message 7"]
  show ?thesis
    by (simp add: Let_def delivery_clients delivery_outcomes delivery_item_def)
qed

lemma delivery_item_ok: "item_ok (delivery_item n)"
proof -
  have "rd_bytes (delivery_message n) 2 2 = [204, 1]"
    by (rule nth_equalityI) (simp_all add: rd_bytes_nth delivery_message_def wr_bytes_def less_Suc_eq numeral_eq_Suc, auto)
  then have "message_size (delivery_message n) = 460" by (simp add: message_size_def rd16_def)
  then show ?thesis
    by (simp add: item_ok_def delivery_item_def KPH_MESSAGE_MIN_SIZE_def sizeof_KPH_MESSAGE_def)
qed

lemma queue_delivers_witness:
  "\<exists>S' log. KphpMessageQueueThread 32 (delivery_example False [delivery_item 1, delivery_item 2]) = Some (False, S') \<and>
     sends S' = log \<and> KphpMessageQueue S' = [] \<and>
     delivered 3 log = [image_of (delivery_item 1), image_of (delivery_item 2)] \<and> attempted 5 log = []"
proof -
  let ?S = "delivery_example False [delivery_item 1, delivery_item 2]"
  have ok: "queue_ok ?S"
    using delivery_item_ok by (simp add: queue_ok_def delivery_clients delivery_item_def)
  obtain S' log where run: "KphpMessageQueueThread 32 ?S = Some (False, S')" "sends S' = log" "KphpMessageQueue S' = []"
    "\<forall>c. attempted c log =
       map image_of (filter (\<lambda>item. c \<in> set (TargetClients item)) [delivery_item 1, delivery_item 2])"
    "(\<forall>x \<in> set log. fst x = 3 \<longrightarrow> NT_SUCCESS (snd (snd x))) \<longrightarrow> delivered 3 log =
       map image_of (filter (\<lambda>item. 3 \<in> set (TargetClients item)) [delivery_item 1, delivery_item 2])"
    "\<forall>i < length log. NT_SUCCESS (snd (snd (log ! i)))"
    using conjunct1 [OF queue_delivers [OF ok, of 32]] by (auto simp: delivery_clients)
  have "NT_SUCCESS (snd (snd x))" if "x \<in> set log" for x
  proof -
    obtain i where "i < length log" "x = log ! i" using \<open>x \<in> set log\<close> by (metis in_set_conv_nth)
    then show ?thesis using run(6) by simp
  qed
  then show ?thesis
    using run by (auto simp: delivery_item_def)
qed

text \<open>Client 3 answers with \<open>n\<close> bytes, while a thread of the process 30 waits.\<close>

definition delivery_answers :: "u32 \<Rightarrow> SEND_ANSWERS" where
  "delivery_answers n =
     \<lparr> sending_process = 30, flt_reply = comms_request 1, reply_length = n, copy_allocated = None,
       item_allocated = True, port_running = True, KphMsgQuerySystemTime = 9 \<rparr>"

lemma delivery_maximum: "fst (test_state example_kernel 20 KPH_PROCESS_STATE_MAXIMUM (comms_system False))"
  by code_simp

lemma delivery_limited:
  "fst (message_limit (delivery_message n) (delivery_settings 0))"
  "\<not> fst (message_limit (delivery_message n) (delivery_settings 0xFFFFFFFF))"
  using delivery_outcomes [of n] by (auto simp: client_outcome_def message_limit_spec split: if_splits)

text \<open>The reply that the example leaves in the buffer.\<close>

definition delivery_result :: "u32 \<Rightarrow> mem" where
  "delivery_result n =
     (\<lambda>i. if i < unat n \<and> i < unat sizeof_KPH_MESSAGE then comms_request 1 i else init_reply 9 (\<lambda>i. 0) i)"

lemma delivery_reply:
  assumes "8 \<le> unat n" "unat n \<le> 460"
  shows "message_id (delivery_result n) = 3" "message_size (delivery_result n) = 460"
    "KphMsgValidate (message_of (delivery_result n)) = STATUS_SUCCESS"
proof -
  have same: "rd_bytes (delivery_result n) a k = rd_bytes (comms_request 1) a k" if "a + k \<le> 8" for a k
    using assms that by (auto simp: rd_bytes_def delivery_result_def sizeof_KPH_MESSAGE_def)
  have "rd_bytes (comms_request 1) 0 2 = [8, 0]" "rd_bytes (comms_request 1) 2 2 = [204, 1]"
    "rd_bytes (comms_request 1) 4 4 = [3, 0, 0, 0]"
    by (code_simp, code_simp, code_simp)
  then have "rd_bytes (delivery_result n) 0 2 = [8, 0]" "rd_bytes (delivery_result n) 2 2 = [204, 1]"
    "rd_bytes (delivery_result n) 4 4 = [3, 0, 0, 0]"
    by (simp_all add: same)
  moreover have "init_reply 9 (\<lambda>i. 0) 360 = 0" "comms_request 1 360 = 0"
    by (simp_all add: init_reply_def message_bytes_def KphMsgInit_def comms_request_def wr_bytes_def)
  then have "delivery_result n 360 = 0" by (simp add: delivery_result_def)
  ultimately show "message_id (delivery_result n) = 3" "message_size (delivery_result n) = 460"
    "KphMsgValidate (message_of (delivery_result n)) = STATUS_SUCCESS"
    by (simp_all add: message_id_def message_size_def message_of_def rd16_def rd32_def KphMsgValidate_def kph_msg_constants)
qed

lemma delivery_informed: "fst (KphpGetNonRateLimitedClients (delivery_message 7) (delivery_example False [])) = [3]"
  and delivery_frame_kept:
    "delivery_frame (snd (KphpGetNonRateLimitedClients (delivery_message 7) (delivery_example False []))) =
     delivery_frame (delivery_example False [])"
  and delivery_state_kept:
    "InformerState (snd (KphpGetNonRateLimitedClients (delivery_message 7) (delivery_example False []))) 3 \<noteq> None"
proof -
  let ?S = "delivery_example False []" and ?b = "delivery_message 7"
  obtain cs S0 where cs: "KphpGetNonRateLimitedClients ?b ?S = (cs, S0)" by (metis surj_pair)
  have "distinct (KphpGetInformerClients ?S)" by (simp add: delivery_clients)
  note loop = message_loop.keep_clients_local [OF this cs [unfolded KphpGetNonRateLimitedClients_def]]
  show "fst (KphpGetNonRateLimitedClients ?b ?S) = [3]"
    using loop cs by (simp add: client_view_def delivery_clients case_prod_beta delivery_limited)
  show "delivery_frame (snd (KphpGetNonRateLimitedClients ?b ?S)) = delivery_frame ?S" using loop cs by simp
  have "client_view S0 3 = snd (local_message_limit ?b (client_view ?S 3))"
    using loop by (simp add: delivery_clients)
  then show "InformerState (snd (KphpGetNonRateLimitedClients ?b ?S)) 3 \<noteq> None"
    using cs by (simp add: client_view_def delivery_clients case_prod_beta)
qed

lemma delivery_answered:
  assumes "8 \<le> unat n" "unat n \<le> 460"
  shows "\<exists>S'. KphCommsSendMessage example_kernel (\<lambda>c. delivery_answers n) True 9 (delivery_message 7)
    (Some (\<lambda>i. 0)) (delivery_example False []) = (STATUS_SUCCESS, Some (delivery_result n), S')"
proof -
  let ?S = "delivery_example False []" and ?b = "delivery_message 7"
  obtain S0 where cs: "KphpGetNonRateLimitedClients ?b ?S = ([3], S0)"
    using delivery_informed by (metis prod.collapse)
  have frame: "delivery_frame S0 = delivery_frame ?S" and state: "InformerState S0 3 \<noteq> None"
    using delivery_frame_kept delivery_state_kept by (simp_all add: cs)
  note frame = frame_fields [OF frame] arg_cong [OF frame, of send_answers]
  have succeeds: "send_status S0 k = STATUS_SUCCESS" for k
    using frame(7) delivery_clients(7) [of False "[]" k] by (simp add: send_status_def delivery_frame_def)
  have answers: "flt_reply (delivery_answers n) = comms_request 1" "reply_length (delivery_answers n) = n"
    by (simp_all add: delivery_answers_def)
  have got: "reply_received (delivery_answers n) (fst (send_answers S0 (length (sends S0)))) (init_reply 9 (\<lambda>i. 0)) =
      delivery_result n"
    using sent_reply [of S0 "length (sends S0)" "delivery_answers n" "init_reply 9 (\<lambda>i. 0)", unfolded answers] succeeds
    unfolding delivery_result_def by simp
  note accepted = delivery_reply [OF assms]
  obtain B where test: "test_state example_kernel 20 KPH_PROCESS_STATE_MAXIMUM (comms_system False) = (True, B)"
    using delivery_maximum by (metis prod.collapse)
  have ids: "client_process comms_client = 20" "driver ?S = comms_system False" "clients ?S 3 = Some comms_client"
    "sending_process (delivery_answers n) = 30"
    by (simp_all add: comms_client_def delivery_example_def delivery_answers_def)
  show ?thesis
    using state
    by (auto simp: KphCommsSendMessage_def cs frame(1,3-6) ids KphpCommsSendMessage_def init_reply_unhandled
      send_for_reply_def KphpGetTimeoutForMessage_def succeeds got reply_status_def test accepted Let_def)
qed

text \<open>A reply of fewer bytes than its header says is taken, with what the buffer held in place of the rest.\<close>

lemma short_reply_is_completed:
  "\<exists>r S'. KphCommsSendMessage example_kernel (\<lambda>c. delivery_answers 8) True 9 (delivery_message 7)
       (Some (\<lambda>i. 0)) (delivery_example False []) = (STATUS_SUCCESS, Some r, S') \<and>
     message_id r = 3 \<and> unat (reply_length (delivery_answers 8)) < unat (message_size r) \<and>
     (\<forall>i \<ge> 8. r i = init_reply 9 (\<lambda>i. 0) i)"
proof -
  obtain S' where "KphCommsSendMessage example_kernel (\<lambda>c. delivery_answers 8) True 9 (delivery_message 7)
      (Some (\<lambda>i. 0)) (delivery_example False []) = (STATUS_SUCCESS, Some (delivery_result 8), S')"
    using delivery_answered [of 8] by auto
  moreover have "message_id (delivery_result 8) = 3" "message_size (delivery_result 8) = 460"
    by (rule delivery_reply; simp)+
  ultimately show ?thesis by (auto simp: delivery_answers_def delivery_result_def)
qed

lemma reply_authority_witness:
  "\<exists>status r S'. KphCommsSendMessage example_kernel (\<lambda>c. delivery_answers 460) True 9 (delivery_message 7)
       (Some (\<lambda>i. 0)) (delivery_example False []) = (status, Some r, S') \<and> message_id r = 3 \<and>
     (\<exists>client p. clients (delivery_example False []) 3 = Some client \<and>
        sending_process (delivery_answers 460) \<noteq> client_process client \<and>
        contexts (driver (delivery_example False [])) (client_process client) = Some p \<and> \<not> barred p)"
proof -
  let ?S = "delivery_example False []" and ?b = "delivery_message 7"
  obtain S' where run: "KphCommsSendMessage example_kernel (\<lambda>c. delivery_answers 460) True 9 ?b (Some (\<lambda>i. 0)) ?S =
      (STATUS_SUCCESS, Some (delivery_result 460), S')"
    using delivery_answered [of 460] by auto
  have id: "message_id (delivery_result 460) = 3" by (rule delivery_reply; simp)
  have K: "\<not> KphProtectionsSuppressed example_kernel" by code_simp
  have ids: "clients ?S 3 = Some comms_client" "driver ?S = comms_system False" "client_process comms_client = 20"
    by (simp_all add: comms_client_def delivery_example_def)
  obtain c client where "c = 3" "clients ?S c = Some client"
    "sending_process (delivery_answers 460) \<noteq> client_process client"
    "\<forall>p. contexts (driver ?S) (client_process client) = Some p \<longrightarrow> \<not> barred p"
    using reply_authority [where K = example_kernel and A = "\<lambda>c. delivery_answers 460" and now = 9 and b = ?b
        and ?r0.0 = "\<lambda>i. 0" and S = ?S] K id
    unfolding run delivery_informed prod.case by (auto simp: Cons_eq_append_conv KphMsgUnhandled_def)
  then show ?thesis
    using run id ids by (auto simp: comms_system_def)
qed

end
