(* ===== verification/Spec2Isabelle.thy ===== *)
theory Spec2Isabelle
  imports RateLimit DynData KphMessage RingProtocol PointerList Hashtable Unicode FilePool HandleTable
    Confinement KphObjectSafety Base64 SessionToken Comms Delivery
begin

text \<open>
  A verification library for Task Explorer (src/), of which the parts with logic of their own are
  the C code under src/ProcessHacker: the kernel driver KSystemInformer, the library kphlib that the
  driver shares with its clients, and the user-mode library phlib. The Qt application in C++ shows
  what these report and is not modelled.

  \<^bold>\<open>How the parts work together.\<close> A client connects to the communication port of the driver
  (\<open>Comms\<close>) and sends messages (\<open>KphMessage\<close>). The driver tests the state of the client's process
  (\<open>ProcessState\<close>) against what the message requires, and runs a handler. Processes that are verified
  are protected: handles to them are stripped (\<open>Protection\<close>, \<open>Confinement\<close>), the images they load are
  counted (\<open>ImageProtection\<close>). A client that needs more than its protection allows requests a signed
  token (\<open>SessionToken\<close>). What the driver observes it sends to its clients (\<open>Delivery\<close>), as messages
  whose rate is limited (\<open>RateLimit\<close>), through a ring in shared memory (\<open>RingBuffer\<close>, \<open>RingProtocol\<close>)
  or through a queue; for some it waits for an answer that decides what happens. Offsets of kernel
  structures come from a block that user mode supplies (\<open>DynData\<close>). The objects of the driver are
  reference counted (\<open>KphObject\<close>, \<open>KphObjectSafety\<close>). In user mode, phlib offers the containers and
  conversions that everything else is built from.

  \<^bold>\<open>Which theory models what\<close> (paths below src/ProcessHacker):
    \<^item> \<open>TE_Prelude\<close>: machine integers, the NTSTATUS values that occur, memory as a map from addresses
      to bytes with its little-endian cells, and the lemmas on them that the components share.
    \<^item> \<open>SafeInt\<close>: the checked arithmetic of phnt/include/ntintsafe.h.
    \<^item> \<open>RateLimit\<close>: KSystemInformer/ratelmt.c. The bucket is one 64-bit quantity in two halves; the
      compare-and-swap loop is a function and, for any number of threads, a step relation.
    \<^item> \<open>DynData\<close>: kphlib/kphdyndata.c over a block of bytes.
    \<^item> \<open>KphMessage\<close>: kphlib/kphmsg.c and kphmsgdyn.c. A message is a record of its header, the table
      and its bytes; a pointer into the table is the index of the entry.
    \<^item> \<open>RingBuffer\<close>: KSystemInformer/ringbuff.c and kphlib/kphringbuff.c, run alone; \<open>RingProtocol\<close>
      runs them as interleaved steps of producers and a consumer.
    \<^item> \<open>KphObject\<close>: KSystemInformer/kphobject.c as interleaved steps of any number of threads;
      \<open>KphObjectSafety\<close> has the invariants.
    \<^item> \<open>ProcessState\<close>: \<open>KphGetProcessState\<close> of cid_tracking.c, the evaluation of protection.c, lsa.c.
      \<open>ImageProtection\<close> and \<open>Protection\<close>: the rest of protection.c, with the tracking of
      informer_process.c, object.c and \<open>KphDominationCheck\<close> of util.c. \<open>Confinement\<close> shows what a
      system of these operations keeps.
    \<^item> \<open>SessionToken\<close>: session_token.c, \<open>KphDominationAndPrivilegeCheck\<close> of util.c and
      \<open>KphTerminateProcess\<close> of process.c.
    \<^item> \<open>Comms\<close>: the client side of comms.c, the table of comms_handlers.c, and the routines of process.c
      and thread.c that open objects. \<open>Delivery\<close>: the messages that comms.c sends, its queue and replies;
      its state extends that of \<open>Comms\<close> by the settings and rings of the clients and the queue.
    \<^item> \<open>Sequences\<close>, \<open>PointerList\<close>, \<open>Hashtable\<close>: the containers of phlib/basesup.c.
    \<^item> \<open>AvlLinks\<close> has the code of phlib/avltree.c on a heap of links and the trees it is about,
      \<open>AvlHeap\<close> the refinement of the one by the other, \<open>AvlTree\<close> the search trees; \<open>FilePool\<close> the
      views of phlib/filepool.c, which are kept in such a tree.
    \<^item> \<open>HandleTable\<close>: phlib/handle.c. \<open>Unicode\<close>: the decoder and the encoder of phlib/basestring.c and
      its ASCII conversions. \<open>Base64\<close>: phlib/base64.c with its vector instructions.

  \<^bold>\<open>Conventions.\<close> A structure is a record and its members keep their names; where a name clashes
  with one of the library it has a prefix. Integers of the code are words of their width, and the
  wrap-around is that of the word; the natural numbers that occur are lengths and indexes of arrays
  that fit into memory. A routine that may fail returns its status with its result. The result None
  of a routine means that the code would leave its memory: a NULL pointer, an index outside an
  array, a read or a write outside a buffer; the theorems say when this cannot happen. What the kernel, the
  processor or a library answers is an argument, mostly a record of answers (\<open>KERNEL\<close>,
  \<open>TOKEN_KERNEL\<close>, \<open>OPEN_KERNEL\<close>), and the theorems hold for all answers unless they say otherwise.
  Concurrent components are step relations, whose steps are the accesses to shared memory, in the
  order of the code and on sequentially consistent memory; where a rule joins accesses the theory says
  so (\<open>RingProtocol\<close>, \<open>SessionToken\<close>). Some states carry a history that the code does not
  have (what was committed, granted, opened, terminated), to state what happened.

  \<^bold>\<open>What the lemmas show.\<close> The containers refine their abstract counterparts: lists, maps from
  handles or keys, sorted lists, each over arbitrary scripts of operations, with their termination and
  the limits of the code. The buffers and messages stay inside their memory whatever the other side
  writes, and return what was put in. The encoders agree with the standards (RFC 4648 and, but for
  surrogates, RFC 3629) and the decoders invert them. The driver's components keep their guarantees over all interleavings: the
  bucket is linearizable and bounded, the ring is a queue that hands out disjoint buffers, no object
  is used after it is deleted, no deletion is forgotten, and an image is forgotten only with an APC that
  is run down. Above them stand the guarantees of the driver as a whole: a protected process is confined
  against ordinary actors from its creation on; only a process in the required state reaches a handler;
  the processes, threads, tokens and jobs that are opened for a client, and the processes that it
  terminates, were allowed; tokens are not forged, moved or overdrawn; what becomes of a message is
  determined by the limits and the ring of each client, the queue hands every message to a send to each
  client it is for, and only a client in the maximum state answers for the driver. Interfaces are
  locales, interpreted where they are provided: checked arithmetic (\<open>SafeInt\<close>), the budget of a bucket
  (\<open>RateLimit\<close>), typed fields of messages (\<open>KphMessage\<close>), sequences (\<open>Sequences\<close>), handles
  (\<open>PointerList\<close>, \<open>HandleTable\<close>), hash functions (\<open>Hashtable\<close>), the order of a tree (\<open>AvlTree\<close>), decoders
  (\<open>Unicode\<close>), and loops over clients that touch only what belongs to each (\<open>Delivery\<close>).

  Some lemmas show defects rather than guarantees: a wake-up of the consumer of the ring can be lost
  (\<open>RingProtocol\<close>); an image whose APC is run down goes unnoticed (\<open>ImageProtection\<close>); the length of a
  client's answer is not looked at (\<open>Delivery\<close>); a status in place of a queue entry would make an item
  be used after it is freed (\<open>Delivery\<close>); and the decoder raises if it is given several bytes at once
  behind an unfinished sequence (\<open>Unicode\<close>).

  \<^bold>\<open>Bounds.\<close> Loops that follow memory are partial functions or run on fuel that is proved to be
  enough: the search for an entry of a message sees at most 8 entries; the stack of the tree
  enumeration has 47 places, enough for the trees with up to 2 to the 32 elements, whose height is at
  most 45; a handle table has at most 2 to the 24 entries; a hashtable holds up to 2 to the 31 entries.
  Reference counts are assumed to stay below 2 to the 63, arrays in memory to be shorter.

  \<^bold>\<open>Not modelled.\<close> Calls into the kernel and what they do; signatures, hashes and random numbers;
  weaker memory orders than sequential consistency, and interrupt levels; the failure of allocations
  in phlib, which raise. Of the driver: the callbacks that collect events, the table of contexts, and the other handlers,
  those that open devices, drivers, files, sections and duplicates of handles included; of phlib: wrappers of system calls, parsers of images, symbols, settings, locks, the vectorised
  string routines and the user interface; the application itself; generated tables and third-party
  code. They are kernel calls with checks that restate the code, or code whose meaning lies in
  software that is not part of the repository.
\<close>

end
